(* ===== verification/Prelude.thy ===== *)
theory Prelude
  imports Main "HOL-Library.Word" "HOL-Library.Monad_Syntax"
begin

text \<open>
  What every component shares: the fixed-width integer types of \<^verbatim>\<open>include/types.h\<close>, the
  error codes of \<^verbatim>\<open>include/error.h\<close>, the fact collections, and generic lemmas on lists,
  option-valued programs and words.

  A function of the code that may stop the machine (a panic, a failed assertion, an access
  through a null pointer) returns an \<^typ>\<open>'a option\<close>: \<^term>\<open>None\<close> is "the caller never gets
  control back". Error codes that a function returns are \<^typ>\<open>int\<close> values, negative as in C.
\<close>

unbundle bit_operations_syntax

named_theorems inv_intro
named_theorems wordlem
named_theorems frame

section \<open>Machine integers\<close>

type_synonym u8 = "8 word"
type_synonym u16 = "16 word"
type_synonym u32 = "32 word"

text \<open>\<^verbatim>\<open>ROUND\<close> and \<^verbatim>\<open>ROUNDDOWN\<close>: only meaningful for a power of two \<open>n\<close>.\<close>

definition ROUND :: "u32 \<Rightarrow> u32 \<Rightarrow> u32" where
  "ROUND a n = (a + n - 1) AND NOT (n - 1)"

definition ROUNDDOWN :: "u32 \<Rightarrow> u32 \<Rightarrow> u32" where
  "ROUNDDOWN a n = a AND NOT (n - 1)"

definition cmin :: "u32 \<Rightarrow> u32 \<Rightarrow> u32" where
  "cmin a b = (if a \<le> b then a else b)"

section \<open>Error codes\<close>

definition E_UNSPECIFIED :: int where [simp]: "E_UNSPECIFIED = 1"
definition E_BAD_ENV :: int where [simp]: "E_BAD_ENV = 2"
definition E_INVAL :: int where [simp]: "E_INVAL = 3"
definition E_NO_MEM :: int where [simp]: "E_NO_MEM = 4"
definition E_NO_SYS :: int where [simp]: "E_NO_SYS = 5"
definition E_NO_FREE_ENV :: int where [simp]: "E_NO_FREE_ENV = 6"
definition E_IPC_NOT_RECV :: int where [simp]: "E_IPC_NOT_RECV = 7"
definition E_NO_DISK :: int where [simp]: "E_NO_DISK = 8"
definition E_MAX_OPEN :: int where [simp]: "E_MAX_OPEN = 9"
definition E_NOT_FOUND :: int where [simp]: "E_NOT_FOUND = 10"
definition E_BAD_PATH :: int where [simp]: "E_BAD_PATH = 11"
definition E_FILE_EXISTS :: int where [simp]: "E_FILE_EXISTS = 12"
definition E_NOT_EXEC :: int where [simp]: "E_NOT_EXEC = 13"

section \<open>Option-valued programs\<close>

text \<open>\<^verbatim>\<open>panic_on(c)\<close> and \<^verbatim>\<open>assert(c)\<close>: stop unless the condition is as required.\<close>

definition panic_on :: "bool \<Rightarrow> unit option" where
  "panic_on c = (if c then None else Some ())"

definition kassert :: "bool \<Rightarrow> unit option" where
  "kassert c = (if c then Some () else None)"

lemma panic_on_simps [simp]:
  "panic_on True = None" "panic_on False = Some ()"
  "panic_on c = Some u \<longleftrightarrow> \<not> c" "panic_on c = None \<longleftrightarrow> c"
  by (auto simp: panic_on_def)

lemma kassert_simps [simp]:
  "kassert True = Some ()" "kassert False = None"
  "kassert c = Some u \<longleftrightarrow> c" "kassert c = None \<longleftrightarrow> \<not> c"
  by (auto simp: kassert_def)

lemma bind_SomeE:
  assumes "Option.bind m f = Some y"
  obtains x where "m = Some x" "f x = Some y"
  using assms by (cases m) auto

lemma if_None_Some_iff [simp]:
  "((if c then None else m) = Some y) \<longleftrightarrow> \<not> c \<and> m = Some y"
  "((if c then m else None) = Some y) \<longleftrightarrow> c \<and> m = Some y"
  by auto

text \<open>A loop over a list whose body may stop.\<close>

fun foldM :: "('a \<Rightarrow> 's \<Rightarrow> 's option) \<Rightarrow> 'a list \<Rightarrow> 's \<Rightarrow> 's option" where
  "foldM f [] s = Some s"
| "foldM f (x # xs) s = do { s \<leftarrow> f x s; foldM f xs s }"

lemma foldM_inv:
  assumes "foldM f xs s = Some t" "I s"
    and "\<And>x s t. x \<in> set xs \<Longrightarrow> I s \<Longrightarrow> f x s = Some t \<Longrightarrow> I t"
  shows "I t"
  using assms
proof (induction xs arbitrary: s)
  case (Cons x xs)
  then obtain u where "f x s = Some u" "foldM f xs u = Some t" by (auto elim: bind_SomeE)
  with Cons show ?case by (metis list.set_intros)
qed simp

end
