(* ===== verification/Mmu.thy ===== *)
theory Mmu
  imports Prelude
begin

text \<open>
  \<^verbatim>\<open>include/mmu.h\<close> and the inline functions of \<^verbatim>\<open>include/pmap.h\<close>: the address-space layout, the
  fields of a virtual address and of a page-table entry, the entry's flag bits, and the
  translations between page numbers, physical and kernel addresses. A \<^verbatim>\<open>struct Page *\<close> is the
  index of the page in the array \<^verbatim>\<open>pages\<close> (a \<^typ>\<open>nat\<close>), so \<^verbatim>\<open>page2ppn\<close> is the identity on the
  model's side.
\<close>

section \<open>Layout\<close>

definition NASID :: nat where [simp]: "NASID = 256"
definition PAGE_SIZE :: u32 where [simp]: "PAGE_SIZE = 4096"
definition PTMAP :: u32 where [simp]: "PTMAP = PAGE_SIZE"
definition PDMAP :: u32 where [simp]: "PDMAP = 4 * 1024 * 1024"
definition PGSHIFT :: nat where [simp]: "PGSHIFT = 12"
definition PDSHIFT :: nat where [simp]: "PDSHIFT = 22"

definition ULIM :: u32 where [simp]: "ULIM = 0x80000000"
definition KSEG1 :: u32 where [simp]: "KSEG1 = 0xA0000000"
definition UVPT :: u32 where [simp]: "UVPT = ULIM - PDMAP"
definition UPAGES :: u32 where [simp]: "UPAGES = UVPT - PDMAP"
definition UENVS :: u32 where [simp]: "UENVS = UPAGES - PDMAP"
definition UTOP :: u32 where [simp]: "UTOP = UENVS"
definition UXSTACKTOP :: u32 where [simp]: "UXSTACKTOP = UTOP"
definition USTACKTOP :: u32 where [simp]: "USTACKTOP = UTOP - 2 * PTMAP"
definition UTEXT :: u32 where [simp]: "UTEXT = PDMAP"
definition UCOW :: u32 where [simp]: "UCOW = UTEXT - PTMAP"
definition UTEMP :: u32 where [simp]: "UTEMP = UCOW - PTMAP"

section \<open>Page-table entry flags\<close>

definition PTE_G :: u32 where [simp]: "PTE_G = 0x0040"
definition PTE_V :: u32 where [simp]: "PTE_V = 0x0080"
definition PTE_D :: u32 where [simp]: "PTE_D = 0x0100"
definition PTE_C_CACHEABLE :: u32 where [simp]: "PTE_C_CACHEABLE = 0x0600"
definition PTE_C_UNCACHEABLE :: u32 where [simp]: "PTE_C_UNCACHEABLE = 0x0400"
definition PTE_COW :: u32 where [simp]: "PTE_COW = 0x0001"
definition PTE_LIBRARY :: u32 where [simp]: "PTE_LIBRARY = 0x0002"
definition PTE_SWAPPED :: u32 where [simp]: "PTE_SWAPPED = 0x0008"

section \<open>Fields of addresses and entries\<close>

definition PDX :: "u32 \<Rightarrow> nat" where
  "PDX va = unat (drop_bit PDSHIFT va AND 0x03FF)"

definition PTX :: "u32 \<Rightarrow> nat" where
  "PTX va = unat (drop_bit PGSHIFT va AND 0x03FF)"

definition PTE_ADDR :: "u32 \<Rightarrow> u32" where
  "PTE_ADDR pte = pte AND NOT 0xFFF"

definition PTE_FLAGS :: "u32 \<Rightarrow> u32" where
  "PTE_FLAGS pte = pte AND 0xFFF"

definition PPN :: "u32 \<Rightarrow> nat" where
  "PPN pa = unat (drop_bit PGSHIFT pa)"

definition VPN :: "u32 \<Rightarrow> nat" where
  "VPN va = unat (drop_bit PGSHIFT va)"

text \<open>\<^verbatim>\<open>PADDR\<close> and \<^verbatim>\<open>KADDR\<close> panic on an address outside kseg0 or beyond the installed memory.\<close>

definition PADDR :: "u32 \<Rightarrow> u32 option" where
  "PADDR kva = (if kva < ULIM then None else Some (kva - ULIM))"

definition KADDR :: "nat \<Rightarrow> u32 \<Rightarrow> u32 option" where
  "KADDR npg pa = (if npg \<le> PPN pa then None else Some (pa + ULIM))"

definition page2pa :: "nat \<Rightarrow> u32" where
  "page2pa pp = push_bit PGSHIFT (word_of_nat pp)"

definition pa2page :: "nat \<Rightarrow> u32 \<Rightarrow> nat option" where
  "pa2page npg pa = (if npg \<le> PPN pa then None else Some (PPN pa))"

definition page2kva :: "nat \<Rightarrow> nat \<Rightarrow> u32 option" where
  "page2kva npg pp = KADDR npg (page2pa pp)"

text \<open>\<^verbatim>\<open>TRUP\<close>: clamp a user pointer to the end of user space.\<close>

definition TRUP :: "u32 \<Rightarrow> u32" where
  "TRUP p = (if ULIM < p then ULIM else p)"

text \<open>\<^verbatim>\<open>is_illegal_va\<close> and \<^verbatim>\<open>is_illegal_va_range\<close> (\<^verbatim>\<open>kern/syscall_all.c\<close>): what a user may name.\<close>

definition is_illegal_va :: "u32 \<Rightarrow> bool" where
  "is_illegal_va va \<longleftrightarrow> va < UTEMP \<or> va \<ge> UTOP"

definition is_illegal_va_range :: "u32 \<Rightarrow> u32 \<Rightarrow> bool" where
  "is_illegal_va_range va n \<longleftrightarrow>
     (if n = 0 then False else va + n < va \<or> va < UTEMP \<or> va + n > UTOP)"

section \<open>Facts about the fields\<close>

lemma PDX_less [simp]: "PDX va < 1024"
proof -
  have "drop_bit PDSHIFT va AND 0x03FF \<le> 0x03FF" by (rule word_and_le1)
  then have "unat (drop_bit PDSHIFT va AND 0x03FF) \<le> unat (0x03FF :: u32)"
    by (simp only: word_le_nat_alt)
  then show ?thesis by (simp add: PDX_def)
qed

lemma PTX_less [simp]: "PTX va < 1024"
proof -
  have "drop_bit PGSHIFT va AND 0x03FF \<le> 0x03FF" by (rule word_and_le1)
  then have "unat (drop_bit PGSHIFT va AND 0x03FF) \<le> unat (0x03FF :: u32)"
    by (simp only: word_le_nat_alt)
  then show ?thesis by (simp add: PTX_def)
qed

lemma mask_0xFFF: "(0xFFF :: u32) = mask 12"
  by (simp add: mask_eq_exp_minus_1)

lemma bit_0xFFF [simp]: "bit (0xFFF :: u32) n \<longleftrightarrow> n < 12"
  by (simp only: mask_0xFFF bit_mask_iff) auto

lemma bit_0xFFF_int [simp]: "bit (0xFFF :: int) n \<longleftrightarrow> n < 12"
proof -
  have "(0xFFF :: int) = mask 12" by (simp add: mask_eq_exp_minus_1)
  then show ?thesis by (simp only: bit_mask_iff) auto
qed

lemma bit_0x3FF [simp]: "bit (0x3FF :: u32) n \<longleftrightarrow> n < 10"
proof -
  have "(0x3FF :: u32) = mask 10" by (simp add: mask_eq_exp_minus_1)
  then show ?thesis by (simp only: bit_mask_iff) auto
qed

lemma bit_PTE_ADDR: "bit (PTE_ADDR x) n \<longleftrightarrow> bit x n \<and> 12 \<le> n"
  by (auto simp: PTE_ADDR_def bit_simps dest: bit_imp_le_length)

lemma bit_PTE_FLAGS: "bit (PTE_FLAGS x) n \<longleftrightarrow> bit x n \<and> n < 12"
  by (auto simp: PTE_FLAGS_def bit_simps)

lemma bit_page2pa: "bit (page2pa p) n \<longleftrightarrow> 12 \<le> n \<and> n < 32 \<and> bit p (n - 12)"
  by (auto simp: page2pa_def bit_simps)

lemma PTE_ADDR_idem [simp]: "PTE_ADDR (PTE_ADDR x) = PTE_ADDR x"
  by (rule bit_word_eqI) (auto simp: bit_PTE_ADDR)

lemma PTE_FLAGS_ADDR [simp]: "PTE_FLAGS (PTE_ADDR x) = 0"
  by (rule bit_word_eqI) (auto simp: bit_PTE_ADDR bit_PTE_FLAGS)

lemma PTE_split: "PTE_ADDR x OR PTE_FLAGS x = x"
  by (rule bit_word_eqI) (auto simp: bit_PTE_ADDR bit_PTE_FLAGS bit_simps)

lemma PPN_page2pa:
  assumes "p < 2 ^ 20"
  shows "PPN (page2pa p) = p"
proof -
  have 1: "unat (page2pa p) = p * 4096"
    using assms by (simp add: page2pa_def push_bit_eq_mult unat_word_ariths unat_of_nat)
  have "PPN (page2pa p) = unat (page2pa p) div 4096"
    by (simp only: PPN_def PGSHIFT_def unat_drop_bit_eq) (simp add: drop_bit_eq_div)
  then show ?thesis by (simp add: 1)
qed

lemma PPN_bits: "bit (PPN x) n \<longleftrightarrow> bit x (n + 12)"
  by (simp add: PPN_def unat_drop_bit_eq bit_simps bit_unsigned_iff add.commute)

lemma PPN_eqI: "(\<And>n. 12 \<le> n \<Longrightarrow> bit x n = bit y n) \<Longrightarrow> PPN x = PPN y"
  by (rule bit_eqI) (simp add: PPN_bits)

lemma PPN_PTE_ADDR [simp]: "PPN (PTE_ADDR x) = PPN x"
  by (rule PPN_eqI) (simp add: bit_PTE_ADDR)

lemma PPN_less: "PPN x < 2 ^ 20"
proof -
  have "unat x < 2 ^ 32" using unsigned_less [of x] by simp
  moreover have "PPN x = unat x div 4096"
    by (simp only: PPN_def PGSHIFT_def unat_drop_bit_eq) (simp add: drop_bit_eq_div)
  ultimately show ?thesis by simp
qed

lemma VPN_div: "VPN va = unat va div 4096"
  by (simp only: VPN_def PGSHIFT_def unat_drop_bit_eq) (simp add: drop_bit_eq_div)

end
