(* ===== verification/Queue.thy ===== *)
theory Queue
  imports Prelude
begin

text \<open>
  The intrusive lists and tail queues of \<^verbatim>\<open>include/queue.h\<close>, pointer by pointer. The nodes of one
  type (pages, environments, swap records) are numbered by \<^typ>\<open>nat\<close>; a store holds, for every
  head, its first element and, for every node, the two fields of its \<^verbatim>\<open>LIST_ENTRY\<close> or
  \<^verbatim>\<open>TAILQ_ENTRY\<close>. The back pointer is the address of the pointer that points at the node: the
  head's first field or the next field of the node before it. A macro that writes through a
  null back pointer stops (\<^term>\<open>None\<close>).

  \<open>list_rep\<close> and \<open>tailq_rep\<close> say that a store represents one HOL list per head; the lemmas show
  that each macro acts on the represented lists as expected, and the locales state that as the
  interface which the other components rely on.
\<close>

section \<open>Lists\<close>

datatype 'h loc = HeadOf 'h | NextOf nat

record 'h links =
  lh_first :: "'h \<Rightarrow> nat option"
  le_next :: "nat \<Rightarrow> nat option"
  le_prev :: "nat \<Rightarrow> 'h loc option"

fun load_loc :: "'h loc \<Rightarrow> 'h links \<Rightarrow> nat option" where
  "load_loc (HeadOf h) s = lh_first s h"
| "load_loc (NextOf n) s = le_next s n"

fun store_loc :: "'h loc \<Rightarrow> nat option \<Rightarrow> 'h links \<Rightarrow> 'h links" where
  "store_loc (HeadOf h) v s = s\<lparr>lh_first := (lh_first s)(h := v)\<rparr>"
| "store_loc (NextOf n) v s = s\<lparr>le_next := (le_next s)(n := v)\<rparr>"

definition set_prev :: "nat \<Rightarrow> 'h loc option \<Rightarrow> 'h links \<Rightarrow> 'h links" where
  "set_prev n l s = s\<lparr>le_prev := (le_prev s)(n := l)\<rparr>"

definition LIST_EMPTY :: "'h \<Rightarrow> 'h links \<Rightarrow> bool" where
  "LIST_EMPTY h s = (lh_first s h = None)"

definition LIST_FIRST :: "'h \<Rightarrow> 'h links \<Rightarrow> nat option" where
  "LIST_FIRST h s = lh_first s h"

definition LIST_NEXT :: "nat \<Rightarrow> 'h links \<Rightarrow> nat option" where
  "LIST_NEXT elm s = le_next s elm"

definition LIST_INIT :: "'h \<Rightarrow> 'h links \<Rightarrow> 'h links" where
  "LIST_INIT h s = s\<lparr>lh_first := (lh_first s)(h := None)\<rparr>"

definition LIST_INSERT_AFTER :: "nat \<Rightarrow> nat \<Rightarrow> 'h links \<Rightarrow> 'h links" where
  "LIST_INSERT_AFTER listelm elm s =
     (let s = store_loc (NextOf elm) (le_next s listelm) s;
          s = set_prev elm (Some (NextOf listelm)) s;
          s = store_loc (NextOf listelm) (Some elm) s
      in case le_next s elm of
           None \<Rightarrow> s
         | Some n \<Rightarrow> set_prev n (Some (NextOf elm)) s)"

definition LIST_INSERT_BEFORE :: "nat \<Rightarrow> nat \<Rightarrow> 'h links \<Rightarrow> 'h links option" where
  "LIST_INSERT_BEFORE listelm elm s =
     (let s = set_prev elm (le_prev s listelm) s;
          s = store_loc (NextOf elm) (Some listelm) s
      in case le_prev s listelm of
           None \<Rightarrow> None
         | Some l \<Rightarrow> Some (set_prev listelm (Some (NextOf elm)) (store_loc l (Some elm) s)))"

definition LIST_INSERT_HEAD :: "'h \<Rightarrow> nat \<Rightarrow> 'h links \<Rightarrow> 'h links" where
  "LIST_INSERT_HEAD h elm s =
     (let s = store_loc (NextOf elm) (lh_first s h) s;
          s = (case lh_first s h of
                 None \<Rightarrow> s
               | Some f \<Rightarrow> set_prev f (Some (NextOf elm)) s);
          s = store_loc (HeadOf h) (Some elm) s
      in set_prev elm (Some (HeadOf h)) s)"

definition LIST_REMOVE :: "nat \<Rightarrow> 'h links \<Rightarrow> 'h links option" where
  "LIST_REMOVE elm s =
     (let s = (case le_next s elm of
                 None \<Rightarrow> s
               | Some n \<Rightarrow> set_prev n (le_prev s elm) s)
      in case le_prev s elm of
           None \<Rightarrow> None
         | Some l \<Rightarrow> Some (store_loc l (le_next s elm) s))"

text \<open>\<^verbatim>\<open>LIST_FOREACH\<close>: the nodes met by following the next fields, at most \<open>fuel\<close> of them.\<close>

fun list_foreach :: "nat \<Rightarrow> nat option \<Rightarrow> 'h links \<Rightarrow> nat list" where
  "list_foreach 0 _ s = []"
| "list_foreach (Suc fuel) None s = []"
| "list_foreach (Suc fuel) (Some n) s = n # list_foreach fuel (le_next s n) s"

subsection \<open>The lists a store represents\<close>

fun lchain :: "'h links \<Rightarrow> 'h loc \<Rightarrow> nat list \<Rightarrow> bool" where
  "lchain s l [] = (load_loc l s = None)"
| "lchain s l (x # xs) =
     (load_loc l s = Some x \<and> le_prev s x = Some l \<and> lchain s (NextOf x) xs)"

fun lpre :: "'h links \<Rightarrow> 'h loc \<Rightarrow> nat list \<Rightarrow> bool" where
  "lpre s l [] = True"
| "lpre s l (x # xs) =
     (load_loc l s = Some x \<and> le_prev s x = Some l \<and> lpre s (NextOf x) xs)"

definition lend :: "'h loc \<Rightarrow> nat list \<Rightarrow> 'h loc" where
  "lend l xs = (if xs = [] then l else NextOf (last xs))"

definition list_rep :: "'h links \<Rightarrow> ('h \<Rightarrow> nat list) \<Rightarrow> bool" where
  "list_rep s f \<longleftrightarrow>
     (\<forall>h. lchain s (HeadOf h) (f h) \<and> distinct (f h)) \<and>
     (\<forall>h h'. h \<noteq> h' \<longrightarrow> set (f h) \<inter> set (f h') = {})"

lemma lend_simps [simp]: "lend l [] = l" "lend l (x # xs) = lend (NextOf x) xs"
  by (auto simp: lend_def)

lemma lend_snoc [simp]: "lend l (xs @ [x]) = NextOf x"
  by (simp add: lend_def)

lemma lend_append: "lend l (xs @ ys) = lend (lend l xs) ys"
  by (auto simp: lend_def)

lemma lchain_append: "lchain s l (xs @ ys) \<longleftrightarrow> lpre s l xs \<and> lchain s (lend l xs) ys"
  by (induction xs arbitrary: l) auto

lemma load_store_loc: "load_loc l' (store_loc l v s) = (if l' = l then v else load_loc l' s)"
  by (cases l; cases l') auto

lemma prev_store_loc [simp]: "le_prev (store_loc l v s) = le_prev s"
  by (cases l) auto

lemma load_set_prev [simp]: "load_loc l (set_prev n p s) = load_loc l s"
  by (cases l) (auto simp: set_prev_def)

lemma prev_set_prev [simp]: "le_prev (set_prev n p s) = (le_prev s)(n := p)"
  by (simp add: set_prev_def)

lemma next_set_prev [simp]: "le_next (set_prev n p s) = le_next s"
  by (simp add: set_prev_def)

lemma first_set_prev [simp]: "lh_first (set_prev n p s) = lh_first s"
  by (simp add: set_prev_def)

text \<open>A chain only depends on the locations and nodes it runs through.\<close>

lemma lchain_cong:
  assumes "load_loc l s = load_loc l t"
    and "\<And>x. x \<in> set xs \<Longrightarrow> le_next s x = le_next t x \<and> le_prev s x = le_prev t x"
  shows "lchain s l xs = lchain t l xs"
  using assms by (induction xs arbitrary: l) auto

lemma lpre_cong:
  assumes "xs \<noteq> [] \<Longrightarrow> load_loc l s = load_loc l t"
    and "\<And>x. x \<in> set (butlast xs) \<Longrightarrow> le_next s x = le_next t x"
    and "\<And>x. x \<in> set xs \<Longrightarrow> le_prev s x = le_prev t x"
  shows "lpre s l xs = lpre t l xs"
  using assms
proof (induction xs arbitrary: l)
  case (Cons x xs)
  show ?case using Cons.prems Cons.IH [of "NextOf x"] by (cases xs) auto
qed simp

lemma list_repD:
  assumes "list_rep s f"
  shows "lchain s (HeadOf h) (f h)" "distinct (f h)"
    "h \<noteq> h' \<Longrightarrow> x \<in> set (f h) \<Longrightarrow> x \<notin> set (f h')"
  using assms by (auto simp: list_rep_def)

lemma list_rep_updI:
  assumes rep: "list_rep s f" and own: "lchain t (HeadOf h) xs" "distinct xs"
    and other: "\<And>k. k \<noteq> h \<Longrightarrow> lchain t (HeadOf k) (f k)"
    and dis: "\<And>k z. k \<noteq> h \<Longrightarrow> z \<in> set xs \<Longrightarrow> z \<notin> set (f k)"
  shows "list_rep t (f(h := xs))"
  unfolding list_rep_def
proof (intro conjI allI impI)
  fix j k :: 'a assume "j \<noteq> k"
  then show "set ((f(h := xs)) j) \<inter> set ((f(h := xs)) k) = {}"
    using dis list_repD(3) [OF rep, of j k] by (cases "j = h"; cases "k = h") auto
qed (use own other list_repD(2) [OF rep] in auto)

lemma list_rep_first: "list_rep s f \<Longrightarrow> LIST_FIRST h s = (case f h of [] \<Rightarrow> None | x # _ \<Rightarrow> Some x)"
  using list_repD(1) [of s f h] by (cases "f h") (auto simp: LIST_FIRST_def)

lemma list_rep_empty: "list_rep s f \<Longrightarrow> LIST_EMPTY h s = (f h = [])"
  using list_rep_first [of s f h] by (cases "f h") (auto simp: LIST_EMPTY_def LIST_FIRST_def)

lemma lchain_foreach:
  "lchain s l xs \<Longrightarrow> length xs < fuel \<Longrightarrow> list_foreach fuel (load_loc l s) s = xs"
proof (induction xs arbitrary: l fuel)
  case Nil
  then show ?case by (cases fuel) auto
next
  case (Cons x xs)
  then show ?case by (cases fuel) force+
qed

subsection \<open>Insertion at the head\<close>

lemma insert_head_fields:
  fixes s :: "'h links" and h :: 'h and elm :: nat
  defines "t \<equiv> LIST_INSERT_HEAD h elm s"
  shows "lh_first t = (lh_first s)(h := Some elm)"
    "le_next t = (le_next s)(elm := lh_first s h)"
    "le_prev t =
       (case lh_first s h of
          None \<Rightarrow> (le_prev s)(elm := Some (HeadOf h))
        | Some x \<Rightarrow> (le_prev s)(x := Some (NextOf elm), elm := Some (HeadOf h)))"
  unfolding t_def
  by (auto simp: LIST_INSERT_HEAD_def Let_def set_prev_def split: option.splits)

lemma list_rep_insert_head:
  assumes rep: "list_rep s f" and new: "\<And>h'. elm \<notin> set (f h')"
  shows "list_rep (LIST_INSERT_HEAD h elm s) (f(h := elm # f h))"
proof -
  let ?t = "LIST_INSERT_HEAD h elm s"
  note fields = insert_head_fields [where h = h and elm = elm and s = s]
  have ch: "lchain s (HeadOf k) (f k)" and dk: "distinct (f k)" for k
    using list_repD [OF rep] by auto
  have other: "lchain ?t (HeadOf k) (f k)" if "k \<noteq> h" for k
  proof -
    have "x \<noteq> elm \<and> lh_first s h \<noteq> Some x" if "x \<in> set (f k)" for x
    proof -
      have "lh_first s h = Some y \<Longrightarrow> y \<in> set (f h)" for y
        using ch [of h] by (cases "f h") auto
      then show ?thesis
        using that new [of k] list_repD(3) [OF rep \<open>k \<noteq> h\<close>] by fastforce
    qed
    then have "lchain ?t (HeadOf k) (f k) = lchain s (HeadOf k) (f k)"
      using that by (intro lchain_cong) (auto simp: fields split: option.splits)
    then show ?thesis using ch by simp
  qed
  have own: "lchain ?t (HeadOf h) (elm # f h)"
  proof (cases "f h")
    case Nil
    then have "lh_first s h = None" using ch [of h] by simp
    then show ?thesis by (simp add: fields Nil)
  next
    case (Cons x xs)
    then have x: "lh_first s h = Some x" and tl: "lchain s (NextOf x) xs"
      using ch [of h] by auto
    have "lchain ?t (NextOf x) xs = lchain s (NextOf x) xs"
      using Cons new [of h] dk [of h] by (intro lchain_cong) (auto simp: fields x)
    then show ?thesis using tl x Cons new [of h] by (auto simp: fields)
  qed
  show ?thesis
    using own dk [of h] new list_repD(3) [OF rep, of h]
    by (intro list_rep_updI [OF rep _ _ other]) auto
qed

subsection \<open>Removal\<close>

lemma list_rep_remove:
  assumes rep: "list_rep s f" and mem: "elm \<in> set (f h)"
  shows "\<exists>t. LIST_REMOVE elm s = Some t \<and> list_rep t (f(h := remove1 elm (f h)))"
proof -
  obtain ys zs where fh: "f h = ys @ elm # zs" using mem by (meson split_list)
  have d: "distinct (f k)" for k using list_repD(2) [OF rep] .
  have notin: "elm \<notin> set ys" "elm \<notin> set zs" using d [of h] by (auto simp: fh)
  define l where "l = lend (HeadOf h) ys"
  have ch: "lchain s (HeadOf k) (f k)" for k using list_repD(1) [OF rep] .
  have pre: "lpre s (HeadOf h) ys" and le: "load_loc l s = Some elm"
    and pe: "le_prev s elm = Some l" and post: "lchain s (NextOf elm) zs"
    using ch [of h] by (auto simp: fh lchain_append l_def)
  let ?u = "case le_next s elm of None \<Rightarrow> s | Some n \<Rightarrow> set_prev n (Some l) s"
  let ?t = "store_loc l (le_next s elm) ?u"
  have t: "LIST_REMOVE elm s = Some ?t"
    using pe by (auto simp: LIST_REMOVE_def Let_def set_prev_def split: option.splits)
  have nx: "le_next s elm = (case zs of [] \<Rightarrow> None | z # _ \<Rightarrow> Some z)"
    using post by (cases zs) auto
  have load_t: "load_loc k ?t = (if k = l then le_next s elm else load_loc k s)" for k
    by (simp add: load_store_loc split: option.splits)
  have prev_t: "le_prev ?t = (case zs of [] \<Rightarrow> le_prev s | z # _ \<Rightarrow> (le_prev s)(z := Some l))"
    by (auto simp: nx split: list.splits option.splits)
  have next_t: "le_next ?t x = le_next s x" if "l \<noteq> NextOf x" for x
    using load_t [of "NextOf x"] that by simp
  have l_in: "l = HeadOf h \<or> (\<exists>y \<in> set ys. l = NextOf y)"
    by (auto simp: l_def lend_def)
  have other: "lchain ?t (HeadOf k) (f k)" if "k \<noteq> h" for k
  proof -
    have dis: "x \<notin> set (f h)" if "x \<in> set (f k)" for x
      using list_repD(3) [OF rep \<open>k \<noteq> h\<close> that] .
    have "lchain ?t (HeadOf k) (f k) = lchain s (HeadOf k) (f k)"
    proof (rule lchain_cong)
      show "load_loc (HeadOf k) ?t = load_loc (HeadOf k) s"
        unfolding load_t using l_in that by auto
    next
      fix x assume x: "x \<in> set (f k)"
      have "l \<noteq> NextOf x" using dis [OF x] l_in by (auto simp: fh)
      moreover have "le_prev ?t x = le_prev s x"
        unfolding prev_t using dis [OF x] by (auto simp: fh split: list.splits)
      ultimately show "le_next ?t x = le_next s x \<and> le_prev ?t x = le_prev s x"
        using next_t by blast
    qed
    then show ?thesis using ch by simp
  qed
  have "lpre ?t (HeadOf h) ys = lpre s (HeadOf h) ys"
  proof (rule lpre_cong)
    assume "ys \<noteq> []"
    then show "load_loc (HeadOf h) ?t = load_loc (HeadOf h) s"
      unfolding load_t by (simp add: l_def lend_def)
  next
    fix x assume "x \<in> set (butlast ys)"
    moreover from this have "ys \<noteq> []" by auto
    moreover have "distinct ys" using d [of h] by (simp add: fh)
    ultimately have "x \<noteq> last ys" by (cases ys rule: rev_cases) auto
    then show "le_next ?t x = le_next s x"
      using \<open>ys \<noteq> []\<close> by (intro next_t) (simp add: l_def lend_def)
  next
    fix x assume "x \<in> set ys"
    then show "le_prev ?t x = le_prev s x"
      unfolding prev_t using d [of h] by (auto simp: fh split: list.splits)
  qed
  moreover have "lchain ?t l zs"
  proof (cases zs)
    case Nil
    then show ?thesis using nx by (simp add: load_store_loc)
  next
    case (Cons z zs')
    have tl: "lchain s (NextOf z) zs'" using post by (simp add: Cons)
    have "lchain ?t (NextOf z) zs' = lchain s (NextOf z) zs'"
    proof (rule lchain_cong)
      have zl: "l \<noteq> NextOf z" using l_in d [of h] by (auto simp: fh Cons)
      then show "load_loc (NextOf z) ?t = load_loc (NextOf z) s"
        unfolding load_t by simp
    next
      fix x assume "x \<in> set zs'"
      then have "l \<noteq> NextOf x" "x \<noteq> z" using l_in d [of h] by (auto simp: fh Cons)
      then show "le_next ?t x = le_next s x \<and> le_prev ?t x = le_prev s x"
        using next_t prev_t by (simp add: Cons)
    qed
    then show ?thesis using tl nx by (simp add: load_store_loc Cons)
  qed
  ultimately have own: "lchain ?t (HeadOf h) (ys @ zs)"
    using pre by (simp add: lchain_append l_def)
  have rem: "remove1 elm (f h) = ys @ zs" using notin by (simp add: fh remove1_append)
  have "list_rep ?t (f(h := ys @ zs))"
    using d [of h] list_repD(3) [OF rep, of h]
    by (intro list_rep_updI [OF rep own _ other]) (auto simp: fh)
  then have "list_rep ?t (f(h := remove1 elm (f h)))"
    by (simp only: rem)
  then show ?thesis using t by blast
qed

subsection \<open>Insertion next to an element\<close>

fun ins_after :: "nat \<Rightarrow> nat \<Rightarrow> nat list \<Rightarrow> nat list" where
  "ins_after y x [] = []"
| "ins_after y x (z # zs) = (if z = y then z # x # zs else z # ins_after y x zs)"

fun ins_before :: "nat \<Rightarrow> nat \<Rightarrow> nat list \<Rightarrow> nat list" where
  "ins_before y x [] = []"
| "ins_before y x (z # zs) = (if z = y then x # z # zs else z # ins_before y x zs)"

lemma ins_after_split: "y \<notin> set ys \<Longrightarrow> ins_after y x (ys @ y # zs) = ys @ y # x # zs"
  by (induction ys) auto

lemma ins_before_split: "y \<notin> set ys \<Longrightarrow> ins_before y x (ys @ y # zs) = ys @ x # y # zs"
  by (induction ys) auto

lemma insert_after_fields:
  fixes s :: "'h links" and y x :: nat
  assumes "x \<noteq> y"
  defines "t \<equiv> LIST_INSERT_AFTER y x s"
  shows "lh_first t = lh_first s"
    "le_next t = (le_next s)(x := le_next s y, y := Some x)"
    "le_prev t =
       (case le_next s y of
          None \<Rightarrow> (le_prev s)(x := Some (NextOf y))
        | Some n \<Rightarrow> (le_prev s)(x := Some (NextOf y), n := Some (NextOf x)))"
  unfolding t_def using assms(1)
  by (auto simp: LIST_INSERT_AFTER_def Let_def set_prev_def split: option.splits)

text \<open>A list that does not meet the touched nodes is represented as before.\<close>

lemma lchain_frame:
  assumes "lchain s (HeadOf k) xs" "lh_first t k = lh_first s k"
    and "\<And>n. n \<in> set xs \<Longrightarrow> le_next t n = le_next s n \<and> le_prev t n = le_prev s n"
  shows "lchain t (HeadOf k) xs"
  using assms lchain_cong [of "HeadOf k" t s xs] by auto

lemma list_rep_insert_after:
  assumes rep: "list_rep s f" and mem: "y \<in> set (f h)" and new: "\<And>k. x \<notin> set (f k)"
  shows "list_rep (LIST_INSERT_AFTER y x s) (f(h := ins_after y x (f h)))"
proof -
  let ?t = "LIST_INSERT_AFTER y x s"
  obtain ys zs where fh: "f h = ys @ y # zs" using mem by (meson split_list)
  have xy: "x \<noteq> y" using mem new [of h] by auto
  note fields = insert_after_fields [OF xy, where s = s]
  have ch: "lchain s (HeadOf k) (f k)" and d: "distinct (f k)" for k
    using list_repD [OF rep] by auto
  have dh: "y \<notin> set ys" "y \<notin> set zs" "distinct ys" "distinct zs" "set ys \<inter> set zs = {}"
    "x \<notin> set ys" "x \<notin> set zs"
    using d [of h] new [of h] by (auto simp: fh)
  have pre: "lpre s (HeadOf h) (ys @ [y])" and post: "lchain s (NextOf y) zs"
    using ch [of h] lchain_append [of s "HeadOf h" "ys @ [y]" zs] by (auto simp: fh)
  have nx: "le_next s y = (case zs of [] \<Rightarrow> None | z # _ \<Rightarrow> Some z)"
    using post by (cases zs) auto
  have "lpre ?t (HeadOf h) (ys @ [y]) = lpre s (HeadOf h) (ys @ [y])"
    using dh xy by (intro lpre_cong) (auto simp: fields nx split: list.splits)
  moreover have "lchain ?t (NextOf x) zs"
  proof (cases zs)
    case Nil
    then show ?thesis using xy nx by (simp add: fields)
  next
    case (Cons z zs')
    have "lchain ?t (NextOf z) zs' = lchain s (NextOf z) zs'"
      using dh Cons by (intro lchain_cong) (auto simp: fields nx)
    then show ?thesis using post xy dh nx by (auto simp: fields Cons)
  qed
  ultimately have own: "lchain ?t (HeadOf h) (ys @ [y] @ x # zs)"
    using pre xy lchain_append [of ?t "HeadOf h" "ys @ [y]" "x # zs"] dh nx
    by (auto simp: fields split: list.splits)
  have other: "lchain ?t (HeadOf k) (f k)" if "k \<noteq> h" for k
    using list_repD(3) [OF rep that] new [of k] nx
    by (intro lchain_frame [OF ch]) (auto simp: fields fh split: list.splits)
  have "list_rep ?t (f(h := ys @ y # x # zs))"
    using own dh xy new list_repD(3) [OF rep, of h]
    by (intro list_rep_updI [OF rep _ _ other]) (auto simp: fh)
  then show ?thesis using dh(1) by (simp add: fh ins_after_split)
qed

section \<open>Tail queues\<close>

text \<open>
  A tail queue has the same links as a list and, for each head, the address of the next field
  of its last element: \<^verbatim>\<open>tqh_first\<close>, \<^verbatim>\<open>tqe_next\<close> and \<^verbatim>\<open>tqe_prev\<close> are the fields of \<open>tq_links\<close>.
\<close>

record 'h tailqs =
  tq_links :: "'h links"
  tqh_last :: "'h \<Rightarrow> 'h loc"

definition TAILQ_FIRST :: "'h \<Rightarrow> 'h tailqs \<Rightarrow> nat option" where
  "TAILQ_FIRST h s = lh_first (tq_links s) h"

definition TAILQ_EMPTY :: "'h \<Rightarrow> 'h tailqs \<Rightarrow> bool" where
  "TAILQ_EMPTY h s = (TAILQ_FIRST h s = None)"

definition TAILQ_NEXT :: "nat \<Rightarrow> 'h tailqs \<Rightarrow> nat option" where
  "TAILQ_NEXT elm s = le_next (tq_links s) elm"

definition tq_store :: "'h loc \<Rightarrow> nat option \<Rightarrow> 'h tailqs \<Rightarrow> 'h tailqs" where
  "tq_store l v s = s\<lparr>tq_links := store_loc l v (tq_links s)\<rparr>"

definition tq_set_prev :: "nat \<Rightarrow> 'h loc option \<Rightarrow> 'h tailqs \<Rightarrow> 'h tailqs" where
  "tq_set_prev n l s = s\<lparr>tq_links := set_prev n l (tq_links s)\<rparr>"

definition tq_set_last :: "'h \<Rightarrow> 'h loc \<Rightarrow> 'h tailqs \<Rightarrow> 'h tailqs" where
  "tq_set_last h l s = s\<lparr>tqh_last := (tqh_last s)(h := l)\<rparr>"

definition TAILQ_INIT :: "'h \<Rightarrow> 'h tailqs \<Rightarrow> 'h tailqs" where
  "TAILQ_INIT h s = tq_set_last h (HeadOf h) (tq_store (HeadOf h) None s)"

definition TAILQ_INSERT_HEAD :: "'h \<Rightarrow> nat \<Rightarrow> 'h tailqs \<Rightarrow> 'h tailqs" where
  "TAILQ_INSERT_HEAD h elm s =
     (let first = TAILQ_FIRST h s;
          s = tq_store (NextOf elm) first s;
          s = (case first of
                 Some f \<Rightarrow> tq_set_prev f (Some (NextOf elm)) s
               | None \<Rightarrow> tq_set_last h (NextOf elm) s);
          s = tq_store (HeadOf h) (Some elm) s
      in tq_set_prev elm (Some (HeadOf h)) s)"

definition TAILQ_INSERT_TAIL :: "'h \<Rightarrow> nat \<Rightarrow> 'h tailqs \<Rightarrow> 'h tailqs" where
  "TAILQ_INSERT_TAIL h elm s =
     (let s = tq_store (NextOf elm) None s;
          s = tq_set_prev elm (Some (tqh_last s h)) s;
          s = tq_store (tqh_last s h) (Some elm) s
      in tq_set_last h (NextOf elm) s)"

definition TAILQ_REMOVE :: "'h \<Rightarrow> nat \<Rightarrow> 'h tailqs \<Rightarrow> 'h tailqs option" where
  "TAILQ_REMOVE h elm s =
     (let prev = le_prev (tq_links s) elm
      in case prev of
           None \<Rightarrow> None
         | Some l \<Rightarrow>
             (let s = (case TAILQ_NEXT elm s of
                         Some n \<Rightarrow> tq_set_prev n prev s
                       | None \<Rightarrow> tq_set_last h l s)
              in Some (tq_store l (TAILQ_NEXT elm s) s)))"

text \<open>The page daemon clears both link fields of a page that leaves its queue.\<close>

definition tq_clear :: "nat \<Rightarrow> 'h tailqs \<Rightarrow> 'h tailqs" where
  "tq_clear elm s = tq_set_prev elm None (tq_store (NextOf elm) None s)"

definition tailq_rep :: "'h tailqs \<Rightarrow> ('h \<Rightarrow> nat list) \<Rightarrow> bool" where
  "tailq_rep s f \<longleftrightarrow>
     list_rep (tq_links s) f \<and> (\<forall>h. tqh_last s h = lend (HeadOf h) (f h))"

lemma tq_fields [simp]:
  "tq_links (tq_store l v s) = store_loc l v (tq_links s)"
  "tq_links (tq_set_prev n p s) = set_prev n p (tq_links s)"
  "tq_links (tq_set_last h l s) = tq_links s"
  "tqh_last (tq_store l v s) = tqh_last s"
  "tqh_last (tq_set_prev n p s) = tqh_last s"
  "tqh_last (tq_set_last h l s) = (tqh_last s)(h := l)"
  by (simp_all add: tq_store_def tq_set_prev_def tq_set_last_def)

lemma tailq_insert_head_links:
  "tq_links (TAILQ_INSERT_HEAD h elm s) = LIST_INSERT_HEAD h elm (tq_links s)"
  by (simp add: TAILQ_INSERT_HEAD_def LIST_INSERT_HEAD_def TAILQ_FIRST_def Let_def set_prev_def
      split: option.splits)

lemma tailq_remove_links:
  "map_option tq_links (TAILQ_REMOVE h elm s) = LIST_REMOVE elm (tq_links s)"
  by (simp add: TAILQ_REMOVE_def LIST_REMOVE_def TAILQ_NEXT_def Let_def set_prev_def
      split: option.splits)

lemma tailq_repD:
  assumes "tailq_rep s f"
  shows "list_rep (tq_links s) f" "tqh_last s h = lend (HeadOf h) (f h)"
  using assms by (auto simp: tailq_rep_def)

lemma tailq_rep_first:
  "tailq_rep s f \<Longrightarrow> TAILQ_FIRST h s = (case f h of [] \<Rightarrow> None | x # _ \<Rightarrow> Some x)"
  using list_rep_first [of "tq_links s" f h] by (simp add: tailq_rep_def TAILQ_FIRST_def LIST_FIRST_def)

lemma tailq_rep_insert_head:
  assumes rep: "tailq_rep s f" and new: "\<And>h'. elm \<notin> set (f h')"
  shows "tailq_rep (TAILQ_INSERT_HEAD h elm s) (f(h := elm # f h))"
proof -
  have "tqh_last (TAILQ_INSERT_HEAD h elm s) k = lend (HeadOf k) ((f(h := elm # f h)) k)" for k
    using tailq_repD(2) [OF rep] tailq_rep_first [OF rep, of h]
    by (cases "f h") (auto simp: TAILQ_INSERT_HEAD_def Let_def lend_def)
  then show ?thesis
    using list_rep_insert_head [OF tailq_repD(1) [OF rep] new, of h]
    by (simp add: tailq_rep_def tailq_insert_head_links)
qed

lemma tailq_rep_remove:
  assumes rep: "tailq_rep s f" and mem: "elm \<in> set (f h)"
  shows "\<exists>t. TAILQ_REMOVE h elm s = Some t \<and> tailq_rep t (f(h := remove1 elm (f h)))"
proof -
  obtain t0 where t0: "LIST_REMOVE elm (tq_links s) = Some t0"
    and rep0: "list_rep t0 (f(h := remove1 elm (f h)))"
    using list_rep_remove [of _ f, OF tailq_repD(1) [OF rep] mem] by blast
  obtain t where t: "TAILQ_REMOVE h elm s = Some t" and tl: "tq_links t = t0"
    using tailq_remove_links [of h elm s] t0 by auto
  obtain ys zs where fh: "f h = ys @ elm # zs" using mem by (meson split_list)
  have "distinct (f h)" and ch: "lchain (tq_links s) (HeadOf h) (f h)"
    using list_repD [OF tailq_repD(1) [OF rep]] by auto
  then have rem: "remove1 elm (f h) = ys @ zs" by (simp add: fh remove1_append)
  have prev: "le_prev (tq_links s) elm = Some (lend (HeadOf h) ys)"
    and nx: "le_next (tq_links s) elm = (case zs of [] \<Rightarrow> None | z # _ \<Rightarrow> Some z)"
    using ch by (auto simp: fh lchain_append) (cases zs; auto)+
  have "tqh_last t k = lend (HeadOf k) ((f(h := remove1 elm (f h))) k)" for k
    unfolding rem using t prev nx tailq_repD(2) [OF rep, of k] fh
    by (cases zs) (auto simp: TAILQ_REMOVE_def TAILQ_NEXT_def Let_def lend_append)
  then show ?thesis using t tl rep0 by (auto simp: tailq_rep_def)
qed

lemma tailq_rep_insert_tail:
  assumes rep: "tailq_rep s f" and new: "\<And>h'. elm \<notin> set (f h')"
  shows "tailq_rep (TAILQ_INSERT_TAIL h elm s) (f(h := f h @ [elm]))"
proof -
  let ?t = "TAILQ_INSERT_TAIL h elm s" and ?s = "tq_links s" and ?l = "lend (HeadOf h) (f h)"
  have last: "tqh_last s k = lend (HeadOf k) (f k)" for k using tailq_repD(2) [OF rep] .
  have ne: "NextOf elm \<noteq> ?l"
    using new [of h] by (auto simp: lend_def)
  have load: "load_loc k (tq_links ?t) =
      (if k = ?l then Some elm else if k = NextOf elm then None else load_loc k ?s)" for k
    using ne by (auto simp: TAILQ_INSERT_TAIL_def Let_def load_store_loc last simp del: store_loc.simps)
  have prev: "le_prev (tq_links ?t) = (le_prev ?s)(elm := Some ?l)"
    by (auto simp: TAILQ_INSERT_TAIL_def Let_def last)
  have nxt: "le_next (tq_links ?t) x = le_next ?s x" if "NextOf x \<noteq> ?l" "x \<noteq> elm" for x
    using load [of "NextOf x"] that by simp
  have ch: "lchain ?s (HeadOf k) (f k)" and d: "distinct (f k)" for k
    using list_repD [OF tailq_repD(1) [OF rep]] by auto
  have dis: "z \<notin> set (f k)" if "k \<noteq> h" "z \<in> set (f h)" for k z
    using list_repD(3) [OF tailq_repD(1) [OF rep], of h k z] that by auto
  have l_in: "?l = HeadOf h \<or> (f h \<noteq> [] \<and> ?l = NextOf (last (f h)))" by (auto simp: lend_def)
  have other: "lchain (tq_links ?t) (HeadOf k) (f k)" if "k \<noteq> h" for k
  proof -
    have "lchain (tq_links ?t) (HeadOf k) (f k) = lchain ?s (HeadOf k) (f k)"
    proof (rule lchain_cong)
      show "load_loc (HeadOf k) (tq_links ?t) = load_loc (HeadOf k) ?s"
        unfolding load using that l_in by auto
    next
      fix x assume x: "x \<in> set (f k)"
      then have "x \<noteq> elm" using new by blast
      moreover have "NextOf x \<noteq> ?l" using l_in x dis [OF that, of x] by auto
      ultimately show "le_next (tq_links ?t) x = le_next ?s x \<and>
          le_prev (tq_links ?t) x = le_prev ?s x"
        using nxt prev by simp
    qed
    then show ?thesis using ch by simp
  qed
  have "lpre (tq_links ?t) (HeadOf h) (f h) = lpre ?s (HeadOf h) (f h)"
  proof (rule lpre_cong)
    assume "f h \<noteq> []"
    then show "load_loc (HeadOf h) (tq_links ?t) = load_loc (HeadOf h) ?s"
      unfolding load by (simp add: lend_def)
  next
    fix x assume x: "x \<in> set (butlast (f h))"
    then have "x \<noteq> last (f h)" "x \<in> set (f h)" "f h \<noteq> []"
      using d [of h] by (cases "f h" rule: rev_cases; auto)+
    then show "le_next (tq_links ?t) x = le_next ?s x"
      using new [of h] by (intro nxt) (auto simp: lend_def)
  next
    fix x assume "x \<in> set (f h)"
    then show "le_prev (tq_links ?t) x = le_prev ?s x"
      unfolding prev using new [of h] by auto
  qed
  moreover have "lpre ?s (HeadOf h) (f h)"
    using ch [of h] lchain_append [of ?s "HeadOf h" "f h" "[]"] by simp
  ultimately have own: "lchain (tq_links ?t) (HeadOf h) (f h @ [elm])"
    using ne load [of "NextOf elm"] by (simp add: lchain_append load prev)
  have "list_rep (tq_links ?t) (f(h := f h @ [elm]))"
    using d [of h] new dis
    by (intro list_rep_updI [OF tailq_repD(1) [OF rep] own _ other]) auto
  moreover have "tqh_last ?t k = lend (HeadOf k) ((f(h := f h @ [elm])) k)" for k
    by (simp add: TAILQ_INSERT_TAIL_def Let_def last)
  ultimately show ?thesis by (simp add: tailq_rep_def)
qed

text \<open>
  Removing the element that was just removed changes nothing: its stale fields still name its
  former neighbours. (After other operations on the queue they no longer do.)
\<close>

lemma tailq_remove_twice:
  assumes rep: "tailq_rep s f" and mem: "elm \<in> set (f h)"
    and rem: "TAILQ_REMOVE h elm s = Some t"
  shows "TAILQ_REMOVE h elm t = Some t"
proof -
  obtain ys zs where fh: "f h = ys @ elm # zs" using mem by (meson split_list)
  have d: "distinct (f h)" and ch: "lchain (tq_links s) (HeadOf h) (f h)"
    using list_repD [OF tailq_repD(1) [OF rep]] by auto
  have prev: "le_prev (tq_links s) elm = Some (lend (HeadOf h) ys)"
    and nx: "le_next (tq_links s) elm = (case zs of [] \<Rightarrow> None | z # _ \<Rightarrow> Some z)"
    using ch by (auto simp: fh lchain_append) (cases zs; auto)+
  have l: "lend (HeadOf h) ys \<noteq> NextOf elm" using d by (auto simp: fh lend_def)
  show ?thesis
  proof (cases zs)
    case Nil
    then have t: "t = tq_store (lend (HeadOf h) ys) None (tq_set_last h (lend (HeadOf h) ys) s)"
      using rem prev nx by (simp add: TAILQ_REMOVE_def TAILQ_NEXT_def)
    have "load_loc (NextOf elm) (tq_links t) = None"
      using l nx Nil by (simp add: t load_store_loc)
    then have "le_next (tq_links t) elm = None" by simp
    then show ?thesis using prev
      by (cases "lend (HeadOf h) ys")
        (simp_all add: TAILQ_REMOVE_def TAILQ_NEXT_def t tq_store_def tq_set_last_def)
  next
    case (Cons z zs')
    then have t: "t = tq_store (lend (HeadOf h) ys) (Some z)
        (tq_set_prev z (Some (lend (HeadOf h) ys)) s)"
      using rem prev nx by (simp add: TAILQ_REMOVE_def TAILQ_NEXT_def)
    have "load_loc (NextOf elm) (tq_links t) = Some z"
      using l nx Cons by (simp add: t load_store_loc)
    then have n: "le_next (tq_links t) elm = Some z" by simp
    have "z \<noteq> elm" using d by (auto simp: fh Cons)
    then show ?thesis using prev n
      by (cases "lend (HeadOf h) ys")
        (simp_all add: TAILQ_REMOVE_def TAILQ_NEXT_def t tq_store_def tq_set_prev_def set_prev_def)
  qed
qed

section \<open>The interface of the lists\<close>

text \<open>
  What the clients of the two structures rely on: every operation acts on the represented
  lists as the list function named in the law. The clients' own lemmas (taking the first
  element, moving one list onto another, rotating a queue) are proved from the laws only.
\<close>

locale intrusive_lists =
  fixes rep :: "'s \<Rightarrow> ('h \<Rightarrow> nat list) \<Rightarrow> bool"
    and first :: "'h \<Rightarrow> 's \<Rightarrow> nat option"
    and insert_head :: "'h \<Rightarrow> nat \<Rightarrow> 's \<Rightarrow> 's"
    and remove :: "'h \<Rightarrow> nat \<Rightarrow> 's \<Rightarrow> 's option"
  assumes rep_distinct: "rep s f \<Longrightarrow> distinct (f h)"
    and rep_disjoint: "rep s f \<Longrightarrow> h \<noteq> h' \<Longrightarrow> x \<in> set (f h) \<Longrightarrow> x \<notin> set (f h')"
    and rep_first: "rep s f \<Longrightarrow> first h s = (case f h of [] \<Rightarrow> None | x # _ \<Rightarrow> Some x)"
    and rep_insert_head:
      "rep s f \<Longrightarrow> (\<And>k. x \<notin> set (f k)) \<Longrightarrow> rep (insert_head h x s) (f(h := x # f h))"
    and rep_remove:
      "rep s f \<Longrightarrow> x \<in> set (f h) \<Longrightarrow>
         \<exists>t. remove h x s = Some t \<and> rep t (f(h := remove1 x (f h)))"
begin

lemma remove_first:
  assumes "rep s f" "f h = x # xs"
  shows "\<exists>t. remove h x s = Some t \<and> rep t (f(h := xs))"
  using rep_remove [of s f x h] assms by simp

lemma move_first:
  assumes rep: "rep s f" and src: "f src = x # xs" and ne: "src \<noteq> dst"
  shows "\<exists>t. remove src x s = Some t \<and>
           rep (insert_head dst x t) (f(src := xs, dst := x # f dst))"
proof -
  obtain t where t: "remove src x s = Some t" and rt: "rep t (f(src := xs))"
    using remove_first [of _ f, OF rep src] by blast
  have "x \<notin> set ((f(src := xs)) k)" for k
    using rep_distinct [OF rep, of src] rep_disjoint [OF rep, of src k x] src by auto
  moreover have "(f(src := xs)) dst = f dst" using ne by simp
  ultimately show ?thesis using rep_insert_head [OF rt, of x dst] t by metis
qed

end

locale intrusive_queues = intrusive_lists rep first insert_head remove
  for rep :: "'s \<Rightarrow> ('h \<Rightarrow> nat list) \<Rightarrow> bool" and first insert_head remove +
  fixes insert_tail :: "'h \<Rightarrow> nat \<Rightarrow> 's \<Rightarrow> 's"
  assumes rep_insert_tail:
    "rep s f \<Longrightarrow> (\<And>k. x \<notin> set (f k)) \<Longrightarrow> rep (insert_tail h x s) (f(h := f h @ [x]))"
begin

lemma move_to_tail:
  assumes rep: "rep s f" and mem: "x \<in> set (f h)"
  shows "\<exists>t. remove h x s = Some t \<and>
           rep (insert_tail h x t) (f(h := remove1 x (f h) @ [x]))"
proof -
  obtain t where t: "remove h x s = Some t" and rt: "rep t (f(h := remove1 x (f h)))"
    using rep_remove [of s f x h] rep mem by blast
  have "x \<notin> set ((f(h := remove1 x (f h))) k)" for k
    using rep_distinct [OF rep, of h] rep_disjoint [OF rep, of h k x] mem
    by (auto simp: set_remove1_eq)
  from rep_insert_tail [OF rt this, of h] t show ?thesis by (simp del: fun_upd_apply) simp
qed

end

interpretation lst: intrusive_lists list_rep LIST_FIRST LIST_INSERT_HEAD "\<lambda>h. LIST_REMOVE"
  by unfold_locales
    (auto dest: list_repD list_rep_first intro: list_rep_insert_head list_rep_remove)

interpretation tq: intrusive_queues tailq_rep TAILQ_FIRST TAILQ_INSERT_HEAD TAILQ_REMOVE
  TAILQ_INSERT_TAIL
  by unfold_locales
    (auto dest: list_repD(2) [OF tailq_repD(1)] list_repD(3) [OF tailq_repD(1)] tailq_rep_first
      intro: tailq_rep_insert_head tailq_rep_remove tailq_rep_insert_tail)

section \<open>Moving one list onto another\<close>

text \<open>
  \<^verbatim>\<open>while (!LIST_EMPTY(src)) { e = LIST_FIRST(src); LIST_REMOVE(e); LIST_INSERT_HEAD(dst, e); }\<close>,
  the loop of \<^verbatim>\<open>swap\<close> and \<^verbatim>\<open>swap_back\<close>.
\<close>

partial_function (option) LIST_MOVE_ALL :: "'h \<Rightarrow> 'h \<Rightarrow> 'h links \<Rightarrow> 'h links option" where
  "LIST_MOVE_ALL src dst s =
     (case LIST_FIRST src s of
        None \<Rightarrow> Some s
      | Some e \<Rightarrow> do {
          t \<leftarrow> LIST_REMOVE e s;
          LIST_MOVE_ALL src dst (LIST_INSERT_HEAD dst e t) })"

lemma list_move_all_rep:
  assumes "list_rep s f" "src \<noteq> dst"
  shows "\<exists>t. LIST_MOVE_ALL src dst s = Some t \<and>
           list_rep t (f(src := [], dst := rev (f src) @ f dst))"
  using assms
proof (induction "f src" arbitrary: s f)
  case Nil
  moreover have "f(src := [], dst := f dst) = f" using Nil(1) by auto
  ultimately show ?case
    using lst.rep_first [OF Nil(2), of src] by (subst LIST_MOVE_ALL.simps) simp
next
  case (Cons x xs)
  obtain t where t: "LIST_REMOVE x s = Some t"
    and rt: "list_rep (LIST_INSERT_HEAD dst x t) (f(src := xs, dst := x # f dst))"
    using lst.move_first [of s f src x xs dst] Cons.prems Cons.hyps(2) by auto
  let ?f = "f(src := xs, dst := x # f dst)"
  have "xs = ?f src" using Cons.prems(2) by simp
  from Cons.hyps(1) [OF this rt Cons.prems(2)] obtain u where
    u: "LIST_MOVE_ALL src dst (LIST_INSERT_HEAD dst x t) = Some u"
    and ru: "list_rep u (?f(src := [], dst := rev (?f src) @ ?f dst))"
    by blast
  have "?f(src := [], dst := rev (?f src) @ ?f dst) = f(src := [], dst := rev (f src) @ f dst)"
    using Cons.prems(2) Cons.hyps(2) [symmetric] by (auto simp: fun_eq_iff)
  then show ?case
    using t u ru lst.rep_first [OF Cons.prems(1), of src] Cons.hyps(2) [symmetric]
    by (subst LIST_MOVE_ALL.simps) simp
qed

section \<open>Properties\<close>

text \<open>
  C19. The macros implement lists: on links that represent the lists \<open>f\<close>, the first element, insertion
  at either end and removal of any element do on the links, through the pointers to pointers and
  the stored tail, what the list functions do on \<open>f\<close>, removal never follows a null pointer, and
  the loop that moves one list onto another ends with the elements in reverse order.
\<close>

theorem queues_are_lists:
  "(tailq_rep s f \<longrightarrow> TAILQ_FIRST h s = (case f h of [] \<Rightarrow> None | x # _ \<Rightarrow> Some x)) \<and>
   (tailq_rep s f \<and> (\<forall>k. x \<notin> set (f k)) \<longrightarrow>
      tailq_rep (TAILQ_INSERT_HEAD h x s) (f(h := x # f h)) \<and>
      tailq_rep (TAILQ_INSERT_TAIL h x s) (f(h := f h @ [x]))) \<and>
   (tailq_rep s f \<and> x \<in> set (f h) \<longrightarrow>
      (\<exists>t. TAILQ_REMOVE h x s = Some t \<and> tailq_rep t (f(h := remove1 x (f h))) \<and>
         tailq_rep (TAILQ_INSERT_TAIL h x t) (f(h := remove1 x (f h) @ [x])))) \<and>
   (list_rep l g \<and> src \<noteq> dst \<longrightarrow>
      (\<exists>t. LIST_MOVE_ALL src dst l = Some t \<and> list_rep t (g(src := [], dst := rev (g src) @ g dst))))"
proof (intro conjI impI)
  show "TAILQ_FIRST h s = (case f h of [] \<Rightarrow> None | x # _ \<Rightarrow> Some x)" if "tailq_rep s f"
    by (rule tq.rep_first [OF that])
next
  assume h: "tailq_rep s f \<and> (\<forall>k. x \<notin> set (f k))"
  show "tailq_rep (TAILQ_INSERT_HEAD h x s) (f(h := x # f h))"
    by (rule tq.rep_insert_head) (use h in auto)
  show "tailq_rep (TAILQ_INSERT_TAIL h x s) (f(h := f h @ [x]))"
    by (rule tq.rep_insert_tail) (use h in auto)
next
  assume "tailq_rep s f \<and> x \<in> set (f h)"
  then have h: "tailq_rep s f" "x \<in> set (f h)" by auto
  show "\<exists>t. TAILQ_REMOVE h x s = Some t \<and> tailq_rep t (f(h := remove1 x (f h))) \<and>
         tailq_rep (TAILQ_INSERT_TAIL h x t) (f(h := remove1 x (f h) @ [x]))"
    using tq.rep_remove [OF h] tq.move_to_tail [OF h] by auto
next
  assume "list_rep l g \<and> src \<noteq> dst"
  then have m: "list_rep l g" "src \<noteq> dst" by auto
  show "\<exists>t. LIST_MOVE_ALL src dst l = Some t \<and> list_rep t (g(src := [], dst := rev (g src) @ g dst))"
    by (rule list_move_all_rep [OF m])
qed

text \<open>Two elements in one queue; the first moves to the tail.\<close>

definition empty_queue :: "unit tailqs" where
  "empty_queue = \<lparr>tq_links = \<lparr>lh_first = (\<lambda>_. None), le_next = (\<lambda>_. None), le_prev = (\<lambda>_. None)\<rparr>,
     tqh_last = HeadOf\<rparr>"

lemma queues_are_lists_witness:
  "\<exists>t. TAILQ_REMOVE () 1 (TAILQ_INSERT_TAIL () 2 (TAILQ_INSERT_TAIL () 1 empty_queue)) = Some t \<and>
     TAILQ_FIRST () (TAILQ_INSERT_TAIL () 1 t) = Some 2"
proof -
  have r: "tailq_rep empty_queue (\<lambda>_. [])"
    by (simp add: tailq_rep_def list_rep_def empty_queue_def lend_def)
  note q = queues_are_lists [where l = "tq_links empty_queue" and src = "()" and dst = "()" and h = "()" and g = "\<lambda>_. []"]
  have 1: "tailq_rep (TAILQ_INSERT_TAIL () 1 empty_queue) ((\<lambda>_. [])(() := [1]))"
    using q [of empty_queue "\<lambda>_. []" 1] r by simp
  have 2: "tailq_rep (TAILQ_INSERT_TAIL () 2 (TAILQ_INSERT_TAIL () 1 empty_queue)) ((\<lambda>_. [])(() := [1, 2]))"
    using q [of "TAILQ_INSERT_TAIL () 1 empty_queue" "(\<lambda>_. [])(() := [1])" 2] 1 by simp
  obtain t where t: "TAILQ_REMOVE () 1 (TAILQ_INSERT_TAIL () 2 (TAILQ_INSERT_TAIL () 1 empty_queue)) = Some t"
    "tailq_rep (TAILQ_INSERT_TAIL () 1 t) ((\<lambda>_. [])(() := [2, 1]))"
    using q [of "TAILQ_INSERT_TAIL () 2 (TAILQ_INSERT_TAIL () 1 empty_queue)" "(\<lambda>_. [])(() := [1, 2])" 1] 2 by auto
  then show ?thesis using q [of "TAILQ_INSERT_TAIL () 1 t" "(\<lambda>_. [])(() := [2, 1])" 1] by simp
qed

end
