(* ===== verification/Bitmap.thy ===== *)
theory Bitmap
  imports Prelude
begin

text \<open>
  The three bitmaps of the system (swap-disk blocks and ASIDs in the kernel, disk blocks in the
  file server) are arrays of 32-bit words, scanned from the bottom for a free slot. This theory
  has the word and scan lemmas they share, and the interface \<open>slot_allocator\<close> that each of the
  three allocators implements.
\<close>

section \<open>Scanning for a slot\<close>

text \<open>\<^verbatim>\<open>for (i = lo; i < hi; i++) if (P(i)) return i;\<close>\<close>

function scan :: "(nat \<Rightarrow> bool) \<Rightarrow> nat \<Rightarrow> nat \<Rightarrow> nat option" where
  "scan P lo hi = (if lo < hi then (if P lo then Some lo else scan P (lo + 1) hi) else None)"
  by pat_completeness auto
termination
  by (relation "measure (\<lambda>(P, lo, hi). hi - lo)") auto

declare scan.simps [simp del]

lemma scan_Some:
  "scan P lo hi = Some i \<Longrightarrow> lo \<le> i \<and> i < hi \<and> P i \<and> (\<forall>j. lo \<le> j \<and> j < i \<longrightarrow> \<not> P j)"
proof (induction P lo hi rule: scan.induct)
  case (1 P lo hi)
  show ?case
  proof (cases "lo < hi \<and> \<not> P lo")
    case True
    then have "scan P (lo + 1) hi = Some i" using "1.prems" by (simp add: scan.simps [of P lo hi])
    with "1.IH" True have *: "lo + 1 \<le> i" "i < hi" "P i"
      "\<forall>j. lo + 1 \<le> j \<and> j < i \<longrightarrow> \<not> P j"
      by auto
    have "\<not> P j" if "lo \<le> j" "j < i" for j
      using * True that by (cases "j = lo") auto
    then show ?thesis using * by simp
  next
    case False
    then show ?thesis using "1.prems" by (auto simp: scan.simps [of P lo hi] split: if_splits)
  qed
qed

lemma scan_None: "scan P lo hi = None \<longleftrightarrow> (\<forall>i. lo \<le> i \<and> i < hi \<longrightarrow> \<not> P i)"
proof (induction P lo hi rule: scan.induct)
  case (1 P lo hi)
  show ?case
  proof (cases "lo < hi \<and> \<not> P lo")
    case True
    then have "scan P lo hi = scan P (lo + 1) hi" by (simp add: scan.simps [of P lo hi])
    moreover have "(\<forall>i. lo \<le> i \<and> i < hi \<longrightarrow> \<not> P i) =
        (\<forall>i. lo + 1 \<le> i \<and> i < hi \<longrightarrow> \<not> P i)"
    proof (intro iffI allI impI)
      fix i assume "\<forall>i. lo + 1 \<le> i \<and> i < hi \<longrightarrow> \<not> P i" "lo \<le> i \<and> i < hi"
      then show "\<not> P i" using True by (cases "i = lo") auto
    qed auto
    ultimately show ?thesis using "1.IH" True by simp
  next
    case False
    then show ?thesis by (auto simp: scan.simps [of P lo hi])
  qed
qed

section \<open>Bits of a word array\<close>

definition bm_bit :: "(nat \<Rightarrow> u32) \<Rightarrow> nat \<Rightarrow> bool" where
  "bm_bit bm i = bit (bm (i div 32)) (i mod 32)"

lemma and_push_bit_1: "((w :: u32) AND push_bit n 1 = 0) \<longleftrightarrow> \<not> bit w n"
  by (simp add: bit_iff_and_push_bit_not_eq_0 del: push_bit_of_1)

lemma bm_test: "(bm (i div 32) AND push_bit (i mod 32) (1 :: u32) = 0) \<longleftrightarrow> \<not> bm_bit bm i"
  unfolding bm_bit_def by (rule and_push_bit_1)

lemma div_mod_neq: "(i :: nat) \<noteq> j \<Longrightarrow> i div 32 = j div 32 \<Longrightarrow> i mod 32 \<noteq> j mod 32"
  by (metis div_mod_decomp)

lemma bm_bit_or:
  "bm_bit (bm(i div 32 := bm (i div 32) OR push_bit (i mod 32) 1)) j \<longleftrightarrow> j = i \<or> bm_bit bm j"
proof (cases "j = i")
  case False
  then show ?thesis using div_mod_neq [of i j] by (auto simp: bm_bit_def bit_simps)
qed (simp add: bm_bit_def bit_simps)

lemma bm_bit_and_not:
  "bm_bit (bm(i div 32 := bm (i div 32) AND NOT (push_bit (i mod 32) 1))) j
     \<longleftrightarrow> j \<noteq> i \<and> bm_bit bm j"
proof (cases "j = i")
  case False
  then show ?thesis
    using div_mod_neq [of i j] by (auto simp: bm_bit_def bit_simps dest: bit_imp_le_length)
qed (simp add: bm_bit_def bit_simps)

section \<open>The interface of a slot allocator\<close>

text \<open>
  \<open>used s i\<close>: slot \<open>i\<close> is taken. On a state that is \<open>ok\<close>, \<open>alloc\<close> returns a free slot between
  \<open>base\<close> and \<open>bound s\<close>, the least one, and takes it; it fails only when all are taken. \<open>free\<close> gives
  a slot back.
\<close>

locale slot_allocator =
  fixes ok :: "'s \<Rightarrow> bool"
    and used :: "'s \<Rightarrow> nat \<Rightarrow> bool"
    and base :: nat
    and bound :: "'s \<Rightarrow> nat"
    and alloc :: "'s \<Rightarrow> (nat \<times> 's) option"
    and free :: "nat \<Rightarrow> 's \<Rightarrow> 's"
  assumes alloc_Some:
    "ok s \<Longrightarrow> alloc s = Some (i, t) \<Longrightarrow>
       base \<le> i \<and> i < bound s \<and> \<not> used s i \<and> (\<forall>j. base \<le> j \<and> j < i \<longrightarrow> used s j) \<and>
       ok t \<and> bound t = bound s \<and> (\<forall>j. used t j \<longleftrightarrow> j = i \<or> used s j)"
    and alloc_None:
      "ok s \<Longrightarrow> alloc s = None \<longleftrightarrow> (\<forall>j. base \<le> j \<and> j < bound s \<longrightarrow> used s j)"
    and free_used: "ok s \<Longrightarrow> base \<le> i \<Longrightarrow> i < bound s \<Longrightarrow>
       ok (free i s) \<and> bound (free i s) = bound s \<and> (\<forall>j. used (free i s) j \<longleftrightarrow> j \<noteq> i \<and> used s j)"
begin

definition avail :: "'s \<Rightarrow> nat set" where
  "avail s = {i. base \<le> i \<and> i < bound s \<and> \<not> used s i}"

lemma finite_avail [simp]: "finite (avail s)"
  by (simp add: avail_def)

lemma alloc_avail: "ok s \<Longrightarrow> alloc s = Some (i, t) \<Longrightarrow> i \<in> avail s \<and> avail t = avail s - {i}"
  using alloc_Some by (auto simp: avail_def)

lemma alloc_least: "ok s \<Longrightarrow> alloc s = Some (i, t) \<Longrightarrow> j \<in> avail s \<Longrightarrow> i \<le> j"
  using alloc_Some [of s i t] by (force simp: avail_def not_le)

lemma alloc_iff: "ok s \<Longrightarrow> (\<exists>i t. alloc s = Some (i, t)) \<longleftrightarrow> avail s \<noteq> {}"
proof -
  assume "ok s"
  moreover have "(\<exists>i t. alloc s = Some (i, t)) \<longleftrightarrow> alloc s \<noteq> None" by auto
  ultimately show ?thesis using alloc_None [of s] by (auto simp: avail_def)
qed

lemma alloc_count: "ok s \<Longrightarrow> alloc s = Some (i, t) \<Longrightarrow> card (avail s) = Suc (card (avail t))"
  using alloc_avail [of s i t] by (metis card_Suc_Diff1 finite_avail)

text \<open>A slot that was allocated and is given back is the next one allocated.\<close>

lemma alloc_free_alloc:
  assumes "ok s" "alloc s = Some (i, t)"
  shows "avail (free i t) = avail s" "\<exists>u. alloc (free i t) = Some (i, u)"
proof -
  have i: "base \<le> i" "i < bound t" "bound t = bound s" "ok t" and "i \<in> avail s"
    using alloc_Some [OF assms] alloc_avail [OF assms] by auto
  have f: "ok (free i t)" using free_used i by blast
  show av: "avail (free i t) = avail s"
    using i alloc_Some [OF assms] free_used [of t i] by (auto simp: avail_def)
  then obtain k u where k: "alloc (free i t) = Some (k, u)"
    using \<open>i \<in> avail s\<close> alloc_iff [OF f] by auto
  have "k \<in> avail s" "k \<le> i"
    using alloc_avail [OF f k] alloc_least [OF f k] av \<open>i \<in> avail s\<close> by auto
  moreover have "i \<le> k" using alloc_least [OF assms \<open>k \<in> avail s\<close>] .
  ultimately show "\<exists>u. alloc (free i t) = Some (i, u)" using k by auto
qed

end

end
