(* ===== verification/Pmap.thy ===== *)
theory Pmap
  imports Mmu Queue Bitmap
begin

text \<open>
  \<^verbatim>\<open>kern/pmap.c\<close>: physical memory, the two-level page tables and swapping. (The files
  \<^verbatim>\<open>kern/swap.c\<close> and \<^verbatim>\<open>kern/sdisk.c\<close> are earlier copies of parts of it and are not built.)

  The state \<open>kmem\<close> has one field per global. Physical memory is an array of words per page
  (\<open>pmem s p i\<close> is word \<open>i\<close> of page \<open>p\<close>); page directories and page tables are such pages, and a
  \<^verbatim>\<open>Pde *\<close> is the number of the page it points to. The three kinds of intrusive lists are HOL
  lists here, which theory \<open>Queue\<close> justifies pointer by pointer; inserting an element that is
  already a member, or clearing the links of a member, would corrupt the links, and gives
  \<^term>\<open>None\<close> as a panic does. The swap disk is an array of page-sized blocks.
\<close>

section \<open>State\<close>

record sinfo =
  si_pgdir :: nat
  si_asid :: u32
  si_va :: u32

record kmem =
  memsize :: u32
  npage :: nat
  freemem :: u32
  pages_kva :: u32
  cur_pgdir :: nat
  pmem :: "nat \<Rightarrow> nat \<Rightarrow> u32"
  pp_ref :: "nat \<Rightarrow> u16"
  accessed :: "nat \<Rightarrow> u16"
  page_free_list :: "nat list"
  page_swap_queue :: "nat list"
  last_next :: "nat option"
  swap_tbl :: "nat \<Rightarrow> nat list"
  bno_tbl :: "nat \<Rightarrow> nat list"
  swapInfos :: "nat \<Rightarrow> sinfo"
  swapInfo_free_list :: "nat list"
  sd_bitmap :: "nat \<Rightarrow> u32"
  sdisk :: "nat \<Rightarrow> nat \<Rightarrow> u32"
  tlb :: "u32 \<Rightarrow> (u32 \<times> u32) option"

definition NSWAP :: nat where [simp]: "NSWAP = 100"
definition MAX_SWAPINFO :: nat where [simp]: "MAX_SWAPINFO = 0x15000"
definition SD_NBLK :: nat where [simp]: "SD_NBLK = 2048"
definition sizeof_Page :: nat where [simp]: "sizeof_Page = 20"
definition sizeof_SwapTableEntry :: nat where [simp]: "sizeof_SwapTableEntry = 4"

definition lst_insert_head :: "nat \<Rightarrow> nat list \<Rightarrow> nat list option" where
  "lst_insert_head x xs = (if x \<in> set xs then None else Some (x # xs))"

definition lst_insert_tail :: "nat \<Rightarrow> nat list \<Rightarrow> nat list option" where
  "lst_insert_tail x xs = (if x \<in> set xs then None else Some (xs @ [x]))"

definition mem_write :: "nat \<Rightarrow> nat \<Rightarrow> u32 \<Rightarrow> kmem \<Rightarrow> kmem" where
  "mem_write p i v s = s\<lparr>pmem := (pmem s)(p := (pmem s p)(i := v))\<rparr>"

section \<open>The TLB\<close>

text \<open>
  \<^verbatim>\<open>tlb_out\<close> (\<^verbatim>\<open>kern/tlb_asm.S\<close>) drops the entry for the given EntryHi; \<^verbatim>\<open>tlb_invalidate\<close> forms
  EntryHi from the virtual page pair and the ASID.
\<close>

definition tlb_out :: "u32 \<Rightarrow> kmem \<Rightarrow> kmem" where
  "tlb_out entryhi s = s\<lparr>tlb := (tlb s)(entryhi := None)\<rparr>"

definition GENMASK :: "nat \<Rightarrow> nat \<Rightarrow> u32" where
  "GENMASK h l = push_bit l (NOT 0) AND drop_bit (32 - 1 - h) (NOT 0)"

definition tlb_invalidate :: "u32 \<Rightarrow> u32 \<Rightarrow> kmem \<Rightarrow> kmem" where
  "tlb_invalidate asid va s =
     tlb_out ((va AND NOT (GENMASK PGSHIFT 0)) OR (asid AND (word_of_nat NASID - 1))) s"

section \<open>The bitmap of the swap disk\<close>

definition sd_bitmap_init :: "kmem \<Rightarrow> kmem" where
  "sd_bitmap_init s = s\<lparr>sd_bitmap := (\<lambda>i. if i < SD_NBLK div 32 + 1 then 0 else sd_bitmap s i)\<rparr>"

definition sd_block_alloc :: "kmem \<Rightarrow> (nat \<times> kmem) option" where
  "sd_block_alloc s =
     (case scan (\<lambda>bno. sd_bitmap s (bno div 32) AND push_bit (bno mod 32) 1 = 0) 0 SD_NBLK of
        None \<Rightarrow> None
      | Some bno \<Rightarrow>
          if 0xfffff \<le> bno then None
          else Some (bno, s\<lparr>sd_bitmap := (sd_bitmap s)
                 (bno div 32 := sd_bitmap s (bno div 32) OR push_bit (bno mod 32) 1)\<rparr>))"

definition sd_block_free :: "nat \<Rightarrow> kmem \<Rightarrow> kmem" where
  "sd_block_free bno s =
     s\<lparr>sd_bitmap := (sd_bitmap s)
         (bno div 32 := sd_bitmap s (bno div 32) AND NOT (push_bit (bno mod 32) 1))\<rparr>"

section \<open>The blocks of the swap disk\<close>

definition write_page :: "nat \<Rightarrow> nat \<Rightarrow> kmem \<Rightarrow> kmem option" where
  "write_page pp bno s = do {
     _ \<leftarrow> page2kva (npage s) pp;
     Some (s\<lparr>sdisk := (sdisk s)(bno := pmem s pp)\<rparr>) }"

definition read_page :: "nat \<Rightarrow> nat \<Rightarrow> kmem \<Rightarrow> kmem option" where
  "read_page pp bno s = do {
     _ \<leftarrow> page2kva (npage s) pp;
     Some (s\<lparr>pmem := (pmem s)(pp := sdisk s bno)\<rparr>) }"

section \<open>Registration of swappable pages\<close>

definition swap_register :: "nat \<Rightarrow> nat \<Rightarrow> u32 \<Rightarrow> u32 \<Rightarrow> kmem \<Rightarrow> kmem option" where
  "swap_register pp pgdir va asid s = do {
     s \<leftarrow> (if swap_tbl s pp = [] then do {
             q \<leftarrow> lst_insert_tail pp (page_swap_queue s);
             Some (s\<lparr>page_swap_queue := q\<rparr>) }
           else Some s);
     (case swapInfo_free_list s of
        [] \<Rightarrow> None
      | si # rest \<Rightarrow>
          Some (s\<lparr>swapInfo_free_list := rest,
                  swapInfos := (swapInfos s)
                    (si := \<lparr>si_pgdir = pgdir, si_asid = asid, si_va = PTE_ADDR va\<rparr>),
                  swap_tbl := (swap_tbl s)(pp := si # swap_tbl s pp)\<rparr>)) }"

definition sinfo_match :: "kmem \<Rightarrow> nat \<Rightarrow> u32 \<Rightarrow> u32 \<Rightarrow> nat \<Rightarrow> bool" where
  "sinfo_match s pgdir va asid si \<longleftrightarrow>
     si_pgdir (swapInfos s si) = pgdir \<and> si_asid (swapInfos s si) = asid \<and>
     PTE_ADDR (si_va (swapInfos s si)) = PTE_ADDR va"

definition swap_unregister :: "nat \<Rightarrow> nat \<Rightarrow> u32 \<Rightarrow> u32 \<Rightarrow> kmem \<Rightarrow> kmem" where
  "swap_unregister pp pgdir va asid s =
     (if swap_tbl s pp = [] then s
      else
        let s = (case find (sinfo_match s pgdir va asid) (swap_tbl s pp) of
                   None \<Rightarrow> s
                 | Some si \<Rightarrow>
                     s\<lparr>swap_tbl := (swap_tbl s)(pp := remove1 si (swap_tbl s pp)),
                       swapInfo_free_list := si # swapInfo_free_list s\<rparr>)
        in if swap_tbl s pp = [] \<and> pp \<in> set (page_swap_queue s)
           then s\<lparr>page_swap_queue := remove1 pp (page_swap_queue s)\<rparr>
           else s)"

section \<open>Swapping out\<close>

text \<open>\<^verbatim>\<open>TAILQ_NEXT\<close> on the swap queue; a page outside the queue has cleared links.\<close>

fun tq_next :: "nat list \<Rightarrow> nat \<Rightarrow> nat option" where
  "tq_next [] p = None"
| "tq_next (x # xs) p =
     (if x = p then (case xs of [] \<Rightarrow> None | y # _ \<Rightarrow> Some y) else tq_next xs p)"

definition circ_next :: "nat list \<Rightarrow> nat \<Rightarrow> nat" where
  "circ_next q p = (case tq_next q p of Some n \<Rightarrow> n | None \<Rightarrow> hd q)"

lemma tq_next_in: "tq_next q p = Some n \<Longrightarrow> n \<in> set q"
  by (induction q) (auto split: if_splits list.splits)

lemma circ_next_in: "circ_next q p \<in> set (hd q # q)"
  by (auto simp: circ_next_def split: option.splits dest: tq_next_in)

text \<open>The second-chance loop: the page to evict and the new accessed bits.\<close>

function swap_clock ::
  "nat list \<Rightarrow> nat \<Rightarrow> nat \<Rightarrow> int \<Rightarrow> (nat \<Rightarrow> u16) \<Rightarrow> nat \<times> (nat \<Rightarrow> u16)" where
  "swap_clock q ln pp mx acc =
     (let pp = circ_next q pp in
      if pp = ln then (pp, acc)
      else if acc pp = 1 then swap_clock q ln pp mx (acc(pp := 0))
      else if mx - 1 \<le> 0 then (pp, acc)
      else swap_clock q ln pp (mx - 1) acc)"
  by pat_completeness auto

termination
proof (relation "measures
    [\<lambda>(q, ln, pp, mx, acc). card {p \<in> set (hd q # q). acc p = 1},
     \<lambda>(q, ln, pp, mx, acc). nat mx]", goal_cases)
  case 1
  show ?case by simp
next
  case (2 q ln pp mx acc x)
  let ?A = "{p \<in> set (hd q # q). acc p = 1}"
  have "{p \<in> set (hd q # q). (acc(x := 0)) p = 1} = ?A - {x}" by auto
  moreover have "x \<in> ?A" using 2 circ_next_in [of q pp] by auto
  ultimately have "card {p \<in> set (hd q # q). (acc(x := 0)) p = 1} < card ?A"
    using card_Diff1_less [of ?A x] by (simp del: list.set)
  then show ?case by simp
next
  case (3 q ln pp mx acc x)
  then show ?case by simp
qed

declare swap_clock.simps [simp del]

fun swap_out_ptes :: "nat list \<Rightarrow> nat \<Rightarrow> nat \<Rightarrow> kmem \<Rightarrow> kmem option" where
  "swap_out_ptes [] sd_bno pp s = Some s"
| "swap_out_ptes (si # sis) sd_bno pp s = do {
     let info = swapInfos s si;
     let pde = pmem s (si_pgdir info) (PDX (si_va info));
     _ \<leftarrow> KADDR (npage s) (PTE_ADDR pde);
     let pte = pmem s (PPN pde) (PTX (si_va info));
     _ \<leftarrow> panic_on (pte AND PTE_V = 0);
     _ \<leftarrow> panic_on (pte AND PTE_SWAPPED \<noteq> 0);
     let pte = pte AND NOT PTE_V;
     let pte = pte OR PTE_SWAPPED;
     let pte = PTE_FLAGS pte;
     let pte = pte OR PTE_ADDR (push_bit PGSHIFT (word_of_nat sd_bno));
     let s = mem_write (PPN pde) (PTX (si_va info)) pte s;
     let s = tlb_invalidate (si_asid info) (si_va info) s;
     let s = s\<lparr>pp_ref := (pp_ref s)(pp := pp_ref s pp - 1)\<rparr>;
     swap_out_ptes sis sd_bno pp s }"

definition swap :: "kmem \<Rightarrow> kmem option" where
  "swap s =
     (if page_swap_queue s = [] then Some s
      else do {
        let q = page_swap_queue s;
        let ln = (case last_next s of None \<Rightarrow> hd q | Some p \<Rightarrow> p);
        let (pp, acc) = swap_clock q ln ln 100 (accessed s);
        let s = s\<lparr>accessed := acc, last_next := Some (circ_next q pp)\<rparr>;
        (sd_bno, s) \<leftarrow> sd_block_alloc s;
        _ \<leftarrow> panic_on (SD_NBLK \<le> sd_bno);
        s \<leftarrow> write_page pp sd_bno s;
        s \<leftarrow> swap_out_ptes (swap_tbl s pp) sd_bno pp s;
        _ \<leftarrow> panic_on (pp_ref s pp \<noteq> 0);
        let s = s\<lparr>bno_tbl := (bno_tbl s)(sd_bno := rev (swap_tbl s pp) @ bno_tbl s sd_bno),
                  swap_tbl := (swap_tbl s)(pp := [])\<rparr>;
        let s = s\<lparr>page_swap_queue := remove1 pp (page_swap_queue s)\<rparr>;
        fl \<leftarrow> lst_insert_head pp (page_free_list s);
        Some (s\<lparr>page_free_list := fl\<rparr>) })"

fun swap_times :: "nat \<Rightarrow> kmem \<Rightarrow> kmem option" where
  "swap_times 0 s = Some s"
| "swap_times (Suc n) s = do { s \<leftarrow> swap s; swap_times n s }"

section \<open>Physical pages\<close>

definition page_alloc :: "kmem \<Rightarrow> (int \<times> nat \<times> kmem) option" where
  "page_alloc s = do {
     s \<leftarrow> (if page_free_list s = [] then do {
             s \<leftarrow> swap_times NSWAP s;
             _ \<leftarrow> panic_on (page_free_list s = []);
             Some s }
           else Some s);
     (case page_free_list s of
        [] \<Rightarrow> None
      | pp # rest \<Rightarrow> do {
          let s = s\<lparr>page_free_list := rest\<rparr>;
          _ \<leftarrow> page2kva (npage s) pp;
          let s = s\<lparr>pmem := (pmem s)(pp := (\<lambda>_. 0))\<rparr>;
          _ \<leftarrow> kassert (pp \<notin> set (page_swap_queue s));
          let s = s\<lparr>accessed := (accessed s)(pp := 0)\<rparr>;
          Some (0, pp, s) }) }"

definition page_free :: "nat \<Rightarrow> kmem \<Rightarrow> kmem option" where
  "page_free pp s = do {
     _ \<leftarrow> kassert (pp_ref s pp = 0);
     fl \<leftarrow> lst_insert_head pp (page_free_list s);
     Some (s\<lparr>page_free_list := fl\<rparr>) }"

definition page_decref :: "nat \<Rightarrow> kmem \<Rightarrow> kmem option" where
  "page_decref pp s = do {
     _ \<leftarrow> kassert (pp_ref s pp > 0);
     let s = s\<lparr>pp_ref := (pp_ref s)(pp := pp_ref s pp - 1)\<rparr>;
     if pp_ref s pp = 0 then page_free pp s else Some s }"

section \<open>Swapping in\<close>

fun swap_in_ptes :: "nat list \<Rightarrow> nat \<Rightarrow> kmem \<Rightarrow> kmem option" where
  "swap_in_ptes [] p s = Some s"
| "swap_in_ptes (si # sis) p s = do {
     let info = swapInfos s si;
     let pde = pmem s (si_pgdir info) (PDX (si_va info));
     _ \<leftarrow> KADDR (npage s) (PTE_ADDR pde);
     let pte = pmem s (PPN pde) (PTX (si_va info));
     _ \<leftarrow> panic_on (pte AND PTE_V \<noteq> 0);
     _ \<leftarrow> panic_on (pte AND PTE_SWAPPED = 0);
     let pte = pte OR PTE_V;
     let pte = pte AND NOT PTE_SWAPPED;
     let pte = PTE_FLAGS pte;
     let pte = pte OR PTE_ADDR (page2pa p);
     let s = mem_write (PPN pde) (PTX (si_va info)) pte s;
     let s = s\<lparr>pp_ref := (pp_ref s)(p := pp_ref s p + 1)\<rparr>;
     swap_in_ptes sis p s }"

definition swap_back :: "u32 \<Rightarrow> kmem \<Rightarrow> kmem option" where
  "swap_back cur_pte s = do {
     (r, p, s) \<leftarrow> page_alloc s;
     _ \<leftarrow> panic_on (r \<noteq> 0);
     let sd_bno = PPN cur_pte;
     _ \<leftarrow> panic_on (SD_NBLK \<le> sd_bno);
     s \<leftarrow> read_page p sd_bno s;
     let s = sd_block_free sd_bno s;
     _ \<leftarrow> kassert (pp_ref s p = 0);
     s \<leftarrow> swap_in_ptes (bno_tbl s sd_bno) p s;
     q \<leftarrow> lst_insert_tail p (page_swap_queue s);
     let s = s\<lparr>page_swap_queue := q\<rparr>;
     Some (s\<lparr>swap_tbl := (swap_tbl s)(p := rev (bno_tbl s sd_bno) @ swap_tbl s p),
             bno_tbl := (bno_tbl s)(sd_bno := [])\<rparr>) }"

section \<open>Page tables\<close>

text \<open>A \<^verbatim>\<open>Pte *\<close> is a page number and a word index; \<^term>\<open>None\<close> is the null pointer.\<close>

definition pgdir_walk ::
  "nat \<Rightarrow> u32 \<Rightarrow> bool \<Rightarrow> kmem \<Rightarrow> (int \<times> (nat \<times> nat) option \<times> kmem) option" where
  "pgdir_walk pgdir va create s =
     (if pmem s pgdir (PDX va) AND PTE_V = 0 \<and> \<not> create then Some (0, None, s)
      else do {
        (r, s) \<leftarrow>
          (if pmem s pgdir (PDX va) AND PTE_V = 0 then do {
             (r, pp, s) \<leftarrow> page_alloc s;
             if r = - E_NO_MEM then Some (- E_NO_MEM, s)
             else do {
               let s = s\<lparr>pp_ref := (pp_ref s)(pp := pp_ref s pp + 1)\<rparr>;
               let pde = PTE_FLAGS (pmem s pgdir (PDX va));
               let pde = pde OR page2pa pp;
               let pde = pde OR (PTE_C_CACHEABLE OR (PTE_V AND NOT PTE_SWAPPED));
               Some (0, mem_write pgdir (PDX va) pde s) } }
           else Some (0, s));
        if r \<noteq> 0 then Some (r, None, s)
        else do {
          let pde = pmem s pgdir (PDX va);
          _ \<leftarrow> KADDR (npage s) (PTE_ADDR pde);
          Some (0, Some (PPN pde, PTX va), s) } })"

text \<open>Bring a swapped-out page back when the entry at \<open>loc\<close> says so.\<close>

definition swap_in_if_needed :: "(nat \<times> nat) option \<Rightarrow> kmem \<Rightarrow> kmem option" where
  "swap_in_if_needed pte s =
     (case pte of
        None \<Rightarrow> Some s
      | Some (pt, x) \<Rightarrow>
          if pmem s pt x AND PTE_V = 0 \<and> pmem s pt x AND PTE_SWAPPED \<noteq> 0
          then swap_back (pmem s pt x) s else Some s)"

definition page_lookup ::
  "nat \<Rightarrow> u32 \<Rightarrow> kmem \<Rightarrow> (nat option \<times> (nat \<times> nat) option \<times> kmem) option" where
  "page_lookup pgdir va s = do {
     (_, pte, s) \<leftarrow> pgdir_walk pgdir va False s;
     s \<leftarrow> swap_in_if_needed pte s;
     (case pte of
        None \<Rightarrow> Some (None, None, s)
      | Some (pt, x) \<Rightarrow>
          if pmem s pt x AND PTE_V = 0 then Some (None, pte, s)
          else do {
            pp \<leftarrow> pa2page (npage s) (pmem s pt x);
            let s = s\<lparr>accessed := (accessed s)(pp := 1)\<rparr>;
            Some (Some pp, pte, s) }) }"

definition page_remove :: "nat \<Rightarrow> u32 \<Rightarrow> u32 \<Rightarrow> kmem \<Rightarrow> kmem option" where
  "page_remove pgdir asid va s = do {
     (pp, pte, s) \<leftarrow> page_lookup pgdir va s;
     (case (pp, pte) of
        (Some pp, Some (pt, x)) \<Rightarrow> do {
          s \<leftarrow> page_decref pp s;
          let s = swap_unregister pp pgdir va asid s;
          let s = mem_write pt x 0 s;
          Some (tlb_invalidate asid va s) }
      | _ \<Rightarrow> Some s) }"

definition new_pte :: "nat \<Rightarrow> u32 \<Rightarrow> u32" where
  "new_pte pp perm = page2pa pp OR (perm AND NOT PTE_SWAPPED) OR PTE_C_CACHEABLE OR PTE_V"

definition page_insert :: "nat \<Rightarrow> u32 \<Rightarrow> nat \<Rightarrow> u32 \<Rightarrow> u32 \<Rightarrow> kmem \<Rightarrow> (int \<times> kmem) option" where
  "page_insert pgdir asid pp va perm s = do {
     (_, pte, s) \<leftarrow> pgdir_walk pgdir va False s;
     s \<leftarrow> swap_in_if_needed pte s;
     (done, s) \<leftarrow>
       (case pte of
          None \<Rightarrow> Some (False, s)
        | Some (pt, x) \<Rightarrow>
            if pmem s pt x AND PTE_V = 0 then Some (False, s)
            else do {
              old \<leftarrow> pa2page (npage s) (pmem s pt x);
              if old \<noteq> pp then do { s \<leftarrow> page_remove pgdir asid va s; Some (False, s) }
              else Some (True, mem_write pt x (new_pte pp perm) (tlb_invalidate asid va s)) });
     if done then Some (0, s)
     else do {
       let s = tlb_invalidate asid va s;
       (r, pte, s) \<leftarrow> pgdir_walk pgdir va True s;
       if r = - E_NO_MEM then Some (- E_NO_MEM, s)
       else
         (case pte of
            None \<Rightarrow> None
          | Some (pt, x) \<Rightarrow> do {
              let s = mem_write pt x (new_pte pp perm) s;
              let s = s\<lparr>pp_ref := (pp_ref s)(pp := pp_ref s pp + 1)\<rparr>;
              let s = s\<lparr>accessed := (accessed s)(pp := 1)\<rparr>;
              Some (0, s) }) } }"

text \<open>\<^verbatim>\<open>va2pa\<close>: all ones when the address is not mapped.\<close>

definition va2pa :: "kmem \<Rightarrow> nat \<Rightarrow> u32 \<Rightarrow> u32 option" where
  "va2pa s pgdir va =
     (let pde = pmem s pgdir (PDX va) in
      if pde AND PTE_V = 0 then Some (NOT 0)
      else do {
        _ \<leftarrow> KADDR (npage s) (PTE_ADDR pde);
        let pte = pmem s (PPN pde) (PTX va);
        if pte AND PTE_V = 0 then Some (NOT 0) else Some (PTE_ADDR pte) })"

section \<open>Boot\<close>

definition mips_detect_memory :: "u32 \<Rightarrow> kmem \<Rightarrow> kmem" where
  "mips_detect_memory msize s = s\<lparr>memsize := msize, npage := unat (drop_bit PGSHIFT msize)\<rparr>"

text \<open>\<^verbatim>\<open>memset(kva, 0, n)\<close> on kseg0 addresses, for word-aligned \<open>kva\<close> and \<open>n\<close>.\<close>

definition kmem_clear :: "u32 \<Rightarrow> nat \<Rightarrow> kmem \<Rightarrow> kmem" where
  "kmem_clear kva n s =
     s\<lparr>pmem := (\<lambda>p i. let a = 4096 * p + 4 * i; b = unat (kva - ULIM) in
                 if b \<le> a \<and> a < b + n then 0 else pmem s p i)\<rparr>"

text \<open>The boot-time allocator; \<open>end_kva\<close> is the linker's symbol \<^verbatim>\<open>end\<close>.\<close>

definition alloc :: "u32 \<Rightarrow> nat \<Rightarrow> u32 \<Rightarrow> bool \<Rightarrow> kmem \<Rightarrow> (u32 \<times> kmem) option" where
  "alloc end_kva n align clear s = do {
     let s = (if freemem s = 0 then s\<lparr>freemem := end_kva\<rparr> else s);
     let s = s\<lparr>freemem := ROUND (freemem s) align\<rparr>;
     let alloced_mem = freemem s;
     let s = s\<lparr>freemem := freemem s + word_of_nat n\<rparr>;
     pa \<leftarrow> PADDR (freemem s);
     _ \<leftarrow> panic_on (memsize s \<le> pa);
     let s = (if clear then kmem_clear alloced_mem n s else s);
     Some (alloced_mem, s) }"

definition mips_vm_init :: "u32 \<Rightarrow> kmem \<Rightarrow> kmem option" where
  "mips_vm_init end_kva s = do {
     (a, s) \<leftarrow> alloc end_kva (npage s * sizeof_Page) PAGE_SIZE True s;
     Some (s\<lparr>pages_kva := a\<rparr>) }"

definition swap_init :: "u32 \<Rightarrow> kmem \<Rightarrow> kmem option" where
  "swap_init end_kva s = do {
     let s = sd_bitmap_init s;
     let s = s\<lparr>page_swap_queue := []\<rparr>;
     (_, s) \<leftarrow> alloc end_kva (npage s * sizeof_SwapTableEntry) PAGE_SIZE True s;
     let s = s\<lparr>swap_tbl := (\<lambda>_. [])\<rparr>;
     (_, s) \<leftarrow> alloc end_kva (SD_NBLK * sizeof_SwapTableEntry) PAGE_SIZE True s;
     let s = s\<lparr>bno_tbl := (\<lambda>_. [])\<rparr>;
     let s = s\<lparr>swapInfo_free_list := []\<rparr>;
     Some (foldl (\<lambda>s i. s\<lparr>swapInfo_free_list := i # swapInfo_free_list s\<rparr>) s
             [0..<MAX_SWAPINFO]) }"

text \<open>The two loops of \<^verbatim>\<open>page_init\<close>; the second inserts every page at the head of the free list.\<close>

partial_function (option) mark_used :: "u32 \<Rightarrow> u32 \<Rightarrow> kmem \<Rightarrow> kmem option" where
  "mark_used pa limit s =
     (if pa < limit then do {
        p \<leftarrow> pa2page (npage s) pa;
        mark_used (pa + PAGE_SIZE) limit (s\<lparr>pp_ref := (pp_ref s)(p := 1)\<rparr>) }
      else Some s)"

partial_function (option) mark_free :: "u32 \<Rightarrow> kmem \<Rightarrow> kmem option" where
  "mark_free pa s =
     (if pa < memsize s then do {
        p \<leftarrow> pa2page (npage s) pa;
        fl \<leftarrow> lst_insert_head p (page_free_list s);
        mark_free (pa + PAGE_SIZE)
          (s\<lparr>pp_ref := (pp_ref s)(p := 0), page_free_list := fl\<rparr>) }
      else Some s)"

definition page_init :: "u32 \<Rightarrow> kmem \<Rightarrow> kmem option" where
  "page_init end_kva s = do {
     s \<leftarrow> swap_init end_kva s;
     let s = s\<lparr>page_free_list := []\<rparr>;
     let s = s\<lparr>freemem := ROUND (freemem s) PAGE_SIZE\<rparr>;
     limit \<leftarrow> PADDR (freemem s);
     s \<leftarrow> mark_used 0 limit s;
     mark_free limit s }"

section \<open>The swap disk's bitmap as a slot allocator\<close>

lemma sd_block_alloc_scan:
  "sd_block_alloc s = (case scan (\<lambda>b. \<not> bm_bit (sd_bitmap s) b) 0 SD_NBLK of
     None \<Rightarrow> None
   | Some b \<Rightarrow> Some (b, s\<lparr>sd_bitmap := (sd_bitmap s)
       (b div 32 := sd_bitmap s (b div 32) OR push_bit (b mod 32) 1)\<rparr>))"
  unfolding sd_block_alloc_def bm_test by (auto split: option.split dest: scan_Some)

interpretation sd: slot_allocator "\<lambda>_. True" "\<lambda>s. bm_bit (sd_bitmap s)" 0 "\<lambda>_. SD_NBLK"
  sd_block_alloc sd_block_free
proof
  fix s i t assume "sd_block_alloc s = Some (i, t)"
  then have "scan (\<lambda>b. \<not> bm_bit (sd_bitmap s) b) 0 SD_NBLK = Some i"
    and t: "t = s\<lparr>sd_bitmap := (sd_bitmap s)
      (i div 32 := sd_bitmap s (i div 32) OR push_bit (i mod 32) 1)\<rparr>"
    by (auto simp: sd_block_alloc_scan split: option.splits)
  then have sc: "i < SD_NBLK \<and> \<not> bm_bit (sd_bitmap s) i \<and> (\<forall>j < i. bm_bit (sd_bitmap s) j)"
    using scan_Some [of _ 0 _ i] by fastforce
  have bits: "\<forall>j. bm_bit (sd_bitmap t) j = (j = i \<or> bm_bit (sd_bitmap s) j)"
    unfolding t by (simp add: bm_bit_or del: push_bit_of_1)
  show "0 \<le> i \<and> i < SD_NBLK \<and> \<not> bm_bit (sd_bitmap s) i \<and>
      (\<forall>j. 0 \<le> j \<and> j < i \<longrightarrow> bm_bit (sd_bitmap s) j) \<and> True \<and> SD_NBLK = SD_NBLK \<and>
      (\<forall>j. bm_bit (sd_bitmap t) j = (j = i \<or> bm_bit (sd_bitmap s) j))"
    using sc bits by simp
next
  fix s show "(sd_block_alloc s = None) = (\<forall>j. 0 \<le> j \<and> j < SD_NBLK \<longrightarrow> bm_bit (sd_bitmap s) j)"
    using scan_None [of "\<lambda>b. \<not> bm_bit (sd_bitmap s) b" 0 SD_NBLK]
    by (auto simp: sd_block_alloc_scan split: option.splits)
qed (simp_all add: sd_block_free_def bm_bit_and_not del: push_bit_of_1)

end
