(* ===== verification/Vm.thy ===== *)
theory Vm
  imports Pmap
begin

text \<open>
  Swapping is transparent. The invariant \<open>swap_wf D s\<close> relates the page tables below the live page
  directories \<open>D\<close> to the swap structures of \<^verbatim>\<open>kern/pmap.c\<close>; the view \<open>uview s d va\<close> is what a
  process with directory \<open>d\<close> has at \<open>va\<close>: the permission bits and the contents, wherever they
  are. Swapping pages out, allocating a page (which may swap others out) and swapping a page
  back in keep the invariant and every view.
\<close>

section \<open>Entries\<close>

definition out_pte :: "nat \<Rightarrow> u32 \<Rightarrow> u32" where
  "out_pte b pte =
     PTE_FLAGS ((pte AND NOT PTE_V) OR PTE_SWAPPED) OR PTE_ADDR (push_bit PGSHIFT (word_of_nat b))"

definition in_pte :: "nat \<Rightarrow> u32 \<Rightarrow> u32" where
  "in_pte p pte = PTE_FLAGS ((pte OR PTE_V) AND NOT PTE_SWAPPED) OR PTE_ADDR (page2pa p)"

definition valid_pte :: "u32 \<Rightarrow> bool" where
  "valid_pte pte \<longleftrightarrow> bit pte 7"

definition swapped_pte :: "u32 \<Rightarrow> bool" where
  "swapped_pte pte \<longleftrightarrow> bit pte 3"

definition perms :: "u32 \<Rightarrow> u32" where
  "perms pte = PTE_FLAGS pte AND NOT (PTE_V OR PTE_SWAPPED)"

lemma PTE_V_bit: "PTE_V = push_bit 7 1" and PTE_SWAPPED_bit: "PTE_SWAPPED = push_bit 3 1"
  by simp_all

lemma bit_PTE_V [simp]: "bit PTE_V n \<longleftrightarrow> n = 7"
  unfolding PTE_V_bit by (auto simp: bit_simps simp del: push_bit_of_1)

lemma bit_PTE_SWAPPED [simp]: "bit PTE_SWAPPED n \<longleftrightarrow> n = 3"
  unfolding PTE_SWAPPED_bit by (auto simp: bit_simps simp del: push_bit_of_1)

lemma and_PTE_V: "pte AND PTE_V = 0 \<longleftrightarrow> \<not> valid_pte pte"
  unfolding valid_pte_def PTE_V_bit by (rule and_push_bit_1)

lemma and_PTE_SWAPPED: "pte AND PTE_SWAPPED = 0 \<longleftrightarrow> \<not> swapped_pte pte"
  unfolding swapped_pte_def PTE_SWAPPED_bit by (rule and_push_bit_1)

lemmas pte_bits = bit_PTE_ADDR bit_PTE_FLAGS bit_page2pa bit_simps

lemma bit_out_pte:
  "bit (out_pte b pte) n \<longleftrightarrow>
     (if n < 12 then n = 3 \<or> n \<noteq> 7 \<and> bit pte n else n < 32 \<and> bit b (n - 12))"
  unfolding out_pte_def
  by (auto simp: pte_bits simp del: PTE_V_def PTE_SWAPPED_def dest: bit_imp_le_length)

lemma bit_in_pte:
  "bit (in_pte p pte) n \<longleftrightarrow>
     (if n < 12 then n = 7 \<or> n \<noteq> 3 \<and> bit pte n else n < 32 \<and> bit p (n - 12))"
  unfolding in_pte_def
  by (auto simp: pte_bits simp del: PTE_V_def PTE_SWAPPED_def dest: bit_imp_le_length)

lemma bit_perms: "bit (perms pte) n \<longleftrightarrow> n < 12 \<and> n \<noteq> 3 \<and> n \<noteq> 7 \<and> bit pte n"
  unfolding perms_def
  by (auto simp: pte_bits simp del: PTE_V_def PTE_SWAPPED_def dest: bit_imp_le_length)

lemma PPN_out_pte [simp]: "b < 2 ^ 20 \<Longrightarrow> PPN (out_pte b pte) = b"
  by (subst PPN_page2pa [symmetric], assumption)
    (rule PPN_eqI, simp add: bit_out_pte bit_page2pa)

lemma PPN_in_pte [simp]: "p < 2 ^ 20 \<Longrightarrow> PPN (in_pte p pte) = p"
  by (subst PPN_page2pa [symmetric], assumption)
    (rule PPN_eqI, simp add: bit_in_pte bit_page2pa)

lemma pte_state [simp]:
  "\<not> valid_pte (out_pte b pte)" "swapped_pte (out_pte b pte)"
  "valid_pte (in_pte p pte)" "\<not> swapped_pte (in_pte p pte)"
  by (auto simp: valid_pte_def swapped_pte_def bit_out_pte bit_in_pte)

lemma perms_out [simp]: "perms (out_pte b pte) = perms pte"
  by (rule bit_word_eqI) (auto simp: bit_perms bit_out_pte)

lemma perms_in [simp]: "perms (in_pte p pte) = perms pte"
  by (rule bit_word_eqI) (auto simp: bit_perms bit_in_pte)

text \<open>An entry that goes out and comes back differs only in the frame.\<close>

lemma in_out_pte:
  assumes "valid_pte pte" "\<not> swapped_pte pte"
  shows "in_pte p (out_pte b pte) = page2pa p OR PTE_FLAGS pte"
  using assms
  by (intro bit_word_eqI)
    (auto simp: valid_pte_def swapped_pte_def bit_in_pte bit_out_pte pte_bits)

section \<open>Locations of entries and what they show\<close>

type_synonym ploc = "nat \<times> nat"

definition pload :: "kmem \<Rightarrow> ploc \<Rightarrow> u32" where
  "pload s l = pmem s (fst l) (snd l)"

definition uloc :: "kmem \<Rightarrow> nat \<Rightarrow> u32 \<Rightarrow> ploc" where
  "uloc s d va = (PPN (pmem s d (PDX va)), PTX va)"

definition sloc :: "kmem \<Rightarrow> nat \<Rightarrow> ploc" where
  "sloc s si = uloc s (si_pgdir (swapInfos s si)) (si_va (swapInfos s si))"

definition lview :: "kmem \<Rightarrow> ploc \<Rightarrow> (u32 \<times> (nat \<Rightarrow> u32)) option" where
  "lview s l =
     (let pte = pload s l in
      if valid_pte pte then Some (perms pte, pmem s (PPN pte))
      else if swapped_pte pte then Some (perms pte, sdisk s (PPN pte))
      else None)"

definition uview :: "kmem \<Rightarrow> nat \<Rightarrow> u32 \<Rightarrow> (u32 \<times> (nat \<Rightarrow> u32)) option" where
  "uview s d va =
     (if valid_pte (pmem s d (PDX va)) then lview s (uloc s d va) else None)"

text \<open>The number of page-directory entries below \<^verbatim>\<open>UTOP\<close>.\<close>

definition NUPDE :: nat where "NUPDE = PDX UTOP"

text \<open>The page tables below the directories \<open>D\<close>, and the entries in them.\<close>

definition tables :: "nat set \<Rightarrow> kmem \<Rightarrow> nat set" where
  "tables D s = {PPN (pmem s d i) | d i. d \<in> D \<and> i < NUPDE \<and> valid_pte (pmem s d i)}"

definition ulocs :: "nat set \<Rightarrow> kmem \<Rightarrow> ploc set" where
  "ulocs D s = {(t, j). t \<in> tables D s \<and> j < 1024}"

definition infos :: "kmem \<Rightarrow> nat set" where
  "infos s = (\<Union>p. set (swap_tbl s p)) \<union> (\<Union>b. set (bno_tbl s b))"

definition info_ok :: "nat set \<Rightarrow> kmem \<Rightarrow> nat \<Rightarrow> bool" where
  "info_ok D s si \<longleftrightarrow>
     (let d = si_pgdir (swapInfos s si); va = si_va (swapInfos s si) in
      d \<in> D \<and> PDX va < NUPDE \<and> valid_pte (pmem s d (PDX va)))"

text \<open>
  The invariant: the queue holds the pages with registered mappings, and a page is mapped as
  often as it is registered; every swappable mapping and every swapped-out entry is registered,
  each by a record of its own; page directories and tables are neither free nor swappable, nor
  mapped by users; free pages are not mapped.
\<close>

definition swap_wf :: "nat set \<Rightarrow> kmem \<Rightarrow> bool" where
  "swap_wf D s \<longleftrightarrow>
     npage s \<le> 2 ^ 20 \<and>
     distinct (page_swap_queue s) \<and> distinct (page_free_list s) \<and>
     (\<forall>p. p \<in> set (page_swap_queue s) \<longleftrightarrow> swap_tbl s p \<noteq> []) \<and>
     (\<forall>p \<in> set (page_swap_queue s).
        p < npage s \<and> unat (pp_ref s p) = length (swap_tbl s p)) \<and>
     (\<forall>p \<in> set (page_free_list s). p < npage s \<and> pp_ref s p = 0) \<and>
     (\<forall>p. distinct (swap_tbl s p)) \<and>
     (\<forall>b. distinct (bno_tbl s b) \<and> length (bno_tbl s b) < 2 ^ 16) \<and>
     inj_on (sloc s) (infos s) \<and> (\<forall>si \<in> infos s. info_ok D s si) \<and>
     (\<forall>p. \<forall>si \<in> set (swap_tbl s p).
        valid_pte (pload s (sloc s si)) \<and> \<not> swapped_pte (pload s (sloc s si)) \<and>
        PPN (pload s (sloc s si)) = p) \<and>
     (\<forall>b. \<forall>si \<in> set (bno_tbl s b).
        \<not> valid_pte (pload s (sloc s si)) \<and> swapped_pte (pload s (sloc s si)) \<and>
        PPN (pload s (sloc s si)) = b \<and> b < SD_NBLK \<and> bm_bit (sd_bitmap s) b) \<and>
     (\<forall>t \<in> tables D s. t < npage s) \<and> D \<inter> tables D s = {} \<and>
     (D \<union> tables D s) \<inter> (set (page_swap_queue s) \<union> set (page_free_list s)) = {} \<and>
     (\<forall>l \<in> ulocs D s. valid_pte (pload s l) \<longrightarrow>
        PPN (pload s l) \<notin> D \<union> tables D s \<and> PPN (pload s l) \<notin> set (page_free_list s) \<and>
        (PPN (pload s l) \<in> set (page_swap_queue s) \<longrightarrow>
           l \<in> sloc s ` set (swap_tbl s (PPN (pload s l))))) \<and>
     (\<forall>l \<in> ulocs D s. \<not> valid_pte (pload s l) \<and> swapped_pte (pload s l) \<longrightarrow>
        l \<in> sloc s ` set (bno_tbl s (PPN (pload s l))))"

lemma swap_wfD:
  assumes "swap_wf D s"
  shows swap_wf_npage: "npage s \<le> 2 ^ 20"
    and swap_wf_queue: "distinct (page_swap_queue s)"
      "p \<in> set (page_swap_queue s) \<longleftrightarrow> swap_tbl s p \<noteq> []"
      "p \<in> set (page_swap_queue s) \<Longrightarrow> p < npage s"
      "p \<in> set (page_swap_queue s) \<Longrightarrow> unat (pp_ref s p) = length (swap_tbl s p)"
    and swap_wf_free: "distinct (page_free_list s)"
      "p \<in> set (page_free_list s) \<Longrightarrow> p < npage s"
      "p \<in> set (page_free_list s) \<Longrightarrow> pp_ref s p = 0"
    and swap_wf_distinct: "distinct (swap_tbl s p)" "distinct (bno_tbl s b)"
      "length (bno_tbl s b) < 2 ^ 16"
    and swap_wf_inj: "inj_on (sloc s) (infos s)"
    and swap_wf_info: "si \<in> infos s \<Longrightarrow> info_ok D s si"
    and swap_wf_in: "si \<in> set (swap_tbl s p) \<Longrightarrow> valid_pte (pload s (sloc s si))"
      "si \<in> set (swap_tbl s p) \<Longrightarrow> \<not> swapped_pte (pload s (sloc s si))"
      "si \<in> set (swap_tbl s p) \<Longrightarrow> PPN (pload s (sloc s si)) = p"
    and swap_wf_out: "si \<in> set (bno_tbl s b) \<Longrightarrow> \<not> valid_pte (pload s (sloc s si))"
      "si \<in> set (bno_tbl s b) \<Longrightarrow> swapped_pte (pload s (sloc s si))"
      "si \<in> set (bno_tbl s b) \<Longrightarrow> PPN (pload s (sloc s si)) = b"
      "si \<in> set (bno_tbl s b) \<Longrightarrow> b < SD_NBLK"
      "si \<in> set (bno_tbl s b) \<Longrightarrow> bm_bit (sd_bitmap s) b"
    and swap_wf_tables: "t \<in> tables D s \<Longrightarrow> t < npage s" "D \<inter> tables D s = {}"
      "q \<in> D \<union> tables D s \<Longrightarrow> q \<notin> set (page_swap_queue s)"
      "q \<in> D \<union> tables D s \<Longrightarrow> q \<notin> set (page_free_list s)"
    and swap_wf_mapped: "l \<in> ulocs D s \<Longrightarrow> valid_pte (pload s l) \<Longrightarrow>
        PPN (pload s l) \<notin> D \<union> tables D s \<and> PPN (pload s l) \<notin> set (page_free_list s)"
      "l \<in> ulocs D s \<Longrightarrow> valid_pte (pload s l) \<Longrightarrow>
        PPN (pload s l) \<in> set (page_swap_queue s) \<Longrightarrow>
        l \<in> sloc s ` set (swap_tbl s (PPN (pload s l)))"
    and swap_wf_swapped: "l \<in> ulocs D s \<Longrightarrow> \<not> valid_pte (pload s l) \<Longrightarrow>
        swapped_pte (pload s l) \<Longrightarrow> l \<in> sloc s ` set (bno_tbl s (PPN (pload s l)))"
  using assms unfolding swap_wf_def by blast+

lemma swap_wfI:
  assumes "npage s \<le> 2 ^ 20" "distinct (page_swap_queue s)" "distinct (page_free_list s)"
    and "\<And>p. p \<in> set (page_swap_queue s) \<longleftrightarrow> swap_tbl s p \<noteq> []"
    and "\<And>p. p \<in> set (page_swap_queue s) \<Longrightarrow>
           p < npage s \<and> unat (pp_ref s p) = length (swap_tbl s p)"
    and "\<And>p. p \<in> set (page_free_list s) \<Longrightarrow> p < npage s \<and> pp_ref s p = 0"
    and "\<And>p. distinct (swap_tbl s p)" "\<And>b. distinct (bno_tbl s b) \<and> length (bno_tbl s b) < 2 ^ 16"
    and "inj_on (sloc s) (infos s)" "\<And>si. si \<in> infos s \<Longrightarrow> info_ok D s si"
    and "\<And>p si. si \<in> set (swap_tbl s p) \<Longrightarrow>
           valid_pte (pload s (sloc s si)) \<and> \<not> swapped_pte (pload s (sloc s si)) \<and>
           PPN (pload s (sloc s si)) = p"
    and "\<And>b si. si \<in> set (bno_tbl s b) \<Longrightarrow>
           \<not> valid_pte (pload s (sloc s si)) \<and> swapped_pte (pload s (sloc s si)) \<and>
           PPN (pload s (sloc s si)) = b \<and> b < SD_NBLK \<and> bm_bit (sd_bitmap s) b"
    and "\<And>t. t \<in> tables D s \<Longrightarrow> t < npage s" "D \<inter> tables D s = {}"
    and "(D \<union> tables D s) \<inter> (set (page_swap_queue s) \<union> set (page_free_list s)) = {}"
    and "\<And>l. l \<in> ulocs D s \<Longrightarrow> valid_pte (pload s l) \<Longrightarrow>
           PPN (pload s l) \<notin> D \<union> tables D s \<and> PPN (pload s l) \<notin> set (page_free_list s) \<and>
           (PPN (pload s l) \<in> set (page_swap_queue s) \<longrightarrow>
              l \<in> sloc s ` set (swap_tbl s (PPN (pload s l))))"
    and "\<And>l. l \<in> ulocs D s \<Longrightarrow> \<not> valid_pte (pload s l) \<Longrightarrow> swapped_pte (pload s l) \<Longrightarrow>
           l \<in> sloc s ` set (bno_tbl s (PPN (pload s l)))"
  shows "swap_wf D s"
  unfolding swap_wf_def
proof (intro conjI)
  show "\<forall>l \<in> ulocs D s. valid_pte (pload s l) \<longrightarrow>
        PPN (pload s l) \<notin> D \<union> tables D s \<and> PPN (pload s l) \<notin> set (page_free_list s) \<and>
        (PPN (pload s l) \<in> set (page_swap_queue s) \<longrightarrow>
           l \<in> sloc s ` set (swap_tbl s (PPN (pload s l))))"
    using assms(16) by blast
qed (insert assms(1-15), simp_all add: assms(17))

section \<open>Framing\<close>

lemma sloc_in_tables:
  assumes "info_ok D s si"
  shows "fst (sloc s si) \<in> tables D s" "sloc s si \<in> ulocs D s"
proof -
  show "fst (sloc s si) \<in> tables D s"
    using assms by (auto simp: info_ok_def sloc_def uloc_def tables_def Let_def)
  then show "sloc s si \<in> ulocs D s"
    by (cases "sloc s si") (auto simp: ulocs_def sloc_def uloc_def)
qed

text \<open>The tables depend on the directories only.\<close>

lemma dir_frame:
  assumes "\<And>d. d \<in> D \<Longrightarrow> pmem t d = pmem s d"
  shows dir_frame_tables: "tables D t = tables D s"
    and dir_frame_ulocs: "ulocs D t = ulocs D s"
    and dir_frame_info: "swapInfos t = swapInfos s \<Longrightarrow> info_ok D t si = info_ok D s si"
    and dir_frame_sloc: "swapInfos t = swapInfos s \<Longrightarrow> info_ok D s si \<Longrightarrow> sloc t si = sloc s si"
    and dir_frame_uloc: "d \<in> D \<Longrightarrow> uloc t d va = uloc s d va"
    and dir_frame_uview: "d \<in> D \<Longrightarrow> (\<And>l. l \<in> ulocs D s \<Longrightarrow> lview t l = lview s l) \<Longrightarrow>
        PDX va < NUPDE \<Longrightarrow> uview t d va = uview s d va"
proof -
  show tab: "tables D t = tables D s"
    unfolding tables_def by (rule Collect_cong) (metis assms)
  then show "ulocs D t = ulocs D s" by (simp add: ulocs_def)
  show "swapInfos t = swapInfos s \<Longrightarrow> info_ok D t si = info_ok D s si"
    using assms by (auto simp: info_ok_def Let_def)
  show "swapInfos t = swapInfos s \<Longrightarrow> info_ok D s si \<Longrightarrow> sloc t si = sloc s si"
    using assms by (auto simp: info_ok_def Let_def sloc_def uloc_def)
  show "d \<in> D \<Longrightarrow> uloc t d va = uloc s d va" using assms by (auto simp: uloc_def)
  show "uview t d va = uview s d va"
    if "d \<in> D" "\<And>l. l \<in> ulocs D s \<Longrightarrow> lview t l = lview s l" "PDX va < NUPDE"
  proof (cases "valid_pte (pmem s d (PDX va))")
    case True
    then have "uloc s d va \<in> ulocs D s"
      using that by (auto simp: ulocs_def uloc_def tables_def)
    then show ?thesis using that assms by (auto simp: uview_def uloc_def)
  qed (use that assms in \<open>auto simp: uview_def\<close>)
qed

lemma KADDR_pde: "PPN pde < npg \<Longrightarrow> KADDR npg (PTE_ADDR pde) = Some (PTE_ADDR pde + ULIM)"
  by (simp add: KADDR_def)

section \<open>The loops over the registered entries\<close>

definition upd_locs :: "kmem \<Rightarrow> ploc set \<Rightarrow> (u32 \<Rightarrow> u32) \<Rightarrow> nat \<Rightarrow> nat \<Rightarrow> u32" where
  "upd_locs s L f = (\<lambda>p i. if (p, i) \<in> L then f (pmem s p i) else pmem s p i)"

text \<open>Writing the entry of one record leaves the directories and the other entries alone.\<close>

lemma entry_write:
  assumes dis: "D \<inter> tables D s = {}" and ok: "info_ok D s si" and l: "l = sloc s si"
    and pm: "pmem u = (pmem s)(fst l := (pmem s (fst l))(snd l := v))"
    and inf: "swapInfos u = swapInfos s"
  shows "tables D u = tables D s" "info_ok D u sj = info_ok D s sj"
    "info_ok D s sj \<Longrightarrow> sloc u sj = sloc s sj"
    "pload u k = (if k = l then v else pload s k)"
    "v = f (pload s l) \<Longrightarrow> l \<notin> L \<Longrightarrow> upd_locs u L f = upd_locs s (insert l L) f"
proof -
  have "fst l \<in> tables D s" using sloc_in_tables(1) [OF ok] by (simp add: l)
  then have dir: "pmem u d = pmem s d" if "d \<in> D" for d
    using that dis by (auto simp: pm)
  show "tables D u = tables D s" "info_ok D u sj = info_ok D s sj"
    "info_ok D s sj \<Longrightarrow> sloc u sj = sloc s sj"
    using dir_frame_tables [OF dir] dir_frame_info [OF dir inf] dir_frame_sloc [OF dir inf]
    by auto
  show pl: "pload u k = (if k = l then v else pload s k)" for k
    by (cases k; cases l) (auto simp: pload_def pm)
  show "upd_locs u L f = upd_locs s (insert l L) f" if "v = f (pload s l)" "l \<notin> L"
  proof (intro ext)
    fix p i
    show "upd_locs u L f p i = upd_locs s (insert l L) f p i"
      using pl [of "(p, i)"] that by (auto simp: upd_locs_def pload_def)
  qed
qed

text \<open>What the rest of the records need in order to be processed after the first.\<close>

lemma entries_rest:
  assumes "D \<inter> tables D s = {}" "info_ok D s si" "l = sloc s si"
    and "pmem u = (pmem s)(fst l := (pmem s (fst l))(snd l := v))" "swapInfos u = swapInfos s"
    and all: "\<forall>sj \<in> set (si # sis). info_ok D s sj \<and> P (pload s (sloc s sj))"
    and dist: "distinct (map (sloc s) (si # sis))"
  shows "\<forall>sj \<in> set sis. info_ok D u sj \<and> P (pload u (sloc u sj))"
    "distinct (map (sloc u) sis)" "l \<notin> sloc s ` set sis" "sloc u ` set sis = sloc s ` set sis"
proof -
  note ew = entry_write [OF assms(1-5)]
  have sl: "sloc u sj = sloc s sj" if "sj \<in> set sis" for sj
    using ew(3) all that by auto
  show lnot: "l \<notin> sloc s ` set sis" using dist by (simp add: assms(3))
  then have ne: "sloc s sj \<noteq> l" if "sj \<in> set sis" for sj using that by (metis imageI)
  show "\<forall>sj \<in> set sis. info_ok D u sj \<and> P (pload u (sloc u sj))"
    using all ne by (simp add: ew(2,4) sl)
  have ms: "map (sloc u) sis = map (sloc s) sis" using sl by simp
  show "distinct (map (sloc u) sis)" unfolding ms using dist by simp
  show "sloc u ` set sis = sloc s ` set sis" using sl by auto
qed

lemma swap_out_ptes_step:
  assumes "fst (sloc s si) < npage s"
    and "valid_pte (pload s (sloc s si))" "\<not> swapped_pte (pload s (sloc s si))"
  shows "swap_out_ptes (si # sis) b pp s =
    swap_out_ptes sis b pp
      ((tlb_invalidate (si_asid (swapInfos s si)) (si_va (swapInfos s si))
         (mem_write (fst (sloc s si)) (snd (sloc s si)) (out_pte b (pload s (sloc s si))) s))
       \<lparr>pp_ref := (pp_ref s)(pp := pp_ref s pp - 1)\<rparr>)"
  using assms
  by (simp add: KADDR_pde Let_def pload_def sloc_def uloc_def and_PTE_V and_PTE_SWAPPED
      out_pte_def mem_write_def tlb_invalidate_def tlb_out_def
      del: PTE_V_def PTE_SWAPPED_def)

lemma swap_out_ptes_run:
  assumes "D \<inter> tables D s = {}" "\<forall>t \<in> tables D s. t < npage s"
    and "\<forall>si \<in> set sis. info_ok D s si \<and>
           (valid_pte (pload s (sloc s si)) \<and> \<not> swapped_pte (pload s (sloc s si)))"
    and "distinct (map (sloc s) sis)"
  shows "\<exists>tl. swap_out_ptes sis b pp s =
    Some (s\<lparr>pmem := upd_locs s (sloc s ` set sis) (out_pte b), tlb := tl,
            pp_ref := (pp_ref s)(pp := pp_ref s pp - word_of_nat (length sis))\<rparr>)"
  using assms
proof (induction sis arbitrary: s)
  case Nil
  show ?case by (intro exI [of _ "tlb s"]) (simp add: upd_locs_def)
next
  case (Cons si sis)
  define l where "l = sloc s si"
  define u where "u = (tlb_invalidate (si_asid (swapInfos s si)) (si_va (swapInfos s si))
     (mem_write (fst l) (snd l) (out_pte b (pload s l)) s))
     \<lparr>pp_ref := (pp_ref s)(pp := pp_ref s pp - 1)\<rparr>"
  have ok: "info_ok D s si" and v: "valid_pte (pload s l)" "\<not> swapped_pte (pload s l)"
    using Cons.prems(3) by (auto simp: l_def)
  have lt: "fst l < npage s"
    using sloc_in_tables(1) [OF ok] Cons.prems(2) by (simp add: l_def)
  have pm: "pmem u = (pmem s)(fst l := (pmem s (fst l))(snd l := out_pte b (pload s l)))"
    and rest: "swapInfos u = swapInfos s" "npage u = npage s"
    "pp_ref u = (pp_ref s)(pp := pp_ref s pp - 1)"
    and upd: "\<And>m tl r. u\<lparr>pmem := m, tlb := tl, pp_ref := r\<rparr> = s\<lparr>pmem := m, tlb := tl, pp_ref := r\<rparr>"
    by (simp_all add: u_def tlb_invalidate_def tlb_out_def mem_write_def)
  note ew = entry_write [OF Cons.prems(1) ok l_def pm rest(1)]
  note er = entries_rest [OF Cons.prems(1) ok l_def pm rest(1) Cons.prems(3,4)]
  have "D \<inter> tables D u = {}" "\<forall>t \<in> tables D u. t < npage u"
    using Cons.prems(1,2) by (simp_all add: ew(1) rest(2))
  from Cons.IH [OF this er(1,2)] obtain tl where run: "swap_out_ptes sis b pp u =
    Some (u\<lparr>pmem := upd_locs u (sloc s ` set sis) (out_pte b), tlb := tl,
            pp_ref := (pp_ref u)(pp := pp_ref u pp - word_of_nat (length sis))\<rparr>)"
    unfolding er(4) by metis
  have mem: "upd_locs u (sloc s ` set sis) (out_pte b) =
      upd_locs s (sloc s ` set (si # sis)) (out_pte b)"
    using ew(5) [where f = "out_pte b" and L = "sloc s ` set sis"] er(3) by (simp add: l_def)
  have step: "swap_out_ptes (si # sis) b pp s = swap_out_ptes sis b pp u"
    unfolding u_def l_def using lt v by (intro swap_out_ptes_step) (simp_all add: l_def)
  have ref: "(pp_ref u)(pp := pp_ref u pp - word_of_nat (length sis)) =
      (pp_ref s)(pp := pp_ref s pp - word_of_nat (length (si # sis)))"
    by (simp add: rest(3) diff_diff_eq)
  show ?case unfolding step run mem upd ref by blast
qed

lemma swap_in_ptes_step:
  assumes "fst (sloc s si) < npage s"
    and "\<not> valid_pte (pload s (sloc s si))" "swapped_pte (pload s (sloc s si))"
  shows "swap_in_ptes (si # sis) p s =
    swap_in_ptes sis p
      ((mem_write (fst (sloc s si)) (snd (sloc s si)) (in_pte p (pload s (sloc s si))) s)
       \<lparr>pp_ref := (pp_ref s)(p := pp_ref s p + 1)\<rparr>)"
  using assms
  by (simp add: KADDR_pde Let_def pload_def sloc_def uloc_def and_PTE_V and_PTE_SWAPPED
      in_pte_def mem_write_def del: PTE_V_def PTE_SWAPPED_def)

lemma swap_in_ptes_run:
  assumes "D \<inter> tables D s = {}" "\<forall>t \<in> tables D s. t < npage s"
    and "\<forall>si \<in> set sis. info_ok D s si \<and>
           (\<not> valid_pte (pload s (sloc s si)) \<and> swapped_pte (pload s (sloc s si)))"
    and "distinct (map (sloc s) sis)"
  shows "swap_in_ptes sis p s =
    Some (s\<lparr>pmem := upd_locs s (sloc s ` set sis) (in_pte p),
            pp_ref := (pp_ref s)(p := pp_ref s p + word_of_nat (length sis))\<rparr>)"
  using assms
proof (induction sis arbitrary: s)
  case Nil
  show ?case by (simp add: upd_locs_def)
next
  case (Cons si sis)
  define l where "l = sloc s si"
  define u where "u = (mem_write (fst l) (snd l) (in_pte p (pload s l)) s)
     \<lparr>pp_ref := (pp_ref s)(p := pp_ref s p + 1)\<rparr>"
  have ok: "info_ok D s si" and v: "\<not> valid_pte (pload s l)" "swapped_pte (pload s l)"
    using Cons.prems(3) by (auto simp: l_def)
  have lt: "fst l < npage s"
    using sloc_in_tables(1) [OF ok] Cons.prems(2) by (simp add: l_def)
  have pm: "pmem u = (pmem s)(fst l := (pmem s (fst l))(snd l := in_pte p (pload s l)))"
    and rest: "swapInfos u = swapInfos s" "npage u = npage s"
    "pp_ref u = (pp_ref s)(p := pp_ref s p + 1)"
    and upd: "\<And>m r. u\<lparr>pmem := m, pp_ref := r\<rparr> = s\<lparr>pmem := m, pp_ref := r\<rparr>"
    by (simp_all add: u_def mem_write_def)
  note ew = entry_write [OF Cons.prems(1) ok l_def pm rest(1)]
  note er = entries_rest [OF Cons.prems(1) ok l_def pm rest(1) Cons.prems(3,4)]
  have "D \<inter> tables D u = {}" "\<forall>t \<in> tables D u. t < npage u"
    using Cons.prems(1,2) by (simp_all add: ew(1) rest(2))
  note run = Cons.IH [OF this er(1,2), unfolded er(4)]
  have mem: "upd_locs u (sloc s ` set sis) (in_pte p) =
      upd_locs s (sloc s ` set (si # sis)) (in_pte p)"
    using ew(5) [where f = "in_pte p" and L = "sloc s ` set sis"] er(3) by (simp add: l_def)
  have step: "swap_in_ptes (si # sis) p s = swap_in_ptes sis p u"
    unfolding u_def l_def using lt v by (intro swap_in_ptes_step) (simp_all add: l_def)
  have ref: "(pp_ref u)(p := pp_ref u p + word_of_nat (length sis)) =
      (pp_ref s)(p := pp_ref s p + word_of_nat (length (si # sis)))"
    by (simp add: rest(3) ac_simps)
  show ?case unfolding step run mem upd ref by (rule refl)
qed

section \<open>Swapping out\<close>

lemma swap_clock_in: "q \<noteq> [] \<Longrightarrow> fst (swap_clock q ln pp mx acc) \<in> set q"
proof (induction q ln pp mx acc rule: swap_clock.induct)
  case (1 q ln pp mx acc)
  have "circ_next q pp \<in> set q" using circ_next_in [of q pp] "1.prems" by (cases q) auto
  then show ?case
    using "1.IH" "1.prems"
    by (subst swap_clock.simps) (auto simp: Let_def simp del: fun_upd_apply)
qed

text \<open>The state after the page \<open>pp\<close> has gone to block \<open>b\<close>.\<close>

definition swapped_out :: "kmem \<Rightarrow> nat \<Rightarrow> nat \<Rightarrow> kmem \<Rightarrow> bool" where
  "swapped_out s pp b t \<longleftrightarrow> (\<exists>acc ln tl. t = s\<lparr>
     accessed := acc, last_next := ln, tlb := tl,
     sd_bitmap := (sd_bitmap s)(b div 32 := sd_bitmap s (b div 32) OR push_bit (b mod 32) 1),
     sdisk := (sdisk s)(b := pmem s pp),
     pmem := upd_locs s (sloc s ` set (swap_tbl s pp)) (out_pte b),
     pp_ref := (pp_ref s)(pp := 0),
     bno_tbl := (bno_tbl s)(b := rev (swap_tbl s pp)),
     swap_tbl := (swap_tbl s)(pp := []),
     page_swap_queue := remove1 pp (page_swap_queue s),
     page_free_list := pp # page_free_list s\<rparr>)"

lemma sd_block_alloc_Some:
  assumes "sd_block_alloc s = Some (b, t)"
  shows "b < SD_NBLK" "\<not> bm_bit (sd_bitmap s) b"
    "t = s\<lparr>sd_bitmap := (sd_bitmap s)
           (b div 32 := sd_bitmap s (b div 32) OR push_bit (b mod 32) 1)\<rparr>"
  using assms
  by (auto simp: sd_block_alloc_def bm_test split: option.splits if_splits dest!: scan_Some
      simp del: push_bit_of_1)

lemma sd_block_alloc_None:
  "sd_block_alloc s = None \<longleftrightarrow> (\<forall>b < SD_NBLK. bm_bit (sd_bitmap s) b)"
proof (cases "scan (\<lambda>b. sd_bitmap s (b div 32) AND push_bit (b mod 32) 1 = 0) 0 SD_NBLK")
  case None
  moreover have "\<forall>b < SD_NBLK. bm_bit (sd_bitmap s) b"
    using None unfolding scan_None bm_test by simp
  ultimately show ?thesis by (simp add: sd_block_alloc_def)
next
  case (Some b)
  then have "b < SD_NBLK \<and> \<not> bm_bit (sd_bitmap s) b"
    by (auto simp: bm_test simp del: push_bit_of_1 dest!: scan_Some)
  then show ?thesis using Some by (auto simp: sd_block_alloc_def)
qed

lemma info_of_tbl: "si \<in> set (swap_tbl s p) \<Longrightarrow> si \<in> infos s"
  and info_of_bno: "si \<in> set (bno_tbl s b) \<Longrightarrow> si \<in> infos s"
  by (auto simp: infos_def)

lemma swap_wf_map_distinct:
  assumes "swap_wf D s"
  shows "distinct (map (sloc s) (swap_tbl s p))" "distinct (map (sloc s) (bno_tbl s b))"
  using swap_wf_distinct(1,2) [OF assms]
  by (auto simp: distinct_map intro!: inj_on_subset [OF swap_wf_inj [OF assms]]
      intro: info_of_tbl info_of_bno)

lemma swap_run:
  assumes wf: "swap_wf D s" and ne: "page_swap_queue s \<noteq> []"
    and free: "\<exists>b < SD_NBLK. \<not> bm_bit (sd_bitmap s) b"
  shows "\<exists>pp b t. swap s = Some t \<and> pp \<in> set (page_swap_queue s) \<and> b < SD_NBLK \<and>
    \<not> bm_bit (sd_bitmap s) b \<and> swapped_out s pp b t"
proof -
  let ?q = "page_swap_queue s"
  define ln where "ln = (case last_next s of None \<Rightarrow> hd ?q | Some p \<Rightarrow> p)"
  obtain pp acc where clk: "swap_clock ?q ln ln 100 (accessed s) = (pp, acc)" by fastforce
  then have pp: "pp \<in> set ?q" using swap_clock_in [OF ne, of ln ln 100 "accessed s"] by simp
  define s1 where "s1 = s\<lparr>accessed := acc, last_next := Some (circ_next ?q pp)\<rparr>"
  obtain b s2 where al: "sd_block_alloc s1 = Some (b, s2)"
    using free sd_block_alloc_None [of s1] by (auto simp: s1_def)
  note b = sd_block_alloc_Some [OF al]
  define s3 where "s3 = s2\<lparr>sdisk := (sdisk s)(b := pmem s pp)\<rparr>"
  have np: "pp < npage s" "npage s \<le> 2 ^ 20"
    using swap_wf_queue(3) [OF wf pp] swap_wf_npage [OF wf] by auto
  then have wr: "write_page pp b s2 = Some s3"
    by (simp add: write_page_def page2kva_def KADDR_def PPN_page2pa b(3) s1_def s3_def)
  have s3: "pmem s3 = pmem s" "swapInfos s3 = swapInfos s" "npage s3 = npage s"
    "swap_tbl s3 = swap_tbl s" "pp_ref s3 = pp_ref s"
    by (simp_all add: s3_def b(3) s1_def)
  have dir: "\<And>d. d \<in> D \<Longrightarrow> pmem s3 d = pmem s d" by (simp add: s3)
  note fr = dir_frame_tables [OF dir] dir_frame_info [OF dir s3(2)]
  have sl: "sloc s3 = sloc s" "pload s3 = pload s"
    by (auto simp: fun_eq_iff sloc_def uloc_def pload_def s3)
  have "D \<inter> tables D s3 = {}" "\<forall>t \<in> tables D s3. t < npage s3"
    using swap_wf_tables(1,2) [OF wf] by (auto simp: fr(1) s3)
  moreover have "\<forall>si \<in> set (swap_tbl s pp). info_ok D s3 si \<and>
      (valid_pte (pload s3 (sloc s3 si)) \<and> \<not> swapped_pte (pload s3 (sloc s3 si)))"
    using swap_wf_info [OF wf info_of_tbl] swap_wf_in(1,2) [OF wf] by (simp add: fr(2) sl)
  moreover have "distinct (map (sloc s3) (swap_tbl s pp))"
    using swap_wf_map_distinct(1) [OF wf] by (simp add: sl)
  ultimately obtain tl where run: "swap_out_ptes (swap_tbl s pp) b pp s3 =
    Some (s3\<lparr>pmem := upd_locs s3 (sloc s3 ` set (swap_tbl s pp)) (out_pte b), tlb := tl,
      pp_ref := (pp_ref s3)(pp := pp_ref s3 pp - word_of_nat (length (swap_tbl s pp)))\<rparr>)"
    using swap_out_ptes_run [of D s3 "swap_tbl s pp" b pp] by blast
  have "pp_ref s pp = word_of_nat (length (swap_tbl s pp))"
    using arg_cong [OF swap_wf_queue(4) [OF wf pp], of "word_of_nat :: nat \<Rightarrow> u16"] by simp
  then have ref: "pp_ref s3 pp - word_of_nat (length (swap_tbl s pp)) = 0" by (simp add: s3)
  have um: "upd_locs s3 (sloc s3 ` set (swap_tbl s pp)) (out_pte b) =
      upd_locs s (sloc s ` set (swap_tbl s pp)) (out_pte b)"
    unfolding upd_locs_def s3 sl ..
  define s4 where "s4 = s3\<lparr>pmem := upd_locs s (sloc s ` set (swap_tbl s pp)) (out_pte b), tlb := tl,
      pp_ref := (pp_ref s)(pp := 0)\<rparr>"
  have run': "swap_out_ptes (swap_tbl s pp) b pp s3 = Some s4"
    unfolding run um ref s4_def by (simp add: s3)
  have "bno_tbl s b = []"
    using swap_wf_out(5) [OF wf, of _ b] b(2) by (cases "bno_tbl s b") (auto simp: s1_def)
  moreover have "pp \<notin> set (page_free_list s)"
    using swap_wf_free(3) [OF wf, of pp] swap_wf_queue(2,4) [OF wf, of pp] pp by auto
  ultimately have "swap s = Some (s4\<lparr>bno_tbl := (bno_tbl s)(b := rev (swap_tbl s pp)),
      swap_tbl := (swap_tbl s)(pp := []), page_swap_queue := remove1 pp ?q,
      page_free_list := pp # page_free_list s\<rparr>)"
    using ne b(1)
    by (simp add: swap_def Let_def ln_def [symmetric] clk s1_def [symmetric] al wr
        s3(4) run' lst_insert_head_def)
      (simp add: s4_def s3_def b(3) s1_def)
  moreover have "swapped_out s pp b (s4\<lparr>bno_tbl := (bno_tbl s)(b := rev (swap_tbl s pp)),
      swap_tbl := (swap_tbl s)(pp := []), page_swap_queue := remove1 pp ?q,
      page_free_list := pp # page_free_list s\<rparr>)"
    unfolding swapped_out_def
    by (intro exI [of _ acc] exI [of _ "Some (circ_next ?q pp)"] exI [of _ tl])
      (simp add: s4_def s3_def b(3) s1_def)
  ultimately show ?thesis using pp b(1,2) by (auto simp: s1_def)
qed

lemma swapped_out_fields:
  assumes "swapped_out s pp b t"
  shows "pmem t = upd_locs s (sloc s ` set (swap_tbl s pp)) (out_pte b)"
    "sdisk t = (sdisk s)(b := pmem s pp)" "pp_ref t = (pp_ref s)(pp := 0)"
    "bno_tbl t = (bno_tbl s)(b := rev (swap_tbl s pp))" "swap_tbl t = (swap_tbl s)(pp := [])"
    "page_swap_queue t = remove1 pp (page_swap_queue s)"
    "page_free_list t = pp # page_free_list s"
    "bm_bit (sd_bitmap t) c \<longleftrightarrow> c = b \<or> bm_bit (sd_bitmap s) c"
    "npage t = npage s" "swapInfos t = swapInfos s" "cur_pgdir t = cur_pgdir s"
    "swapInfo_free_list t = swapInfo_free_list s"
  using assms by (auto simp: swapped_out_def bm_bit_or simp del: push_bit_of_1)

lemma pload_upd_locs:
  "pmem t = upd_locs s L f \<Longrightarrow> pload t l = (if l \<in> L then f (pload s l) else pload s l)"
  by (simp add: pload_def upd_locs_def)

lemma pmem_upd_locs:
  assumes "pmem t = upd_locs s L f" "\<And>l. l \<in> L \<Longrightarrow> fst l \<noteq> p"
  shows "pmem t p = pmem s p"
  using assms by (force simp: upd_locs_def fun_eq_iff)

lemma sloc_table:
  assumes "swap_wf D s" "si \<in> infos s"
  shows "fst (sloc s si) \<in> tables D s" "sloc s si \<in> ulocs D s" "fst (sloc s si) \<notin> D"
  using sloc_in_tables [OF swap_wf_info [OF assms]] swap_wf_tables(2) [OF assms(1)] by auto

lemma swapped_out_step:
  assumes wf: "swap_wf D s" and pp: "pp \<in> set (page_swap_queue s)"
    and b: "b < SD_NBLK" "\<not> bm_bit (sd_bitmap s) b" and out: "swapped_out s pp b t"
  shows swapped_out_dir: "\<And>d. d \<in> D \<Longrightarrow> pmem t d = pmem s d"
    and swapped_out_pload: "pload t l =
      (if l \<in> sloc s ` set (swap_tbl s pp) then out_pte b (pload s l) else pload s l)"
    and swapped_out_infos: "infos t = infos s"
    and swapped_out_sloc: "si \<in> infos s \<Longrightarrow> sloc t si = sloc s si"
    and swapped_out_tables: "tables D t = tables D s" "ulocs D t = ulocs D s"
    and swapped_out_view: "l \<in> ulocs D s \<Longrightarrow> lview t l = lview s l"
proof -
  note f = swapped_out_fields [OF out]
  let ?L = "sloc s ` set (swap_tbl s pp)"
  have b20: "b < 2 ^ 20" using b(1) by simp
  show dir: "pmem t d = pmem s d" if "d \<in> D" for d
    using sloc_table(3) [OF wf info_of_tbl] that by (intro pmem_upd_locs [OF f(1)]) auto
  show pl: "pload t l = (if l \<in> ?L then out_pte b (pload s l) else pload s l)" for l
    by (rule pload_upd_locs [OF f(1)])
  have "bno_tbl s b = []" using swap_wf_out(5) [OF wf, of _ b] b(2) by (cases "bno_tbl s b") auto
  then have swb: "c = b \<Longrightarrow> bno_tbl s c = []" for c by simp
  show inf: "infos t = infos s"
  proof (intro set_eqI iffI)
    fix si assume "si \<in> infos t"
    then show "si \<in> infos s" by (auto simp: infos_def f(4,5) split: if_splits)
  next
    fix si assume "si \<in> infos s"
    then consider p where "si \<in> set (swap_tbl s p)" | c where "si \<in> set (bno_tbl s c)"
      by (auto simp: infos_def)
    then show "si \<in> infos t"
    proof cases
      case 1
      then have "si \<in> set (bno_tbl t b) \<or> si \<in> set (swap_tbl t p)" by (auto simp: f(4,5))
      then show ?thesis by (auto intro: info_of_tbl info_of_bno)
    next
      case 2
      then have "si \<in> set (bno_tbl t c)" using swb [of c] by (auto simp: f(4))
      then show ?thesis by (rule info_of_bno)
    qed
  qed
  show "sloc t si = sloc s si" if "si \<in> infos s"
    by (rule dir_frame_sloc [OF dir f(10) swap_wf_info [OF wf that]])
  show "tables D t = tables D s" by (rule dir_frame_tables [OF dir])
  show "ulocs D t = ulocs D s" by (rule dir_frame_ulocs [OF dir])
  show "lview t l = lview s l" if l: "l \<in> ulocs D s"
  proof (cases "l \<in> ?L")
    case True
    then obtain si where "si \<in> set (swap_tbl s pp)" "l = sloc s si" by auto
    then have "valid_pte (pload s l)" "PPN (pload s l) = pp"
      using swap_wf_in [OF wf] by auto
    then show ?thesis using True b20 by (simp add: lview_def pl f(2) Let_def)
  next
    case False
    show ?thesis
    proof (cases "valid_pte (pload s l)")
      case True
      let ?q = "PPN (pload s l)"
      have "?q \<notin> tables D s" using swap_wf_mapped(1) [OF wf l True] by simp
      then have "fst k \<noteq> ?q" if "k \<in> ?L" for k
        using that sloc_table(1) [OF wf info_of_tbl] by (elim imageE) metis
      then have "pmem t ?q = pmem s ?q" by (rule pmem_upd_locs [OF f(1)])
      then show ?thesis using False True by (simp add: lview_def pl Let_def)
    next
      case nv: False
      then have "PPN (pload s l) \<noteq> b" if "swapped_pte (pload s l)"
        using swap_wf_swapped [OF wf l nv that] swb by auto
      then show ?thesis using False nv by (auto simp: lview_def pl f(2) Let_def)
    qed
  qed
qed

lemma swapped_out_wf:
  assumes wf: "swap_wf D s" and pp: "pp \<in> set (page_swap_queue s)"
    and b: "b < SD_NBLK" "\<not> bm_bit (sd_bitmap s) b" and out: "swapped_out s pp b t"
  shows "swap_wf D t"
proof -
  note f = swapped_out_fields [OF out]
  note st = swapped_out_step [OF assms]
  let ?L = "sloc s ` set (swap_tbl s pp)"
  have b20: "b < 2 ^ 20" using b(1) by simp
  have q: "set (page_swap_queue t) = set (page_swap_queue s) - {pp}"
    using swap_wf_queue(1) [OF wf] by (simp add: f(6))
  have fl: "set (page_free_list t) = insert pp (set (page_free_list s))" by (simp add: f(7))
  have ppf: "pp \<notin> set (page_free_list s)"
    using swap_wf_free(3) [OF wf, of pp] swap_wf_queue(2,4) [OF wf, of pp] pp by auto
  have bno: "bno_tbl s b = []"
    using swap_wf_out(5) [OF wf, of _ b] b(2) by (cases "bno_tbl s b") auto
  have sl: "sloc t si = sloc s si" if "si \<in> infos s" for si by (rule st(4) [OF that])
  have notL: "sloc s si \<notin> ?L" if "si \<in> infos s" "si \<notin> set (swap_tbl s pp)" for si
  proof
    assume "sloc s si \<in> ?L"
    then obtain sj where sj: "sj \<in> set (swap_tbl s pp)" "sloc s si = sloc s sj" by auto
    from inj_onD [OF swap_wf_inj [OF wf] sj(2) that(1) info_of_tbl [OF sj(1)]] sj(1) that(2)
    show False by simp
  qed
  have tbl: "si \<notin> set (swap_tbl s pp)" if "si \<in> set (swap_tbl s p)" "p \<noteq> pp" for si p
    using that swap_wf_in(3) [OF wf, of si p] swap_wf_in(3) [OF wf, of si pp] by auto
  have bnt: "si \<notin> set (swap_tbl s pp)" if "si \<in> set (bno_tbl s c)" for si c
    using that swap_wf_out(1) [OF wf, of si c] swap_wf_in(1) [OF wf, of si pp] by auto
  have inj: "inj_on (sloc t) (infos t)"
    using swap_wf_inj [OF wf] by (simp add: st(3) sl inj_on_def)
  have okt: "\<forall>si \<in> infos t. info_ok D t si"
    using swap_wf_info [OF wf] dir_frame_info [OF st(1) f(10)] by (simp add: st(3))
  have inn: "valid_pte (pload t (sloc t si)) \<and> \<not> swapped_pte (pload t (sloc t si)) \<and>
      PPN (pload t (sloc t si)) = p" if "si \<in> set (swap_tbl t p)" for p si
  proof -
    have si: "si \<in> set (swap_tbl s p)" "p \<noteq> pp" using that by (auto simp: f(5) split: if_splits)
    then have "pload t (sloc t si) = pload s (sloc s si)"
      using notL [OF info_of_tbl [OF si(1)] tbl [OF si]] info_of_tbl [OF si(1)] by (simp add: sl st(2))
    then show ?thesis using swap_wf_in [OF wf si(1)] by simp
  qed
  have outt: "\<not> valid_pte (pload t (sloc t si)) \<and> swapped_pte (pload t (sloc t si)) \<and>
      PPN (pload t (sloc t si)) = c \<and> c < SD_NBLK \<and> bm_bit (sd_bitmap t) c"
    if "si \<in> set (bno_tbl t c)" for c si
  proof (cases "c = b")
    case True
    then have si: "si \<in> set (swap_tbl s pp)" using that by (simp add: f(4))
    then have "pload t (sloc t si) = out_pte b (pload s (sloc s si))"
      using info_of_tbl [OF si] by (simp add: sl st(2))
    then show ?thesis using True b(1) b20 by (simp add: f(8))
  next
    case False
    then have si: "si \<in> set (bno_tbl s c)" using that by (simp add: f(4))
    then have "pload t (sloc t si) = pload s (sloc s si)"
      using notL [OF info_of_bno [OF si] bnt [OF si]] info_of_bno [OF si] by (simp add: sl st(2))
    then show ?thesis using swap_wf_out [OF wf si] by (simp add: f(8))
  qed
  have mp: "PPN (pload t l) \<notin> D \<union> tables D t \<and> PPN (pload t l) \<notin> set (page_free_list t) \<and>
      (PPN (pload t l) \<in> set (page_swap_queue t) \<longrightarrow>
         l \<in> sloc t ` set (swap_tbl t (PPN (pload t l))))"
    if l: "l \<in> ulocs D t" and v: "valid_pte (pload t l)" for l
  proof -
    have ls: "l \<in> ulocs D s" using l by (simp add: st(6))
    have nL: "l \<notin> ?L" using v by (auto simp: st(2))
    then have e: "pload t l = pload s l" by (simp add: st(2))
    let ?q = "PPN (pload s l)"
    have vs: "valid_pte (pload s l)" using v by (simp add: e)
    note m = swap_wf_mapped [OF wf ls vs]
    have "?q \<noteq> pp" using m(2) pp nL by auto
    moreover have "l \<in> sloc t ` set (swap_tbl s ?q)" if "?q \<in> set (page_swap_queue s)"
    proof -
      from m(2) [OF that] obtain si where si: "si \<in> set (swap_tbl s ?q)" "l = sloc s si" by auto
      then have "l = sloc t si" using sl [OF info_of_tbl [OF si(1)]] by simp
      then show ?thesis using si(1) by blast
    qed
    ultimately show ?thesis using m(1) by (simp add: e st(5) fl q f(5))
  qed
  have sw: "l \<in> sloc t ` set (bno_tbl t (PPN (pload t l)))"
    if l: "l \<in> ulocs D t" and v: "\<not> valid_pte (pload t l)" "swapped_pte (pload t l)" for l
  proof (cases "l \<in> ?L")
    case True
    then obtain si where si: "si \<in> set (swap_tbl s pp)" "l = sloc s si" by auto
    then have "PPN (pload t l) = b" using True b20 by (simp add: st(2))
    moreover have "l = sloc t si" using si sl info_of_tbl by simp
    ultimately show ?thesis using si(1) by (auto simp: f(4))
  next
    case False
    have ls: "l \<in> ulocs D s" using l by (simp add: st(6))
    have e: "pload t l = pload s l" using False by (simp add: st(2))
    have "l \<in> sloc s ` set (bno_tbl s (PPN (pload s l)))"
      using swap_wf_swapped [OF wf ls] v by (simp add: e)
    then obtain si where si: "si \<in> set (bno_tbl s (PPN (pload s l)))" "l = sloc s si" by auto
    then have "PPN (pload s l) \<noteq> b" using bno by auto
    then have "si \<in> set (bno_tbl t (PPN (pload t l)))" using si(1) by (simp add: f(4) e)
    moreover have "l = sloc t si" using si sl [OF info_of_bno [OF si(1)]] by simp
    ultimately show ?thesis by blast
  qed
  show ?thesis
  proof (rule swap_wfI)
    show "p \<in> set (page_swap_queue t) \<longleftrightarrow> swap_tbl t p \<noteq> []" for p
      using swap_wf_queue(2) [OF wf] by (simp add: q f(5))
    show "p < npage t \<and> unat (pp_ref t p) = length (swap_tbl t p)"
      if "p \<in> set (page_swap_queue t)" for p
      using swap_wf_queue(3,4) [OF wf] that by (simp add: q f(3,5,9))
    show "p < npage t \<and> pp_ref t p = 0" if "p \<in> set (page_free_list t)" for p
      using swap_wf_free(2,3) [OF wf] swap_wf_queue(3) [OF wf pp] that by (auto simp: f(3,7,9))
    show "(D \<union> tables D t) \<inter> (set (page_swap_queue t) \<union> set (page_free_list t)) = {}"
      using swap_wf_tables(3,4) [OF wf] pp unfolding st(5) fl q by blast
    show "distinct (page_free_list t)" using swap_wf_free(1) [OF wf] ppf by (simp add: f(7))
    show "distinct (page_swap_queue t)" using swap_wf_queue(1) [OF wf] by (simp add: f(6))
    show "distinct (swap_tbl t p)" for p using swap_wf_distinct(1) [OF wf] by (simp add: f(5))
    show "distinct (bno_tbl t c) \<and> length (bno_tbl t c) < 2 ^ 16" for c
      using swap_wf_distinct [OF wf] swap_wf_queue(4) [OF wf pp, symmetric]
        unsigned_less [of "pp_ref s pp", where 'a = nat] by (simp add: f(4))
    show "D \<inter> tables D t = {}" unfolding st(5) by (rule swap_wf_tables(2) [OF wf])
    show "p < npage t" if "p \<in> tables D t" for p
      using swap_wf_tables(1) [OF wf] that by (simp add: st(5) f(9))
    show "npage t \<le> 2 ^ 20" using swap_wf_npage [OF wf] by (simp add: f(9))
    show "inj_on (sloc t) (infos t)" by (rule inj)
    show "info_ok D t si" if "si \<in> infos t" for si using okt that by blast
  qed (fact inn outt mp sw)+
qed

text \<open>
  What the steps below keep for the user: the directories, the view of every entry, and every
  entry that is not valid.
\<close>

definition kept :: "nat set \<Rightarrow> kmem \<Rightarrow> kmem \<Rightarrow> bool" where
  "kept D s t \<longleftrightarrow>
     (\<forall>d \<in> D. pmem t d = pmem s d) \<and> npage t = npage s \<and> cur_pgdir t = cur_pgdir s \<and>
     swapInfos t = swapInfos s \<and>
     (\<forall>l \<in> ulocs D s. lview t l = lview s l) \<and>
     (\<forall>l \<in> ulocs D s. \<not> valid_pte (pload s l) \<longrightarrow> pload t l = pload s l)"

lemma keptD:
  assumes "kept D s t"
  shows "\<And>d. d \<in> D \<Longrightarrow> pmem t d = pmem s d" "npage t = npage s" "swapInfos t = swapInfos s"
    "l \<in> ulocs D s \<Longrightarrow> lview t l = lview s l"
    "l \<in> ulocs D s \<Longrightarrow> \<not> valid_pte (pload s l) \<Longrightarrow> pload t l = pload s l"
    "tables D t = tables D s" "ulocs D t = ulocs D s"
    "d \<in> D \<Longrightarrow> PDX va < NUPDE \<Longrightarrow> uview t d va = uview s d va"
proof -
  show dir: "\<And>d. d \<in> D \<Longrightarrow> pmem t d = pmem s d" and "npage t = npage s" "swapInfos t = swapInfos s"
    and v: "\<And>l. l \<in> ulocs D s \<Longrightarrow> lview t l = lview s l"
    and "l \<in> ulocs D s \<Longrightarrow> \<not> valid_pte (pload s l) \<Longrightarrow> pload t l = pload s l"
    using assms by (auto simp: kept_def)
  show "tables D t = tables D s" by (rule dir_frame_tables [OF dir])
  show "ulocs D t = ulocs D s" by (rule dir_frame_ulocs [OF dir])
  show "d \<in> D \<Longrightarrow> PDX va < NUPDE \<Longrightarrow> uview t d va = uview s d va"
    by (rule dir_frame_uview [OF dir]) (auto intro: v)
qed

lemma kept_refl [simp]: "kept D s s"
  by (simp add: kept_def)

lemma kept_trans:
  assumes "kept D s t" "kept D t u"
  shows "kept D s u"
  using assms keptD(7) [OF assms(1)] by (auto simp: kept_def)

lemma swapped_out_kept:
  assumes "swap_wf D s" "pp \<in> set (page_swap_queue s)" "b < SD_NBLK"
    "\<not> bm_bit (sd_bitmap s) b" "swapped_out s pp b t"
  shows "kept D s t"
proof -
  note st = swapped_out_step [OF assms] and f = swapped_out_fields [OF assms(5)]
  have "pload t l = pload s l" if "\<not> valid_pte (pload s l)" for l
    using that swap_wf_in(1) [OF assms(1)] by (auto simp: st(2))
  then show ?thesis using st(1,7) f(9-11) by (simp add: kept_def)
qed

text \<open>\<^verbatim>\<open>swap\<close> stops the machine only when there is a page to evict and no free block.\<close>

lemma swap_None:
  assumes "swap_wf D s"
  shows "swap s = None \<longleftrightarrow>
    page_swap_queue s \<noteq> [] \<and> (\<forall>b < SD_NBLK. bm_bit (sd_bitmap s) b)"
proof (cases "page_swap_queue s = [] \<or> (\<exists>b < SD_NBLK. \<not> bm_bit (sd_bitmap s) b)")
  case True
  then show ?thesis
  proof (cases "page_swap_queue s = []")
    case False
    with True have "\<exists>b < SD_NBLK. \<not> bm_bit (sd_bitmap s) b" by simp
    then show ?thesis using swap_run [OF assms False] by auto
  qed (simp add: swap_def)
next
  case False
  have "sd_block_alloc u = None" if "sd_bitmap u = sd_bitmap s" for u
    using sd_block_alloc_None [of u] False that by simp
  then show ?thesis using False by (simp add: swap_def Let_def split: prod.splits)
qed

lemma swap_steps:
  assumes wf: "swap_wf D s" and run: "swap s = Some t"
  shows "swap_wf D t" "kept D s t"
    "page_swap_queue s \<noteq> [] \<Longrightarrow> \<exists>pp b. pp \<in> set (page_swap_queue s) \<and> b < SD_NBLK \<and>
       \<not> bm_bit (sd_bitmap s) b \<and> swapped_out s pp b t"
proof -
  have *: "page_swap_queue s \<noteq> [] \<Longrightarrow> \<exists>pp b. pp \<in> set (page_swap_queue s) \<and> b < SD_NBLK \<and>
       \<not> bm_bit (sd_bitmap s) b \<and> swapped_out s pp b t"
    using swap_None [OF wf] swap_run [OF wf] run by auto
  then show "page_swap_queue s \<noteq> [] \<Longrightarrow> \<exists>pp b. pp \<in> set (page_swap_queue s) \<and> b < SD_NBLK \<and>
       \<not> bm_bit (sd_bitmap s) b \<and> swapped_out s pp b t" .
  show "swap_wf D t"
    using * swapped_out_wf [OF wf] run wf by (cases "page_swap_queue s = []") (auto simp: swap_def)
  show "kept D s t"
    using * swapped_out_kept [OF wf] run by (cases "page_swap_queue s = []") (auto simp: swap_def)
qed

lemma swap_times_steps:
  "swap_wf D s \<Longrightarrow> swap_times n s = Some t \<Longrightarrow> swap_wf D t \<and> kept D s t"
proof (induction n arbitrary: s)
  case (Suc n)
  from Suc.prems(2) obtain u where u: "swap s = Some u" "swap_times n u = Some t"
    by (auto elim: bind_SomeE)
  note st = swap_steps [OF Suc.prems(1) u(1)]
  from Suc.IH [OF st(1) u(2)] show ?case using kept_trans [OF st(2)] by blast
qed auto

section \<open>Allocating a page\<close>

text \<open>A page no structure refers to.\<close>

definition fresh_page :: "nat set \<Rightarrow> kmem \<Rightarrow> nat \<Rightarrow> bool" where
  "fresh_page D s p \<longleftrightarrow>
     p < npage s \<and> pp_ref s p = 0 \<and> p \<notin> D \<union> tables D s \<and>
     p \<notin> set (page_swap_queue s) \<and> p \<notin> set (page_free_list s) \<and>
     (\<forall>l \<in> ulocs D s. valid_pte (pload s l) \<longrightarrow> PPN (pload s l) \<noteq> p)"

text \<open>The last step of \<^verbatim>\<open>page_alloc\<close>: the first free page is taken and cleared.\<close>

definition page_take :: "kmem \<Rightarrow> nat \<Rightarrow> nat list \<Rightarrow> kmem" where
  "page_take s p rest = s\<lparr>page_free_list := rest, pmem := (pmem s)(p := (\<lambda>_. 0)),
     accessed := (accessed s)(p := 0)\<rparr>"

lemma page_take_steps:
  assumes wf: "swap_wf D s" and fl: "page_free_list s = p # rest"
  shows "swap_wf D (page_take s p rest)" "kept D s (page_take s p rest)"
    "fresh_page D (page_take s p rest) p" "pmem (page_take s p rest) p = (\<lambda>_. 0)"
proof -
  let ?t = "page_take s p rest"
  have f: "pmem ?t = (pmem s)(p := (\<lambda>_. 0))" "npage ?t = npage s" "swapInfos ?t = swapInfos s"
    "page_free_list ?t = rest" "page_swap_queue ?t = page_swap_queue s" "swap_tbl ?t = swap_tbl s"
    "bno_tbl ?t = bno_tbl s" "sd_bitmap ?t = sd_bitmap s" "pp_ref ?t = pp_ref s"
    "sdisk ?t = sdisk s" "cur_pgdir ?t = cur_pgdir s"
    by (simp_all add: page_take_def)
  have p: "p \<in> set (page_free_list s)" by (simp add: fl)
  have rest: "set rest = set (page_free_list s) - {p}" "distinct rest"
    using swap_wf_free(1) [OF wf] by (auto simp: fl)
  have np: "p \<notin> D" "p \<notin> tables D s" using swap_wf_tables(4) [OF wf, of p] p by auto
  have dir: "pmem ?t d = pmem s d" if "d \<in> D" for d using that np by (auto simp: f)
  have fr: "tables D ?t = tables D s" "ulocs D ?t = ulocs D s"
    "\<And>si. info_ok D ?t si = info_ok D s si"
    by (rule dir_frame_tables [OF dir], assumption, rule dir_frame_ulocs [OF dir], assumption,
        rule dir_frame_info [OF dir f(3)])
  have pl: "pload ?t l = pload s l" if "fst l \<noteq> p" for l
    using that by (simp add: pload_def f)
  have fl': "fst l \<noteq> p" if "l \<in> ulocs D s" for l using that np by (auto simp: ulocs_def)
  have inf: "infos ?t = infos s" by (simp add: infos_def f)
  have sl: "sloc ?t si = sloc s si" if "si \<in> infos s" for si
    by (rule dir_frame_sloc [OF dir f(3) swap_wf_info [OF wf that]])
  have psl: "pload ?t (sloc ?t si) = pload s (sloc s si)" if "si \<in> infos s" for si
    using that sl pl [OF fl' [OF sloc_table(2) [OF wf that]]] by simp
  have img: "sloc ?t ` set (swap_tbl s q) = sloc s ` set (swap_tbl s q)"
    "sloc ?t ` set (bno_tbl s b) = sloc s ` set (bno_tbl s b)" for q b
    using sl info_of_tbl [of _ s q] info_of_bno [of _ s b] by (auto intro!: image_cong)
  show "swap_wf D ?t"
  proof (rule swap_wfI)
    show "info_ok D ?t si" if "si \<in> infos ?t" for si
      using swap_wf_info [OF wf] that by (simp add: inf fr(3))
    show "inj_on (sloc ?t) (infos ?t)"
      using swap_wf_inj [OF wf] by (simp add: inf sl inj_on_def)
    show "p' < npage ?t \<and> unat (pp_ref ?t p') = length (swap_tbl ?t p')"
      if "p' \<in> set (page_swap_queue ?t)" for p'
      using swap_wf_queue(3,4) [OF wf] that by (simp add: f)
    show "p' < npage ?t \<and> pp_ref ?t p' = 0" if "p' \<in> set (page_free_list ?t)" for p'
      using swap_wf_free(2,3) [OF wf] that rest by (simp add: f)
    show "(D \<union> tables D ?t) \<inter> (set (page_swap_queue ?t) \<union> set (page_free_list ?t)) = {}"
      using swap_wf_tables(3,4) [OF wf] unfolding fr f rest by blast
    show "valid_pte (pload ?t (sloc ?t si)) \<and> \<not> swapped_pte (pload ?t (sloc ?t si)) \<and>
        PPN (pload ?t (sloc ?t si)) = q" if "si \<in> set (swap_tbl ?t q)" for q si
      using swap_wf_in [OF wf, of si q] that psl [OF info_of_tbl, of si q] by (simp add: f)
    show "\<not> valid_pte (pload ?t (sloc ?t si)) \<and> swapped_pte (pload ?t (sloc ?t si)) \<and>
        PPN (pload ?t (sloc ?t si)) = b \<and> b < SD_NBLK \<and> bm_bit (sd_bitmap ?t) b"
      if "si \<in> set (bno_tbl ?t b)" for b si
      using swap_wf_out [OF wf, of si b] that psl [OF info_of_bno, of si b] by (simp add: f)
    show "PPN (pload ?t l) \<notin> D \<union> tables D ?t \<and> PPN (pload ?t l) \<notin> set (page_free_list ?t) \<and>
        (PPN (pload ?t l) \<in> set (page_swap_queue ?t) \<longrightarrow>
           l \<in> sloc ?t ` set (swap_tbl ?t (PPN (pload ?t l))))"
      if "l \<in> ulocs D ?t" "valid_pte (pload ?t l)" for l
      using swap_wf_mapped [OF wf, of l] that pl [OF fl', of l]
      by (simp add: fr f rest img)
    show "l \<in> sloc ?t ` set (bno_tbl ?t (PPN (pload ?t l)))"
      if "l \<in> ulocs D ?t" "\<not> valid_pte (pload ?t l)" "swapped_pte (pload ?t l)" for l
      using swap_wf_swapped [OF wf, of l] that pl [OF fl', of l] by (simp add: fr f img)
  qed (use swap_wf_npage [OF wf] swap_wf_queue(1,2) [OF wf] swap_wf_distinct [OF wf]
      swap_wf_tables(1,2) [OF wf] rest in \<open>simp_all add: f fr(1)\<close>)
  have lv: "lview ?t l = lview s l" if l: "l \<in> ulocs D s" for l
    using swap_wf_mapped(1) [OF wf l] p by (auto simp: lview_def pl [OF fl' [OF l]] Let_def f)
  then show "kept D s ?t"
    using pl fl' np by (simp add: kept_def f)
  show "fresh_page D ?t p"
    using swap_wf_free(2,3) [OF wf p] np swap_wf_queue(2,4) [OF wf, of p] p rest
      swap_wf_mapped(1) [OF wf] pl [OF fl']
    unfolding fresh_page_def by (auto simp: f fr)
  show "pmem ?t p = (\<lambda>_. 0)" by (simp add: f)
qed

definition free_blocks :: "kmem \<Rightarrow> nat set" where
  "free_blocks s = {b. b < SD_NBLK \<and> \<not> bm_bit (sd_bitmap s) b}"

lemma swap_counts:
  assumes wf: "swap_wf D s" and run: "swap s = Some t" and ne: "page_swap_queue s \<noteq> []"
  shows "card (free_blocks s) = Suc (card (free_blocks t))"
    "length (page_swap_queue s) = Suc (length (page_swap_queue t))"
    "length (page_free_list t) = Suc (length (page_free_list s))"
proof -
  obtain pp b where s: "pp \<in> set (page_swap_queue s)" "b < SD_NBLK"
    "\<not> bm_bit (sd_bitmap s) b" "swapped_out s pp b t"
    using swap_steps(3) [OF wf run ne] by blast
  note f = swapped_out_fields [OF s(4)]
  have "free_blocks t = free_blocks s - {b}" "b \<in> free_blocks s"
    using s(2,3) by (auto simp: free_blocks_def f(8))
  moreover have "finite (free_blocks s)" by (simp add: free_blocks_def)
  ultimately show "card (free_blocks s) = Suc (card (free_blocks t))"
    using card_Suc_Diff1 [of "free_blocks s" b] by simp
  show "length (page_swap_queue s) = Suc (length (page_swap_queue t))"
    using s(1) length_pos_if_in_set [OF s(1)] by (simp add: f(6) length_remove1)
  show "length (page_free_list t) = Suc (length (page_free_list s))" by (simp add: f(7))
qed

lemma swap_total:
  assumes wf: "swap_wf D s" and enough: "page_swap_queue s = [] \<or> free_blocks s \<noteq> {}"
  shows "\<exists>t. swap s = Some t"
  using swap_None [OF wf] enough by (auto simp: free_blocks_def)

lemma swap_times_total:
  assumes "swap_wf D s" "min n (length (page_swap_queue s)) \<le> card (free_blocks s)"
  shows "\<exists>t. swap_times n s = Some t \<and>
    length (page_free_list t) =
      length (page_free_list s) + min n (length (page_swap_queue s))"
  using assms
proof (induction n arbitrary: s)
  case (Suc n)
  show ?case
  proof (cases "page_swap_queue s = []")
    case True
    then have "swap s = Some s" by (simp add: swap_def)
    then show ?thesis using Suc.IH [OF Suc.prems(1)] True by simp
  next
    case False
    then have "free_blocks s \<noteq> {}" using Suc.prems(2) by (cases "page_swap_queue s") auto
    then obtain u where u: "swap s = Some u" using swap_total [OF Suc.prems(1)] by blast
    note c = swap_counts [OF Suc.prems(1) u False]
    have "min n (length (page_swap_queue u)) \<le> card (free_blocks u)" using Suc.prems(2) c by simp
    from Suc.IH [OF swap_steps(1) [OF Suc.prems(1) u] this] c show ?thesis by (auto simp: u)
  qed
qed simp

lemma page_alloc_cases:
  assumes wf: "swap_wf D s" and run: "page_alloc s = Some (r, p, t)"
  shows "\<exists>u rest. swap_wf D u \<and> kept D s u \<and> page_free_list u = p # rest \<and> r = 0 \<and>
    t = page_take u p rest \<and> (u = s \<or> page_free_list s = [] \<and> swap_times NSWAP s = Some u)"
proof -
  have "\<exists>u. swap_wf D u \<and> kept D s u \<and> (u = s \<or> page_free_list s = [] \<and> swap_times NSWAP s = Some u) \<and>
      (if page_free_list s = [] then do {
         s \<leftarrow> swap_times NSWAP s;
         _ \<leftarrow> panic_on (page_free_list s = []);
         Some s } else Some s) = Some u"
  proof (cases "page_free_list s = []")
    case True
    then obtain u where u: "swap_times NSWAP s = Some u" "page_free_list u \<noteq> []"
      using run by (auto simp: page_alloc_def elim!: bind_SomeE)
    then show ?thesis using swap_times_steps [OF wf u(1)] True by auto
  qed (use wf in simp)
  then obtain u where u: "swap_wf D u" "kept D s u" "u = s \<or> page_free_list s = [] \<and> swap_times NSWAP s = Some u" and
    "(if page_free_list s = [] then do {
        s \<leftarrow> swap_times NSWAP s;
        _ \<leftarrow> panic_on (page_free_list s = []);
        Some s } else Some s) = Some u"
    by blast
  with run have *: "(case page_free_list u of
        [] \<Rightarrow> None
      | pp # rest \<Rightarrow> do {
          let s = u\<lparr>page_free_list := rest\<rparr>;
          _ \<leftarrow> page2kva (npage s) pp;
          let s = s\<lparr>pmem := (pmem s)(pp := (\<lambda>_. 0))\<rparr>;
          _ \<leftarrow> kassert (pp \<notin> set (page_swap_queue s));
          let s = s\<lparr>accessed := (accessed s)(pp := 0)\<rparr>;
          Some (0, pp, s) }) = Some (r, p, t)"
    by (simp add: page_alloc_def)
  then obtain rest where fl: "page_free_list u = p # rest"
    by (auto simp: Let_def split: list.splits elim!: bind_SomeE)
  then have "r = 0 \<and> t = page_take u p rest"
    using * by (auto simp: Let_def page_take_def elim!: bind_SomeE)
  then show ?thesis using u fl by blast
qed

lemma page_alloc_steps:
  assumes wf: "swap_wf D s" and run: "page_alloc s = Some (r, p, t)"
  shows "r = 0" "swap_wf D t" "kept D s t" "fresh_page D t p" "pmem t p = (\<lambda>_. 0)"
proof -
  obtain u rest where u: "swap_wf D u" "kept D s u" "page_free_list u = p # rest"
    and rt: "r = 0" "t = page_take u p rest"
    using page_alloc_cases [OF assms] by blast
  note st = page_take_steps [OF u(1,3)]
  show "r = 0" "swap_wf D t" "fresh_page D t p" "pmem t p = (\<lambda>_. 0)" using st rt by auto
  show "kept D s t" using kept_trans [OF u(2) st(2)] rt by simp
qed

lemma page_take_run:
  assumes wf: "swap_wf D s" and fl: "page_free_list s = p # rest"
  shows "page2kva (npage s) p \<noteq> None" "p \<notin> set (page_swap_queue s)"
proof -
  have p: "p \<in> set (page_free_list s)" by (simp add: fl)
  show "page2kva (npage s) p \<noteq> None"
    using swap_wf_free(2) [OF wf p] swap_wf_npage [OF wf]
    by (simp add: page2kva_def KADDR_def PPN_page2pa)
  show "p \<notin> set (page_swap_queue s)"
    using swap_wf_free(3) [OF wf p] swap_wf_queue(2,4) [OF wf, of p] by auto
qed

lemma page_alloc_total:
  assumes wf: "swap_wf D s"
    and "page_free_list s \<noteq> [] \<or> page_swap_queue s \<noteq> [] \<and>
           min NSWAP (length (page_swap_queue s)) \<le> card (free_blocks s)"
  shows "\<exists>p t. page_alloc s = Some (0, p, t)"
proof -
  obtain u where u: "swap_wf D u" "page_free_list u \<noteq> []"
    "(if page_free_list s = [] then do {
        s \<leftarrow> swap_times NSWAP s;
        _ \<leftarrow> panic_on (page_free_list s = []);
        Some s } else Some s) = Some u"
  proof (cases "page_free_list s = []")
    case True
    then have q: "page_swap_queue s \<noteq> []"
      "min NSWAP (length (page_swap_queue s)) \<le> card (free_blocks s)" using assms(2) by auto
    from swap_times_total [OF wf q(2)] obtain u where u: "swap_times NSWAP s = Some u"
      "length (page_free_list u) = length (page_free_list s) + min NSWAP (length (page_swap_queue s))"
      by blast
    have "length (page_free_list u) \<noteq> 0" using q(1) by (simp add: u(2) min_def)
    then have "page_free_list u \<noteq> []" by auto
    moreover have "swap_wf D u" using swap_times_steps [OF wf u(1)] by simp
    ultimately show thesis using that [of u] u(1) True by simp
  qed (use wf that in simp)
  then obtain p rest where fl: "page_free_list u = p # rest" by (cases "page_free_list u") auto
  note tk = page_take_run [OF u(1) fl]
  then show ?thesis using fl by (auto simp: page_alloc_def u(3) Let_def)
qed

section \<open>Swapping in\<close>

text \<open>What swapping in keeps for the user: the directories and every view.\<close>

definition same_user :: "nat set \<Rightarrow> kmem \<Rightarrow> kmem \<Rightarrow> bool" where
  "same_user D s t \<longleftrightarrow>
     (\<forall>d \<in> D. pmem t d = pmem s d) \<and> npage t = npage s \<and> cur_pgdir t = cur_pgdir s \<and>
     swapInfos t = swapInfos s \<and> (\<forall>l \<in> ulocs D s. lview t l = lview s l)"

lemma kept_same_user: "kept D s t \<Longrightarrow> same_user D s t"
  by (simp add: kept_def same_user_def)

lemma same_user_refl [simp]: "same_user D s s"
  by (simp add: same_user_def)

lemma same_userD:
  assumes "same_user D s t"
  shows "\<And>d. d \<in> D \<Longrightarrow> pmem t d = pmem s d" "npage t = npage s"
    "cur_pgdir t = cur_pgdir s"
    "l \<in> ulocs D s \<Longrightarrow> lview t l = lview s l"
    "tables D t = tables D s" "ulocs D t = ulocs D s"
    "d \<in> D \<Longrightarrow> PDX va < NUPDE \<Longrightarrow> uview t d va = uview s d va"
proof -
  show dir: "\<And>d. d \<in> D \<Longrightarrow> pmem t d = pmem s d" and "npage t = npage s"
    and "cur_pgdir t = cur_pgdir s"
    and v: "\<And>l. l \<in> ulocs D s \<Longrightarrow> lview t l = lview s l"
    using assms by (auto simp: same_user_def)
  show "tables D t = tables D s" by (rule dir_frame_tables [OF dir])
  show "ulocs D t = ulocs D s" by (rule dir_frame_ulocs [OF dir])
  show "d \<in> D \<Longrightarrow> PDX va < NUPDE \<Longrightarrow> uview t d va = uview s d va"
    by (rule dir_frame_uview [OF dir]) (auto intro: v)
qed

lemma same_user_trans: "same_user D s t \<Longrightarrow> same_user D t u \<Longrightarrow> same_user D s u"
  using same_userD(6) [of D s t] by (auto simp: same_user_def)

definition swapped_in :: "kmem \<Rightarrow> nat \<Rightarrow> nat \<Rightarrow> kmem" where
  "swapped_in s p b = s\<lparr>
     sd_bitmap := (sd_bitmap s)
       (b div 32 := sd_bitmap s (b div 32) AND NOT (push_bit (b mod 32) 1)),
     pmem := upd_locs (s\<lparr>pmem := (pmem s)(p := sdisk s b)\<rparr>) (sloc s ` set (bno_tbl s b)) (in_pte p),
     pp_ref := (pp_ref s)(p := word_of_nat (length (bno_tbl s b))),
     page_swap_queue := page_swap_queue s @ [p],
     swap_tbl := (swap_tbl s)(p := rev (bno_tbl s b)),
     bno_tbl := (bno_tbl s)(b := [])\<rparr>"

lemma swapped_in_fields:
  "sdisk (swapped_in s p b) = sdisk s"
  "pp_ref (swapped_in s p b) = (pp_ref s)(p := word_of_nat (length (bno_tbl s b)))"
  "bno_tbl (swapped_in s p b) = (bno_tbl s)(b := [])"
  "swap_tbl (swapped_in s p b) = (swap_tbl s)(p := rev (bno_tbl s b))"
  "page_swap_queue (swapped_in s p b) = page_swap_queue s @ [p]"
  "page_free_list (swapped_in s p b) = page_free_list s"
  "bm_bit (sd_bitmap (swapped_in s p b)) c \<longleftrightarrow> c \<noteq> b \<and> bm_bit (sd_bitmap s) c"
  "npage (swapped_in s p b) = npage s" "swapInfos (swapped_in s p b) = swapInfos s"
  "cur_pgdir (swapped_in s p b) = cur_pgdir s"
  by (auto simp: swapped_in_def bm_bit_and_not simp del: push_bit_of_1)

lemma swapped_in_step:
  assumes wf: "swap_wf D s" and p: "fresh_page D s p" and b: "bno_tbl s b \<noteq> []"
  defines "t \<equiv> swapped_in s p b"
  shows swapped_in_dir: "\<And>d. d \<in> D \<Longrightarrow> pmem t d = pmem s d"
    and swapped_in_pload: "\<And>l. fst l \<noteq> p \<Longrightarrow> pload t l =
      (if l \<in> sloc s ` set (bno_tbl s b) then in_pte p (pload s l) else pload s l)"
    and swapped_in_infos: "infos t = infos s"
    and swapped_in_sloc: "\<And>si. si \<in> infos s \<Longrightarrow> sloc t si = sloc s si"
    and swapped_in_tables: "tables D t = tables D s" "ulocs D t = ulocs D s"
    and swapped_in_view: "l \<in> ulocs D s \<Longrightarrow> lview t l = lview s l"
    and swapped_in_fst: "\<And>l. l \<in> ulocs D s \<Longrightarrow> fst l \<noteq> p"
proof -
  note f = swapped_in_fields [of s p b, folded t_def]
  let ?L = "sloc s ` set (bno_tbl s b)"
  let ?s = "s\<lparr>pmem := (pmem s)(p := sdisk s b)\<rparr>"
  have pm: "pmem t = upd_locs ?s ?L (in_pte p)" by (simp add: t_def swapped_in_def)
  have np: "p < npage s" "p \<notin> D" "p \<notin> tables D s" "p \<notin> set (page_swap_queue s)"
    and nm: "\<And>l. l \<in> ulocs D s \<Longrightarrow> valid_pte (pload s l) \<Longrightarrow> PPN (pload s l) \<noteq> p"
    using p by (auto simp: fresh_page_def)
  have p20: "p < 2 ^ 20" using np(1) swap_wf_npage [OF wf] by simp
  have Lt: "fst k \<in> tables D s" if "k \<in> ?L" for k
    using that sloc_table(1) [OF wf info_of_bno] by auto
  show fst: "fst l \<noteq> p" if "l \<in> ulocs D s" for l using that np(3) by (auto simp: ulocs_def)
  show dir: "pmem t d = pmem s d" if "d \<in> D" for d
  proof -
    have "fst k \<noteq> d" if "k \<in> ?L" for k
      using Lt [OF that] swap_wf_tables(2) [OF wf] \<open>d \<in> D\<close> by auto
    from pmem_upd_locs [OF pm this] show ?thesis using that np(2) by auto
  qed
  show pl: "pload t l = (if l \<in> ?L then in_pte p (pload s l) else pload s l)" if "fst l \<noteq> p" for l
    using pload_upd_locs [OF pm, of l] that by (simp add: pload_def)
  have "swap_tbl s p = []" using swap_wf_queue(2) [OF wf, of p] np(4) by simp
  then have swp: "q = p \<Longrightarrow> swap_tbl s q = []" for q by simp
  show inf: "infos t = infos s"
  proof (intro set_eqI iffI)
    fix si assume "si \<in> infos t"
    then show "si \<in> infos s" by (auto simp: infos_def f(3,4) split: if_splits)
  next
    fix si assume "si \<in> infos s"
    then consider q where "si \<in> set (swap_tbl s q)" | c where "si \<in> set (bno_tbl s c)"
      by (auto simp: infos_def)
    then show "si \<in> infos t"
    proof cases
      case 1
      then have "si \<in> set (swap_tbl t q)" using swp [of q] by (auto simp: f(4))
      then show ?thesis by (rule info_of_tbl)
    next
      case 2
      then have "si \<in> set (bno_tbl t c) \<or> si \<in> set (swap_tbl t p)" by (auto simp: f(3,4))
      then show ?thesis by (auto intro: info_of_tbl info_of_bno)
    qed
  qed
  show "sloc t si = sloc s si" if "si \<in> infos s" for si
    by (rule dir_frame_sloc [OF dir f(9) swap_wf_info [OF wf that]])
  show "tables D t = tables D s" by (rule dir_frame_tables [OF dir])
  show "ulocs D t = ulocs D s" by (rule dir_frame_ulocs [OF dir])
  show "lview t l = lview s l" if l: "l \<in> ulocs D s"
  proof (cases "l \<in> ?L")
    case True
    then obtain si where si: "si \<in> set (bno_tbl s b)" "l = sloc s si" by auto
    note o = swap_wf_out [OF wf si(1), folded si(2)]
    have "fst k \<noteq> p" if "k \<in> ?L" for k using Lt [OF that] np(3) by auto
    from pmem_upd_locs [OF pm this] have "pmem t p = sdisk s b" by simp
    then show ?thesis using True p20 o by (simp add: lview_def pl [OF fst [OF l]] Let_def)
  next
    case False
    show ?thesis
    proof (cases "valid_pte (pload s l)")
      case True
      let ?q = "PPN (pload s l)"
      have "?q \<notin> tables D s" using swap_wf_mapped(1) [OF wf l True] by simp
      then have "fst k \<noteq> ?q" if "k \<in> ?L" for k using Lt [OF that] by auto
      from pmem_upd_locs [OF pm this] have "pmem t ?q = pmem s ?q" using nm [OF l True] by simp
      then show ?thesis using False True by (simp add: lview_def pl [OF fst [OF l]] Let_def)
    next
      case nv: False
      then show ?thesis using False by (simp add: lview_def pl [OF fst [OF l]] f(1) Let_def)
    qed
  qed
qed

lemma swapped_in_wf:
  assumes wf: "swap_wf D s" and p: "fresh_page D s p" and b: "bno_tbl s b \<noteq> []"
  shows "swap_wf D (swapped_in s p b)"
proof -
  define t where "t = swapped_in s p b"
  note f = swapped_in_fields [of s p b, folded t_def]
  note st = swapped_in_step [OF assms, folded t_def]
  let ?L = "sloc s ` set (bno_tbl s b)"
  have np: "p < npage s" "p \<notin> D" "p \<notin> tables D s" "p \<notin> set (page_swap_queue s)"
    "p \<notin> set (page_free_list s)"
    and nm: "\<And>l. l \<in> ulocs D s \<Longrightarrow> valid_pte (pload s l) \<Longrightarrow> PPN (pload s l) \<noteq> p"
    using p by (auto simp: fresh_page_def)
  have p20: "p < 2 ^ 20" using np(1) swap_wf_npage [OF wf] by simp
  have swp: "swap_tbl s p = []" using swap_wf_queue(2) [OF wf, of p] np(4) by simp
  have q: "set (page_swap_queue t) = insert p (set (page_swap_queue s))" by (simp add: f(5))
  have sl: "sloc t si = sloc s si" if "si \<in> infos s" for si by (rule st(4) [OF that])
  have psl: "pload t (sloc t si) =
      (if si \<in> set (bno_tbl s b) then in_pte p (pload s (sloc s si)) else pload s (sloc s si))"
    if si: "si \<in> infos s" for si
  proof -
    have "sloc s si \<in> ?L \<longleftrightarrow> si \<in> set (bno_tbl s b)"
    proof
      assume "sloc s si \<in> ?L"
      then obtain sj where sj: "sj \<in> set (bno_tbl s b)" "sloc s si = sloc s sj" by auto
      from inj_onD [OF swap_wf_inj [OF wf] sj(2) si info_of_bno [OF sj(1)]] sj(1)
      show "si \<in> set (bno_tbl s b)" by simp
    qed auto
    then show ?thesis using st(2) [OF st(8) [OF sloc_table(2) [OF wf si]]] by (simp add: sl [OF si])
  qed
  have tbl: "si \<notin> set (bno_tbl s b)" if "si \<in> set (swap_tbl s r)" for si r
    using that swap_wf_out(1) [OF wf, of si b] swap_wf_in(1) [OF wf, of si r] by auto
  have bnt: "si \<notin> set (bno_tbl s b)" if "si \<in> set (bno_tbl s c)" "c \<noteq> b" for si c
    using that swap_wf_out(3) [OF wf, of si b] swap_wf_out(3) [OF wf, of si c] by auto
  have okt: "info_ok D t si" if "si \<in> infos t" for si
  proof -
    have "info_ok D t si = info_ok D s si" by (rule dir_frame_info [OF st(1) f(9)])
    then show ?thesis using swap_wf_info [OF wf, of si] that by (simp add: st(3))
  qed
  have inn: "valid_pte (pload t (sloc t si)) \<and> \<not> swapped_pte (pload t (sloc t si)) \<and>
      PPN (pload t (sloc t si)) = r" if "si \<in> set (swap_tbl t r)" for r si
  proof (cases "r = p")
    case True
    then have si: "si \<in> set (bno_tbl s b)" using that by (simp add: f(4))
    then show ?thesis using True p20 by (simp add: psl [OF info_of_bno [OF si]])
  next
    case False
    then have si: "si \<in> set (swap_tbl s r)" using that by (simp add: f(4))
    then show ?thesis using swap_wf_in [OF wf si] tbl [OF si]
      by (simp add: psl [OF info_of_tbl [OF si]])
  qed
  have outt: "\<not> valid_pte (pload t (sloc t si)) \<and> swapped_pte (pload t (sloc t si)) \<and>
      PPN (pload t (sloc t si)) = c \<and> c < SD_NBLK \<and> bm_bit (sd_bitmap t) c"
    if "si \<in> set (bno_tbl t c)" for c si
  proof -
    have si: "si \<in> set (bno_tbl s c)" "c \<noteq> b" using that by (auto simp: f(3) split: if_splits)
    then show ?thesis using swap_wf_out [OF wf si(1)] bnt [OF si]
      by (simp add: psl [OF info_of_bno [OF si(1)]] f(7))
  qed
  have img: "l \<in> sloc t ` set xs" if "l \<in> sloc s ` set xs" "set xs \<subseteq> infos s" for l xs
  proof -
    from that(1) obtain si where si: "si \<in> set xs" "l = sloc s si" by auto
    then have "l = sloc t si" using sl [of si] that(2) by auto
    then show ?thesis using si(1) by blast
  qed
  have sub: "set (swap_tbl s r) \<subseteq> infos s" "set (bno_tbl s c) \<subseteq> infos s" for r c
    by (auto simp: infos_def)
  have mp: "PPN (pload t l) \<notin> D \<union> tables D t \<and> PPN (pload t l) \<notin> set (page_free_list t) \<and>
      (PPN (pload t l) \<in> set (page_swap_queue t) \<longrightarrow>
         l \<in> sloc t ` set (swap_tbl t (PPN (pload t l))))"
    if l: "l \<in> ulocs D t" and v: "valid_pte (pload t l)" for l
  proof -
    have ls: "l \<in> ulocs D s" using l by (simp add: st(6))
    note pl = st(2) [OF st(8) [OF ls]]
    show ?thesis
    proof (cases "l \<in> ?L")
      case True
      then have "PPN (pload t l) = p" using p20 by (simp add: pl)
      moreover have "l \<in> sloc t ` set (bno_tbl s b)" by (rule img [OF True sub(2)])
      ultimately show ?thesis using np by (simp add: st(5) f(4,6))
    next
      case False
      then have e: "pload t l = pload s l" by (simp add: pl)
      have vs: "valid_pte (pload s l)" using v by (simp add: e)
      note m = swap_wf_mapped [OF wf ls vs]
      have "l \<in> sloc t ` set (swap_tbl s (PPN (pload s l)))"
        if "PPN (pload s l) \<in> set (page_swap_queue s)"
        by (rule img [OF m(2) [OF that] sub(1)])
      then show ?thesis using m(1) nm [OF ls vs] by (simp add: e st(5) f(4,6) q)
    qed
  qed
  have sw: "l \<in> sloc t ` set (bno_tbl t (PPN (pload t l)))"
    if l: "l \<in> ulocs D t" and v: "\<not> valid_pte (pload t l)" "swapped_pte (pload t l)" for l
  proof -
    have ls: "l \<in> ulocs D s" using l by (simp add: st(6))
    have nL: "l \<notin> ?L" using v st(2) [OF st(8) [OF ls]] by auto
    then have e: "pload t l = pload s l" using st(2) [OF st(8) [OF ls]] by simp
    have "l \<in> sloc s ` set (bno_tbl s (PPN (pload s l)))"
      using swap_wf_swapped [OF wf ls] v by (simp add: e)
    moreover from this nL have "PPN (pload s l) \<noteq> b" by auto
    ultimately show ?thesis using img [OF _ sub(2)] by (simp add: e f(3))
  qed
  have "swap_wf D t"
  proof (rule swap_wfI)
    show "r \<in> set (page_swap_queue t) \<longleftrightarrow> swap_tbl t r \<noteq> []" for r
      using swap_wf_queue(2) [OF wf] b by (simp add: q f(4))
    show "r < npage t \<and> unat (pp_ref t r) = length (swap_tbl t r)"
      if "r \<in> set (page_swap_queue t)" for r
    proof (cases "r = p")
      case True
      then show ?thesis using np(1) swap_wf_distinct(3) [OF wf, of b]
        by (simp add: f(2,4,8) unat_of_nat)
    next
      case False
      then show ?thesis using that swap_wf_queue(3,4) [OF wf, of r] by (simp add: q f(2,4,8))
    qed
    show "r < npage t \<and> pp_ref t r = 0" if "r \<in> set (page_free_list t)" for r
      using swap_wf_free(2,3) [OF wf] that np(5) by (auto simp: f(2,6,8))
    show "(D \<union> tables D t) \<inter> (set (page_swap_queue t) \<union> set (page_free_list t)) = {}"
      using swap_wf_tables(3,4) [OF wf] np unfolding st(5) f(6) q by blast
    show "distinct (page_free_list t)" using swap_wf_free(1) [OF wf] by (simp add: f(6))
    show "distinct (page_swap_queue t)" using swap_wf_queue(1) [OF wf] np(4) by (simp add: f(5))
    show "distinct (swap_tbl t r)" for r
      using swap_wf_distinct(1,2) [OF wf] by (simp add: f(4))
    show "distinct (bno_tbl t c) \<and> length (bno_tbl t c) < 2 ^ 16" for c
      using swap_wf_distinct(2,3) [OF wf] by (simp add: f(3))
    show "D \<inter> tables D t = {}" unfolding st(5) by (rule swap_wf_tables(2) [OF wf])
    show "r < npage t" if "r \<in> tables D t" for r
      using swap_wf_tables(1) [OF wf] that by (simp add: st(5) f(8))
    show "npage t \<le> 2 ^ 20" using swap_wf_npage [OF wf] by (simp add: f(8))
    show "inj_on (sloc t) (infos t)"
      using swap_wf_inj [OF wf] by (simp add: st(3) sl inj_on_def)
  qed (fact okt inn outt mp sw)+
  then show ?thesis by (simp add: t_def)
qed

lemma swap_back_run:
  assumes al: "page_alloc s = Some (0, p, u)" and wf: "swap_wf D u" and p: "fresh_page D u p"
    and l: "l \<in> ulocs D u" and pte: "\<not> valid_pte (pload u l)" "swapped_pte (pload u l)"
  defines "b \<equiv> PPN (pload u l)"
  shows "bno_tbl u b \<noteq> []" "swap_back (pload u l) s = Some (swapped_in u p b)"
    "l \<in> sloc u ` set (bno_tbl u b)"
proof -
  show lin: "l \<in> sloc u ` set (bno_tbl u b)"
    using swap_wf_swapped [OF wf l pte] by (simp add: b_def)
  then obtain si where si: "si \<in> set (bno_tbl u b)" by auto
  then show bn: "bno_tbl u b \<noteq> []" by auto
  have blt: "b < SD_NBLK" by (rule swap_wf_out(4) [OF wf si])
  have np: "p < npage u" "p \<notin> D" "p \<notin> tables D u" "p \<notin> set (page_swap_queue u)" "pp_ref u p = 0"
    using p by (auto simp: fresh_page_def)
  have p20: "p < 2 ^ 20" using np(1) swap_wf_npage [OF wf] by simp
  have swp: "swap_tbl u p = []" using swap_wf_queue(2) [OF wf, of p] np(4) by simp
  define u1 where "u1 = u\<lparr>pmem := (pmem u)(p := sdisk u b)\<rparr>"
  define u2 where "u2 = sd_block_free b u1"
  have rd: "read_page p b u = Some u1"
    using np(1) p20 by (simp add: read_page_def page2kva_def KADDR_def PPN_page2pa u1_def)
  have u2: "pmem u2 = (pmem u)(p := sdisk u b)" "swapInfos u2 = swapInfos u" "npage u2 = npage u"
    "bno_tbl u2 = bno_tbl u" "pp_ref u2 = pp_ref u"
    by (simp_all add: u2_def u1_def sd_block_free_def)
  have dir: "pmem u2 d = pmem u d" if "d \<in> D" for d using that np(2) by (auto simp: u2(1))
  have tabs: "tables D u2 = tables D u" by (rule dir_frame_tables [OF dir])
  have oks: "info_ok D u2 sj = info_ok D u sj" for sj by (rule dir_frame_info [OF dir u2(2)])
  have sl: "sloc u2 sj = sloc u sj" if "sj \<in> infos u" for sj
    by (rule dir_frame_sloc [OF dir u2(2) swap_wf_info [OF wf that]])
  have pl: "pload u2 k = pload u k" if "fst k \<noteq> p" for k using that by (simp add: pload_def u2(1))
  have ps: "pload u2 (sloc u2 sj) = pload u (sloc u sj)" if "sj \<in> infos u" for sj
    using sloc_table(1) [OF wf that] np(3) that by (auto simp: sl intro!: pl)
  have ms: "map (sloc u2) (bno_tbl u b) = map (sloc u) (bno_tbl u b)"
    using sl [OF info_of_bno] by simp
  have run: "swap_in_ptes (bno_tbl u b) p u2 =
    Some (u2\<lparr>pmem := upd_locs u2 (sloc u2 ` set (bno_tbl u b)) (in_pte p),
      pp_ref := (pp_ref u2)(p := pp_ref u2 p + word_of_nat (length (bno_tbl u b)))\<rparr>)"
  proof (rule swap_in_ptes_run)
    show "D \<inter> tables D u2 = {}" "\<forall>t \<in> tables D u2. t < npage u2"
      using swap_wf_tables(1,2) [OF wf] by (auto simp: tabs u2(3))
    show "\<forall>sj \<in> set (bno_tbl u b). info_ok D u2 sj \<and>
        (\<not> valid_pte (pload u2 (sloc u2 sj)) \<and> swapped_pte (pload u2 (sloc u2 sj)))"
      using swap_wf_info [OF wf info_of_bno] swap_wf_out(1,2) [OF wf] ps [OF info_of_bno]
      by (simp add: oks)
    show "distinct (map (sloc u2) (bno_tbl u b))"
      unfolding ms by (rule swap_wf_map_distinct(2) [OF wf])
  qed
  have img: "sloc u2 ` set (bno_tbl u b) = sloc u ` set (bno_tbl u b)"
    using arg_cong [OF ms, of set] by simp
  have um: "upd_locs u2 (sloc u2 ` set (bno_tbl u b)) (in_pte p) =
      upd_locs (u\<lparr>pmem := (pmem u)(p := sdisk u b)\<rparr>) (sloc u ` set (bno_tbl u b)) (in_pte p)"
    unfolding img upd_locs_def u2(1) by (simp cong: if_cong)
  show "swap_back (pload u l) s = Some (swapped_in u p b)"
    unfolding swap_back_def b_def [symmetric] using al np(4,5) blt
    by (simp add: rd u2_def [symmetric] u2(4,5) run um Let_def lst_insert_tail_def)
      (simp add: u2_def u1_def sd_block_free_def swapped_in_def swp np(5))
qed

lemma swap_back_result:
  assumes wf: "swap_wf D s" and l: "l \<in> ulocs D s"
    and pte: "\<not> valid_pte (pload s l)" "swapped_pte (pload s l)"
    and run: "swap_back (pload s l) s = Some t"
  shows "\<exists>p u. page_alloc s = Some (0, p, u) \<and> bno_tbl u (PPN (pload s l)) \<noteq> [] \<and>
    t = swapped_in u p (PPN (pload s l))"
proof -
  obtain r p u where al: "page_alloc s = Some (r, p, u)"
    using run by (auto simp: swap_back_def elim!: bind_SomeE)
  note pa = page_alloc_steps [OF wf al]
  have al0: "page_alloc s = Some (0, p, u)" using al pa(1) by simp
  have lu: "l \<in> ulocs D u" using l by (simp add: keptD(7) [OF pa(3)])
  have e: "pload u l = pload s l" by (rule keptD(5) [OF pa(3) l pte(1)])
  note sb = swap_back_run [OF al0 pa(2,4) lu, unfolded e, OF pte]
  then show ?thesis using run al0 by auto
qed

lemma swap_back_steps:
  assumes wf: "swap_wf D s" and l: "l \<in> ulocs D s"
    and pte: "\<not> valid_pte (pload s l)" "swapped_pte (pload s l)"
    and run: "swap_back (pload s l) s = Some t"
  shows "swap_wf D t" "same_user D s t" "valid_pte (pload t l)" "\<not> swapped_pte (pload t l)"
    "\<exists>p u. page_alloc s = Some (0, p, u) \<and> PPN (pload t l) = p \<and> p < npage s \<and>
       p \<in> set (page_swap_queue t)"
proof -
  obtain r p u where al: "page_alloc s = Some (r, p, u)"
    using run by (auto simp: swap_back_def elim!: bind_SomeE)
  note pa = page_alloc_steps [OF wf al]
  have al0: "page_alloc s = Some (0, p, u)" using al pa(1) by simp
  have lu: "l \<in> ulocs D u" using l by (simp add: keptD(7) [OF pa(3)])
  have e: "pload u l = pload s l" by (rule keptD(5) [OF pa(3) l pte(1)])
  note sb = swap_back_run [OF al0 pa(2,4) lu, unfolded e, OF pte]
  have t: "t = swapped_in u p (PPN (pload s l))" using run sb(2) by simp
  note st = swapped_in_step [OF pa(2,4) sb(1), folded t]
  note f = swapped_in_fields [of u p "PPN (pload s l)", folded t]
  show "swap_wf D t" using swapped_in_wf [OF pa(2,4) sb(1)] by (simp add: t)
  have "same_user D u t" using st(1,7) f(8-10) by (simp add: same_user_def)
  then show "same_user D s t" using same_user_trans [OF kept_same_user [OF pa(3)]] by blast
  have pl: "pload t l = in_pte p (pload s l)"
    using st(2) [OF st(8) [OF lu]] sb(3) by (simp add: e)
  then show "valid_pte (pload t l)" "\<not> swapped_pte (pload t l)" by simp_all
  have "p < npage s" "npage s \<le> 2 ^ 20"
    using pa(4) keptD(2) [OF pa(3)] swap_wf_npage [OF wf] by (auto simp: fresh_page_def)
  then show "\<exists>p u. page_alloc s = Some (0, p, u) \<and> PPN (pload t l) = p \<and> p < npage s \<and>
      p \<in> set (page_swap_queue t)"
    using al0 by (auto simp: pl f(5))
qed

text \<open>Only an unsuccessful allocation keeps a page out.\<close>

lemma swap_back_total:
  assumes wf: "swap_wf D s" and l: "l \<in> ulocs D s"
    and pte: "\<not> valid_pte (pload s l)" "swapped_pte (pload s l)"
    and al: "page_alloc s = Some (r, p, u)"
  shows "\<exists>t. swap_back (pload s l) s = Some t"
proof -
  note pa = page_alloc_steps [OF wf al]
  have al0: "page_alloc s = Some (0, p, u)" using al pa(1) by simp
  have lu: "l \<in> ulocs D u" using l by (simp add: keptD(7) [OF pa(3)])
  have e: "pload u l = pload s l" by (rule keptD(5) [OF pa(3) l pte(1)])
  show ?thesis using swap_back_run(2) [OF al0 pa(2,4) lu, unfolded e, OF pte] by blast
qed

section \<open>Looking a page up\<close>

lemma pgdir_walk_table:
  assumes "valid_pte (pmem s d (PDX va))" "PPN (pmem s d (PDX va)) < npage s"
  shows "pgdir_walk d va c s = Some (0, Some (uloc s d va), s)"
  using assms
  by (simp add: pgdir_walk_def and_PTE_V KADDR_pde uloc_def Let_def del: PTE_V_def)

lemma pgdir_walk_none:
  assumes "\<not> valid_pte (pmem s d (PDX va))"
  shows "pgdir_walk d va False s = Some (0, None, s)"
  using assms by (simp add: pgdir_walk_def and_PTE_V del: PTE_V_def)

lemma uloc_ulocs:
  assumes "d \<in> D" "PDX va < NUPDE" "valid_pte (pmem s d (PDX va))"
  shows "uloc s d va \<in> ulocs D s" "PPN (pmem s d (PDX va)) \<in> tables D s"
  using assms by (auto simp: ulocs_def uloc_def tables_def)

lemma swap_in_if_needed_steps:
  assumes wf: "swap_wf D s" and l: "l \<in> ulocs D s" and run: "swap_in_if_needed (Some l) s = Some t"
  shows "swap_wf D t" "same_user D s t" "valid_pte (pload s l) \<Longrightarrow> t = s"
    "valid_pte (pload t l) \<longleftrightarrow> valid_pte (pload s l) \<or> swapped_pte (pload s l)"
proof -
  have "swap_wf D t \<and> same_user D s t \<and> (valid_pte (pload s l) \<longrightarrow> t = s) \<and>
      (valid_pte (pload t l) \<longleftrightarrow> valid_pte (pload s l) \<or> swapped_pte (pload s l))"
  proof (cases "\<not> valid_pte (pload s l) \<and> swapped_pte (pload s l)")
    case True
    then have "swap_back (pload s l) s = Some t"
      using run
      by (cases l) (simp add: swap_in_if_needed_def and_PTE_V and_PTE_SWAPPED pload_def
          del: PTE_V_def PTE_SWAPPED_def)
    then show ?thesis using swap_back_steps [OF wf l] True by blast
  next
    case False
    then have "t = s"
      using run
      by (cases l) (auto simp: swap_in_if_needed_def and_PTE_V and_PTE_SWAPPED pload_def
          simp del: PTE_V_def PTE_SWAPPED_def)
    then show ?thesis using wf False by auto
  qed
  then show "swap_wf D t" "same_user D s t" "valid_pte (pload s l) \<Longrightarrow> t = s"
    "valid_pte (pload t l) \<longleftrightarrow> valid_pte (pload s l) \<or> swapped_pte (pload s l)"
    by blast+
qed

text \<open>Setting the accessed mark of a page changes nothing the invariant or a view speaks of.\<close>

lemma accessed_frame:
  "swap_wf D (s\<lparr>accessed := a\<rparr>) = swap_wf D s" "same_user D u (s\<lparr>accessed := a\<rparr>) = same_user D u s"
  "pload (s\<lparr>accessed := a\<rparr>) = pload s" "uloc (s\<lparr>accessed := a\<rparr>) = uloc s"
proof -
  have e: "pload (s\<lparr>accessed := a\<rparr>) = pload s" "sloc (s\<lparr>accessed := a\<rparr>) = sloc s"
    "tables D (s\<lparr>accessed := a\<rparr>) = tables D s" "ulocs D (s\<lparr>accessed := a\<rparr>) = ulocs D s"
    "infos (s\<lparr>accessed := a\<rparr>) = infos s" "info_ok D (s\<lparr>accessed := a\<rparr>) = info_ok D s"
    "uloc (s\<lparr>accessed := a\<rparr>) = uloc s" "lview (s\<lparr>accessed := a\<rparr>) = lview s"
    by (auto simp: fun_eq_iff pload_def sloc_def uloc_def tables_def ulocs_def infos_def
        info_ok_def lview_def Let_def)
  show "swap_wf D (s\<lparr>accessed := a\<rparr>) = swap_wf D s" by (simp add: swap_wf_def e)
  show "same_user D u (s\<lparr>accessed := a\<rparr>) = same_user D u s" by (simp add: same_user_def e)
  show "pload (s\<lparr>accessed := a\<rparr>) = pload s" "uloc (s\<lparr>accessed := a\<rparr>) = uloc s" by (fact e)+
qed

text \<open>The view of an address in a valid table, and of one that is resident.\<close>

lemma uview_table:
  "valid_pte (pmem s d (PDX va)) \<Longrightarrow> uview s d va = lview s (uloc s d va)"
  by (simp add: uview_def)

lemma lview_valid:
  "valid_pte (pload s l) \<Longrightarrow> lview s l = Some (perms (pload s l), pmem s (PPN (pload s l)))"
  by (simp add: lview_def Let_def)

lemma lview_None: "lview s l = None \<longleftrightarrow> \<not> valid_pte (pload s l) \<and> \<not> swapped_pte (pload s l)"
  by (simp add: lview_def Let_def)

lemma page_lookup_steps:
  assumes wf: "swap_wf D s" and d: "d \<in> D" "PDX va < NUPDE"
    and run: "page_lookup d va s = Some (pp, pte, t)"
  shows "swap_wf D t \<and> same_user D s t \<and>
    (case pp of
       None \<Rightarrow> uview s d va = None
     | Some p \<Rightarrow> pte = Some (uloc t d va) \<and> valid_pte (pload t (uloc t d va)) \<and>
         PPN (pload t (uloc t d va)) = p \<and> p < npage t \<and>
         uview s d va = Some (perms (pload t (uloc t d va)), pmem t p))"
proof (cases "valid_pte (pmem s d (PDX va))")
  case False
  then have "pp = None \<and> t = s"
    using run by (simp add: page_lookup_def pgdir_walk_none swap_in_if_needed_def)
  then show ?thesis using wf False by (simp add: uview_def)
next
  case True
  define l where "l = uloc s d va"
  have l: "l \<in> ulocs D s" and "PPN (pmem s d (PDX va)) \<in> tables D s"
    using uloc_ulocs [OF d True] by (auto simp: l_def)
  then have "PPN (pmem s d (PDX va)) < npage s" using swap_wf_tables(1) [OF wf] by blast
  note walk = pgdir_walk_table [OF True this, of False, folded l_def]
  obtain u where u: "swap_in_if_needed (Some l) s = Some u"
    using run by (auto simp: page_lookup_def walk elim: bind_SomeE)
  note st = swap_in_if_needed_steps [OF wf l u]
  have dir: "pmem u d = pmem s d" by (rule same_userD(1) [OF st(2) d(1)])
  have lu: "uloc u d va = l" using dir by (simp add: uloc_def l_def)
  have uv: "uview s d va = lview u l"
    using same_userD(4) [OF st(2) l] by (simp add: uview_table [OF True] flip: l_def)
  have rest: "(if \<not> valid_pte (pload u l) then Some (None, Some l, u)
      else do { p \<leftarrow> pa2page (npage u) (pload u l);
                Some (Some p, Some l, u\<lparr>accessed := (accessed u)(p := 1)\<rparr>) }) = Some (pp, pte, t)"
    using run u
    by (cases l) (auto simp: page_lookup_def walk and_PTE_V pload_def Let_def simp del: PTE_V_def
        split: if_splits)
  show ?thesis
  proof (cases "valid_pte (pload u l)")
    case False
    then have "pp = None" "t = u" using rest by auto
    moreover have "\<not> swapped_pte (pload s l)" "\<not> valid_pte (pload s l)" using st(4) False by auto
    then have "lview s l = None" by (simp add: lview_None)
    ultimately show ?thesis using st(1,2) uview_table [OF True] by (simp add: l_def)
  next
    case v: True
    then have p: "pp = Some (PPN (pload u l))" "pte = Some l" "PPN (pload u l) < npage u"
      "t = u\<lparr>accessed := (accessed u)(PPN (pload u l) := 1)\<rparr>"
      using rest by (auto simp: pa2page_def split: if_splits)
    have t: "uloc t d va = l" "pload t = pload u" "pmem t = pmem u" "npage t = npage u"
      using lu by (simp_all add: p(4) accessed_frame)
    show ?thesis
      using st(1,2) p(1,2,3) v uv by (simp add: t lview_valid) (simp add: p(4) accessed_frame)
  qed
qed

end
