(* ===== verification/Transparency.thy ===== *)
theory Transparency
  imports Vm
begin

text \<open>
  What the swap module promises to processes, as properties of \<^verbatim>\<open>kern/pmap.c\<close>: eviction and
  reloading change no view, allocation returns fresh pages, lookup returns resident ones. The
  proofs rest on the invariant and the step lemmas of \<^verbatim>\<open>Vm\<close>; a small machine with one process
  and one swappable page serves as the concrete input.
\<close>

section \<open>A small machine\<close>

text \<open>
  Page 0 is a directory, page 1 its only table, page 2 a page mapped at \<^verbatim>\<open>UTEXT\<close> and registered;
  no page is free.
\<close>

definition ex_vm :: kmem where
  "ex_vm = \<lparr>memsize = 0x3000, npage = 3, freemem = 0, pages_kva = 0, cur_pgdir = 0,
     pmem = (\<lambda>p i. if p = 0 \<and> i = 1 then 0x1680 else if p = 1 \<and> i = 0 then 0x2780
                   else if p = 2 then 7 else 0),
     pp_ref = (\<lambda>p. if p < 3 then 1 else 0), accessed = (\<lambda>_. 0), page_free_list = [],
     page_swap_queue = [2], last_next = None, swap_tbl = (\<lambda>p. if p = 2 then [0] else []),
     bno_tbl = (\<lambda>_. []),
     swapInfos = (\<lambda>_. \<lparr>si_pgdir = 0, si_asid = 0, si_va = UTEXT\<rparr>),
     swapInfo_free_list = [], sd_bitmap = (\<lambda>_. 0), sdisk = (\<lambda>_ _. 0), tlb = (\<lambda>_. None)\<rparr>"

lemma NUPDE_val: "NUPDE = 509"
  by (simp add: NUPDE_def) code_simp

lemma ex_vals:
  "valid_pte 0x1680" "valid_pte 0x2780" "\<not> swapped_pte 0x2780" "\<not> valid_pte 0"
  "\<not> swapped_pte 0" "PPN 0x1680 = 1" "PPN 0x2780 = 2" "PDX 0x400000 = 1" "PTX 0x400000 = 0"
  "perms 0x2780 = 0x700" "PDX 0x3fffff = 0" "PTX 0x3fffff = 1023"
  by code_simp+

lemma ex_tables: "tables {0} ex_vm = {1}"
proof -
  have "pmem ex_vm 0 i = (if i = 1 then 0x1680 else 0)" for i by (simp add: ex_vm_def)
  then have "tables {0} ex_vm = {PPN (pmem ex_vm 0 i) | i. i = 1 \<and> i < NUPDE}"
    unfolding tables_def using ex_vals by (auto split: if_splits)
  then show ?thesis by (simp add: NUPDE_val ex_vm_def ex_vals)
qed

lemma ex_wf: "swap_wf {0} ex_vm"
proof (rule swap_wfI)
  have inf: "infos ex_vm = {0}" by (auto simp: infos_def ex_vm_def split: if_splits)
  have sl: "sloc ex_vm si = (1, 0)" for si
    by (simp add: sloc_def uloc_def ex_vm_def ex_vals)
  have ul: "ulocs {0} ex_vm = {(1, j) | j. j < 1024}" by (auto simp: ulocs_def ex_tables)
  have pl: "pload ex_vm (1, j) = (if j = 0 then 0x2780 else 0)" for j
    by (simp add: pload_def ex_vm_def)
  note pl' = pl [unfolded One_nat_def]
  have q: "page_swap_queue ex_vm = [2]" "page_free_list ex_vm = []" "npage ex_vm = 3"
    "swap_tbl ex_vm = (\<lambda>p. if p = 2 then [0] else [])" "bno_tbl ex_vm = (\<lambda>_. [])"
    "pp_ref ex_vm = (\<lambda>p. if p < 3 then 1 else 0)"
    by (simp_all add: ex_vm_def)
  show "inj_on (sloc ex_vm) (infos ex_vm)" by (simp add: inf)
  show "info_ok {0} ex_vm si" for si
    by (simp add: info_ok_def ex_vm_def ex_vals NUPDE_val Let_def)
  show "valid_pte (pload ex_vm (sloc ex_vm si)) \<and> \<not> swapped_pte (pload ex_vm (sloc ex_vm si)) \<and>
      PPN (pload ex_vm (sloc ex_vm si)) = p" if "si \<in> set (swap_tbl ex_vm p)" for p si
    using that by (simp add: q sl pl' ex_vals split: if_splits)
  show "PPN (pload ex_vm l) \<notin> {0} \<union> tables {0} ex_vm \<and>
      PPN (pload ex_vm l) \<notin> set (page_free_list ex_vm) \<and>
      (PPN (pload ex_vm l) \<in> set (page_swap_queue ex_vm) \<longrightarrow>
         l \<in> sloc ex_vm ` set (swap_tbl ex_vm (PPN (pload ex_vm l))))"
    if "l \<in> ulocs {0} ex_vm" "valid_pte (pload ex_vm l)" for l
    using that by (auto simp: ul pl' ex_vals q sl ex_tables split: if_splits)
  show "l \<in> sloc ex_vm ` set (bno_tbl ex_vm (PPN (pload ex_vm l)))"
    if "l \<in> ulocs {0} ex_vm" "\<not> valid_pte (pload ex_vm l)" "swapped_pte (pload ex_vm l)" for l
    using that by (auto simp: ul pl' ex_vals split: if_splits)
qed (auto simp: ex_tables, auto simp: ex_vm_def split: if_splits)

section \<open>Properties\<close>

text \<open>
  C1. Evicting pages is transparent: from a consistent state, \<^verbatim>\<open>swap\<close> leaves a consistent state,
  and every process sees, at every user address, the same contents and permissions as before.
\<close>

theorem swap_transparent:
  assumes "swap_wf D s" "swap s = Some t"
  shows "swap_wf D t \<and> (\<forall>d \<in> D. \<forall>va. PDX va < PDX UTOP \<longrightarrow> uview t d va = uview s d va)"
  using swap_steps(1) [OF assms] keptD(8) [OF swap_steps(2) [OF assms]]
  by (simp add: NUPDE_def del: UTOP_def)

theorem swap_transparent_witness:
  "\<exists>t. swap ex_vm = Some t \<and> uview t 0 UTEXT = Some (0x700, \<lambda>_. 7)"
proof -
  have "free_blocks ex_vm \<noteq> {}"
    by (auto simp: free_blocks_def ex_vm_def bm_bit_def intro: exI [of _ 0])
  then obtain t where t: "swap ex_vm = Some t" using swap_total [OF ex_wf] by blast
  have "uview ex_vm 0 UTEXT = Some (0x700, \<lambda>_. 7)"
    by (simp add: uview_def uloc_def lview_def pload_def ex_vm_def ex_vals Let_def)
  moreover have "PDX UTEXT < PDX UTOP" by code_simp
  ultimately show ?thesis using swap_transparent [OF ex_wf t] t by auto
qed

text \<open>
  C12. \<^verbatim>\<open>swap\<close> never stops the machine in a consistent state unless a page must go out and the swap
  disk is full; otherwise it moves exactly one page from the queue to the free list and takes
  one block.
\<close>

theorem swap_progress:
  assumes "swap_wf D s"
  shows "(swap s = None) = (page_swap_queue s \<noteq> [] \<and> free_blocks s = {}) \<and>
    (\<forall>t. swap s = Some t \<longrightarrow> page_swap_queue s \<noteq> [] \<longrightarrow>
       length (page_swap_queue s) = Suc (length (page_swap_queue t)) \<and>
       length (page_free_list t) = Suc (length (page_free_list s)) \<and>
       card (free_blocks s) = Suc (card (free_blocks t)))"
  using swap_None [OF assms] swap_counts [OF assms] by (auto simp: free_blocks_def)

theorem swap_progress_witness: "swap ex_vm \<noteq> None"
proof -
  have "free_blocks ex_vm \<noteq> {}"
    by (auto simp: free_blocks_def ex_vm_def bm_bit_def intro: exI [of _ 0])
  then show ?thesis using swap_progress [OF ex_wf] by simp
qed

text \<open>
  \<^verbatim>\<open>page_alloc\<close> returns a cleared page that nothing refers to: not a directory or table, not
  mapped by any process, not swappable, no longer free, with reference count 0. The pages it
  swapped out on the way are seen as before.
\<close>

theorem page_alloc_fresh:
  assumes "swap_wf D s" "page_alloc s = Some (r, p, t)"
  shows "r = 0 \<and> swap_wf D t \<and> fresh_page D t p \<and> pmem t p = (\<lambda>_. 0) \<and>
    (\<forall>d \<in> D. \<forall>va. PDX va < PDX UTOP \<longrightarrow> uview t d va = uview s d va)"
  using page_alloc_steps [OF assms] keptD(8) [OF page_alloc_steps(3) [OF assms]]
  by (simp add: NUPDE_def del: UTOP_def)

text \<open>
  \<^verbatim>\<open>page_alloc\<close> succeeds whenever a page is free, or some page can be swapped out and the swap
  disk has room for the at most 100 pages it evicts; it never returns an error.
\<close>

theorem page_alloc_succeeds:
  assumes "swap_wf D s"
    and "page_free_list s \<noteq> [] \<or> page_swap_queue s \<noteq> [] \<and>
           min NSWAP (length (page_swap_queue s)) \<le> card (free_blocks s)"
  shows "\<exists>p t. page_alloc s = Some (0, p, t)"
  by (rule page_alloc_total [OF assms])

lemma ex_alloc: "page_free_list ex_vm \<noteq> [] \<or> page_swap_queue ex_vm \<noteq> [] \<and>
    min NSWAP (length (page_swap_queue ex_vm)) \<le> card (free_blocks ex_vm)"
proof -
  have "finite (free_blocks ex_vm)" by (simp add: free_blocks_def)
  moreover have "0 \<in> free_blocks ex_vm" by (simp add: free_blocks_def ex_vm_def bm_bit_def)
  ultimately have "1 \<le> card (free_blocks ex_vm)"
    using card_gt_0_iff [of "free_blocks ex_vm"] by auto
  then show ?thesis by (simp add: ex_vm_def)
qed

theorem page_alloc_fresh_witness:
  "\<exists>p t. page_alloc ex_vm = Some (0, p, t) \<and> fresh_page {0} t p"
  using page_alloc_total [OF ex_wf ex_alloc] page_alloc_fresh [OF ex_wf] by blast

theorem page_alloc_succeeds_witness: "page_alloc ex_vm \<noteq> None"
  using page_alloc_succeeds [OF ex_wf ex_alloc] by auto

text \<open>
  C2. \<^verbatim>\<open>page_lookup\<close> brings the page in when it is on the swap disk: it returns a page exactly when
  the process has something mapped at the address, and then the page holds what the process
  sees there, the entry is valid, and all other views are as before.
\<close>

theorem page_lookup_resident:
  assumes "swap_wf D s" "d \<in> D" "PDX va < PDX UTOP" "page_lookup d va s = Some (pp, pte, t)"
  shows "swap_wf D t \<and>
    (\<forall>d' \<in> D. \<forall>va'. PDX va' < PDX UTOP \<longrightarrow> uview t d' va' = uview s d' va') \<and>
    (case pp of
       None \<Rightarrow> uview s d va = None
     | Some p \<Rightarrow> p < npage t \<and> pte = Some (uloc t d va) \<and> valid_pte (pload t (uloc t d va)) \<and>
         PPN (pload t (uloc t d va)) = p \<and> (\<exists>fl. uview s d va = Some (fl, pmem t p)))"
proof -
  have va: "PDX va < NUPDE" using assms(3) by (simp add: NUPDE_def)
  note st = page_lookup_steps [OF assms(1,2) va assms(4)]
  have "uview t d' va' = uview s d' va'" if "d' \<in> D" "PDX va' < PDX UTOP" for d' va'
    using st same_userD(7) [of D s t d' va'] that by (simp add: NUPDE_def)
  then show ?thesis using st by (auto split: option.splits)
qed

theorem page_lookup_resident_witness:
  "\<exists>p pte t. page_lookup 0 UTEXT ex_vm = Some (Some p, pte, t) \<and> pmem t p = (\<lambda>_. 7)"
proof -
  have va: "PDX UTEXT < PDX UTOP" by code_simp
  have pm: "pmem ex_vm 0 1 = 0x1680" "pmem ex_vm 1 0 = 0x2780" "npage ex_vm = 3"
    by (simp_all add: ex_vm_def)
  note pm' = pm [unfolded One_nat_def]
  have "pgdir_walk 0 UTEXT False ex_vm = Some (0, Some (1, 0), ex_vm)"
    using pgdir_walk_table [of ex_vm 0 UTEXT False] by (simp add: pm' ex_vals uloc_def)
  then obtain p pte t where run: "page_lookup 0 UTEXT ex_vm = Some (Some p, pte, t)"
    by (simp add: page_lookup_def swap_in_if_needed_def pm' and_PTE_V ex_vals pa2page_def
        del: PTE_V_def)
  have "uview ex_vm 0 UTEXT = Some (0x700, \<lambda>_. 7)"
    by (simp add: uview_def uloc_def lview_def pload_def ex_vm_def ex_vals Let_def)
  then show ?thesis using page_lookup_resident [OF ex_wf _ va run] run by auto
qed

text \<open>
  A block of the swap disk handed out for an evicted page is not in use, becomes used, and all
  other blocks keep their state; the allocation fails only when all 2048 blocks are in use; and a
  block given back is free again and is the next one handed out.
\<close>

theorem sd_blocks:
  shows "(\<forall>b t. sd_block_alloc s = Some (b, t) \<longrightarrow>
      b < SD_NBLK \<and> \<not> bm_bit (sd_bitmap s) b \<and>
      (\<forall>j. bm_bit (sd_bitmap t) j = (j = b \<or> bm_bit (sd_bitmap s) j)) \<and>
      (\<exists>u. sd_block_alloc (sd_block_free b t) = Some (b, u))) \<and>
   (sd_block_alloc s = None \<longleftrightarrow> (\<forall>j < SD_NBLK. bm_bit (sd_bitmap s) j))"
proof (intro conjI allI impI)
  fix b t assume a: "sd_block_alloc s = Some (b, t)"
  show "b < SD_NBLK" "\<not> bm_bit (sd_bitmap s) b"
    "\<And>j. bm_bit (sd_bitmap t) j = (j = b \<or> bm_bit (sd_bitmap s) j)"
    using sd.alloc_Some [OF TrueI a] by blast+
  show "\<exists>u. sd_block_alloc (sd_block_free b t) = Some (b, u)" by (rule sd.alloc_free_alloc(2) [OF TrueI a])
qed (use sd.alloc_None [OF TrueI, of s] in blast)

theorem sd_blocks_witness: "\<exists>b t. sd_block_alloc ex_vm = Some (b, t) \<and> bm_bit (sd_bitmap t) b"
proof -
  have "\<not> bm_bit (sd_bitmap ex_vm) 0" by (simp add: ex_vm_def bm_bit_def)
  then have "sd_block_alloc ex_vm \<noteq> None" using sd_blocks [of ex_vm] by (metis SD_NBLK_def zero_less_numeral)
  then show ?thesis using sd_blocks [of ex_vm] by (metis not_None_eq surj_pair)
qed

end
