(* ===== verification/CString.thy ===== *)
theory CString
  imports Prelude
begin

text \<open>
  \<^verbatim>\<open>lib/string.c\<close>: copying and filling memory a machine word at a time, and the string
  functions. The functions run on a state \<open>'s\<close> through the four accesses of a \<open>mem_ops\<close>, so
  that the same definitions serve plain memory (\<open>byte_ops\<close>, an array of bytes) and memory
  behind the MMU or a device, where a load may change the state or stop. A loop that may run
  off the end of the address space is a \<^theory_text>\<open>partial_function\<close>; the theorems give the ranges
  for which it returns.
\<close>

record 's mem_ops =
  ld8 :: "u32 \<Rightarrow> 's \<Rightarrow> (u8 \<times> 's) option"
  st8 :: "u32 \<Rightarrow> u8 \<Rightarrow> 's \<Rightarrow> 's option"
  ld32 :: "u32 \<Rightarrow> 's \<Rightarrow> (u32 \<times> 's) option"
  st32 :: "u32 \<Rightarrow> u32 \<Rightarrow> 's \<Rightarrow> 's option"

section \<open>memcpy\<close>

text \<open>\<^verbatim>\<open>while (dst < max) *(char * )dst++ = *(char * )src++;\<close>\<close>

partial_function (option) copy_loop8 ::
  "'s mem_ops \<Rightarrow> u32 \<Rightarrow> u32 \<Rightarrow> u32 \<Rightarrow> 's \<Rightarrow> (u32 \<times> u32 \<times> 's) option" where
  "copy_loop8 ops dst src lim s =
     (if dst < lim then do {
        (b, s) \<leftarrow> ld8 ops src s;
        s \<leftarrow> st8 ops dst b s;
        copy_loop8 ops (dst + 1) (src + 1) lim s }
      else Some (dst, src, s))"

text \<open>The loop that runs until \<^verbatim>\<open>dst\<close> is word-aligned.\<close>

partial_function (option) copy_align ::
  "'s mem_ops \<Rightarrow> u32 \<Rightarrow> u32 \<Rightarrow> u32 \<Rightarrow> 's \<Rightarrow> (u32 \<times> u32 \<times> 's) option" where
  "copy_align ops dst src lim s =
     (if dst AND 3 \<noteq> 0 \<and> dst < lim then do {
        (b, s) \<leftarrow> ld8 ops src s;
        s \<leftarrow> st8 ops dst b s;
        copy_align ops (dst + 1) (src + 1) lim s }
      else Some (dst, src, s))"

partial_function (option) copy_loop32 ::
  "'s mem_ops \<Rightarrow> u32 \<Rightarrow> u32 \<Rightarrow> u32 \<Rightarrow> 's \<Rightarrow> (u32 \<times> u32 \<times> 's) option" where
  "copy_loop32 ops dst src lim s =
     (if dst + 4 \<le> lim then do {
        (w, s) \<leftarrow> ld32 ops src s;
        s \<leftarrow> st32 ops dst w s;
        copy_loop32 ops (dst + 4) (src + 4) lim s }
      else Some (dst, src, s))"

definition memcpy :: "'s mem_ops \<Rightarrow> u32 \<Rightarrow> u32 \<Rightarrow> u32 \<Rightarrow> 's \<Rightarrow> (u32 \<times> 's) option" where
  "memcpy ops dst src n s =
     (let dstaddr = dst; lim = dst + n in
      if src AND 3 \<noteq> dst AND 3 then do {
        (_, _, s) \<leftarrow> copy_loop8 ops dst src lim s;
        Some (dstaddr, s) }
      else do {
        (dst, src, s) \<leftarrow> copy_align ops dst src lim s;
        (dst, src, s) \<leftarrow> copy_loop32 ops dst src lim s;
        (_, _, s) \<leftarrow> copy_loop8 ops dst src lim s;
        Some (dstaddr, s) })"

section \<open>memset\<close>

partial_function (option) fill_align ::
  "'s mem_ops \<Rightarrow> u32 \<Rightarrow> u8 \<Rightarrow> u32 \<Rightarrow> 's \<Rightarrow> (u32 \<times> 's) option" where
  "fill_align ops dst b lim s =
     (if dst AND 3 \<noteq> 0 \<and> dst < lim then do {
        s \<leftarrow> st8 ops dst b s;
        fill_align ops (dst + 1) b lim s }
      else Some (dst, s))"

partial_function (option) fill_loop32 ::
  "'s mem_ops \<Rightarrow> u32 \<Rightarrow> u32 \<Rightarrow> u32 \<Rightarrow> 's \<Rightarrow> (u32 \<times> 's) option" where
  "fill_loop32 ops dst w lim s =
     (if dst + 4 \<le> lim then do {
        s \<leftarrow> st32 ops dst w s;
        fill_loop32 ops (dst + 4) w lim s }
      else Some (dst, s))"

partial_function (option) fill_loop8 ::
  "'s mem_ops \<Rightarrow> u32 \<Rightarrow> u8 \<Rightarrow> u32 \<Rightarrow> 's \<Rightarrow> (u32 \<times> 's) option" where
  "fill_loop8 ops dst b lim s =
     (if dst < lim then do {
        s \<leftarrow> st8 ops dst b s;
        fill_loop8 ops (dst + 1) b lim s }
      else Some (dst, s))"

definition memset :: "'s mem_ops \<Rightarrow> u32 \<Rightarrow> u32 \<Rightarrow> u32 \<Rightarrow> 's \<Rightarrow> (u32 \<times> 's) option" where
  "memset ops dst c n s = do {
     let dstaddr = dst;
     let lim = dst + n;
     let byte = (ucast (c AND 0xff) :: u8);
     let word = (ucast byte OR push_bit 8 (ucast byte) OR push_bit 16 (ucast byte) OR
                 push_bit 24 (ucast byte) :: u32);
     (dst, s) \<leftarrow> fill_align ops dst byte lim s;
     (dst, s) \<leftarrow> fill_loop32 ops dst word lim s;
     (_, s) \<leftarrow> fill_loop8 ops dst byte lim s;
     Some (dstaddr, s) }"

section \<open>Strings\<close>

partial_function (option) strlen_from ::
  "'s mem_ops \<Rightarrow> u32 \<Rightarrow> u32 \<Rightarrow> 's \<Rightarrow> (u32 \<times> 's) option" where
  "strlen_from ops p n s = do {
     (c, s) \<leftarrow> ld8 ops p s;
     if c \<noteq> 0 then strlen_from ops (p + 1) (n + 1) s else Some (n, s) }"

definition strlen :: "'s mem_ops \<Rightarrow> u32 \<Rightarrow> 's \<Rightarrow> (u32 \<times> 's) option" where
  "strlen ops p s = strlen_from ops p 0 s"

partial_function (option) strcpy_loop ::
  "'s mem_ops \<Rightarrow> u32 \<Rightarrow> u32 \<Rightarrow> 's \<Rightarrow> 's option" where
  "strcpy_loop ops dst src s = do {
     (c, s) \<leftarrow> ld8 ops src s;
     s \<leftarrow> st8 ops dst c s;
     if c \<noteq> 0 then strcpy_loop ops (dst + 1) (src + 1) s else Some s }"

definition strcpy :: "'s mem_ops \<Rightarrow> u32 \<Rightarrow> u32 \<Rightarrow> 's \<Rightarrow> (u32 \<times> 's) option" where
  "strcpy ops dst src s = do { s \<leftarrow> strcpy_loop ops dst src s; Some (dst, s) }"

text \<open>\<^verbatim>\<open>char\<close> is signed: the byte is compared with the \<^verbatim>\<open>int\<close> argument after sign extension.\<close>

partial_function (option) strchr ::
  "'s mem_ops \<Rightarrow> u32 \<Rightarrow> u32 \<Rightarrow> 's \<Rightarrow> (u32 \<times> 's) option" where
  "strchr ops p c s = do {
     (x, s) \<leftarrow> ld8 ops p s;
     if x \<noteq> 0 then (if scast x = c then Some (p, s) else strchr ops (p + 1) c s)
     else Some (0, s) }"

partial_function (option) strcmp ::
  "'s mem_ops \<Rightarrow> u32 \<Rightarrow> u32 \<Rightarrow> 's \<Rightarrow> (int \<times> 's) option" where
  "strcmp ops p q s = do {
     (a, s) \<leftarrow> ld8 ops p s;
     (b, s) \<leftarrow> ld8 ops q s;
     if a \<noteq> 0 \<and> a = b then strcmp ops (p + 1) (q + 1) s
     else
       let x = (scast a :: u32); y = (scast b :: u32) in
       if x < y then Some (-1, s) else if y < x then Some (1, s) else Some (0, s) }"

section \<open>Plain memory\<close>

definition rd32 :: "(u32 \<Rightarrow> u8) \<Rightarrow> u32 \<Rightarrow> u32" where
  "rd32 m a =
     ucast (m a) OR push_bit 8 (ucast (m (a + 1))) OR push_bit 16 (ucast (m (a + 2))) OR
     push_bit 24 (ucast (m (a + 3)))"

definition wr32 :: "u32 \<Rightarrow> u32 \<Rightarrow> (u32 \<Rightarrow> u8) \<Rightarrow> u32 \<Rightarrow> u8" where
  "wr32 a w m =
     m(a := ucast w, a + 1 := ucast (drop_bit 8 w), a + 2 := ucast (drop_bit 16 w),
       a + 3 := ucast (drop_bit 24 w))"

definition byte_ops :: "(u32 \<Rightarrow> u8) mem_ops" where
  "byte_ops =
     \<lparr>ld8 = (\<lambda>a m. Some (m a, m)), st8 = (\<lambda>a b m. Some (m(a := b))),
      ld32 = (\<lambda>a m. Some (rd32 m a, m)), st32 = (\<lambda>a w m. Some (wr32 a w m))\<rparr>"

lemma byte_ops_simps [simp]:
  "ld8 byte_ops a m = Some (m a, m)" "st8 byte_ops a b m = Some (m(a := b))"
  "ld32 byte_ops a m = Some (rd32 m a, m)" "st32 byte_ops a w m = Some (wr32 a w m)"
  by (simp_all add: byte_ops_def)

lemma rd32_bytes:
  "(ucast (rd32 m a) :: u8) = m a"
  "(ucast (drop_bit 8 (rd32 m a)) :: u8) = m (a + 1)"
  "(ucast (drop_bit 16 (rd32 m a)) :: u8) = m (a + 2)"
  "(ucast (drop_bit 24 (rd32 m a)) :: u8) = m (a + 3)"
  by (rule bit_word_eqI; auto simp: rd32_def bit_simps dest: bit_imp_le_length)+

lemma wr32_rd32: "wr32 a (rd32 m b) m' = m'(a := m b, a + 1 := m (b + 1), a + 2 := m (b + 2), a + 3 := m (b + 3))"
  by (simp add: wr32_def rd32_bytes)

lemma rd32_wr32 [simp]: "rd32 (wr32 a w m) a = w"
proof -
  have "a + 1 \<noteq> a + 2" "a + 1 \<noteq> a + 3" "a + 2 \<noteq> a + 3" "a \<noteq> a + 1" "a \<noteq> a + 2" "a \<noteq> a + 3"
    by simp_all
  then have "rd32 (wr32 a w m) a = ucast (ucast w :: u8) OR push_bit 8 (ucast (ucast (drop_bit 8 w) :: u8)) OR
     push_bit 16 (ucast (ucast (drop_bit 16 w) :: u8)) OR push_bit 24 (ucast (ucast (drop_bit 24 w) :: u8))"
    by (simp add: rd32_def wr32_def)
  also have "\<dots> = w"
  proof (rule bit_word_eqI)
    fix n :: nat assume "n < LENGTH(32)"
    then consider "n < 8" | "8 \<le> n" "n < 16" | "16 \<le> n" "n < 24" | "24 \<le> n" "n < 32"
      by fastforce
    then show "bit (ucast (ucast w :: u8) OR push_bit 8 (ucast (ucast (drop_bit 8 w) :: u8)) OR
     push_bit 16 (ucast (ucast (drop_bit 16 w) :: u8)) OR push_bit 24 (ucast (ucast (drop_bit 24 w) :: u8)) :: u32) n
      = bit w n"
      by cases (auto simp: bit_simps)
  qed
  finally show ?thesis .
qed

lemma rd32_cong: "(\<And>k. k < 4 \<Longrightarrow> m (a + k) = m' (a + k)) \<Longrightarrow> rd32 m a = rd32 m' a"
proof -
  assume e: "\<And>k. k < 4 \<Longrightarrow> m (a + k) = m' (a + k)"
  show ?thesis using e [of 0] e [of 1] e [of 2] e [of 3] by (simp add: rd32_def)
qed

text \<open>A word store leaves the words that do not overlap it as they are.\<close>

lemma wr32_other: "4 \<le> b - a \<Longrightarrow> wr32 a w m b = m b"
proof -
  assume "4 \<le> b - a"
  then have "b \<noteq> a + k" if "k < 4" for k using that by auto
  from this [of 0] this [of 1] this [of 2] this [of 3] show ?thesis by (simp add: wr32_def)
qed

lemma rd32_wr32_other:
  assumes "4 \<le> b - a" "4 \<le> a - b"
  shows "rd32 (wr32 a w m) b = rd32 m b"
proof (rule rd32_cong)
  fix k :: u32 assume k: "k < 4"
  define x where "x = b + k - a"
  have e: "b - a = x - k" "a - b = k - x" by (simp_all add: x_def)
  have "4 \<le> x"
  proof (rule ccontr)
    assume "\<not> 4 \<le> x"
    show False
    proof (cases "k \<le> x")
      case True
      then have "x - k \<le> x" by (simp add: word_le_nat_alt unat_sub)
      then show False using \<open>\<not> 4 \<le> x\<close> assms(1) e(1) by simp
    next
      case False
      then have "k - x \<le> k" by (simp add: word_le_nat_alt unat_sub)
      then show False using k assms(2) e(2) by simp
    qed
  qed
  then show "wr32 a w m (b + k) = m (b + k)" by (simp add: wr32_other x_def)
qed

section \<open>What memcpy and memset leave in memory\<close>

text \<open>The first \<open>k\<close> bytes from \<open>src\<close> copied to \<open>dst\<close>.\<close>

definition mcopy :: "(u32 \<Rightarrow> u8) \<Rightarrow> u32 \<Rightarrow> u32 \<Rightarrow> nat \<Rightarrow> u32 \<Rightarrow> u8" where
  "mcopy m dst src k = (\<lambda>a. if unat (a - dst) < k then m (src + (a - dst)) else m a)"

definition mfill :: "(u32 \<Rightarrow> u8) \<Rightarrow> u32 \<Rightarrow> u8 \<Rightarrow> nat \<Rightarrow> u32 \<Rightarrow> u8" where
  "mfill m dst b k = (\<lambda>a. if unat (a - dst) < k then b else m a)"

definition ranges_disjoint :: "u32 \<Rightarrow> u32 \<Rightarrow> nat \<Rightarrow> bool" where
  "ranges_disjoint dst src n \<longleftrightarrow>
     (\<forall>i<n. \<forall>j<n. dst + word_of_nat i \<noteq> src + word_of_nat j)"

lemma unat_of_nat32: "k < 2 ^ 32 \<Longrightarrow> unat (word_of_nat k :: u32) = k"
  by (simp add: unat_of_nat)

lemma add_eq_iff_unat:
  fixes a d :: u32
  assumes "k < 2 ^ 32"
  shows "a = d + word_of_nat k \<longleftrightarrow> unat (a - d) = k"
proof -
  have "a = d + word_of_nat k \<longleftrightarrow> a - d = word_of_nat k" by (auto simp: algebra_simps)
  also have "\<dots> \<longleftrightarrow> unat (a - d) = k"
    using unat_of_nat32 [OF assms] by auto
  finally show ?thesis .
qed

lemma mcopy_0 [simp]: "mcopy m dst src 0 = m" and mfill_0 [simp]: "mfill m dst b 0 = m"
  by (auto simp: mcopy_def mfill_def)

lemma mcopy_upd:
  assumes "k < 2 ^ 32"
  shows "(mcopy m dst src k)(dst + word_of_nat k := m (src + word_of_nat k)) =
    mcopy m dst src (Suc k)"
proof
  fix a
  have "unat (a - dst) = k \<Longrightarrow> a - dst = word_of_nat k" by auto
  then show "((mcopy m dst src k)(dst + word_of_nat k := m (src + word_of_nat k))) a =
      mcopy m dst src (Suc k) a"
    using add_eq_iff_unat [OF assms, of a dst] by (auto simp: mcopy_def less_Suc_eq)
qed

lemma mfill_upd:
  assumes "k < 2 ^ 32"
  shows "(mfill m dst b k)(dst + word_of_nat k := b) = mfill m dst b (Suc k)"
  using add_eq_iff_unat [OF assms, of _ dst] by (auto simp: mfill_def less_Suc_eq)

lemma mcopy_src:
  assumes "ranges_disjoint dst src n" "k \<le> n" "j < n" "n < 2 ^ 32"
  shows "mcopy m dst src k (src + word_of_nat j) = m (src + word_of_nat j)"
proof -
  have "\<not> unat (src + word_of_nat j - dst) < k"
  proof
    assume *: "unat (src + word_of_nat j - dst) < k"
    let ?i = "unat (src + word_of_nat j - dst)"
    have "dst + word_of_nat ?i = src + word_of_nat j" by simp
    moreover have "?i < n" using * assms(2) by linarith
    ultimately show False using assms(1,3) by (metis ranges_disjoint_def)
  qed
  then show ?thesis by (simp add: mcopy_def)
qed

lemma no_wrap_less:
  fixes d :: u32
  assumes "unat d + n < 2 ^ 32" "k \<le> n"
  shows "d + word_of_nat k < d + word_of_nat n \<longleftrightarrow> k < n"
proof -
  have "unat (d + word_of_nat j) = unat d + j" if "j \<le> n" for j
    using that assms(1) by (simp add: unat_word_ariths unat_of_nat)
  then show ?thesis using assms(2) by (simp add: word_less_nat_alt)
qed

lemma no_wrap_le4:
  fixes d :: u32
  assumes "unat d + n + 4 < 2 ^ 32" "k \<le> n"
  shows "d + word_of_nat k + 4 \<le> d + word_of_nat n \<longleftrightarrow> k + 4 \<le> n"
proof -
  have *: "unat (d + word_of_nat j) = unat d + j" if "j \<le> n + 4" for j
    using that assms(1) by (simp add: unat_word_ariths unat_of_nat)
  have "d + word_of_nat k + 4 = d + word_of_nat (k + 4)" by simp
  then show ?thesis using assms(2) * [of "k + 4"] * [of n] by (simp only: word_le_nat_alt) simp
qed

lemma copy_loop8_mcopy:
  assumes "unat dst + n < 2 ^ 32" "ranges_disjoint dst src n" "k \<le> n"
  shows "copy_loop8 byte_ops (dst + word_of_nat k) (src + word_of_nat k) (dst + word_of_nat n)
           (mcopy m dst src k) =
         Some (dst + word_of_nat n, src + word_of_nat n, mcopy m dst src n)"
  using assms(3)
proof (induction "n - k" arbitrary: k)
  case 0
  then have "k = n" by simp
  then show ?case by (subst copy_loop8.simps) simp
next
  case (Suc j)
  then have k: "k < n" "k < 2 ^ 32" using assms(1) by auto
  have "copy_loop8 byte_ops (dst + word_of_nat (Suc k)) (src + word_of_nat (Suc k))
      (dst + word_of_nat n) (mcopy m dst src (Suc k)) =
      Some (dst + word_of_nat n, src + word_of_nat n, mcopy m dst src n)"
    using Suc k by (intro Suc.hyps(1)) auto
  moreover have "dst + word_of_nat k < dst + word_of_nat n"
    using no_wrap_less [OF assms(1), of k] k by simp
  moreover have "mcopy m dst src k (src + word_of_nat k) = m (src + word_of_nat k)"
    using assms k by (intro mcopy_src [OF assms(2)]) auto
  ultimately show ?case
    using mcopy_upd [OF k(2), of m dst src]
    by (subst copy_loop8.simps) (simp add: add.assoc add.commute [of 1])
qed

lemma copy_align_mcopy:
  assumes "unat dst + n < 2 ^ 32" "ranges_disjoint dst src n" "k \<le> n"
  shows "\<exists>k'. k' \<le> n \<and>
    copy_align byte_ops (dst + word_of_nat k) (src + word_of_nat k) (dst + word_of_nat n)
      (mcopy m dst src k) =
    Some (dst + word_of_nat k', src + word_of_nat k', mcopy m dst src k')"
  using assms(3)
proof (induction "n - k" arbitrary: k)
  case 0
  then have "k = n" by simp
  then show ?case by (subst copy_align.simps) auto
next
  case (Suc j)
  then have k: "k < n" "k < 2 ^ 32" using assms(1) by auto
  have eq: "mcopy m dst src k (src + word_of_nat k) = m (src + word_of_nat k)"
    using assms k by (intro mcopy_src [OF assms(2)]) auto
  show ?case
  proof (cases "(dst + word_of_nat k) AND 3 = 0")
    case True
    then show ?thesis using k by (intro exI [of _ k], subst copy_align.simps) simp
  next
    case False
    obtain k' where "k' \<le> n" "copy_align byte_ops (dst + word_of_nat (Suc k))
      (src + word_of_nat (Suc k)) (dst + word_of_nat n) (mcopy m dst src (Suc k)) =
      Some (dst + word_of_nat k', src + word_of_nat k', mcopy m dst src k')"
    proof -
      have "j = n - Suc k" "Suc k \<le> n" using Suc.hyps(2) k by auto
      from Suc.hyps(1) [OF this] that show ?thesis by blast
    qed
    moreover have "dst + word_of_nat k < dst + word_of_nat n"
      using no_wrap_less [OF assms(1), of k] k by simp
    ultimately show ?thesis
      using mcopy_upd [OF k(2), of m dst src] False eq
      by (subst copy_align.simps) (auto simp: add.assoc add.commute [of 1])
  qed
qed

lemma mcopy_wr32:
  assumes "n < 2 ^ 32" "ranges_disjoint dst src n" "k + 4 \<le> n"
  shows "wr32 (dst + word_of_nat k) (rd32 (mcopy m dst src k) (src + word_of_nat k))
           (mcopy m dst src k) = mcopy m dst src (k + 4)"
proof -
  let ?M = "mcopy m dst src"
  have r: "?M k (src + word_of_nat j) = m (src + word_of_nat j)" if "j < n" for j
    using assms that by (intro mcopy_src [OF assms(2)]) auto
  have u: "(?M j)(dst + word_of_nat j := m (src + word_of_nat j)) = ?M (Suc j)" if "j < n" for j
    using assms(1) that by (intro mcopy_upd) simp
  have e: "x + word_of_nat k + 1 = x + word_of_nat (Suc k)"
    "x + word_of_nat k + 2 = x + word_of_nat (Suc (Suc k))"
    "x + word_of_nat k + 3 = x + word_of_nat (Suc (Suc (Suc k)))" for x :: u32
    by (simp_all add: ac_simps)
  have "wr32 (dst + word_of_nat k) (rd32 (?M k) (src + word_of_nat k)) (?M k) =
      ?M (Suc (Suc (Suc (Suc k))))"
    unfolding wr32_rd32 e using assms(3) by (simp del: of_nat_Suc add: r u)
  then show ?thesis by (simp add: eval_nat_numeral)
qed

lemma copy_loop32_mcopy:
  assumes "unat dst + n + 4 < 2 ^ 32" "ranges_disjoint dst src n" "k \<le> n"
  shows "\<exists>k'. k' \<le> n \<and>
    copy_loop32 byte_ops (dst + word_of_nat k) (src + word_of_nat k) (dst + word_of_nat n)
      (mcopy m dst src k) =
    Some (dst + word_of_nat k', src + word_of_nat k', mcopy m dst src k')"
  using assms(3)
proof (induction "n - k" arbitrary: k rule: less_induct)
  case less
  show ?case
  proof (cases "k + 4 \<le> n")
    case False
    then show ?thesis
      using no_wrap_le4 [OF assms(1) less.prems] less.prems
      by (intro exI [of _ k], subst copy_loop32.simps) simp
  next
    case True
    then have "n - (k + 4) < n - k" by simp
    from less.hyps [OF this True] obtain k' where "k' \<le> n" and
      "copy_loop32 byte_ops (dst + word_of_nat (k + 4)) (src + word_of_nat (k + 4))
         (dst + word_of_nat n) (mcopy m dst src (k + 4)) =
       Some (dst + word_of_nat k', src + word_of_nat k', mcopy m dst src k')"
      by blast
    moreover have "x + word_of_nat (k + 4) = x + word_of_nat k + 4" for x :: u32 by simp
    moreover have "n < 2 ^ 32" using assms(1) by simp
    ultimately show ?thesis
      using no_wrap_le4 [OF assms(1) less.prems] True mcopy_wr32 [OF _ assms(2) True, of m]
      by (intro exI [of _ k'], subst copy_loop32.simps) (simp add: add.assoc)
  qed
qed

lemma memcpy_eq:
  assumes "unat dst + unat n + 4 < 2 ^ 32" "ranges_disjoint dst src (unat n)"
  shows "memcpy byte_ops dst src n m = Some (dst, mcopy m dst src (unat n))"
proof -
  have le: "unat dst + unat n < 2 ^ 32" using assms(1) by simp
  have n: "dst + n = dst + word_of_nat (unat n)" by simp
  show ?thesis
  proof (cases "src AND 3 = dst AND 3")
    case False
    then show ?thesis
      using copy_loop8_mcopy [OF le assms(2), of 0 m] by (simp add: memcpy_def)
  next
    case True
    obtain k1 where k1: "k1 \<le> unat n" "copy_align byte_ops dst src (dst + n) m =
        Some (dst + word_of_nat k1, src + word_of_nat k1, mcopy m dst src k1)"
      using copy_align_mcopy [OF le assms(2), of 0 m] by auto
    obtain k2 where k2: "k2 \<le> unat n"
      "copy_loop32 byte_ops (dst + word_of_nat k1) (src + word_of_nat k1) (dst + n)
         (mcopy m dst src k1) =
       Some (dst + word_of_nat k2, src + word_of_nat k2, mcopy m dst src k2)"
      using copy_loop32_mcopy [OF assms k1(1), of m] by auto
    show ?thesis
      using True k1(2) k2(2) copy_loop8_mcopy [OF le assms(2) k2(1), of m]
      by (simp add: memcpy_def)
  qed
qed

text \<open>
  C36. \<^verbatim>\<open>memcpy\<close>, with its byte head, word body and byte tail, copies exactly the \<open>n\<close> bytes between ranges that
  do not overlap, whatever their alignment, and returns the destination; it writes nothing else.
\<close>

theorem memcpy_mcopy:
  assumes "unat dst + unat n + 4 < 2 ^ 32" "ranges_disjoint dst src (unat n)"
  shows "memcpy byte_ops dst src n m = Some (dst, mcopy m dst src (unat n))"
  by (rule memcpy_eq [OF assms])

section \<open>memset\<close>

definition splat :: "u8 \<Rightarrow> u32" where
  "splat b = ucast b OR push_bit 8 (ucast b) OR push_bit 16 (ucast b) OR push_bit 24 (ucast b)"

lemma splat_bytes:
  "(ucast (splat b) :: u8) = b" "(ucast (drop_bit 8 (splat b)) :: u8) = b"
  "(ucast (drop_bit 16 (splat b)) :: u8) = b" "(ucast (drop_bit 24 (splat b)) :: u8) = b"
  by (rule bit_word_eqI; auto simp: splat_def bit_simps dest: bit_imp_le_length)+

lemma mfill_wr32:
  assumes "k + 4 < 2 ^ 32"
  shows "wr32 (dst + word_of_nat k) (splat b) (mfill m dst b k) = mfill m dst b (k + 4)"
proof -
  have e: "x + word_of_nat k + 1 = x + word_of_nat (Suc k)"
    "x + word_of_nat k + 2 = x + word_of_nat (Suc (Suc k))"
    "x + word_of_nat k + 3 = x + word_of_nat (Suc (Suc (Suc k)))" for x :: u32
    by (simp_all add: ac_simps)
  have u: "(mfill m dst b j)(dst + word_of_nat j := b) = mfill m dst b (Suc j)" if "j < k + 4" for j
    using that assms by (intro mfill_upd) simp
  have "wr32 (dst + word_of_nat k) (splat b) (mfill m dst b k) =
      mfill m dst b (Suc (Suc (Suc (Suc k))))"
    unfolding wr32_def splat_bytes e by (simp del: of_nat_Suc add: u)
  then show ?thesis by (simp add: eval_nat_numeral)
qed

lemma fill_loop8_mfill:
  assumes "unat dst + n < 2 ^ 32" "k \<le> n"
  shows "fill_loop8 byte_ops (dst + word_of_nat k) b (dst + word_of_nat n) (mfill m dst b k) =
         Some (dst + word_of_nat n, mfill m dst b n)"
  using assms(2)
proof (induction "n - k" arbitrary: k)
  case 0
  then have "k = n" by simp
  then show ?case by (subst fill_loop8.simps) simp
next
  case (Suc j)
  then have k: "k < n" "k < 2 ^ 32" "j = n - Suc k" "Suc k \<le> n" using assms(1) by auto
  have "dst + word_of_nat k < dst + word_of_nat n"
    using no_wrap_less [OF assms(1), of k] k by simp
  then show ?case
    using mfill_upd [OF k(2), of m dst b] Suc.hyps(1) [OF k(3,4)]
    by (subst fill_loop8.simps) (simp add: add.assoc add.commute [of 1])
qed

lemma fill_align_mfill:
  assumes "unat dst + n < 2 ^ 32" "k \<le> n"
  shows "\<exists>k' \<le> n. fill_align byte_ops (dst + word_of_nat k) b (dst + word_of_nat n)
      (mfill m dst b k) = Some (dst + word_of_nat k', mfill m dst b k')"
  using assms(2)
proof (induction "n - k" arbitrary: k)
  case 0
  then have "k = n" by simp
  then show ?case by (subst fill_align.simps) auto
next
  case (Suc j)
  then have k: "k < n" "k < 2 ^ 32" "j = n - Suc k" "Suc k \<le> n" using assms(1) by auto
  have lt: "dst + word_of_nat k < dst + word_of_nat n"
    using no_wrap_less [OF assms(1), of k] k by simp
  show ?case
  proof (cases "(dst + word_of_nat k) AND 3 = 0")
    case True
    then show ?thesis using k by (intro exI [of _ k], subst fill_align.simps) simp
  next
    case False
    then show ?thesis
      using mfill_upd [OF k(2), of m dst b] Suc.hyps(1) [OF k(3,4)] lt
      by (subst fill_align.simps) (auto simp: add.assoc add.commute [of 1])
  qed
qed

lemma fill_loop32_mfill:
  assumes "unat dst + n + 4 < 2 ^ 32" "k \<le> n"
  shows "\<exists>k' \<le> n. fill_loop32 byte_ops (dst + word_of_nat k) (splat b) (dst + word_of_nat n)
      (mfill m dst b k) = Some (dst + word_of_nat k', mfill m dst b k')"
  using assms(2)
proof (induction "n - k" arbitrary: k rule: less_induct)
  case less
  note le4 = no_wrap_le4 [OF assms(1) less.prems]
  show ?case
  proof (cases "k + 4 \<le> n")
    case False
    then show ?thesis
      using le4 less.prems by (intro exI [of _ k], subst fill_loop32.simps) simp
  next
    case True
    then have lt: "n - (k + 4) < n - k" and b: "k + 4 < 2 ^ 32" using assms(1) by auto
    from less.hyps [OF lt True] obtain k' where "k' \<le> n" and
      "fill_loop32 byte_ops (dst + word_of_nat (k + 4)) (splat b) (dst + word_of_nat n)
         (mfill m dst b (k + 4)) = Some (dst + word_of_nat k', mfill m dst b k')"
      by blast
    moreover have "dst + word_of_nat (k + 4) = dst + word_of_nat k + 4" by simp
    ultimately show ?thesis
      using le4 True mfill_wr32 [OF b, of dst b m]
      by (intro exI [of _ k'], subst fill_loop32.simps) (simp add: add.assoc)
  qed
qed

lemma memset_eq:
  assumes "unat dst + unat n + 4 < 2 ^ 32"
  shows "memset byte_ops dst c n m = Some (dst, mfill m dst (ucast c) (unat n))"
proof -
  have le: "unat dst + unat n < 2 ^ 32" using assms(1) by simp
  have "(0xff :: u32) = mask 8" by (simp add: mask_eq_exp_minus_1)
  then have c: "(ucast (c AND 0xff) :: u8) = ucast c"
    by (intro bit_word_eqI) (simp only: bit_simps, auto)
  obtain k1 where k1: "k1 \<le> unat n" "fill_align byte_ops dst (ucast c) (dst + n) m =
      Some (dst + word_of_nat k1, mfill m dst (ucast c) k1)"
    using fill_align_mfill [OF le, of 0 "ucast c" m] by auto
  obtain k2 where k2: "k2 \<le> unat n"
    "fill_loop32 byte_ops (dst + word_of_nat k1) (splat (ucast c)) (dst + n)
       (mfill m dst (ucast c) k1) = Some (dst + word_of_nat k2, mfill m dst (ucast c) k2)"
    using fill_loop32_mfill [OF assms k1(1), of "ucast c" m] by auto
  show ?thesis
    using k1(2) k2(2) fill_loop8_mfill [OF le k2(1), of "ucast c" m]
    by (simp add: memset_def c Let_def flip: splat_def)
qed

text \<open>
  \<^verbatim>\<open>memset\<close> sets exactly the \<open>n\<close> bytes from the destination to the low byte of its argument.
\<close>

theorem memset_mfill:
  assumes "unat dst + unat n + 4 < 2 ^ 32"
  shows "memset byte_ops dst c n m = Some (dst, mfill m dst (ucast c) (unat n))"
  by (rule memset_eq [OF assms])

section \<open>The string functions on plain memory\<close>

text \<open>\<open>cstr m p bs\<close>: the bytes \<open>bs\<close>, none of them zero, stand at \<open>p\<close>, followed by a zero.\<close>

fun cstr :: "(u32 \<Rightarrow> u8) \<Rightarrow> u32 \<Rightarrow> u8 list \<Rightarrow> bool" where
  "cstr m p [] \<longleftrightarrow> m p = 0"
| "cstr m p (b # bs) \<longleftrightarrow> b \<noteq> 0 \<and> m p = b \<and> cstr m (p + 1) bs"

lemma strlen_from_cstr:
  "cstr m p bs \<Longrightarrow> strlen_from byte_ops p n m = Some (n + word_of_nat (length bs), m)"
proof (induction bs arbitrary: p n)
  case Nil
  then show ?case by (subst strlen_from.simps) simp
next
  case (Cons b bs)
  then show ?case by (subst strlen_from.simps) (simp add: add.assoc)
qed

theorem strlen_cstr: "cstr m p bs \<Longrightarrow> strlen byte_ops p m = Some (word_of_nat (length bs), m)"
  by (simp add: strlen_def strlen_from_cstr)

text \<open>The order of the signed comparison through \<^verbatim>\<open>u_int\<close> is that of the unsigned bytes.\<close>

fun lex_cmp :: "u8 list \<Rightarrow> u8 list \<Rightarrow> int" where
  "lex_cmp [] [] = 0"
| "lex_cmp [] (_ # _) = -1"
| "lex_cmp (_ # _) [] = 1"
| "lex_cmp (a # as) (b # bs) =
     (if a < b then -1 else if b < a then 1 else lex_cmp as bs)"

lemma lex_cmp_eq_0: "lex_cmp as bs = 0 \<longleftrightarrow> as = bs"
  by (induction as bs rule: lex_cmp.induct) auto

lemma scast_u8_uint:
  fixes a :: u8
  shows "uint (scast a :: u32) = (if uint a < 128 then uint a else uint a + 4294967040)"
proof -
  define x where "x = uint a"
  have b: "0 \<le> x" "x < 256" using unsigned_less [of a] by (simp_all add: x_def)
  have "sint a = signed_take_bit 7 x"
    by (subst sint_uint) (simp add: x_def)
  also have "\<dots> = (x + 128) mod 256 - 128"
    by (subst signed_take_bit_eq_take_bit_shift) (simp add: take_bit_eq_mod)
  finally have s: "sint a = (x + 128) mod 256 - 128" .
  have u: "uint (scast a :: u32) = sint a mod 2 ^ LENGTH(32)"
    by (rule trans [OF arg_cong [where f = uint, OF scast_eq] uint_word_of_int])
  show ?thesis
  proof (cases "x < 128")
    case True
    then have "(x + 128) mod 256 = x + 128" using b by (intro mod_pos_pos_trivial) auto
    then have "sint a = x" unfolding s by simp
    moreover have "x mod 4294967296 = x" using b by (intro mod_pos_pos_trivial) auto
    ultimately have "uint (scast a :: u32) = x" unfolding u by simp
    then show ?thesis unfolding x_def [symmetric] using True by metis
  next
    case False
    then have "(x + 128) mod 256 = x - 128"
      using b by (intro int_mod_pos_eq [where q = 1]) auto
    then have "sint a = x - 256" unfolding s by simp
    moreover have "(x - 256) mod 4294967296 = x + 4294967040"
      using b False by (intro int_mod_pos_eq [where q = "-1"]) auto
    ultimately have "uint (scast a :: u32) = x + 4294967040" unfolding u by simp
    then show ?thesis unfolding x_def [symmetric] using False by metis
  qed
qed

lemma scast_u8_less: "(scast (a :: u8) :: u32) < scast b \<longleftrightarrow> a < b"
  using unsigned_less [of a] unsigned_less [of b]
  by (auto simp: word_less_def scast_u8_uint)

text \<open>
  \<^verbatim>\<open>strcmp\<close> returns -1, 0 or 1 as the first string is before, equal to or after the second in the
  lexicographic order of unsigned bytes.
\<close>

theorem strcmp_cstr:
  "cstr m p as \<Longrightarrow> cstr m q bs \<Longrightarrow> strcmp byte_ops p q m = Some (lex_cmp as bs, m)"
proof (induction as bs arbitrary: p q rule: lex_cmp.induct)
  case (2 b bs)
  then show ?case
    using scast_u8_less [of 0 b] by (subst strcmp.simps) (auto simp: Let_def word_gt_0)
next
  case (3 a as)
  then show ?case
    using scast_u8_less [of 0 a] scast_u8_less [of a 0]
    by (subst strcmp.simps) (auto simp: Let_def word_gt_0)
qed (subst strcmp.simps, auto simp: Let_def scast_u8_less)+

lemma ex_disjoint: "ranges_disjoint 0x1003 0x2001 9"
  by (auto simp: ranges_disjoint_def word_unat_eq_iff unat_word_ariths unat_of_nat)

theorem memcpy_mcopy_witness:
  "memcpy byte_ops 0x1003 0x2001 9 (\<lambda>_. 5) = Some (0x1003, mcopy (\<lambda>_. 5) 0x1003 0x2001 9)"
  using memcpy_mcopy [where dst = "0x1003" and src = "0x2001" and n = 9 and m = "\<lambda>_. 5"] ex_disjoint
  by simp

theorem memset_mfill_witness:
  "memset byte_ops 0x1003 0x41 9 (\<lambda>_. 5) = Some (0x1003, mfill (\<lambda>_. 5) 0x1003 0x41 9)"
  using memset_mfill [where dst = "0x1003" and n = 9 and c = "0x41" and m = "\<lambda>_. 5"] by simp

theorem strcmp_cstr_witness:
  "strcmp byte_ops 16 32 (\<lambda>a. if a = 16 then 65 else if a = 32 then 200 else 0) =
    Some (- 1, \<lambda>a. if a = 16 then 65 else if a = 32 then 200 else 0)"
  using strcmp_cstr [of "\<lambda>a. if a = 16 then 65 else if a = 32 then 200 else 0" 16 "[65]" 32 "[200]"]
  by simp

end
