(* ===== verification/Print.thy ===== *)
theory Print
  imports Prelude
begin

text \<open>
  \<^verbatim>\<open>lib/print.c\<close>: formatted output. The sink \<^verbatim>\<open>out(data, buf, len)\<close> is an argument, a step on a
  state \<open>'s\<close> that receives the bytes of one call. A format string is the list of its bytes
  without the closing zero. \<^verbatim>\<open>long\<close> and \<^verbatim>\<open>int\<close> are both 32 bits wide here. The width is a
  \<^typ>\<open>nat\<close>: a width that overflows an \<^verbatim>\<open>int\<close> is outside the model.
\<close>

definition asc :: "string \<Rightarrow> u8 list" where
  "asc cs = map of_char cs"

abbreviation chr :: "char \<Rightarrow> u8" where
  "chr c \<equiv> of_char c"

section \<open>Numbers\<close>

text \<open>The digits, least significant first, as the do-while loop of \<^verbatim>\<open>print_num\<close> stores them.\<close>

definition digit_char :: "bool \<Rightarrow> nat \<Rightarrow> u8" where
  "digit_char upcase d =
     (if d \<le> 9 then chr CHR ''0'' + word_of_nat d
      else if upcase then chr CHR ''A'' + word_of_nat d - 10
      else chr CHR ''a'' + word_of_nat d - 10)"

partial_function (option) num_digits :: "nat \<Rightarrow> bool \<Rightarrow> nat \<Rightarrow> u8 list option" where
  "num_digits base upcase u = do {
     _ \<leftarrow> panic_on (base = 0);
     let d = digit_char upcase (u mod base);
     if u div base \<noteq> 0 then do {
       ds \<leftarrow> num_digits base upcase (u div base);
       Some (d # ds) }
     else Some [d] }"

text \<open>The loop that swaps the two ends of the buffer until they meet.\<close>

function rev_loop :: "nat \<Rightarrow> nat \<Rightarrow> u8 list \<Rightarrow> u8 list" where
  "rev_loop b e buf =
     (if e > b then rev_loop (b + 1) (e - 1) (buf[b := buf ! e, e := buf ! b]) else buf)"
  by pat_completeness auto
termination
  by (relation "measure (\<lambda>(b, e, buf). e - b)") auto

declare rev_loop.simps [simp del]

definition print_num ::
  "(u8 list \<Rightarrow> 's \<Rightarrow> 's) \<Rightarrow> u32 \<Rightarrow> nat \<Rightarrow> bool \<Rightarrow> nat \<Rightarrow> bool \<Rightarrow> u8 \<Rightarrow> bool \<Rightarrow> 's \<Rightarrow> 's option" where
  "print_num out u base neg_flag len ladjust padc upcase s = do {
     buf \<leftarrow> num_digits base upcase (unat u);
     let buf = (if neg_flag then buf @ [chr CHR ''-''] else buf);
     let actualLength = length buf;
     let len = (if len < actualLength then actualLength else len);
     let padc = (if ladjust then chr CHR '' '' else padc);
     let buf = (if neg_flag \<and> \<not> ladjust \<and> padc = chr CHR ''0''
                then take (actualLength - 1) buf @ replicate (len - actualLength) padc @
                     [chr CHR ''-'']
                else buf @ replicate (len - actualLength) padc);
     let buf = rev_loop 0 (if ladjust then actualLength - 1 else len - 1) buf;
     Some (out buf s) }"

section \<open>Characters and strings\<close>

definition print_char ::
  "(u8 list \<Rightarrow> 's \<Rightarrow> 's) \<Rightarrow> u8 \<Rightarrow> nat \<Rightarrow> bool \<Rightarrow> 's \<Rightarrow> 's" where
  "print_char out c len ladjust s =
     (let len = (if len < 1 then 1 else len);
          spaces = (\<lambda>s. (out [chr CHR '' ''] ^^ (len - 1)) s)
      in if ladjust then spaces (out [c] s) else out [c] (spaces s))"

definition print_str ::
  "(u8 list \<Rightarrow> 's \<Rightarrow> 's) \<Rightarrow> u8 list \<Rightarrow> nat \<Rightarrow> bool \<Rightarrow> 's \<Rightarrow> 's" where
  "print_str out str n ladjust s =
     (let len = length str;
          n = (if n < len then len else n);
          spaces = (\<lambda>s. (out [chr CHR '' ''] ^^ (n - len)) s)
      in if ladjust then spaces (out str s) else out str (spaces s))"

section \<open>The format\<close>

text \<open>The variable arguments: 32-bit integers, and strings, given by their bytes.\<close>

datatype arg = AInt u32 | AStr "u8 list"

definition is_digit :: "u8 \<Rightarrow> bool" where
  "is_digit c \<longleftrightarrow> chr CHR ''0'' \<le> c \<and> c \<le> chr CHR ''9''"

text \<open>The flags, the width and the long mark after a percent sign, and the rest.\<close>

definition eat :: "char \<Rightarrow> u8 list \<Rightarrow> bool \<times> u8 list" where
  "eat c fmt = (case fmt of x # f \<Rightarrow> if x = chr c then (True, f) else (False, fmt)
                           | [] \<Rightarrow> (False, []))"

fun width_of :: "nat \<Rightarrow> u8 list \<Rightarrow> nat \<times> u8 list" where
  "width_of w [] = (w, [])"
| "width_of w (c # f) =
     (if is_digit c then width_of (w * 10 + unat (c - chr CHR ''0'')) f else (w, c # f))"

definition parse_spec :: "u8 list \<Rightarrow> bool \<times> u8 \<times> nat \<times> u8 list" where
  "parse_spec fmt =
     (let (ladjust, fmt) = eat CHR ''-'' fmt;
          (zero, fmt) = eat CHR ''0'' fmt;
          (width, fmt) = width_of 0 fmt;
          (_, fmt) = eat CHR ''l'' fmt
      in (ladjust, if zero then chr CHR ''0'' else chr CHR '' '', width, fmt))"

text \<open>
  One conversion: the arguments left and the new state. A missing argument, or one of the
  wrong kind, is outside what C defines.
\<close>

definition int_arg :: "arg list \<Rightarrow> (u32 \<times> arg list) option" where
  "int_arg ap = (case ap of AInt v # ap \<Rightarrow> Some (v, ap) | _ \<Rightarrow> None)"

definition str_arg :: "arg list \<Rightarrow> (u8 list \<times> arg list) option" where
  "str_arg ap = (case ap of AStr v # ap \<Rightarrow> Some (v, ap) | _ \<Rightarrow> None)"

definition conversion ::
  "(u8 list \<Rightarrow> 's \<Rightarrow> 's) \<Rightarrow> u8 \<Rightarrow> bool \<Rightarrow> u8 \<Rightarrow> nat \<Rightarrow> arg list \<Rightarrow> 's \<Rightarrow> (arg list \<times> 's) option" where
  "conversion out c ladjust padc width ap s =
     (let number = (\<lambda>base upcase. do {
            (num, ap) \<leftarrow> int_arg ap;
            s \<leftarrow> print_num out num base False width ladjust padc upcase s;
            Some (ap, s) })
      in
      if c = chr CHR ''b'' then number 2 False
      else if c = chr CHR ''d'' \<or> c = chr CHR ''D'' then do {
        (num, ap) \<leftarrow> int_arg ap;
        let neg_flag = num <s 0;
        let num = (if num <s 0 then 0 - num else num);
        s \<leftarrow> print_num out num 10 neg_flag width ladjust padc False s;
        Some (ap, s) }
      else if c = chr CHR ''o'' \<or> c = chr CHR ''O'' then number 8 False
      else if c = chr CHR ''u'' \<or> c = chr CHR ''U'' then number 10 False
      else if c = chr CHR ''x'' then number 16 False
      else if c = chr CHR ''X'' then number 16 True
      else if c = chr CHR ''c'' then do {
        (num, ap) \<leftarrow> int_arg ap;
        Some (ap, print_char out (ucast num) width ladjust s) }
      else if c = chr CHR ''s'' then do {
        (str, ap) \<leftarrow> str_arg ap;
        Some (ap, print_str out str width ladjust s) }
      else Some (ap, out [c] s))"

lemma eat_length: "length (snd (eat c fmt)) \<le> length fmt"
  by (auto simp: eat_def split: list.splits)

lemma width_of_length: "length (snd (width_of w fmt)) \<le> length fmt"
  by (induction w fmt rule: width_of.induct) (auto simp: le_SucI)

lemma parse_spec_length: "parse_spec fmt = (l, p, w, f) \<Longrightarrow> length f \<le> length fmt"
  using eat_length [of "CHR ''-''" fmt] eat_length [of "CHR ''0''" "snd (eat CHR ''-'' fmt)"]
    width_of_length [of 0 "snd (eat CHR ''0'' (snd (eat CHR ''-'' fmt)))"]
    eat_length [of "CHR ''l''" "snd (width_of 0 (snd (eat CHR ''0'' (snd (eat CHR ''-'' fmt)))))"]
  by (auto simp: parse_spec_def Let_def split: prod.splits)

function (sequential) vprintfmt ::
  "(u8 list \<Rightarrow> 's \<Rightarrow> 's) \<Rightarrow> u8 list \<Rightarrow> arg list \<Rightarrow> 's \<Rightarrow> 's option" where
  "vprintfmt out fmt ap s =
     (let s = out (takeWhile (\<lambda>c. c \<noteq> chr CHR ''%'') fmt) s in
      case dropWhile (\<lambda>c. c \<noteq> chr CHR ''%'') fmt of
        [] \<Rightarrow> Some s
      | _ # fmt \<Rightarrow>
          if fmt = [] then Some s
          else
            case parse_spec fmt of
              (ladjust, padc, width, []) \<Rightarrow> vprintfmt out [] ap s
            | (ladjust, padc, width, c # rest) \<Rightarrow>
                (case conversion out c ladjust padc width ap s of
                   None \<Rightarrow> None
                 | Some (ap, s) \<Rightarrow> vprintfmt out rest ap s))"
  by pat_completeness auto
termination
proof (relation "measure (\<lambda>(out, fmt, ap, s). length fmt)", goal_cases)
  case 1
  show ?case by simp
next
  case (2 out fmt ap s)
  then show ?case using length_dropWhile_le [of "\<lambda>c. c \<noteq> chr CHR ''%''" fmt] by auto
next
  case (3 out fmt ap s)
  then show ?case
    using length_dropWhile_le [of "\<lambda>c. c \<noteq> chr CHR ''%''" fmt]
    by (auto dest!: parse_spec_length [OF sym])
qed

declare vprintfmt.simps [simp del]

text \<open>
  Printing treats the state of the output function as opaque: output functions that keep two states
  related leave related states. What one output function keeps, printing keeps, is the special case of
  equal states.
\<close>

lemma rel_option_bind:
  "rel_option A x y \<Longrightarrow> (\<And>a b. A a b \<Longrightarrow> rel_option B (f a) (g b)) \<Longrightarrow> rel_option B (x \<bind> f) (y \<bind> g)"
  by (cases x; cases y) simp_all

lemma rel_option_case:
  "rel_option (rel_prod (=) R) x y \<Longrightarrow> (\<And>a s t. R s t \<Longrightarrow> rel_option Q (f a s) (g a t)) \<Longrightarrow>
     rel_option Q (case x of None \<Rightarrow> None | Some (a, s) \<Rightarrow> f a s) (case y of None \<Rightarrow> None | Some (a, t) \<Rightarrow> g a t)"
  by (cases x; cases y) auto

lemma funpow_rel: "(\<And>s t. R s t \<Longrightarrow> R (f s) (g t)) \<Longrightarrow> R s t \<Longrightarrow> R ((f ^^ n) s) ((g ^^ n) t)"
  by (induction n) auto

lemma print_num_rel:
  assumes "\<And>bs s t. R s t \<Longrightarrow> R (out bs s) (out' bs t)" "R s t"
  shows "rel_option R (print_num out n base neg len l p up s) (print_num out' n base neg len l p up t)"
  unfolding print_num_def Let_def
  by (rule rel_option_bind [of "(=)"]) (use assms in \<open>auto simp: option.rel_refl\<close>)

lemma print_char_str_rel:
  assumes "\<And>bs s t. R s t \<Longrightarrow> R (out bs s) (out' bs t)" "R s t"
  shows "R (print_char out c n l s) (print_char out' c n l t)" "R (print_str out str n l s) (print_str out' str n l t)"
  using assms by (simp_all add: print_char_def print_str_def Let_def funpow_rel)

lemma conversion_rel:
  assumes "\<And>bs s t. R s t \<Longrightarrow> R (out bs s) (out' bs t)" "R s t"
  shows "rel_option (rel_prod (=) R) (conversion out c l p w ap s) (conversion out' c l p w ap t)"
proof -
  have N: "rel_option (rel_prod (=) R)
      (do { (num, ap) \<leftarrow> int_arg ap; s \<leftarrow> print_num out (f num) base (g num) w l p up s; Some (ap, s) })
      (do { (num, ap) \<leftarrow> int_arg ap; s \<leftarrow> print_num out' (f num) base (g num) w l p up t; Some (ap, s) })" for f g base up
    by (cases "int_arg ap") (auto intro!: rel_option_bind [OF print_num_rel [of R, OF assms]])
  show ?thesis
    unfolding conversion_def Let_def
    using N [of "\<lambda>n. n" _ "\<lambda>_. False"] N [of "\<lambda>n. if n <s 0 then 0 - n else n" 10 "\<lambda>n. n <s 0" False] assms
    by (cases "int_arg ap"; cases "str_arg ap") (auto simp: print_char_str_rel [of R] split: prod.splits)
qed

lemma vprintfmt_rel:
  assumes "\<And>bs s t. R s t \<Longrightarrow> R (out bs s) (out' bs t)"
  shows "R s t \<Longrightarrow> rel_option R (vprintfmt out fmt ap s) (vprintfmt out' fmt ap t)"
proof (induction "length fmt" arbitrary: fmt ap s t rule: less_induct)
  case less
  let ?text = "takeWhile (\<lambda>c. c \<noteq> chr CHR ''%'') fmt"
  have first: "R (out ?text s) (out' ?text t)" using less.prems assms by blast
  show ?case
  proof (cases "dropWhile (\<lambda>c. c \<noteq> chr CHR ''%'') fmt")
    case Nil
    then show ?thesis using first by (subst (1 2) vprintfmt.simps) (simp add: Let_def del: dropWhile_eq_Nil_conv)
  next
    case (Cons x fs)
    obtain l p w f where ps: "parse_spec fs = (l, p, w, f)" by (metis prod_cases4)
    have "length (x # fs) \<le> length fmt" using Cons by (metis length_dropWhile_le)
    then have shorter: "length f < length fmt" using parse_spec_length [OF ps] by simp
    show ?thesis
    proof (cases f)
      case Nil
      then have "rel_option R (vprintfmt out [] ap (out ?text s)) (vprintfmt out' [] ap (out' ?text t))"
        using less.hyps [of "[]"] shorter first by simp
      then show ?thesis using Cons ps Nil first by (subst (1 2) vprintfmt.simps) (simp add: Let_def del: dropWhile_eq_Nil_conv)
    next
      case (Cons c rest)
      have "rel_option (rel_prod (=) R) (conversion out c l p w ap (out ?text s)) (conversion out' c l p w ap (out' ?text t))"
        using assms first by (rule conversion_rel)
      then have "rel_option R
          (case conversion out c l p w ap (out ?text s) of None \<Rightarrow> None | Some (ap, s) \<Rightarrow> vprintfmt out rest ap s)
          (case conversion out' c l p w ap (out' ?text t) of None \<Rightarrow> None | Some (ap, s) \<Rightarrow> vprintfmt out' rest ap s)"
      proof (rule rel_option_case)
        show "rel_option R (vprintfmt out rest a u) (vprintfmt out' rest a v)" if "R u v" for a u v
          using less.hyps [OF _ that, of rest] shorter Cons by simp
      qed
      then show ?thesis
        using \<open>dropWhile _ fmt = x # fs\<close> ps Cons first
        by (subst (1 2) vprintfmt.simps) (simp add: Let_def del: dropWhile_eq_Nil_conv)
    qed
  qed
qed

lemma vprintfmt_keeps:
  assumes "\<And>bs s. I s \<Longrightarrow> I (out bs s)" "vprintfmt out fmt ap s = Some t" "I s"
  shows "I t"
  using vprintfmt_rel [of "\<lambda>s t. s = t \<and> I s" out out s s fmt ap] assms by simp

section \<open>What is printed\<close>

text \<open>Reading a number back: the value of a digit, and of the digits from the most significant.\<close>

definition digit_val :: "u8 \<Rightarrow> nat option" where
  "digit_val c =
     (if chr CHR ''0'' \<le> c \<and> c \<le> chr CHR ''9'' then Some (unat (c - chr CHR ''0''))
      else if chr CHR ''A'' \<le> c \<and> c \<le> chr CHR ''F'' then Some (unat (c - chr CHR ''A'') + 10)
      else if chr CHR ''a'' \<le> c \<and> c \<le> chr CHR ''f'' then Some (unat (c - chr CHR ''a'') + 10)
      else None)"

fun read_digits :: "nat \<Rightarrow> nat \<Rightarrow> u8 list \<Rightarrow> nat option" where
  "read_digits base n [] = Some n"
| "read_digits base n (c # cs) = do { d \<leftarrow> digit_val c; read_digits base (n * base + d) cs }"

lemma digit_table:
  "list_all (\<lambda>d. \<forall>u \<in> {True, False}. digit_val (digit_char u d) = Some d \<and>
     digit_char u d \<noteq> chr CHR ''-'' \<and> digit_char u d \<noteq> chr CHR '' '') [0..<16]"
  by code_simp

lemma digit_facts:
  "d < 16 \<Longrightarrow> digit_val (digit_char upcase d) = Some d \<and>
     digit_char upcase d \<noteq> chr CHR ''-'' \<and> digit_char upcase d \<noteq> chr CHR '' ''"
  using digit_table by (cases upcase) (simp_all only: list_all_iff set_upt, auto)

lemmas digit_val_char = digit_facts [THEN conjunct1]

lemma read_digits_append:
  "read_digits base n (xs @ ys) = do { m \<leftarrow> read_digits base n xs; read_digits base m ys }"
  by (induction xs arbitrary: n) (auto split: bind_splits)

lemma num_digits_read:
  assumes "2 \<le> base" "base \<le> 16"
  shows "\<exists>ds. num_digits base upcase u = Some ds \<and> ds \<noteq> [] \<and>
    read_digits base 0 (rev ds) = Some u \<and>
    (u \<noteq> 0 \<longrightarrow> digit_val (last ds) \<noteq> Some 0) \<and> (u = 0 \<longrightarrow> length ds = 1)"
proof (induction u rule: less_induct)
  case (less u)
  have d: "u mod base < 16" using assms mod_less_divisor [of base u] by linarith
  show ?case
  proof (cases "u div base = 0")
    case True
    then have "u mod base = u" using assms by (simp add: div_eq_0_iff)
    then show ?thesis
      using True assms d digit_val_char [OF d, of upcase]
      by (subst num_digits.simps) auto
  next
    case False
    then have u: "0 < u" by (cases u) auto
    then have "u div base < u" using assms by (intro div_less_dividend) auto
    from less.IH [OF this] obtain ds where ds:
      "num_digits base upcase (u div base) = Some ds" "ds \<noteq> []"
      "read_digits base 0 (rev ds) = Some (u div base)" "digit_val (last ds) \<noteq> Some 0"
      using False by auto
    then show ?thesis
      using False assms u digit_val_char [OF d, of upcase]
      by (subst num_digits.simps)
        (auto simp: read_digits_append div_mult_mod_eq mult.commute)
  qed
qed

text \<open>The swapping loop reverses the part of the buffer between its two ends.\<close>

lemma rev_loop_rev:
  "ys \<noteq> [] \<Longrightarrow>
   rev_loop (length xs) (length xs + length ys - 1) (xs @ ys @ zs) = xs @ rev ys @ zs"
proof (induction "length ys" arbitrary: xs ys zs rule: less_induct)
  case less
  show ?case
  proof (cases "length ys = 1")
    case True
    then show ?thesis by (subst rev_loop.simps) (auto simp: length_Suc_conv)
  next
    case False
    then obtain a mid c where ys: "ys = a # mid @ [c]"
      using less.prems by (metis append_butlast_last_id length_Cons list.exhaust list.size(3)
          One_nat_def)
    let ?e = "length xs + length ys - 1" and ?buf = "xs @ ys @ zs"
    have "?buf ! length xs = a" "?buf ! ?e = c"
      by (simp_all add: ys nth_append)
    then have swap: "?buf[length xs := ?buf ! ?e, ?e := ?buf ! length xs] =
        xs @ c # mid @ a # zs"
      by (simp add: ys list_update_append nth_append split: nat.split)
    have step: "rev_loop (length xs) ?e ?buf =
        rev_loop (length xs + 1) (?e - 1) (xs @ c # mid @ a # zs)"
      using swap by (subst rev_loop.simps) (simp add: ys)
    show ?thesis
    proof (cases "mid = []")
      case True
      then show ?thesis by (subst step, subst rev_loop.simps) (simp add: ys)
    next
      case False
      then show ?thesis
        using less.hyps [of mid "xs @ [c]" "a # zs"] by (subst step) (simp add: ys)
    qed
  qed
qed

lemma rev_loop_prefix:
  assumes "n \<noteq> 0" "n \<le> length buf"
  shows "rev_loop 0 (n - 1) buf = rev (take n buf) @ drop n buf"
  using rev_loop_rev [of "take n buf" "[]" "drop n buf"] assms by (cases "buf = []") (simp_all add: min.absorb2)

text \<open>
  The text of a number: its digits from the most significant, with the sign, padded to the
  width: spaces after it when left-adjusted, else zeros between the sign and the digits or
  spaces before the sign.
\<close>

definition number_text :: "u8 list \<Rightarrow> bool \<Rightarrow> nat \<Rightarrow> bool \<Rightarrow> u8 \<Rightarrow> u8 list" where
  "number_text ds neg len ladjust padc =
     (let sign = (if neg then [chr CHR ''-''] else []);
          fill = len - length (sign @ ds)
      in if ladjust then sign @ ds @ replicate fill (chr CHR '' '')
         else if neg \<and> padc = chr CHR ''0'' then sign @ replicate fill padc @ ds
         else replicate fill padc @ sign @ ds)"

text \<open>
  \<^verbatim>\<open>print_num\<close> prints a number in base 2 to 16 as its digits, without leading zeros: reading them
  back in that base gives the number. Sign and padding are as \<^term>\<open>number_text\<close> says.
\<close>

theorem print_num_text:
  assumes "2 \<le> base" "base \<le> 16"
  shows "\<exists>ds. ds \<noteq> [] \<and> read_digits base 0 ds = Some (unat u) \<and>
    (u \<noteq> 0 \<longrightarrow> digit_val (hd ds) \<noteq> Some 0) \<and>
    print_num out u base neg len ladjust padc upcase s =
      Some (out (number_text ds neg len ladjust padc) s)"
proof -
  obtain bs where bs: "num_digits base upcase (unat u) = Some bs" "bs \<noteq> []"
    "read_digits base 0 (rev bs) = Some (unat u)" "unat u \<noteq> 0 \<longrightarrow> digit_val (last bs) \<noteq> Some 0"
    using num_digits_read [OF assms, of upcase "unat u"] by auto
  let ?buf = "if neg then bs @ [chr CHR ''-''] else bs"
  let ?n = "length ?buf"
  let ?len = "if len < ?n then ?n else len"
  let ?padc = "if ladjust then chr CHR '' '' else padc"
  let ?pad = "if neg \<and> \<not> ladjust \<and> ?padc = chr CHR ''0''
    then take (?n - 1) ?buf @ replicate (?len - ?n) ?padc @ [chr CHR ''-'']
    else ?buf @ replicate (?len - ?n) ?padc"
  have len: "?len - ?n = len - ?n" and pos: "?n \<noteq> 0" "?len \<noteq> 0" using bs(2) by (cases bs; auto)+
  have lp: "length ?pad = ?len" by auto
  have "rev_loop 0 (if ladjust then ?n - 1 else ?len - 1) ?pad =
      number_text (rev bs) neg len ladjust padc"
  proof (cases ladjust)
    case True
    then show ?thesis
      using rev_loop_prefix [of ?n ?pad] pos lp
      by (auto simp: number_text_def Let_def len)
  next
    case False
    then show ?thesis
      using rev_loop_prefix [of ?len ?pad] pos lp
      by (auto simp: number_text_def Let_def len)
  qed
  then have "print_num out u base neg len ladjust padc upcase s =
      Some (out (number_text (rev bs) neg len ladjust padc) s)"
    by (simp add: print_num_def bs(1) Let_def)
  then show ?thesis
    using bs by (intro exI [of _ "rev bs"]) (auto simp: hd_rev unat_eq_zero)
qed

theorem print_num_text_witness:
  "\<exists>ds. read_digits 16 0 ds = Some 255 \<and>
     print_num (@) 255 16 False 4 False 48 False [] = Some (number_text ds False 4 False 48 @ [])"
  using print_num_text [of 16 255 "(@)" False 4 False 48 False "[]"] by auto

end
