(* ===== verification/Kstate.thy ===== *)
theory Kstate
  imports Pmap CString Print
begin

text \<open>
  The state of the whole kernel: the memory manager's \<open>kmem\<close>, the environments (\<^verbatim>\<open>include/env.h\<close>),
  the globals of \<^verbatim>\<open>kern/env.c\<close>, \<^verbatim>\<open>kern/sched.c\<close> and the registers of the serial port, and on it the
  console functions of \<^verbatim>\<open>kern/machine.c\<close> and \<^verbatim>\<open>kern/printk.c\<close>. \<^verbatim>\<open>struct Env *\<close> is the index of the
  environment in \<^verbatim>\<open>envs\<close>. The scheduling queue is kept pointer by pointer (theory \<open>Queue\<close>),
  because the code removes environments from it that may not be in it.
\<close>

section \<open>State\<close>

definition LOG2NENV :: nat where [simp]: "LOG2NENV = 10"
definition NENV :: nat where [simp]: "NENV = 1024"
definition ENVX :: "u32 \<Rightarrow> nat" where "ENVX envid = unat (envid AND (word_of_nat NENV - 1))"

definition ENV_FREE :: u32 where [simp]: "ENV_FREE = 0"
definition ENV_RUNNABLE :: u32 where [simp]: "ENV_RUNNABLE = 1"
definition ENV_NOT_RUNNABLE :: u32 where [simp]: "ENV_NOT_RUNNABLE = 2"

definition STATUS_IM7 :: u32 where [simp]: "STATUS_IM7 = 0x8000"
definition STATUS_UM :: u32 where [simp]: "STATUS_UM = 0x0010"
definition STATUS_EXL :: u32 where [simp]: "STATUS_EXL = 0x0002"
definition STATUS_IE :: u32 where [simp]: "STATUS_IE = 0x0001"

record trapframe =
  tf_regs :: "nat \<Rightarrow> u32"
  cp0_status :: u32
  tf_hi :: u32
  tf_lo :: u32
  cp0_badvaddr :: u32
  cp0_cause :: u32
  cp0_epc :: u32

definition sizeof_Trapframe :: u32 where [simp]: "sizeof_Trapframe = 152"

record env =
  env_id :: u32
  env_parent_id :: u32
  env_asid :: u32
  env_pri :: u32
  env_status :: u32
  env_tf :: trapframe
  env_pgdir :: nat
  env_ipc_recving :: u32
  env_ipc_value :: u32
  env_ipc_dstva :: u32
  env_ipc_perm :: u32
  env_ipc_from :: u32
  env_user_tlb_mod_entry :: u32
  env_runs :: u32

text \<open>
  \<open>kstack_tf\<close> is the trap frame just below \<^verbatim>\<open>KSTACKTOP\<close>; \<open>resumed\<close> is what the last
  \<^verbatim>\<open>env_pop_tf\<close> handed to the processor; \<open>console\<close> is what has been sent to the serial port and
  \<open>serial_in\<close> what its next reads give, 0 for "nothing there".
\<close>

record kstate =
  km :: kmem
  envs :: "nat \<Rightarrow> env"
  curenv :: "nat option"
  env_free_list :: "nat list"
  env_sched_list :: "unit tailqs"
  base_pgdir :: nat
  asid_bitmap :: "nat \<Rightarrow> u32"
  mkenvid_i :: u32
  sched_count :: u32
  kstack_tf :: trapframe
  resumed :: "(trapframe \<times> u32) option"
  console :: "u8 list"
  serial_in :: "u8 list"

definition upd_env :: "nat \<Rightarrow> (env \<Rightarrow> env) \<Rightarrow> kstate \<Rightarrow> kstate" where
  "upd_env e f s = s\<lparr>envs := (envs s)(e := f (envs s e))\<rparr>"

text \<open>Running a step of the memory manager inside the kernel state.\<close>

definition with_km :: "(kmem \<Rightarrow> kmem option) \<Rightarrow> kstate \<Rightarrow> kstate option" where
  "with_km f s = do { m \<leftarrow> f (km s); Some (s\<lparr>km := m\<rparr>) }"

definition with_km' :: "(kmem \<Rightarrow> ('a \<times> kmem) option) \<Rightarrow> kstate \<Rightarrow> ('a \<times> kstate) option" where
  "with_km' f s = do { (r, m) \<leftarrow> f (km s); Some (r, s\<lparr>km := m\<rparr>) }"

definition kpage_alloc :: "kstate \<Rightarrow> (int \<times> nat \<times> kstate) option" where
  "kpage_alloc s = do { (r, p, m) \<leftarrow> page_alloc (km s); Some (r, p, s\<lparr>km := m\<rparr>) }"

definition incref :: "nat \<Rightarrow> kstate \<Rightarrow> kstate" where
  "incref p s = s\<lparr>km := (km s)\<lparr>pp_ref := (pp_ref (km s))(p := pp_ref (km s) p + 1)\<rparr>\<rparr>"

section \<open>The console\<close>

text \<open>
  \<^verbatim>\<open>printcharc\<close> waits for the transmitter, which the hardware empties in finite time, and sends
  the byte; a newline is preceded by a carriage return.
\<close>

definition printcharc :: "u8 \<Rightarrow> kstate \<Rightarrow> kstate" where
  "printcharc ch s =
     (let s = (if ch = chr CHR ''\<newline>'' then s\<lparr>console := console s @ [13]\<rparr> else s)
      in s\<lparr>console := console s @ [ch]\<rparr>)"

definition scancharc :: "kstate \<Rightarrow> u8 \<times> kstate" where
  "scancharc s =
     (case serial_in s of
        [] \<Rightarrow> (0, s)
      | c # cs \<Rightarrow> (c, s\<lparr>serial_in := cs\<rparr>))"

definition outputk :: "u8 list \<Rightarrow> kstate \<Rightarrow> kstate" where
  "outputk buf s = fold printcharc buf s"

definition printk :: "string \<Rightarrow> arg list \<Rightarrow> kstate \<Rightarrow> kstate option" where
  "printk fmt ap s = vprintfmt outputk (asc fmt) ap s"

text \<open>\<^verbatim>\<open>print_tf\<close>: the registers of a trap frame.\<close>

definition print_tf :: "trapframe \<Rightarrow> kstate \<Rightarrow> kstate option" where
  "print_tf tf s = do {
     s \<leftarrow> foldM (\<lambda>i. printk ''$%2d = %08x\<newline>'' [AInt (word_of_nat i), AInt (tf_regs tf i)])
            [0..<32] s;
     s \<leftarrow> printk ''HI  = %08x\<newline>'' [AInt (tf_hi tf)] s;
     s \<leftarrow> printk ''LO  = %08x\<newline>\<newline>'' [AInt (tf_lo tf)] s;
     s \<leftarrow> printk ''CP0.SR    = %08x\<newline>'' [AInt (cp0_status tf)] s;
     s \<leftarrow> printk ''CP0.BadV  = %08x\<newline>'' [AInt (cp0_badvaddr tf)] s;
     s \<leftarrow> printk ''CP0.Cause = %08x\<newline>'' [AInt (cp0_cause tf)] s;
     printk ''CP0.EPC   = %08x\<newline>'' [AInt (cp0_epc tf)] s }"

lemma outputk_frame [frame]:
  "km (outputk bs s) = km s" "envs (outputk bs s) = envs s" "curenv (outputk bs s) = curenv s"
  "env_free_list (outputk bs s) = env_free_list s"
  "env_sched_list (outputk bs s) = env_sched_list s"
  "asid_bitmap (outputk bs s) = asid_bitmap s" "kstack_tf (outputk bs s) = kstack_tf s"
  by (induction bs arbitrary: s) (simp_all add: outputk_def printcharc_def Let_def)

section \<open>A small machine\<close>

text \<open>
  Four pages, of which 3 is free, and two runnable environments in the scheduling queue; the first
  runs, with page 0 as its (empty) directory. The examples of the theories above this one use it.
\<close>

definition ex_mem :: kmem where
  "ex_mem = \<lparr>memsize = 0x4000, npage = 4, freemem = 0, pages_kva = 0, cur_pgdir = 0,
     pmem = (\<lambda>_ _. 0), pp_ref = (\<lambda>p. if p < 3 then 1 else 0), accessed = (\<lambda>_. 0),
     page_free_list = [3], page_swap_queue = [], last_next = None, swap_tbl = (\<lambda>_. []),
     bno_tbl = (\<lambda>_. []), swapInfos = (\<lambda>_. \<lparr>si_pgdir = 0, si_asid = 0, si_va = 0\<rparr>),
     swapInfo_free_list = [0], sd_bitmap = (\<lambda>_. 0), sdisk = (\<lambda>_ _. 0), tlb = (\<lambda>_. None)\<rparr>"

definition ex_tf :: trapframe where
  "ex_tf = \<lparr>tf_regs = (\<lambda>_. 0), cp0_status = 0, tf_hi = 0, tf_lo = 0, cp0_badvaddr = 0,
     cp0_cause = 0, cp0_epc = 0x400000\<rparr>"

definition ex_env :: "nat \<Rightarrow> env" where
  "ex_env e = \<lparr>env_id = 0x800 * (word_of_nat e + 1) + word_of_nat e, env_parent_id = 0,
     env_asid = word_of_nat e, env_pri = 1,
     env_status = (if e < 2 then ENV_RUNNABLE else ENV_FREE), env_tf = ex_tf, env_pgdir = e,
     env_ipc_recving = 0, env_ipc_value = 0, env_ipc_dstva = 0, env_ipc_perm = 0, env_ipc_from = 0,
     env_user_tlb_mod_entry = 0, env_runs = 0\<rparr>"

definition no_queue :: "unit tailqs" where
  "no_queue = \<lparr>tq_links = \<lparr>lh_first = (\<lambda>_. None), le_next = (\<lambda>_. None), le_prev = (\<lambda>_. None)\<rparr>,
     tqh_last = HeadOf\<rparr>"

definition ex_queue :: "unit tailqs" where
  "ex_queue = TAILQ_INSERT_TAIL () 1 (TAILQ_INSERT_TAIL () 0 no_queue)"

lemma no_queue_rep: "tailq_rep no_queue (\<lambda>_. [])"
  by (simp add: tailq_rep_def list_rep_def no_queue_def lend_def)

lemma ex_queue_rep: "tailq_rep ex_queue (\<lambda>_. [0, 1])"
proof -
  have "tailq_rep (TAILQ_INSERT_TAIL () 0 no_queue) ((\<lambda>_. [])(() := [] @ [0]))"
    by (rule tailq_rep_insert_tail [OF no_queue_rep]) simp
  then have "tailq_rep ex_queue ((\<lambda>_. [0])(() := [0] @ [1]))"
    unfolding ex_queue_def by (intro tailq_rep_insert_tail) (auto simp: fun_upd_def)
  moreover have "(\<lambda>_. [0])(() := [0] @ [1]) = (\<lambda>_. [0, 1 :: nat])" by auto
  ultimately show ?thesis by simp
qed

definition ex_kernel :: kstate where
  "ex_kernel = \<lparr>km = ex_mem, envs = ex_env, curenv = Some 0, env_free_list = [2],
     env_sched_list = ex_queue, base_pgdir = 2, asid_bitmap = (\<lambda>i. if i = 0 then 3 else 0),
     mkenvid_i = 2, sched_count = 1, kstack_tf = ex_tf, resumed = None, console = [],
     serial_in = []\<rparr>"

text \<open>Memory that reads as 0 and ignores what is written.\<close>

definition ex_hw :: "kstate mem_ops" where
  "ex_hw = \<lparr>ld8 = (\<lambda>_ s. Some (0, s)), st8 = (\<lambda>_ _ s. Some s), ld32 = (\<lambda>_ s. Some (0, s)),
     st32 = (\<lambda>_ _ s. Some s)\<rparr>"

end
