(* ===== verification/Tlbex.thy ===== *)
theory Tlbex
  imports Kstate
begin

text \<open>
  \<^verbatim>\<open>kern/tlbex.c\<close>: refilling the TLB, which allocates pages on first use, and passing a write to
  a read-only page on to the user's handler. \<^verbatim>\<open>do_tlb_refill\<close> (\<^verbatim>\<open>kern/tlb_asm.S\<close>) writes the pair
  of entries under the faulting EntryHi.
\<close>

section \<open>Allocation on first use\<close>

definition passive_alloc :: "u32 \<Rightarrow> nat \<Rightarrow> u32 \<Rightarrow> kmem \<Rightarrow> kmem option" where
  "passive_alloc va pgdir asid s = do {
     _ \<leftarrow> panic_on (va < UTEMP);
     _ \<leftarrow> panic_on (va \<ge> USTACKTOP \<and> va < USTACKTOP + PAGE_SIZE);
     _ \<leftarrow> panic_on (va \<ge> UENVS \<and> va < UPAGES);
     _ \<leftarrow> panic_on (va \<ge> UPAGES \<and> va < UVPT);
     _ \<leftarrow> panic_on (va \<ge> ULIM);
     (r, p, s) \<leftarrow> page_alloc s;
     _ \<leftarrow> panic_on (r \<noteq> 0);
     let perm = (if va \<ge> UVPT \<and> va < ULIM then 0 else PTE_D);
     (r, s) \<leftarrow> page_insert pgdir asid p (PTE_ADDR va) perm s;
     _ \<leftarrow> panic_on (r \<noteq> 0);
     if va < USTACKTOP - PAGE_SIZE then swap_register p pgdir (PTE_ADDR va) asid s
     else Some s }"

section \<open>Refill\<close>

partial_function (option) refill_loop ::
  "u32 \<Rightarrow> u32 \<Rightarrow> kmem \<Rightarrow> ((nat \<times> nat) option \<times> kmem) option" where
  "refill_loop va asid s = do {
     (pp, ppte, s) \<leftarrow> page_lookup (cur_pgdir s) va s;
     (case pp of
        Some _ \<Rightarrow> Some (ppte, s)
      | None \<Rightarrow> do {
          s \<leftarrow> passive_alloc va (cur_pgdir s) asid s;
          refill_loop va asid s }) }"

text \<open>The two entries of the pair, shifted into the format of EntryLo.\<close>

definition do_tlb_refill_c :: "u32 \<Rightarrow> u32 \<Rightarrow> kmem \<Rightarrow> (u32 \<times> u32 \<times> kmem) option" where
  "do_tlb_refill_c va asid s = do {
     let s = tlb_invalidate asid va s;
     (ppte, s) \<leftarrow> refill_loop va asid s;
     (pt, x) \<leftarrow> ppte;
     let x = 2 * (x div 2);
     Some (drop_bit 6 (pmem s pt x), drop_bit 6 (pmem s pt (x + 1)), s) }"

definition do_tlb_refill :: "u32 \<Rightarrow> u32 \<Rightarrow> kmem \<Rightarrow> kmem option" where
  "do_tlb_refill badvaddr entryhi s = do {
     (lo0, lo1, s) \<leftarrow> do_tlb_refill_c badvaddr (entryhi AND 0xff) s;
     Some (s\<lparr>tlb := (tlb s)(entryhi \<mapsto> (lo0, lo1))\<rparr>) }"

section \<open>Trap frames in memory\<close>

definition tf_words :: "trapframe \<Rightarrow> u32 list" where
  "tf_words tf =
     map (tf_regs tf) [0..<32] @
     [cp0_status tf, tf_hi tf, tf_lo tf, cp0_badvaddr tf, cp0_cause tf, cp0_epc tf]"

definition tf_of_words :: "u32 list \<Rightarrow> trapframe" where
  "tf_of_words ws =
     \<lparr>tf_regs = (\<lambda>i. if i < 32 then ws ! i else 0), cp0_status = ws ! 32, tf_hi = ws ! 33,
      tf_lo = ws ! 34, cp0_badvaddr = ws ! 35, cp0_cause = ws ! 36, cp0_epc = ws ! 37\<rparr>"

fun store_words :: "'s mem_ops \<Rightarrow> u32 \<Rightarrow> u32 list \<Rightarrow> 's \<Rightarrow> 's option" where
  "store_words hw a [] s = Some s"
| "store_words hw a (w # ws) s = do { s \<leftarrow> st32 hw a w s; store_words hw (a + 4) ws s }"

fun load_words :: "'s mem_ops \<Rightarrow> u32 \<Rightarrow> nat \<Rightarrow> 's \<Rightarrow> (u32 list \<times> 's) option" where
  "load_words hw a 0 s = Some ([], s)"
| "load_words hw a (Suc n) s = do {
     (w, s) \<leftarrow> ld32 hw a s;
     (ws, s) \<leftarrow> load_words hw (a + 4) n s;
     Some (w # ws, s) }"

definition set_reg :: "nat \<Rightarrow> u32 \<Rightarrow> trapframe \<Rightarrow> trapframe" where
  "set_reg r v tf = tf\<lparr>tf_regs := (tf_regs tf)(r := v)\<rparr>"

section \<open>TLB Mod\<close>

text \<open>
  The trap frame is the one on the kernel stack. \<open>hw\<close> is how the processor reads and writes
  user memory from the kernel.
\<close>

definition do_tlb_mod :: "kstate mem_ops \<Rightarrow> kstate \<Rightarrow> kstate option" where
  "do_tlb_mod hw s = do {
     let tmp_tf = kstack_tf s;
     let tf = kstack_tf s;
     let tf = (if tf_regs tf 29 < USTACKTOP \<or> tf_regs tf 29 \<ge> UXSTACKTOP
               then set_reg 29 UXSTACKTOP tf else tf);
     let tf = set_reg 29 (tf_regs tf 29 - sizeof_Trapframe) tf;
     let s = s\<lparr>kstack_tf := tf\<rparr>;
     s \<leftarrow> store_words hw (tf_regs tf 29) (tf_words tmp_tf) s;
     (_, _, m) \<leftarrow> page_lookup (cur_pgdir (km s)) (cp0_badvaddr (kstack_tf s)) (km s);
     let s = s\<lparr>km := m\<rparr>;
     e \<leftarrow> curenv s;
     if env_user_tlb_mod_entry (envs s e) \<noteq> 0 then do {
       let tf = kstack_tf s;
       let tf = set_reg 4 (tf_regs tf 29) tf;
       let tf = set_reg 29 (tf_regs tf 29 - 4) tf;
       let tf = tf\<lparr>cp0_epc := env_user_tlb_mod_entry (envs s e)\<rparr>;
       Some (s\<lparr>kstack_tf := tf\<rparr>) }
     else None }"

end
