(* ===== verification/Refill.thy ===== *)
theory Refill
  imports Tlbex Transparency
begin

text \<open>
  The TLB and the pager together: what \<^verbatim>\<open>do_tlb_refill\<close> of \<^verbatim>\<open>kern/tlbex.c\<close> loads for an address that is
  mapped, in memory or on the swap disk; and the trap frames \<^verbatim>\<open>do_tlb_mod\<close> saves for user handlers.
\<close>

section \<open>Refill\<close>

lemma tlb_frame:
  "swap_wf D (s\<lparr>tlb := x\<rparr>) = swap_wf D s" "uview (s\<lparr>tlb := x\<rparr>) d va = uview s d va"
  "uloc (s\<lparr>tlb := x\<rparr>) d va = uloc s d va" "pload (s\<lparr>tlb := x\<rparr>) l = pload s l"
proof -
  have p: "pload (s\<lparr>tlb := x\<rparr>) = pload s" by (simp add: fun_eq_iff pload_def)
  have u: "uloc (s\<lparr>tlb := x\<rparr>) = uloc s" by (simp add: fun_eq_iff uloc_def)
  have l: "sloc (s\<lparr>tlb := x\<rparr>) = sloc s" by (simp add: fun_eq_iff sloc_def u)
  have t: "tables D (s\<lparr>tlb := x\<rparr>) = tables D s" by (simp add: tables_def)
  have ul: "ulocs D (s\<lparr>tlb := x\<rparr>) = ulocs D s" by (simp add: ulocs_def t)
  have i: "infos (s\<lparr>tlb := x\<rparr>) = infos s" by (simp add: infos_def)
  have ok: "info_ok D (s\<lparr>tlb := x\<rparr>) = info_ok D s" by (simp add: fun_eq_iff info_ok_def)
  show "swap_wf D (s\<lparr>tlb := x\<rparr>) = swap_wf D s"
    unfolding swap_wf_def p l t ul i ok by simp
  show "uview (s\<lparr>tlb := x\<rparr>) d va = uview s d va"
    by (simp add: uview_def lview_def u p Let_def)
qed (simp_all add: uloc_def pload_def)

lemma refill_loop_mapped:
  assumes "swap_wf D s" "cur_pgdir s \<in> D" "PDX va < NUPDE" "uview s (cur_pgdir s) va \<noteq> None"
    "refill_loop va asid s = Some (r, t)"
  obtains p where "page_lookup (cur_pgdir s) va s = Some (Some p, r, t)"
proof -
  obtain pp pte u where pl: "page_lookup (cur_pgdir s) va s = Some (pp, pte, u)"
    using assms(5) by (subst (asm) refill_loop.simps) (auto elim: bind_SomeE)
  have "pp \<noteq> None" using page_lookup_steps [OF assms(1-3) pl] assms(4) by (auto split: option.splits)
  then obtain p where "pp = Some p" by blast
  then show thesis using that pl assms(5) by (subst (asm) refill_loop.simps) simp
qed

text \<open>
  C20. A TLB miss on a mapped address: the pair of entries that is loaded has, for the half the
  address lies in, the valid entry of a frame that holds what the process sees there, even when
  the page was on the swap disk; the invariant and every other view are kept.
\<close>

theorem refill_shows_view:
  assumes "swap_wf D s" "cur_pgdir s \<in> D" "PDX va < PDX UTOP" "uview s (cur_pgdir s) va = Some (fl, contents)"
    "do_tlb_refill_c va asid s = Some (lo0, lo1, t)"
  shows "swap_wf D t \<and>
    (\<forall>d' \<in> D. \<forall>va'. PDX va' < PDX UTOP \<longrightarrow> uview t d' va' = uview s d' va') \<and>
    (\<exists>pte. valid_pte pte \<and> perms pte = fl \<and> PPN pte < npage t \<and> pmem t (PPN pte) = contents \<and>
       (if even (PTX va) then lo0 else lo1) = drop_bit 6 pte)"
proof -
  define u where "u = tlb_invalidate asid va s"
  have u: "swap_wf D u" "cur_pgdir u = cur_pgdir s" "\<And>d a. uview u d a = uview s d a"
    using assms(1) by (simp_all add: u_def tlb_invalidate_def tlb_out_def tlb_frame)
  obtain pt x where r: "refill_loop va asid u = Some (Some (pt, x), t)"
    "lo0 = drop_bit 6 (pmem t pt (2 * (x div 2)))" "lo1 = drop_bit 6 (pmem t pt (2 * (x div 2) + 1))"
    using assms(5) by (auto simp: do_tlb_refill_c_def Let_def elim!: bind_SomeE simp flip: u_def)
  have va: "PDX va < NUPDE" using assms(3) by (simp add: NUPDE_def)
  obtain p where pl: "page_lookup (cur_pgdir s) va u = Some (Some p, Some (pt, x), t)"
    using refill_loop_mapped [OF u(1) _ va _ r(1)] assms(2,4) u by auto
  note st = page_lookup_steps [OF u(1) assms(2) va pl]
  have l: "(pt, x) = uloc t (cur_pgdir s) va" using st by simp
  have x: "x = PTX va" using l by (simp add: uloc_def)
  have sel: "(if even (PTX va) then lo0 else lo1) = drop_bit 6 (pload t (pt, x))"
    using r(2,3) by (auto simp: x pload_def elim!: evenE oddE)
  have views: "uview t d' va' = uview s d' va'" if "d' \<in> D" "PDX va' < PDX UTOP" for d' va'
    using st same_userD(7) [of D u t d' va'] that u by (simp add: NUPDE_def)
  have "valid_pte (pload t (pt, x)) \<and> PPN (pload t (pt, x)) = p \<and> p < npage t \<and>
      uview u (cur_pgdir s) va = Some (perms (pload t (pt, x)), pmem t p)"
    using st l by simp
  then have "valid_pte (pload t (pt, x)) \<and> perms (pload t (pt, x)) = fl \<and> PPN (pload t (pt, x)) < npage t \<and>
      pmem t (PPN (pload t (pt, x))) = contents"
    using assms(4) u by auto
  then show ?thesis using st sel views by blast
qed

lemma ex_refill: "\<exists>lo0 lo1 t. do_tlb_refill_c UTEXT 0 ex_vm = Some (lo0, lo1, t)"
proof -
  define u where "u = tlb_invalidate 0 UTEXT ex_vm"
  have u: "pmem u 0 1 = 0x1680" "pmem u 1 0 = 0x2780" "npage u = 3" "cur_pgdir u = 0"
    by (simp_all add: u_def tlb_invalidate_def tlb_out_def ex_vm_def)
  note u' = u [unfolded One_nat_def]
  have "pgdir_walk 0 UTEXT False u = Some (0, Some (1, 0), u)"
    using pgdir_walk_table [of u 0 UTEXT False] by (simp add: u' ex_vals uloc_def)
  then obtain p t where "page_lookup 0 UTEXT u = Some (Some p, Some (1, 0), t)"
    by (simp add: page_lookup_def swap_in_if_needed_def u' and_PTE_V ex_vals pa2page_def del: PTE_V_def)
  then have "refill_loop UTEXT 0 u = Some (Some (1, 0), t)"
    by (subst refill_loop.simps) (simp add: u)
  then show ?thesis by (simp add: do_tlb_refill_c_def u_def Let_def)
qed

lemma refill_shows_view_witness:
  "\<exists>lo0 lo1 t pte. do_tlb_refill_c UTEXT 0 ex_vm = Some (lo0, lo1, t) \<and>
     valid_pte pte \<and> pmem t (PPN pte) = (\<lambda>_. 7) \<and> lo0 = drop_bit 6 pte"
proof -
  obtain lo0 lo1 t where run: "do_tlb_refill_c UTEXT 0 ex_vm = Some (lo0, lo1, t)" using ex_refill by blast
  have va: "PDX UTEXT < PDX UTOP" by code_simp
  have "uview ex_vm (cur_pgdir ex_vm) UTEXT = Some (0x700, \<lambda>_. 7)"
    by (simp add: uview_def uloc_def lview_def pload_def ex_vm_def ex_vals Let_def)
  from refill_shows_view [OF ex_wf _ va this run]
  have "\<exists>pte. valid_pte pte \<and> pmem t (PPN pte) = (\<lambda>_. 7) \<and> lo0 = drop_bit 6 pte"
    by (auto simp: ex_vm_def ex_vals)
  then show ?thesis using run by blast
qed

section \<open>Saved trap frames\<close>

text \<open>
  What the user handler gets: \<^verbatim>\<open>store_words\<close> writes the 38 words of the frame below the stack pointer,
  from where \<^verbatim>\<open>sys_set_trapframe\<close> reads them again.
\<close>

lemma rd32_wr32_below:
  "unat b + 4 \<le> unat a \<or> unat a + 4 \<le> unat b \<Longrightarrow> unat a + 4 < 2 ^ 32 \<Longrightarrow> unat b + 4 < 2 ^ 32 \<Longrightarrow>
     rd32 (wr32 a w m) b = rd32 m b"
proof -
  assume h: "unat b + 4 \<le> unat a \<or> unat a + 4 \<le> unat b" "unat a + 4 < 2 ^ 32" "unat b + 4 < 2 ^ 32"
  then have "4 \<le> b - a" "4 \<le> a - b"
    by (auto simp: word_le_nat_alt unat_sub_if_size word_size)
  then show ?thesis by (rule rd32_wr32_other)
qed

lemma store_words_run:
  "unat a + 4 * length ws < 2 ^ 32 \<Longrightarrow>
     \<exists>n. store_words byte_ops a ws m = Some n \<and> load_words byte_ops a (length ws) n = Some (ws, n) \<and>
       (\<forall>b. (unat b + 4 \<le> unat a \<or> unat a + 4 * length ws \<le> unat b) \<and> unat b + 4 < 2 ^ 32 \<longrightarrow>
          rd32 n b = rd32 m b)"
proof (induction ws arbitrary: a m)
  case (Cons w ws)
  have u: "unat (a + 4) = unat a + 4" using Cons.prems by (simp add: unat_word_ariths)
  obtain n where n: "store_words byte_ops (a + 4) ws (wr32 a w m) = Some n"
    "load_words byte_ops (a + 4) (length ws) n = Some (ws, n)"
    "\<forall>b. (unat b + 4 \<le> unat (a + 4) \<or> unat (a + 4) + 4 * length ws \<le> unat b) \<and> unat b + 4 < 2 ^ 32 \<longrightarrow>
       rd32 n b = rd32 (wr32 a w m) b"
    using Cons.IH [of "a + 4" "wr32 a w m"] Cons.prems u by auto
  have "rd32 n a = w" using n(3) u Cons.prems by simp
  moreover have "rd32 n b = rd32 m b"
    if "unat b + 4 \<le> unat a \<or> unat a + 4 * length (w # ws) \<le> unat b" "unat b + 4 < 2 ^ 32" for b
    using n(3) that u Cons.prems rd32_wr32_below [of b a w m] by auto
  ultimately show ?case using n(1,2) by auto
qed simp

lemma tf_words_length: "length (tf_words tf) = 38"
  by (simp add: tf_words_def)

lemma tf_of_words_words: "(\<And>i. 32 \<le> i \<Longrightarrow> tf_regs tf i = 0) \<Longrightarrow> tf_of_words (tf_words tf) = tf"
  by (cases tf) (simp add: tf_of_words_def tf_words_def nth_append fun_eq_iff not_less)

text \<open>
  A trap frame written to memory and read back is the same frame, at any address where its 38
  words fit; words of memory outside it keep their values.
\<close>

theorem trapframe_round_trip:
  assumes "unat a + 152 < 2 ^ 32" "\<And>i. 32 \<le> i \<Longrightarrow> tf_regs tf i = 0"
  shows "\<exists>n. store_words byte_ops a (tf_words tf) m = Some n \<and>
    (\<exists>ws. load_words byte_ops a 38 n = Some (ws, n) \<and> tf_of_words ws = tf) \<and>
    (\<forall>b. (unat b + 4 \<le> unat a \<or> unat a + 152 \<le> unat b) \<and> unat b + 4 < 2 ^ 32 \<longrightarrow> rd32 n b = rd32 m b)"
proof -
  have "unat a + 4 * length (tf_words tf) < 2 ^ 32" using assms(1) by (simp add: tf_words_length)
  from store_words_run [OF this, of m] show ?thesis
    using tf_of_words_words [OF assms(2)] by (auto simp: tf_words_length)
qed

lemma trapframe_round_trip_witness:
  "\<exists>n ws. store_words byte_ops 0x7f3fdf68 (tf_words ex_tf) (\<lambda>_. 0) = Some n \<and>
    load_words byte_ops 0x7f3fdf68 38 n = Some (ws, n) \<and> tf_of_words ws = ex_tf"
proof -
  have "tf_regs ex_tf i = 0" if "32 \<le> i" for i using that by (simp add: ex_tf_def)
  from trapframe_round_trip [of "0x7f3fdf68" ex_tf "\<lambda>_. 0", OF _ this] show ?thesis by auto
qed

end
