(* ===== verification/Remap.thy ===== *)
theory Remap
  imports Vm
begin

text \<open>
  Mapping and unmapping pages. \<open>remap_ok D A s\<close> adds to the invariant of \<open>Vm\<close> what
  \<^verbatim>\<open>page_insert\<close>, \<^verbatim>\<open>page_remove\<close> and the registration of pages rely on: no two directory entries
  share a page table, the records carry the address space identifier \<open>A d\<close> of their directory, free
  records are not in use, and no page is mapped more often than its reference count says.
\<close>

section \<open>The invariant\<close>

text \<open>The directory entries that hold a table, and the entries that map a page.\<close>

definition slots :: "nat set \<Rightarrow> kmem \<Rightarrow> (nat \<times> nat) set" where
  "slots D s = {(d, i). d \<in> D \<and> i < NUPDE \<and> valid_pte (pmem s d i)}"

definition mappers :: "nat set \<Rightarrow> kmem \<Rightarrow> nat \<Rightarrow> ploc set" where
  "mappers D s p = {l \<in> ulocs D s. valid_pte (pload s l) \<and> PPN (pload s l) = p}"

definition remap_ok :: "nat set \<Rightarrow> (nat \<Rightarrow> u32) \<Rightarrow> kmem \<Rightarrow> bool" where
  "remap_ok D A s \<longleftrightarrow>
     swap_wf D s \<and> finite D \<and> (\<forall>d \<in> D. d < npage s) \<and>
     inj_on (\<lambda>(d, i). PPN (pmem s d i)) (slots D s) \<and>
     (\<forall>si \<in> infos s. si_asid (swapInfos s si) = A (si_pgdir (swapInfos s si))) \<and>
     distinct (swapInfo_free_list s) \<and> set (swapInfo_free_list s) \<inter> infos s = {} \<and>
     (\<forall>p. card (mappers D s p) \<le> unat (pp_ref s p)) \<and>
     (\<forall>l \<in> ulocs D s. valid_pte (pload s l) \<longrightarrow> PPN (pload s l) < npage s)"

lemma remap_okD:
  assumes "remap_ok D A s"
  shows remap_wf: "swap_wf D s"
    and remap_dirs: "finite D" "d \<in> D \<Longrightarrow> d < npage s"
    and remap_inj: "inj_on (\<lambda>(d, i). PPN (pmem s d i)) (slots D s)"
    and remap_asid: "si \<in> infos s \<Longrightarrow> si_asid (swapInfos s si) = A (si_pgdir (swapInfos s si))"
    and remap_free: "distinct (swapInfo_free_list s)" "si \<in> set (swapInfo_free_list s) \<Longrightarrow> si \<notin> infos s"
    and remap_refs: "card (mappers D s p) \<le> unat (pp_ref s p)"
    and remap_ppn: "l \<in> ulocs D s \<Longrightarrow> valid_pte (pload s l) \<Longrightarrow> PPN (pload s l) < npage s"
  using assms unfolding remap_ok_def by blast+

lemma remap_okI:
  assumes "swap_wf D s" "finite D" "\<And>d. d \<in> D \<Longrightarrow> d < npage s"
    and "inj_on (\<lambda>(d, i). PPN (pmem s d i)) (slots D s)"
    and "\<And>si. si \<in> infos s \<Longrightarrow> si_asid (swapInfos s si) = A (si_pgdir (swapInfos s si))"
    and "distinct (swapInfo_free_list s)" "set (swapInfo_free_list s) \<inter> infos s = {}"
    and "\<And>p. card (mappers D s p) \<le> unat (pp_ref s p)"
    and "\<And>l. l \<in> ulocs D s \<Longrightarrow> valid_pte (pload s l) \<Longrightarrow> PPN (pload s l) < npage s"
  shows "remap_ok D A s"
  using assms unfolding remap_ok_def by blast

lemma tables_slots: "tables D s = (\<lambda>(d, i). PPN (pmem s d i)) ` slots D s"
  by (auto simp: tables_def slots_def)

lemma finite_slots: "finite D \<Longrightarrow> finite (slots D s)"
  by (rule finite_subset [of _ "D \<times> {..<NUPDE}"]) (auto simp: slots_def)

lemma finite_ulocs: "finite D \<Longrightarrow> finite (ulocs D s)"
  by (rule finite_subset [of _ "tables D s \<times> {..<1024}"]) (auto simp: ulocs_def tables_slots finite_slots)

lemma finite_mappers: "finite D \<Longrightarrow> finite (mappers D s p)"
  by (rule finite_subset [OF _ finite_ulocs]) (auto simp: mappers_def)

text \<open>A swappable page is mapped exactly where it is registered.\<close>

lemma mappers_queue:
  assumes wf: "swap_wf D s" and p: "p \<in> set (page_swap_queue s)"
  shows "mappers D s p = sloc s ` set (swap_tbl s p)" "card (mappers D s p) = unat (pp_ref s p)"
proof -
  show m: "mappers D s p = sloc s ` set (swap_tbl s p)"
    using swap_wf_mapped(2) [OF wf] swap_wf_in [OF wf] sloc_table(2) [OF wf info_of_tbl] p
    by (fastforce simp: mappers_def)
  have "inj_on (sloc s) (set (swap_tbl s p))"
    by (rule inj_on_subset [OF swap_wf_inj [OF wf]]) (auto intro: info_of_tbl)
  then have "card (sloc s ` set (swap_tbl s p)) = length (swap_tbl s p)"
    using distinct_card [OF swap_wf_distinct(1) [OF wf, of p]] by (simp add: card_image)
  then show "card (mappers D s p) = unat (pp_ref s p)"
    using swap_wf_queue(4) [OF wf p] by (simp add: m)
qed

text \<open>The paging steps keep the invariant: a page keeps its mappings and its count, or is swappable, or unmapped.\<close>

lemma remap_carry:
  assumes ok: "remap_ok D A s" and wf: "swap_wf D t"
    and dir: "\<And>d. d \<in> D \<Longrightarrow> pmem t d = pmem s d" and inf: "infos t = infos s" "swapInfos t = swapInfos s"
    "swapInfo_free_list t = swapInfo_free_list s" "npage t = npage s"
    and page: "\<And>p. mappers D t p = {} \<or> p \<in> set (page_swap_queue t) \<or>
      mappers D t p = mappers D s p \<and> pp_ref t p = pp_ref s p"
  shows "remap_ok D A t"
proof (rule remap_okI [OF wf remap_dirs(1) [OF ok]])
  have tab: "slots D t = slots D s" using dir by (auto simp: slots_def)
  have ul: "ulocs D t = ulocs D s" by (rule dir_frame_ulocs [OF dir])
  show "d < npage t" if "d \<in> D" for d using remap_dirs(2) [OF ok that] by (simp add: inf)
  have "inj_on (\<lambda>(d, i). PPN (pmem t d i)) (slots D t) = inj_on (\<lambda>(d, i). PPN (pmem s d i)) (slots D s)"
    unfolding tab by (rule inj_on_cong) (auto simp: slots_def dir)
  then show "inj_on (\<lambda>(d, i). PPN (pmem t d i)) (slots D t)" using remap_inj [OF ok] by simp
  show "si_asid (swapInfos t si) = A (si_pgdir (swapInfos t si))" if "si \<in> infos t" for si
    using remap_asid [OF ok] that by (simp add: inf)
  show "distinct (swapInfo_free_list t)" "set (swapInfo_free_list t) \<inter> infos t = {}"
    using remap_free [OF ok] by (auto simp: inf)
  show "card (mappers D t p) \<le> unat (pp_ref t p)" for p
    using page [of p] mappers_queue(2) [OF wf, of p] remap_refs [OF ok, of p] by auto
  show "PPN (pload t l) < npage t" if l: "l \<in> ulocs D t" "valid_pte (pload t l)" for l
  proof -
    have "l \<in> mappers D t (PPN (pload t l))" using l by (simp add: mappers_def)
    then consider "PPN (pload t l) \<in> set (page_swap_queue t)" | "l \<in> mappers D s (PPN (pload t l))"
      using page [of "PPN (pload t l)"] by blast
    then show ?thesis
    proof cases
      case 2
      then show ?thesis using remap_ppn [OF ok, of l] inf(4) by (simp add: mappers_def)
    qed (rule swap_wf_queue(3) [OF wf])
  qed
qed

text \<open>What happens to a page in use that is not evicted: nothing.\<close>

definition in_use :: "nat set \<Rightarrow> kmem \<Rightarrow> nat \<Rightarrow> bool" where
  "in_use D s p \<longleftrightarrow> p < npage s \<and> p \<notin> D \<union> tables D s \<and> p \<notin> set (page_free_list s)"

definition untouched :: "nat set \<Rightarrow> nat \<Rightarrow> kmem \<Rightarrow> kmem \<Rightarrow> bool" where
  "untouched D p s t \<longleftrightarrow> in_use D t p \<and> pp_ref t p = pp_ref s p \<and> swap_tbl t p = swap_tbl s p \<and> pmem t p = pmem s p"

lemma untouched_refl: "in_use D s p \<Longrightarrow> untouched D p s s"
  by (simp add: untouched_def)

lemma untouched_trans: "untouched D p s t \<Longrightarrow> untouched D p t u \<Longrightarrow> untouched D p s u"
  by (simp add: untouched_def)

lemma untouchedD: "untouched D p s t \<Longrightarrow> in_use D t p"
  by (simp add: untouched_def)

section \<open>The paging steps\<close>

lemma swapped_out_mappers:
  assumes wf: "swap_wf D s" and pp: "pp \<in> set (page_swap_queue s)" and b: "b < SD_NBLK" "\<not> bm_bit (sd_bitmap s) b"
    and out: "swapped_out s pp b t"
  shows "mappers D t p = (if p = pp then {} else mappers D s p)"
proof (intro set_eqI)
  fix l
  note st = swapped_out_step [OF wf pp b out]
  have "valid_pte (pload t l) \<and> PPN (pload t l) = p \<longleftrightarrow> p \<noteq> pp \<and> valid_pte (pload s l) \<and> PPN (pload s l) = p"
    if "l \<in> ulocs D s"
  proof (cases "l \<in> sloc s ` set (swap_tbl s pp)")
    case True
    then have "l \<in> mappers D s pp" by (simp add: mappers_queue(1) [OF wf pp])
    then show ?thesis using True by (auto simp: st(2) mappers_def)
  next
    case False
    then have "l \<notin> mappers D s pp" by (simp add: mappers_queue(1) [OF wf pp])
    then show ?thesis using that False by (auto simp: st(2) mappers_def)
  qed
  then show "l \<in> mappers D t p \<longleftrightarrow> l \<in> (if p = pp then {} else mappers D s p)"
    by (auto simp: mappers_def st(6))
qed

lemma swapped_out_remap:
  assumes ok: "remap_ok D A s" and pp: "pp \<in> set (page_swap_queue s)" and b: "b < SD_NBLK" "\<not> bm_bit (sd_bitmap s) b"
    and out: "swapped_out s pp b t"
  shows "remap_ok D A t" "in_use D s p \<Longrightarrow> p \<notin> set (page_swap_queue s) \<Longrightarrow> untouched D p s t"
proof -
  note wf = remap_wf [OF ok] and f = swapped_out_fields [OF out]
  note st = swapped_out_step [OF remap_wf [OF ok] pp b out]
  show "remap_ok D A t"
  proof (rule remap_carry [OF ok swapped_out_wf [OF wf pp b out] st(1) st(3) f(10,12,9)])
    show "mappers D t p = {} \<or> p \<in> set (page_swap_queue t) \<or> mappers D t p = mappers D s p \<and> pp_ref t p = pp_ref s p" for p
      by (simp add: swapped_out_mappers [OF wf pp b out] f(3))
  qed assumption
  show "untouched D p s t" if p: "in_use D s p" "p \<notin> set (page_swap_queue s)"
  proof -
    have "p \<noteq> pp" "p \<notin> tables D s" using p pp by (auto simp: in_use_def)
    moreover have "pmem t p = pmem s p"
    proof (rule pmem_upd_locs [OF f(1)])
      fix l assume "l \<in> sloc s ` set (swap_tbl s pp)"
      then show "fst l \<noteq> p" using sloc_table(1) [OF wf info_of_tbl] \<open>p \<notin> tables D s\<close> by auto
    qed
    ultimately show ?thesis using p by (auto simp: untouched_def in_use_def f st(5))
  qed
qed

lemma page_take_mappers:
  assumes wf: "swap_wf D s" and fl: "page_free_list s = q # rest"
  shows "mappers D (page_take s q rest) p = mappers D s p"
proof -
  note st = page_take_steps [OF wf fl]
  have q: "q \<notin> D \<union> tables D s" using swap_wf_tables(4) [OF wf, of q] fl by auto
  have "fst l \<noteq> q" if "l \<in> ulocs D s" for l using that q by (auto simp: ulocs_def)
  then have "pload (page_take s q rest) l = pload s l" if "l \<in> ulocs D s" for l
    using that by (simp add: pload_def page_take_def)
  then show ?thesis using keptD(7) [OF st(2)] by (auto simp: mappers_def)
qed

lemma page_take_remap:
  assumes ok: "remap_ok D A s" and fl: "page_free_list s = q # rest"
  shows "remap_ok D A (page_take s q rest)" "in_use D s p \<Longrightarrow> untouched D p s (page_take s q rest)"
proof -
  let ?t = "page_take s q rest"
  note wf = remap_wf [OF ok] and st = page_take_steps [OF remap_wf [OF ok] fl]
  show "remap_ok D A ?t"
    using page_take_mappers [OF wf fl]
    by (intro remap_carry [OF ok st(1) keptD(1) [OF st(2)]]) (auto simp: page_take_def infos_def)
  show "untouched D p s ?t" if "in_use D s p"
    using that fl keptD(6) [OF st(2)] by (auto simp: untouched_def in_use_def page_take_def)
qed

lemma swapped_in_mappers:
  assumes wf: "swap_wf D s" and q: "fresh_page D s q" and b: "bno_tbl s b \<noteq> []" and p: "p \<noteq> q"
  shows "mappers D (swapped_in s q b) p = mappers D s p"
proof (intro set_eqI)
  fix l
  let ?t = "swapped_in s q b"
  note st = swapped_in_step [OF wf q b]
  have "valid_pte (pload ?t l) \<and> PPN (pload ?t l) = p \<longleftrightarrow> valid_pte (pload s l) \<and> PPN (pload s l) = p"
    if l: "l \<in> ulocs D s"
  proof (cases "l \<in> sloc s ` set (bno_tbl s b)")
    case True
    have "q < 2 ^ 20" using q swap_wf_npage [OF wf] by (simp add: fresh_page_def)
    moreover have "\<not> valid_pte (pload s l)" using True swap_wf_out(1) [OF wf] by auto
    ultimately show ?thesis using True \<open>p \<noteq> q\<close> by (simp add: st(2) [OF st(8) [OF l]])
  qed (simp add: st(2) [OF st(8) [OF l]])
  then show "l \<in> mappers D ?t p \<longleftrightarrow> l \<in> mappers D s p" by (auto simp: mappers_def st(6))
qed

lemma swapped_in_remap:
  assumes ok: "remap_ok D A s" and q: "fresh_page D s q" and b: "bno_tbl s b \<noteq> []"
  shows "remap_ok D A (swapped_in s q b)" "in_use D s p \<Longrightarrow> p \<noteq> q \<Longrightarrow> untouched D p s (swapped_in s q b)"
proof -
  let ?t = "swapped_in s q b"
  note wf = remap_wf [OF ok] and f = swapped_in_fields [of s q b]
  note st = swapped_in_step [OF remap_wf [OF ok] q b]
  have free: "swapInfo_free_list ?t = swapInfo_free_list s" by (simp add: swapped_in_def)
  show "remap_ok D A ?t"
  proof (rule remap_carry [OF ok swapped_in_wf [OF wf q b] st(1) st(3) f(9) free f(8)])
    show "mappers D ?t p = {} \<or> p \<in> set (page_swap_queue ?t) \<or> mappers D ?t p = mappers D s p \<and> pp_ref ?t p = pp_ref s p" for p
      using swapped_in_mappers [OF wf q b] by (cases "p = q") (simp_all add: f)
  qed assumption
  show "untouched D p s ?t" if p: "in_use D s p" "p \<noteq> q"
  proof -
    have "p \<notin> tables D s" using p by (simp add: in_use_def)
    have "pmem ?t p = pmem (s\<lparr>pmem := (pmem s)(q := sdisk s b)\<rparr>) p"
    proof (rule pmem_upd_locs)
      show "pmem ?t = upd_locs (s\<lparr>pmem := (pmem s)(q := sdisk s b)\<rparr>) (sloc s ` set (bno_tbl s b)) (in_pte q)"
        by (simp add: swapped_in_def)
      fix l assume "l \<in> sloc s ` set (bno_tbl s b)"
      then show "fst l \<noteq> p" using sloc_table(1) [OF wf info_of_bno] \<open>p \<notin> tables D s\<close> by auto
    qed
    then show ?thesis using p by (auto simp: untouched_def in_use_def f st(5))
  qed
qed

text \<open>A page that is not swappable, or any page when one is free: what \<^verbatim>\<open>page_alloc\<close> leaves alone.\<close>

definition stays :: "nat set \<Rightarrow> kmem \<Rightarrow> nat \<Rightarrow> bool" where
  "stays D s p \<longleftrightarrow> in_use D s p \<and> (p \<notin> set (page_swap_queue s) \<or> page_free_list s \<noteq> [])"

lemma untouched_queue:
  assumes "swap_wf D s" "swap_wf D t" "untouched D p s t"
  shows "p \<in> set (page_swap_queue t) \<longleftrightarrow> p \<in> set (page_swap_queue s)"
  using assms swap_wf_queue(2) by (simp add: untouched_def)

lemma swap_remap:
  assumes ok: "remap_ok D A s" and run: "swap s = Some t"
  shows "remap_ok D A t \<and> (in_use D s p \<longrightarrow> p \<notin> set (page_swap_queue s) \<longrightarrow> untouched D p s t)"
proof (cases "page_swap_queue s = []")
  case True
  then have "t = s" using run by (simp add: swap_def)
  then show ?thesis using ok by (simp add: untouched_refl)
next
  case False
  then obtain pp b where "pp \<in> set (page_swap_queue s)" "b < SD_NBLK" "\<not> bm_bit (sd_bitmap s) b" "swapped_out s pp b t"
    using swap_steps(3) [OF remap_wf [OF ok] run] by blast
  then show ?thesis using swapped_out_remap [OF ok] by blast
qed

lemma swap_times_remap:
  "remap_ok D A s \<Longrightarrow> swap_times n s = Some t \<Longrightarrow>
   remap_ok D A t \<and> (in_use D s p \<longrightarrow> p \<notin> set (page_swap_queue s) \<longrightarrow> untouched D p s t)"
proof (induction n arbitrary: s)
  case (Suc n)
  from Suc.prems(2) obtain u where u: "swap s = Some u" "swap_times n u = Some t"
    by (auto elim: bind_SomeE)
  have st: "remap_ok D A u" "in_use D s p \<Longrightarrow> p \<notin> set (page_swap_queue s) \<Longrightarrow> untouched D p s u"
    using swap_remap [OF Suc.prems(1) u(1), of p] by simp_all
  have rest: "remap_ok D A t" "in_use D u p \<Longrightarrow> p \<notin> set (page_swap_queue u) \<Longrightarrow> untouched D p u t"
    using Suc.IH [OF st(1) u(2)] by simp_all
  show ?case
  proof (intro conjI impI rest(1))
    assume p: "in_use D s p" "p \<notin> set (page_swap_queue s)"
    have "p \<notin> set (page_swap_queue u)"
      using untouched_queue [OF remap_wf [OF Suc.prems(1)] remap_wf [OF st(1)] st(2) [OF p]] p(2) by simp
    with rest(2) [OF untouchedD [OF st(2) [OF p]]] show "untouched D p s t"
      using untouched_trans [OF st(2) [OF p]] by blast
  qed
qed (auto simp: untouched_refl)

lemma page_alloc_remap:
  assumes ok: "remap_ok D A s" and run: "page_alloc s = Some (r, q, t)"
  shows "remap_ok D A t" "stays D s p \<Longrightarrow> untouched D p s t \<and> q \<noteq> p"
    "length (page_free_list s) \<le> Suc (length (page_free_list t))"
    "page_free_list s \<noteq> [] \<Longrightarrow> page_swap_queue t = page_swap_queue s"
proof -
  obtain u rest where u: "page_free_list u = q # rest" "t = page_take u q rest"
    "u = s \<or> page_free_list s = [] \<and> swap_times NSWAP s = Some u"
    using page_alloc_cases [OF remap_wf [OF ok] run] by blast
  have ok_u: "remap_ok D A u" using u(3) swap_times_remap [OF ok] ok by blast
  show "remap_ok D A t" using page_take_remap(1) [OF ok_u u(1)] u(2) by simp
  show "untouched D p s t \<and> q \<noteq> p" if p: "stays D s p"
  proof -
    have "untouched D p s u"
      using u(3) swap_times_remap [OF ok, of NSWAP u p] p by (auto simp: stays_def untouched_refl)
    moreover from this have "untouched D p u t"
      using page_take_remap(2) [OF ok_u u(1)] u(2) untouchedD by blast
    ultimately show ?thesis
      using untouchedD [of D p s u] u(1) by (auto simp: in_use_def intro: untouched_trans)
  qed
  show "length (page_free_list s) \<le> Suc (length (page_free_list t))" using u by (auto simp: page_take_def)
  show "page_swap_queue t = page_swap_queue s" if "page_free_list s \<noteq> []"
    using u that by (auto simp: page_take_def)
qed

lemma swap_back_remap:
  assumes ok: "remap_ok D A s" and l: "l \<in> ulocs D s" and pte: "\<not> valid_pte (pload s l)" "swapped_pte (pload s l)"
    and run: "swap_back (pload s l) s = Some t"
  shows "remap_ok D A t" "stays D s p \<Longrightarrow> untouched D p s t"
    "length (page_free_list s) \<le> Suc (length (page_free_list t))"
proof -
  obtain q u where u: "page_alloc s = Some (0, q, u)" "bno_tbl u (PPN (pload s l)) \<noteq> []" "t = swapped_in u q (PPN (pload s l))"
    using swap_back_result [OF remap_wf [OF ok] l pte run] by blast
  note al = page_alloc_remap [OF ok u(1)]
  note fresh = page_alloc_steps(4) [OF remap_wf [OF ok] u(1)]
  note sw = swapped_in_remap [OF al(1) fresh u(2), folded u(3)]
  show "remap_ok D A t" by (rule sw(1))
  show "untouched D p s t" if "stays D s p"
    using al(2) [OF that] sw(2) untouchedD untouched_trans by blast
  show "length (page_free_list s) \<le> Suc (length (page_free_list t))"
    using al(3) by (simp add: u(3) swapped_in_fields)
qed

lemma swap_in_if_needed_remap:
  assumes ok: "remap_ok D A s" and l: "l \<in> ulocs D s" and run: "swap_in_if_needed (Some l) s = Some t"
  shows "remap_ok D A t" "stays D s p \<Longrightarrow> untouched D p s t"
    "length (page_free_list s) \<le> Suc (length (page_free_list t))"
proof -
  have "remap_ok D A t \<and> (stays D s p \<longrightarrow> untouched D p s t) \<and> length (page_free_list s) \<le> Suc (length (page_free_list t))"
  proof (cases "\<not> valid_pte (pload s l) \<and> swapped_pte (pload s l)")
    case True
    then have "swap_back (pload s l) s = Some t"
      using run by (cases l) (simp add: swap_in_if_needed_def and_PTE_V and_PTE_SWAPPED pload_def
          del: PTE_V_def PTE_SWAPPED_def)
    then show ?thesis using swap_back_remap [OF ok l] True by blast
  next
    case False
    then have "t = s"
      using run by (cases l) (auto simp: swap_in_if_needed_def and_PTE_V and_PTE_SWAPPED pload_def
          simp del: PTE_V_def PTE_SWAPPED_def)
    then show ?thesis using ok by (auto simp: stays_def untouched_refl)
  qed
  then show "remap_ok D A t" "stays D s p \<Longrightarrow> untouched D p s t"
    "length (page_free_list s) \<le> Suc (length (page_free_list t))" by blast+
qed

text \<open>Marks of access and entries of the TLB are no part of the invariant.\<close>

lemma marks_frame [simp]:
  "remap_ok D A (s\<lparr>accessed := a\<rparr>) = remap_ok D A s" "untouched D p s (t\<lparr>accessed := a\<rparr>) = untouched D p s t"
  "uview (s\<lparr>accessed := a\<rparr>) = uview s"
  "remap_ok D A (tlb_invalidate asid va s) = remap_ok D A s" "untouched D p s (tlb_invalidate asid va t) = untouched D p s t"
  "uview (tlb_invalidate asid va s) = uview s" "ulocs D (tlb_invalidate asid va s) = ulocs D s"
  "pload (tlb_invalidate asid va s) = pload s" "same_user D u (tlb_invalidate asid va s) = same_user D u s"
  "page_free_list (tlb_invalidate asid va s) = page_free_list s" "page_swap_queue (tlb_invalidate asid va s) = page_swap_queue s"
  "swapInfo_free_list (tlb_invalidate asid va s) = swapInfo_free_list s" "pmem (tlb_invalidate asid va s) = pmem s"
  "npage (tlb_invalidate asid va s) = npage s" "pp_ref (tlb_invalidate asid va s) = pp_ref s"
  "swap_tbl (tlb_invalidate asid va s) = swap_tbl s"
proof -
  have e: "pload (s\<lparr>accessed := a\<rparr>) = pload s" "sloc (s\<lparr>accessed := a\<rparr>) = sloc s" "slots D (s\<lparr>accessed := a\<rparr>) = slots D s"
    "tables D (s\<lparr>accessed := a\<rparr>) = tables D s" "ulocs D (s\<lparr>accessed := a\<rparr>) = ulocs D s"
    "infos (s\<lparr>accessed := a\<rparr>) = infos s" "uloc (s\<lparr>accessed := a\<rparr>) = uloc s" "lview (s\<lparr>accessed := a\<rparr>) = lview s" for s a
    by (auto simp: fun_eq_iff pload_def sloc_def uloc_def slots_def tables_def ulocs_def infos_def lview_def Let_def)
  have i: "pload (tlb_invalidate asid va s) = pload s" "sloc (tlb_invalidate asid va s) = sloc s"
    "slots D (tlb_invalidate asid va s) = slots D s" "tables D (tlb_invalidate asid va s) = tables D s"
    "ulocs D (tlb_invalidate asid va s) = ulocs D s" "infos (tlb_invalidate asid va s) = infos s"
    "uloc (tlb_invalidate asid va s) = uloc s" "lview (tlb_invalidate asid va s) = lview s"
    "info_ok D (tlb_invalidate asid va s) = info_ok D s" for s
    by (auto simp: fun_eq_iff tlb_invalidate_def tlb_out_def pload_def sloc_def uloc_def slots_def tables_def ulocs_def
        infos_def lview_def info_ok_def Let_def)
  have f: "page_free_list (tlb_invalidate asid va s) = page_free_list s" "page_swap_queue (tlb_invalidate asid va s) = page_swap_queue s"
    "swapInfo_free_list (tlb_invalidate asid va s) = swapInfo_free_list s" "pmem (tlb_invalidate asid va s) = pmem s"
    "npage (tlb_invalidate asid va s) = npage s" "pp_ref (tlb_invalidate asid va s) = pp_ref s"
    "swap_tbl (tlb_invalidate asid va s) = swap_tbl s" "bno_tbl (tlb_invalidate asid va s) = bno_tbl s"
    "sd_bitmap (tlb_invalidate asid va s) = sd_bitmap s" "swapInfos (tlb_invalidate asid va s) = swapInfos s"
    "cur_pgdir (tlb_invalidate asid va s) = cur_pgdir s" for s
    by (simp_all add: tlb_invalidate_def tlb_out_def)
  show "remap_ok D A (s\<lparr>accessed := a\<rparr>) = remap_ok D A s"
    by (simp add: remap_ok_def accessed_frame e mappers_def)
  show "untouched D p s (t\<lparr>accessed := a\<rparr>) = untouched D p s t"
    by (simp add: untouched_def in_use_def e)
  show "uview (s\<lparr>accessed := a\<rparr>) = uview s"
    by (simp add: fun_eq_iff uview_def e)
  have "swap_wf D (tlb_invalidate asid va s) = swap_wf D s" by (simp only: swap_wf_def f i)
  then show "remap_ok D A (tlb_invalidate asid va s) = remap_ok D A s"
    by (simp only: remap_ok_def f i mappers_def)
  show "untouched D p s (tlb_invalidate asid va t) = untouched D p s t"
    by (simp only: untouched_def in_use_def f i)
  show "uview (tlb_invalidate asid va s) = uview s" by (simp add: fun_eq_iff uview_def i f)
  show "same_user D u (tlb_invalidate asid va s) = same_user D u s"
    by (simp only: same_user_def f i)
qed (simp_all add: tlb_invalidate_def tlb_out_def fun_eq_iff pload_def ulocs_def tables_def)

lemma page_lookup_cases:
  assumes ok: "remap_ok D A s" and d: "d \<in> D" "PDX va < NUPDE" and run: "page_lookup d va s = Some (pp, pte, t)"
  shows "\<not> valid_pte (pmem s d (PDX va)) \<and> pp = None \<and> pte = None \<and> t = s \<or>
    valid_pte (pmem s d (PDX va)) \<and> pte = Some (uloc s d va) \<and>
    (\<exists>u. swap_in_if_needed (Some (uloc s d va)) s = Some u \<and>
      (\<not> valid_pte (pload u (uloc s d va)) \<and> pp = None \<and> t = u \<or>
       valid_pte (pload u (uloc s d va)) \<and> pp = Some (PPN (pload u (uloc s d va))) \<and>
       t = u\<lparr>accessed := (accessed u)(PPN (pload u (uloc s d va)) := 1)\<rparr>))"
proof (cases "valid_pte (pmem s d (PDX va))")
  case False
  then show ?thesis using run by (simp add: page_lookup_def pgdir_walk_none swap_in_if_needed_def)
next
  case True
  define l where "l = uloc s d va"
  have "PPN (pmem s d (PDX va)) < npage s"
    using uloc_ulocs(2) [OF d True] swap_wf_tables(1) [OF remap_wf [OF ok]] by blast
  note walk = pgdir_walk_table [OF True this, of False, folded l_def]
  obtain u where u: "swap_in_if_needed (Some l) s = Some u"
    using run by (auto simp: page_lookup_def walk elim: bind_SomeE)
  then have "(if \<not> valid_pte (pload u l) then Some (None, Some l, u)
      else do { p \<leftarrow> pa2page (npage u) (pload u l);
                Some (Some p, Some l, u\<lparr>accessed := (accessed u)(p := 1)\<rparr>) }) = Some (pp, pte, t)"
    using run
    by (cases l) (auto simp: page_lookup_def walk and_PTE_V pload_def Let_def simp del: PTE_V_def split: if_splits)
  then have "pte = Some l" "\<not> valid_pte (pload u l) \<and> pp = None \<and> t = u \<or>
       valid_pte (pload u l) \<and> pp = Some (PPN (pload u l)) \<and> t = u\<lparr>accessed := (accessed u)(PPN (pload u l) := 1)\<rparr>"
    by (auto simp: pa2page_def split: if_splits)
  then show ?thesis using True u unfolding l_def by blast
qed

lemma page_lookup_remap:
  assumes ok: "remap_ok D A s" and d: "d \<in> D" "PDX va < NUPDE" and run: "page_lookup d va s = Some (pp, pte, t)"
  shows "remap_ok D A t" "stays D s p \<Longrightarrow> untouched D p s t"
    "length (page_free_list s) \<le> Suc (length (page_free_list t))"
proof -
  have "remap_ok D A t \<and> (stays D s p \<longrightarrow> untouched D p s t) \<and> length (page_free_list s) \<le> Suc (length (page_free_list t))"
    using page_lookup_cases [OF assms]
  proof (elim disjE conjE exE)
    assume "t = s"
    then show ?thesis using ok by (auto simp: stays_def untouched_refl)
  next
    fix u assume v: "valid_pte (pmem s d (PDX va))" and u: "swap_in_if_needed (Some (uloc s d va)) s = Some u" and "t = u"
    then show ?thesis using swap_in_if_needed_remap [OF ok uloc_ulocs(1) [OF d v] u] by blast
  next
    fix u assume v: "valid_pte (pmem s d (PDX va))" and u: "swap_in_if_needed (Some (uloc s d va)) s = Some u"
      and t: "t = u\<lparr>accessed := (accessed u)(PPN (pload u (uloc s d va)) := 1)\<rparr>"
    then show ?thesis using swap_in_if_needed_remap [OF ok uloc_ulocs(1) [OF d v] u] by simp
  qed
  then show "remap_ok D A t" "stays D s p \<Longrightarrow> untouched D p s t"
    "length (page_free_list s) \<le> Suc (length (page_free_list t))" by blast+
qed

section \<open>Removing a mapping\<close>

lemma table_entry_write:
  assumes wf: "swap_wf D u" and l: "l \<in> ulocs D u"
    and pm: "pmem t = (pmem u)(fst l := (pmem u (fst l))(snd l := v))"
  shows "d \<in> D \<Longrightarrow> pmem t d = pmem u d" "pload t k = (if k = l then v else pload u k)"
    "q \<notin> tables D u \<Longrightarrow> pmem t q = pmem u q"
proof -
  have tab: "fst l \<in> tables D u" using l by (auto simp: ulocs_def)
  then show "d \<in> D \<Longrightarrow> pmem t d = pmem u d" using swap_wf_tables(2) [OF wf] by (auto simp: pm)
  show "pload t k = (if k = l then v else pload u k)" by (cases k; cases l) (auto simp: pload_def pm)
  show "q \<notin> tables D u \<Longrightarrow> pmem t q = pmem u q" using tab by (auto simp: pm)
qed

lemma zero_pte [simp]: "\<not> valid_pte 0" "\<not> swapped_pte 0"
  by (simp_all add: valid_pte_def swapped_pte_def)

lemma unmap_entry:
  assumes ok: "remap_ok D A u" and l: "l \<in> ulocs D u" "valid_pte (pload u l)" and p: "PPN (pload u l) = p"
    and pm: "pmem t = (pmem u)(fst l := (pmem u (fst l))(snd l := 0))"
    and same: "npage t = npage u" "swapInfos t = swapInfos u" "bno_tbl t = bno_tbl u" "sd_bitmap t = sd_bitmap u"
      "sdisk t = sdisk u"
    and ref: "pp_ref t = (pp_ref u)(p := pp_ref u p - 1)"
    and tbl: "swap_tbl t = (swap_tbl u)(p := filter (\<lambda>si. sloc u si \<noteq> l) (swap_tbl u p))"
    and free: "distinct (swapInfo_free_list t)"
      "set (swapInfo_free_list t) = set (swapInfo_free_list u) \<union> {si \<in> set (swap_tbl u p). sloc u si = l}"
    and queue: "page_swap_queue t = (if swap_tbl t p = [] then remove1 p (page_swap_queue u) else page_swap_queue u)"
    and pages: "page_free_list t = (if pp_ref t p = 0 then p # page_free_list u else page_free_list u)"
  shows "remap_ok D A t" "k \<in> ulocs D u \<Longrightarrow> lview t k = (if k = l then None else lview u k)"
proof -
  note wf = remap_wf [OF ok]
  note dir = table_entry_write(1) [OF wf l(1) pm] and pl = table_entry_write(2) [OF wf l(1) pm]
    and frame = table_entry_write(3) [OF wf l(1) pm]
  have fr: "tables D t = tables D u" "ulocs D t = ulocs D u" "\<And>si. info_ok D t si = info_ok D u si"
    by (rule dir_frame_tables [OF dir], assumption, rule dir_frame_ulocs [OF dir], assumption,
        rule dir_frame_info [OF dir same(2)])
  have slots: "slots D t = slots D u" using dir by (auto simp: slots_def)
  have mapped: "p \<notin> D \<union> tables D u" "p \<notin> set (page_free_list u)" using swap_wf_mapped(1) [OF wf l] p by auto
  have lm: "l \<in> mappers D u p" using l p by (simp add: mappers_def)
  have sub: "infos t \<subseteq> infos u" by (auto simp: infos_def tbl same split: if_splits)
  have sl: "sloc t si = sloc u si" if "si \<in> infos u" for si
    by (rule dir_frame_sloc [OF dir same(2) swap_wf_info [OF wf that]])
  have psl: "pload t (sloc t si) = (if sloc u si = l then 0 else pload u (sloc u si))" if "si \<in> infos u" for si
    using sl [OF that] by (simp add: pl)
  have mt: "mappers D t q = (if q = p then mappers D u p - {l} else mappers D u q)" for q
    using p by (auto simp: mappers_def fr pl)
  have fin: "finite (mappers D u p)" using remap_dirs(1) [OF ok] by (rule finite_mappers)
  have c1: "card (mappers D t p) = card (mappers D u p) - 1" using lm fin by (simp add: mt)
  have c0: "1 \<le> card (mappers D u p)" using lm fin card_gt_0_iff [of "mappers D u p"] by auto
  then have c2: "1 \<le> unat (pp_ref u p)" using remap_refs [OF ok, of p] by simp
  then have rp: "unat (pp_ref t p) = unat (pp_ref u p) - 1"
    by (cases "pp_ref u p = 0") (simp_all add: ref unat_minus_one)
  have tq: "mappers D t p = sloc u ` set (swap_tbl t p)" if "p \<in> set (page_swap_queue u)"
    using mappers_queue(1) [OF wf that] by (auto simp: mt tbl)
  have len: "length (swap_tbl t p) = card (mappers D t p)" if "p \<in> set (page_swap_queue u)"
  proof -
    have "inj_on (sloc u) (set (swap_tbl t p))"
      by (rule inj_on_subset [OF swap_wf_inj [OF wf]]) (auto simp: tbl intro: info_of_tbl)
    moreover have "distinct (swap_tbl t p)" using swap_wf_distinct(1) [OF wf] by (simp add: tbl)
    ultimately show ?thesis by (simp add: tq [OF that] card_image distinct_card)
  qed
  have q_tbl: "swap_tbl t q = swap_tbl u q" if "q \<noteq> p" for q using that by (simp add: tbl)
  have q_in: "q \<in> set (page_swap_queue t) \<longleftrightarrow> swap_tbl t q \<noteq> []" for q
  proof (cases "q = p")
    case True
    then show ?thesis
      using swap_wf_queue(1) [OF wf] swap_wf_queue(2) [OF wf, of p]
      by (cases "swap_tbl u p = []") (auto simp: queue tbl filter_empty_conv)
  next
    case False
    then have "q \<in> set (page_swap_queue t) \<longleftrightarrow> q \<in> set (page_swap_queue u)"
      using swap_wf_queue(1) [OF wf] by (simp add: queue)
    then show ?thesis using swap_wf_queue(2) [OF wf] q_tbl [OF False] by simp
  qed
  have q_sub: "set (page_swap_queue t) \<subseteq> set (page_swap_queue u)"
    using set_remove1_subset [of p "page_swap_queue u"] by (simp add: queue)
  have refq: "unat (pp_ref t p) = length (swap_tbl t p)" if "p \<in> set (page_swap_queue u)"
    using len [OF that] c1 rp mappers_queue(2) [OF wf that] by simp
  have img: "k \<in> sloc t ` set (swap_tbl t q)" if k: "k \<noteq> l" "k \<in> sloc u ` set (swap_tbl u q)" for k q
  proof -
    obtain si where "si \<in> set (swap_tbl u q)" "k = sloc u si" using k(2) by auto
    then show ?thesis using sl [OF info_of_tbl] k(1) by (intro image_eqI [of _ _ si]) (auto simp: tbl)
  qed
  have wft: "swap_wf D t"
  proof (rule swap_wfI)
    show "inj_on (sloc t) (infos t)"
    proof -
      have "inj_on (sloc u) (infos t)" using swap_wf_inj [OF wf] sub by (rule inj_on_subset)
      moreover have "inj_on (sloc t) (infos t) = inj_on (sloc u) (infos t)"
        by (rule inj_on_cong) (use sl sub in blast)
      ultimately show ?thesis by simp
    qed
    show "info_ok D t si" if "si \<in> infos t" for si using swap_wf_info [OF wf] that sub by (auto simp: fr)
    show "q \<in> set (page_swap_queue t) \<longleftrightarrow> swap_tbl t q \<noteq> []" for q by (rule q_in)
    show "q < npage t \<and> unat (pp_ref t q) = length (swap_tbl t q)" if q: "q \<in> set (page_swap_queue t)" for q
    proof (cases "q = p")
      case True
      then show ?thesis using refq q q_sub swap_wf_queue(3) [OF wf] same(1) by auto
    next
      case False
      then show ?thesis using q q_sub swap_wf_queue(3,4) [OF wf, of q] by (auto simp: same ref q_tbl)
    qed
    show "q < npage t \<and> pp_ref t q = 0" if "q \<in> set (page_free_list t)" for q
      using that mapped(2) swap_wf_free(2,3) [OF wf, of q] remap_ppn [OF ok l] p
      by (auto simp: pages ref same split: if_splits)
    show "(D \<union> tables D t) \<inter> (set (page_swap_queue t) \<union> set (page_free_list t)) = {}"
      using swap_wf_tables(3,4) [OF wf] mapped(1) q_sub by (auto simp: fr pages split: if_splits)
    show "valid_pte (pload t (sloc t si)) \<and> \<not> swapped_pte (pload t (sloc t si)) \<and> PPN (pload t (sloc t si)) = q"
      if si: "si \<in> set (swap_tbl t q)" for q si
    proof -
      have u: "si \<in> set (swap_tbl u q)" and "sloc u si \<noteq> l"
        using si swap_wf_in(3) [OF wf, of si q] p by (auto simp: tbl split: if_splits)
      then show ?thesis using psl [OF info_of_tbl [OF u]] swap_wf_in [OF wf u] by simp
    qed
    show "\<not> valid_pte (pload t (sloc t si)) \<and> swapped_pte (pload t (sloc t si)) \<and>
        PPN (pload t (sloc t si)) = b \<and> b < SD_NBLK \<and> bm_bit (sd_bitmap t) b"
      if si: "si \<in> set (bno_tbl t b)" for b si
    proof -
      have u: "si \<in> set (bno_tbl u b)" using si by (simp add: same)
      moreover from this have "sloc u si \<noteq> l" using swap_wf_out(1) [OF wf, of si b] l(2) by auto
      ultimately show ?thesis using psl [OF info_of_bno [OF u]] swap_wf_out [OF wf u] by (simp add: same)
    qed
    show "PPN (pload t k) \<notin> D \<union> tables D t \<and> PPN (pload t k) \<notin> set (page_free_list t) \<and>
        (PPN (pload t k) \<in> set (page_swap_queue t) \<longrightarrow> k \<in> sloc t ` set (swap_tbl t (PPN (pload t k))))"
      if k: "k \<in> ulocs D t" "valid_pte (pload t k)" for k
    proof -
      have ku: "k \<noteq> l" "k \<in> ulocs D u" "valid_pte (pload u k)" "pload t k = pload u k"
        using k by (auto simp: pl fr split: if_splits)
      have "PPN (pload u k) \<noteq> p" if "pp_ref t p = 0"
      proof
        assume "PPN (pload u k) = p"
        then have "k \<in> mappers D t p" using ku by (subst mt) (simp add: mappers_def)
        then have "card (mappers D t p) > 0" using fin by (auto simp: mt card_gt_0_iff)
        then show False using c1 rp that remap_refs [OF ok, of p] by simp
      qed
      then show ?thesis using swap_wf_mapped [OF wf ku(2,3)] img [OF ku(1)] q_sub by (auto simp: ku(4) fr pages)
    qed
    show "k \<in> sloc t ` set (bno_tbl t (PPN (pload t k)))"
      if k: "k \<in> ulocs D t" "\<not> valid_pte (pload t k)" "swapped_pte (pload t k)" for k
    proof -
      have ku: "k \<in> ulocs D u" "\<not> valid_pte (pload u k)" "swapped_pte (pload u k)" "pload t k = pload u k"
        using k by (auto simp: pl fr split: if_splits)
      from swap_wf_swapped [OF wf ku(1-3)] show ?thesis
        using sl [OF info_of_bno] by (auto simp: ku(4) same image_iff)
    qed
  qed (use swap_wf_npage [OF wf] swap_wf_queue(1) [OF wf] swap_wf_free(1) [OF wf] swap_wf_distinct [OF wf]
      swap_wf_tables(1,2) [OF wf] mapped(2) in \<open>simp_all add: same fr queue pages tbl\<close>)
  show "remap_ok D A t"
  proof (rule remap_okI [OF wft remap_dirs(1) [OF ok]])
    show "d < npage t" if "d \<in> D" for d using remap_dirs(2) [OF ok that] by (simp add: same)
    have "inj_on (\<lambda>(d, i). PPN (pmem t d i)) (slots D t) = inj_on (\<lambda>(d, i). PPN (pmem u d i)) (slots D u)"
      unfolding slots by (rule inj_on_cong) (auto simp: slots_def dir)
    then show "inj_on (\<lambda>(d, i). PPN (pmem t d i)) (slots D t)" using remap_inj [OF ok] by simp
    show "si_asid (swapInfos t si) = A (si_pgdir (swapInfos t si))" if "si \<in> infos t" for si
      using remap_asid [OF ok] that sub by (auto simp: same)
    show "distinct (swapInfo_free_list t)" by (rule free(1))
    show "set (swapInfo_free_list t) \<inter> infos t = {}"
    proof -
      have "si \<notin> infos t" if si: "si \<in> set (swap_tbl u p)" "sloc u si = l" for si
      proof
        assume "si \<in> infos t"
        then consider q where "si \<in> set (swap_tbl t q)" | b where "si \<in> set (bno_tbl t b)" by (auto simp: infos_def)
        then show False
        proof cases
          case 1
          then have "q \<noteq> p \<and> si \<in> set (swap_tbl u q)" using si(2) by (auto simp: tbl split: if_splits)
          then show False using swap_wf_in(3) [OF wf, of si q] swap_wf_in(3) [OF wf si(1)] by simp
        next
          case 2
          then show False using swap_wf_out(1) [OF wf, of si b] swap_wf_in(1) [OF wf si(1)] by (simp add: same)
        qed
      qed
      then show ?thesis using remap_free(2) [OF ok] sub by (auto simp: free(2))
    qed
    show "card (mappers D t q) \<le> unat (pp_ref t q)" for q
      using remap_refs [OF ok, of q] c1 rp by (cases "q = p") (auto simp: mt ref)
    show "PPN (pload t k) < npage t" if "k \<in> ulocs D t" "valid_pte (pload t k)" for k
      using remap_ppn [OF ok, of k] that by (auto simp: fr pl same split: if_splits)
  qed
  show "lview t k = (if k = l then None else lview u k)" if k: "k \<in> ulocs D u"
  proof (cases "k = l")
    case False
    have "pmem t (PPN (pload u k)) = pmem u (PPN (pload u k))" if "valid_pte (pload u k)"
      using swap_wf_mapped(1) [OF wf k that] frame by blast
    then show ?thesis using False by (auto simp: lview_def pl same Let_def)
  qed (simp add: lview_def pl Let_def)
qed

text \<open>Two addresses are in the same page if and only if they have the same indices.\<close>

lemma bit_0x3FF_int [simp]: "bit (0x3FF :: int) n \<longleftrightarrow> n < 10"
proof -
  have "(0x3FF :: int) = mask 10" by (simp add: mask_eq_exp_minus_1)
  then show ?thesis by (simp only: bit_mask_iff) auto
qed

lemma PTE_ADDR_indices: "PTE_ADDR va = PTE_ADDR va' \<longleftrightarrow> PDX va = PDX va' \<and> PTX va = PTX va'"
proof
  assume eq: "PTE_ADDR va = PTE_ADDR va'"
  have b: "bit va n = bit va' n" if "12 \<le> n" for n
    using arg_cong [OF eq, of "\<lambda>x. bit x n"] that by (simp add: bit_PTE_ADDR)
  have "drop_bit 22 va = drop_bit 22 va'" "drop_bit 12 va = drop_bit 12 va'"
    by (rule bit_word_eqI, simp add: bit_simps b)+
  then show "PDX va = PDX va' \<and> PTX va = PTX va'" by (simp add: PDX_def PTX_def)
next
  assume "PDX va = PDX va' \<and> PTX va = PTX va'"
  then have eq: "drop_bit 22 va AND 0x3FF = drop_bit 22 va' AND 0x3FF" "drop_bit 12 va AND 0x3FF = drop_bit 12 va' AND 0x3FF"
    by (simp_all add: PDX_def PTX_def word_unat_eq_iff)
  have hi: "bit va n = bit va' n" if "22 \<le> n" "n < 32" for n
    using arg_cong [OF eq(1), of "\<lambda>x. bit x (n - 22)"] that by (auto simp: bit_and_iff bit_drop_bit_eq)
  have lo: "bit va n = bit va' n" if "12 \<le> n" "n < 22" for n
    using arg_cong [OF eq(2), of "\<lambda>x. bit x (n - 12)"] that by (auto simp: bit_and_iff bit_drop_bit_eq)
  show "PTE_ADDR va = PTE_ADDR va'"
  proof (rule bit_word_eqI)
    fix n assume "n < LENGTH(32)"
    then show "bit (PTE_ADDR va) n = bit (PTE_ADDR va') n"
      using hi [of n] lo [of n] by (cases "n < 22") (auto simp: bit_PTE_ADDR)
  qed
qed

text \<open>The entry for an address belongs to no other address.\<close>

lemma uloc_eq:
  assumes ok: "remap_ok D A s" and d: "d \<in> D" "PDX va < NUPDE" "valid_pte (pmem s d (PDX va))"
    and d': "d' \<in> D" "PDX va' < NUPDE" "valid_pte (pmem s d' (PDX va'))"
  shows "uloc s d va = uloc s d' va' \<longleftrightarrow> d = d' \<and> PTE_ADDR va = PTE_ADDR va'"
proof
  assume eq: "uloc s d va = uloc s d' va'"
  have "(d, PDX va) \<in> slots D s" "(d', PDX va') \<in> slots D s" using d d' by (simp_all add: slots_def)
  moreover have "(\<lambda>(d, i). PPN (pmem s d i)) (d, PDX va) = (\<lambda>(d, i). PPN (pmem s d i)) (d', PDX va')"
    using eq by (simp add: uloc_def)
  ultimately have "(d, PDX va) = (d', PDX va')" by (intro inj_onD [OF remap_inj [OF ok]])
  then show "d = d' \<and> PTE_ADDR va = PTE_ADDR va'" using eq by (simp add: uloc_def PTE_ADDR_indices)
qed (auto simp: uloc_def PTE_ADDR_indices)

text \<open>\<^verbatim>\<open>swap_unregister\<close> finds the record of the mapping.\<close>

lemma find_record:
  assumes ok: "remap_ok D A s" and d: "d \<in> D" "PDX va < NUPDE" "valid_pte (pmem s d (PDX va))"
    and v: "valid_pte (pload s (uloc s d va))" and reg: "swap_tbl s (PPN (pload s (uloc s d va))) \<noteq> []"
  defines "l \<equiv> uloc s d va" and "p \<equiv> PPN (pload s (uloc s d va))"
  shows "\<exists>si. find (sinfo_match s d va (A d)) (swap_tbl s p) = Some si \<and> {sj \<in> set (swap_tbl s p). sloc s sj = l} = {si} \<and>
    remove1 si (swap_tbl s p) = filter (\<lambda>sj. sloc s sj \<noteq> l) (swap_tbl s p)"
proof -
  note wf = remap_wf [OF ok]
  have l: "l \<in> ulocs D s" unfolding l_def by (rule uloc_ulocs(1) [OF d])
  have "p \<in> set (page_swap_queue s)" using reg swap_wf_queue(2) [OF wf] by (simp add: p_def)
  then have "l \<in> sloc s ` set (swap_tbl s p)"
    using swap_wf_mapped(2) [OF wf l] v by (simp add: p_def l_def)
  then obtain si where si: "si \<in> set (swap_tbl s p)" "sloc s si = l" by auto
  have match: "sinfo_match s d va (A d) sj \<longleftrightarrow> sloc s sj = l" if sj: "sj \<in> set (swap_tbl s p)" for sj
  proof -
    have "info_ok D s sj" using swap_wf_info [OF wf info_of_tbl [OF sj]] .
    then have j: "si_pgdir (swapInfos s sj) \<in> D" "PDX (si_va (swapInfos s sj)) < NUPDE"
      "valid_pte (pmem s (si_pgdir (swapInfos s sj)) (PDX (si_va (swapInfos s sj))))"
      by (simp_all add: info_ok_def Let_def)
    show ?thesis
      using uloc_eq [OF ok j d] remap_asid [OF ok info_of_tbl [OF sj]]
      unfolding sinfo_match_def sloc_def l_def by auto
  qed
  have one: "sj = si" if "sj \<in> set (swap_tbl s p)" "sloc s sj = l" for sj
    using inj_onD [OF swap_wf_inj [OF wf] _ info_of_tbl [OF that(1)] info_of_tbl [OF si(1)]] that(2) si(2) by simp
  have "find (sinfo_match s d va (A d)) (swap_tbl s p) \<noteq> None"
    using match [OF si(1)] si by (auto simp: find_None_iff)
  then obtain sj where sj: "find (sinfo_match s d va (A d)) (swap_tbl s p) = Some sj" by auto
  then have "sj \<in> set (swap_tbl s p)" "sinfo_match s d va (A d) sj" by (auto simp: find_Some_iff)
  then have "sj = si" using match one by blast
  moreover have "remove1 si (swap_tbl s p) = filter (\<lambda>sj. sloc s sj \<noteq> l) (swap_tbl s p)"
  proof -
    have "remove1 si (swap_tbl s p) = filter (\<lambda>sj. si \<noteq> sj) (swap_tbl s p)"
      using swap_wf_distinct(1) [OF wf] by (simp add: distinct_remove1_removeAll removeAll_filter_not_eq)
    also have "\<dots> = filter (\<lambda>sj. sloc s sj \<noteq> l) (swap_tbl s p)"
      by (rule filter_cong [OF refl]) (use one si(2) in blast)
    finally show ?thesis .
  qed
  moreover have "{sj \<in> set (swap_tbl s p). sloc s sj = l} = {si}" using one si by blast
  ultimately show ?thesis using sj by blast
qed

text \<open>The state after the mapping \<open>l\<close> of \<open>p\<close> has been taken out.\<close>

lemma removed_state:
  assumes ok: "remap_ok D A s" and d: "d \<in> D" "PDX va < NUPDE" "valid_pte (pmem s d (PDX va))"
    and v: "valid_pte (pload s (uloc s d va))" and p: "p = PPN (pload s (uloc s d va))"
    and dec: "page_decref p s = Some u"
  defines "t \<equiv> tlb_invalidate (A d) va (mem_write (fst (uloc s d va)) (snd (uloc s d va)) 0 (swap_unregister p d va (A d) u))"
  shows "remap_ok D A t" "k \<in> ulocs D s \<Longrightarrow> lview t k = (if k = uloc s d va then None else lview s k)"
    "e \<in> D \<Longrightarrow> pmem t e = pmem s e" "npage t = npage s" "length (page_free_list s) \<le> length (page_free_list t)"
    "in_use D s q \<Longrightarrow> q \<noteq> p \<Longrightarrow> untouched D q s t"
proof -
  note wf = remap_wf [OF ok]
  define l where "l = uloc s d va"
  have l: "l \<in> ulocs D s" unfolding l_def by (rule uloc_ulocs(1) [OF d])
  have u: "u = s\<lparr>pp_ref := (pp_ref s)(p := pp_ref s p - 1),
      page_free_list := if pp_ref s p = 1 then p # page_free_list s else page_free_list s\<rparr>"
    using dec by (auto simp: page_decref_def page_free_def Let_def lst_insert_head_def elim!: bind_SomeE split: if_splits)
  have reg: "swap_tbl s p = [] \<and> swap_unregister p d va (A d) u = u \<or>
    (\<exists>si. find (sinfo_match s d va (A d)) (swap_tbl s p) = Some si \<and> {sj \<in> set (swap_tbl s p). sloc s sj = l} = {si} \<and>
      remove1 si (swap_tbl s p) = filter (\<lambda>sj. sloc s sj \<noteq> l) (swap_tbl s p))"
    using find_record [OF ok d v] unfolding p l_def by (cases "swap_tbl s p = []") (auto simp: swap_unregister_def u p)
  have uf: "sinfo_match u = sinfo_match s" "swap_tbl u = swap_tbl s" "swapInfo_free_list u = swapInfo_free_list s"
    "page_swap_queue u = page_swap_queue s"
    by (simp_all add: fun_eq_iff sinfo_match_def u)
  define t' where "t' = mem_write (fst l) (snd l) 0 (swap_unregister p d va (A d) u)"
  have t': "t = tlb_invalidate (A d) va t'" by (simp add: t_def t'_def l_def)
  have f: "pmem t' = (pmem s)(fst l := (pmem s (fst l))(snd l := 0))" "npage t' = npage s" "swapInfos t' = swapInfos s"
    "bno_tbl t' = bno_tbl s" "sd_bitmap t' = sd_bitmap s" "sdisk t' = sdisk s" "pp_ref t' = (pp_ref s)(p := pp_ref s p - 1)"
    by (auto simp: t'_def mem_write_def swap_unregister_def u Let_def split: option.splits)
  have tbl: "swap_tbl t' = (swap_tbl s)(p := filter (\<lambda>si. sloc s si \<noteq> l) (swap_tbl s p)) \<and>
      distinct (swapInfo_free_list t') \<and>
      set (swapInfo_free_list t') = set (swapInfo_free_list s) \<union> {si \<in> set (swap_tbl s p). sloc s si = l} \<and>
      page_swap_queue t' = (if swap_tbl t' p = [] then remove1 p (page_swap_queue s) else page_swap_queue s)"
    using reg
  proof (elim disjE conjE exE)
    assume none: "swap_tbl s p = []" and un: "swap_unregister p d va (A d) u = u"
    have "p \<notin> set (page_swap_queue s)" using none swap_wf_queue(2) [OF wf] by simp
    then have "remove1 p (page_swap_queue s) = page_swap_queue s" by (rule remove1_idem)
    moreover have "t' = mem_write (fst l) (snd l) 0 u" by (simp only: t'_def un)
    moreover have "swap_tbl s = (swap_tbl s)(p := [])" using none by (simp add: fun_upd_idem)
    ultimately show ?thesis using none remap_free(1) [OF ok] by (simp add: mem_write_def u)
  next
    fix si
    assume si: "find (sinfo_match s d va (A d)) (swap_tbl s p) = Some si" "{sj \<in> set (swap_tbl s p). sloc s sj = l} = {si}"
      "remove1 si (swap_tbl s p) = filter (\<lambda>sj. sloc s sj \<noteq> l) (swap_tbl s p)"
    then have ne: "swap_tbl s p \<noteq> []" by auto
    then have "p \<in> set (page_swap_queue s)" using swap_wf_queue(2) [OF wf] by simp
    then have un: "swap_unregister p d va (A d) u = u\<lparr>swap_tbl := (swap_tbl s)(p := remove1 si (swap_tbl s p)),
        swapInfo_free_list := si # swapInfo_free_list s,
        page_swap_queue := if remove1 si (swap_tbl s p) = [] then remove1 p (page_swap_queue s) else page_swap_queue s\<rparr>"
      using ne si(1) by (simp add: swap_unregister_def uf Let_def)
    have "si \<in> set (swap_tbl s p)" using si(2) by blast
    then have "si \<notin> set (swapInfo_free_list s)" using remap_free(2) [OF ok] info_of_tbl by blast
    moreover have "t' = mem_write (fst l) (snd l) 0 (u\<lparr>swap_tbl := (swap_tbl s)(p := remove1 si (swap_tbl s p)),
        swapInfo_free_list := si # swapInfo_free_list s,
        page_swap_queue := if remove1 si (swap_tbl s p) = [] then remove1 p (page_swap_queue s) else page_swap_queue s\<rparr>)"
      by (simp only: t'_def un)
    ultimately show ?thesis using remap_free(1) [OF ok] unfolding si(2) by (simp add: mem_write_def u si(3))
  qed
  have pages: "page_free_list t' = (if pp_ref t' p = 0 then p # page_free_list s else page_free_list s)"
    by (auto simp: t'_def mem_write_def swap_unregister_def u Let_def split: option.splits)
  note um = unmap_entry [OF ok l v [folded l_def] p [folded l_def, symmetric] f tbl [THEN conjunct1]
      tbl [THEN conjunct2, THEN conjunct1] tbl [THEN conjunct2, THEN conjunct2, THEN conjunct1]
      tbl [THEN conjunct2, THEN conjunct2, THEN conjunct2] pages]
  note tw = table_entry_write [OF wf l f(1)]
  show "remap_ok D A t" unfolding t' using um(1) by simp
  show "lview t k = (if k = uloc s d va then None else lview s k)" if "k \<in> ulocs D s"
  proof -
    have "lview t k = lview t' k" by (simp add: t' lview_def tlb_invalidate_def tlb_out_def pload_def Let_def)
    then show ?thesis using um(2) [OF that] by (simp add: l_def)
  qed
  show dir: "pmem t e = pmem s e" if "e \<in> D" for e using tw(1) [OF that] by (simp add: t')
  show "npage t = npage s" "length (page_free_list s) \<le> length (page_free_list t)" by (simp_all add: t' f pages)
  show "untouched D q s t" if q: "in_use D s q" "q \<noteq> p"
  proof -
    have "tables D t' = tables D s" using tw(1) by (rule dir_frame_tables)
    moreover have "pmem t' q = pmem s q" using q(1) by (intro tw(3)) (simp add: in_use_def)
    ultimately have "untouched D q s t'" using q tbl by (auto simp: untouched_def in_use_def f pages)
    then show ?thesis by (simp add: t')
  qed
qed

lemma lview_cleared:
  assumes ok: "remap_ok D A s" and d: "d \<in> D" "PDX va < NUPDE" "valid_pte (pmem s d (PDX va))"
    and dir: "\<And>e. e \<in> D \<Longrightarrow> pmem t e = pmem s e"
    and lv: "\<And>k. k \<in> ulocs D s \<Longrightarrow> lview t k = (if k = uloc s d va then None else lview s k)"
    and d': "d' \<in> D" "PDX va' < NUPDE"
  shows "uview t d' va' = (if d' = d \<and> PTE_ADDR va' = PTE_ADDR va then None else uview s d' va')"
proof (cases "valid_pte (pmem s d' (PDX va'))")
  case True
  have "uloc t d' va' = uloc s d' va'" using dir [OF d'(1)] by (simp add: uloc_def)
  then have "uview t d' va' = lview t (uloc s d' va')" using True dir [OF d'(1)] by (simp add: uview_def)
  also have "\<dots> = (if uloc s d' va' = uloc s d va then None else lview s (uloc s d' va'))"
    by (rule lv [OF uloc_ulocs(1) [OF d' True]])
  finally show ?thesis using uloc_eq [OF ok d' True d] True by (simp add: uview_def)
next
  case False
  then have "\<not> (d' = d \<and> PDX va' = PDX va)" using d(3) by auto
  then show ?thesis using False dir [OF d'(1)] by (auto simp: uview_def PTE_ADDR_indices)
qed

lemma swapped_in_other:
  assumes ok: "remap_ok D A s" and l: "l \<in> ulocs D s" and pte: "\<not> valid_pte (pload s l)" "swapped_pte (pload s l)"
    and run: "swap_back (pload s l) s = Some t" and p: "stays D s p"
  shows "PPN (pload t l) \<noteq> p"
proof -
  obtain q u where "page_alloc s = Some (0, q, u)" "PPN (pload t l) = q"
    using swap_back_steps(5) [OF remap_wf [OF ok] l pte run] by blast
  then show ?thesis using page_alloc_remap(2) [OF ok _ p] by blast
qed

text \<open>An address maps nothing but \<open>p\<close>, or something that is not \<open>p\<close>.\<close>

definition maps_other :: "kmem \<Rightarrow> nat \<Rightarrow> u32 \<Rightarrow> nat \<Rightarrow> bool" where
  "maps_other s d va p \<longleftrightarrow>
     (valid_pte (pmem s d (PDX va)) \<longrightarrow> valid_pte (pload s (uloc s d va)) \<longrightarrow> PPN (pload s (uloc s d va)) \<noteq> p)"

lemma swap_in_if_needed_other:
  assumes ok: "remap_ok D A s" and d: "d \<in> D" "PDX va < NUPDE" "valid_pte (pmem s d (PDX va))"
    and run: "swap_in_if_needed (Some (uloc s d va)) s = Some t" and p: "stays D s p" "maps_other s d va p"
  shows "maps_other t d va p"
proof -
  let ?l = "uloc s d va"
  have l: "?l \<in> ulocs D s" by (rule uloc_ulocs(1) [OF d])
  have dir: "pmem t d = pmem s d"
    using same_userD(1) [OF swap_in_if_needed_steps(2) [OF remap_wf [OF ok] l run] d(1)] .
  have "valid_pte (pload t ?l) \<Longrightarrow> PPN (pload t ?l) \<noteq> p"
  proof (cases "\<not> valid_pte (pload s ?l) \<and> swapped_pte (pload s ?l)")
    case True
    then have "swap_back (pload s ?l) s = Some t"
      using run by (cases ?l) (simp add: swap_in_if_needed_def and_PTE_V and_PTE_SWAPPED pload_def
          del: PTE_V_def PTE_SWAPPED_def)
    then show "PPN (pload t ?l) \<noteq> p" using swapped_in_other [OF ok l] True p(1) by blast
  next
    case False
    then have "t = s"
      using run by (cases ?l) (auto simp: swap_in_if_needed_def and_PTE_V and_PTE_SWAPPED pload_def
          simp del: PTE_V_def PTE_SWAPPED_def)
    then show "valid_pte (pload t ?l) \<Longrightarrow> PPN (pload t ?l) \<noteq> p" using p(2) d(3) by (simp add: maps_other_def)
  qed
  moreover have "uloc t d va = ?l" using dir by (simp add: uloc_def)
  ultimately show ?thesis unfolding maps_other_def by simp
qed

lemma page_remove_remap:
  assumes ok: "remap_ok D A s" and d: "d \<in> D" "PDX va < NUPDE" and run: "page_remove d (A d) va s = Some t"
  shows "remap_ok D A t" "e \<in> D \<Longrightarrow> pmem t e = pmem s e" "npage t = npage s"
    "d' \<in> D \<Longrightarrow> PDX va' < NUPDE \<Longrightarrow>
      uview t d' va' = (if d' = d \<and> PTE_ADDR va' = PTE_ADDR va then None else uview s d' va')"
    "length (page_free_list s) \<le> Suc (length (page_free_list t))"
    "stays D s p \<Longrightarrow> maps_other s d va p \<Longrightarrow> untouched D p s t"
    "valid_pte (pmem s d (PDX va)) \<Longrightarrow> valid_pte (pload s (uloc s d va)) \<Longrightarrow>
      length (page_free_list s) \<le> length (page_free_list t)"
proof -
  obtain pp pte u where lk: "page_lookup d va s = Some (pp, pte, u)"
    and rest: "(case (pp, pte) of
        (Some pp, Some (pt, x)) \<Rightarrow> do {
          s \<leftarrow> page_decref pp u;
          let s = swap_unregister pp d va (A d) s;
          let s = mem_write pt x 0 s;
          Some (tlb_invalidate (A d) va s) }
      | _ \<Rightarrow> Some u) = Some t"
    using run by (auto simp: page_remove_def elim!: bind_SomeE)
  note lr = page_lookup_remap [OF ok d lk]
  note ls = page_lookup_steps [OF remap_wf [OF ok] d lk]
  have user: "same_user D s u" using ls by blast
  have "remap_ok D A t \<and> (\<forall>e \<in> D. pmem t e = pmem s e) \<and> npage t = npage s \<and>
    (\<forall>d' \<in> D. \<forall>va'. PDX va' < NUPDE \<longrightarrow>
      uview t d' va' = (if d' = d \<and> PTE_ADDR va' = PTE_ADDR va then None else uview s d' va')) \<and>
    length (page_free_list s) \<le> Suc (length (page_free_list t)) \<and>
    (stays D s p \<longrightarrow> maps_other s d va p \<longrightarrow> untouched D p s t) \<and>
    (valid_pte (pmem s d (PDX va)) \<longrightarrow> valid_pte (pload s (uloc s d va)) \<longrightarrow>
      length (page_free_list s) \<le> length (page_free_list t))"
  proof (cases pp)
    case None
    then have t: "t = u" using rest by simp
    have none: "uview s d va = None" using ls None by simp
    have "uview u d' va' = (if d' = d \<and> PTE_ADDR va' = PTE_ADDR va then None else uview s d' va')"
      if d': "d' \<in> D" "PDX va' < NUPDE" for d' va'
    proof -
      have "uview s d' va' = None" if "d' = d" "PTE_ADDR va' = PTE_ADDR va"
        using none that by (auto simp: uview_def uloc_def PTE_ADDR_indices split: if_splits)
      then show ?thesis using same_userD(7) [OF user d'] by simp
    qed
    moreover have "\<not> (valid_pte (pmem s d (PDX va)) \<and> valid_pte (pload s (uloc s d va)))"
      using none by (auto simp: uview_def lview_def Let_def)
    ultimately show ?thesis using lr same_userD(1,2) [OF user] unfolding t by blast
  next
    case (Some q)
    then have q: "pte = Some (uloc u d va)" "valid_pte (pload u (uloc u d va))" "PPN (pload u (uloc u d va)) = q"
      using ls by simp_all
    have "uview s d va \<noteq> None" using ls Some by simp
    then have v: "valid_pte (pmem s d (PDX va))" by (auto simp: uview_def split: if_splits)
    then have vu: "valid_pte (pmem u d (PDX va))" using same_userD(1) [OF user d(1)] by simp
    obtain w where dec: "page_decref q u = Some w"
      and t: "t = tlb_invalidate (A d) va (mem_write (fst (uloc u d va)) (snd (uloc u d va)) 0 (swap_unregister q d va (A d) w))"
      using rest q(1) Some by (cases "uloc u d va") (auto simp: Let_def elim!: bind_SomeE)
    note rs = removed_state [OF lr(1) d vu q(2) q(3) [symmetric] dec, folded t]
    have "uview t d' va' = (if d' = d \<and> PTE_ADDR va' = PTE_ADDR va then None else uview s d' va')"
      if d': "d' \<in> D" "PDX va' < NUPDE" for d' va'
      using lview_cleared [OF lr(1) d vu rs(3) rs(2) d'] same_userD(7) [OF user d'] by simp
    moreover have "untouched D p s t" if p: "stays D s p" "maps_other s d va p"
    proof -
      have "maps_other u d va p"
        using page_lookup_cases [OF ok d lk] v Some swap_in_if_needed_other [OF ok d v _ p]
        by (fastforce simp: maps_other_def accessed_frame)
      then have "q \<noteq> p" using vu q(2,3) by (simp add: maps_other_def)
      then show ?thesis using lr(2) [OF p(1)] rs(6) untouchedD untouched_trans by blast
    qed
    moreover have "length (page_free_list s) \<le> length (page_free_list t)" if "valid_pte (pload s (uloc s d va))"
    proof -
      obtain w where w: "swap_in_if_needed (Some (uloc s d va)) s = Some w" "page_free_list u = page_free_list w"
        using page_lookup_cases [OF ok d lk] v by auto
      have "w = s" using swap_in_if_needed_steps(3) [OF remap_wf [OF ok] uloc_ulocs(1) [OF d v] w(1) that] .
      then show ?thesis using rs(5) w(2) by simp
    qed
    moreover have "pmem t e = pmem s e" if "e \<in> D" for e using rs(3) [OF that] same_userD(1) [OF user that] by simp
    moreover have "length (page_free_list s) \<le> Suc (length (page_free_list t))" using lr(3) rs(5) by linarith
    ultimately show ?thesis using rs(1,4) same_userD(2) [OF user] by simp
  qed
  then show "remap_ok D A t" "e \<in> D \<Longrightarrow> pmem t e = pmem s e" "npage t = npage s"
    "d' \<in> D \<Longrightarrow> PDX va' < NUPDE \<Longrightarrow>
      uview t d' va' = (if d' = d \<and> PTE_ADDR va' = PTE_ADDR va then None else uview s d' va')"
    "length (page_free_list s) \<le> Suc (length (page_free_list t))"
    "stays D s p \<Longrightarrow> maps_other s d va p \<Longrightarrow> untouched D p s t"
    "valid_pte (pmem s d (PDX va)) \<Longrightarrow> valid_pte (pload s (uloc s d va)) \<Longrightarrow>
      length (page_free_list s) \<le> length (page_free_list t)"
    by blast+
qed

section \<open>A new page table\<close>

definition table_pde :: "u32 \<Rightarrow> nat \<Rightarrow> u32" where
  "table_pde pde q = (PTE_FLAGS pde OR page2pa q) OR (PTE_C_CACHEABLE OR (PTE_V AND NOT PTE_SWAPPED))"

lemma table_pde:
  assumes "q < 2 ^ 20"
  shows "valid_pte (table_pde pde q)" "PPN (table_pde pde q) = q"
proof -
  have c: "PTE_C_CACHEABLE OR (PTE_V AND NOT PTE_SWAPPED) = 0x680" by simp
  have low: "\<not> bit (0x680 :: u32) n" if "12 \<le> n" for n
  proof -
    have "(0x680 :: u32) = take_bit 12 0x680" by simp
    then show ?thesis using that bit_take_bit_iff [of 12 "0x680 :: u32" n] by simp
  qed
  show "valid_pte (table_pde pde q)"
    unfolding table_pde_def c valid_pte_def by (simp add: bit_or_iff)
  have "PPN (table_pde pde q) = PPN (page2pa q)"
    unfolding table_pde_def c by (rule PPN_eqI) (use low in \<open>auto simp: bit_or_iff bit_PTE_FLAGS\<close>)
  then show "PPN (table_pde pde q) = q" using PPN_page2pa [OF assms] by simp
qed

lemma new_table:
  assumes ok: "remap_ok D A u" and d: "d \<in> D" "PDX va < NUPDE" "\<not> valid_pte (pmem u d (PDX va))"
    and q: "fresh_page D u q" "pmem u q = (\<lambda>_. 0)"
  defines "t \<equiv> mem_write d (PDX va) (table_pde (pmem u d (PDX va)) q) (u\<lparr>pp_ref := (pp_ref u)(q := pp_ref u q + 1)\<rparr>)"
  shows "remap_ok D A t" "d' \<in> D \<Longrightarrow> PDX va' < NUPDE \<Longrightarrow> uview t d' va' = uview u d' va'"
    "in_use D u p \<Longrightarrow> p \<noteq> q \<Longrightarrow> untouched D p u t" "valid_pte (pmem t d (PDX va))"
    "\<not> valid_pte (pload t (uloc t d va))" "\<not> swapped_pte (pload t (uloc t d va))" "PPN (pmem t d (PDX va)) < npage t"
proof -
  note wf = remap_wf [OF ok]
  have f: "npage t = npage u" "swapInfos t = swapInfos u" "bno_tbl t = bno_tbl u" "sd_bitmap t = sd_bitmap u" "sdisk t = sdisk u"
    "swap_tbl t = swap_tbl u" "swapInfo_free_list t = swapInfo_free_list u" "page_swap_queue t = page_swap_queue u"
    "page_free_list t = page_free_list u" "pp_ref t = (pp_ref u)(q := pp_ref u q + 1)"
    "pmem t = (pmem u)(d := (pmem u d)(PDX va := table_pde (pmem u d (PDX va)) q))"
    by (simp_all add: t_def mem_write_def)
  have qf: "q < npage u" "q \<notin> D" "q \<notin> tables D u" "q \<notin> set (page_swap_queue u)" "q \<notin> set (page_free_list u)" "pp_ref u q = 0"
    and unmapped: "\<And>l. l \<in> ulocs D u \<Longrightarrow> valid_pte (pload u l) \<Longrightarrow> PPN (pload u l) \<noteq> q"
    using q(1) by (auto simp: fresh_page_def)
  have "q < 2 ^ 20" using qf(1) swap_wf_npage [OF wf] by simp
  note pde = table_pde [OF this, of "pmem u d (PDX va)"]
  have new: "(d, PDX va) \<notin> slots D u" using d(3) by (simp add: slots_def)
  have entry: "pmem t e i = (if (e, i) = (d, PDX va) then table_pde (pmem u d (PDX va)) q else pmem u e i)" for e i
    by (simp add: f)
  have slots: "slots D t = insert (d, PDX va) (slots D u)"
    using d(1,2) pde(1) by (auto simp: slots_def entry split: if_splits)
  have tab: "tables D t = insert q (tables D u)"
  proof -
    have "(\<lambda>(d, i). PPN (pmem t d i)) ` slots D u = (\<lambda>(d, i). PPN (pmem u d i)) ` slots D u"
      by (rule image_cong [OF refl]) (use new entry in \<open>auto simp: split_def\<close>)
    then show ?thesis by (simp add: tables_slots slots entry pde(2))
  qed
  have ul: "ulocs D t = ulocs D u \<union> {(q, j) | j. j < 1024}" by (auto simp: ulocs_def tab)
  have notD: "fst l \<notin> D" if "l \<in> ulocs D u" for l using that swap_wf_tables(2) [OF wf] by (auto simp: ulocs_def)
  have pl: "pload t l = pload u l" if "l \<in> ulocs D u" for l
    using notD [OF that] d(1) by (auto simp: pload_def f)
  have plq: "pload t (q, j) = 0" for j using qf(2) d(1) q(2) by (auto simp: pload_def f)
  have val: "l \<in> ulocs D u" "pload t l = pload u l" if "l \<in> ulocs D t" "valid_pte (pload t l) \<or> swapped_pte (pload t l)" for l
  proof -
    show "l \<in> ulocs D u" using that plq by (auto simp: ul)
    then show "pload t l = pload u l" by (rule pl)
  qed
  have inf: "infos t = infos u" by (simp add: infos_def f)
  have sl: "sloc t si = sloc u si" if "si \<in> infos u" for si
  proof -
    have "valid_pte (pmem u (si_pgdir (swapInfos u si)) (PDX (si_va (swapInfos u si))))"
      using swap_wf_info [OF wf that] by (simp add: info_ok_def Let_def)
    then have "pmem t (si_pgdir (swapInfos u si)) (PDX (si_va (swapInfos u si))) =
        pmem u (si_pgdir (swapInfos u si)) (PDX (si_va (swapInfos u si)))"
      using d(3) by (auto simp: entry)
    then show ?thesis by (simp add: sloc_def uloc_def f)
  qed
  have psl: "pload t (sloc t si) = pload u (sloc u si)" if "si \<in> infos u" for si
    using sl [OF that] pl [OF sloc_table(2) [OF wf that]] by simp
  have img: "sloc t ` set (swap_tbl u p) = sloc u ` set (swap_tbl u p)" "sloc t ` set (bno_tbl u b) = sloc u ` set (bno_tbl u b)" for p b
    using sl info_of_tbl [of _ u p] info_of_bno [of _ u b] by (auto intro!: image_cong)
  have wft: "swap_wf D t"
  proof (rule swap_wfI)
    show "inj_on (sloc t) (infos t)" using swap_wf_inj [OF wf] by (simp add: inf sl inj_on_def)
    show "info_ok D t si" if si: "si \<in> infos t" for si
    proof -
      have "info_ok D u si" using swap_wf_info [OF wf] si by (simp add: inf)
      then show ?thesis using pde(1) by (auto simp: info_ok_def Let_def f)
    qed
    show "p < npage t \<and> unat (pp_ref t p) = length (swap_tbl t p)" if "p \<in> set (page_swap_queue t)" for p
      using that swap_wf_queue(3,4) [OF wf, of p] qf(4) by (auto simp: f)
    show "p < npage t \<and> pp_ref t p = 0" if "p \<in> set (page_free_list t)" for p
      using that swap_wf_free(2,3) [OF wf, of p] qf(5) by (auto simp: f)
    show "(D \<union> tables D t) \<inter> (set (page_swap_queue t) \<union> set (page_free_list t)) = {}"
      using swap_wf_tables(3,4) [OF wf] qf(4,5) by (auto simp: f(8,9) tab)
    show "valid_pte (pload t (sloc t si)) \<and> \<not> swapped_pte (pload t (sloc t si)) \<and> PPN (pload t (sloc t si)) = p"
      if "si \<in> set (swap_tbl t p)" for p si
      using that swap_wf_in [OF wf, of si p] psl [OF info_of_tbl, of si p] by (simp add: f)
    show "\<not> valid_pte (pload t (sloc t si)) \<and> swapped_pte (pload t (sloc t si)) \<and>
        PPN (pload t (sloc t si)) = b \<and> b < SD_NBLK \<and> bm_bit (sd_bitmap t) b"
      if "si \<in> set (bno_tbl t b)" for b si
      using that swap_wf_out [OF wf, of si b] psl [OF info_of_bno, of si b] by (simp add: f)
    show "PPN (pload t l) \<notin> D \<union> tables D t \<and> PPN (pload t l) \<notin> set (page_free_list t) \<and>
        (PPN (pload t l) \<in> set (page_swap_queue t) \<longrightarrow> l \<in> sloc t ` set (swap_tbl t (PPN (pload t l))))"
      if l: "l \<in> ulocs D t" "valid_pte (pload t l)" for l
      using swap_wf_mapped [OF wf val(1) [OF l(1)]] val(2) [OF l(1)] unmapped [OF val(1) [OF l(1)]] l(2)
      by (auto simp: tab f(6,8,9) img)
    show "l \<in> sloc t ` set (bno_tbl t (PPN (pload t l)))"
      if l: "l \<in> ulocs D t" "\<not> valid_pte (pload t l)" "swapped_pte (pload t l)" for l
      using swap_wf_swapped [OF wf val(1) [OF l(1)]] val(2) [OF l(1)] l(2,3) by (simp add: f(3) img)
  qed (use swap_wf_npage [OF wf] swap_wf_queue(1,2) [OF wf] swap_wf_free(1) [OF wf] swap_wf_distinct [OF wf]
      swap_wf_tables(1,2) [OF wf] qf(1,2) in \<open>auto simp: f(1-10) tab\<close>)
  have mt: "mappers D t p = mappers D u p" for p
  proof (intro set_eqI iffI)
    fix l assume "l \<in> mappers D t p"
    then show "l \<in> mappers D u p" using val [of l] by (simp add: mappers_def)
  next
    fix l assume "l \<in> mappers D u p"
    then show "l \<in> mappers D t p" using pl [of l] by (simp add: mappers_def ul)
  qed
  show "remap_ok D A t"
  proof (rule remap_okI [OF wft remap_dirs(1) [OF ok]])
    show "e < npage t" if "e \<in> D" for e using remap_dirs(2) [OF ok that] by (simp add: f)
    show "inj_on (\<lambda>(d, i). PPN (pmem t d i)) (slots D t)"
    proof -
      have "inj_on (\<lambda>(d, i). PPN (pmem t d i)) (slots D u) = inj_on (\<lambda>(d, i). PPN (pmem u d i)) (slots D u)"
        by (rule inj_on_cong) (use new entry in \<open>auto simp: split_def\<close>)
      moreover have "(\<lambda>(d, i). PPN (pmem t d i)) ` slots D u = tables D u"
        unfolding tables_slots by (rule image_cong [OF refl]) (use new entry in \<open>auto simp: split_def\<close>)
      moreover have "(\<lambda>(d, i). PPN (pmem t d i)) (d, PDX va) = q"
        by (simp only: split_conv entry) (simp add: pde(2))
      ultimately show ?thesis
        using remap_inj [OF ok] qf(3) new unfolding slots inj_on_insert by simp
    qed
    show "si_asid (swapInfos t si) = A (si_pgdir (swapInfos t si))" if "si \<in> infos t" for si
      using remap_asid [OF ok] that by (simp add: inf f)
    show "distinct (swapInfo_free_list t)" "set (swapInfo_free_list t) \<inter> infos t = {}"
      using remap_free [OF ok] by (auto simp: inf f)
    show "card (mappers D t p) \<le> unat (pp_ref t p)" for p
    proof (cases "p = q")
      case True
      then have "mappers D u p = {}" using unmapped by (auto simp: mappers_def)
      then have "mappers D t p = {}" by (simp only: mt)
      then show ?thesis by simp
    qed (use remap_refs [OF ok] in \<open>simp add: mt f\<close>)
    show "PPN (pload t l) < npage t" if "l \<in> ulocs D t" "valid_pte (pload t l)" for l
      using remap_ppn [OF ok] val [OF that(1)] that(2) by (simp add: f)
  qed
  show vt: "valid_pte (pmem t d (PDX va))" using pde(1) by (simp add: entry)
  have lq: "uloc t d va = (q, PTX va)" by (simp add: uloc_def entry pde(2))
  show "\<not> valid_pte (pload t (uloc t d va))" "\<not> swapped_pte (pload t (uloc t d va))" by (simp_all add: lq plq)
  show "PPN (pmem t d (PDX va)) < npage t" using qf(1) by (simp add: entry pde(2) f)
  show "uview t d' va' = uview u d' va'" if d': "d' \<in> D" "PDX va' < NUPDE"
  proof (cases "(d', PDX va') = (d, PDX va)")
    case True
    then have "uview u d' va' = None" using d(3) by (simp add: uview_def)
    moreover have "uloc t d' va' = (q, PTX va')" using True by (simp add: uloc_def entry pde(2))
    then have "lview t (uloc t d' va') = None" by (simp add: lview_def plq Let_def)
    ultimately show ?thesis by (simp add: uview_def)
  next
    case False
    then have e: "pmem t d' (PDX va') = pmem u d' (PDX va')" by (auto simp: entry)
    have "lview t (uloc u d' va') = lview u (uloc u d' va')" if v: "valid_pte (pmem u d' (PDX va'))"
    proof -
      have l: "uloc u d' va' \<in> ulocs D u" by (rule uloc_ulocs(1) [OF d' v])
      have "pmem t (PPN (pload u (uloc u d' va'))) = pmem u (PPN (pload u (uloc u d' va')))" if "valid_pte (pload u (uloc u d' va'))"
        using swap_wf_mapped(1) [OF wf l that] d(1) by (auto simp: f)
      then show ?thesis by (auto simp: lview_def pl [OF l] f(5) Let_def)
    qed
    then show ?thesis using e by (simp add: uview_def uloc_def)
  qed
  show "untouched D p u t" if p: "in_use D u p" "p \<noteq> q"
    using p d(1) by (auto simp: untouched_def in_use_def f tab)
qed

section \<open>A new mapping\<close>

lemma map_entry:
  assumes ok: "remap_ok D A u" and d: "d \<in> D" "PDX va < NUPDE" "valid_pte (pmem u d (PDX va))"
    and l: "l = uloc u d va" "\<not> valid_pte (pload u l)" "\<not> swapped_pte (pload u l)"
    and e: "valid_pte e" "\<not> swapped_pte e" "PPN e = p"
    and p: "in_use D u p" "unat (pp_ref u p) < 65535"
    and reg: "reg \<Longrightarrow> p \<in> set (page_swap_queue u) \<or> mappers D u p = {} \<and> pp_ref u p = 0"
      "reg \<Longrightarrow> swapInfo_free_list u = si # rest" "\<not> reg \<Longrightarrow> p \<notin> set (page_swap_queue u)"
    and pm: "pmem t = (pmem u)(fst l := (pmem u (fst l))(snd l := e))"
    and same: "npage t = npage u" "bno_tbl t = bno_tbl u" "sd_bitmap t = sd_bitmap u" "sdisk t = sdisk u"
      "page_free_list t = page_free_list u" "pp_ref t = (pp_ref u)(p := pp_ref u p + 1)"
    and tbl: "swap_tbl t = (if reg then (swap_tbl u)(p := si # swap_tbl u p) else swap_tbl u)"
    and inf: "swapInfos t = (if reg then (swapInfos u)(si := \<lparr>si_pgdir = d, si_asid = A d, si_va = PTE_ADDR va\<rparr>) else swapInfos u)"
    and free: "swapInfo_free_list t = (if reg then rest else swapInfo_free_list u)"
    and queue: "page_swap_queue t = (if reg \<and> swap_tbl u p = [] then page_swap_queue u @ [p] else page_swap_queue u)"
  shows "remap_ok D A t" "k \<in> ulocs D u \<Longrightarrow> lview t k = (if k = l then Some (perms e, pmem u p) else lview u k)"
    "pmem t p = pmem u p" "c \<in> D \<Longrightarrow> pmem t c = pmem u c"
proof -
  note wf = remap_wf [OF ok]
  have lu: "l \<in> ulocs D u" unfolding l(1) by (rule uloc_ulocs(1) [OF d])
  note dir = table_entry_write(1) [OF wf lu pm] and pl = table_entry_write(2) [OF wf lu pm]
    and frame = table_entry_write(3) [OF wf lu pm]
  have fr: "tables D t = tables D u" "ulocs D t = ulocs D u"
    by (rule dir_frame_tables [OF dir], assumption, rule dir_frame_ulocs [OF dir], assumption)
  have slots: "slots D t = slots D u" using dir by (auto simp: slots_def)
  have pu: "p < npage u" "p \<notin> D" "p \<notin> tables D u" "p \<notin> set (page_free_list u)" using p(1) by (auto simp: in_use_def)
  have si: "si \<notin> infos u" if reg using remap_free(2) [OF ok, of si] reg(2) [OF that] by simp
  have infos: "infos t = (if reg then insert si (infos u) else infos u)"
    by (auto simp: infos_def tbl same split: if_splits)
  have old: "swapInfos t sj = swapInfos u sj" if "sj \<in> infos u" for sj using si that by (auto simp: inf)
  have iok: "info_ok D t sj = info_ok D u sj" "sloc t sj = sloc u sj" if "sj \<in> infos u" for sj
  proof -
    have "info_ok D u sj" by (rule swap_wf_info [OF wf that])
    then show "info_ok D t sj = info_ok D u sj" "sloc t sj = sloc u sj"
      using dir old [OF that] by (auto simp: info_ok_def sloc_def uloc_def Let_def)
  qed
  have idx: "PDX (PTE_ADDR va) = PDX va" "PTX (PTE_ADDR va) = PTX va"
    using PTE_ADDR_indices [of "PTE_ADDR va" va] by simp_all
  have new: "sloc t si = l" "info_ok D t si" if reg
    using that d dir by (simp_all add: sloc_def uloc_def inf info_ok_def l(1) idx)
  have fresh: "sloc u sj \<noteq> l" if sj: "sj \<in> infos u" for sj
  proof -
    consider q where "sj \<in> set (swap_tbl u q)" | b where "sj \<in> set (bno_tbl u b)" using sj by (auto simp: infos_def)
    then show ?thesis using swap_wf_in(1) [OF wf] swap_wf_out(2) [OF wf] l(2,3) by cases metis+
  qed
  have psl: "pload t (sloc t sj) = pload u (sloc u sj)" if "sj \<in> infos u" for sj
    using fresh [OF that] iok(2) [OF that] by (simp add: pl)
  have ptl: "pload t l = e" by (simp add: pl)
  have tbl_in: "sj \<in> set (swap_tbl t q) \<longleftrightarrow> sj \<in> set (swap_tbl u q) \<or> reg \<and> q = p \<and> sj = si" for sj q
    by (auto simp: tbl)
  have img: "sloc u ` set (swap_tbl u q) \<subseteq> sloc t ` set (swap_tbl t q)" for q
  proof
    fix k assume "k \<in> sloc u ` set (swap_tbl u q)"
    then obtain sj where "sj \<in> set (swap_tbl u q)" "k = sloc u sj" by auto
    then show "k \<in> sloc t ` set (swap_tbl t q)"
      using iok(2) [OF info_of_tbl] by (intro image_eqI [of _ _ sj]) (simp_all add: tbl_in)
  qed
  have queue_in: "q \<in> set (page_swap_queue t) \<longleftrightarrow> swap_tbl t q \<noteq> []" for q
    using swap_wf_queue(2) [OF wf, of q] by (auto simp: queue tbl)
  have mt: "mappers D t q = (if q = p then insert l (mappers D u p) else mappers D u q)" for q
  proof (intro set_eqI)
    fix k
    show "k \<in> mappers D t q \<longleftrightarrow> k \<in> (if q = p then insert l (mappers D u p) else mappers D u q)"
      using lu e l(2) by (cases "k = l") (auto simp: mappers_def fr pl)
  qed
  have inc: "unat (pp_ref t p) = Suc (unat (pp_ref u p))" using p(2) by (simp add: same unat_word_ariths)
  have wft: "swap_wf D t"
  proof (rule swap_wfI)
    have "inj_on (sloc t) (infos u) = inj_on (sloc u) (infos u)" by (rule inj_on_cong) (rule iok(2))
    moreover have "sloc t ` infos u = sloc u ` infos u" by (rule image_cong [OF refl]) (rule iok(2))
    ultimately show "inj_on (sloc t) (infos t)"
      using swap_wf_inj [OF wf] fresh new si by (auto simp: infos)
    show "info_ok D t sj" if "sj \<in> infos t" for sj
      using that swap_wf_info [OF wf, of sj] iok(1) [of sj] new(2) by (auto simp: infos split: if_splits)
    show "q \<in> set (page_swap_queue t) \<longleftrightarrow> swap_tbl t q \<noteq> []" for q by (rule queue_in)
    show "distinct (page_swap_queue t)"
      using swap_wf_queue(1) [OF wf] swap_wf_queue(2) [OF wf, of p] by (simp add: queue)
    show "q < npage t \<and> unat (pp_ref t q) = length (swap_tbl t q)" if q: "q \<in> set (page_swap_queue t)" for q
    proof (cases "q = p")
      case True
      have r: reg using reg(3) q True by (cases reg) (simp_all add: queue)
      have "unat (pp_ref u p) = length (swap_tbl u p)"
        using reg(1) [OF r] swap_wf_queue(2,4) [OF wf, of p] by (cases "swap_tbl u p = []") auto
      then show ?thesis using True r inc pu(1) by (simp add: same tbl)
    next
      case False
      then have "q \<in> set (page_swap_queue u)" using q by (auto simp: queue split: if_splits)
      then show ?thesis using swap_wf_queue(3,4) [OF wf] False by (simp add: same tbl)
    qed
    show "q < npage t \<and> pp_ref t q = 0" if "q \<in> set (page_free_list t)" for q
      using that swap_wf_free(2,3) [OF wf, of q] pu(4) by (auto simp: same)
    show "distinct (swap_tbl t q)" for q
      using swap_wf_distinct(1) [OF wf] si info_of_tbl [of si u p] by (auto simp: tbl)
    show "(D \<union> tables D t) \<inter> (set (page_swap_queue t) \<union> set (page_free_list t)) = {}"
      using swap_wf_tables(3,4) [OF wf] pu by (auto simp: fr same queue split: if_splits)
    show "valid_pte (pload t (sloc t sj)) \<and> \<not> swapped_pte (pload t (sloc t sj)) \<and> PPN (pload t (sloc t sj)) = q"
      if "sj \<in> set (swap_tbl t q)" for q sj
      using that unfolding tbl_in
    proof
      assume s: "sj \<in> set (swap_tbl u q)"
      then show ?thesis using psl [OF info_of_tbl [OF s]] swap_wf_in [OF wf s] by simp
    next
      assume "reg \<and> q = p \<and> sj = si"
      then show ?thesis using new(1) ptl e by simp
    qed
    show "\<not> valid_pte (pload t (sloc t sj)) \<and> swapped_pte (pload t (sloc t sj)) \<and>
        PPN (pload t (sloc t sj)) = b \<and> b < SD_NBLK \<and> bm_bit (sd_bitmap t) b"
      if "sj \<in> set (bno_tbl t b)" for b sj
      using that psl [OF info_of_bno, of sj b] swap_wf_out [OF wf, of sj b] by (simp add: same)
    show "PPN (pload t k) \<notin> D \<union> tables D t \<and> PPN (pload t k) \<notin> set (page_free_list t) \<and>
        (PPN (pload t k) \<in> set (page_swap_queue t) \<longrightarrow> k \<in> sloc t ` set (swap_tbl t (PPN (pload t k))))"
      if k: "k \<in> ulocs D t" "valid_pte (pload t k)" for k
    proof (cases "k = l")
      case True
      have "l \<in> sloc t ` set (swap_tbl t p)" if q: "p \<in> set (page_swap_queue t)"
      proof -
        have reg using reg(3) q by (cases reg) (simp_all add: queue)
        then show ?thesis using new(1) by (intro image_eqI [of _ _ si]) (simp_all add: tbl_in)
      qed
      then show ?thesis using True pu by (simp add: ptl e(3) fr same)
    next
      case False
      then have ku: "k \<in> ulocs D u" "valid_pte (pload u k)" "pload t k = pload u k" using k by (auto simp: pl fr)
      have "PPN (pload u k) \<in> set (page_swap_queue u)" if q: "PPN (pload u k) \<in> set (page_swap_queue t)"
      proof (rule ccontr)
        assume n: "PPN (pload u k) \<notin> set (page_swap_queue u)"
        then have r: "reg" "PPN (pload u k) = p" using q by (auto simp: queue split: if_splits)
        then have "k \<in> mappers D u p" using ku by (simp add: mappers_def)
        then show False using reg(1) [OF r(1)] n r(2) by auto
      qed
      then show ?thesis using swap_wf_mapped [OF wf ku(1,2)] img by (auto simp: ku(3) fr same)
    qed
    show "k \<in> sloc t ` set (bno_tbl t (PPN (pload t k)))"
      if k: "k \<in> ulocs D t" "\<not> valid_pte (pload t k)" "swapped_pte (pload t k)" for k
    proof -
      have ku: "k \<in> ulocs D u" "\<not> valid_pte (pload u k)" "swapped_pte (pload u k)" "pload t k = pload u k"
        using k e(1) by (auto simp: pl fr split: if_splits)
      from swap_wf_swapped [OF wf ku(1-3)] obtain sj
        where "sj \<in> set (bno_tbl u (PPN (pload u k)))" "k = sloc u sj" by auto
      then show ?thesis unfolding ku(4) same using iok(2) [OF info_of_bno] by (intro image_eqI [of _ _ sj]) simp_all
    qed
  qed (use swap_wf_npage [OF wf] swap_wf_free(1) [OF wf] swap_wf_distinct(2,3) [OF wf]
      swap_wf_tables(1,2) [OF wf] in \<open>simp_all add: same fr\<close>)
  show "remap_ok D A t"
  proof (rule remap_okI [OF wft remap_dirs(1) [OF ok]])
    show "c < npage t" if "c \<in> D" for c using remap_dirs(2) [OF ok that] by (simp add: same)
    have "inj_on (\<lambda>(d, i). PPN (pmem t d i)) (slots D t) = inj_on (\<lambda>(d, i). PPN (pmem u d i)) (slots D u)"
      unfolding slots by (rule inj_on_cong) (auto simp: slots_def dir)
    then show "inj_on (\<lambda>(d, i). PPN (pmem t d i)) (slots D t)" using remap_inj [OF ok] by simp
    show "si_asid (swapInfos t sj) = A (si_pgdir (swapInfos t sj))" if s: "sj \<in> infos t" for sj
    proof (cases "sj \<in> infos u")
      case True
      then show ?thesis using remap_asid [OF ok] old by simp
    next
      case False
      then show ?thesis using s by (auto simp: infos inf split: if_splits)
    qed
    show "distinct (swapInfo_free_list t)" "set (swapInfo_free_list t) \<inter> infos t = {}"
      using remap_free [OF ok] reg(2) by (auto simp: infos free split: if_splits)
    show "card (mappers D t q) \<le> unat (pp_ref t q)" for q
    proof (cases "q = p")
      case True
      have "card (insert l (mappers D u p)) \<le> Suc (card (mappers D u p))" by (rule card_insert_le_m1) simp_all
      then show ?thesis using True inc remap_refs [OF ok, of p] by (simp add: mt)
    qed (use remap_refs [OF ok] in \<open>simp add: mt same\<close>)
    show "PPN (pload t k) < npage t" if "k \<in> ulocs D t" "valid_pte (pload t k)" for k
      using remap_ppn [OF ok, of k] that pu(1) e(3) by (auto simp: fr pl same split: if_splits)
  qed
  show pmp: "pmem t p = pmem u p" by (rule frame [OF pu(3)])
  show "pmem t c = pmem u c" if "c \<in> D" by (rule dir [OF that])
  show "lview t k = (if k = l then Some (perms e, pmem u p) else lview u k)" if k: "k \<in> ulocs D u"
  proof (cases "k = l")
    case True
    then show ?thesis using e pmp by (simp add: lview_def ptl Let_def)
  next
    case False
    have "pmem t (PPN (pload u k)) = pmem u (PPN (pload u k))" if "valid_pte (pload u k)"
      using swap_wf_mapped(1) [OF wf k that] frame by blast
    then show ?thesis using False by (auto simp: lview_def pl same Let_def)
  qed
qed

end
