(* ===== verification/Boot.thy ===== *)
theory Boot
  imports Remap Transparency
begin

text \<open>
  The memory manager at boot: what \<^verbatim>\<open>mips_vm_init\<close> and \<^verbatim>\<open>page_init\<close> leave behind is the invariant of \<open>Remap\<close>,
  with no directory in use.
\<close>

section \<open>The boot-time allocator\<close>

lemma unat32: "unat (x :: u32) < 2 ^ 32"
  by (rule order.strict_trans2 [OF unsigned_less]) simp

lemma round_wraps:
  assumes "\<not> unat a + 4095 < 2 ^ 32"
  shows "ROUND a PAGE_SIZE = 0"
proof -
  have "unat (a + 4095) < 4096" using assms unat32 [of a] by (simp add: unat_word_ariths le_mod_geq)
  then have "unat (drop_bit 12 (a + 4095)) = 0" by (simp only: unat_drop_bit_eq) (simp add: drop_bit_eq_div)
  then have z: "drop_bit 12 (a + 4095) = 0" by (simp only: unat_eq_0)
  have "ROUND a PAGE_SIZE = (a + 4095) AND NOT (mask 12)" by (simp add: ROUND_def mask_eq_exp_minus_1 algebra_simps)
  also have "\<dots> = push_bit 12 (drop_bit 12 (a + 4095))" by (rule bit_word_eqI) (auto simp: bit_simps)
  finally show ?thesis by (simp add: z)
qed

lemma round_page:
  assumes "unat a + 4095 < 2 ^ 32"
  shows "unat (ROUND a PAGE_SIZE) = (unat a + 4095) div 4096 * 4096"
proof -
  have u: "unat (a + 4095) = unat a + 4095" using assms by (simp add: unat_word_ariths)
  have "ROUND a PAGE_SIZE = (a + 4095) AND NOT (mask 12)" by (simp add: ROUND_def mask_eq_exp_minus_1 algebra_simps)
  also have "\<dots> = push_bit 12 (drop_bit 12 (a + 4095))" by (rule bit_word_eqI) (auto simp: bit_simps)
  finally have "unat (ROUND a PAGE_SIZE) = unat (push_bit 12 (drop_bit 12 (a + 4095)))" by simp
  also have "\<dots> = (unat a + 4095) div 4096 * 4096"
  proof -
    have "(unat a + 4095) div 4096 * 4096 < 2 ^ 32" using assms times_div_less_eq_dividend [of 4096 "unat a + 4095"] by (simp only: mult.commute)
    moreover have "unat (drop_bit 12 (a + 4095)) = (unat a + 4095) div 4096"
      by (simp only: unat_drop_bit_eq u) (simp add: drop_bit_eq_div)
    ultimately show ?thesis by (simp add: push_bit_eq_mult unat_word_ariths)
  qed
  finally show ?thesis .
qed

lemma round_up_bounds: "(x :: nat) \<le> (x + 4095) div 4096 * 4096" "(x + 4095) div 4096 * 4096 < x + 4096"
proof -
  have "(x + 4095) div 4096 * 4096 = x + 4095 - (x + 4095) mod 4096" by (rule minus_mod_eq_div_mult [symmetric])
  moreover have "(x + 4095) mod 4096 < 4096" by simp
  ultimately show "x \<le> (x + 4095) div 4096 * 4096" "(x + 4095) div 4096 * 4096 < x + 4096" by linarith+
qed

section \<open>The two loops of page_init\<close>

lemma mark_used_run:
  assumes "unat pa = 4096 * i" "unat limit = 4096 * k" "i \<le> k" "k \<le> npage s"
  shows "mark_used pa limit s = Some (s\<lparr>pp_ref := (\<lambda>p. if i \<le> p \<and> p < k then 1 else pp_ref s p)\<rparr>)"
  using assms
proof (induction "k - i" arbitrary: i pa s)
  case 0
  then have "\<not> pa < limit" "i = k" by (simp_all add: word_less_nat_alt)
  moreover from this(2) have "(\<lambda>p. if i \<le> p \<and> p < k then 1 else pp_ref s p) = pp_ref s" by (intro ext) auto
  ultimately show ?case by (subst mark_used.simps) simp
next
  case (Suc n)
  then have lt: "pa < limit" "i < k" by (simp_all add: word_less_nat_alt)
  have "unat limit < 2 ^ 32" by (rule unat32)
  then have succ: "unat (pa + PAGE_SIZE) = 4096 * Suc i" using Suc.prems(1,2) lt(2) by (simp add: unat_word_ariths)
  have "PPN pa = i" using Suc.prems(1) by (simp only: PPN_def PGSHIFT_def unat_drop_bit_eq) (simp add: drop_bit_eq_div)
  then have page: "pa2page (npage s) pa = Some i" using Suc.prems(4) lt(2) by (simp add: pa2page_def)
  let ?s = "s\<lparr>pp_ref := (pp_ref s)(i := 1)\<rparr>"
  have "mark_used (pa + PAGE_SIZE) limit ?s =
      Some (?s\<lparr>pp_ref := (\<lambda>p. if Suc i \<le> p \<and> p < k then 1 else pp_ref ?s p)\<rparr>)"
    using Suc.hyps(2) Suc.prems lt by (intro Suc.hyps(1) succ) auto
  moreover have "(\<lambda>p. if Suc i \<le> p \<and> p < k then 1 else pp_ref ?s p) = (\<lambda>p. if i \<le> p \<and> p < k then 1 else pp_ref s p)"
    using lt(2) by (intro ext) auto
  ultimately have "mark_used (pa + PAGE_SIZE) limit ?s = Some (s\<lparr>pp_ref := (\<lambda>p. if i \<le> p \<and> p < k then 1 else pp_ref s p)\<rparr>)"
    by (simp only:) simp
  then show ?case using lt(1) by (subst mark_used.simps) (simp add: page del: fun_upd_apply PAGE_SIZE_def)
qed

lemma mark_free_run:
  assumes "unat pa = 4096 * i" "unat (memsize s) = 4096 * npage s" "i \<le> npage s" "\<forall>p \<in> set (page_free_list s). p < i"
  shows "mark_free pa s = Some (s\<lparr>pp_ref := (\<lambda>p. if i \<le> p \<and> p < npage s then 0 else pp_ref s p),
    page_free_list := rev [i..<npage s] @ page_free_list s\<rparr>)"
  using assms
proof (induction "npage s - i" arbitrary: i pa s)
  case 0
  then have "\<not> pa < memsize s" "i = npage s" by (simp_all add: word_less_nat_alt)
  moreover from this(2) have "(\<lambda>p. if i \<le> p \<and> p < npage s then 0 else pp_ref s p) = pp_ref s" by (intro ext) auto
  ultimately show ?case by (subst mark_free.simps) simp
next
  case (Suc n)
  then have lt: "pa < memsize s" "i < npage s" by (simp_all add: word_less_nat_alt)
  have "unat (memsize s) < 2 ^ 32" by (rule unat32)
  then have succ: "unat (pa + PAGE_SIZE) = 4096 * Suc i" using Suc.prems(1,2) lt(2) by (simp add: unat_word_ariths)
  have "PPN pa = i" using Suc.prems(1) by (simp only: PPN_def PGSHIFT_def unat_drop_bit_eq) (simp add: drop_bit_eq_div)
  then have page: "pa2page (npage s) pa = Some i" using lt(2) by (simp add: pa2page_def)
  let ?s = "s\<lparr>pp_ref := (pp_ref s)(i := 0), page_free_list := i # page_free_list s\<rparr>"
  have "mark_free (pa + PAGE_SIZE) ?s = Some (?s\<lparr>pp_ref := (\<lambda>p. if Suc i \<le> p \<and> p < npage ?s then 0 else pp_ref ?s p),
      page_free_list := rev [Suc i..<npage ?s] @ page_free_list ?s\<rparr>)"
    using Suc.hyps(2) Suc.prems lt by (intro Suc.hyps(1) succ) auto
  moreover have "(\<lambda>p. if Suc i \<le> p \<and> p < npage ?s then 0 else pp_ref ?s p) =
      (\<lambda>p. if i \<le> p \<and> p < npage s then 0 else pp_ref s p)"
    using lt(2) by (intro ext) auto
  moreover have "rev [Suc i..<npage ?s] @ page_free_list ?s = rev [i..<npage s] @ page_free_list s"
    using lt(2) by (simp add: upt_conv_Cons)
  ultimately have "mark_free (pa + PAGE_SIZE) ?s = Some (s\<lparr>pp_ref := (\<lambda>p. if i \<le> p \<and> p < npage s then 0 else pp_ref s p),
      page_free_list := rev [i..<npage s] @ page_free_list s\<rparr>)"
    by (simp only:) simp
  moreover have "i \<notin> set (page_free_list s)" using Suc.prems(4) by auto
  ultimately show ?case
    using lt(1) by (subst mark_free.simps) (simp add: page lst_insert_head_def del: fun_upd_apply PAGE_SIZE_def)
qed

section \<open>The state after boot\<close>

lemma alloc_result:
  assumes "alloc end_kva n PAGE_SIZE c s = Some (a, t)"
  shows "memsize t = memsize s" "npage t = npage s" "ULIM \<le> freemem t" "freemem t - ULIM < memsize t"
    "sd_bitmap t = sd_bitmap s" "page_swap_queue t = page_swap_queue s" "swap_tbl t = swap_tbl s" "bno_tbl t = bno_tbl s"
  using assms
  by (auto simp: alloc_def PADDR_def kmem_clear_def Let_def simp del: ULIM_def PAGE_SIZE_def elim!: bind_SomeE split: if_splits)

lemma info_list:
  "foldl (\<lambda>s i. s\<lparr>swapInfo_free_list := i # swapInfo_free_list s\<rparr>) s xs = s\<lparr>swapInfo_free_list := rev xs @ swapInfo_free_list s\<rparr>"
  by (induction xs arbitrary: s) simp_all

lemma swap_init_result:
  assumes "swap_init end_kva s = Some t"
  shows "memsize t = memsize s" "npage t = npage s" "ULIM \<le> freemem t" "freemem t - ULIM < memsize t"
    "page_swap_queue t = []" "swap_tbl t = (\<lambda>_. [])" "bno_tbl t = (\<lambda>_. [])" "swapInfo_free_list t = rev [0..<MAX_SWAPINFO]"
    "b < SD_NBLK \<Longrightarrow> \<not> bm_bit (sd_bitmap t) b"
proof -
  obtain a1 s1 a2 s2 where a: "alloc end_kva (npage s * sizeof_SwapTableEntry) PAGE_SIZE True
      ((sd_bitmap_init s)\<lparr>page_swap_queue := []\<rparr>) = Some (a1, s1)"
    "alloc end_kva (SD_NBLK * sizeof_SwapTableEntry) PAGE_SIZE True (s1\<lparr>swap_tbl := (\<lambda>_. [])\<rparr>) = Some (a2, s2)"
    and t: "t = s2\<lparr>bno_tbl := (\<lambda>_. []), swapInfo_free_list := rev [0..<MAX_SWAPINFO]\<rparr>"
    using assms unfolding swap_init_def info_list Let_def
    by (auto simp: sd_bitmap_init_def simp del: PAGE_SIZE_def MAX_SWAPINFO_def sizeof_SwapTableEntry_def SD_NBLK_def elim!: bind_SomeE)
  note r1 = alloc_result [OF a(1)] and r2 = alloc_result [OF a(2)]
  show "memsize t = memsize s" "npage t = npage s" "ULIM \<le> freemem t" "freemem t - ULIM < memsize t"
    "page_swap_queue t = []" "swap_tbl t = (\<lambda>_. [])" "bno_tbl t = (\<lambda>_. [])" "swapInfo_free_list t = rev [0..<MAX_SWAPINFO]"
    using r1 r2 by (simp_all add: t sd_bitmap_init_def del: ULIM_def MAX_SWAPINFO_def)
  show "\<not> bm_bit (sd_bitmap t) b" if "b < SD_NBLK"
  proof -
    have "b div 32 < 65" using that by (intro less_mult_imp_div_less) simp
    then show ?thesis using r1(5) r2(5) by (simp add: t sd_bitmap_init_def bm_bit_def)
  qed
qed

lemma no_dirs: "tables {} s = {}" "ulocs {} s = {}" "mappers {} s p = {}" "slots {} s = {}"
  by (auto simp: tables_def ulocs_def mappers_def slots_def)

lemma boot_ok:
  assumes "npage t \<le> 2 ^ 20" "page_swap_queue t = []" "swap_tbl t = (\<lambda>_. [])" "bno_tbl t = (\<lambda>_. [])"
    and "distinct (swapInfo_free_list t)" "distinct (page_free_list t)"
    and "\<And>p. p \<in> set (page_free_list t) \<Longrightarrow> p < npage t \<and> pp_ref t p = 0"
  shows "remap_ok {} A t"
proof -
  have inf: "infos t = {}" by (simp add: infos_def assms(3,4))
  have "swap_wf {} t" by (rule swap_wfI) (use assms(1) in \<open>simp_all add: assms(2-) no_dirs inf\<close>)
  then show ?thesis by (intro remap_okI) (simp_all add: assms(5) inf no_dirs)
qed

lemma boot_limit:
  assumes size: "unat (memsize s) = 4096 * npage s" and u: "swap_init end_kva s = Some u" and wrap: "unat (freemem u) + 4095 < 2 ^ 32"
  shows "\<exists>limit k. PADDR (ROUND (freemem u) PAGE_SIZE) = Some limit \<and> unat limit = 4096 * k \<and> k \<le> npage s \<and>
    unat (ROUND (freemem u) PAGE_SIZE) = 2 ^ 31 + 4096 * k"
proof -
  note r = swap_init_result [OF u] and rp = round_page [OF wrap]
  let ?x = "unat (freemem u)" and ?y = "(unat (freemem u) + 4095) div 4096 * 4096"
  have high: "2 ^ 31 \<le> ?x" using r(3) by (simp add: word_le_nat_alt)
  have "unat (freemem u - ULIM) = ?x - 2 ^ 31" using r(3) by (simp add: unat_sub)
  then have fit: "?x < 2 ^ 31 + 4096 * npage s" using r(1,2,4) size high by (simp add: word_less_nat_alt)
  obtain z where z: "?x = 2 ^ 31 + z" using high le_Suc_ex by blast
  define k where "k = (z + 4095) div 4096"
  have "(z + 4095 + 2 ^ 19 * 4096) div 4096 = 2 ^ 19 + k" unfolding k_def by (rule div_mult_self1) simp
  moreover have "?x + 4095 = z + 4095 + 2 ^ 19 * 4096" by (simp add: z)
  ultimately have k: "?y = 2 ^ 31 + 4096 * k" by (simp add: algebra_simps)
  have "4096 * k < z + 4096" "z < 4096 * npage s" using round_up_bounds(2) [of z] fit by (simp_all add: k_def z mult.commute)
  then have le: "k \<le> npage s" by linarith
  have "\<not> ROUND (freemem u) PAGE_SIZE < ULIM" using rp k by (simp add: word_less_nat_alt)
  then have "PADDR (ROUND (freemem u) PAGE_SIZE) = Some (ROUND (freemem u) PAGE_SIZE - ULIM)"
    "unat (ROUND (freemem u) PAGE_SIZE - ULIM) = 4096 * k"
    using rp k by (simp_all add: PADDR_def unat_sub)
  then show ?thesis using le rp k by (metis (no_types))
qed

lemma boot_pages:
  assumes size: "unat (memsize s) = 4096 * npage s" and u: "swap_init end_kva s = Some u"
    and wrap: "unat (freemem u) + 4095 < 2 ^ 32"
  shows "\<exists>t. page_init end_kva s = Some t \<and> (\<exists>k \<le> npage s. unat (freemem t) = 2 ^ 31 + 4096 * k \<and>
    page_free_list t = rev [k..<npage s] \<and> (\<forall>p < npage s. pp_ref t p = (if p < k then 1 else 0))) \<and>
    npage t = npage s \<and> page_swap_queue t = [] \<and>
    swap_tbl t = (\<lambda>_. []) \<and> bno_tbl t = (\<lambda>_. []) \<and> swapInfo_free_list t = rev [0..<MAX_SWAPINFO] \<and>
    (\<forall>b < SD_NBLK. \<not> bm_bit (sd_bitmap t) b)"
proof -
  note r = swap_init_result [OF u]
  obtain limit k where limit: "PADDR (ROUND (freemem u) PAGE_SIZE) = Some limit" "unat limit = 4096 * k" "k \<le> npage s"
    "unat (ROUND (freemem u) PAGE_SIZE) = 2 ^ 31 + 4096 * k"
    using boot_limit [OF size u wrap] by blast
  let ?s = "u\<lparr>page_free_list := [], freemem := ROUND (freemem u) PAGE_SIZE\<rparr>"
  let ?v = "?s\<lparr>pp_ref := (\<lambda>p. if p < k then 1 else pp_ref ?s p)\<rparr>"
  have used: "mark_used 0 limit ?s = Some ?v" using mark_used_run [of 0 0 limit k ?s] limit r(2) by simp
  have free: "mark_free limit ?v = Some (?v\<lparr>pp_ref := (\<lambda>p. if k \<le> p \<and> p < npage ?v then 0 else pp_ref ?v p),
      page_free_list := rev [k..<npage ?v] @ page_free_list ?v\<rparr>)"
    using limit r(1,2) size by (intro mark_free_run) simp_all
  have "page_init end_kva s = Some (?v\<lparr>pp_ref := (\<lambda>p. if k \<le> p \<and> p < npage ?v then 0 else pp_ref ?v p),
      page_free_list := rev [k..<npage ?v] @ page_free_list ?v\<rparr>)"
    using u limit(1) used free by (simp add: page_init_def Let_def del: PAGE_SIZE_def)
  then show ?thesis
    using limit r by (auto simp del: MAX_SWAPINFO_def PAGE_SIZE_def intro!: exI [of _ k])
qed

lemma page_init_parts:
  assumes "page_init end_kva s = Some t"
  shows "\<exists>u. swap_init end_kva s = Some u \<and> unat (freemem u) + 4095 < 2 ^ 32"
proof -
  obtain u limit where u: "swap_init end_kva s = Some u" and limit: "PADDR (ROUND (freemem u) PAGE_SIZE) = Some limit"
    using assms by (auto simp: page_init_def Let_def simp del: PAGE_SIZE_def elim!: bind_SomeE)
  have "unat (freemem u) + 4095 < 2 ^ 32"
  proof (rule ccontr)
    assume "\<not> unat (freemem u) + 4095 < 2 ^ 32"
    then have "ROUND (freemem u) PAGE_SIZE = 0" by (rule round_wraps)
    then show False using limit by (simp add: PADDR_def)
  qed
  then show ?thesis using u by blast
qed

text \<open>The allocator returns as long as there is room.\<close>

lemma alloc_total:
  assumes "freemem s \<noteq> 0 \<and> freemem s = f \<or> freemem s = 0 \<and> end_kva = f"
    and "ULIM \<le> f" "unat f + 4095 + n < 2 ^ 31 + unat (memsize s)" "unat (memsize s) \<le> 2 ^ 31"
  shows "\<exists>a t. alloc end_kva n PAGE_SIZE c s = Some (a, t) \<and> freemem t \<noteq> 0 \<and> unat (freemem t) \<le> unat f + 4095 + n"
proof -
  have small: "unat f + 4095 + n < 2 ^ 32" using assms(3,4) by simp
  then have r: "unat (ROUND f PAGE_SIZE) = (unat f + 4095) div 4096 * 4096" by (intro round_page) simp
  note rb = round_up_bounds [of "unat f"]
  have n: "unat (word_of_nat n :: u32) = n" using small by (simp add: unat_of_nat)
  define e where "e = ROUND f PAGE_SIZE + word_of_nat n"
  have e: "unat e = unat (ROUND f PAGE_SIZE) + n" unfolding e_def using small rb r n by (simp add: unat_word_ariths)
  have lo: "2 ^ 31 \<le> unat f" using assms(2) by (simp add: word_le_nat_alt)
  then have ge: "2 ^ 31 \<le> unat e" using e r rb by linarith
  have le: "unat e \<le> unat f + 4095 + n" using e r rb by linarith
  from ge have ul: "\<not> e < ULIM" by (simp add: word_less_nat_alt)
  then have "unat (e - ULIM) = unat e - 2 ^ 31" by (simp add: unat_sub)
  then have "unat (e - ULIM) < unat (memsize s)" using le ge assms(3) by simp
  then have "\<not> memsize s \<le> e - ULIM" by (simp add: word_le_nat_alt)
  moreover have "e \<noteq> 0" using ul by auto
  moreover note le
  moreover have "(if freemem s = 0 then s\<lparr>freemem := end_kva\<rparr> else s) = s\<lparr>freemem := f\<rparr>" using assms(1) by auto
  ultimately show ?thesis
    using ul by (cases c) (simp_all add: alloc_def PADDR_def kmem_clear_def Let_def e_def [symmetric] del: ULIM_def PAGE_SIZE_def)
qed

lemma boot_size:
  assumes "4096 dvd unat msize" "mips_vm_init end_kva (mips_detect_memory msize s) = Some u"
  shows "npage u = unat msize div 4096" "unat (memsize u) = 4096 * npage u" "memsize u = msize"
proof -
  have N: "unat (drop_bit PGSHIFT msize) = unat msize div 4096"
    by (simp only: PGSHIFT_def unat_drop_bit_eq) (simp add: drop_bit_eq_div)
  have u: "npage u = unat (drop_bit PGSHIFT msize)" "memsize u = msize"
    using assms(2) alloc_result(1,2)
    by (auto simp: mips_vm_init_def mips_detect_memory_def simp del: PGSHIFT_def PAGE_SIZE_def elim!: bind_SomeE)
  then show "npage u = unat msize div 4096" "memsize u = msize" using N by simp_all
  then show "unat (memsize u) = 4096 * npage u" using assms(1) by simp
qed

lemma boot_runs:
  assumes size: "4096 dvd unat msize" "unat msize < 2 ^ 31" and start: "freemem s = 0" "ULIM \<le> end_kva"
    and room: "unat end_kva + 24 * (unat msize div 4096) + 20477 < 2 ^ 31 + unat msize"
  shows "\<exists>u t. mips_vm_init end_kva (mips_detect_memory msize s) = Some u \<and> page_init end_kva u = Some t"
proof -
  define N where "N = unat msize div 4096"
  have N: "unat (drop_bit PGSHIFT msize) = N"
    by (simp only: PGSHIFT_def unat_drop_bit_eq N_def) (simp add: drop_bit_eq_div)
  let ?s = "mips_detect_memory msize s"
  have s: "npage ?s = N" "memsize ?s = msize" "freemem ?s = 0" using N start by (simp_all add: mips_detect_memory_def)
  obtain a1 t1 where t1: "alloc end_kva (npage ?s * sizeof_Page) PAGE_SIZE True ?s = Some (a1, t1)" "freemem t1 \<noteq> 0"
    "unat (freemem t1) \<le> unat end_kva + 4095 + N * 20"
    using alloc_total [of ?s end_kva end_kva "npage ?s * sizeof_Page" True] s start(2) room size(2) by (auto simp: N_def)
  note r1 = alloc_result [OF t1(1)]
  define u where "u = t1\<lparr>pages_kva := a1\<rparr>"
  have u: "mips_vm_init end_kva ?s = Some u" using t1(1) by (simp add: mips_vm_init_def u_def)
  let ?u = "(sd_bitmap_init u)\<lparr>page_swap_queue := []\<rparr>"
  have u': "npage ?u = N" "memsize ?u = msize" "freemem ?u = freemem t1"
    using r1 s by (simp_all add: u_def sd_bitmap_init_def)
  obtain a2 t2 where t2: "alloc end_kva (npage u * sizeof_SwapTableEntry) PAGE_SIZE True ?u = Some (a2, t2)" "freemem t2 \<noteq> 0"
    "unat (freemem t2) \<le> unat (freemem t1) + 4095 + N * 4"
    using alloc_total [of ?u "freemem t1" end_kva "npage u * sizeof_SwapTableEntry" True] u' t1(2,3) r1(3) room size(2) s r1(2)
    by (auto simp: N_def u_def)
  note r2 = alloc_result [OF t2(1)]
  let ?v = "t2\<lparr>swap_tbl := (\<lambda>_. [])\<rparr>"
  obtain a3 t3 where t3: "alloc end_kva (SD_NBLK * sizeof_SwapTableEntry) PAGE_SIZE True ?v = Some (a3, t3)" "freemem t3 \<noteq> 0"
    "unat (freemem t3) \<le> unat (freemem t2) + 4095 + 8192"
    using alloc_total [of ?v "freemem t2" end_kva "SD_NBLK * sizeof_SwapTableEntry" True] u' t1(3) t2(2,3) r2(1-3) room size(2)
    by (auto simp: N_def)
  define w where "w = t3\<lparr>bno_tbl := (\<lambda>_. []), swapInfo_free_list := rev [0..<MAX_SWAPINFO]\<rparr>"
  have np: "npage (sd_bitmap_init u) = npage u" by (simp add: sd_bitmap_init_def)
  have w: "swap_init end_kva u = Some w"
    using t2(1) t3(1) by (simp add: swap_init_def info_list Let_def np w_def del: PAGE_SIZE_def MAX_SWAPINFO_def sizeof_SwapTableEntry_def SD_NBLK_def)
  have "unat (freemem w) + 4095 < 2 ^ 32"
  proof -
    have "unat (freemem w) < 2 ^ 31 + unat msize" using t1(3) t2(3) t3(3) room by (simp add: w_def N_def)
    moreover have "unat msize + 4096 \<le> 2 ^ 31" using size by (auto elim!: dvdE)
    ultimately show ?thesis by simp
  qed
  from boot_pages [OF boot_size(2) [OF size(1) u] w this] show ?thesis using u by blast
qed

section \<open>The property\<close>

text \<open>
  C8. Booting establishes the invariant. When the boot code returns on a memory of whole pages, the memory manager is
  consistent, with no process yet; the pages from some page on are free, the highest first, all pages below it hold the
  kernel and its tables and are in use, and every block of the swap disk is free. It does return
  when the kernel's image and the tables, 24 bytes for each page and 8 KB, fit with their alignment into the memory.
\<close>

theorem boot_consistent:
  assumes "4096 dvd unat msize"
  shows "(\<forall>u t. mips_vm_init end_kva (mips_detect_memory msize s) = Some u \<and> page_init end_kva u = Some t \<longrightarrow>
      remap_ok {} A t \<and> npage t = unat msize div 4096 \<and> (\<forall>b < SD_NBLK. \<not> bm_bit (sd_bitmap t) b) \<and>
      (\<exists>k \<le> npage t. unat (freemem t) = 2 ^ 31 + 4096 * k \<and> page_free_list t = rev [k..<npage t] \<and>
         (\<forall>p < npage t. pp_ref t p = (if p < k then 1 else 0)))) \<and>
    (unat msize < 2 ^ 31 \<and> freemem s = 0 \<and> ULIM \<le> end_kva \<and>
      unat end_kva + 24 * (unat msize div 4096) + 20477 < 2 ^ 31 + unat msize \<longrightarrow>
      (\<exists>u t. mips_vm_init end_kva (mips_detect_memory msize s) = Some u \<and> page_init end_kva u = Some t))"
proof (intro conjI impI)
  show "\<forall>u t. mips_vm_init end_kva (mips_detect_memory msize s) = Some u \<and> page_init end_kva u = Some t \<longrightarrow>
      remap_ok {} A t \<and> npage t = unat msize div 4096 \<and> (\<forall>b < SD_NBLK. \<not> bm_bit (sd_bitmap t) b) \<and>
      (\<exists>k \<le> npage t. unat (freemem t) = 2 ^ 31 + 4096 * k \<and> page_free_list t = rev [k..<npage t] \<and>
         (\<forall>p < npage t. pp_ref t p = (if p < k then 1 else 0)))"
  proof (intro allI impI)
    fix u t assume run: "mips_vm_init end_kva (mips_detect_memory msize s) = Some u \<and> page_init end_kva u = Some t"
    then have "mips_vm_init end_kva (mips_detect_memory msize s) = Some u" by blast
    note size = boot_size [OF assms this]
    obtain w where "swap_init end_kva u = Some w" "unat (freemem w) + 4095 < 2 ^ 32" using page_init_parts run by blast
    from boot_pages [OF size(2) this] run obtain k where k: "k \<le> npage u" "unat (freemem t) = 2 ^ 31 + 4096 * k"
      "page_free_list t = rev [k..<npage u]" "\<forall>p < npage u. pp_ref t p = (if p < k then 1 else 0)" "npage t = npage u"
      "page_swap_queue t = []" "swap_tbl t = (\<lambda>_. [])" "bno_tbl t = (\<lambda>_. [])" "swapInfo_free_list t = rev [0..<MAX_SWAPINFO]"
      "\<forall>b < SD_NBLK. \<not> bm_bit (sd_bitmap t) b" by auto
    have "npage u < 2 ^ 20" using unat32 [of msize] size(2,3) by simp
    then have "remap_ok {} A t" using k by (intro boot_ok) (simp_all del: MAX_SWAPINFO_def)
    then show "remap_ok {} A t \<and> npage t = unat msize div 4096 \<and> (\<forall>b < SD_NBLK. \<not> bm_bit (sd_bitmap t) b) \<and>
      (\<exists>k \<le> npage t. unat (freemem t) = 2 ^ 31 + 4096 * k \<and> page_free_list t = rev [k..<npage t] \<and>
         (\<forall>p < npage t. pp_ref t p = (if p < k then 1 else 0)))"
      using k size(1) by auto
  qed
qed (use boot_runs [OF assms] in blast)

text \<open>A machine with 64 MB, and a kernel image that ends after 1 MB.\<close>

theorem boot_consistent_witness:
  "\<exists>u t k. mips_vm_init 0x80100000 (mips_detect_memory 0x4000000 (ex_vm\<lparr>freemem := 0\<rparr>)) = Some u \<and> page_init 0x80100000 u = Some t \<and>
    remap_ok {} (\<lambda>_. 0) t \<and> npage t = 0x4000 \<and> k \<le> 0x4000 \<and> page_free_list t = rev [k..<0x4000]"
proof -
  have dvd: "4096 dvd unat (0x4000000 :: u32)" by simp
  note boot = boot_consistent [OF dvd, of "0x80100000" "ex_vm\<lparr>freemem := 0\<rparr>" "\<lambda>_. 0"]
  then obtain u t where run: "mips_vm_init 0x80100000 (mips_detect_memory 0x4000000 (ex_vm\<lparr>freemem := 0\<rparr>)) = Some u"
    "page_init 0x80100000 u = Some t" by auto
  then have "remap_ok {} (\<lambda>_. 0) t" "npage t = 0x4000" "\<exists>k \<le> npage t. page_free_list t = rev [k..<npage t]"
    using boot by auto
  then show ?thesis using run by metis
qed

end
