(* ===== verification/MapPage.thy ===== *)
theory MapPage
  imports Remap
begin

text \<open>
  \<^verbatim>\<open>page_insert\<close>, with the registration that follows it: mapping a page keeps the invariant \<open>remap_ok\<close>,
  shows the page at its address and changes no other view. The page must not be evicted on the way, by
  the allocations of \<^verbatim>\<open>page_insert\<close> itself: it is not swappable yet, or two pages are free.
\<close>

section \<open>Making room\<close>

text \<open>Nothing is seen at \<open>va\<close>, and everything else is seen as before.\<close>

definition blanked :: "nat set \<Rightarrow> nat \<Rightarrow> u32 \<Rightarrow> kmem \<Rightarrow> kmem \<Rightarrow> bool" where
  "blanked D d va s t \<longleftrightarrow>
     (\<forall>d' \<in> D. \<forall>va'. PDX va' < NUPDE \<longrightarrow>
       uview t d' va' = (if d' = d \<and> PTE_ADDR va' = PTE_ADDR va then None else uview s d' va'))"

lemma uview_page: "PTE_ADDR va' = PTE_ADDR va \<Longrightarrow> uview s d va' = uview s d va"
  by (simp add: uview_def uloc_def PTE_ADDR_indices)

lemma blanked_none:
  assumes "same_user D s t" "uview s d va = None"
  shows "blanked D d va s t"
  unfolding blanked_def using same_userD(7) [OF assms(1)] uview_page [of _ va s d] assms(2) by auto

definition room :: "nat set \<Rightarrow> kmem \<Rightarrow> nat \<Rightarrow> bool" where
  "room D s p \<longleftrightarrow> in_use D s p \<and> (p \<notin> set (page_swap_queue s) \<or> 2 \<le> length (page_free_list s))"

lemma room_stays: "room D s p \<Longrightarrow> stays D s p"
  by (auto simp: room_def stays_def)

lemma stays_next:
  assumes "room D s p" "swap_wf D s" "swap_wf D t" "untouched D p s t"
    and "length (page_free_list s) \<le> Suc (length (page_free_list t))"
  shows "stays D t p"
  using assms untouched_queue [OF assms(2-4)] untouchedD [OF assms(4)]
  by (auto simp: room_def stays_def)

text \<open>The first half of \<^verbatim>\<open>page_insert\<close>.\<close>

lemma insert_clear:
  assumes ok: "remap_ok D A s" and d: "d \<in> D" "PDX va < NUPDE" and p: "room D s p" "maps_other s d va p"
    and walk: "pgdir_walk d va False s = Some (r0, pte, s0)" and swp: "swap_in_if_needed pte s0 = Some s1"
    and run: "(case pte of
          None \<Rightarrow> Some (False, s1)
        | Some (pt, x) \<Rightarrow>
            if pmem s1 pt x AND PTE_V = 0 then Some (False, s1)
            else do {
              old \<leftarrow> pa2page (npage s1) (pmem s1 pt x);
              if old \<noteq> p then do { s \<leftarrow> page_remove d (A d) va s1; Some (False, s) }
              else Some (True, mem_write pt x (new_pte p perm) (tlb_invalidate (A d) va s1)) }) = Some (dn, t)"
  shows "\<not> dn" "remap_ok D A t" "blanked D d va s t" "untouched D p s t" "stays D t p"
    "\<And>e. e \<in> D \<Longrightarrow> pmem t e = pmem s e" "npage t = npage s"
proof -
  note wf = remap_wf [OF ok]
  have "\<not> dn \<and> remap_ok D A t \<and> blanked D d va s t \<and> untouched D p s t \<and> stays D t p \<and>
    (\<forall>e \<in> D. pmem t e = pmem s e) \<and> npage t = npage s"
  proof (cases "valid_pte (pmem s d (PDX va))")
    case False
    then have t: "pte = None" "s0 = s" "s1 = s" "dn = False" "t = s"
      using walk swp run by (auto simp: pgdir_walk_none swap_in_if_needed_def)
    have "uview s d va = None" using False by (simp add: uview_def)
    then have "blanked D d va s s" by (rule blanked_none [OF same_user_refl])
    moreover have "untouched D p s s" using p(1) by (intro untouched_refl) (simp add: room_def)
    ultimately show ?thesis using t ok room_stays [OF p(1)] by simp
  next
    case v: True
    define l where "l = uloc s d va"
    have l: "l \<in> ulocs D s" and "PPN (pmem s d (PDX va)) \<in> tables D s"
      using uloc_ulocs [OF d v] by (auto simp: l_def)
    then have "PPN (pmem s d (PDX va)) < npage s" using swap_wf_tables(1) [OF wf] by blast
    then have w: "pte = Some l" "s0 = s" using walk pgdir_walk_table [OF v, of False] by (auto simp: l_def)
    have swp': "swap_in_if_needed (Some l) s = Some s1" using swp w by simp
    note st = swap_in_if_needed_steps [OF wf l swp']
    note sr = swap_in_if_needed_remap [OF ok l swp']
    have un1: "untouched D p s s1" by (rule sr(2) [OF room_stays [OF p(1)]])
    have stays1: "stays D s1 p" by (rule stays_next [OF p(1) wf st(1) un1 sr(3)])
    have dir1: "pmem s1 e = pmem s e" if "e \<in> D" for e using same_userD(1) [OF st(2) that] .
    have l1: "uloc s1 d va = l" and v1: "valid_pte (pmem s1 d (PDX va))" using dir1 [OF d(1)] v by (simp_all add: uloc_def l_def)
    have other: "maps_other s1 d va p"
      using swap_in_if_needed_other [OF ok d v swp' [unfolded l_def] room_stays [OF p(1)] p(2)] .
    obtain a b where ab: "l = (a, b)" by (cases l)
    have run': "(if \<not> valid_pte (pmem s1 a b) then Some (False, s1)
      else do { old \<leftarrow> pa2page (npage s1) (pmem s1 a b);
        if old \<noteq> p then do { s \<leftarrow> page_remove d (A d) va s1; Some (False, s) }
        else Some (True, mem_write a b (new_pte p perm) (tlb_invalidate (A d) va s1)) }) = Some (dn, t)"
      using run by (simp add: w(1) ab and_PTE_V del: PTE_V_def split del: if_split)
    have at: "pmem s1 a b = pload s1 l" by (simp add: pload_def ab)
    note run' = run' [unfolded at]
    show ?thesis
    proof (cases "valid_pte (pload s1 l)")
      case False
      then have t: "dn = False" "t = s1" using run' by simp_all
      have "\<not> valid_pte (pload s l) \<and> \<not> swapped_pte (pload s l)" using False st(4) by simp
      then have "uview s d va = None" by (simp add: uview_table [OF v] lview_None flip: l_def)
      then show ?thesis using blanked_none [OF st(2)] t sr(1) un1 stays1 dir1 same_userD(2) [OF st(2)] by blast
    next
      case True
      then have ne: "PPN (pload s1 l) \<noteq> p" using other v1 by (simp add: maps_other_def l1)
      then obtain s2 where rm: "page_remove d (A d) va s1 = Some s2" and t: "dn = False" "t = s2"
        using run' True by (auto simp: pa2page_def split: if_splits elim!: bind_SomeE)
      note pr = page_remove_remap [OF sr(1) d rm]
      have un2: "untouched D p s1 s2" by (rule pr(6) [OF stays1 other])
      have "length (page_free_list s1) \<le> length (page_free_list s2)"
        using pr(7) [OF v1] True by (simp add: l1)
      then have "stays D s2 p"
        using stays1 untouched_queue [OF st(1) remap_wf [OF pr(1)] un2] untouchedD [OF un2] by (auto simp: stays_def)
      moreover have "blanked D d va s s2"
        unfolding blanked_def using pr(4) same_userD(7) [OF st(2)] by simp
      ultimately show ?thesis
        using t pr(1-3) dir1 same_userD(2) [OF st(2)] untouched_trans [OF un1 un2] by simp
    qed
  qed
  then show "\<not> dn" "remap_ok D A t" "blanked D d va s t" "untouched D p s t" "stays D t p"
    "\<And>e. e \<in> D \<Longrightarrow> pmem t e = pmem s e" "npage t = npage s" by blast+
qed

text \<open>The walk that makes a page table when there is none.\<close>

lemma walk_create:
  assumes ok: "remap_ok D A s" and d: "d \<in> D" "PDX va < NUPDE" and p: "stays D s p" and none: "uview s d va = None"
    and run: "pgdir_walk d va True s = Some (r, pte, t)"
  shows "r = 0" "remap_ok D A t" "pte = Some (uloc t d va)" "valid_pte (pmem t d (PDX va))" "untouched D p s t"
    "\<not> valid_pte (pload t (uloc t d va))" "\<not> swapped_pte (pload t (uloc t d va))"
    "\<And>d' va'. d' \<in> D \<Longrightarrow> PDX va' < NUPDE \<Longrightarrow> uview t d' va' = uview s d' va'"
proof -
  note wf = remap_wf [OF ok]
  have "r = 0 \<and> remap_ok D A t \<and> pte = Some (uloc t d va) \<and> valid_pte (pmem t d (PDX va)) \<and> untouched D p s t \<and>
    \<not> valid_pte (pload t (uloc t d va)) \<and> \<not> swapped_pte (pload t (uloc t d va)) \<and>
    (\<forall>d' \<in> D. \<forall>va'. PDX va' < NUPDE \<longrightarrow> uview t d' va' = uview s d' va')"
  proof (cases "valid_pte (pmem s d (PDX va))")
    case True
    have "PPN (pmem s d (PDX va)) < npage s"
      using uloc_ulocs(2) [OF d True] swap_wf_tables(1) [OF wf] by blast
    then have t: "r = 0" "pte = Some (uloc s d va)" "t = s" using run pgdir_walk_table [OF True, of True] by auto
    have "lview s (uloc s d va) = None" using none by (simp add: uview_table [OF True])
    then show ?thesis using t ok True p by (simp add: lview_None stays_def untouched_refl)
  next
    case False
    obtain r1 q u where al: "page_alloc s = Some (r1, q, u)"
      using run False by (auto simp: pgdir_walk_def and_PTE_V simp del: PTE_V_def elim!: bind_SomeE)
    note pa = page_alloc_steps [OF wf al] and ar = page_alloc_remap [OF ok al]
    have al0: "page_alloc s = Some (0, q, u)" using al pa(1) by simp
    have du: "pmem u d = pmem s d" by (rule keptD(1) [OF pa(3) d(1)])
    then have nv: "\<not> valid_pte (pmem u d (PDX va))" using False by simp
    define w where "w = mem_write d (PDX va) (table_pde (pmem u d (PDX va)) q) (u\<lparr>pp_ref := (pp_ref u)(q := pp_ref u q + 1)\<rparr>)"
    note nt = new_table [OF ar(1) d nv pa(4,5), folded w_def]
    have "pgdir_walk d va True s = (if PPN (pmem w d (PDX va)) < npage w then Some (0, Some (uloc w d va), w) else None)"
      using False by (simp add: pgdir_walk_def and_PTE_V al0 Let_def KADDR_def uloc_def w_def table_pde_def
          del: PTE_V_def PTE_SWAPPED_def PTE_C_CACHEABLE_def)
    then have t: "r = 0" "pte = Some (uloc w d va)" "t = w" using run nt(7) by simp_all
    have "untouched D p s w"
      using ar(2) [OF p] nt(3) untouchedD untouched_trans by blast
    moreover have "uview w d' va' = uview s d' va'" if "d' \<in> D" "PDX va' < NUPDE" for d' va'
      using nt(2) [OF that] keptD(8) [OF pa(3) that] by simp
    ultimately show ?thesis using t nt(1,4,5,6) by simp
  qed
  then show "r = 0" "remap_ok D A t" "pte = Some (uloc t d va)" "valid_pte (pmem t d (PDX va))" "untouched D p s t"
    "\<not> valid_pte (pload t (uloc t d va))" "\<not> swapped_pte (pload t (uloc t d va))"
    "\<And>d' va'. d' \<in> D \<Longrightarrow> PDX va' < NUPDE \<Longrightarrow> uview t d' va' = uview s d' va'" by blast+
qed

section \<open>Mapping and registering\<close>

lemma bit_PTE_C_CACHEABLE: "bit PTE_C_CACHEABLE n \<longleftrightarrow> n = 9 \<or> n = 10"
proof -
  have eq: "PTE_C_CACHEABLE = push_bit 9 1 OR push_bit 10 1" by simp
  show ?thesis unfolding eq by (auto simp: bit_simps simp del: push_bit_of_1)
qed

lemma new_pte:
  assumes "p < 2 ^ 20" "PTE_FLAGS perm = perm"
  shows "valid_pte (new_pte p perm)" "\<not> swapped_pte (new_pte p perm)" "PPN (new_pte p perm) = p"
    "perms (new_pte p perm) = perms perm OR PTE_C_CACHEABLE"
proof -
  have perm: "bit perm n \<Longrightarrow> n < 12" for n
    using arg_cong [OF assms(2), of "\<lambda>x. bit x n"] by (auto simp: bit_PTE_FLAGS)
  note c = bit_PTE_C_CACHEABLE
  have bits: "bit (new_pte p perm) n \<longleftrightarrow> bit (page2pa p) n \<or> bit perm n \<and> n \<noteq> 3 \<or> n = 9 \<or> n = 10 \<or> n = 7" for n
    using perm [of n] unfolding new_pte_def bit_or_iff bit_and_iff bit_not_iff c bit_PTE_V bit_PTE_SWAPPED by auto
  show "valid_pte (new_pte p perm)" "\<not> swapped_pte (new_pte p perm)"
    by (auto simp: valid_pte_def swapped_pte_def bits bit_page2pa)
  have "PPN (new_pte p perm) = PPN (page2pa p)" by (rule PPN_eqI) (auto simp: bits dest: perm)
  then show "PPN (new_pte p perm) = p" using PPN_page2pa [OF assms(1)] by simp
  show "perms (new_pte p perm) = perms perm OR PTE_C_CACHEABLE"
    by (rule bit_word_eqI) (auto simp: bit_perms bits bit_or_iff bit_page2pa c simp del: PTE_C_CACHEABLE_def)
qed

lemma insert_run:
  assumes ok: "remap_ok D A s" and d: "d \<in> D" "PDX va < NUPDE" and p: "room D s p" "maps_other s d va p"
    and run: "page_insert d (A d) p va perm s = Some (r, t)"
  shows "\<exists>u. r = 0 \<and> remap_ok D A u \<and> untouched D p s u \<and> blanked D d va s u \<and> valid_pte (pmem u d (PDX va)) \<and>
    \<not> valid_pte (pload u (uloc u d va)) \<and> \<not> swapped_pte (pload u (uloc u d va)) \<and>
    t = mem_write (fst (uloc u d va)) (snd (uloc u d va)) (new_pte p perm) u
      \<lparr>pp_ref := (pp_ref u)(p := pp_ref u p + 1), accessed := (accessed u)(p := 1)\<rparr>"
proof -
  obtain r0 pte s0 s1 dn s2 where walk: "pgdir_walk d va False s = Some (r0, pte, s0)"
    and swp: "swap_in_if_needed pte s0 = Some s1"
    and clear: "(case pte of
          None \<Rightarrow> Some (False, s1)
        | Some (pt, x) \<Rightarrow>
            if pmem s1 pt x AND PTE_V = 0 then Some (False, s1)
            else do {
              old \<leftarrow> pa2page (npage s1) (pmem s1 pt x);
              if old \<noteq> p then do { s \<leftarrow> page_remove d (A d) va s1; Some (False, s) }
              else Some (True, mem_write pt x (new_pte p perm) (tlb_invalidate (A d) va s1)) }) = Some (dn, s2)"
    and rest: "(if dn then Some (0, s2)
     else do {
       let s = tlb_invalidate (A d) va s2;
       (r, pte, s) \<leftarrow> pgdir_walk d va True s;
       if r = - E_NO_MEM then Some (- E_NO_MEM, s)
       else
         (case pte of
            None \<Rightarrow> None
          | Some (pt, x) \<Rightarrow> do {
              let s = mem_write pt x (new_pte p perm) s;
              let s = s\<lparr>pp_ref := (pp_ref s)(p := pp_ref s p + 1)\<rparr>;
              let s = s\<lparr>accessed := (accessed s)(p := 1)\<rparr>;
              Some (0, s) }) }) = Some (r, t)"
    using run unfolding page_insert_def 

    apply (elim bind_SomeE)
    apply (simp only: split_paired_all split_conv)
    apply (elim bind_SomeE)
    apply (simp only: split_paired_all split_conv)
    done
  note ic = insert_clear [OF ok d p walk swp clear]
  let ?s = "tlb_invalidate (A d) va s2"
  obtain r1 pte1 u where walk1: "pgdir_walk d va True ?s = Some (r1, pte1, u)"
    and rest1: "(if r1 = - E_NO_MEM then Some (- E_NO_MEM, u)
       else
         (case pte1 of
            None \<Rightarrow> None
          | Some (pt, x) \<Rightarrow> do {
              let s = mem_write pt x (new_pte p perm) u;
              let s = s\<lparr>pp_ref := (pp_ref s)(p := pp_ref s p + 1)\<rparr>;
              let s = s\<lparr>accessed := (accessed s)(p := 1)\<rparr>;
              Some (0, s) })) = Some (r, t)"
    using rest ic(1) by (auto simp only: if_False Let_def split_paired_all split_conv elim!: bind_SomeE)
  have none: "uview ?s d va = None" using ic(3) d by (simp add: blanked_def)
  have stays: "stays D ?s p" using ic(5) by (simp add: stays_def in_use_def tlb_invalidate_def tlb_out_def tables_def)
  have ok2: "remap_ok D A ?s" using ic(2) by simp
  note wc = walk_create [OF ok2 d stays none walk1]
  have "untouched D p s u" using ic(4) wc(5) untouched_trans [of D p s ?s u] by simp
  moreover have "blanked D d va s u" using ic(3) wc(8) by (simp add: blanked_def)
  moreover have "r = 0 \<and> t = mem_write (fst (uloc u d va)) (snd (uloc u d va)) (new_pte p perm) u
      \<lparr>pp_ref := (pp_ref u)(p := pp_ref u p + 1), accessed := (accessed u)(p := 1)\<rparr>"
    using rest1 unfolding wc(1,3) by (auto simp: uloc_def mem_write_def)
  ultimately show ?thesis using wc(2,4,6,7) by blast
qed

text \<open>What is seen after \<open>p\<close> has been mapped at \<open>va\<close> with \<open>perm\<close>.\<close>

definition shows_at :: "nat set \<Rightarrow> nat \<Rightarrow> u32 \<Rightarrow> (u32 \<times> (nat \<Rightarrow> u32)) \<Rightarrow> kmem \<Rightarrow> kmem \<Rightarrow> bool" where
  "shows_at D d va v s t \<longleftrightarrow>
     (\<forall>d' \<in> D. \<forall>va'. PDX va' < NUPDE \<longrightarrow>
       uview t d' va' = (if d' = d \<and> PTE_ADDR va' = PTE_ADDR va then Some v else uview s d' va'))"

lemma map_page:
  assumes ok: "remap_ok D A s" and d: "d \<in> D" "PDX va < NUPDE" and p: "room D s p" "maps_other s d va p"
    and perm: "PTE_FLAGS perm = perm" and ref: "unat (pp_ref s p) < 65535"
    and run: "page_insert d (A d) p va perm s = Some (r, t)"
    and reg: "if reg then swap_register p d va (A d) t = Some v \<and> (p \<in> set (page_swap_queue s) \<or> pp_ref s p = 0)
      else v = t \<and> p \<notin> set (page_swap_queue s)"
  shows "r = 0" "remap_ok D A v" "shows_at D d va (perms perm OR PTE_C_CACHEABLE, pmem s p) s v"
proof -
  note wf = remap_wf [OF ok]
  obtain u where u: "r = 0" "remap_ok D A u" "untouched D p s u" "blanked D d va s u" "valid_pte (pmem u d (PDX va))"
    "\<not> valid_pte (pload u (uloc u d va))" "\<not> swapped_pte (pload u (uloc u d va))"
    and t: "t = mem_write (fst (uloc u d va)) (snd (uloc u d va)) (new_pte p perm) u
      \<lparr>pp_ref := (pp_ref u)(p := pp_ref u p + 1), accessed := (accessed u)(p := 1)\<rparr>"
    using insert_run [OF ok d p run] by blast
  show "r = 0" by (rule u(1))
  note wfu = remap_wf [OF u(2)]
  define l where "l = uloc u d va"
  have use_p: "in_use D u p" by (rule untouchedD [OF u(3)])
  then have "p < 2 ^ 20" using swap_wf_npage [OF wfu] by (simp add: in_use_def)
  note e = new_pte [OF this perm]
  have same_p: "pp_ref u p = pp_ref s p" "swap_tbl u p = swap_tbl s p" "pmem u p = pmem s p"
    using u(3) by (simp_all add: untouched_def)
  have queue_p: "p \<in> set (page_swap_queue u) \<longleftrightarrow> p \<in> set (page_swap_queue s)"
    by (rule untouched_queue [OF wf wfu u(3)])
  have zero: "mappers D u p = {}" if "pp_ref s p = 0"
    using remap_refs [OF u(2), of p] finite_mappers [OF remap_dirs(1) [OF u(2)], of u p] that same_p(1) by simp
  obtain si rest where free: "reg \<Longrightarrow> swapInfo_free_list u = si # rest"
    using reg by (cases "swapInfo_free_list u")
      (auto simp: t mem_write_def swap_register_def split: if_splits elim!: bind_SomeE)
  have v: "v = t\<lparr>swap_tbl := if reg then (swap_tbl u)(p := si # swap_tbl u p) else swap_tbl u,
      swapInfos := if reg then (swapInfos u)(si := \<lparr>si_pgdir = d, si_asid = A d, si_va = PTE_ADDR va\<rparr>) else swapInfos u,
      swapInfo_free_list := if reg then rest else swapInfo_free_list u,
      page_swap_queue := if reg \<and> swap_tbl u p = [] then page_swap_queue u @ [p] else page_swap_queue u\<rparr>"
    using reg free
    by (cases reg) (auto simp: t mem_write_def swap_register_def lst_insert_tail_def split: if_splits elim!: bind_SomeE)
  have "unat (pp_ref u p) < 65535" using ref same_p(1) by simp
  note me = map_entry [where reg = reg and t = v and si = si and rest = rest,
      OF u(2) d u(5) l_def u(6,7) [folded l_def] e(1-3) use_p this]
  have args: "reg \<Longrightarrow> p \<in> set (page_swap_queue u) \<or> mappers D u p = {} \<and> pp_ref u p = 0" "\<not> reg \<Longrightarrow> p \<notin> set (page_swap_queue u)"
    using reg zero same_p(1) queue_p by auto
  have f: "pmem v = (pmem u)(fst l := (pmem u (fst l))(snd l := new_pte p perm))" "npage v = npage u" "bno_tbl v = bno_tbl u"
    "sd_bitmap v = sd_bitmap u" "sdisk v = sdisk u" "page_free_list v = page_free_list u" "pp_ref v = (pp_ref u)(p := pp_ref u p + 1)"
    "swap_tbl v = (if reg then (swap_tbl u)(p := si # swap_tbl u p) else swap_tbl u)"
    "swapInfos v = (if reg then (swapInfos u)(si := \<lparr>si_pgdir = d, si_asid = A d, si_va = PTE_ADDR va\<rparr>) else swapInfos u)"
    "swapInfo_free_list v = (if reg then rest else swapInfo_free_list u)"
    "page_swap_queue v = (if reg \<and> swap_tbl u p = [] then page_swap_queue u @ [p] else page_swap_queue u)"
    unfolding v by (simp_all add: t mem_write_def l_def)
  note me = me [OF args(1) free args(2) f]
  show "remap_ok D A v" by (rule me(1); assumption)
  show "shows_at D d va (perms perm OR PTE_C_CACHEABLE, pmem s p) s v"
    unfolding shows_at_def
  proof (intro ballI allI impI)
    fix d' va' assume d': "d' \<in> D" "PDX va' < NUPDE"
    have dir: "pmem v d' = pmem u d'" by (rule me(4) [OF _ _ _ d'(1)]; assumption)
    have u': "uview u d' va' = (if d' = d \<and> PTE_ADDR va' = PTE_ADDR va then None else uview s d' va')"
      using u(4) d' by (simp add: blanked_def)
    show "uview v d' va' = (if d' = d \<and> PTE_ADDR va' = PTE_ADDR va then Some (perms perm OR PTE_C_CACHEABLE, pmem s p) else uview s d' va')"
    proof (cases "valid_pte (pmem u d' (PDX va'))")
      case True
      have "uview v d' va' = lview v (uloc u d' va')" using True dir by (simp add: uview_def uloc_def)
      also have "\<dots> = (if uloc u d' va' = l then Some (perms (new_pte p perm), pmem u p) else lview u (uloc u d' va'))"
        by (rule me(2) [OF _ _ _ uloc_ulocs(1) [OF d' True]]; assumption)
      finally show ?thesis
        using u' uloc_eq [OF u(2) d' True d u(5)] True by (simp add: l_def e(4) same_p(3) uview_def)
    next
      case False
      then have c: "\<not> (d' = d \<and> PTE_ADDR va' = PTE_ADDR va)" using u(5) by (auto simp: PTE_ADDR_indices)
      have "uview v d' va' = uview u d' va'" using False dir by (simp add: uview_def)
      then show ?thesis unfolding u' if_not_P [OF c] .
    qed
  qed
qed

end
