(* ===== verification/MapTotal.thy ===== *)
theory MapTotal
  imports MapPage
begin

text \<open>
  The operations of \<open>MapPage\<close> return when pages are free: then nothing is evicted, and none of the checks in
  the code fails in a consistent state. Free records stay available.
\<close>

lemma alloc_free:
  assumes wf: "swap_wf D s" and free: "page_free_list s \<noteq> []"
  shows "\<exists>q rest. page_free_list s = q # rest \<and> page_alloc s = Some (0, q, page_take s q rest)"
proof -
  obtain q t where al: "page_alloc s = Some (0, q, t)" using page_alloc_total [OF wf] free by blast
  then show ?thesis using page_alloc_cases [OF wf al] free by auto
qed

lemma swap_in_if_needed_total:
  assumes ok: "remap_ok D A s" and l: "l \<in> ulocs D s" and free: "page_free_list s \<noteq> []"
  shows "\<exists>t. swap_in_if_needed (Some l) s = Some t \<and> swapInfo_free_list t = swapInfo_free_list s"
proof (cases "\<not> valid_pte (pload s l) \<and> swapped_pte (pload s l)")
  case True
  note wf = remap_wf [OF ok]
  obtain q rest where al: "page_alloc s = Some (0, q, page_take s q rest)" using alloc_free [OF wf free] by blast
  obtain t where t: "swap_back (pload s l) s = Some t" using swap_back_total [OF wf l _ _ al] True by blast
  then obtain q' u where "page_alloc s = Some (0, q', u)" "t = swapped_in u q' (PPN (pload s l))"
    using swap_back_result [OF wf l] True by blast
  then have "swapInfo_free_list t = swapInfo_free_list s" using al by (auto simp: swapped_in_def page_take_def)
  moreover have "swap_in_if_needed (Some l) s = Some t"
    using t True by (cases l) (simp add: swap_in_if_needed_def and_PTE_V and_PTE_SWAPPED pload_def del: PTE_V_def PTE_SWAPPED_def)
  ultimately show ?thesis by blast
next
  case False
  then have "swap_in_if_needed (Some l) s = Some s"
    by (cases l) (auto simp: swap_in_if_needed_def and_PTE_V and_PTE_SWAPPED pload_def simp del: PTE_V_def PTE_SWAPPED_def)
  then show ?thesis by blast
qed

lemma page_lookup_total:
  assumes ok: "remap_ok D A s" and d: "d \<in> D" "PDX va < NUPDE" and free: "page_free_list s \<noteq> []"
  shows "\<exists>pp pte t. page_lookup d va s = Some (pp, pte, t) \<and> swapInfo_free_list t = swapInfo_free_list s"
proof (cases "valid_pte (pmem s d (PDX va))")
  case False
  then show ?thesis by (simp add: page_lookup_def pgdir_walk_none swap_in_if_needed_def)
next
  case True
  define l where "l = uloc s d va"
  have l: "l \<in> ulocs D s" unfolding l_def by (rule uloc_ulocs(1) [OF d True])
  have "PPN (pmem s d (PDX va)) < npage s"
    using uloc_ulocs(2) [OF d True] swap_wf_tables(1) [OF remap_wf [OF ok]] by blast
  note walk = pgdir_walk_table [OF True this, of False, folded l_def]
  obtain u where u: "swap_in_if_needed (Some l) s = Some u" "swapInfo_free_list u = swapInfo_free_list s"
    using swap_in_if_needed_total [OF ok l free] by blast
  have "l \<in> ulocs D u" using l same_userD(6) [OF swap_in_if_needed_steps(2) [OF remap_wf [OF ok] l u(1)]] by simp
  then have "PPN (pload u l) < npage u" if "valid_pte (pload u l)"
    using remap_ppn [OF swap_in_if_needed_remap(1) [OF ok l u(1)]] that by blast
  then show ?thesis
    using u by (cases l) (auto simp: page_lookup_def walk and_PTE_V pload_def pa2page_def Let_def simp del: PTE_V_def)
qed

lemma page_remove_total:
  assumes ok: "remap_ok D A s" and d: "d \<in> D" "PDX va < NUPDE" and free: "page_free_list s \<noteq> []"
  shows "\<exists>t. page_remove d a va s = Some t \<and> (swapInfo_free_list s \<noteq> [] \<longrightarrow> swapInfo_free_list t \<noteq> [])"
proof -
  obtain pp pte u where lk: "page_lookup d va s = Some (pp, pte, u)" and same: "swapInfo_free_list u = swapInfo_free_list s"
    using page_lookup_total [OF assms] by blast
  note lr = page_lookup_remap [OF ok d lk] and ls = page_lookup_steps [OF remap_wf [OF ok] d lk]
  show ?thesis
  proof (cases pp)
    case None
    then show ?thesis using lk same by (simp add: page_remove_def)
  next
    case (Some p)
    then have p: "pte = Some (uloc u d va)" "valid_pte (pload u (uloc u d va))" "PPN (pload u (uloc u d va)) = p"
      "uview s d va \<noteq> None" and user: "same_user D s u"
      using ls by simp_all
    have "valid_pte (pmem s d (PDX va))" using p(4) by (auto simp: uview_def split: if_splits)
    then have "valid_pte (pmem u d (PDX va))" using same_userD(1) [OF user d(1)] by simp
    then have l: "uloc u d va \<in> ulocs D u" by (intro uloc_ulocs(1) [OF d])
    have "uloc u d va \<in> mappers D u p" using l p by (simp add: mappers_def)
    then have "0 < card (mappers D u p)" using finite_mappers [OF remap_dirs(1) [OF lr(1)]] by (auto simp: card_gt_0_iff)
    then have "0 < unat (pp_ref u p)" using remap_refs [OF lr(1), of p] by linarith
    then have ref: "0 < pp_ref u p" by (simp add: unat_gt_0 word_gt_0)
    have "p \<notin> set (page_free_list u)" using swap_wf_mapped(1) [OF remap_wf [OF lr(1)] l p(2)] p(3) by simp
    then obtain w where w: "page_decref p u = Some w" "swapInfo_free_list w = swapInfo_free_list u"
      using ref by (cases "pp_ref u p = 1") (auto simp: page_decref_def page_free_def lst_insert_head_def Let_def)
    obtain x y where "uloc u d va = (x, y)" by fastforce
    then have "page_remove d a va s = Some (tlb_invalidate a va (mem_write x y 0 (swap_unregister p d va a w)))"
      using lk Some p(1) w(1) by (simp add: page_remove_def Let_def)
    moreover have "swapInfo_free_list w \<noteq> [] \<longrightarrow> swapInfo_free_list (swap_unregister p d va a w) \<noteq> []"
      by (auto simp: swap_unregister_def Let_def split: option.splits)
    ultimately show ?thesis using same w(2) by (simp add: mem_write_def)
  qed
qed

lemma walk_create_total:
  assumes ok: "remap_ok D A s" and d: "d \<in> D" "PDX va < NUPDE" and free: "page_free_list s \<noteq> []"
  shows "\<exists>pte t. pgdir_walk d va True s = Some (0, Some pte, t) \<and> swapInfo_free_list t = swapInfo_free_list s"
proof (cases "valid_pte (pmem s d (PDX va))")
  case True
  have "PPN (pmem s d (PDX va)) < npage s"
    using uloc_ulocs(2) [OF d True] swap_wf_tables(1) [OF remap_wf [OF ok]] by blast
  then show ?thesis using pgdir_walk_table [OF True] by blast
next
  case False
  note wf = remap_wf [OF ok]
  obtain q rest where al: "page_free_list s = q # rest" "page_alloc s = Some (0, q, page_take s q rest)"
    using alloc_free [OF wf free] by blast
  note pa = page_alloc_steps [OF wf al(2)]
  have "pmem (page_take s q rest) d = pmem s d" by (rule keptD(1) [OF pa(3) d(1)])
  then have nv: "\<not> valid_pte (pmem (page_take s q rest) d (PDX va))" using False by simp
  note nt = new_table [OF page_alloc_remap(1) [OF ok al(2)] d nv pa(4,5)]
  show ?thesis
    using False nt(7)
    by (simp add: pgdir_walk_def and_PTE_V al(2) Let_def KADDR_def table_pde_def del: PTE_V_def PTE_SWAPPED_def PTE_C_CACHEABLE_def)
      (simp add: mem_write_def page_take_def)
qed

text \<open>A first half of \<^verbatim>\<open>page_insert\<close> that returns, and then the second.\<close>

lemma page_insert_total:
  assumes ok: "remap_ok D A s" and d: "d \<in> D" "PDX va < NUPDE" and p: "in_use D s p" "maps_other s d va p"
    and free: "2 \<le> length (page_free_list s)"
  shows "\<exists>t. page_insert d (A d) p va perm s = Some (0, t) \<and> (swapInfo_free_list s \<noteq> [] \<longrightarrow> swapInfo_free_list t \<noteq> [])"
proof -
  note wf = remap_wf [OF ok]
  have room: "room D s p" using p(1) free by (simp add: room_def)
  have ne: "page_free_list s \<noteq> []" using free by auto
  have second: "\<exists>t. (do {
       let s = tlb_invalidate (A d) va u;
       (r, pte, s) \<leftarrow> pgdir_walk d va True s;
       if r = - E_NO_MEM then Some (- E_NO_MEM, s)
       else
         (case pte of
            None \<Rightarrow> None
          | Some (pt, x) \<Rightarrow> do {
              let s = mem_write pt x (new_pte p perm) s;
              let s = s\<lparr>pp_ref := (pp_ref s)(p := pp_ref s p + 1)\<rparr>;
              let s = s\<lparr>accessed := (accessed s)(p := 1)\<rparr>;
              Some (0, s) }) }) = Some (0, t) \<and> swapInfo_free_list t = swapInfo_free_list u"
    if u: "remap_ok D A u" "page_free_list u \<noteq> []" for u
  proof -
    have "remap_ok D A (tlb_invalidate (A d) va u)" "page_free_list (tlb_invalidate (A d) va u) \<noteq> []" using u by simp_all
    from walk_create_total [OF this(1) d this(2)] show ?thesis by (auto simp: mem_write_def)
  qed
  show ?thesis
  proof (cases "valid_pte (pmem s d (PDX va))")
    case False
    then have "page_insert d (A d) p va perm s = (do {
       let s = tlb_invalidate (A d) va s;
       (r, pte, s) \<leftarrow> pgdir_walk d va True s;
       if r = - E_NO_MEM then Some (- E_NO_MEM, s)
       else
         (case pte of
            None \<Rightarrow> None
          | Some (pt, x) \<Rightarrow> do {
              let s = mem_write pt x (new_pte p perm) s;
              let s = s\<lparr>pp_ref := (pp_ref s)(p := pp_ref s p + 1)\<rparr>;
              let s = s\<lparr>accessed := (accessed s)(p := 1)\<rparr>;
              Some (0, s) }) })"
      by (simp add: page_insert_def pgdir_walk_none swap_in_if_needed_def)
    then show ?thesis using second [OF ok ne] by auto
  next
    case True
    define l where "l = uloc s d va"
    have l: "l \<in> ulocs D s" unfolding l_def by (rule uloc_ulocs(1) [OF d True])
    have "PPN (pmem s d (PDX va)) < npage s"
      using uloc_ulocs(2) [OF d True] swap_wf_tables(1) [OF wf] by blast
    note walk = pgdir_walk_table [OF True this, of False, folded l_def]
    obtain u where u: "swap_in_if_needed (Some l) s = Some u" "swapInfo_free_list u = swapInfo_free_list s"
      using swap_in_if_needed_total [OF ok l ne] by blast
    note sr = swap_in_if_needed_remap [OF ok l u(1)] and st = swap_in_if_needed_steps [OF wf l u(1)]
    have neu: "page_free_list u \<noteq> []" using sr(3) free by auto
    have lu: "l \<in> ulocs D u" and vu: "valid_pte (pmem u d (PDX va))" and ul: "uloc u d va = l"
      using l True same_userD(1,6) [OF st(2)] d(1) by (simp_all add: l_def uloc_def)
    have other: "maps_other u d va p"
      using swap_in_if_needed_other [OF ok d True u(1) [unfolded l_def] room_stays [OF room] p(2)] .
    obtain w where rm: "page_remove d (A d) va u = Some w" "swapInfo_free_list u \<noteq> [] \<longrightarrow> swapInfo_free_list w \<noteq> []"
      using page_remove_total [OF sr(1) d neu] by blast
    have neww: "remap_ok D A w \<and> page_free_list w \<noteq> []" if "valid_pte (pload u l)"
      using page_remove_remap(1,7) [OF sr(1) d rm(1)] vu that neu by (fastforce simp: ul)
    have ppn: "PPN (pload u l) < npage u \<and> PPN (pload u l) \<noteq> p" if "valid_pte (pload u l)"
      using remap_ppn [OF sr(1) lu that] other vu that by (simp add: maps_other_def ul)
    obtain a b where ab: "l = (a, b)" by (cases l)
    have "page_insert d (A d) p va perm s = (do {
       let s = tlb_invalidate (A d) va (if valid_pte (pload u l) then w else u);
       (r, pte, s) \<leftarrow> pgdir_walk d va True s;
       if r = - E_NO_MEM then Some (- E_NO_MEM, s)
       else
         (case pte of
            None \<Rightarrow> None
          | Some (pt, x) \<Rightarrow> do {
              let s = mem_write pt x (new_pte p perm) s;
              let s = s\<lparr>pp_ref := (pp_ref s)(p := pp_ref s p + 1)\<rparr>;
              let s = s\<lparr>accessed := (accessed s)(p := 1)\<rparr>;
              Some (0, s) }) })"
    proof (cases "valid_pte (pload u l)")
      case v: True
      then show ?thesis
        using ppn [OF v] u(1) rm(1) unfolding ab
        by (simp add: page_insert_def walk [unfolded ab] and_PTE_V pload_def pa2page_def del: PTE_V_def)
    next
      case False
      then show ?thesis
        using u(1) unfolding ab by (simp add: page_insert_def walk [unfolded ab] and_PTE_V pload_def del: PTE_V_def)
    qed
    then show ?thesis
      using second [of "if valid_pte (pload u l) then w else u"] neww sr(1) neu rm(2) u(2) by auto
  qed
qed

end
