(* ===== verification/ElfLoader.thy ===== *)
theory ElfLoader
  imports Mmu
begin

text \<open>
  \<^verbatim>\<open>include/elf.h\<close> and \<^verbatim>\<open>lib/elfloader.c\<close>: recognising an ELF executable and mapping a segment page
  by page through a callback. A binary is a list of bytes; the fields of the headers are read
  at their offsets, low byte first (the system is built little-endian). The callback
  \<^verbatim>\<open>map_page(data, va, offset, perm, src, len)\<close> is an argument, a step on a state \<open>'s\<close> that
  returns an error code; its \<^verbatim>\<open>src\<close> is \<^term>\<open>None\<close> for the null pointer and else the offset
  from the start of the segment's bytes.
\<close>

section \<open>Headers\<close>

definition get_half :: "u8 list \<Rightarrow> nat \<Rightarrow> u16" where
  "get_half bs k = ucast (bs ! k) OR push_bit 8 (ucast (bs ! (k + 1)))"

definition get_word :: "u8 list \<Rightarrow> nat \<Rightarrow> u32" where
  "get_word bs k =
     ucast (bs ! k) OR push_bit 8 (ucast (bs ! (k + 1))) OR
     push_bit 16 (ucast (bs ! (k + 2))) OR push_bit 24 (ucast (bs ! (k + 3)))"

record Elf32_Ehdr =
  e_ident :: "u8 list"
  e_type :: u16
  e_machine :: u16
  e_version :: u32
  e_entry :: u32
  e_phoff :: u32
  e_shoff :: u32
  e_flags :: u32
  e_ehsize :: u16
  e_phentsize :: u16
  e_phnum :: u16
  e_shentsize :: u16
  e_shnum :: u16
  e_shstrndx :: u16

definition sizeof_Ehdr :: nat where [simp]: "sizeof_Ehdr = 52"

definition ehdr_at :: "u8 list \<Rightarrow> Elf32_Ehdr" where
  "ehdr_at bs =
     \<lparr>e_ident = take 16 bs, e_type = get_half bs 16, e_machine = get_half bs 18,
      e_version = get_word bs 20, e_entry = get_word bs 24, e_phoff = get_word bs 28,
      e_shoff = get_word bs 32, e_flags = get_word bs 36, e_ehsize = get_half bs 40,
      e_phentsize = get_half bs 42, e_phnum = get_half bs 44, e_shentsize = get_half bs 46,
      e_shnum = get_half bs 48, e_shstrndx = get_half bs 50\<rparr>"

record Elf32_Phdr =
  p_type :: u32
  p_offset :: u32
  p_vaddr :: u32
  p_paddr :: u32
  p_filesz :: u32
  p_memsz :: u32
  p_flags :: u32
  p_align :: u32

definition sizeof_Phdr :: nat where [simp]: "sizeof_Phdr = 32"

definition phdr_at :: "u8 list \<Rightarrow> nat \<Rightarrow> Elf32_Phdr" where
  "phdr_at bs k =
     \<lparr>p_type = get_word bs k, p_offset = get_word bs (k + 4), p_vaddr = get_word bs (k + 8),
      p_paddr = get_word bs (k + 12), p_filesz = get_word bs (k + 16),
      p_memsz = get_word bs (k + 20), p_flags = get_word bs (k + 24),
      p_align = get_word bs (k + 28)\<rparr>"

definition ELFMAG :: "u8 list" where [simp]: "ELFMAG = [0x7f, 0x45, 0x4c, 0x46]"
definition PT_LOAD :: u32 where [simp]: "PT_LOAD = 1"
definition PF_W :: u32 where [simp]: "PF_W = 2"

text \<open>\<^verbatim>\<open>elf_from\<close>: the header, or the null pointer for anything that is not an executable.\<close>

definition elf_from :: "u8 list \<Rightarrow> u32 \<Rightarrow> Elf32_Ehdr option" where
  "elf_from binary sz =
     (let ehdr = ehdr_at binary in
      if word_of_nat sizeof_Ehdr \<le> sz \<and>
         e_ident ehdr ! 0 = ELFMAG ! 0 \<and> e_ident ehdr ! 1 = ELFMAG ! 1 \<and>
         e_ident ehdr ! 2 = ELFMAG ! 2 \<and> e_ident ehdr ! 3 = ELFMAG ! 3 \<and> e_type ehdr = 2
      then Some ehdr else None)"

text \<open>\<^verbatim>\<open>ELF_FOREACH_PHDR_OFF\<close>: the offsets of the program headers.\<close>

definition phdr_offsets :: "Elf32_Ehdr \<Rightarrow> u32 list" where
  "phdr_offsets ehdr =
     map (\<lambda>i. e_phoff ehdr + word_of_nat i * ucast (e_phentsize ehdr)) [0..<unat (e_phnum ehdr)]"

section \<open>Loading a segment\<close>

type_synonym 's mapper = "u32 \<Rightarrow> u32 \<Rightarrow> u32 \<Rightarrow> u32 option \<Rightarrow> u32 \<Rightarrow> 's \<Rightarrow> (int \<times> 's) option"

text \<open>
  The loop over the bytes of the file: it returns the error code, the value of \<^verbatim>\<open>i\<close> and the
  state; then the loop over the rest of the segment, which has no bytes in the file.
\<close>

partial_function (option) load_file ::
  "'s mapper \<Rightarrow> u32 \<Rightarrow> u32 \<Rightarrow> u32 \<Rightarrow> u32 \<Rightarrow> 's \<Rightarrow> (int \<times> u32 \<times> 's) option" where
  "load_file map_page va perm bin_size i s =
     (if i < bin_size then do {
        (r, s) \<leftarrow> map_page (va + i) 0 perm (Some i) (cmin (bin_size - i) PAGE_SIZE) s;
        if r \<noteq> 0 then Some (r, i, s)
        else load_file map_page va perm bin_size (i + PAGE_SIZE) s }
      else Some (0, i, s))"

partial_function (option) load_bss ::
  "'s mapper \<Rightarrow> u32 \<Rightarrow> u32 \<Rightarrow> u32 \<Rightarrow> u32 \<Rightarrow> 's \<Rightarrow> (int \<times> 's) option" where
  "load_bss map_page va perm sgsize i s =
     (if i < sgsize then do {
        (r, s) \<leftarrow> map_page (va + i) 0 perm None (cmin (sgsize - i) PAGE_SIZE) s;
        if r \<noteq> 0 then Some (r, s)
        else load_bss map_page va perm sgsize (i + PAGE_SIZE) s }
      else Some (0, s))"

definition elf_load_seg :: "Elf32_Phdr \<Rightarrow> 's mapper \<Rightarrow> 's \<Rightarrow> (int \<times> 's) option" where
  "elf_load_seg ph map_page s = do {
     let va = p_vaddr ph;
     let bin_size = p_filesz ph;
     let sgsize = p_memsz ph;
     let perm = (if p_flags ph AND PF_W \<noteq> 0 then PTE_V OR PTE_D else PTE_V);
     let offset = va - ROUNDDOWN va PAGE_SIZE;
     (r, s) \<leftarrow> (if offset \<noteq> 0
               then map_page va offset perm (Some 0) (cmin bin_size (PAGE_SIZE - offset)) s
               else Some (0, s));
     if r \<noteq> 0 then Some (r, s)
     else do {
       (r, i, s) \<leftarrow> load_file map_page va perm bin_size
                     (if offset \<noteq> 0 then cmin bin_size (PAGE_SIZE - offset) else 0) s;
       if r \<noteq> 0 then Some (r, s)
       else load_bss map_page va perm sgsize i s } }"

end
