(* ===== verification/EnvMgr.thy ===== *)
theory EnvMgr
  imports Kstate ElfLoader
begin

text \<open>
  \<^verbatim>\<open>kern/env.c\<close>: environments (processes), their identifiers, ASIDs and address spaces, and the
  loading of an ELF image. The diagnostics the code prints are printed here too.
\<close>

section \<open>ASIDs\<close>

definition asid_alloc :: "kstate \<Rightarrow> int \<times> nat option \<times> kstate" where
  "asid_alloc s =
     (case scan (\<lambda>i. asid_bitmap s (i div 32) AND push_bit (i mod 32) 1 = 0) 0 NASID of
        None \<Rightarrow> (- E_NO_FREE_ENV, None, s)
      | Some i \<Rightarrow> (0, Some i, s\<lparr>asid_bitmap := (asid_bitmap s)
            (i div 32 := asid_bitmap s (i div 32) OR push_bit (i mod 32) 1)\<rparr>))"

definition asid_free :: "nat \<Rightarrow> kstate \<Rightarrow> kstate" where
  "asid_free i s =
     s\<lparr>asid_bitmap := (asid_bitmap s)
         (i div 32 := asid_bitmap s (i div 32) AND NOT (push_bit (i mod 32) 1))\<rparr>"

text \<open>ASIDs as a slot allocator.\<close>

definition asid_take :: "kstate \<Rightarrow> (nat \<times> kstate) option" where
  "asid_take s = (case asid_alloc s of (_, Some i, t) \<Rightarrow> Some (i, t) | (_, None, _) \<Rightarrow> None)"

lemma asid_alloc_scan:
  "asid_alloc s = (case scan (\<lambda>i. \<not> bm_bit (asid_bitmap s) i) 0 NASID of
     None \<Rightarrow> (- E_NO_FREE_ENV, None, s)
   | Some i \<Rightarrow> (0, Some i, s\<lparr>asid_bitmap := (asid_bitmap s)
       (i div 32 := asid_bitmap s (i div 32) OR push_bit (i mod 32) 1)\<rparr>))"
  unfolding asid_alloc_def bm_test ..

interpretation asids: slot_allocator "\<lambda>_. True" "\<lambda>s. bm_bit (asid_bitmap s)" 0 "\<lambda>_. NASID"
  asid_take asid_free
proof
  fix s i t assume "asid_take s = Some (i, t)"
  then have "scan (\<lambda>i. \<not> bm_bit (asid_bitmap s) i) 0 NASID = Some i"
    and t: "t = s\<lparr>asid_bitmap := (asid_bitmap s)
      (i div 32 := asid_bitmap s (i div 32) OR push_bit (i mod 32) 1)\<rparr>"
    by (auto simp: asid_take_def asid_alloc_scan split: option.splits)
  then have sc: "i < NASID \<and> \<not> bm_bit (asid_bitmap s) i \<and> (\<forall>j < i. bm_bit (asid_bitmap s) j)"
    using scan_Some [of _ 0 _ i] by fastforce
  have bits: "\<forall>j. bm_bit (asid_bitmap t) j = (j = i \<or> bm_bit (asid_bitmap s) j)"
    unfolding t by (simp add: bm_bit_or del: push_bit_of_1)
  show "0 \<le> i \<and> i < NASID \<and> \<not> bm_bit (asid_bitmap s) i \<and>
      (\<forall>j. 0 \<le> j \<and> j < i \<longrightarrow> bm_bit (asid_bitmap s) j) \<and> True \<and> NASID = NASID \<and>
      (\<forall>j. bm_bit (asid_bitmap t) j = (j = i \<or> bm_bit (asid_bitmap s) j))"
    using sc bits by simp
next
  fix s show "(asid_take s = None) = (\<forall>j. 0 \<le> j \<and> j < NASID \<longrightarrow> bm_bit (asid_bitmap s) j)"
    using scan_None [of "\<lambda>i. \<not> bm_bit (asid_bitmap s) i" 0 NASID]
    by (auto simp: asid_take_def asid_alloc_scan split: option.splits)
qed (simp_all add: asid_free_def bm_bit_and_not del: push_bit_of_1)

section \<open>Mapping a segment of physical memory\<close>

partial_function (option) map_segment_from ::
  "u32 \<Rightarrow> nat \<Rightarrow> u32 \<Rightarrow> u32 \<Rightarrow> u32 \<Rightarrow> u32 \<Rightarrow> u32 \<Rightarrow> kmem \<Rightarrow> kmem option" where
  "map_segment_from i pgdir asid pa va sz perm s =
     (if i < sz then do {
        pp \<leftarrow> pa2page (npage s) (pa + i);
        (_, s) \<leftarrow> page_insert pgdir asid pp (va + i) perm s;
        map_segment_from (i + PAGE_SIZE) pgdir asid pa va sz perm s }
      else Some s)"

definition map_segment ::
  "nat \<Rightarrow> u32 \<Rightarrow> u32 \<Rightarrow> u32 \<Rightarrow> u32 \<Rightarrow> u32 \<Rightarrow> kmem \<Rightarrow> kmem option" where
  "map_segment pgdir asid pa va sz perm s = do {
     _ \<leftarrow> kassert (pa mod PAGE_SIZE = 0);
     _ \<leftarrow> kassert (va mod PAGE_SIZE = 0);
     _ \<leftarrow> kassert (sz mod PAGE_SIZE = 0);
     map_segment_from 0 pgdir asid pa va sz perm s }"

section \<open>Identifiers\<close>

definition mkenvid :: "nat \<Rightarrow> kstate \<Rightarrow> u32 \<times> kstate" where
  "mkenvid e s =
     (let i = mkenvid_i s + 1
      in (push_bit (1 + LOG2NENV) i OR word_of_nat e, s\<lparr>mkenvid_i := i\<rparr>))"

text \<open>
  The error code and \<^verbatim>\<open>*penv\<close>; reading a field of \<^verbatim>\<open>curenv\<close> while it is null stops.
\<close>

definition envid2env :: "u32 \<Rightarrow> bool \<Rightarrow> kstate \<Rightarrow> (int \<times> nat option) option" where
  "envid2env envid checkperm s =
     (if envid = 0 then Some (0, curenv s)
      else
        let e = ENVX envid in
        if env_status (envs s e) = ENV_FREE \<or> env_id (envs s e) \<noteq> envid
        then Some (- E_BAD_ENV, None)
        else if checkperm \<and> curenv s \<noteq> Some e
        then (case curenv s of
                None \<Rightarrow> None
              | Some c \<Rightarrow>
                  if env_parent_id (envs s e) = env_id (envs s c) then Some (0, Some e)
                  else Some (- E_BAD_ENV, None))
        else Some (0, Some e))"

section \<open>Initialisation\<close>

definition env_init :: "u32 \<Rightarrow> u32 \<Rightarrow> kstate \<Rightarrow> kstate option" where
  "env_init envs_kva sizeof_Env s = do {
     let s = s\<lparr>env_free_list := [], env_sched_list := TAILQ_INIT () (env_sched_list s)\<rparr>;
     s \<leftarrow> foldM (\<lambda>i s. do {
             let s = upd_env i (\<lambda>e. e\<lparr>env_status := ENV_FREE\<rparr>) s;
             fl \<leftarrow> lst_insert_head i (env_free_list s);
             Some (s\<lparr>env_free_list := fl\<rparr>) }) (rev [0..<NENV]) s;
     (r, p, s) \<leftarrow> kpage_alloc s;
     _ \<leftarrow> panic_on (r \<noteq> 0);
     let s = incref p s;
     _ \<leftarrow> page2kva (npage (km s)) p;
     let s = s\<lparr>base_pgdir := p\<rparr>;
     pages_pa \<leftarrow> PADDR (pages_kva (km s));
     s \<leftarrow> with_km (map_segment (base_pgdir s) 0 pages_pa UPAGES
             (ROUND (word_of_nat (npage (km s) * sizeof_Page)) PAGE_SIZE) PTE_G) s;
     envs_pa \<leftarrow> PADDR envs_kva;
     with_km (map_segment (base_pgdir s) 0 envs_pa UENVS
             (ROUND (word_of_nat NENV * sizeof_Env) PAGE_SIZE) PTE_G) s }"

text \<open>\<^verbatim>\<open>memcpy\<close> of the page-directory entries \<open>lo .. hi\<close> of one page to another.\<close>

definition copy_words :: "nat \<Rightarrow> nat \<Rightarrow> nat \<Rightarrow> nat \<Rightarrow> kmem \<Rightarrow> kmem" where
  "copy_words dst src lo hi m =
     m\<lparr>pmem := (pmem m)(dst := (\<lambda>i. if lo \<le> i \<and> i < hi then pmem m src i else pmem m dst i))\<rparr>"

definition env_setup_vm :: "nat \<Rightarrow> kstate \<Rightarrow> (int \<times> kstate) option" where
  "env_setup_vm e s = do {
     (r, p, s) \<leftarrow> kpage_alloc s;
     if r \<noteq> 0 then Some (r, s)
     else do {
       let s = incref p s;
       _ \<leftarrow> page2kva (npage (km s)) p;
       let s = upd_env e (\<lambda>x. x\<lparr>env_pgdir := p\<rparr>) s;
       let s = s\<lparr>km := copy_words p (base_pgdir s) (PDX UTOP) (PDX UVPT) (km s)\<rparr>;
       let s = s\<lparr>km := mem_write p (PDX UVPT) (page2pa p OR PTE_V) (km s)\<rparr>;
       Some (0, s) } }"

definition init_status :: u32 where
  "init_status = STATUS_IM7 OR STATUS_IE OR STATUS_EXL OR STATUS_UM"

text \<open>The error code, \<^verbatim>\<open>*new\<close>, and the state: what was done before an error stays done.\<close>

definition env_alloc :: "u32 \<Rightarrow> kstate \<Rightarrow> (int \<times> nat option \<times> kstate) option" where
  "env_alloc parent_id s =
     (case env_free_list s of
        [] \<Rightarrow> Some (- E_NO_FREE_ENV, None, s)
      | e # rest \<Rightarrow> do {
          (r, s) \<leftarrow> env_setup_vm e s;
          if r \<noteq> 0 then Some (r, None, s)
          else do {
            let (id, s) = mkenvid e s;
            let s = upd_env e (\<lambda>x. x\<lparr>env_id := id\<rparr>) s;
            (case asid_alloc s of
               (r, None, s) \<Rightarrow> Some (r, None, s)
             | (r, Some asid, s) \<Rightarrow> do {
                 let s = upd_env e (\<lambda>x. x\<lparr>env_asid := word_of_nat asid\<rparr>) s;
                 let s = upd_env e (\<lambda>x. x\<lparr>env_parent_id := parent_id\<rparr>) s;
                 let s = upd_env e (\<lambda>x. x\<lparr>env_user_tlb_mod_entry := 0\<rparr>) s;
                 let s = upd_env e (\<lambda>x. x\<lparr>env_runs := 0\<rparr>) s;
                 let s = upd_env e (\<lambda>x. x\<lparr>env_tf := (env_tf x)\<lparr>cp0_status := init_status,
                           tf_regs := (tf_regs (env_tf x))(29 := USTACKTOP - 4 - 4)\<rparr>\<rparr>) s;
                 Some (0, Some e, s\<lparr>env_free_list := rest\<rparr>) }) } })"

section \<open>Loading an image\<close>

definition set_byte :: "nat \<Rightarrow> u8 \<Rightarrow> u32 \<Rightarrow> u32" where
  "set_byte k b w = (w AND NOT (push_bit (8 * k) 0xFF)) OR push_bit (8 * k) (ucast b)"

text \<open>\<^verbatim>\<open>memcpy\<close> of bytes to an offset of a page.\<close>

fun copy_bytes :: "nat \<Rightarrow> nat \<Rightarrow> u8 list \<Rightarrow> kmem \<Rightarrow> kmem" where
  "copy_bytes p off [] m = m"
| "copy_bytes p off (b # bs) m =
     copy_bytes p (off + 1) bs
       (mem_write p (off div 4) (set_byte (off mod 4) b (pmem m p (off div 4))) m)"

definition load_icode_mapper :: "u8 list \<Rightarrow> nat \<Rightarrow> kstate mapper" where
  "load_icode_mapper bin e va offset perm src len s = do {
     (r, p, s) \<leftarrow> kpage_alloc s;
     if r \<noteq> 0 then Some (r, s)
     else do {
       s \<leftarrow> (case src of
               None \<Rightarrow> Some s
             | Some k \<Rightarrow> do {
                 _ \<leftarrow> kassert (unat k + unat len \<le> length bin);
                 _ \<leftarrow> page2kva (npage (km s)) p;
                 Some (s\<lparr>km := copy_bytes p (unat offset)
                           (take (unat len) (drop (unat k) bin)) (km s)\<rparr>) });
       with_km' (page_insert (env_pgdir (envs s e)) (env_asid (envs s e)) p va perm) s } }"

definition load_icode :: "nat \<Rightarrow> u8 list \<Rightarrow> kstate \<Rightarrow> kstate option" where
  "load_icode e binary s =
     (case elf_from binary (word_of_nat (length binary)) of
        None \<Rightarrow> None
      | Some ehdr \<Rightarrow> do {
          s \<leftarrow> foldM (\<lambda>ph_off s. do {
                 _ \<leftarrow> kassert (unat ph_off + sizeof_Phdr \<le> length binary);
                 let ph = phdr_at binary (unat ph_off);
                 if p_type ph = PT_LOAD then do {
                   (r, s) \<leftarrow> elf_load_seg ph
                     (load_icode_mapper (drop (unat (p_offset ph)) binary) e) s;
                   _ \<leftarrow> panic_on (r \<noteq> 0);
                   Some s }
                 else Some s }) (phdr_offsets ehdr) s;
          Some (upd_env e (\<lambda>x. x\<lparr>env_tf := (env_tf x)\<lparr>cp0_epc := e_entry ehdr\<rparr>\<rparr>) s) })"

definition env_create :: "u8 list \<Rightarrow> u32 \<Rightarrow> kstate \<Rightarrow> (nat \<times> kstate) option" where
  "env_create binary priority s = do {
     (_, new, s) \<leftarrow> env_alloc 0 s;
     e \<leftarrow> new;
     let s = upd_env e (\<lambda>x. x\<lparr>env_pri := priority\<rparr>) s;
     let s = upd_env e (\<lambda>x. x\<lparr>env_status := ENV_RUNNABLE\<rparr>) s;
     s \<leftarrow> load_icode e binary s;
     let s = s\<lparr>env_sched_list := TAILQ_INSERT_HEAD () e (env_sched_list s)\<rparr>;
     Some (e, s) }"

section \<open>Freeing and running\<close>

definition env_free_pt :: "nat \<Rightarrow> nat \<Rightarrow> kstate \<Rightarrow> kstate option" where
  "env_free_pt e pdeno s = do {
     let pgdir = env_pgdir (envs s e);
     let asid = env_asid (envs s e);
     let pde = pmem (km s) pgdir pdeno;
     if pde AND PTE_V = 0 then Some s
     else do {
       let pa = PTE_ADDR pde;
       _ \<leftarrow> KADDR (npage (km s)) pa;
       s \<leftarrow> foldM (\<lambda>pteno s.
              let pte = pmem (km s) (PPN pa) pteno in
              if pte AND PTE_V \<noteq> 0 \<or> pte AND PTE_SWAPPED \<noteq> 0
              then with_km (page_remove pgdir asid
                     (push_bit PDSHIFT (word_of_nat pdeno) OR
                      push_bit PGSHIFT (word_of_nat pteno))) s
              else Some s) [0..<1024] s;
       let s = s\<lparr>km := mem_write pgdir pdeno 0 (km s)\<rparr>;
       pt \<leftarrow> pa2page (npage (km s)) pa;
       s \<leftarrow> with_km (page_decref pt) s;
       Some (s\<lparr>km := tlb_invalidate asid
                 (UVPT + push_bit PGSHIFT (word_of_nat pdeno)) (km s)\<rparr>) } }"

definition env_free :: "nat \<Rightarrow> kstate \<Rightarrow> kstate option" where
  "env_free e s = do {
     s \<leftarrow> printk ''[%08x] free env %08x\<newline>''
            [AInt (case curenv s of Some c \<Rightarrow> env_id (envs s c) | None \<Rightarrow> 0),
             AInt (env_id (envs s e))] s;
     s \<leftarrow> foldM (env_free_pt e) [0..<PDX UTOP] s;
     s \<leftarrow> with_km (page_decref (env_pgdir (envs s e))) s;
     let s = asid_free (unat (env_asid (envs s e))) s;
     let s = s\<lparr>km := tlb_invalidate (env_asid (envs s e))
               (UVPT + push_bit PGSHIFT (word_of_nat (PDX UVPT))) (km s)\<rparr>;
     let s = upd_env e (\<lambda>x. x\<lparr>env_status := ENV_FREE\<rparr>) s;
     fl \<leftarrow> lst_insert_head e (env_free_list s);
     let s = s\<lparr>env_free_list := fl\<rparr>;
     q \<leftarrow> TAILQ_REMOVE () e (env_sched_list s);
     Some (s\<lparr>env_sched_list := q\<rparr>) }"

text \<open>\<^verbatim>\<open>env_run\<close> does not return: its result is the state the processor leaves the kernel with.\<close>

definition env_run :: "nat \<Rightarrow> kstate \<Rightarrow> kstate option" where
  "env_run e s = do {
     _ \<leftarrow> kassert (env_status (envs s e) = ENV_RUNNABLE);
     let s = (case curenv s of
                None \<Rightarrow> s
              | Some c \<Rightarrow> upd_env c (\<lambda>x. x\<lparr>env_tf := kstack_tf s\<rparr>) s);
     let s = s\<lparr>curenv := Some e\<rparr>;
     let s = upd_env e (\<lambda>x. x\<lparr>env_runs := env_runs x + 1\<rparr>) s;
     let s = s\<lparr>km := (km s)\<lparr>cur_pgdir := env_pgdir (envs s e)\<rparr>\<rparr>;
     Some (s\<lparr>resumed := Some (env_tf (envs s e), env_asid (envs s e))\<rparr>) }"

section \<open>Freeing an environment that is not queued\<close>

lemma printk_queue:
  assumes "printk fmt ap s = Some t"
  shows "env_sched_list t = env_sched_list s"
  using vprintfmt_keeps [of "\<lambda>x. env_sched_list x = env_sched_list s" outputk, OF _ assms [unfolded printk_def]]
  by (simp add: outputk_frame)

lemma with_km_queue: "with_km f s = Some t \<Longrightarrow> env_sched_list t = env_sched_list s"
  by (auto simp: with_km_def elim: bind_SomeE)

lemma env_free_pt_queue:
  assumes "env_free_pt e n s = Some t"
  shows "env_sched_list t = env_sched_list s"
proof -
  let ?I = "\<lambda>x. env_sched_list x = env_sched_list s"
  have body: "env_sched_list y = env_sched_list x"
    if "(if P then with_km (f x) x else Some x) = Some y" for P f x y
    using that with_km_queue by (auto split: if_splits)
  show ?thesis
  proof (cases "pmem (km s) (env_pgdir (envs s e)) n AND PTE_V = 0")
    case True
    then show ?thesis using assms by (simp add: env_free_pt_def del: PTE_V_def)
  next
    case False
    let ?pa = "PTE_ADDR (pmem (km s) (env_pgdir (envs s e)) n)"
    let ?body = "\<lambda>pteno s'. let pte = pmem (km s') (PPN ?pa) pteno in
      if pte AND PTE_V \<noteq> 0 \<or> pte AND PTE_SWAPPED \<noteq> 0
      then with_km (page_remove (env_pgdir (envs s e)) (env_asid (envs s e))
        (push_bit PDSHIFT (word_of_nat n) OR push_bit PGSHIFT (word_of_nat pteno))) s' else Some s'"
    obtain s1 pt s2 where s1: "foldM ?body [0..<1024] s = Some s1"
      and s2: "with_km (page_decref pt) (s1\<lparr>km := mem_write (env_pgdir (envs s e)) n 0 (km s1)\<rparr>) = Some s2"
      and t: "env_sched_list t = env_sched_list s2"
      using assms False
      by (auto simp: env_free_pt_def Let_def simp del: PTE_V_def PTE_SWAPPED_def elim!: bind_SomeE)
    have "?I s1"
      by (rule foldM_inv [OF s1, of ?I])
        (use with_km_queue in \<open>auto simp: Let_def simp del: PTE_V_def PTE_SWAPPED_def split: if_splits\<close>)
    then show ?thesis using with_km_queue [OF s2] t by simp
  qed
qed

lemma env_free_unqueued:
  assumes "le_prev (tq_links (env_sched_list s)) e = None"
  shows "env_free e s = None"
proof (rule ccontr)
  assume "env_free e s \<noteq> None"
  then obtain t where "env_free e s = Some t" by auto
  then obtain fmt ap s1 s2 s3 fl q where
    s1: "printk fmt ap s = Some s1" and s2: "foldM (env_free_pt e) [0..<PDX UTOP] s1 = Some s2"
    and s3: "with_km (page_decref (env_pgdir (envs s2 e))) s2 = Some s3"
    and q: "TAILQ_REMOVE () e (env_sched_list s3) = Some q"
    by (auto simp: env_free_def Let_def asid_free_def upd_env_def simp del: UTOP_def
        elim!: bind_SomeE)
  have "env_sched_list s2 = env_sched_list s1"
    by (rule foldM_inv [OF s2, of "\<lambda>x. env_sched_list x = env_sched_list s1"])
      (use env_free_pt_queue in auto)
  then have "env_sched_list s3 = env_sched_list s"
    using printk_queue [OF s1] with_km_queue [OF s3] by simp
  then show False using q assms by (simp add: TAILQ_REMOVE_def)
qed

end
