(* ===== verification/Sched.thy ===== *)
theory Sched
  imports EnvMgr
begin

text \<open>
  \<^verbatim>\<open>kern/sched.c\<close> and \<^verbatim>\<open>env_destroy\<close> of \<^verbatim>\<open>kern/env.c\<close>: the round-robin scheduler. \<^verbatim>\<open>schedule\<close> does
  not return; its result is the state in which the processor leaves the kernel.
\<close>

definition schedule :: "bool \<Rightarrow> kstate \<Rightarrow> kstate option" where
  "schedule yield s =
     (let e = curenv s in
      if yield \<or> sched_count s = 0 \<or> e = None \<or>
         env_status (envs s (the e)) \<noteq> ENV_RUNNABLE
      then do {
        _ \<leftarrow> panic_on (e = None \<and> TAILQ_EMPTY () (env_sched_list s));
        s \<leftarrow> (case e of
                None \<Rightarrow> Some s
              | Some e \<Rightarrow> do {
                  q \<leftarrow> TAILQ_REMOVE () e (env_sched_list s);
                  let s = s\<lparr>env_sched_list := q\<rparr>;
                  if env_status (envs s e) = ENV_RUNNABLE
                  then Some (s\<lparr>env_sched_list := TAILQ_INSERT_TAIL () e (env_sched_list s)\<rparr>)
                  else Some s });
        e \<leftarrow> TAILQ_FIRST () (env_sched_list s);
        let s = s\<lparr>sched_count := env_pri (envs s e) - 1\<rparr>;
        env_run e s }
      else do {
        let s = s\<lparr>sched_count := sched_count s - 1\<rparr>;
        e \<leftarrow> curenv s;
        env_run e s })"

text \<open>\<^verbatim>\<open>env_destroy\<close>: \<^term>\<open>True\<close> when control comes back to the caller.\<close>

definition env_destroy :: "nat \<Rightarrow> kstate \<Rightarrow> (bool \<times> kstate) option" where
  "env_destroy e s = do {
     s \<leftarrow> env_free e s;
     if curenv s = Some e then do {
       let s = s\<lparr>curenv := None\<rparr>;
       s \<leftarrow> printk ''i am killed ... \<newline>'' [] s;
       s \<leftarrow> schedule True s;
       Some (False, s) }
     else Some (True, s) }"

section \<open>Round robin\<close>

text \<open>
  The state between two calls when every environment of the queue can run: the running one is at
  the head of the queue.
\<close>

definition ready :: "nat list \<Rightarrow> kstate \<Rightarrow> bool" where
  "ready q s \<longleftrightarrow> tailq_rep (env_sched_list s) (\<lambda>_. q) \<and> q \<noteq> [] \<and> curenv s = Some (hd q) \<and>
     (\<forall>e \<in> set q. env_status (envs s e) = ENV_RUNNABLE)"

lemma env_run_ready:
  assumes "env_status (envs s e) = ENV_RUNNABLE"
  shows "\<exists>t. env_run e s = Some t \<and> curenv t = Some e \<and> env_sched_list t = env_sched_list s \<and>
    sched_count t = sched_count s \<and> (\<forall>x. env_status (envs t x) = env_status (envs s x)) \<and>
    (\<forall>x. env_pri (envs t x) = env_pri (envs s x))"
  using assms by (simp add: env_run_def Let_def upd_env_def split: option.split)

lemma rotate_queue:
  assumes "tailq_rep l (\<lambda>_. q)" "q \<noteq> []"
  shows "\<exists>m. TAILQ_REMOVE () (hd q) l = Some m \<and>
    tailq_rep (TAILQ_INSERT_TAIL () (hd q) m) (\<lambda>_. rotate1 q)"
proof -
  have "remove1 (hd q) q @ [hd q] = rotate1 q" using assms(2) by (cases q) auto
  moreover have "(\<lambda>_. q)(() := x) = (\<lambda>_. x)" for x :: "nat list" by auto
  ultimately show ?thesis using tq.move_to_tail [OF assms(1), of "hd q" "()"] assms(2) by auto
qed

lemma yield_ready:
  assumes "ready q s"
  shows "\<exists>t. schedule True s = Some t \<and> ready (rotate1 q) t \<and>
    sched_count t = env_pri (envs s (hd (rotate1 q))) - 1 \<and>
    (\<forall>x. env_pri (envs t x) = env_pri (envs s x))"
proof -
  note r = assms [unfolded ready_def]
  obtain m where m: "TAILQ_REMOVE () (hd q) (env_sched_list s) = Some m"
    "tailq_rep (TAILQ_INSERT_TAIL () (hd q) m) (\<lambda>_. rotate1 q)"
    using rotate_queue r by blast
  let ?e = "hd (rotate1 q)"
  let ?s = "s\<lparr>env_sched_list := TAILQ_INSERT_TAIL () (hd q) m,
    sched_count := env_pri (envs s ?e) - 1\<rparr>"
  have ne: "rotate1 q \<noteq> []" using r by simp
  then have e: "?e \<in> set q" by (metis hd_in_set set_rotate1)
  have first: "TAILQ_FIRST () (TAILQ_INSERT_TAIL () (hd q) m) = Some ?e"
    using tailq_rep_first [OF m(2), of "()"] ne by (cases "rotate1 q") auto
  have "schedule True s = env_run ?e ?s"
    using r m(1) first by (simp add: schedule_def Let_def)
  moreover have "env_status (envs ?s ?e) = ENV_RUNNABLE" using r e by simp
  then obtain t where "env_run ?e ?s = Some t" "curenv t = Some ?e"
    "env_sched_list t = env_sched_list ?s" "sched_count t = sched_count ?s"
    "\<forall>x. env_status (envs t x) = env_status (envs ?s x)"
    "\<forall>x. env_pri (envs t x) = env_pri (envs ?s x)"
    using env_run_ready by blast
  ultimately show ?thesis using m(2) ne r by (simp add: ready_def)
qed

lemma tick_ready:
  assumes "ready q s" "sched_count s \<noteq> 0"
  shows "\<exists>t. schedule False s = Some t \<and> ready q t \<and> sched_count t = sched_count s - 1 \<and>
    (\<forall>x. env_pri (envs t x) = env_pri (envs s x))"
proof -
  note r = assms(1) [unfolded ready_def]
  let ?s = "s\<lparr>sched_count := sched_count s - 1\<rparr>"
  have st: "env_status (envs ?s (hd q)) = ENV_RUNNABLE" using r by simp
  then have "schedule False s = env_run (hd q) ?s"
    using r assms(2) by (simp add: schedule_def Let_def)
  with env_run_ready [OF st] show ?thesis using r by (auto simp: ready_def)
qed

text \<open>\<open>k\<close> calls, one after the other.\<close>

fun schedules :: "bool \<Rightarrow> nat \<Rightarrow> kstate \<Rightarrow> kstate option" where
  "schedules y 0 s = Some s"
| "schedules y (Suc k) s = do { t \<leftarrow> schedule y s; schedules y k t }"

lemma yields_ready: "ready q s \<Longrightarrow> \<exists>t. schedules True k s = Some t \<and> ready (rotate k q) t"
proof (induction k arbitrary: q s)
  case (Suc k)
  obtain t where "schedule True s = Some t" "ready (rotate1 q) t"
    using yield_ready [OF Suc.prems] by blast
  with Suc.IH [OF this(2)] show ?case by (simp add: rotate_def funpow_Suc_right del: funpow.simps)
qed simp

lemma ticks_ready:
  "ready q s \<Longrightarrow> k \<le> unat (sched_count s) \<Longrightarrow>
    \<exists>t. schedules False k s = Some t \<and> ready q t \<and> unat (sched_count t) = unat (sched_count s) - k"
proof (induction k arbitrary: s)
  case (Suc k)
  have nz: "sched_count s \<noteq> 0" using Suc.prems(2) by auto
  then obtain t where t: "schedule False s = Some t" "ready q t" "sched_count t = sched_count s - 1"
    using tick_ready [OF Suc.prems(1)] by blast
  have "unat (sched_count t) = unat (sched_count s) - 1"
    using nz by (simp add: t(3) unat_minus_one)
  with Suc.IH [OF t(2)] Suc.prems(2) show ?case using t(1) by auto
qed auto

section \<open>Properties\<close>

text \<open>
  C38. Round robin: when every environment of the queue can run and each gives up the processor, the
  \<open>k\<close>-th to run after the first is the \<open>k\<close>-th of the queue, cyclically; so each runs again within
  as many yields as the queue is long. The scheduler finds the next one through the link fields.
\<close>

theorem schedule_round_robin:
  assumes "ready q s"
  shows "\<exists>t. schedules True k s = Some t \<and> ready (rotate k q) t \<and>
    curenv t = Some (q ! (k mod length q))"
proof -
  obtain t where t: "schedules True k s = Some t" "ready (rotate k q) t"
    using yields_ready [OF assms] by blast
  have "q \<noteq> []" using assms by (simp add: ready_def)
  then show ?thesis using t hd_rotate_conv_nth [of q k] by (auto simp: ready_def)
qed

text \<open>
  Time slices: with \<open>c\<close> ticks left, the timer leaves the running environment the processor for
  \<open>c\<close> more ticks, and at the next one the environment after it in the queue runs, with a slice of
  its priority.
\<close>

theorem schedule_time_slice:
  assumes "ready q s"
  shows "(\<forall>k \<le> unat (sched_count s). \<exists>t. schedules False k s = Some t \<and> curenv t = Some (hd q)) \<and>
    (\<exists>t. schedules False (unat (sched_count s) + 1) s = Some t \<and>
         curenv t = Some (hd (rotate1 q)))"
proof (intro conjI allI impI)
  show "\<exists>t. schedules False k s = Some t \<and> curenv t = Some (hd q)" if "k \<le> unat (sched_count s)" for k
    using ticks_ready [OF assms that] by (auto simp: ready_def)
next
  obtain t where t: "schedules False (unat (sched_count s)) s = Some t" "ready q t"
    "sched_count t = 0"
    using ticks_ready [OF assms, of "unat (sched_count s)"] by (auto simp: unat_eq_zero)
  have app: "schedules y (a + b) s = Option.bind (schedules y a s) (schedules y b)" for y a b s
  proof (induction a arbitrary: s)
    case (Suc a)
    then show ?case by (cases "schedule y s") simp_all
  qed simp
  have "schedule False t = schedule True t" using t(3) by (simp add: schedule_def)
  then obtain u where "schedule False t = Some u" "ready (rotate1 q) u"
    using yield_ready [OF t(2)] by auto
  then show "\<exists>t. schedules False (unat (sched_count s) + 1) s = Some t \<and>
      curenv t = Some (hd (rotate1 q))"
    unfolding app using t(1) by (auto simp: ready_def)
qed

lemma ex_ready: "ready [0, 1] ex_kernel"
proof -
  have "tailq_rep ex_queue (\<lambda>_. [0, 1])" by (rule ex_queue_rep)
  then show ?thesis by (simp add: ready_def ex_kernel_def ex_env_def)
qed

theorem schedule_round_robin_witness:
  "\<exists>t. schedules True 3 ex_kernel = Some t \<and> curenv t = Some 1"
proof -
  have "[0, 1 :: nat] ! (3 mod length [0, 1 :: nat]) = 1" by code_simp
  then show ?thesis using schedule_round_robin [OF ex_ready, of 3] by metis
qed

theorem schedule_time_slice_witness:
  "\<exists>t. schedules False 2 ex_kernel = Some t \<and> curenv t = Some 1"
proof -
  have n: "unat (sched_count ex_kernel) + 1 = 2" by (simp add: ex_kernel_def)
  show ?thesis using schedule_time_slice [OF ex_ready, unfolded n] by simp
qed

end
