(* ===== verification/Syscall.thy ===== *)
theory Syscall
  imports Sched Tlbex
begin

text \<open>
  \<^verbatim>\<open>kern/syscall_all.c\<close>: the system calls and their dispatch. A call gives the value it returns,
  or \<^term>\<open>None\<close> in its place when it does not return but leaves the kernel for another
  environment, with the new state. \<open>hw\<close> is how the kernel reads and writes user memory and
  device registers by address, through the MMU.
\<close>

type_synonym sysres = "(int option \<times> kstate) option"

definition ret :: "int \<Rightarrow> kstate \<Rightarrow> sysres" where
  "ret r s = Some (Some r, s)"

definition noret :: "kstate option \<Rightarrow> sysres" where
  "noret m = do { s \<leftarrow> m; Some (None, s) }"

text \<open>\<^verbatim>\<open>try(envid2env(envid, &e, checkperm))\<close>; the environment may still be the null pointer.\<close>

definition try_env :: "u32 \<Rightarrow> bool \<Rightarrow> (nat \<Rightarrow> sysres) \<Rightarrow> kstate \<Rightarrow> sysres" where
  "try_env envid checkperm k s = do {
     (r, e) \<leftarrow> envid2env envid checkperm s;
     if r \<noteq> 0 then ret r s else (case e of None \<Rightarrow> None | Some e \<Rightarrow> k e) }"

section \<open>Console and identity\<close>

definition sys_putchar :: "u32 \<Rightarrow> kstate \<Rightarrow> kstate" where
  "sys_putchar c s = printcharc (ucast c) s"

definition sys_print_cons :: "kstate mem_ops \<Rightarrow> u32 \<Rightarrow> u32 \<Rightarrow> kstate \<Rightarrow> sysres" where
  "sys_print_cons hw p num s =
     (if p + num > UTOP \<or> p \<ge> UTOP \<or> p > p + num then ret (- E_INVAL) s
      else do {
        s \<leftarrow> foldM (\<lambda>i s. do {
               (c, s) \<leftarrow> ld8 hw (p + word_of_nat i) s;
               Some (printcharc c s) }) [0..<unat num] s;
        ret 0 s })"

definition sys_getenvid :: "kstate \<Rightarrow> sysres" where
  "sys_getenvid s = do { c \<leftarrow> curenv s; ret (uint (env_id (envs s c))) s }"

definition sys_yield :: "kstate \<Rightarrow> sysres" where
  "sys_yield s = noret (schedule True s)"

text \<open>The busy wait of \<^verbatim>\<open>sys_cgetc\<close>; it never ends when no more input comes.\<close>

fun poll_serial :: "u8 list \<Rightarrow> (u8 \<times> u8 list) option" where
  "poll_serial [] = None"
| "poll_serial (c # cs) = (if c = 0 then poll_serial cs else Some (c, cs))"

definition sys_cgetc :: "kstate \<Rightarrow> sysres" where
  "sys_cgetc s = do {
     (c, cs) \<leftarrow> poll_serial (serial_in s);
     ret (uint c) (s\<lparr>serial_in := cs\<rparr>) }"

section \<open>Environments\<close>

definition sys_env_destroy :: "u32 \<Rightarrow> kstate \<Rightarrow> sysres" where
  "sys_env_destroy envid s =
     try_env envid True (\<lambda>e. do {
       c \<leftarrow> curenv s;
       s \<leftarrow> printk ''[%08x] destroying %08x\<newline>''
              [AInt (env_id (envs s c)), AInt (env_id (envs s e))] s;
       (back, s) \<leftarrow> env_destroy e s;
       if back then ret 0 s else Some (None, s) }) s"

definition sys_set_tlb_mod_entry :: "u32 \<Rightarrow> u32 \<Rightarrow> kstate \<Rightarrow> sysres" where
  "sys_set_tlb_mod_entry envid func s =
     try_env envid True (\<lambda>e. ret 0 (upd_env e (\<lambda>x. x\<lparr>env_user_tlb_mod_entry := func\<rparr>) s)) s"

definition sys_exofork :: "kstate \<Rightarrow> sysres" where
  "sys_exofork s = do {
     c \<leftarrow> curenv s;
     (r, e, s) \<leftarrow> env_alloc (env_id (envs s c)) s;
     if r \<noteq> 0 then ret r s
     else do {
       e \<leftarrow> e;
       let s = upd_env e (\<lambda>x. x\<lparr>env_tf := kstack_tf s\<rparr>) s;
       let s = upd_env e (\<lambda>x. x\<lparr>env_tf := set_reg 2 0 (env_tf x)\<rparr>) s;
       let s = upd_env e (\<lambda>x. x\<lparr>env_status := ENV_NOT_RUNNABLE\<rparr>) s;
       let s = upd_env e (\<lambda>x. x\<lparr>env_pri := env_pri (envs s c)\<rparr>) s;
       ret (uint (env_id (envs s e))) s } }"

definition sys_set_env_status :: "u32 \<Rightarrow> u32 \<Rightarrow> kstate \<Rightarrow> sysres" where
  "sys_set_env_status envid status s =
     (if \<not> (status = ENV_RUNNABLE \<or> status = ENV_NOT_RUNNABLE) then ret (- E_INVAL) s
      else try_env envid True (\<lambda>e. do {
        s \<leftarrow> (if env_status (envs s e) \<noteq> status then
                (if status = ENV_RUNNABLE
                 then Some (s\<lparr>env_sched_list := TAILQ_INSERT_HEAD () e (env_sched_list s)\<rparr>)
                 else do {
                   q \<leftarrow> TAILQ_REMOVE () e (env_sched_list s);
                   Some (s\<lparr>env_sched_list := q\<rparr>) })
              else Some s);
        ret 0 (upd_env e (\<lambda>x. x\<lparr>env_status := status\<rparr>) s) }) s)"

section \<open>Memory\<close>

definition sys_mem_alloc :: "u32 \<Rightarrow> u32 \<Rightarrow> u32 \<Rightarrow> kstate \<Rightarrow> sysres" where
  "sys_mem_alloc envid va perm s =
     (if is_illegal_va va then ret (- E_INVAL) s
      else try_env envid True (\<lambda>e. do {
        (r, pp, s) \<leftarrow> kpage_alloc s;
        if r \<noteq> 0 then ret r s
        else do {
          let pgdir = env_pgdir (envs s e);
          let asid = env_asid (envs s e);
          (r, s) \<leftarrow> with_km' (page_insert pgdir asid pp va perm) s;
          s \<leftarrow> with_km (swap_register pp pgdir va asid) s;
          ret r s } }) s)"

definition page_swappable :: "nat \<Rightarrow> kstate \<Rightarrow> bool" where
  "page_swappable pp s \<longleftrightarrow> swap_tbl (km s) pp \<noteq> []"

definition klookup :: "nat \<Rightarrow> u32 \<Rightarrow> kstate \<Rightarrow> (nat option \<times> kstate) option" where
  "klookup pgdir va s = do {
     (pp, _, m) \<leftarrow> page_lookup pgdir va (km s);
     Some (pp, s\<lparr>km := m\<rparr>) }"

definition sys_mem_map :: "u32 \<Rightarrow> u32 \<Rightarrow> u32 \<Rightarrow> u32 \<Rightarrow> u32 \<Rightarrow> kstate \<Rightarrow> sysres" where
  "sys_mem_map srcid srcva dstid dstva perm s =
     (if is_illegal_va srcva \<or> is_illegal_va dstva then ret (- E_INVAL) s
      else try_env srcid True (\<lambda>se. try_env dstid True (\<lambda>de. do {
        let dpgdir = env_pgdir (envs s de);
        let dasid = env_asid (envs s de);
        (orgp, s) \<leftarrow> klookup dpgdir dstva s;
        let swappable_org = (case orgp of None \<Rightarrow> False | Some p \<Rightarrow> page_swappable p s);
        (srcp, s) \<leftarrow> klookup (env_pgdir (envs s se)) srcva s;
        (case srcp of
           None \<Rightarrow> ret (- E_INVAL) s
         | Some srcp \<Rightarrow> do {
             let swappable_src = page_swappable srcp s;
             (r, s) \<leftarrow> with_km' (page_insert dpgdir dasid srcp dstva perm) s;
             let swappable = (if srcva = UCOW then swappable_org else swappable_src);
             s \<leftarrow> (if swappable \<and> (se \<noteq> de \<or> PTE_ADDR srcva \<noteq> PTE_ADDR dstva)
                   then with_km (swap_register srcp dpgdir dstva dasid) s
                   else Some s);
             ret r s }) }) s) s)"

definition sys_mem_unmap :: "u32 \<Rightarrow> u32 \<Rightarrow> kstate \<Rightarrow> sysres" where
  "sys_mem_unmap envid va s =
     (if is_illegal_va va then ret (- E_INVAL) s
      else try_env envid True (\<lambda>e. do {
        s \<leftarrow> with_km (page_remove (env_pgdir (envs s e)) (env_asid (envs s e)) va) s;
        ret 0 s }) s)"

section \<open>Trap frames\<close>

definition sys_set_trapframe :: "kstate mem_ops \<Rightarrow> u32 \<Rightarrow> u32 \<Rightarrow> kstate \<Rightarrow> sysres" where
  "sys_set_trapframe hw envid tf s =
     (if is_illegal_va_range tf sizeof_Trapframe then ret (- E_INVAL) s
      else try_env envid True (\<lambda>e. do {
        (ws, s) \<leftarrow> load_words hw tf 38 s;
        if curenv s = Some e then do {
          let s = s\<lparr>kstack_tf := tf_of_words ws\<rparr>;
          (r, s) \<leftarrow> ld32 hw (tf + 8) s;
          ret (sint r) s }
        else ret 0 (upd_env e (\<lambda>x. x\<lparr>env_tf := tf_of_words ws\<rparr>) s) }) s)"

text \<open>\<^verbatim>\<open>sys_panic\<close> stops the machine.\<close>

definition sys_panic :: "u32 \<Rightarrow> kstate \<Rightarrow> sysres" where
  "sys_panic msg s = None"

section \<open>Messages\<close>

definition sys_ipc_recv :: "u32 \<Rightarrow> kstate \<Rightarrow> sysres" where
  "sys_ipc_recv dstva s =
     (if dstva \<noteq> 0 \<and> is_illegal_va dstva then ret (- E_INVAL) s
      else do {
        c \<leftarrow> curenv s;
        let s = upd_env c (\<lambda>x. x\<lparr>env_ipc_recving := 1\<rparr>) s;
        let s = upd_env c (\<lambda>x. x\<lparr>env_ipc_dstva := dstva\<rparr>) s;
        let s = upd_env c (\<lambda>x. x\<lparr>env_status := ENV_NOT_RUNNABLE\<rparr>) s;
        q \<leftarrow> TAILQ_REMOVE () c (env_sched_list s);
        let s = s\<lparr>env_sched_list := q\<rparr>;
        let s = s\<lparr>kstack_tf := set_reg 2 0 (kstack_tf s)\<rparr>;
        noret (schedule True s) })"

definition sys_ipc_try_send :: "u32 \<Rightarrow> u32 \<Rightarrow> u32 \<Rightarrow> u32 \<Rightarrow> kstate \<Rightarrow> sysres" where
  "sys_ipc_try_send envid value srcva perm s =
     (if srcva \<noteq> 0 \<and> is_illegal_va srcva then ret (- E_INVAL) s
      else try_env envid False (\<lambda>e.
        if env_ipc_recving (envs s e) = 0 then ret (- E_IPC_NOT_RECV) s
        else do {
          let s = upd_env e (\<lambda>x. x\<lparr>env_ipc_value := value\<rparr>) s;
          c \<leftarrow> curenv s;
          let s = upd_env e (\<lambda>x. x\<lparr>env_ipc_from := env_id (envs s c)\<rparr>) s;
          let s = upd_env e (\<lambda>x. x\<lparr>env_ipc_perm := PTE_V OR (perm AND NOT PTE_SWAPPED)\<rparr>) s;
          let s = upd_env e (\<lambda>x. x\<lparr>env_ipc_recving := 0\<rparr>) s;
          let s = upd_env e (\<lambda>x. x\<lparr>env_status := ENV_RUNNABLE\<rparr>) s;
          let s = s\<lparr>env_sched_list := TAILQ_INSERT_TAIL () e (env_sched_list s)\<rparr>;
          if srcva = 0 then ret 0 s
          else do {
            (p, s) \<leftarrow> klookup (env_pgdir (envs s c)) srcva s;
            (case p of
               None \<Rightarrow> ret (- E_INVAL) s
             | Some p \<Rightarrow> do {
                 let swappable = page_swappable p s;
                 let pgdir = env_pgdir (envs s e);
                 let asid = env_asid (envs s e);
                 let dstva = env_ipc_dstva (envs s e);
                 (_, s) \<leftarrow> with_km' (page_insert pgdir asid p dstva perm) s;
                 s \<leftarrow> (if swappable \<and> \<not> (e = c \<and> PTE_ADDR dstva = PTE_ADDR srcva)
                       then with_km (swap_register p pgdir dstva asid) s
                       else Some s);
                 ret 0 s }) } }) s)"

section \<open>Devices\<close>

definition valid_pa :: "u32 \<Rightarrow> u32 \<Rightarrow> bool" where
  "valid_pa pa n \<longleftrightarrow>
     (0x180003f8 \<le> pa \<and> pa + n \<le> 0x180003f8 + 0x20) \<or>
     (0x180001f0 \<le> pa \<and> pa + n \<le> 0x180001f0 + 0x8)"

definition sys_write_dev :: "kstate mem_ops \<Rightarrow> u32 \<Rightarrow> u32 \<Rightarrow> u32 \<Rightarrow> kstate \<Rightarrow> sysres" where
  "sys_write_dev hw va pa n s =
     (if n \<noteq> 1 \<and> n \<noteq> 2 \<and> n \<noteq> 4 then ret (- E_INVAL) s
      else if is_illegal_va_range va n then ret (- E_INVAL) s
      else if \<not> valid_pa pa n then ret (- E_INVAL) s
      else do { (_, s) \<leftarrow> memcpy hw (KSEG1 + pa) va n s; ret 0 s })"

definition sys_read_dev :: "kstate mem_ops \<Rightarrow> u32 \<Rightarrow> u32 \<Rightarrow> u32 \<Rightarrow> kstate \<Rightarrow> sysres" where
  "sys_read_dev hw va pa n s =
     (if n \<noteq> 1 \<and> n \<noteq> 2 \<and> n \<noteq> 4 then ret (- E_INVAL) s
      else if is_illegal_va_range va n then ret (- E_INVAL) s
      else if \<not> valid_pa pa n then ret (- E_INVAL) s
      else do { (_, s) \<leftarrow> memcpy hw va (KSEG1 + pa) n s; ret 0 s })"

section \<open>Dispatch\<close>

definition MAX_SYSNO :: int where [simp]: "MAX_SYSNO = 18"

text \<open>
  \<^verbatim>\<open>syscall_table\<close>. \<^verbatim>\<open>sys_putchar\<close> returns no value, so the caller sees what \<open>junk\<close> the return
  register holds.
\<close>

definition syscall_table ::
  "kstate mem_ops \<Rightarrow> int \<Rightarrow> int \<Rightarrow> u32 \<Rightarrow> u32 \<Rightarrow> u32 \<Rightarrow> u32 \<Rightarrow> u32 \<Rightarrow> kstate \<Rightarrow> sysres" where
  "syscall_table hw junk sysno a1 a2 a3 a4 a5 s =
     (if sysno = 0 then ret junk (sys_putchar a1 s)
      else if sysno = 1 then sys_print_cons hw a1 a2 s
      else if sysno = 2 then sys_getenvid s
      else if sysno = 3 then sys_yield s
      else if sysno = 4 then sys_env_destroy a1 s
      else if sysno = 5 then sys_set_tlb_mod_entry a1 a2 s
      else if sysno = 6 then sys_mem_alloc a1 a2 a3 s
      else if sysno = 7 then sys_mem_map a1 a2 a3 a4 a5 s
      else if sysno = 8 then sys_mem_unmap a1 a2 s
      else if sysno = 9 then sys_exofork s
      else if sysno = 10 then sys_set_env_status a1 a2 s
      else if sysno = 11 then sys_set_trapframe hw a1 a2 s
      else if sysno = 12 then sys_panic a1 s
      else if sysno = 13 then sys_ipc_try_send a1 a2 a3 a4 s
      else if sysno = 14 then sys_ipc_recv a1 s
      else if sysno = 15 then sys_cgetc s
      else if sysno = 16 then sys_write_dev hw a1 a2 a3 s
      else sys_read_dev hw a1 a2 a3 s)"

text \<open>The trap frame \<^verbatim>\<open>tf\<close> is the one on the kernel stack.\<close>

definition do_syscall :: "kstate mem_ops \<Rightarrow> int \<Rightarrow> kstate \<Rightarrow> kstate option" where
  "do_syscall hw junk s =
     (let sysno = sint (tf_regs (kstack_tf s) 4) in
      if sysno < 0 \<or> sysno \<ge> MAX_SYSNO
      then Some (s\<lparr>kstack_tf := set_reg 2 (word_of_int (- E_NO_SYS)) (kstack_tf s)\<rparr>)
      else do {
        let s = s\<lparr>kstack_tf := (kstack_tf s)\<lparr>cp0_epc := cp0_epc (kstack_tf s) + 4\<rparr>\<rparr>;
        let regs = tf_regs (kstack_tf s);
        (arg4, s) \<leftarrow> ld32 hw (regs 29 + 16) s;
        (arg5, s) \<leftarrow> ld32 hw (regs 29 + 20) s;
        (r, s) \<leftarrow> syscall_table hw junk sysno (regs 5) (regs 6) (regs 7) arg4 arg5 s;
        (case r of
           None \<Rightarrow> Some s
         | Some r \<Rightarrow> Some (s\<lparr>kstack_tf := set_reg 2 (word_of_int r) (kstack_tf s)\<rparr>)) })"

text \<open>\<^verbatim>\<open>do_reserved\<close> (\<^verbatim>\<open>kern/traps.c\<close>) prints the trap frame and panics.\<close>

definition do_reserved :: "trapframe \<Rightarrow> kstate \<Rightarrow> kstate option" where
  "do_reserved tf s = do { _ \<leftarrow> print_tf tf s; None }"

section \<open>Sending and receiving\<close>

text \<open>An identifier that names environment \<open>e\<close>.\<close>

definition names_env :: "kstate \<Rightarrow> u32 \<Rightarrow> nat \<Rightarrow> bool" where
  "names_env s envid e \<longleftrightarrow> envid \<noteq> 0 \<and> ENVX envid = e \<and> env_id (envs s e) = envid \<and>
     env_status (envs s e) \<noteq> ENV_FREE"

lemma try_env_named:
  "names_env s envid e \<Longrightarrow> curenv s = Some e \<or> \<not> checkperm \<Longrightarrow> try_env envid checkperm k s = k e"
  by (auto simp: try_env_def envid2env_def names_env_def)

definition sent_env :: "u32 \<Rightarrow> u32 \<Rightarrow> u32 \<Rightarrow> env \<Rightarrow> env" where
  "sent_env value from perm x =
     x\<lparr>env_ipc_value := value, env_ipc_from := from,
       env_ipc_perm := PTE_V OR (perm AND NOT PTE_SWAPPED), env_ipc_recving := 0,
       env_status := ENV_RUNNABLE\<rparr>"

lemma try_send_value:
  assumes "names_env s envid e" "env_ipc_recving (envs s e) \<noteq> 0" "curenv s = Some c"
  shows "sys_ipc_try_send envid value 0 perm s =
    Some (Some 0, (upd_env e (sent_env value (env_id (envs s c)) perm) s)
      \<lparr>env_sched_list := TAILQ_INSERT_TAIL () e (env_sched_list s)\<rparr>)"
  using assms try_env_named [OF assms(1), of False]
  by (auto simp: sys_ipc_try_send_def upd_env_def sent_env_def ret_def Let_def)

text \<open>A receive of the running environment, another one being ready.\<close>

lemma recv_switches:
  assumes "ready (c # x # xs) s"
  shows "\<exists>t. sys_ipc_recv 0 s = Some (None, t) \<and> ready (x # xs) t \<and>
    env_status (envs t c) = ENV_NOT_RUNNABLE \<and> env_ipc_recving (envs t c) = 1 \<and>
    env_ipc_dstva (envs t c) = 0 \<and> tf_regs (env_tf (envs t c)) 2 = 0 \<and>
    (\<forall>y. env_id (envs t y) = env_id (envs s y))"
proof -
  note r = assms [unfolded ready_def]
  have cur: "curenv s = Some c" and d: "distinct (c # x # xs)"
    using r list_repD(2) [OF tailq_repD(1), of "env_sched_list s" "\<lambda>_. c # x # xs" "()"] by auto
  obtain m where m: "TAILQ_REMOVE () c (env_sched_list s) = Some m"
    "tailq_rep m ((\<lambda>_. c # x # xs)(() := x # xs))"
    using tailq_rep_remove [of "env_sched_list s" "\<lambda>_. c # x # xs" c "()"] r by auto
  have mq: "tailq_rep m (\<lambda>_. x # xs)" using m(2) by (simp add: fun_upd_def)
  have twice: "TAILQ_REMOVE () c m = Some m"
    by (rule tailq_remove_twice [OF _ _ m(1)]) (use r in auto)
  have first: "TAILQ_FIRST () m = Some x" using tailq_rep_first [OF mq] by simp
  let ?e = "\<lambda>y. y\<lparr>env_ipc_recving := 1, env_ipc_dstva := 0, env_status := ENV_NOT_RUNNABLE\<rparr>"
  let ?s = "(upd_env c ?e s)\<lparr>env_sched_list := m, kstack_tf := set_reg 2 0 (kstack_tf s)\<rparr>"
  let ?u = "(upd_env c ?e s)\<lparr>kstack_tf := set_reg 2 0 (kstack_tf s), env_sched_list := m,
    sched_count := env_pri (envs s x) - 1\<rparr>"
  have recv: "sys_ipc_recv 0 s = noret (schedule True ?s)"
    using cur m(1) by (simp add: sys_ipc_recv_def upd_env_def Let_def fun_upd_idem)
  have "schedule True ?s = env_run x (?s\<lparr>env_sched_list := m,
      sched_count := env_pri (envs ?s x) - 1\<rparr>)"
    using cur twice first d by (simp add: schedule_def upd_env_def Let_def)
  also have "\<dots> = env_run x ?u" using d by (simp add: upd_env_def)
  also have "\<dots> = Some (let v = upd_env c (\<lambda>y. y\<lparr>env_tf := set_reg 2 0 (kstack_tf s)\<rparr>) ?u;
      v = upd_env x (\<lambda>y. y\<lparr>env_runs := env_runs y + 1\<rparr>) (v\<lparr>curenv := Some x\<rparr>);
      v = v\<lparr>km := (km v)\<lparr>cur_pgdir := env_pgdir (envs v x)\<rparr>\<rparr>
    in v\<lparr>resumed := Some (env_tf (envs v x), env_asid (envs v x))\<rparr>)"
    using r d cur by (simp add: env_run_def upd_env_def Let_def)
  finally show ?thesis using recv mq r d
    by (auto simp: noret_def ready_def upd_env_def Let_def set_reg_def)
qed

section \<open>User addresses and devices\<close>

lemma range_no_wrap:
  assumes "\<not> is_illegal_va_range va n" "k < n"
  shows "unat (va + k) = unat va + unat k" "UTEMP \<le> va + k" "va + k < UTOP"
proof -
  have n: "n \<noteq> 0" using assms(2) by auto
  then have r: "va \<le> va + n" "UTEMP \<le> va" "va + n \<le> UTOP"
    using assms(1) by (auto simp: is_illegal_va_range_def not_less)
  have s: "unat (va + n) = unat va + unat n" using r(1) by (simp add: unat_plus_simple)
  have k: "unat k < unat n" using assms(2) by (simp add: word_less_nat_alt)
  have "unat va + unat n \<le> unat UTOP" using r(3) s by (simp add: word_le_nat_alt)
  then show u: "unat (va + k) = unat va + unat k"
    using k by (simp add: unat_word_ariths)
  show "UTEMP \<le> va + k" using r(2) u by (simp add: word_le_nat_alt)
  show "va + k < UTOP" using \<open>unat va + unat n \<le> unat UTOP\<close> u k by (simp add: word_less_nat_alt)
qed

lemma valid_pa_cases:
  assumes "valid_pa pa n" "unat pa + unat n < 2 ^ 32"
  shows "0x180003f8 \<le> unat pa \<and> unat pa + unat n \<le> 0x18000418 \<or>
    0x180001f0 \<le> unat pa \<and> unat pa + unat n \<le> 0x180001f8"
proof -
  have "unat (pa + n) = unat pa + unat n" using assms(2) by (simp add: unat_word_ariths)
  then show ?thesis using assms(1) by (auto simp: valid_pa_def word_le_nat_alt)
qed

section \<open>Properties\<close>

text \<open>
  A message gets through: when the running environment receives, the next one runs, the receiver
  leaves the queue, and is woken with the value and the sender's identifier by the first send to
  it, at the tail of the queue; its receive returns 0.
\<close>

theorem ipc_exchange:
  assumes "ready (c # x # xs) s" "env_id (envs s c) = cid" "ENVX cid = c" "cid \<noteq> 0"
  shows "\<exists>t u. sys_ipc_recv 0 s = Some (None, t) \<and> curenv t = Some x \<and>
    sys_ipc_try_send cid v 0 perm t = Some (Some 0, u) \<and>
    env_ipc_value (envs u c) = v \<and> env_ipc_from (envs u c) = env_id (envs s x) \<and>
    env_ipc_recving (envs u c) = 0 \<and> tf_regs (env_tf (envs u c)) 2 = 0 \<and>
    ready (x # xs @ [c]) u"
proof -
  obtain t where t: "sys_ipc_recv 0 s = Some (None, t)" "ready (x # xs) t"
    "env_status (envs t c) = ENV_NOT_RUNNABLE" "env_ipc_recving (envs t c) = 1"
    "tf_regs (env_tf (envs t c)) 2 = 0" "\<forall>y. env_id (envs t y) = env_id (envs s y)"
    using recv_switches [OF assms(1)] by blast
  have cur: "curenv t = Some x" using t(2) by (simp add: ready_def)
  have new: "c \<notin> set (x # xs)" using t(2,3) by (auto simp: ready_def)
  have nm: "names_env t cid c" using assms(2-4) t(3,6) by (simp add: names_env_def)
  define u where "u = (upd_env c (sent_env v (env_id (envs t x)) perm) t)
    \<lparr>env_sched_list := TAILQ_INSERT_TAIL () c (env_sched_list t)\<rparr>"
  have send: "sys_ipc_try_send cid v 0 perm t = Some (Some 0, u)"
    unfolding u_def by (rule try_send_value [OF nm _ cur]) (simp add: t(4))
  have "tailq_rep (TAILQ_INSERT_TAIL () c (env_sched_list t)) ((\<lambda>_. x # xs)(() := (x # xs) @ [c]))"
    by (rule tailq_rep_insert_tail) (use t(2) new in \<open>auto simp: ready_def\<close>)
  then have "ready (x # xs @ [c]) u"
    using t(2) new by (auto simp: ready_def u_def upd_env_def sent_env_def fun_upd_def)
  then show ?thesis using t send cur by (auto simp: u_def upd_env_def sent_env_def)
qed

lemma ex_env_facts:
  "env_id (envs ex_kernel 0) = 0x800" "ENVX 0x800 = 0" "ENVX 0x1001 = 1"
  "env_id (envs ex_kernel 1) = 0x1001"
  by (simp_all add: ex_kernel_def ex_env_def ENVX_def)

theorem ipc_exchange_witness:
  "\<exists>t u. sys_ipc_recv 0 ex_kernel = Some (None, t) \<and>
     sys_ipc_try_send 0x800 42 0 0 t = Some (Some 0, u) \<and> env_ipc_value (envs u 0) = 42"
  using ipc_exchange [OF ex_ready [unfolded One_nat_def], of "0x800" 42 0] ex_env_facts by auto

text \<open>
  A send to an environment that is not receiving returns \<^verbatim>\<open>-E_IPC_NOT_RECV\<close>, one to an identifier
  that names no live environment \<^verbatim>\<open>-E_BAD_ENV\<close>, and one from an illegal address \<^verbatim>\<open>-E_INVAL\<close>; none of
  them changes the state.
\<close>

theorem ipc_send_errors:
  "(names_env s envid e \<and> env_ipc_recving (envs s e) = 0 \<and> (srcva = 0 \<or> \<not> is_illegal_va srcva) \<longrightarrow>
      sys_ipc_try_send envid v srcva perm s = Some (Some (- E_IPC_NOT_RECV), s)) \<and>
   (envid \<noteq> 0 \<and> env_id (envs s (ENVX envid)) \<noteq> envid \<and> (srcva = 0 \<or> \<not> is_illegal_va srcva) \<longrightarrow>
      sys_ipc_try_send envid v srcva perm s = Some (Some (- E_BAD_ENV), s)) \<and>
   (srcva \<noteq> 0 \<and> is_illegal_va srcva \<longrightarrow>
      sys_ipc_try_send envid v srcva perm s = Some (Some (- E_INVAL), s))"
  by (auto simp: sys_ipc_try_send_def try_env_def envid2env_def names_env_def ret_def Let_def)

theorem ipc_send_errors_witness:
  "sys_ipc_try_send 0x1001 7 0 0 ex_kernel = Some (Some (- 7), ex_kernel)"
proof -
  have "names_env ex_kernel 0x1001 1" "env_ipc_recving (envs ex_kernel 1) = 0"
    using ex_env_facts by (auto simp: names_env_def ex_kernel_def ex_env_def)
  then show ?thesis using ipc_send_errors [of ex_kernel "0x1001" 1 0 7 0] by simp
qed

text \<open>
  The permission check of the system calls: what \<^verbatim>\<open>envid2env\<close> lets an environment act on is itself
  or a child of it, has the identifier asked for, and is not free.
\<close>

theorem envid2env_permission:
  assumes "envid2env envid True s = Some (r, e)" "curenv s = Some c"
  shows "r = 0 \<and> (e = Some c \<or> (\<exists>k. e = Some k \<and> env_parent_id (envs s k) = env_id (envs s c))) \<and>
      (envid \<noteq> 0 \<longrightarrow> (\<exists>k. e = Some k \<and> names_env s envid k)) \<or>
    r = - E_BAD_ENV \<and> e = None"
  using assms by (auto simp: envid2env_def names_env_def Let_def split: if_splits)

theorem envid2env_permission_witness: "envid2env 0x1001 True ex_kernel = Some (- 2, None)"
proof -
  have "envid2env 0x1001 True ex_kernel = Some (- E_BAD_ENV, None)"
    using ex_env_facts by (simp add: envid2env_def ex_kernel_def ex_env_def)
  then show ?thesis using envid2env_permission [of "0x1001" ex_kernel "- E_BAD_ENV" None 0]
    by (simp add: ex_kernel_def)
qed

lemma slot_mod: "e < 1024 \<Longrightarrow> (q * 2048 + e) mod 1024 = (e :: nat)"
proof -
  assume "e < 1024"
  moreover have "q * 2048 + e = e + 1024 * (2 * q)" by simp
  ultimately show ?thesis by (simp only: mod_mult_self2 mod_less)
qed

lemma slot_eq:
  assumes "e < 1024" "e' < (1024 :: nat)"
  shows "(q * 2048 + e = q' * 2048 + e') = (e = e' \<and> q = q')"
proof -
  have "(x * 2048 + y) div 2048 = x \<and> (x * 2048 + y) mod 2048 = y" if "y < 1024" for x y :: nat
    using that by simp
  then show ?thesis using assms by metis
qed

lemma unat_push_11: "unat (push_bit 11 (w :: u32)) = unat w mod 2 ^ 21 * 2048"
proof -
  have "unat (push_bit 11 w) = unat w * 2048 mod 2 ^ 32"
    by (simp add: push_bit_eq_mult unat_word_ariths)
  then show ?thesis using mult_mod_left [of "unat w" "2 ^ 21" 2048] by simp
qed

lemma mkenvid_val:
  assumes "e < NENV"
  shows "unat (fst (mkenvid e s)) = unat (mkenvid_i s + 1) mod 2 ^ 21 * 2048 + e"
proof -
  let ?i = "mkenvid_i s + 1"
  have "push_bit 11 ?i AND word_of_nat e = 0"
  proof (rule bit_word_eqI)
    fix n
    have "bit (word_of_nat e :: u32) n \<Longrightarrow> n < 11"
    proof (rule ccontr)
      assume "bit (word_of_nat e :: u32) n" "\<not> n < 11"
      then have "bit e n" "n \<ge> 11" by (auto simp: bit_simps)
      moreover have "e < 2 ^ 11" using assms by simp
      then have "e < 2 ^ n" using \<open>n \<ge> 11\<close> by (meson less_le_trans one_le_numeral power_increasing)
      ultimately show False by (simp add: bit_iff_odd)
    qed
    then show "bit (push_bit 11 ?i AND word_of_nat e) n = bit (0 :: u32) n"
      by (auto simp: bit_simps)
  qed
  then have "push_bit 11 ?i OR word_of_nat e = push_bit 11 ?i + word_of_nat e"
    by (simp add: disjunctive_add_eq_or)
  moreover have "unat (push_bit 11 ?i) = unat ?i mod 2 ^ 21 * 2048"
    by (rule unat_push_11)
  moreover have "unat ?i mod 2 ^ 21 * 2048 + e < 2 ^ 32"
  proof -
    have "unat ?i mod 2 ^ 21 \<le> 2 ^ 21 - 1" by (simp add: less_Suc_eq_le [symmetric])
    then show ?thesis using assms by simp
  qed
  ultimately show ?thesis using assms
    by (simp add: mkenvid_def Let_def unat_word_ariths unat_of_nat)
qed

text \<open>
  Identifiers: the low bits of an identifier give the slot of the environment, and two
  identifiers are the same only for the same slot and creation counters that agree modulo
  \<open>2 ^ 21\<close>; none is 0 until the counter wraps.
\<close>

theorem mkenvid_unique:
  assumes "e < NENV" "e' < NENV"
  shows "ENVX (fst (mkenvid e s)) = e \<and>
    (fst (mkenvid e s) = fst (mkenvid e' s') \<longleftrightarrow>
       e = e' \<and> unat (mkenvid_i s + 1) mod 2 ^ 21 = unat (mkenvid_i s' + 1) mod 2 ^ 21) \<and>
    (unat (mkenvid_i s + 1) mod 2 ^ 21 \<noteq> 0 \<longrightarrow> fst (mkenvid e s) \<noteq> 0)"
proof (intro conjI impI)
  have m: "(word_of_nat NENV - 1 :: u32) = mask 10" by (simp add: mask_eq_exp_minus_1)
  have "ENVX w = unat w mod 1024" for w
    unfolding ENVX_def m take_bit_eq_mask [symmetric] unsigned_take_bit_eq
    by (simp add: take_bit_eq_mod)
  then show "ENVX (fst (mkenvid e s)) = e"
    using slot_mod [of e] assms(1) mkenvid_val [OF assms(1), of s] by simp
next
  have eq: "fst (mkenvid e s) = fst (mkenvid e' s') \<longleftrightarrow>
    unat (mkenvid_i s + 1) mod 2 ^ 21 * 2048 + e = unat (mkenvid_i s' + 1) mod 2 ^ 21 * 2048 + e'"
    unfolding word_unat_eq_iff mkenvid_val [OF assms(1)] mkenvid_val [OF assms(2)] ..
  show "fst (mkenvid e s) = fst (mkenvid e' s') \<longleftrightarrow>
      e = e' \<and> unat (mkenvid_i s + 1) mod 2 ^ 21 = unat (mkenvid_i s' + 1) mod 2 ^ 21"
    unfolding eq using assms by (intro slot_eq) simp_all
next
  assume "unat (mkenvid_i s + 1) mod 2 ^ 21 \<noteq> 0"
  then have "unat (fst (mkenvid e s)) \<noteq> 0" using mkenvid_val [OF assms(1), of s] by simp
  then show "fst (mkenvid e s) \<noteq> 0" by auto
qed

theorem mkenvid_unique_witness: "ENVX (fst (mkenvid 5 ex_kernel)) = 5"
  using mkenvid_unique [of 5 5 ex_kernel ex_kernel] by simp

text \<open>
  The range check of the system calls: every byte of a range it lets pass lies between
  \<^verbatim>\<open>UTEMP\<close> and \<^verbatim>\<open>UTOP\<close>, and the range does not wrap.
\<close>

theorem va_range_sound:
  assumes "\<not> is_illegal_va_range va n" "k < n"
  shows "\<not> is_illegal_va (va + k) \<and> unat (va + k) = unat va + unat k"
  using range_no_wrap [OF assms] by (simp add: is_illegal_va_def not_less not_le)

theorem va_range_sound_witness: "\<not> is_illegal_va (0x7f3fdffc + 3)"
  using va_range_sound [of "0x7f3fdffc" 4 3] by (simp add: is_illegal_va_range_def)

text \<open>
  C39. The device check of \<^verbatim>\<open>sys_write_dev\<close> and \<^verbatim>\<open>sys_read_dev\<close> confines accesses to the console and
  the IDE registers only as long as \<open>pa + len\<close> does not wrap: with \<open>pa = 0xffffffff\<close> and
  \<open>len = 1\<close> the call goes through, and a user writes the byte of the kernel's memory at
  \<open>KSEG1 + pa\<close>, the last of kseg0.
\<close>

theorem dev_range_wraps:
  "(\<forall>pa n. valid_pa pa n \<and> unat pa + unat n < 2 ^ 32 \<longrightarrow>
      0x180003f8 \<le> unat pa \<and> unat pa + unat n \<le> 0x18000418 \<or>
      0x180001f0 \<le> unat pa \<and> unat pa + unat n \<le> 0x180001f8) \<and>
   (\<forall>hw va s. \<not> is_illegal_va va \<longrightarrow>
      sys_write_dev hw va 0xffffffff 1 s = do { (_, s) \<leftarrow> memcpy hw 0x9fffffff va 1 s; ret 0 s })"
proof (intro conjI allI impI)
  fix pa n :: u32 assume "valid_pa pa n \<and> unat pa + unat n < 2 ^ 32"
  then show "0x180003f8 \<le> unat pa \<and> unat pa + unat n \<le> 0x18000418 \<or>
      0x180001f0 \<le> unat pa \<and> unat pa + unat n \<le> 0x180001f8"
    by (elim conjE) (rule valid_pa_cases)
next
  fix hw :: "kstate mem_ops" and va s assume legal: "\<not> is_illegal_va va"
  have "\<not> is_illegal_va_range va 1"
  proof -
    have b: "UTEMP \<le> va" "va < UTOP" using legal by (auto simp: is_illegal_va_def)
    then have "unat (va + 1) = unat va + 1" by (simp add: word_less_nat_alt unat_word_ariths)
    then show ?thesis using b
      by (simp add: is_illegal_va_range_def word_less_nat_alt word_le_nat_alt not_less not_le)
  qed
  moreover have "valid_pa 0xffffffff 1" by (simp add: valid_pa_def)
  moreover have k: "KSEG1 + 0xffffffff = 0x9fffffff" by code_simp
  ultimately show "sys_write_dev hw va 0xffffffff 1 s =
      do { (_, s) \<leftarrow> memcpy hw 0x9fffffff va 1 s; ret 0 s }"
    unfolding sys_write_dev_def k by simp
qed

theorem dev_range_wraps_witness:
  "sys_write_dev ex_hw 0x400000 0xffffffff 1 ex_kernel =
    do { (_, s) \<leftarrow> memcpy ex_hw 0x9fffffff 0x400000 1 ex_kernel; ret 0 s }"
  using dev_range_wraps by (simp add: is_illegal_va_def)

text \<open>
  An unknown system call number is answered with \<^verbatim>\<open>-E_NO_SYS\<close> in \<^verbatim>\<open>v0\<close>, but, unlike for the known
  ones, the return address stays at the \<^verbatim>\<open>syscall\<close> instruction, so the program makes the same call
  again for ever.
\<close>

theorem do_syscall_unknown:
  assumes "sint (tf_regs (kstack_tf s) 4) < 0 \<or> sint (tf_regs (kstack_tf s) 4) \<ge> MAX_SYSNO"
  shows "\<exists>t. do_syscall hw junk s = Some t \<and> tf_regs (kstack_tf t) 2 = - 5 \<and>
    cp0_epc (kstack_tf t) = cp0_epc (kstack_tf s) \<and> tf_regs (kstack_tf t) 4 = tf_regs (kstack_tf s) 4 \<and>
    do_syscall hw junk t = Some t"
  using assms by (simp add: do_syscall_def Let_def set_reg_def)

theorem do_syscall_unknown_witness:
  "\<exists>t. do_syscall ex_hw 0 (ex_kernel\<lparr>kstack_tf := set_reg 4 99 ex_tf\<rparr>) = Some t \<and>
     cp0_epc (kstack_tf t) = 0x400000"
  using do_syscall_unknown [of "ex_kernel\<lparr>kstack_tf := set_reg 4 99 ex_tf\<rparr>" ex_hw 0]
  by (auto simp: set_reg_def ex_tf_def)

text \<open>
  C40. Destroying an environment that was never put into the scheduling queue, such as a child just made
  by \<^verbatim>\<open>sys_exofork\<close> in a fresh slot, stops the machine: \<^verbatim>\<open>env_free\<close> takes it off the queue
  unconditionally, through the null pointer its link still is.
\<close>

theorem destroy_unqueued_panics:
  assumes "le_prev (tq_links (env_sched_list s)) e = None" "names_env s envid e"
    "curenv s = Some c" "env_parent_id (envs s e) = env_id (envs s c)"
  shows "sys_env_destroy envid s = None"
proof -
  have f: "env_free e t = None" if "printk fmt ap s = Some t" for fmt ap t
    using env_free_unqueued [of t e] printk_queue [OF that] assms(1) by simp
  have "try_env envid True k s = k e" for k
    using assms(2-4) by (auto simp: try_env_def envid2env_def names_env_def)
  then show ?thesis
    using assms(3) f by (auto simp: sys_env_destroy_def env_destroy_def split: bind_split)
qed

theorem destroy_unqueued_panics_witness:
  "sys_env_destroy 0x1001 (ex_kernel\<lparr>env_sched_list := no_queue,
     envs := (envs ex_kernel)(1 := (ex_env 1)\<lparr>env_parent_id := 0x800\<rparr>)\<rparr>) = None"
  by (rule destroy_unqueued_panics [where e = 1 and c = 0])
    (simp_all add: no_queue_def names_env_def ex_env_facts, simp_all add: ex_kernel_def ex_env_def)

end
