(* ===== verification/MemCalls.thy ===== *)
theory MemCalls
  imports MapTotal Syscall Transparency
begin

text \<open>
  The system calls on memory keep the kernel consistent: \<open>kvm_ok\<close> is the invariant \<open>remap_ok\<close> over the
  directories of the environments in use. What a process sees after \<^verbatim>\<open>sys_mem_alloc\<close>,
  \<^verbatim>\<open>sys_mem_unmap\<close> and \<^verbatim>\<open>sys_mem_map\<close>, and where the calls go wrong.
\<close>

section \<open>The invariant of the kernel\<close>

definition live :: "kstate \<Rightarrow> nat set" where
  "live s = {e. e < NENV \<and> env_status (envs s e) \<noteq> ENV_FREE}"

definition dirs :: "kstate \<Rightarrow> nat set" where
  "dirs s = (\<lambda>e. env_pgdir (envs s e)) ` live s"

definition kvm_ok :: "(nat \<Rightarrow> u32) \<Rightarrow> kstate \<Rightarrow> bool" where
  "kvm_ok A s \<longleftrightarrow>
     remap_ok (dirs s) A (km s) \<and> inj_on (\<lambda>e. env_pgdir (envs s e)) (live s) \<and>
     (\<forall>e \<in> live s. A (env_pgdir (envs s e)) = env_asid (envs s e)) \<and>
     (\<forall>e. curenv s = Some e \<longrightarrow> e \<in> live s)"

lemma kvm_okD:
  assumes "kvm_ok A s"
  shows kvm_remap: "remap_ok (dirs s) A (km s)"
    and kvm_asid: "e \<in> live s \<Longrightarrow> A (env_pgdir (envs s e)) = env_asid (envs s e)"
    and kvm_cur: "curenv s = Some e \<Longrightarrow> e \<in> live s"
  using assms by (auto simp: kvm_ok_def)

lemma dirs_live: "e \<in> live s \<Longrightarrow> env_pgdir (envs s e) \<in> dirs s"
  by (simp add: dirs_def)

text \<open>A step of the memory manager.\<close>

lemma km_frame [simp]: "live (s\<lparr>km := m\<rparr>) = live s" "dirs (s\<lparr>km := m\<rparr>) = dirs s"
  by (simp_all add: live_def dirs_def)

lemma kvm_ok_km:
  assumes "kvm_ok A s" "remap_ok (dirs s) A m"
  shows "kvm_ok A (s\<lparr>km := m\<rparr>)"
  using assms by (simp add: kvm_ok_def)

text \<open>An environment a system call names is in use.\<close>

lemma ENVX_less: "ENVX envid < NENV"
proof -
  have "envid AND 0x3FF \<le> 0x3FF" by (rule word_and_le1)
  then have "unat (envid AND 0x3FF) \<le> unat (0x3FF :: u32)" by (simp only: word_le_nat_alt)
  then show ?thesis by (simp add: ENVX_def)
qed

lemma envid2env_live:
  assumes "kvm_ok A s" "envid2env envid perm s = Some (0, Some e)"
  shows "e \<in> live s"
  using assms(2) kvm_cur [OF assms(1)] ENVX_less [of envid]
  by (auto simp: envid2env_def live_def Let_def split: if_splits option.splits)

lemma legal_PDX:
  assumes "\<not> is_illegal_va va"
  shows "PDX va < NUPDE"
proof -
  have va: "unat va < 509 * 0x400000" using assms by (simp add: is_illegal_va_def word_less_nat_alt word_le_nat_alt)
  have "drop_bit 22 va AND 0x3FF \<le> drop_bit 22 va" by (rule word_and_le2)
  then have "PDX va \<le> unat (drop_bit 22 va)" by (simp add: PDX_def word_le_nat_alt)
  also have "unat (drop_bit 22 va) = unat va div 0x400000"
    by (simp only: unat_drop_bit_eq) (simp add: drop_bit_eq_div)
  also have "\<dots> < 509" using va by (simp add: less_mult_imp_div_less)
  finally show ?thesis by (simp add: NUPDE_def PDX_def)
qed

lemma fresh_room:
  assumes "fresh_page D s p"
  shows "room D s p" "maps_other s d va p \<or> d \<notin> D \<or> \<not> PDX va < NUPDE" "pp_ref s p = 0"
proof -
  show "room D s p" "pp_ref s p = 0" using assms by (simp_all add: room_def in_use_def fresh_page_def)
  show "maps_other s d va p \<or> d \<notin> D \<or> \<not> PDX va < NUPDE"
  proof (cases "d \<in> D \<and> PDX va < NUPDE \<and> valid_pte (pmem s d (PDX va))")
    case True
    then have "uloc s d va \<in> ulocs D s" by (intro uloc_ulocs(1)) auto
    then show ?thesis using assms by (auto simp: maps_other_def fresh_page_def)
  qed (auto simp: maps_other_def)
qed

section \<open>An example\<close>

text \<open>
  Page 0 is a directory, page 1 its only table, and page 2 a page mapped at \<^verbatim>\<open>UTEXT\<close> and at the page
  above it, and registered at both; five pages and three records are free. One environment is in use.
\<close>

definition ex_pair :: kmem where
  "ex_pair = ex_vm\<lparr>npage := 8, page_free_list := [3, 4, 5, 6, 7],
     pmem := (\<lambda>p i. if p = 0 \<and> i = 1 then 0x1680 else if p = 1 \<and> i < 2 then 0x2780
                    else if p = 2 then 7 else 0),
     pp_ref := (\<lambda>p. if p < 2 then 1 else if p = 2 then 2 else 0),
     swap_tbl := (\<lambda>p. if p = 2 then [0, 1] else []), swapInfo_free_list := [2, 3, 4],
     swapInfos := (\<lambda>i. \<lparr>si_pgdir = 0, si_asid = 0, si_va = (if i = 0 then UTEXT else 0x401000)\<rparr>)\<rparr>"

definition ex_sys :: kstate where
  "ex_sys = ex_kernel\<lparr>km := ex_pair,
     envs := (\<lambda>e. (ex_env e)\<lparr>env_status := (if e = 0 then ENV_RUNNABLE else ENV_FREE)\<rparr>)\<rparr>"

lemma ex_pair_sel [simp]:
  "npage ex_pair = 8" "page_free_list ex_pair = [3, 4, 5, 6, 7]" "page_swap_queue ex_pair = [2]"
  "swap_tbl ex_pair = (\<lambda>p. if p = 2 then [0, 1] else [])" "swapInfo_free_list ex_pair = [2, 3, 4]"
  "bno_tbl ex_pair = (\<lambda>_. [])" "pp_ref ex_pair = (\<lambda>p. if p < 2 then 1 else if p = 2 then 2 else 0)"
  by (simp_all add: ex_pair_def ex_vm_def)

lemma ex_vals2: "PDX 0x401000 = 1" "PTX 0x401000 = 1" "PDX 0x402000 = 1" "PTX 0x402000 = 2"
  "PTE_ADDR 0x401000 = 0x401000" "PTE_ADDR 0x400000 = 0x400000"
  by code_simp+

lemma ex_pair_dir: "pmem ex_pair 0 i = (if i = 1 then 0x1680 else 0)"
  by (simp add: ex_pair_def)

lemma ex_pair_slots: "slots {0} ex_pair = {(0, 1)}" "tables {0} ex_pair = {1}" "ulocs {0} ex_pair = {(1, j) | j. j < 1024}"
proof -
  show s: "slots {0} ex_pair = {(0, 1)}" by (auto simp: slots_def ex_pair_dir ex_vals NUPDE_val split: if_splits)
  show t: "tables {0} ex_pair = {1}" by (simp add: tables_slots s ex_pair_dir ex_vals)
  show "ulocs {0} ex_pair = {(1, j) | j. j < 1024}" by (auto simp: ulocs_def t)
qed

lemma ex_pair_load: "pload ex_pair (Suc 0, j) = (if j < 2 then 0x2780 else 0)"
  by (simp add: pload_def ex_pair_def)

lemma ex_pair_loc: "uloc ex_pair 0 0x400000 = (1, 0)" "uloc ex_pair 0 0x401000 = (1, 1)" "uloc ex_pair 0 0x402000 = (1, 2)"
  "sloc ex_pair i = (1, if i = 0 then 0 else 1)"
  by (simp_all add: uloc_def sloc_def ex_pair_dir ex_vals ex_vals2) (simp add: ex_pair_def ex_vals ex_vals2)

lemma ex_pair_view:
  "uview ex_pair 0 0x400000 = Some (0x700, \<lambda>_. 7)" "uview ex_pair 0 0x401000 = Some (0x700, \<lambda>_. 7)"
  "uview ex_pair 0 0x402000 = None"
  by (simp_all add: uview_def ex_pair_loc ex_pair_dir ex_vals ex_vals2 lview_def ex_pair_load Let_def) (simp_all add: ex_pair_def)

lemma ex_pair_infos: "infos ex_pair = {0, 1}"
  by (auto simp: infos_def split: if_splits)

lemma ex_pair_wf: "swap_wf {0} ex_pair"
proof (rule swap_wfI)
  show "inj_on (sloc ex_pair) (infos ex_pair)" by (simp add: ex_pair_infos ex_pair_loc)
  show "info_ok {0} ex_pair si" for si
    by (simp add: info_ok_def ex_pair_dir ex_vals ex_vals2 NUPDE_val Let_def) (simp add: ex_pair_def ex_vals ex_vals2)
  show "valid_pte (pload ex_pair (sloc ex_pair si)) \<and> \<not> swapped_pte (pload ex_pair (sloc ex_pair si)) \<and>
      PPN (pload ex_pair (sloc ex_pair si)) = p" if "si \<in> set (swap_tbl ex_pair p)" for p si
    using that by (simp add: ex_pair_loc ex_pair_load ex_vals split: if_splits)
  show "PPN (pload ex_pair l) \<notin> {0} \<union> tables {0} ex_pair \<and>
      PPN (pload ex_pair l) \<notin> set (page_free_list ex_pair) \<and>
      (PPN (pload ex_pair l) \<in> set (page_swap_queue ex_pair) \<longrightarrow>
         l \<in> sloc ex_pair ` set (swap_tbl ex_pair (PPN (pload ex_pair l))))"
    if "l \<in> ulocs {0} ex_pair" "valid_pte (pload ex_pair l)" for l
    using that by (auto simp: ex_pair_slots ex_pair_load ex_pair_loc ex_vals less_2_cases_iff split: if_splits)
  show "l \<in> sloc ex_pair ` set (bno_tbl ex_pair (PPN (pload ex_pair l)))"
    if "l \<in> ulocs {0} ex_pair" "\<not> valid_pte (pload ex_pair l)" "swapped_pte (pload ex_pair l)" for l
    using that by (auto simp: ex_pair_slots ex_pair_load ex_vals split: if_splits)
qed (auto simp: ex_pair_slots split: if_splits)

lemma ex_pair_ok: "remap_ok {0} (\<lambda>_. 0) ex_pair"
proof (rule remap_okI [OF ex_pair_wf])
  have m: "mappers {0} ex_pair p \<subseteq> (if p = 2 then {(1, 0), (1, 1)} else {})" for p
    by (auto simp: mappers_def ex_pair_slots ex_pair_load ex_vals split: if_splits)
  show "card (mappers {0} ex_pair p) \<le> unat (pp_ref ex_pair p)" for p
  proof -
    have "card (mappers {0} ex_pair p) \<le> card (if p = 2 then {(1 :: nat, 0 :: nat), (1, 1)} else {})"
      by (rule card_mono [OF _ m]) simp
    also have "\<dots> \<le> unat (pp_ref ex_pair p)" by simp
    finally show ?thesis .
  qed
  show "PPN (pload ex_pair l) < npage ex_pair" if "l \<in> ulocs {0} ex_pair" "valid_pte (pload ex_pair l)" for l
    using that by (auto simp: ex_pair_slots ex_pair_load ex_vals split: if_splits)
  show "si_asid (swapInfos ex_pair si) = 0" for si by (simp add: ex_pair_def)
qed (simp_all add: ex_pair_slots ex_pair_infos)

lemma ex_sys_ok: "kvm_ok (\<lambda>_. 0) ex_sys"
proof -
  have l: "live ex_sys = {0}" by (auto simp: live_def ex_sys_def split: if_splits)
  then have "dirs ex_sys = {0}" by (simp add: dirs_def ex_sys_def ex_kernel_def ex_env_def)
  then show ?thesis using ex_pair_ok l by (simp add: kvm_ok_def) (simp add: ex_sys_def ex_kernel_def ex_env_def)
qed

lemma ex_sys_sel [simp]: "km ex_sys = ex_pair" "envid2env 0 p ex_sys = Some (0, Some 0)" "env_pgdir (envs ex_sys e) = e"
  by (simp_all add: ex_sys_def ex_kernel_def envid2env_def ex_env_def)

lemma ex_legal: "\<not> is_illegal_va 0x400000" "\<not> is_illegal_va 0x401000" "\<not> is_illegal_va 0x402000" "(0x400000 :: u32) \<noteq> UCOW"
  by code_simp+

lemma ex_dirs: "dirs ex_sys = {0}"
  by (auto simp: dirs_def live_def ex_sys_def ex_kernel_def ex_env_def split: if_splits)

section \<open>Allocating and unmapping\<close>

lemma mem_alloc_runs:
  assumes "kvm_ok A s" "\<not> is_illegal_va va" "envid2env envid True s = Some (0, Some e)"
    and "3 \<le> length (page_free_list (km s))" "swapInfo_free_list (km s) \<noteq> []"
  shows "\<exists>t. sys_mem_alloc envid va perm s = Some (Some 0, t)"
proof -
  let ?d = "env_pgdir (envs s e)" and ?D = "dirs s"
  note ok = kvm_remap [OF assms(1)]
  have e: "e \<in> live s" by (rule envid2env_live [OF assms(1,3)])
  have d: "?d \<in> ?D" "PDX va < NUPDE" using dirs_live [OF e] legal_PDX [OF assms(2)] by auto
  have "page_free_list (km s) \<noteq> []" using assms(4) by auto
  from alloc_free [OF remap_wf [OF ok] this]
  obtain p rest where al: "page_free_list (km s) = p # rest" "page_alloc (km s) = Some (0, p, page_take (km s) p rest)" by blast
  let ?m = "page_take (km s) p rest"
  note pa = page_alloc_steps [OF remap_wf [OF ok] al(2)] and okm = page_alloc_remap(1) [OF ok al(2)]
  note fr = fresh_room [OF pa(4)]
  have use: "in_use ?D ?m p" using fr(1) by (simp add: room_def)
  have other: "maps_other ?m ?d va p" using fr(2) d by blast
  have two: "2 \<le> length (page_free_list ?m)" "swapInfo_free_list ?m \<noteq> []" using al(1) assms(4,5) by (simp_all add: page_take_def)
  obtain m2 where ins: "page_insert ?d (A ?d) p va perm ?m = Some (0, m2)" and rec: "swapInfo_free_list m2 \<noteq> []"
    using page_insert_total [OF okm d use other two(1)] two(2) by blast
  obtain u where u: "remap_ok ?D A u" "page_swap_queue m2 = page_swap_queue u" "swap_tbl m2 = swap_tbl u"
    using insert_run [OF okm d fr(1) other ins] by (auto simp: mem_write_def)
  have "p \<in> set (page_swap_queue m2) \<longleftrightarrow> swap_tbl m2 p \<noteq> []" using swap_wf_queue(2) [OF remap_wf [OF u(1)]] u(2,3) by simp
  then obtain n where "swap_register p ?d va (A ?d) m2 = Some n"
    using rec by (cases "swap_tbl m2 p = []"; cases "swapInfo_free_list m2") (simp_all add: swap_register_def lst_insert_tail_def)
  then show ?thesis
    using assms(2,3) al(2) ins kvm_asid [OF assms(1) e]
    by (simp add: sys_mem_alloc_def try_env_def kpage_alloc_def with_km_def with_km'_def ret_def Let_def)
qed

lemma mem_alloc_result:
  assumes "kvm_ok A s" "\<not> is_illegal_va va" "envid2env envid True s = Some (0, Some e)" "PTE_FLAGS perm = perm"
    and "sys_mem_alloc envid va perm s = Some (r, t)"
  shows "r = Some 0 \<and> kvm_ok A t \<and>
    shows_at (dirs s) (env_pgdir (envs s e)) va (perms perm OR PTE_C_CACHEABLE, \<lambda>_. 0) (km s) (km t)"
proof -
  let ?d = "env_pgdir (envs s e)" and ?D = "dirs s"
  note ok = kvm_remap [OF assms(1)]
  have e: "e \<in> live s" by (rule envid2env_live [OF assms(1,3)])
  have d: "?d \<in> ?D" "PDX va < NUPDE" using dirs_live [OF e] legal_PDX [OF assms(2)] by auto
  obtain r1 p m where al: "page_alloc (km s) = Some (r1, p, m)"
    using assms(2,3,5) by (auto simp: sys_mem_alloc_def try_env_def kpage_alloc_def elim!: bind_SomeE)
  note pa = page_alloc_steps [OF remap_wf [OF ok] al]
  obtain r2 m2 n where ins: "page_insert ?d (A ?d) p va perm m = Some (r2, m2)"
    and reg: "swap_register p ?d va (A ?d) m2 = Some n" and rt: "r = Some r2" "t = s\<lparr>km := n\<rparr>"
    using assms(2,3,5) al pa(1) kvm_asid [OF assms(1) e]
    by (auto simp: sys_mem_alloc_def try_env_def kpage_alloc_def with_km_def with_km'_def ret_def Let_def elim!: bind_SomeE)
  have ok_m: "remap_ok ?D A m" by (rule page_alloc_remap(1) [OF ok al])
  note fr = fresh_room [OF pa(4)]
  have other: "maps_other m ?d va p" using fr(2) d by blast
  have small: "unat (pp_ref m p) < 65535" by (simp add: fr(3))
  note mp = map_page [OF ok_m d fr(1) other assms(4) small ins, where reg = True and v = n]
  have "r2 = 0" "remap_ok ?D A n" "shows_at ?D ?d va (perms perm OR PTE_C_CACHEABLE, pmem m p) m n"
    using mp reg fr(3) by auto
  moreover have "uview m d' va' = uview (km s) d' va'" if "d' \<in> ?D" "PDX va' < NUPDE" for d' va'
    by (rule keptD(8) [OF pa(3) that])
  ultimately show ?thesis
    using kvm_ok_km [OF assms(1)] by (simp add: rt shows_at_def pa(5))
qed

text \<open>
  C3. \<^verbatim>\<open>sys_mem_alloc\<close> maps a page of zeros. In a consistent kernel, for a legal address and an environment
  the caller may name: when it returns, it returns 0, the kernel is consistent, the environment sees zeros
  at the address, with the permission asked for, and every other view of every process is what it was,
  even when pages had to be evicted or the address was mapped before. And it does return when three pages are
  free (the page, a page table, and the page of what was swapped out at the address) and a record is.
\<close>

theorem mem_alloc_maps:
  assumes "kvm_ok A s" "\<not> is_illegal_va va" "envid2env envid True s = Some (0, Some e)" "PTE_FLAGS perm = perm"
  shows "(\<forall>r t. sys_mem_alloc envid va perm s = Some (r, t) \<longrightarrow> r = Some 0 \<and> kvm_ok A t \<and>
      shows_at (dirs s) (env_pgdir (envs s e)) va (perms perm OR PTE_C_CACHEABLE, \<lambda>_. 0) (km s) (km t)) \<and>
    (3 \<le> length (page_free_list (km s)) \<and> swapInfo_free_list (km s) \<noteq> [] \<longrightarrow>
      (\<exists>t. sys_mem_alloc envid va perm s = Some (Some 0, t)))"
  using mem_alloc_result [OF assms] mem_alloc_runs [OF assms(1-3)] by blast

theorem mem_alloc_maps_witness:
  "\<exists>t. sys_mem_alloc 0 0x400000 0x400 ex_sys = Some (Some 0, t) \<and> kvm_ok (\<lambda>_. 0) t \<and>
    uview (km t) 0 0x400000 = Some (0x600, \<lambda>_. 0) \<and> uview (km t) 0 0x401000 = Some (0x700, \<lambda>_. 7)"
proof -
  have flags: "PTE_FLAGS 0x400 = 0x400" "perms 0x400 OR 0x600 = 0x600" by code_simp+
  note run = mem_alloc_maps [OF ex_sys_ok ex_legal(1) _ flags(1), of 0 0]
  obtain t where t: "sys_mem_alloc 0 0x400000 0x400 ex_sys = Some (Some 0, t)" using run by auto
  have "kvm_ok (\<lambda>_. 0) t" "shows_at {0} 0 0x400000 (0x600, \<lambda>_. 0) ex_pair (km t)"
    using run t by (simp_all add: ex_dirs flags(2))
  then show ?thesis using t by (simp add: shows_at_def NUPDE_val ex_vals ex_vals2 ex_pair_view)
qed

lemma mem_unmap_result:
  assumes "kvm_ok A s" "\<not> is_illegal_va va" "envid2env envid True s = Some (0, Some e)"
    and "sys_mem_unmap envid va s = Some (r, t)"
  shows "r = Some 0 \<and> kvm_ok A t \<and> blanked (dirs s) (env_pgdir (envs s e)) va (km s) (km t)"
proof -
  let ?d = "env_pgdir (envs s e)" and ?D = "dirs s"
  note ok = kvm_remap [OF assms(1)]
  have e: "e \<in> live s" by (rule envid2env_live [OF assms(1,3)])
  have d: "?d \<in> ?D" "PDX va < NUPDE" using dirs_live [OF e] legal_PDX [OF assms(2)] by auto
  obtain n where run: "page_remove ?d (A ?d) va (km s) = Some n" and rt: "r = Some 0" "t = s\<lparr>km := n\<rparr>"
    using assms(2-4) kvm_asid [OF assms(1) e]
    by (auto simp: sys_mem_unmap_def try_env_def with_km_def ret_def elim!: bind_SomeE)
  note pr = page_remove_remap [OF ok d run]
  have "blanked ?D ?d va (km s) n" using pr(4) by (simp add: blanked_def)
  then show ?thesis using kvm_ok_km [OF assms(1) pr(1)] by (simp add: rt)
qed

text \<open>
  C5. \<^verbatim>\<open>sys_mem_unmap\<close> unmaps. In a consistent kernel, when it returns, it returns 0, the kernel is
  consistent, nothing is seen at the address any more, wherever its page was, and every other view is
  what it was: no other mapping of the page is lost.
\<close>

theorem mem_unmap_unmaps:
  assumes "kvm_ok A s" "\<not> is_illegal_va va" "envid2env envid True s = Some (0, Some e)"
    and "sys_mem_unmap envid va s = Some (r, t)"
  shows "r = Some 0 \<and> kvm_ok A t \<and> blanked (dirs s) (env_pgdir (envs s e)) va (km s) (km t)"
  by (rule mem_unmap_result [OF assms])

theorem mem_unmap_unmaps_witness:
  "\<exists>t. sys_mem_unmap 0 0x400000 ex_sys = Some (Some 0, t) \<and> kvm_ok (\<lambda>_. 0) t \<and>
    uview (km t) 0 0x400000 = None \<and> uview (km t) 0 0x401000 = Some (0x700, \<lambda>_. 7)"
proof -
  have "PDX 0x400000 < NUPDE" by (simp add: NUPDE_val ex_vals)
  then obtain n where "page_remove 0 (env_asid (envs ex_sys 0)) 0x400000 ex_pair = Some n"
    using page_remove_total [OF ex_pair_ok, of 0 "0x400000" "env_asid (envs ex_sys 0)"] by auto
  then obtain t where t: "sys_mem_unmap 0 0x400000 ex_sys = Some (Some 0, t)"
    using ex_legal(1) by (simp add: sys_mem_unmap_def try_env_def with_km_def ret_def)
  have "kvm_ok (\<lambda>_. 0) t" "blanked {0} 0 0x400000 ex_pair (km t)"
    using mem_unmap_unmaps [OF ex_sys_ok ex_legal(1) _ t] by (simp_all add: ex_dirs)
  then show ?thesis using t by (simp add: blanked_def NUPDE_val ex_vals ex_vals2 ex_pair_view)
qed

section \<open>Sharing a page\<close>

text \<open>No count is about to wrap.\<close>

definition refs_fit :: "kmem \<Rightarrow> bool" where
  "refs_fit s \<longleftrightarrow> (\<forall>p. unat (pp_ref s p) < 65535) \<and> (\<forall>b. length (bno_tbl s b) < 65535)"

lemma refs_fit_lookup:
  assumes ok: "remap_ok D A s" and d: "d \<in> D" "PDX va < NUPDE" and run: "page_lookup d va s = Some (pp, pte, t)"
    and free: "page_free_list s \<noteq> []" and fit: "refs_fit s"
  shows "refs_fit t"
proof -
  have acc: "refs_fit (u\<lparr>accessed := a\<rparr>) = refs_fit u" for u a by (simp add: refs_fit_def)
  have swp: "refs_fit u" if v: "valid_pte (pmem s d (PDX va))" and u: "swap_in_if_needed (Some (uloc s d va)) s = Some u" for u
  proof (cases "\<not> valid_pte (pload s (uloc s d va)) \<and> swapped_pte (pload s (uloc s d va))")
    case True
    let ?l = "uloc s d va"
    have "swap_back (pload s ?l) s = Some u"
      using u True by (cases ?l) (simp add: swap_in_if_needed_def and_PTE_V and_PTE_SWAPPED pload_def
          del: PTE_V_def PTE_SWAPPED_def)
    then obtain q w where al: "page_alloc s = Some (0, q, w)" and t: "u = swapped_in w q (PPN (pload s ?l))"
      using swap_back_result [OF remap_wf [OF ok] uloc_ulocs(1) [OF d v]] True by blast
    have "\<exists>rest. w = page_take s q rest" using page_alloc_cases [OF remap_wf [OF ok] al] free by auto
    then have "pp_ref w = pp_ref s" "bno_tbl w = bno_tbl s" by (auto simp: page_take_def)
    moreover have "length (bno_tbl s b) mod 65536 < 65535" for b
    proof -
      have "length (bno_tbl s b) < 65535" using fit by (simp add: refs_fit_def)
      then show ?thesis by simp
    qed
    ultimately show ?thesis
      using fit by (auto simp: refs_fit_def t swapped_in_fields unat_of_nat take_bit_eq_mod)
  next
    case False
    then have "u = s"
      using u by (cases "uloc s d va") (auto simp: swap_in_if_needed_def and_PTE_V and_PTE_SWAPPED pload_def
          simp del: PTE_V_def PTE_SWAPPED_def)
    then show ?thesis using fit by simp
  qed
  from page_lookup_cases [OF ok d run] show ?thesis
    using swp fit acc by auto
qed

lemma page_lookup_found:
  assumes ok: "remap_ok D A s" and d: "d \<in> D" "PDX va < NUPDE" and run: "page_lookup d va s = Some (Some p, pte, t)"
  shows "in_use D t p" "uview s d va = Some (perms (pload t (uloc t d va)), pmem t p)"
proof -
  note ls = page_lookup_steps [OF remap_wf [OF ok] d run]
  then have t: "swap_wf D t" "same_user D s t" "valid_pte (pload t (uloc t d va))" "PPN (pload t (uloc t d va)) = p" "p < npage t"
    "uview s d va = Some (perms (pload t (uloc t d va)), pmem t p)" by simp_all
  show "uview s d va = Some (perms (pload t (uloc t d va)), pmem t p)" by (rule t(6))
  then have "valid_pte (pmem s d (PDX va))" by (auto simp: uview_def split: if_splits)
  then have "valid_pte (pmem t d (PDX va))" using same_userD(1) [OF t(2) d(1)] by simp
  then have "uloc t d va \<in> ulocs D t" by (intro uloc_ulocs(1) [OF d])
  then show "in_use D t p" using swap_wf_mapped(1) [OF t(1) _ t(3)] t(4,5) by (auto simp: in_use_def)
qed

lemma mem_map_result:
  assumes "kvm_ok A s" "\<not> is_illegal_va srcva" "\<not> is_illegal_va dstva" "srcva \<noteq> UCOW" "PTE_FLAGS perm = perm"
    and "envid2env srcid True s = Some (0, Some se)" "envid2env dstid True s = Some (0, Some de)"
    and "4 \<le> length (page_free_list (km s))" "swapInfo_free_list (km s) \<noteq> []" "refs_fit (km s)"
    and "uview (km s) (env_pgdir (envs s se)) srcva = Some (fl, c)" "uview (km s) (env_pgdir (envs s de)) dstva = None"
  shows "\<exists>t. sys_mem_map srcid srcva dstid dstva perm s = Some (Some 0, t) \<and> kvm_ok A t \<and>
    shows_at (dirs s) (env_pgdir (envs s de)) dstva (perms perm OR PTE_C_CACHEABLE, c) (km s) (km t)"
proof -
  let ?D = "dirs s" and ?sd = "env_pgdir (envs s se)" and ?dd = "env_pgdir (envs s de)"
  note ok = kvm_remap [OF assms(1)]
  have lives: "se \<in> live s" "de \<in> live s" using envid2env_live [OF assms(1)] assms(6,7) by blast+
  have sd: "?sd \<in> ?D" "PDX srcva < NUPDE" and dd: "?dd \<in> ?D" "PDX dstva < NUPDE"
    using dirs_live [OF lives(1)] dirs_live [OF lives(2)] legal_PDX assms(2,3) by auto
  have differ: "se \<noteq> de \<or> PTE_ADDR srcva \<noteq> PTE_ADDR dstva"
    using assms(11,12) uview_page [of srcva dstva "km s"] by auto
  have free: "page_free_list (km s) \<noteq> []" using assms(8) by auto
  obtain o1 l1 m1 where lk1: "page_lookup ?dd dstva (km s) = Some (o1, l1, m1)" and rec1: "swapInfo_free_list m1 \<noteq> []"
    using page_lookup_total [OF ok dd free] assms(9) by auto
  note ls1 = page_lookup_steps [OF remap_wf [OF ok] dd lk1] and lr1 = page_lookup_remap [OF ok dd lk1]
  have none: "o1 = None" using ls1 assms(12) by (cases o1) auto
  have user1: "same_user ?D (km s) m1" using ls1 by blast
  have free1: "page_free_list m1 \<noteq> []" using lr1(3) assms(8) by auto
  obtain o2 l2 m2 where lk2: "page_lookup ?sd srcva m1 = Some (o2, l2, m2)" and rec2: "swapInfo_free_list m2 \<noteq> []"
    using page_lookup_total [OF lr1(1) sd free1] rec1 by auto
  note ls2 = page_lookup_steps [OF remap_wf [OF lr1(1)] sd lk2] and lr2 = page_lookup_remap [OF lr1(1) sd lk2]
  have user2: "same_user ?D m1 m2" using ls2 by blast
  have v1: "uview m1 ?sd srcva = Some (fl, c)" using same_userD(7) [OF user1 sd] assms(11) by simp
  then obtain p where p: "o2 = Some p" using ls2 by (cases o2) auto
  note found = page_lookup_found [OF lr1(1) sd lk2 [unfolded p]]
  have views: "uview m2 d va = uview (km s) d va" if "d \<in> ?D" "PDX va < NUPDE" for d va
    using same_userD(7) [OF user1 that] same_userD(7) [OF user2 that] by simp
  have contents: "pmem m2 p = c" using found(2) v1 by simp
  have room: "room ?D m2 p" using found(1) lr1(3) lr2(3) assms(8) by (simp add: room_def)
  have "uview m2 ?dd dstva = None" using views [OF dd] assms(12) by simp
  then have other: "maps_other m2 ?dd dstva p" by (auto simp: maps_other_def uview_def lview_None)
  have "refs_fit m2"
    using refs_fit_lookup [OF lr1(1) sd lk2 free1] refs_fit_lookup [OF ok dd lk1 free assms(10)] by blast
  then have ref: "unat (pp_ref m2 p) < 65535" by (simp add: refs_fit_def)
  let ?reg = "swap_tbl m2 p \<noteq> []"
  have queue: "p \<in> set (page_swap_queue m2) \<longleftrightarrow> ?reg" by (rule swap_wf_queue(2) [OF remap_wf [OF lr2(1)]])
  have two: "2 \<le> length (page_free_list m2)" using lr1(3) lr2(3) assms(8) by simp
  obtain m3 where ins: "page_insert ?dd (A ?dd) p dstva perm m2 = Some (0, m3)" and rec3: "swapInfo_free_list m3 \<noteq> []"
    using page_insert_total [OF lr2(1) dd found(1) other two] rec2 by blast
  have "swap_tbl m3 p = swap_tbl m2 p"
    using insert_run [OF lr2(1) dd room other ins] by (auto simp: untouched_def mem_write_def)
  then obtain n where reg: "if ?reg then swap_register p ?dd dstva (A ?dd) m3 = Some n else n = m3"
    using rec3 by (cases ?reg; cases "swapInfo_free_list m3") (simp_all add: swap_register_def)
  have run: "sys_mem_map srcid srcva dstid dstva perm s = Some (Some 0, s\<lparr>km := n\<rparr>)"
    using assms(2,3,4,6,7) lk1 lk2 none p differ kvm_asid [OF assms(1) lives(2)] ins reg
    by (auto simp: sys_mem_map_def try_env_def klookup_def with_km_def with_km'_def ret_def Let_def page_swappable_def
        split: if_splits)
  have "if ?reg then swap_register p ?dd dstva (A ?dd) m3 = Some n \<and> (p \<in> set (page_swap_queue m2) \<or> pp_ref m2 p = 0)
      else n = m3 \<and> p \<notin> set (page_swap_queue m2)"
    using reg queue by auto
  note mp = map_page [OF lr2(1) dd room other assms(5) ref ins this]
  have "shows_at ?D ?dd dstva (perms perm OR PTE_C_CACHEABLE, c) (km s) n"
    using mp(3) views by (simp add: shows_at_def contents)
  then show ?thesis using run kvm_ok_km [OF assms(1) mp(2)] by simp
qed

text \<open>
  C4. \<^verbatim>\<open>sys_mem_map\<close> shares a page. In a consistent kernel with four free pages and a free record, mapping what a process
  sees at \<^verbatim>\<open>srcva\<close> to an address where nothing is mapped returns 0 and keeps the kernel consistent: the page
  is registered for swapping there exactly when it was swappable. The destination then sees the same
  contents, with the permission asked for, and no other view changes.
\<close>

theorem mem_map_shares:
  assumes "kvm_ok A s" "\<not> is_illegal_va srcva" "\<not> is_illegal_va dstva" "srcva \<noteq> UCOW" "PTE_FLAGS perm = perm"
    and "envid2env srcid True s = Some (0, Some se)" "envid2env dstid True s = Some (0, Some de)"
    and "4 \<le> length (page_free_list (km s))" "swapInfo_free_list (km s) \<noteq> []" "refs_fit (km s)"
    and "uview (km s) (env_pgdir (envs s se)) srcva = Some (fl, c)" "uview (km s) (env_pgdir (envs s de)) dstva = None"
  shows "\<exists>t. sys_mem_map srcid srcva dstid dstva perm s = Some (Some 0, t) \<and> kvm_ok A t \<and>
    shows_at (dirs s) (env_pgdir (envs s de)) dstva (perms perm OR PTE_C_CACHEABLE, c) (km s) (km t)"
  by (rule mem_map_result [OF assms])

theorem mem_map_shares_witness:
  "\<exists>t. sys_mem_map 0 0x400000 0 0x402000 0x400 ex_sys = Some (Some 0, t) \<and> kvm_ok (\<lambda>_. 0) t \<and>
    uview (km t) 0 0x402000 = Some (0x600, \<lambda>_. 7)"
proof -
  have flags: "PTE_FLAGS 0x400 = 0x400" "perms 0x400 OR 0x600 = 0x600" by code_simp+
  have "\<exists>t. sys_mem_map 0 0x400000 0 0x402000 0x400 ex_sys = Some (Some 0, t) \<and> kvm_ok (\<lambda>_. 0) t \<and>
      shows_at {0} 0 0x402000 (0x600, \<lambda>_. 7) ex_pair (km t)"
    using mem_map_shares [OF ex_sys_ok ex_legal(1,3,4) flags(1), of 0 0 0 0 "0x700" "\<lambda>_. 7"]
    by (simp add: ex_dirs flags(2) ex_pair_view refs_fit_def)
  then show ?thesis by (auto simp: shows_at_def NUPDE_val ex_vals ex_vals2)
qed

end
