(* ===== verification/MapFaults.thy ===== *)
theory MapFaults
  imports MemCalls
begin

text \<open>
  Where mapping goes wrong: a page that is evicted while it is being shared, a mapping that is
  registered twice, and a permission that names another frame.
\<close>

section \<open>Sharing a page while memory is full\<close>

lemma swap_times_all:
  assumes "swap_wf D s" "length (page_swap_queue s) \<le> n" "length (page_swap_queue s) \<le> card (free_blocks s)"
  shows "\<exists>t. swap_times n s = Some t \<and> set (page_swap_queue s) \<union> set (page_free_list s) \<subseteq> set (page_free_list t)"
  using assms
proof (induction n arbitrary: s)
  case (Suc n)
  show ?case
  proof (cases "page_swap_queue s = []")
    case True
    then have "swap s = Some s" by (simp add: swap_def)
    then show ?thesis using Suc.IH [OF Suc.prems(1)] True by simp
  next
    case False
    then have "free_blocks s \<noteq> {}" using Suc.prems(3) by (cases "page_swap_queue s") auto
    then obtain u where u: "swap s = Some u" using swap_total [OF Suc.prems(1)] by blast
    note c = swap_counts [OF Suc.prems(1) u False]
    obtain pp b where "pp \<in> set (page_swap_queue s)" "swapped_out s pp b u"
      using swap_steps(3) [OF Suc.prems(1) u False] by blast
    note f = swapped_out_fields [OF this(2)]
    have "set (page_swap_queue s) \<union> set (page_free_list s) \<subseteq> set (page_swap_queue u) \<union> set (page_free_list u)"
      using swap_wf_queue(1) [OF Suc.prems(1)] by (auto simp: f(6,7))
    moreover obtain t where "swap_times n u = Some t" "set (page_swap_queue u) \<union> set (page_free_list u) \<subseteq> set (page_free_list t)"
      using Suc.IH [OF swap_steps(1) [OF Suc.prems(1) u]] c Suc.prems(2,3) by auto
    ultimately show ?thesis using u by auto
  qed
qed auto

text \<open>
  C9. A page can be evicted while it is being shared. When no page is free, the swap disk has room, and
  the destination has no page table for the address, \<^verbatim>\<open>page_insert\<close> of a swappable page
  evicts all swappable pages, up to 100, before it maps the page: it returns 0 and maps a page that is on
  the free list, or that is the destination's own page table.
\<close>

theorem share_evicted:
  assumes "remap_ok D A s" "d \<in> D" "PDX va < PDX UTOP" "\<not> valid_pte (pmem s d (PDX va))" "p \<in> set (page_swap_queue s)"
    and "page_free_list s = []" "length (page_swap_queue s) \<le> NSWAP" "length (page_swap_queue s) \<le> card (free_blocks s)"
  shows "\<exists>t. page_insert d (A d) p va perm s = Some (0, t) \<and> valid_pte (pmem t d (PDX va)) \<and>
    pload t (uloc t d va) = new_pte p perm \<and> (p \<in> set (page_free_list t) \<or> p \<in> tables D t)"
proof -
  note ok = assms(1) and wf = remap_wf [OF assms(1)]
  have d: "d \<in> D" "PDX va < NUPDE" using assms(2,3) by (simp_all add: NUPDE_def)
  define s1 where "s1 = tlb_invalidate (A d) va s"
  have ok1: "remap_ok D A s1" using ok by (simp add: s1_def)
  note wf1 = remap_wf [OF ok1]
  have s1: "page_swap_queue s1 = page_swap_queue s" "page_free_list s1 = []" "pmem s1 = pmem s" "free_blocks s1 = free_blocks s"
    using assms(6) by (simp_all add: s1_def free_blocks_def tlb_invalidate_def tlb_out_def)
  obtain u where u: "swap_times NSWAP s1 = Some u" "set (page_swap_queue s) \<subseteq> set (page_free_list u)"
    using swap_times_all [OF wf1, of NSWAP] assms(7,8) s1 by auto
  have ne: "page_swap_queue s1 \<noteq> []" using assms(5) s1(1) by auto
  have al: "\<exists>q v. page_alloc s1 = Some (0, q, v)"
    using page_alloc_total [OF wf1] ne assms(7,8) s1(1,4) by (simp add: min_def)
  then obtain q v where al: "page_alloc s1 = Some (0, q, v)" by blast
  obtain rest where v: "page_free_list u = q # rest" "v = page_take u q rest"
    using page_alloc_cases [OF wf1 al] u(1) s1(2) by auto
  note pa = page_alloc_steps [OF wf1 al]
  have okv: "remap_ok D A v" by (rule page_alloc_remap(1) [OF ok1 al])
  have "pmem v d = pmem s1 d" by (rule keptD(1) [OF pa(3) d(1)])
  then have nv: "\<not> valid_pte (pmem v d (PDX va))" using assms(4) s1(3) by simp
  define w where "w = mem_write d (PDX va) (table_pde (pmem v d (PDX va)) q) (v\<lparr>pp_ref := (pp_ref v)(q := pp_ref v q + 1)\<rparr>)"
  note nt = new_table [OF okv d nv pa(4,5), folded w_def]
  have ppn: "PPN (pmem w d (PDX va)) = q"
  proof -
    have "q < 2 ^ 20" using pa(4) swap_wf_npage [OF pa(2)] by (simp add: fresh_page_def)
    then show ?thesis using table_pde(2) by (simp add: w_def mem_write_def)
  qed
  have "pgdir_walk d va True s1 = (if PPN (pmem w d (PDX va)) < npage w then Some (0, Some (uloc w d va), w) else None)"
    using assms(4) s1(3)
    by (simp add: pgdir_walk_def and_PTE_V al Let_def KADDR_def uloc_def w_def table_pde_def
        del: PTE_V_def PTE_SWAPPED_def PTE_C_CACHEABLE_def)
  then have walk: "pgdir_walk d va True s1 = Some (0, Some (q, PTX va), w)" using nt(7) by (simp add: uloc_def ppn)
  define t where "t = (mem_write q (PTX va) (new_pte p perm) w)\<lparr>pp_ref := (pp_ref w)(p := pp_ref w p + 1), accessed := (accessed w)(p := 1)\<rparr>"
  have "page_insert d (A d) p va perm s = Some (0, t)"
    using assms(4) walk
    by (simp add: page_insert_def pgdir_walk_none swap_in_if_needed_def s1_def [symmetric] t_def mem_write_def)
  moreover have "d \<noteq> q" using pa(4) d(1) by (auto simp: fresh_page_def)
  then have dir: "pmem t d = pmem w d" by (simp add: t_def mem_write_def)
  moreover have "pload t (uloc t d va) = new_pte p perm" using dir ppn by (simp add: uloc_def pload_def t_def mem_write_def)
  moreover have "p \<in> set (page_free_list t) \<or> p \<in> tables D t"
  proof (cases "p = q")
    case True
    have "q \<in> tables D t" using d nt(4) ppn dir unfolding tables_def by force
    then show ?thesis using True by simp
  next
    case False
    have "p \<in> set (page_free_list u)" using u(2) assms(5) by blast
    then show ?thesis using False v by (simp add: t_def w_def mem_write_def page_take_def)
  qed
  ultimately show ?thesis using nt(4) by auto
qed

lemma ex_remap: "remap_ok {0} (\<lambda>_. 0) ex_vm"
proof (rule remap_okI [OF ex_wf])
  have s: "slots {0} ex_vm = {(0, 1)}" by (auto simp: slots_def ex_vm_def ex_vals NUPDE_val split: if_splits)
  show "inj_on (\<lambda>(d, i). PPN (pmem ex_vm d i)) (slots {0} ex_vm)" by (simp add: s)
  have l: "(1, j) = (1, 0) \<and> PPN (pload ex_vm (1, j)) = 2" if "valid_pte (pload ex_vm (1, j))" for j
    using that ex_vals by (auto simp: pload_def ex_vm_def split: if_splits)
  have u: "ulocs {0} ex_vm = {(1, j) | j. j < 1024}" by (auto simp: ulocs_def ex_tables)
  have m: "mappers {0} ex_vm p \<subseteq> (if p = 2 then {(1, 0)} else {})" for p
    using l by (auto simp: mappers_def u)
  show "card (mappers {0} ex_vm p) \<le> unat (pp_ref ex_vm p)" for p
  proof -
    have "card (mappers {0} ex_vm p) \<le> card (if p = 2 then {(1 :: nat, 0 :: nat)} else {})"
      by (rule card_mono [OF _ m]) simp
    also have "\<dots> \<le> unat (pp_ref ex_vm p)" by (simp add: ex_vm_def)
    finally show ?thesis .
  qed
  show "PPN (pload ex_vm k) < npage ex_vm" if "k \<in> ulocs {0} ex_vm" "valid_pte (pload ex_vm k)" for k
    using that l by (auto simp: u ex_vm_def [THEN arg_cong, of npage])
qed (simp_all add: ex_vm_def)

theorem share_evicted_witness:
  "\<exists>t. page_insert 0 0 2 0x800000 0x400 ex_vm = Some (0, t) \<and> pload t (uloc t 0 0x800000) = new_pte 2 0x400 \<and>
    (2 \<in> set (page_free_list t) \<or> 2 \<in> tables {0} t)"
proof -
  have "PDX 0x800000 = 2" "PDX UTOP = 509" by code_simp+
  moreover have "0 \<in> free_blocks ex_vm" by (simp add: free_blocks_def ex_vm_def bm_bit_def)
  then have "0 < card (free_blocks ex_vm)" by (intro card_gt_0_iff [THEN iffD2] conjI) (blast, simp add: free_blocks_def)
  moreover have "\<not> valid_pte (pmem ex_vm 0 2)" "page_swap_queue ex_vm = [2]" "page_free_list ex_vm = []"
    by (simp_all add: ex_vm_def ex_vals)
  ultimately show ?thesis
    using share_evicted [OF ex_remap, of 0 "0x800000" 2 "0x400"] by (auto simp: NSWAP_def)
qed

section \<open>A permission with address bits\<close>

text \<open>
  C10. The permission argument of a system call is not masked. When \<^verbatim>\<open>sys_mem_alloc\<close> returns in a
  consistent kernel, the entry at the address is valid and its frame is that of the new page combined bit by
  bit with the frame number in the permission: a process can so map, and write, frames that are not its own.
\<close>

theorem mem_alloc_any_frame:
  assumes "kvm_ok A s" "\<not> is_illegal_va va" "envid2env envid True s = Some (0, Some e)"
    and "sys_mem_alloc envid va perm s = Some (r, t)"
  shows "\<exists>p m. page_alloc (km s) = Some (0, p, m) \<and> valid_pte (pload (km t) (uloc (km t) (env_pgdir (envs s e)) va)) \<and>
    PPN (pload (km t) (uloc (km t) (env_pgdir (envs s e)) va)) = p OR PPN perm"
proof -
  let ?d = "env_pgdir (envs s e)" and ?D = "dirs s"
  note ok = kvm_remap [OF assms(1)]
  have e: "e \<in> live s" by (rule envid2env_live [OF assms(1,3)])
  have d: "?d \<in> ?D" "PDX va < NUPDE" using dirs_live [OF e] legal_PDX [OF assms(2)] by auto
  obtain r1 p m where al: "page_alloc (km s) = Some (r1, p, m)"
    using assms(2,3,4) by (auto simp: sys_mem_alloc_def try_env_def kpage_alloc_def elim!: bind_SomeE)
  note pa = page_alloc_steps [OF remap_wf [OF ok] al]
  obtain r2 m2 n where ins: "page_insert ?d (A ?d) p va perm m = Some (r2, m2)"
    and reg: "swap_register p ?d va (A ?d) m2 = Some n" and t: "t = s\<lparr>km := n\<rparr>"
    using assms(2-4) al pa(1) kvm_asid [OF assms(1) e]
    by (auto simp: sys_mem_alloc_def try_env_def kpage_alloc_def with_km_def with_km'_def ret_def Let_def elim!: bind_SomeE)
  note fr = fresh_room [OF pa(4)]
  have other: "maps_other m ?d va p" using fr(2) d by blast
  obtain u where u: "remap_ok ?D A u" "valid_pte (pmem u ?d (PDX va))"
    and m2: "m2 = mem_write (fst (uloc u ?d va)) (snd (uloc u ?d va)) (new_pte p perm) u
      \<lparr>pp_ref := (pp_ref u)(p := pp_ref u p + 1), accessed := (accessed u)(p := 1)\<rparr>"
    using insert_run [OF page_alloc_remap(1) [OF ok al] d fr(1) other ins] by blast
  have "pmem n = pmem m2"
    using reg by (auto simp: swap_register_def elim!: bind_SomeE split: if_splits list.splits)
  then have pn: "pmem n = (pmem u)(fst (uloc u ?d va) := (pmem u (fst (uloc u ?d va)))(snd (uloc u ?d va) := new_pte p perm))"
    by (simp add: m2 mem_write_def)
  note tw = table_entry_write [OF remap_wf [OF u(1)] uloc_ulocs(1) [OF d u(2)] pn]
  have "uloc n ?d va = uloc u ?d va" using tw(1) [OF d(1)] by (simp add: uloc_def)
  then have entry: "pload n (uloc n ?d va) = new_pte p perm" by (simp add: tw(2))
  have "p < 2 ^ 20" using pa(4) swap_wf_npage [OF pa(2)] by (simp add: fresh_page_def)
  then have ppn: "bit p n \<longleftrightarrow> n < 20 \<and> bit p n" for n by (metis less_mask bit_take_bit_iff take_bit_nat_eq_self)
  have "bit (PPN (new_pte p perm)) i \<longleftrightarrow> bit (p OR PPN perm) i" for i
    using ppn [of i] bit_imp_le_length [of perm "i + 12"]
    unfolding PPN_bits new_pte_def bit_or_iff bit_and_iff bit_not_iff bit_page2pa bit_PTE_C_CACHEABLE bit_PTE_V bit_PTE_SWAPPED
    by auto
  then have "PPN (new_pte p perm) = p OR PPN perm" by (rule bit_eqI)
  moreover have "valid_pte (new_pte p perm)" by (simp add: valid_pte_def new_pte_def bit_or_iff del: PTE_V_def)
  ultimately show ?thesis using al pa(1) entry t by simp
qed

theorem mem_alloc_any_frame_witness:
  "\<exists>t. sys_mem_alloc 0 0x402000 0x4400 ex_sys = Some (Some 0, t) \<and>
    PPN (pload (km t) (uloc (km t) 0 0x402000)) = 3 OR PPN 0x4400 \<and> 3 OR PPN 0x4400 = 7"
proof -
  obtain t where t: "sys_mem_alloc 0 0x402000 0x4400 ex_sys = Some (Some 0, t)"
    using mem_alloc_runs [OF ex_sys_ok ex_legal(3), of 0 0 "0x4400"] by auto
  have "page_alloc ex_pair = Some (0, 3, page_take ex_pair 3 [4, 5, 6, 7])"
    using alloc_free [OF ex_pair_wf] by auto
  then have "PPN (pload (km t) (uloc (km t) 0 0x402000)) = 3 OR PPN 0x4400"
    using mem_alloc_any_frame [OF ex_sys_ok ex_legal(3) _ t] by auto
  moreover have "3 OR PPN 0x4400 = 7" by code_simp
  ultimately show ?thesis using t by auto
qed

section \<open>Mapping a page where it is already\<close>

text \<open>A page that is mapped, in memory, at an address.\<close>

definition maps_at :: "kmem \<Rightarrow> nat \<Rightarrow> u32 \<Rightarrow> nat \<Rightarrow> bool" where
  "maps_at s d va p \<longleftrightarrow>
     valid_pte (pmem s d (PDX va)) \<and> valid_pte (pload s (uloc s d va)) \<and> PPN (pload s (uloc s d va)) = p"

lemma maps_at_walk:
  assumes ok: "remap_ok D A s" and d: "d \<in> D" "PDX va < NUPDE" and m: "maps_at s d va p"
  shows "uloc s d va \<in> ulocs D s" "pgdir_walk d va c s = Some (0, Some (uloc s d va), s)" "p < npage s"
    "swap_in_if_needed (Some (uloc s d va)) s = Some s"
proof -
  have v: "valid_pte (pmem s d (PDX va))" "valid_pte (pload s (uloc s d va))" "PPN (pload s (uloc s d va)) = p"
    using m by (simp_all add: maps_at_def)
  show l: "uloc s d va \<in> ulocs D s" by (rule uloc_ulocs(1) [OF d v(1)])
  have "PPN (pmem s d (PDX va)) < npage s"
    using uloc_ulocs(2) [OF d v(1)] swap_wf_tables(1) [OF remap_wf [OF ok]] by blast
  then show "pgdir_walk d va c s = Some (0, Some (uloc s d va), s)" by (rule pgdir_walk_table [OF v(1)])
  show "p < npage s" using remap_ppn [OF ok l v(2)] v(3) by simp
  show "swap_in_if_needed (Some (uloc s d va)) s = Some s"
    using v(2) by (cases "uloc s d va") (simp add: swap_in_if_needed_def and_PTE_V pload_def del: PTE_V_def)
qed

lemma maps_at_lookup:
  assumes "remap_ok D A s" "d \<in> D" "PDX va < NUPDE" "maps_at s d va p"
  shows "page_lookup d va s = Some (Some p, Some (uloc s d va), s\<lparr>accessed := (accessed s)(p := 1)\<rparr>)"
  using maps_at_walk [OF assms] assms(4)
  by (cases "uloc s d va") (simp add: page_lookup_def and_PTE_V pa2page_def Let_def maps_at_def pload_def del: PTE_V_def)

lemma maps_at_insert:
  assumes "remap_ok D A s" "d \<in> D" "PDX va < NUPDE" "maps_at s d va p"
  shows "page_insert d a p va perm s =
    Some (0, mem_write (fst (uloc s d va)) (snd (uloc s d va)) (new_pte p perm) (tlb_invalidate a va s))"
  using maps_at_walk [OF assms] assms(4)
  by (cases "uloc s d va") (simp add: page_insert_def and_PTE_V pa2page_def Let_def maps_at_def pload_def del: PTE_V_def)

text \<open>The loop over the records of a page stops the machine, or leaves an entry that is not valid.\<close>

lemma swap_out_ptes_either:
  assumes dis: "D \<inter> tables D s = {}" and ok: "info_ok D s si"
  shows "swap_out_ptes (si # sis) b p s = None \<or>
    (\<exists>u. swap_out_ptes (si # sis) b p s = swap_out_ptes sis b p u \<and> tables D u = tables D s \<and>
       (\<forall>sj. info_ok D u sj = info_ok D s sj) \<and> (\<forall>sj. info_ok D s sj \<longrightarrow> sloc u sj = sloc s sj) \<and>
       (\<forall>k. valid_pte (pload u k) \<longleftrightarrow> k \<noteq> sloc s si \<and> valid_pte (pload s k)))"
proof (cases "valid_pte (pload s (sloc s si)) \<and> \<not> swapped_pte (pload s (sloc s si)) \<and> fst (sloc s si) < npage s")
  case False
  then show ?thesis
    by (auto simp: Let_def KADDR_def and_PTE_V and_PTE_SWAPPED sloc_def uloc_def pload_def simp del: PTE_V_def PTE_SWAPPED_def)
next
  case True
  define u where "u = (tlb_invalidate (si_asid (swapInfos s si)) (si_va (swapInfos s si))
       (mem_write (fst (sloc s si)) (snd (sloc s si)) (out_pte b (pload s (sloc s si))) s))
     \<lparr>pp_ref := (pp_ref s)(p := pp_ref s p - 1)\<rparr>"
  have step: "swap_out_ptes (si # sis) b p s = swap_out_ptes sis b p u"
    unfolding u_def using True by (intro swap_out_ptes_step) auto
  have pm: "pmem u = (pmem s)(fst (sloc s si) := (pmem s (fst (sloc s si)))(snd (sloc s si) := out_pte b (pload s (sloc s si))))"
    "swapInfos u = swapInfos s"
    by (simp_all add: u_def mem_write_def tlb_invalidate_def tlb_out_def)
  note ew = entry_write [OF dis ok refl pm]
  show ?thesis
    by (intro disjI2 exI [of _ u] conjI step ew(1) allI impI ew(2)) (auto simp: ew(3,4))
qed

lemma swap_out_stuck:
  assumes "D \<inter> tables D s = {}" "\<forall>sj \<in> set sis. info_ok D s sj" "sk \<in> set sis" "\<not> valid_pte (pload s (sloc s sk))"
  shows "swap_out_ptes sis b p s = None"
  using assms
proof (induction sis arbitrary: s)
  case (Cons si sis)
  show ?case
  proof (cases "valid_pte (pload s (sloc s si))")
    case False
    then show ?thesis
      by (auto simp: Let_def KADDR_def and_PTE_V sloc_def uloc_def pload_def simp del: PTE_V_def)
  next
    case True
    then have sk: "sk \<in> set sis" "info_ok D s sk" using Cons.prems(2-4) by auto
    have "info_ok D s si" using Cons.prems(2) by simp
    from swap_out_ptes_either [OF Cons.prems(1) this, of sis b p] show ?thesis
    proof
      assume "\<exists>u. swap_out_ptes (si # sis) b p s = swap_out_ptes sis b p u \<and> tables D u = tables D s \<and>
         (\<forall>sj. info_ok D u sj = info_ok D s sj) \<and> (\<forall>sj. info_ok D s sj \<longrightarrow> sloc u sj = sloc s sj) \<and>
         (\<forall>k. valid_pte (pload u k) \<longleftrightarrow> k \<noteq> sloc s si \<and> valid_pte (pload s k))"
      then obtain u where u: "swap_out_ptes (si # sis) b p s = swap_out_ptes sis b p u" "tables D u = tables D s"
        "\<And>sj. info_ok D u sj = info_ok D s sj" "sloc u sk = sloc s sk" "valid_pte (pload u (sloc s sk)) \<Longrightarrow> valid_pte (pload s (sloc s sk))"
        using sk(2) by blast
      have "swap_out_ptes sis b p u = None"
        using Cons.prems sk u by (intro Cons.IH) auto
      then show ?thesis using u(1) by simp
    qed
  qed
qed simp

lemma swap_out_twice:
  assumes dis: "D \<inter> tables D s = {}" and ok: "\<forall>sj \<in> set (si # sis). info_ok D s sj"
    and sk: "sk \<in> set sis" "sloc s sk = sloc s si"
  shows "swap_out_ptes (si # sis) b p s = None"
proof -
  have "info_ok D s si" using ok by simp
  from swap_out_ptes_either [OF dis this, of sis b p] show ?thesis
  proof
    assume "\<exists>u. swap_out_ptes (si # sis) b p s = swap_out_ptes sis b p u \<and> tables D u = tables D s \<and>
       (\<forall>sj. info_ok D u sj = info_ok D s sj) \<and> (\<forall>sj. info_ok D s sj \<longrightarrow> sloc u sj = sloc s sj) \<and>
       (\<forall>k. valid_pte (pload u k) \<longleftrightarrow> k \<noteq> sloc s si \<and> valid_pte (pload s k))"
    then obtain u where u: "swap_out_ptes (si # sis) b p s = swap_out_ptes sis b p u" "tables D u = tables D s"
      "\<forall>sj. info_ok D u sj = info_ok D s sj" "\<forall>sj. info_ok D s sj \<longrightarrow> sloc u sj = sloc s sj"
      "\<forall>k. valid_pte (pload u k) \<longleftrightarrow> k \<noteq> sloc s si \<and> valid_pte (pload s k)" by blast
    have "sloc u sk = sloc s si" using u(4) ok sk by auto
    then have "\<not> valid_pte (pload u (sloc u sk))" using spec [OF u(5), of "sloc s si"] by simp
    then show ?thesis using swap_out_stuck [of D u sis sk] dis ok sk(1) u(1,2,3) by simp
  qed
qed

lemma mapped_record:
  assumes ok: "remap_ok D A s" and d: "d \<in> D" "PDX va < NUPDE" and m: "maps_at s d va p" and reg: "swap_tbl s p \<noteq> []"
  shows "\<exists>sk \<in> set (swap_tbl s p). sloc s sk = uloc s d va"
proof -
  have "uloc s d va \<in> mappers D s p" using maps_at_walk(1) [OF ok d m] m by (simp add: mappers_def maps_at_def)
  moreover have "p \<in> set (page_swap_queue s)" using reg swap_wf_queue(2) [OF remap_wf [OF ok]] by simp
  ultimately show ?thesis using mappers_queue(1) [OF remap_wf [OF ok]] by auto
qed

text \<open>
  C11. A page mapped where it is already is registered twice. When \<^verbatim>\<open>sys_mem_map\<close> is asked to map the
  swappable page at \<^verbatim>\<open>srcva\<close> to an address that maps this page, it returns 0, and from then on the loop
  of \<^verbatim>\<open>swap\<close> over the records of the page panics, whatever the block: the machine stops when
  the page is chosen for eviction.
\<close>

theorem remap_panics:
  assumes "kvm_ok A s" "\<not> is_illegal_va srcva" "\<not> is_illegal_va dstva" "srcva \<noteq> UCOW"
    and "envid2env srcid True s = Some (0, Some se)" "envid2env dstid True s = Some (0, Some de)"
    and "se \<noteq> de \<or> PTE_ADDR srcva \<noteq> PTE_ADDR dstva" "swapInfo_free_list (km s) \<noteq> []" "page_swappable p s"
    and "maps_at (km s) (env_pgdir (envs s se)) srcva p" "maps_at (km s) (env_pgdir (envs s de)) dstva p"
  shows "\<exists>t. sys_mem_map srcid srcva dstid dstva perm s = Some (Some 0, t) \<and>
    swap_out_ptes (swap_tbl (km t) p) b p (km t) = None"
proof -
  let ?D = "dirs s" and ?sd = "env_pgdir (envs s se)" and ?dd = "env_pgdir (envs s de)"
  note ok = kvm_remap [OF assms(1)]
  have lives: "se \<in> live s" "de \<in> live s" using envid2env_live [OF assms(1)] assms(5,6) by blast+
  have sd: "?sd \<in> ?D" "PDX srcva < NUPDE" and dd: "?dd \<in> ?D" "PDX dstva < NUPDE"
    using dirs_live [OF lives(1)] dirs_live [OF lives(2)] legal_PDX assms(2,3) by auto
  define m where "m = (km s)\<lparr>accessed := (accessed (km s))(p := 1)\<rparr>"
  have okm: "remap_ok ?D A m" using ok by (simp add: m_def)
  have mm: "maps_at m ?sd srcva p" "maps_at m ?dd dstva p"
    using assms(10,11) by (simp_all add: m_def maps_at_def uloc_def pload_def)
  have tbl: "swap_tbl m p \<noteq> []" using assms(9) by (simp add: m_def page_swappable_def)
  define l where "l = uloc m ?dd dstva"
  define m2 where "m2 = mem_write (fst l) (snd l) (new_pte p perm) (tlb_invalidate (A ?dd) dstva m)"
  obtain si rest where si: "swapInfo_free_list m = si # rest" using assms(8) by (cases "swapInfo_free_list m") (auto simp: m_def)
  define n where "n = m2\<lparr>swapInfo_free_list := rest,
      swapInfos := (swapInfos m2)(si := \<lparr>si_pgdir = ?dd, si_asid = A ?dd, si_va = PTE_ADDR dstva\<rparr>),
      swap_tbl := (swap_tbl m2)(p := si # swap_tbl m2 p)\<rparr>"
  have lk: "page_lookup ?dd dstva (km s) = Some (Some p, Some (uloc (km s) ?dd dstva), m)"
    "page_lookup ?sd srcva m = Some (Some p, Some (uloc m ?sd srcva), m)"
    using maps_at_lookup [OF ok dd assms(11)] maps_at_lookup [OF okm sd mm(1)] by (simp_all add: m_def)
  have "swap_register p ?dd dstva (A ?dd) m2 = Some n"
    using tbl si by (simp add: swap_register_def n_def m2_def mem_write_def tlb_invalidate_def tlb_out_def)
  then have run: "sys_mem_map srcid srcva dstid dstva perm s = Some (Some 0, s\<lparr>km := n\<rparr>)"
    using assms(2-7) lk maps_at_insert [OF okm dd mm(2), of "A ?dd" perm] tbl kvm_asid [OF assms(1) lives(2)]
    by (simp add: sys_mem_map_def try_env_def klookup_def with_km_def with_km'_def ret_def Let_def page_swappable_def
        m2_def l_def)
  have tn: "pmem n = (pmem m)(fst l := (pmem m (fst l))(snd l := new_pte p perm))" "swap_tbl n p = si # swap_tbl m p"
    "swapInfos n = (swapInfos m)(si := \<lparr>si_pgdir = ?dd, si_asid = A ?dd, si_va = PTE_ADDR dstva\<rparr>)"
    by (simp_all add: n_def m2_def mem_write_def tlb_invalidate_def tlb_out_def)
  have lm: "l \<in> ulocs ?D m" unfolding l_def by (rule maps_at_walk(1) [OF okm dd mm(2)])
  note dir = table_entry_write(1) [OF remap_wf [OF okm] lm tn(1)]
  have ul: "uloc n d va = uloc m d va" if "d \<in> ?D" for d va using dir [OF that] by (simp add: uloc_def)
  have new: "si \<notin> infos m" using remap_free(2) [OF okm] si by simp
  have recs: "info_ok ?D n sj \<and> sloc n sj = sloc m sj" if "sj \<in> set (swap_tbl m p)" for sj
  proof -
    have "sj \<in> infos m" by (rule info_of_tbl [OF that])
    moreover from this have "info_ok ?D m sj" by (rule swap_wf_info [OF remap_wf [OF okm]])
    ultimately show ?thesis using new dir ul by (auto simp: info_ok_def sloc_def tn(3) Let_def)
  qed
  have ind: "PDX (PTE_ADDR dstva) = PDX dstva" "PTX (PTE_ADDR dstva) = PTX dstva"
    using PTE_ADDR_indices [of "PTE_ADDR dstva" dstva] by simp_all
  have "info_ok ?D n si" "sloc n si = l"
    using dd mm(2) dir [OF dd(1)] by (simp_all add: info_ok_def sloc_def tn(3) ind maps_at_def l_def uloc_def)
  moreover obtain sk where "sk \<in> set (swap_tbl m p)" "sloc m sk = l"
    using mapped_record [OF okm dd mm(2) tbl] by (auto simp: l_def)
  moreover have "tables ?D n = tables ?D m" using dir by (rule dir_frame_tables)
  moreover have "?D \<inter> tables ?D m = {}" by (rule swap_wf_tables(2) [OF remap_wf [OF okm]])
  ultimately have "swap_out_ptes (swap_tbl n p) b p n = None"
    using swap_out_twice [of ?D n si "swap_tbl m p" sk] recs by (auto simp: tn(2) simp del: swap_out_ptes.simps)
  then show ?thesis using run by auto
qed

theorem remap_panics_witness:
  "\<exists>t. sys_mem_map 0 0x400000 0 0x401000 0x400 ex_sys = Some (Some 0, t) \<and> swap_out_ptes (swap_tbl (km t) 2) 0 2 (km t) = None"
proof -
  have "maps_at ex_pair 0 0x400000 2" "maps_at ex_pair 0 0x401000 2"
    using ex_pair_load [of 0] ex_pair_load [of 1] by (simp_all add: maps_at_def ex_pair_loc ex_pair_dir ex_vals ex_vals2)
  then show ?thesis
    using remap_panics [OF ex_sys_ok ex_legal(1,2,4), of 0 0 0 0 2 "0x400" 0] by (simp add: page_swappable_def ex_vals2)
qed

end
