(* ===== verification/Ledger.thy ===== *)
theory Ledger
  imports MapFaults
begin

text \<open>
  The ledger of the physical pages. Every page the kernel can hand out is on the free list, or is a page directory or a
  page table counted once, or is mapped and counted once per mapping: no page is lost. The steps of the memory manager
  that \<^verbatim>\<open>env_free\<close> takes keep the ledger; \<open>K\<close> in \<open>accounted\<close> stands for the pages the kernel keeps for itself.
\<close>

section \<open>What each page is used for\<close>

definition settled :: "nat set \<Rightarrow> kmem \<Rightarrow> nat \<Rightarrow> bool" where
  "settled D s p \<longleftrightarrow>
     p \<in> set (page_free_list s) \<or>
     p \<in> D \<union> tables D s \<and> pp_ref s p = 1 \<or>
     mappers D s p \<noteq> {} \<and> unat (pp_ref s p) = card (mappers D s p)"

definition accounted :: "nat set \<Rightarrow> nat set \<Rightarrow> kmem \<Rightarrow> bool" where
  "accounted D K s \<longleftrightarrow> (\<forall>p < npage s. p \<in> K \<or> settled D s p)"

lemma settled_mono:
  assumes "settled D s p" "p \<in> set (page_free_list s) \<Longrightarrow> p \<in> set (page_free_list t)"
    and "tables D t = tables D s" "mappers D t p = mappers D s p" "pp_ref t p = pp_ref s p"
  shows "settled D t p"
  using assms by (auto simp: settled_def)

lemma queued_settled:
  assumes wf: "swap_wf D s" and p: "p \<in> set (page_swap_queue s)"
  shows "settled D s p"
  using mappers_queue [OF wf p] swap_wf_queue(2) [OF wf, of p] p by (simp add: settled_def)

text \<open>The marks and the TLB play no part.\<close>

lemma settled_marks [simp]:
  "settled D (s\<lparr>accessed := a\<rparr>) p = settled D s p" "settled D (tlb_invalidate asid va s) p = settled D s p"
proof -
  have "tables D (s\<lparr>accessed := a\<rparr>) = tables D s" "ulocs D (s\<lparr>accessed := a\<rparr>) = ulocs D s" "pload (s\<lparr>accessed := a\<rparr>) = pload s" for s a
    by (auto simp: fun_eq_iff pload_def tables_def ulocs_def)
  then show "settled D (s\<lparr>accessed := a\<rparr>) p = settled D s p" by (simp add: settled_def mappers_def)
  have "tables D (tlb_invalidate asid va s) = tables D s" for s by (simp add: tables_def)
  then show "settled D (tlb_invalidate asid va s) p = settled D s p" by (simp add: settled_def mappers_def)
qed

section \<open>The paging steps\<close>

lemma swap_settled:
  assumes ok: "remap_ok D A s" and run: "swap s = Some t" and p: "settled D s p"
  shows "settled D t p"
proof (cases "page_swap_queue s = []")
  case True
  then show ?thesis using run p by (simp add: swap_def)
next
  case False
  note wf = remap_wf [OF ok]
  from False obtain pp b where st: "pp \<in> set (page_swap_queue s)" "b < SD_NBLK" "\<not> bm_bit (sd_bitmap s) b" "swapped_out s pp b t"
    using swap_steps(3) [OF wf run] by blast
  note f = swapped_out_fields [OF st(4)]
  show ?thesis
  proof (cases "p = pp")
    case True
    then show ?thesis by (simp add: settled_def f(7))
  next
    case False
    show ?thesis
      by (rule settled_mono [OF p]) (use False swapped_out_mappers [OF wf st] swapped_out_tables(1) [OF wf st] in \<open>simp_all add: f\<close>)
  qed
qed

lemma swap_times_settled:
  "remap_ok D A s \<Longrightarrow> swap_times n s = Some t \<Longrightarrow> settled D s p \<Longrightarrow> settled D t p"
proof (induction n arbitrary: s)
  case (Suc n)
  from Suc.prems(2) obtain u where u: "swap s = Some u" "swap_times n u = Some t"
    by (auto elim: bind_SomeE)
  have "remap_ok D A u" using swap_remap [OF Suc.prems(1) u(1)] by simp
  then show ?case by (rule Suc.IH [OF _ u(2) swap_settled [OF Suc.prems(1) u(1) Suc.prems(3)]])
qed simp

lemma page_alloc_settled:
  assumes ok: "remap_ok D A s" and run: "page_alloc s = Some (r, q, t)" and p: "settled D s p" "p \<noteq> q"
  shows "settled D t p"
proof -
  obtain u rest where u: "page_free_list u = q # rest" "t = page_take u q rest"
    "u = s \<or> page_free_list s = [] \<and> swap_times NSWAP s = Some u"
    using page_alloc_cases [OF remap_wf [OF ok] run] by blast
  have ok_u: "remap_ok D A u" and "settled D u p"
    using u(3) swap_times_remap [OF ok] swap_times_settled [OF ok _ p(1)] ok p(1) by blast+
  then show ?thesis
    using u(1,2) p(2) page_take_mappers [OF remap_wf [OF ok_u] u(1)] page_take_steps(2) [OF remap_wf [OF ok_u] u(1)]
    by (intro settled_mono [of D u p t]) (auto simp: page_take_def dest: keptD(6))
qed

lemma swap_back_settled:
  assumes ok: "remap_ok D A s" and l: "l \<in> ulocs D s" and pte: "\<not> valid_pte (pload s l)" "swapped_pte (pload s l)"
    and run: "swap_back (pload s l) s = Some t" and p: "settled D s p"
  shows "settled D t p"
proof -
  obtain q u where u: "page_alloc s = Some (0, q, u)" "bno_tbl u (PPN (pload s l)) \<noteq> []" "t = swapped_in u q (PPN (pload s l))"
    using swap_back_result [OF remap_wf [OF ok] l pte run] by blast
  note al = page_alloc_remap [OF ok u(1)] and fresh = page_alloc_steps(4) [OF remap_wf [OF ok] u(1)]
  note wf = remap_wf [OF al(1)] and f = swapped_in_fields [of u q "PPN (pload s l)", folded u(3)]
  show ?thesis
  proof (cases "p = q")
    case True
    then have "p \<in> set (page_swap_queue t)" by (simp add: f)
    then show ?thesis by (rule queued_settled [OF remap_wf [OF swap_back_remap(1) [OF ok l pte run]]])
  next
    case False
    show ?thesis
      by (rule settled_mono [OF page_alloc_settled [OF ok u(1) p False]])
        (use False swapped_in_mappers [OF wf fresh u(2)] swapped_in_tables(1) [OF wf fresh u(2)] in \<open>simp_all add: f u(3) [symmetric]\<close>)
  qed
qed

lemma swap_in_if_needed_settled:
  assumes ok: "remap_ok D A s" and l: "l \<in> ulocs D s" and run: "swap_in_if_needed (Some l) s = Some t" and p: "settled D s p"
  shows "settled D t p"
proof (cases "\<not> valid_pte (pload s l) \<and> swapped_pte (pload s l)")
  case True
  then have "swap_back (pload s l) s = Some t"
    using run by (cases l) (simp add: swap_in_if_needed_def and_PTE_V and_PTE_SWAPPED pload_def
        del: PTE_V_def PTE_SWAPPED_def)
  then show ?thesis using swap_back_settled [OF ok l _ _ _ p] True by blast
next
  case False
  then have "t = s"
    using run by (cases l) (auto simp: swap_in_if_needed_def and_PTE_V and_PTE_SWAPPED pload_def
        simp del: PTE_V_def PTE_SWAPPED_def)
  then show ?thesis using p by simp
qed

lemma page_lookup_settled:
  assumes ok: "remap_ok D A s" and d: "d \<in> D" "PDX va < NUPDE" and run: "page_lookup d va s = Some (pp, pte, t)"
    and p: "settled D s p"
  shows "settled D t p"
  using page_lookup_cases [OF ok d run]
proof (elim disjE conjE exE)
  fix u assume v: "valid_pte (pmem s d (PDX va))" and u: "swap_in_if_needed (Some (uloc s d va)) s = Some u" and "t = u"
  then show ?thesis using swap_in_if_needed_settled [OF ok uloc_ulocs(1) [OF d v] u p] by simp
next
  fix u assume v: "valid_pte (pmem s d (PDX va))" and u: "swap_in_if_needed (Some (uloc s d va)) s = Some u"
    and t: "t = u\<lparr>accessed := (accessed u)(PPN (pload u (uloc s d va)) := 1)\<rparr>"
  then show ?thesis using swap_in_if_needed_settled [OF ok uloc_ulocs(1) [OF d v] u p] by simp
qed (use p in simp)

section \<open>Removing a mapping\<close>

lemma unmapped_settled:
  assumes ok: "remap_ok D A s" and l: "l \<in> ulocs D s" "valid_pte (pload s l)" "PPN (pload s l) = q"
    and dec: "page_decref q s = Some u" and p: "settled D s p"
  shows "settled D (mem_write (fst l) (snd l) 0 (swap_unregister q d va a u)) p"
proof -
  let ?t = "mem_write (fst l) (snd l) 0 (swap_unregister q d va a u)"
  note wf = remap_wf [OF ok]
  have u: "u = s\<lparr>pp_ref := (pp_ref s)(q := pp_ref s q - 1),
      page_free_list := if pp_ref s q = 1 then q # page_free_list s else page_free_list s\<rparr>"
    and pos: "0 < pp_ref s q"
    using dec by (auto simp: page_decref_def page_free_def Let_def lst_insert_head_def elim!: bind_SomeE split: if_splits)
  have f: "pmem ?t = (pmem s)(fst l := (pmem s (fst l))(snd l := 0))" "pp_ref ?t = (pp_ref s)(q := pp_ref s q - 1)"
    "page_free_list ?t = (if pp_ref s q = 1 then q # page_free_list s else page_free_list s)"
    by (auto simp: mem_write_def swap_unregister_def u Let_def split: option.splits)
  note tw = table_entry_write [OF wf l(1) f(1)]
  have tab: "tables D ?t = tables D s" "ulocs D ?t = ulocs D s"
    by (rule dir_frame_tables [OF tw(1)], assumption, rule dir_frame_ulocs [OF tw(1)])
  have map: "mappers D ?t k = (if k = q then mappers D s q - {l} else mappers D s k)" for k
    using l by (auto simp: mappers_def tab tw(2))
  show ?thesis
  proof (cases "p = q")
    case True
    have q: "q \<notin> set (page_free_list s)" "q \<notin> D \<union> tables D s" using swap_wf_mapped(1) [OF wf l(1,2)] l(3) by auto
    then have c: "unat (pp_ref s q) = card (mappers D s q)" using p True by (auto simp: settled_def)
    have "l \<in> mappers D s q" using l by (simp add: mappers_def)
    then have m: "card (mappers D ?t q) = card (mappers D s q) - 1" "finite (mappers D ?t q)"
      using finite_mappers [OF remap_dirs(1) [OF ok]] by (simp_all add: map)
    have r: "unat (pp_ref ?t q) = unat (pp_ref s q) - 1" using pos by (simp add: f unat_minus_one word_gt_0)
    show ?thesis
    proof (cases "pp_ref s q = 1")
      case False
      then have "unat (pp_ref s q) \<noteq> 1" "unat (pp_ref s q) \<noteq> 0" using pos by (auto simp: unat_eq_zero word_gt_0 dest: word_unat_eq_iff [THEN iffD2, of _ 1, simplified])
      then have "card (mappers D ?t q) \<noteq> 0" using m c by simp
      then show ?thesis using m c r True by (auto simp: settled_def)
    qed (simp add: settled_def f True)
  next
    case False
    show ?thesis by (rule settled_mono [OF p]) (use False in \<open>simp_all add: f tab map\<close>)
  qed
qed

lemma page_remove_settled:
  assumes ok: "remap_ok D A s" and d: "d \<in> D" "PDX va < NUPDE" and run: "page_remove d a va s = Some t"
    and p: "settled D s p"
  shows "settled D t p"
proof -
  obtain pp pte u where lk: "page_lookup d va s = Some (pp, pte, u)"
    and rest: "(case (pp, pte) of
        (Some pp, Some (pt, x)) \<Rightarrow> do {
          s \<leftarrow> page_decref pp u;
          let s = swap_unregister pp d va a s;
          let s = mem_write pt x 0 s;
          Some (tlb_invalidate a va s) }
      | _ \<Rightarrow> Some u) = Some t"
    using run by (auto simp: page_remove_def elim!: bind_SomeE)
  note lr = page_lookup_remap [OF ok d lk] and ps = page_lookup_settled [OF ok d lk p]
  note ls = page_lookup_steps [OF remap_wf [OF ok] d lk]
  show ?thesis
  proof (cases pp)
    case None
    then show ?thesis using rest ps by simp
  next
    case (Some q)
    then have q: "pte = Some (uloc u d va)" "valid_pte (pload u (uloc u d va))" "PPN (pload u (uloc u d va)) = q"
      using ls by simp_all
    have "uview s d va \<noteq> None" using ls Some by simp
    then have "valid_pte (pmem s d (PDX va))" by (auto simp: uview_def split: if_splits)
    then have "valid_pte (pmem u d (PDX va))" using same_userD(1) [of D s u, OF _ d(1)] ls by simp
    note l = uloc_ulocs(1) [OF d this]
    obtain w where dec: "page_decref q u = Some w"
      and t: "t = tlb_invalidate a va (mem_write (fst (uloc u d va)) (snd (uloc u d va)) 0 (swap_unregister q d va a w))"
      using rest q(1) Some by (cases "uloc u d va") (auto simp: Let_def elim!: bind_SomeE)
    show ?thesis unfolding t using unmapped_settled [OF lr(1) l q(2,3) dec ps] by simp
  qed
qed

end
