(* ===== verification/Lifecycle.thy ===== *)
theory Lifecycle
  imports Ledger
begin

text \<open>
  Address spaces come and go: what \<^verbatim>\<open>env_alloc\<close> and \<^verbatim>\<open>env_free\<close> do to the invariant of the memory manager and to
  what the other processes see.
\<close>

section \<open>Directories and tables that hold nothing\<close>

text \<open>What a process can see in a directory entry keeps the entry.\<close>

lemma slot_unique:
  assumes ok: "remap_ok D A u" and a: "(d, i) \<in> slots D u" and b: "(e, j) \<in> slots D u" "PPN (pmem u e j) = PPN (pmem u d i)"
  shows "e = d" "j = i"
  using inj_onD [OF remap_inj [OF ok], of "(e, j)" "(d, i)"] assms by auto

lemma dir_apart:
  assumes ok: "remap_ok D A u" and d: "d \<in> D"
  shows "d \<notin> tables D u" "d \<notin> set (page_swap_queue u)" "d \<notin> set (page_free_list u)" "mappers D u d = {}"
  using swap_wf_tables(2-4) [OF remap_wf [OF ok]] swap_wf_mapped(1) [OF remap_wf [OF ok]] d by (auto simp: mappers_def)

lemma table_apart:
  assumes ok: "remap_ok D A u" and q: "q \<in> tables D u"
  shows "q \<notin> D" "q \<notin> set (page_swap_queue u)" "q \<notin> set (page_free_list u)" "mappers D u q = {}"
  using swap_wf_tables(2-4) [OF remap_wf [OF ok]] swap_wf_mapped(1) [OF remap_wf [OF ok]] q by (auto simp: mappers_def)

lemma free_apart:
  assumes ok: "remap_ok D A u" and p: "p \<in> set (page_free_list u)"
  shows "p \<notin> D \<union> tables D u" "p \<notin> set (page_swap_queue u)" "mappers D u p = {}" "p < npage u" "pp_ref u p = 0"
proof -
  note wf = remap_wf [OF ok]
  show "p \<notin> D \<union> tables D u" using swap_wf_tables(4) [OF wf] p by blast
  show "mappers D u p = {}" using swap_wf_mapped(1) [OF wf] p by (auto simp: mappers_def)
  show "p < npage u" "pp_ref u p = 0" using swap_wf_free(2,3) [OF wf] p by simp_all
  then show "p \<notin> set (page_swap_queue u)" using swap_wf_queue(2,4) [OF wf, of p] by auto
qed

text \<open>
  A change of directories and of free pages that keeps every entry in use: some directories (\<open>D\<close> becomes \<open>E\<close>)
  and tables appear or disappear, without mappings.
\<close>

definition idle_change :: "nat set \<Rightarrow> nat set \<Rightarrow> (nat \<Rightarrow> u32) \<Rightarrow> (nat \<Rightarrow> u32) \<Rightarrow> kmem \<Rightarrow> kmem \<Rightarrow> bool" where
  "idle_change D E A B u t \<longleftrightarrow>
     remap_ok D A u \<and> finite E \<and>
     (\<forall>e \<in> E. e < npage u \<and> e \<notin> tables D u \<and> e \<notin> set (page_swap_queue u) \<and> mappers D u e = {}) \<and>
     (\<forall>e \<in> E. e \<in> D \<longrightarrow> B e = A e) \<and>
     (\<forall>e \<in> E. \<forall>i < NUPDE. valid_pte (pmem t e i) \<longrightarrow> (e, i) \<in> slots D u \<and> pmem t e i = pmem u e i) \<and>
     (\<forall>q \<in> tables E t. pmem t q = pmem u q) \<and>
     (\<forall>l \<in> ulocs D u. valid_pte (pload u l) \<or> swapped_pte (pload u l) \<longrightarrow> l \<in> ulocs E t) \<and>
     npage t = npage u \<and> swapInfos t = swapInfos u \<and> bno_tbl t = bno_tbl u \<and> swap_tbl t = swap_tbl u \<and>
     sd_bitmap t = sd_bitmap u \<and> sdisk t = sdisk u \<and> page_swap_queue t = page_swap_queue u \<and>
     swapInfo_free_list t = swapInfo_free_list u \<and>
     distinct (page_free_list t) \<and>
     (\<forall>p \<in> set (page_free_list t).
        p < npage u \<and> pp_ref t p = 0 \<and> p \<notin> E \<union> tables E t \<and> p \<notin> set (page_swap_queue u) \<and> mappers D u p = {}) \<and>
     (\<forall>p. p \<in> set (page_swap_queue u) \<or> mappers D u p \<noteq> {} \<longrightarrow> pp_ref t p = pp_ref u p) \<and>
     (\<forall>p. mappers D u p \<noteq> {} \<longrightarrow> pmem t p = pmem u p)"

lemma idle_changeD:
  assumes "idle_change D E A B u t"
  shows idle_ok: "remap_ok D A u" and idle_fin: "finite E"
    and idle_dirs: "\<And>e. e \<in> E \<Longrightarrow> e < npage u \<and> e \<notin> tables D u \<and> e \<notin> set (page_swap_queue u) \<and> mappers D u e = {}"
    and idle_asid: "\<And>e. e \<in> E \<Longrightarrow> e \<in> D \<Longrightarrow> B e = A e"
    and idle_slot: "\<And>e i. e \<in> E \<Longrightarrow> i < NUPDE \<Longrightarrow> valid_pte (pmem t e i) \<Longrightarrow> (e, i) \<in> slots D u \<and> pmem t e i = pmem u e i"
    and idle_table: "\<And>q. q \<in> tables E t \<Longrightarrow> pmem t q = pmem u q"
    and idle_used: "\<And>l. l \<in> ulocs D u \<Longrightarrow> valid_pte (pload u l) \<or> swapped_pte (pload u l) \<Longrightarrow> l \<in> ulocs E t"
    and idle_same: "npage t = npage u" "swapInfos t = swapInfos u" "bno_tbl t = bno_tbl u" "swap_tbl t = swap_tbl u"
      "sd_bitmap t = sd_bitmap u" "sdisk t = sdisk u" "page_swap_queue t = page_swap_queue u"
      "swapInfo_free_list t = swapInfo_free_list u"
    and idle_frees: "distinct (page_free_list t)"
      "\<And>p. p \<in> set (page_free_list t) \<Longrightarrow>
        p < npage u \<and> pp_ref t p = 0 \<and> p \<notin> E \<union> tables E t \<and> p \<notin> set (page_swap_queue u) \<and> mappers D u p = {}"
    and idle_refs: "\<And>p. p \<in> set (page_swap_queue u) \<or> mappers D u p \<noteq> {} \<Longrightarrow> pp_ref t p = pp_ref u p"
    and idle_contents: "\<And>p. mappers D u p \<noteq> {} \<Longrightarrow> pmem t p = pmem u p"
  using assms unfolding idle_change_def by blast+

lemma idle_slots:
  assumes ch: "idle_change D E A B u t"
  shows slots_sub: "slots E t \<subseteq> slots D u" and slots_same: "(e, i) \<in> slots E t \<Longrightarrow> pmem t e i = pmem u e i"
  using idle_slot [OF ch] by (auto simp: slots_def)

lemma tables_sub:
  assumes ch: "idle_change D E A B u t"
  shows "tables E t \<subseteq> tables D u"
  unfolding tables_slots using slots_sub [OF ch] slots_same [OF ch] by force

lemma ulocs_sub: "idle_change D E A B u t \<Longrightarrow> ulocs E t \<subseteq> ulocs D u"
  using tables_sub by (fastforce simp: ulocs_def)

lemma load_same: "idle_change D E A B u t \<Longrightarrow> l \<in> ulocs E t \<Longrightarrow> pload t l = pload u l"
  using idle_table by (fastforce simp: ulocs_def pload_def)

lemma slot_kept:
  assumes ch: "idle_change D E A B u t" and d: "d \<in> D" "PDX va < NUPDE" "valid_pte (pmem u d (PDX va))"
    and l: "valid_pte (pload u (uloc u d va)) \<or> swapped_pte (pload u (uloc u d va))"
  shows "(d, PDX va) \<in> slots E t" "pmem t d (PDX va) = pmem u d (PDX va)" "uloc t d va = uloc u d va"
proof -
  have "uloc u d va \<in> ulocs E t" by (rule idle_used [OF ch uloc_ulocs(1) [OF d] l])
  then have "PPN (pmem u d (PDX va)) \<in> tables E t" by (auto simp: ulocs_def uloc_def)
  then obtain e j where s: "(e, j) \<in> slots E t" "PPN (pmem t e j) = PPN (pmem u d (PDX va))"
    unfolding tables_slots by auto
  have "e = d" "j = PDX va"
    using slot_unique [OF idle_ok [OF ch], of d "PDX va" e j] s slots_sub [OF ch] slots_same [OF ch s(1)] d
    by (auto simp: slots_def [of D])
  then show "(d, PDX va) \<in> slots E t" using s(1) by simp
  then show "pmem t d (PDX va) = pmem u d (PDX va)" by (rule slots_same [OF ch])
  then show "uloc t d va = uloc u d va" by (simp add: uloc_def)
qed

lemma record_kept:
  assumes ch: "idle_change D E A B u t" and si: "si \<in> infos u"
  shows "info_ok E t si" "sloc t si = sloc u si" "pload t (sloc t si) = pload u (sloc u si)"
proof -
  let ?d = "si_pgdir (swapInfos u si)" and ?va = "si_va (swapInfos u si)"
  note wf = remap_wf [OF idle_ok [OF ch]] and same = idle_same [OF ch]
  have d: "?d \<in> D" "PDX ?va < NUPDE" "valid_pte (pmem u ?d (PDX ?va))"
    using swap_wf_info [OF wf si] by (simp_all add: info_ok_def Let_def)
  have l: "valid_pte (pload u (sloc u si)) \<or> swapped_pte (pload u (sloc u si))"
    using si swap_wf_in(1) [OF wf] swap_wf_out(2) [OF wf] by (auto simp: infos_def)
  note k = slot_kept [OF ch d l [unfolded sloc_def Let_def]]
  show "info_ok E t si" using k(1) d by (simp add: info_ok_def Let_def same slots_def)
  show "sloc t si = sloc u si" using k(3) by (simp add: sloc_def same)
  then show "pload t (sloc t si) = pload u (sloc u si)"
    using load_same [OF ch idle_used [OF ch sloc_in_tables(2) [OF swap_wf_info [OF wf si]] l]] by simp
qed

lemma images_kept:
  assumes ch: "idle_change D E A B u t"
  shows "sloc t ` set (swap_tbl u p) = sloc u ` set (swap_tbl u p)" "sloc t ` set (bno_tbl u b) = sloc u ` set (bno_tbl u b)"
  using record_kept(2) [OF ch] info_of_tbl [of _ u p] info_of_bno [of _ u b] by (auto intro!: image_cong)

lemma mappers_kept:
  assumes ch: "idle_change D E A B u t"
  shows "mappers E t p = mappers D u p"
  using ulocs_sub [OF ch] load_same [OF ch] idle_used [OF ch] by (auto simp: mappers_def)

lemma idle_wf:
  assumes ch: "idle_change D E A B u t"
  shows "swap_wf E t"
proof -
  note ok = idle_ok [OF ch] and dirs = idle_dirs [OF ch] and same = idle_same [OF ch] and frees = idle_frees [OF ch]
    and refs = idle_refs [OF ch] and tables_sub = tables_sub [OF ch] and ulocs_sub = ulocs_sub [OF ch]
    and load_same = load_same [OF ch] and record_kept = record_kept [OF ch]
    and images_kept = images_kept [OF ch]
  note wf = remap_wf [OF ok]
  have inf: "infos t = infos u" by (simp add: infos_def same)
  show ?thesis
  proof (rule swap_wfI)
    show "inj_on (sloc t) (infos t)" using swap_wf_inj [OF wf] by (simp add: inf record_kept(2) inj_on_def)
    show "info_ok E t si" if "si \<in> infos t" for si using record_kept(1) that by (simp add: inf)
    show "p < npage t \<and> unat (pp_ref t p) = length (swap_tbl t p)" if "p \<in> set (page_swap_queue t)" for p
      using that swap_wf_queue(3,4) [OF wf, of p] refs by (simp add: same)
    show "p < npage t \<and> pp_ref t p = 0" if "p \<in> set (page_free_list t)" for p
      using frees(2) [OF that] by (simp add: same)
    show "q < npage t" if "q \<in> tables E t" for q using that tables_sub swap_wf_tables(1) [OF wf] by (auto simp: same)
    show "E \<inter> tables E t = {}" using dirs tables_sub by blast
    show "(E \<union> tables E t) \<inter> (set (page_swap_queue t) \<union> set (page_free_list t)) = {}"
    proof -
      have "q \<notin> set (page_swap_queue u)" if "q \<in> E \<union> tables E t" for q
        using that dirs tables_sub swap_wf_tables(3) [OF wf] by blast
      then show ?thesis using frees(2) by (auto simp: same(7))
    qed
    show "valid_pte (pload t (sloc t si)) \<and> \<not> swapped_pte (pload t (sloc t si)) \<and> PPN (pload t (sloc t si)) = p"
      if "si \<in> set (swap_tbl t p)" for p si
      using that swap_wf_in [OF wf, of si p] record_kept(3) [OF info_of_tbl, of si p] by (simp add: same)
    show "\<not> valid_pte (pload t (sloc t si)) \<and> swapped_pte (pload t (sloc t si)) \<and>
        PPN (pload t (sloc t si)) = b \<and> b < SD_NBLK \<and> bm_bit (sd_bitmap t) b"
      if "si \<in> set (bno_tbl t b)" for b si
      using that swap_wf_out [OF wf, of si b] record_kept(3) [OF info_of_bno, of si b] by (simp add: same)
    show "PPN (pload t l) \<notin> E \<union> tables E t \<and> PPN (pload t l) \<notin> set (page_free_list t) \<and>
        (PPN (pload t l) \<in> set (page_swap_queue t) \<longrightarrow> l \<in> sloc t ` set (swap_tbl t (PPN (pload t l))))"
      if l: "l \<in> ulocs E t" "valid_pte (pload t l)" for l
    proof -
      have "l \<in> ulocs D u" "pload t l = pload u l" using l(1) ulocs_sub load_same by auto
      moreover from this have "l \<in> mappers D u (PPN (pload u l))" using l(2) by (simp add: mappers_def)
      ultimately show ?thesis
        using swap_wf_mapped [OF wf, of l] l(2) dirs tables_sub frees(2) by (auto simp: same(4,7) images_kept)
    qed
    show "l \<in> sloc t ` set (bno_tbl t (PPN (pload t l)))"
      if l: "l \<in> ulocs E t" "\<not> valid_pte (pload t l)" "swapped_pte (pload t l)" for l
      using swap_wf_swapped [OF wf, of l] l ulocs_sub load_same by (auto simp: same(3) images_kept)
  qed (use swap_wf_npage [OF wf] swap_wf_queue(1,2) [OF wf] swap_wf_distinct [OF wf] frees(1) in \<open>auto simp: same\<close>)
qed

lemma idle_remap:
  assumes ch: "idle_change D E A B u t"
  shows "remap_ok E B t"
proof (rule remap_okI [OF idle_wf [OF ch] idle_fin [OF ch]])
  note ok = idle_ok [OF ch] and dirs = idle_dirs [OF ch] and same = idle_same [OF ch]
    and refs = idle_refs [OF ch] and ulocs_sub = ulocs_sub [OF ch]
    and load_same = load_same [OF ch] and record_kept = record_kept [OF ch]
    and slots_same = slots_same [OF ch]
  have inf: "infos t = infos u" by (simp add: infos_def same)
  show "e < npage t" if "e \<in> E" for e using dirs [OF that] by (simp add: same)
  have "inj_on (\<lambda>(d, i). PPN (pmem u d i)) (slots E t)" by (rule inj_on_subset [OF remap_inj [OF ok] slots_sub [OF ch]])
  moreover have "inj_on (\<lambda>(d, i). PPN (pmem t d i)) (slots E t) = inj_on (\<lambda>(d, i). PPN (pmem u d i)) (slots E t)"
    by (rule inj_on_cong) (auto simp: slots_same)
  ultimately show "inj_on (\<lambda>(d, i). PPN (pmem t d i)) (slots E t)" by simp
  show "si_asid (swapInfos t si) = B (si_pgdir (swapInfos t si))" if "si \<in> infos t" for si
  proof -
    have "si_pgdir (swapInfos u si) \<in> E" "si_pgdir (swapInfos u si) \<in> D"
      using record_kept(1) swap_wf_info [OF remap_wf [OF ok]] that by (auto simp: inf same info_ok_def Let_def)
    then show ?thesis using remap_asid [OF ok] that idle_asid [OF ch] by (simp add: inf same)
  qed
  show "distinct (swapInfo_free_list t)" "set (swapInfo_free_list t) \<inter> infos t = {}"
    using remap_free [OF ok] by (auto simp: inf same)
  show "card (mappers E t p) \<le> unat (pp_ref t p)" for p
    using remap_refs [OF ok, of p] refs [of p] by (cases "mappers D u p = {}") (auto simp: mappers_kept [OF ch])
  show "PPN (pload t l) < npage t" if "l \<in> ulocs E t" "valid_pte (pload t l)" for l
    using remap_ppn [OF ok, of l] that ulocs_sub load_same by (auto simp: same)
qed

lemma idle_view:
  assumes ch: "idle_change D E A B u t" and d: "d \<in> D" "d \<in> E" "PDX va < NUPDE"
  shows "uview t d va = uview u d va"
proof -
  note load_same = load_same [OF ch]
  show ?thesis
  proof (cases "valid_pte (pmem u d (PDX va)) \<and> (valid_pte (pload u (uloc u d va)) \<or> swapped_pte (pload u (uloc u d va)))")
    case True
    let ?l = "uloc u d va"
    have v: "valid_pte (pmem u d (PDX va))" "valid_pte (pload u ?l) \<or> swapped_pte (pload u ?l)" using True by auto
    note k = slot_kept [OF ch d(1,3) v]
    have l: "?l \<in> ulocs D u" by (rule uloc_ulocs(1) [OF d(1,3) v(1)])
    have "pload t ?l = pload u ?l" by (rule load_same [OF idle_used [OF ch l v(2)]])
    moreover have "pmem t (PPN (pload u ?l)) = pmem u (PPN (pload u ?l))" if "valid_pte (pload u ?l)"
      using idle_contents [OF ch, of "PPN (pload u ?l)"] l that unfolding mappers_def by blast
    ultimately show ?thesis using k v(1) by (auto simp: uview_def lview_def Let_def idle_same(6) [OF ch])
  next
    case False
    then have "uview u d va = None" by (auto simp: uview_def lview_None)
    moreover have "uview t d va = None"
    proof (cases "valid_pte (pmem t d (PDX va))")
      case v: True
      then have s: "(d, PDX va) \<in> slots D u" "pmem t d (PDX va) = pmem u d (PDX va)" using idle_slot [OF ch d(2,3)] by auto
      then have "\<not> (valid_pte (pload u (uloc u d va)) \<or> swapped_pte (pload u (uloc u d va)))" using False by (auto simp: slots_def)
      moreover have "uloc t d va = uloc u d va" using s(2) by (simp add: uloc_def)
      moreover have "uloc t d va \<in> ulocs E t" by (rule uloc_ulocs(1) [OF d(2,3) v])
      ultimately show ?thesis using load_same by (auto simp: uview_def lview_None)
    qed (simp add: uview_def)
    ultimately show ?thesis by simp
  qed
qed

section \<open>Dropping a table, a directory; a new directory\<close>

lemma page_decref_result:
  assumes "page_decref q u = Some t"
  shows "t = u\<lparr>pp_ref := (pp_ref u)(q := pp_ref u q - 1), page_free_list := page_free_list t\<rparr>"
    "page_free_list t = (if pp_ref u q = 1 then q # page_free_list u else page_free_list u)"
    "pp_ref u q = 1 \<Longrightarrow> q \<notin> set (page_free_list u)" "0 < pp_ref u q"
  using assms by (auto simp: page_decref_def page_free_def lst_insert_head_def Let_def split: if_splits elim!: bind_SomeE)

lemma dropped_slot:
  assumes ok: "remap_ok D A u" and d: "(d, i) \<in> slots D u" and pm: "pmem t = (pmem u)(d := (pmem u d)(i := 0))"
  shows "slots D t = slots D u - {(d, i)}" "tables D t = tables D u - {PPN (pmem u d i)}"
proof -
  show sl: "slots D t = slots D u - {(d, i)}"
  proof -
    have "(e, j) \<in> slots D t \<longleftrightarrow> (e, j) \<in> slots D u \<and> (e, j) \<noteq> (d, i)" for e j
      by (cases "e = d") (auto simp: slots_def pm)
    then show ?thesis by auto
  qed
  have "tables D t = (\<lambda>(d, i). PPN (pmem u d i)) ` (slots D u - {(d, i)})"
    unfolding tables_slots sl by (rule image_cong [OF refl]) (auto simp: pm split: if_splits)
  also have "\<dots> = tables D u - {PPN (pmem u d i)}"
    unfolding tables_slots using inj_on_image_set_diff [OF remap_inj [OF ok], of "slots D u" "{(d, i)}"] d by auto
  finally show "tables D t = tables D u - {PPN (pmem u d i)}" .
qed

lemma drop_table:
  assumes ok: "remap_ok D A u" and d: "(d, i) \<in> slots D u" and q: "q = PPN (pmem u d i)"
    and clear: "\<And>j. j < 1024 \<Longrightarrow> \<not> valid_pte (pload u (q, j)) \<and> \<not> swapped_pte (pload u (q, j))"
    and run: "page_decref q (mem_write d i 0 u) = Some t"
  shows "idle_change D D A A u t" "slots D t = slots D u - {(d, i)}" "pmem t = (pmem u)(d := (pmem u d)(i := 0))"
proof -
  note dec = page_decref_result [OF run] and wf = remap_wf [OF ok]
  have dD: "d \<in> D" "i < NUPDE" "valid_pte (pmem u d i)" using d by (auto simp: slots_def)
  show pm: "pmem t = (pmem u)(d := (pmem u d)(i := 0))" by (subst dec(1)) (simp add: mem_write_def)
  have f: "npage t = npage u" "swapInfos t = swapInfos u" "bno_tbl t = bno_tbl u" "swap_tbl t = swap_tbl u"
      "sd_bitmap t = sd_bitmap u" "sdisk t = sdisk u" "page_swap_queue t = page_swap_queue u"
      "swapInfo_free_list t = swapInfo_free_list u" "pp_ref t = (pp_ref u)(q := pp_ref u q - 1)"
    by (subst dec(1), simp add: mem_write_def)+
  have fl: "page_free_list t = (if pp_ref u q = 1 then q # page_free_list u else page_free_list u)"
    using dec(2) by (simp add: mem_write_def)
  show sl: "slots D t = slots D u - {(d, i)}" by (rule dropped_slot(1) [OF ok d pm])
  have val: "pmem t e j = pmem u e j" if "(e, j) \<noteq> (d, i)" for e j using that by (auto simp: pm)
  have tab: "tables D t = tables D u - {q}" unfolding q by (rule dropped_slot(2) [OF ok d pm])
  have q_tab: "q \<in> tables D u" unfolding q tables_slots using d by force
  note qa = table_apart [OF ok q_tab]
  have q_lt: "q < npage u" by (rule swap_wf_tables(1) [OF wf q_tab])
  show "idle_change D D A A u t"
    unfolding idle_change_def
  proof (intro conjI ballI allI impI)
    show "q' \<in> tables D t \<Longrightarrow> pmem t q' = pmem u q'" for q' using swap_wf_tables(2) [OF wf] dD(1) by (auto simp: tab pm)
    show "l \<in> ulocs D t" if "l \<in> ulocs D u" "valid_pte (pload u l) \<or> swapped_pte (pload u l)" for l
      using that clear by (auto simp: ulocs_def tab)
    show "distinct (page_free_list t)" using swap_wf_free(1) [OF wf] qa(3) by (simp add: fl)
    fix p assume p: "p \<in> set (page_free_list t)"
    then have p': "p = q \<and> pp_ref u q = 1 \<or> p \<in> set (page_free_list u)" by (simp add: fl split: if_splits)
    have free: "p \<notin> D \<union> tables D u" "p \<notin> set (page_swap_queue u)" "mappers D u p = {}" "p < npage u" "pp_ref u p = 0"
      if "p \<in> set (page_free_list u)"
      by (rule free_apart [OF ok that])+
    show "p < npage u" "p \<notin> D \<union> tables D t" "p \<notin> set (page_swap_queue u)" "mappers D u p = {}"
      using p' free qa q_lt by (auto simp: tab)
    show "pp_ref t p = 0" using p' free qa(3) by (auto simp: f)
  next
    fix p assume "p \<in> set (page_swap_queue u) \<or> mappers D u p \<noteq> {}"
    then show "pp_ref t p = pp_ref u p" using qa by (auto simp: f)
  next
    fix p assume "mappers D u p \<noteq> {}"
    then show "pmem t p = pmem u p" using dir_apart(4) [OF ok dD(1)] by (auto simp: pm)
  next
    fix e j assume "e \<in> D" "j < NUPDE" "valid_pte (pmem t e j)"
    then have "(e, j) \<in> slots D t" by (simp add: slots_def)
    then show "(e, j) \<in> slots D u" "pmem t e j = pmem u e j" unfolding sl by (auto intro!: val)
  qed (use ok remap_dirs [OF ok] dir_apart [OF ok] in \<open>auto simp: f\<close>)
qed

lemma drop_dir:
  assumes ok: "remap_ok D A u" and d: "d \<in> D" "\<And>i. (d, i) \<notin> slots D u" and run: "page_decref d u = Some t"
  shows "idle_change D (D - {d}) A A u t"
proof -
  note dec = page_decref_result [OF run] and wf = remap_wf [OF ok] and da = dir_apart [OF ok]
  have f: "pmem t = pmem u" "npage t = npage u" "swapInfos t = swapInfos u" "bno_tbl t = bno_tbl u" "swap_tbl t = swap_tbl u"
      "sd_bitmap t = sd_bitmap u" "sdisk t = sdisk u" "page_swap_queue t = page_swap_queue u"
      "swapInfo_free_list t = swapInfo_free_list u" "pp_ref t = (pp_ref u)(d := pp_ref u d - 1)"
    by (subst dec(1), simp)+
  have sl: "slots (D - {d}) t = slots D u" using d(2) by (auto simp: slots_def f)
  have tab: "tables (D - {d}) t = tables D u" unfolding tables_slots sl by (simp add: f)
  have ul: "ulocs (D - {d}) t = ulocs D u" by (simp add: ulocs_def tab)
  show ?thesis
    unfolding idle_change_def
  proof (intro conjI ballI allI impI)
    show "distinct (page_free_list t)" using swap_wf_free(1) [OF wf] dec(2) da(3) [OF d(1)] by simp
    fix p assume p: "p \<in> set (page_free_list t)"
    then have p': "p = d \<and> pp_ref u d = 1 \<or> p \<in> set (page_free_list u) \<and> p \<noteq> d"
      using da(3) [OF d(1)] by (auto simp: dec(2) split: if_splits)
    have free: "p \<notin> D \<union> tables D u" "p \<notin> set (page_swap_queue u)" "mappers D u p = {}" "p < npage u" "pp_ref u p = 0"
      if "p \<in> set (page_free_list u)"
      by (rule free_apart [OF ok that])+
    show "p < npage u" "p \<notin> (D - {d}) \<union> tables (D - {d}) t" "p \<notin> set (page_swap_queue u)" "mappers D u p = {}"
      using p' free da [OF d(1)] remap_dirs(2) [OF ok d(1)] by (auto simp: tab)
    show "pp_ref t p = 0" using p' free by (auto simp: f)
  next
    fix e i assume "e \<in> D - {d}" "i < NUPDE" "valid_pte (pmem t e i)"
    then show "(e, i) \<in> slots D u" by (auto simp: slots_def f)
  qed (use ok remap_dirs [OF ok] da [OF d(1)] da in \<open>auto simp: f tab ul\<close>)
qed

text \<open>Dropping a table or a directory that is counted once gives its page back; other pages keep their use.\<close>

lemma dropped_settled:
  assumes ch: "idle_change D E A B u t" and dec: "pp_ref t = (pp_ref u)(q := pp_ref u q - 1)"
    "page_free_list t = (if pp_ref u q = 1 then q # page_free_list u else page_free_list u)"
    and q: "q \<in> D \<union> tables D u" "E \<union> tables E t = (D \<union> tables D u) - {q}" and p: "settled D u p"
  shows "settled E t p"
proof (cases "p = q")
  case True
  have "q \<notin> set (page_free_list u)" "mappers D u q = {}"
    using dir_apart [OF idle_ok [OF ch]] table_apart [OF idle_ok [OF ch]] q(1) by blast+
  then have "pp_ref u q = 1" using p True by (simp add: settled_def)
  then show ?thesis using True by (simp add: settled_def dec)
next
  case False
  then show ?thesis using p q(2) by (auto simp: settled_def dec mappers_kept [OF ch])
qed

lemma drop_table_settled:
  assumes ok: "remap_ok D A u" and d: "(d, i) \<in> slots D u" and q: "q = PPN (pmem u d i)"
    and clear: "\<And>j. j < 1024 \<Longrightarrow> \<not> valid_pte (pload u (q, j)) \<and> \<not> swapped_pte (pload u (q, j))"
    and run: "page_decref q (mem_write d i 0 u) = Some t" and p: "settled D u p"
  shows "settled D t p"
proof -
  note dt = drop_table [OF ok d q clear run] and dec = page_decref_result [OF run]
  have tab: "q \<in> tables D u" unfolding q tables_slots using d by force
  have "tables D t = tables D u - {q}" unfolding q by (rule dropped_slot(2) [OF ok d dt(3)])
  moreover have "pp_ref t = (pp_ref u)(q := pp_ref u q - 1)" by (subst dec(1)) (simp add: mem_write_def)
  moreover have "page_free_list t = (if pp_ref u q = 1 then q # page_free_list u else page_free_list u)"
    using dec(2) by (simp add: mem_write_def)
  ultimately show ?thesis
    using dropped_settled [OF dt(1) _ _ _ _ p] tab table_apart(1) [OF ok tab] by blast
qed

lemma drop_dir_settled:
  assumes ok: "remap_ok D A u" and d: "d \<in> D" "\<And>i. (d, i) \<notin> slots D u" and run: "page_decref d u = Some t"
    and p: "settled D u p"
  shows "settled (D - {d}) t p"
proof -
  note dd = drop_dir [OF ok d run] and dec = page_decref_result [OF run]
  have pm: "pmem t = pmem u" "pp_ref t = (pp_ref u)(d := pp_ref u d - 1)" by (subst dec(1), simp)+
  have "slots (D - {d}) t = slots D u" using d(2) by (auto simp: slots_def pm)
  then have tab: "tables (D - {d}) t = tables D u" by (simp add: tables_slots pm)
  have "d \<notin> tables D u" by (rule dir_apart(1) [OF ok d(1)])
  then show ?thesis using dropped_settled [OF dd pm(2) dec(2) _ _ p] d(1) tab by blast
qed

text \<open>A fresh page is filled in, and possibly becomes a directory.\<close>

lemma add_dir:
  assumes ok: "remap_ok D A u" and p: "fresh_page D u p" and f: "\<And>i. i < NUPDE \<Longrightarrow> \<not> valid_pte (g i)"
    and E: "E = D \<or> E = insert p D"
  shows "idle_change D E A (A(p := a)) u (u\<lparr>pp_ref := (pp_ref u)(p := n), pmem := (pmem u)(p := g)\<rparr>)"
proof -
  let ?t = "u\<lparr>pp_ref := (pp_ref u)(p := n), pmem := (pmem u)(p := g)\<rparr>"
  note wf = remap_wf [OF ok] and da = dir_apart [OF ok]
  have pf: "p < npage u" "p \<notin> D" "p \<notin> tables D u" "p \<notin> set (page_swap_queue u)" "p \<notin> set (page_free_list u)"
    using p by (auto simp: fresh_page_def)
  have pm: "mappers D u p = {}" using p by (auto simp: fresh_page_def mappers_def)
  have sl: "slots E ?t = slots D u" using pf(2) f E by (auto simp: slots_def split: if_splits)
  have tab: "tables E ?t = tables D u"
    unfolding tables_slots sl by (rule image_cong [OF refl]) (use pf(2) in \<open>auto simp: slots_def\<close>)
  have ul: "ulocs E ?t = ulocs D u" by (simp add: ulocs_def tab)
  show ?thesis
    unfolding idle_change_def
  proof (intro conjI ballI allI impI)
    fix x assume x: "x \<in> set (page_free_list ?t)"
    then have "x \<in> set (page_free_list u)" by simp
    note fr = free_apart [OF ok this]
    show "x < npage u" "x \<notin> E \<union> tables E ?t" "x \<notin> set (page_swap_queue u)" "mappers D u x = {}"
      using fr pf(5) x E by (auto simp: tab)
    show "pp_ref ?t x = 0" using fr(5) pf(5) x by auto
  qed (use ok remap_dirs [OF ok] da pf pm swap_wf_free(1) [OF wf] f E in \<open>auto simp: tab ul slots_def split: if_splits\<close>)
qed

section \<open>Freeing the pages of an environment\<close>

lemma entry_va:
  assumes "n < 1024" "j < 1024"
  shows "PDX (push_bit PDSHIFT (word_of_nat n) OR push_bit PGSHIFT (word_of_nat j)) = n"
    "PTX (push_bit PDSHIFT (word_of_nat n) OR push_bit PGSHIFT (word_of_nat j)) = j"
proof -
  let ?va = "push_bit PDSHIFT (word_of_nat n) OR push_bit PGSHIFT (word_of_nat j) :: u32"
  have small: "i < 10" if "bit k i" "k < 1024" for k i :: nat
  proof -
    have "take_bit 10 k = k" using that(2) by (simp add: take_bit_nat_eq_self)
    then show ?thesis using that(1) by (metis bit_take_bit_iff)
  qed
  have m: "0x3FF = (mask 10 :: u32)" by (simp add: mask_eq_exp_minus_1)
  have "drop_bit PDSHIFT ?va AND 0x3FF = word_of_nat n"
    unfolding m by (rule bit_word_eqI) (use assms in \<open>auto simp: bit_simps dest: small\<close>)
  then show "PDX ?va = n" using assms by (simp add: PDX_def unat_of_nat)
  have "drop_bit PGSHIFT ?va AND 0x3FF = word_of_nat j"
    unfolding m by (rule bit_word_eqI) (use assms in \<open>auto simp: bit_simps dest: small\<close>)
  then show "PTX ?va = j" using assms by (simp add: PTX_def unat_of_nat)
qed

lemma foldM_upt:
  assumes "foldM f [a..<b] s = Some t" "a \<le> b" "I a s"
    and step: "\<And>i s t. a \<le> i \<Longrightarrow> i < b \<Longrightarrow> I i s \<Longrightarrow> f i s = Some t \<Longrightarrow> I (Suc i) t"
  shows "I b t"
proof -
  have "I b t" if "foldM f [i..<b] s = Some t" "a \<le> i" "i \<le> b" "I i s" for i s
    using that
  proof (induction "b - i" arbitrary: i s)
    case 0
    then show ?case by simp
  next
    case (Suc n)
    then have "[i..<b] = i # [Suc i..<b]" by (simp add: upt_conv_Cons)
    then obtain u where u: "f i s = Some u" "foldM f [Suc i..<b] u = Some t" using Suc.prems(1) by (auto elim: bind_SomeE)
    show ?case
      using Suc.hyps(1) [of "Suc i" u] Suc.hyps(2) Suc.prems step [OF Suc.prems(2) _ Suc.prems(4) u(1)] u(2) by auto
  qed
  then show ?thesis using assms(1-3) by blast
qed

text \<open>
  While the pages of directory \<open>d\<close> are freed: the memory manager stays consistent, the directories other than
  \<open>d\<close> are seen as before, the entries below \<open>n\<close> of \<open>d\<close> hold no table, and no page drops out of the ledger.
\<close>

definition freeing :: "nat set \<Rightarrow> (nat \<Rightarrow> u32) \<Rightarrow> nat \<Rightarrow> kstate \<Rightarrow> nat \<Rightarrow> kstate \<Rightarrow> bool" where
  "freeing D A d s n t \<longleftrightarrow>
     remap_ok D A (km t) \<and> (\<exists>m. t = s\<lparr>km := m\<rparr>) \<and> (\<forall>i < n. \<not> valid_pte (pmem (km t) d i)) \<and>
     (\<forall>e \<in> D. \<forall>va. e \<noteq> d \<longrightarrow> PDX va < NUPDE \<longrightarrow> uview (km t) e va = uview (km s) e va) \<and>
     npage (km t) = npage (km s) \<and> (\<forall>p. settled D (km s) p \<longrightarrow> settled D (km t) p)"

lemma free_entry:
  assumes ok: "remap_ok D A m" and d: "(d, i) \<in> slots D m" and j: "j < 1024"
    and run: "(if pmem m (PPN (pmem m d i)) j AND PTE_V \<noteq> 0 \<or> pmem m (PPN (pmem m d i)) j AND PTE_SWAPPED \<noteq> 0
      then page_remove d (A d) (push_bit PDSHIFT (word_of_nat i) OR push_bit PGSHIFT (word_of_nat j)) m else Some m) = Some m'"
  shows "remap_ok D A m'" "e \<in> D \<Longrightarrow> pmem m' e = pmem m e" "npage m' = npage m"
    "e \<in> D \<Longrightarrow> PDX va < NUPDE \<Longrightarrow>
      uview m' e va = (if e = d \<and> PDX va = i \<and> PTX va = j then None else uview m e va)"
    "settled D m p \<Longrightarrow> settled D m' p"
proof -
  let ?va = "push_bit PDSHIFT (word_of_nat i) OR push_bit PGSHIFT (word_of_nat j) :: u32"
  have dD: "d \<in> D" "i < NUPDE" "valid_pte (pmem m d i)" using d by (auto simp: slots_def)
  have "i < 1024" using dD(2) by (simp add: NUPDE_val)
  note va = entry_va [OF this j]
  have loc: "uloc m d ?va = (PPN (pmem m d i), j)" by (simp only: uloc_def va)
  have "remap_ok D A m' \<and> (\<forall>e \<in> D. pmem m' e = pmem m e) \<and> npage m' = npage m \<and>
    (\<forall>e \<in> D. \<forall>va. PDX va < NUPDE \<longrightarrow> uview m' e va = (if e = d \<and> PDX va = i \<and> PTX va = j then None else uview m e va)) \<and>
    (settled D m p \<longrightarrow> settled D m' p)"
  proof (cases "valid_pte (pload m (uloc m d ?va)) \<or> swapped_pte (pload m (uloc m d ?va))")
    case True
    then have "page_remove d (A d) ?va m = Some m'"
      using run by (simp only: loc and_PTE_V and_PTE_SWAPPED pload_def fst_conv snd_conv not_not if_True)
    moreover have "PDX ?va < NUPDE" using dD(2) by (simp only: va)
    ultimately show ?thesis
      using page_remove_remap(1-4) [OF ok dD(1), of ?va m'] page_remove_settled [OF ok dD(1), of ?va "A d" m' p] va
      by (simp only: PTE_ADDR_indices) blast
  next
    case False
    then have "m' = m"
      using run by (simp only: loc and_PTE_V and_PTE_SWAPPED pload_def fst_conv snd_conv not_not de_Morgan_disj) simp
    moreover have "uview m d va' = None" if "PDX va' = i" "PTX va' = j" for va'
    proof -
      have "uloc m d va' = uloc m d ?va" using that va by (simp only: uloc_def)
      then show ?thesis using False by (auto simp: uview_def lview_None)
    qed
    ultimately show ?thesis using ok by auto
  qed
  then show "remap_ok D A m'" "e \<in> D \<Longrightarrow> pmem m' e = pmem m e" "npage m' = npage m"
    "e \<in> D \<Longrightarrow> PDX va < NUPDE \<Longrightarrow>
      uview m' e va = (if e = d \<and> PDX va = i \<and> PTX va = j then None else uview m e va)"
    "settled D m p \<Longrightarrow> settled D m' p" by blast+
qed

lemma free_table:
  assumes fr: "freeing D A d s n t" and d: "d \<in> D" "d = env_pgdir (envs s e)" "A d = env_asid (envs s e)" and n: "n < NUPDE"
    and run: "env_free_pt e n t = Some t'"
  shows "freeing D A d s (Suc n) t'"
proof -
  have ok: "remap_ok D A (km t)" and gone: "\<And>i. i < n \<Longrightarrow> \<not> valid_pte (pmem (km t) d i)"
    and view: "\<And>e va. e \<in> D \<Longrightarrow> e \<noteq> d \<Longrightarrow> PDX va < NUPDE \<Longrightarrow> uview (km t) e va = uview (km s) e va"
    and np: "npage (km t) = npage (km s)" and led: "\<And>p. settled D (km s) p \<Longrightarrow> settled D (km t) p"
    using fr by (auto simp: freeing_def)
  obtain m0 where t: "t = s\<lparr>km := m0\<rparr>" using fr by (auto simp: freeing_def)
  have env: "env_pgdir (envs t e) = d" "env_asid (envs t e) = A d" using d by (simp_all add: t)
  let ?q = "PPN (pmem (km t) d n)"
  show ?thesis
  proof (cases "valid_pte (pmem (km t) d n)")
    case False
    then have "t' = t" using run by (simp add: env_free_pt_def env and_PTE_V del: PTE_V_def)
    moreover have "\<not> valid_pte (pmem (km t) d i)" if "i < Suc n" for i using that gone False by (cases "i = n") auto
    ultimately show ?thesis using fr by (simp add: freeing_def)
  next
    case True
    then have slot: "(d, n) \<in> slots D (km t)" using d(1) n by (simp add: slots_def)
    let ?body = "\<lambda>j s. let pte = pmem (km s) ?q j in
        if pte AND PTE_V \<noteq> 0 \<or> pte AND PTE_SWAPPED \<noteq> 0
        then with_km (page_remove d (A d) (push_bit PDSHIFT (word_of_nat n) OR push_bit PGSHIFT (word_of_nat j))) s
        else Some s"
    obtain x w where x: "foldM ?body [0..<1024] t = Some x"
      and w: "page_decref ?q (mem_write d n 0 (km x)) = Some w"
      and t': "t' = x\<lparr>km := tlb_invalidate (A d) (UVPT + push_bit PGSHIFT (word_of_nat n)) w\<rparr>"
      using run True
      by (auto simp: env_free_pt_def env and_PTE_V pa2page_def with_km_def Let_def
          simp del: PTE_V_def PTE_SWAPPED_def PGSHIFT_def PDSHIFT_def elim!: bind_SomeE split: if_splits)
    let ?I = "\<lambda>j x. remap_ok D A (km x) \<and> (\<exists>m. x = t\<lparr>km := m\<rparr>) \<and> (\<forall>e \<in> D. pmem (km x) e = pmem (km t) e) \<and>
      npage (km x) = npage (km t) \<and> (\<forall>p. settled D (km t) p \<longrightarrow> settled D (km x) p) \<and>
      (\<forall>e \<in> D. \<forall>va. PDX va < NUPDE \<longrightarrow>
        uview (km x) e va = (if e = d \<and> PDX va = n \<and> PTX va < j then None else uview (km t) e va))"
    have "?I 1024 x"
    proof (rule foldM_upt [where I = ?I, OF x])
      show "?I 0 t" using ok by (auto intro: exI [of _ "km t"])
    next
      fix j x x' assume j: "j < 1024" and I: "?I j x" and b: "?body j x = Some x'"
      have dir: "pmem (km x) d = pmem (km t) d" using I d(1) by blast
      then have sx: "(d, n) \<in> slots D (km x)" using slot by (simp add: slots_def)
      have R: "(if pmem (km x) (PPN (pmem (km x) d n)) j AND PTE_V \<noteq> 0 \<or> pmem (km x) (PPN (pmem (km x) d n)) j AND PTE_SWAPPED \<noteq> 0
          then page_remove d (A d) (push_bit PDSHIFT (word_of_nat n) OR push_bit PGSHIFT (word_of_nat j)) (km x)
          else Some (km x)) = Some (km x')" and X: "\<exists>m. x' = x\<lparr>km := m\<rparr>"
        using b by (auto simp: dir with_km_def Let_def simp del: PTE_V_def PTE_SWAPPED_def PGSHIFT_def PDSHIFT_def
            elim!: bind_SomeE split: if_splits intro: exI [of _ "km x"])
      have okj: "remap_ok D A (km x)" and pmj: "\<And>e. e \<in> D \<Longrightarrow> pmem (km x) e = pmem (km t) e"
        and vj: "\<And>e va. e \<in> D \<Longrightarrow> PDX va < NUPDE \<Longrightarrow>
          uview (km x) e va = (if e = d \<and> PDX va = n \<and> PTX va < j then None else uview (km t) e va)"
        using I by blast+
      note fe = free_entry [OF okj sx j R]
      have "uview (km x') e va = (if e = d \<and> PDX va = n \<and> PTX va < Suc j then None else uview (km t) e va)"
        if "e \<in> D" "PDX va < NUPDE" for e va
        unfolding fe(4) [OF that] vj [OF that] by (auto simp: less_Suc_eq)
      moreover have "\<exists>m. x' = t\<lparr>km := m\<rparr>" using X I by auto
      moreover have "npage (km x') = npage (km t) \<and> (\<forall>p. settled D (km t) p \<longrightarrow> settled D (km x') p)" using fe(3,5) I by metis
      ultimately show "?I (Suc j) x'" using fe(1,2) pmj by simp
    qed simp
    then have okx: "remap_ok D A (km x)" and xt: "\<exists>m. x = t\<lparr>km := m\<rparr>" and dir: "\<And>e. e \<in> D \<Longrightarrow> pmem (km x) e = pmem (km t) e"
      and vx: "\<And>e va. e \<in> D \<Longrightarrow> PDX va < NUPDE \<Longrightarrow>
        uview (km x) e va = (if e = d \<and> PDX va = n then None else uview (km t) e va)"
      and nx: "npage (km x) = npage (km t)" and lx: "\<And>p. settled D (km t) p \<Longrightarrow> settled D (km x) p"
      by auto
    have sx: "(d, n) \<in> slots D (km x)" using slot dir [OF d(1)] by (simp add: slots_def)
    have q: "?q = PPN (pmem (km x) d n)" using dir [OF d(1)] by simp
    have clear: "\<not> valid_pte (pload (km x) (?q, j)) \<and> \<not> swapped_pte (pload (km x) (?q, j))" if j: "j < 1024" for j
    proof -
      have "n < 1024" using n by (simp add: NUPDE_val)
      note va = entry_va [OF this j]
      let ?va = "push_bit PDSHIFT (word_of_nat n) OR push_bit PGSHIFT (word_of_nat j) :: u32"
      have "uview (km x) d ?va = None" using vx [OF d(1), of ?va] va n by simp
      moreover have "uloc (km x) d ?va = (?q, j)" unfolding uloc_def va q ..
      ultimately show ?thesis using sx va by (auto simp: uview_def lview_None slots_def)
    qed
    have dt: "idle_change D D A A (km x) w" "slots D w = slots D (km x) - {(d, n)}"
      "pmem w = (pmem (km x))(d := (pmem (km x) d)(n := 0))"
      using drop_table [OF okx sx q _ w] clear by blast+
    note okw = idle_remap [OF dt(1)] and vw = idle_view [OF dt(1)]
    have "\<not> valid_pte (pmem w d i)" if "i < Suc n" for i
      using that gone dir [OF d(1)] by (cases "i = n") (auto simp: dt(3))
    moreover have "uview w e va = uview (km s) e va" if "e \<in> D" "e \<noteq> d" "PDX va < NUPDE" for e va
      using vw [OF that(1,1,3)] vx [OF that(1,3)] view [OF that] that(2) by simp
    moreover have "\<exists>m. t' = s\<lparr>km := m\<rparr>" using xt by (auto simp: t' t)
    moreover have "npage w = npage (km s)" using idle_same(1) [OF dt(1)] nx np by simp
    moreover have "settled D w p" if "settled D (km s) p" for p
      using drop_table_settled [OF okx sx q _ w lx [OF led [OF that]]] clear by blast
    ultimately show ?thesis using okw by (auto simp: freeing_def t')
  qed
qed

lemma printk_km:
  assumes "printk fmt ap s = Some t"
  shows "km t = km s" "envs t = envs s" "curenv t = curenv s" "env_free_list t = env_free_list s" "asid_bitmap t = asid_bitmap s"
  using vprintfmt_keeps [of "\<lambda>x. km x = km s \<and> envs x = envs s \<and> curenv x = curenv s \<and> env_free_list x = env_free_list s \<and>
        asid_bitmap x = asid_bitmap s"
      outputk, OF _ assms [unfolded printk_def]]
  by (simp_all add: outputk_frame)

lemma free_pages:
  assumes ok: "remap_ok D A (km s)" and d: "d \<in> D" "d = env_pgdir (envs s e)" "A d = env_asid (envs s e)"
    and run: "foldM (env_free_pt e) [0..<NUPDE] s = Some t"
  shows "freeing D A d s NUPDE t"
proof (rule foldM_upt [where I = "freeing D A d s", OF run])
  show "freeing D A d s 0 s" using ok by (auto simp: freeing_def intro: exI [of _ "km s"])
  show "freeing D A d s (Suc i) u" if "i < NUPDE" "freeing D A d s i t" "env_free_pt e i t = Some u" for i t u
    by (rule free_table [OF that(2) d that(1,3)])
qed simp

lemma cur_frame: "live (t\<lparr>curenv := c\<rparr>) = live t" "dirs (t\<lparr>curenv := c\<rparr>) = dirs t"
  by (simp_all add: live_def dirs_def)

lemma env_free_parts:
  assumes "env_free e s = Some t"
  shows "\<exists>fmt ap s1 s2 s3. printk fmt ap s = Some s1 \<and> foldM (env_free_pt e) [0..<NUPDE] s1 = Some s2 \<and>
    with_km (page_decref (env_pgdir (envs s2 e))) s2 = Some s3 \<and>
    km t = tlb_invalidate (env_asid (envs s3 e)) (UVPT + push_bit PGSHIFT (word_of_nat (PDX UVPT))) (km s3) \<and>
    envs t = (envs s3)(e := (envs s3 e)\<lparr>env_status := ENV_FREE\<rparr>) \<and> env_free_list t = e # env_free_list s3 \<and>
    asid_bitmap t = asid_bitmap (asid_free (unat (env_asid (envs s3 e))) s3) \<and>
    TAILQ_REMOVE () e (env_sched_list s3) = Some (env_sched_list t)"
proof -
  obtain fmt ap s1 s2 s3 where parts: "printk fmt ap s = Some s1" "foldM (env_free_pt e) [0..<NUPDE] s1 = Some s2"
    "with_km (page_decref (env_pgdir (envs s2 e))) s2 = Some s3"
    and rest: "(do {
     let s = asid_free (unat (env_asid (envs s3 e))) s3;
     let s = s\<lparr>km := tlb_invalidate (env_asid (envs s e))
               (UVPT + push_bit PGSHIFT (word_of_nat (PDX UVPT))) (km s)\<rparr>;
     let s = upd_env e (\<lambda>x. x\<lparr>env_status := ENV_FREE\<rparr>) s;
     fl \<leftarrow> lst_insert_head e (env_free_list s);
     let s = s\<lparr>env_free_list := fl\<rparr>;
     q \<leftarrow> TAILQ_REMOVE () e (env_sched_list s);
     Some (s\<lparr>env_sched_list := q\<rparr>) }) = Some t"
    using assms unfolding env_free_def NUPDE_def [symmetric] by (elim bind_SomeE) blast
  have "km t = tlb_invalidate (env_asid (envs s3 e)) (UVPT + push_bit PGSHIFT (word_of_nat (PDX UVPT))) (km s3) \<and>
    envs t = (envs s3)(e := (envs s3 e)\<lparr>env_status := ENV_FREE\<rparr>) \<and> env_free_list t = e # env_free_list s3 \<and>
    asid_bitmap t = asid_bitmap (asid_free (unat (env_asid (envs s3 e))) s3) \<and>
    TAILQ_REMOVE () e (env_sched_list s3) = Some (env_sched_list t)"
    using rest unfolding Let_def
    by (auto simp: asid_free_def upd_env_def lst_insert_head_def simp del: UVPT_def PGSHIFT_def elim!: bind_SomeE split: if_splits)
  then show ?thesis using parts by blast
qed

section \<open>Freeing ends\<close>

text \<open>With nothing on the swap disk nothing has to be brought back, and the counts of tables are positive.\<close>

definition calm :: "nat set \<Rightarrow> (nat \<Rightarrow> u32) \<Rightarrow> kmem \<Rightarrow> bool" where
  "calm D A m \<longleftrightarrow> remap_ok D A m \<and> (\<forall>b. bno_tbl m b = []) \<and> (\<forall>q \<in> D \<union> tables D m. 0 < pp_ref m q)"

lemma foldM_upt_total:
  assumes "a \<le> b" "I a s" and step: "\<And>i s. a \<le> i \<Longrightarrow> i < b \<Longrightarrow> I i s \<Longrightarrow> \<exists>t. f i s = Some t \<and> I (Suc i) t"
  shows "\<exists>t. foldM f [a..<b] s = Some t \<and> I b t"
proof -
  have "\<exists>t. foldM f [i..<b] s = Some t \<and> I b t" if "a \<le> i" "i \<le> b" "I i s" for i s
    using that
  proof (induction "b - i" arbitrary: i s)
    case (Suc n)
    have "i < b" using Suc.hyps(2) by simp
    then obtain u where u: "f i s = Some u" "I (Suc i) u" using step [of i s] Suc.prems by auto
    have "[i..<b] = i # [Suc i..<b]" using Suc.hyps(2) by (simp add: upt_conv_Cons)
    then show ?case using Suc.hyps(1) [of "Suc i" u] Suc.hyps(2) Suc.prems u by simp
  qed simp
  then show ?thesis using assms(1,2) by blast
qed

lemma page_remove_present:
  assumes ok: "remap_ok D A s" and d: "d \<in> D" "PDX va < NUPDE" and m: "maps_at s d va p"
  shows "\<exists>t. page_remove d a va s = Some t \<and> bno_tbl t = bno_tbl s \<and> (\<forall>q. q \<noteq> p \<longrightarrow> pp_ref t q = pp_ref s q)"
proof -
  define u where "u = s\<lparr>accessed := (accessed s)(p := 1)\<rparr>"
  note lk = maps_at_lookup [OF ok d m, folded u_def]
  have l: "uloc s d va \<in> ulocs D s" by (rule maps_at_walk(1) [OF ok d m])
  have v: "valid_pte (pload s (uloc s d va))" "PPN (pload s (uloc s d va)) = p" using m by (simp_all add: maps_at_def)
  have "uloc s d va \<in> mappers D s p" using l v by (simp add: mappers_def)
  then have "0 < card (mappers D s p)" using finite_mappers [OF remap_dirs(1) [OF ok]] by (auto simp: card_gt_0_iff)
  then have "0 < unat (pp_ref s p)" using remap_refs [OF ok, of p] by linarith
  then have ref: "0 < pp_ref u p" by (simp add: unat_gt_0 word_gt_0 u_def)
  have "p \<notin> set (page_free_list u)" using swap_wf_mapped(1) [OF remap_wf [OF ok] l v(1)] v(2) by (simp add: u_def)
  then obtain w where w: "page_decref p u = Some w" "bno_tbl w = bno_tbl u" "\<forall>q. q \<noteq> p \<longrightarrow> pp_ref w q = pp_ref u q"
    using ref by (cases "pp_ref u p = 1") (auto simp: page_decref_def page_free_def lst_insert_head_def Let_def)
  have un: "bno_tbl (swap_unregister p d va a w) = bno_tbl w" "pp_ref (swap_unregister p d va a w) = pp_ref w"
    by (auto simp: swap_unregister_def Let_def split: option.splits)
  obtain x y where xy: "uloc s d va = (x, y)" by fastforce
  show ?thesis
    by (rule exI [of _ "tlb_invalidate a va (mem_write x y 0 (swap_unregister p d va a w))"])
      (use w in \<open>simp add: page_remove_def lk xy Let_def un mem_write_def tlb_invalidate_def tlb_out_def u_def\<close>)
qed

lemma free_entry_total:
  assumes ok: "calm D A m" and d: "(d, i) \<in> slots D m" and j: "j < 1024"
  shows "\<exists>m'. (if pmem m (PPN (pmem m d i)) j AND PTE_V \<noteq> 0 \<or> pmem m (PPN (pmem m d i)) j AND PTE_SWAPPED \<noteq> 0
      then page_remove d (A d) (push_bit PDSHIFT (word_of_nat i) OR push_bit PGSHIFT (word_of_nat j)) m else Some m) = Some m' \<and>
    calm D A m'"
proof -
  let ?va = "push_bit PDSHIFT (word_of_nat i) OR push_bit PGSHIFT (word_of_nat j) :: u32"
  have okm: "remap_ok D A m" and empty: "\<And>b. bno_tbl m b = []" and pos: "\<And>q. q \<in> D \<union> tables D m \<Longrightarrow> 0 < pp_ref m q"
    using ok by (auto simp: calm_def)
  have dD: "d \<in> D" "i < NUPDE" "valid_pte (pmem m d i)" using d by (auto simp: slots_def)
  have "i < 1024" using dD(2) by (simp add: NUPDE_val)
  note va = entry_va [OF this j]
  have loc: "uloc m d ?va = (PPN (pmem m d i), j)" by (simp only: uloc_def va)
  have dva: "PDX ?va < NUPDE" "valid_pte (pmem m d (PDX ?va))" using dD by (simp_all only: va)
  have l: "uloc m d ?va \<in> ulocs D m" by (rule uloc_ulocs(1) [OF dD(1) dva])
  show ?thesis
  proof (cases "valid_pte (pload m (uloc m d ?va))")
    case True
    define p where "p = PPN (pload m (uloc m d ?va))"
    have "maps_at m d ?va p" using True dva by (simp only: maps_at_def p_def)
    then obtain m' where m': "page_remove d (A d) ?va m = Some m'" "bno_tbl m' = bno_tbl m"
      "\<And>q. q \<noteq> p \<Longrightarrow> pp_ref m' q = pp_ref m q"
      using page_remove_present [OF okm dD(1) dva(1)] by blast
    note pr = page_remove_remap [OF okm dD(1) dva(1) m'(1)]
    have "tables D m' = tables D m" using pr(2) by (rule dir_frame_tables)
    moreover have "p \<notin> D \<union> tables D m" using swap_wf_mapped(1) [OF remap_wf [OF okm] l True] unfolding p_def by blast
    ultimately have "calm D A m'"
      unfolding calm_def using pr(1) empty pos m'(2,3) by metis
    moreover have "pmem m (PPN (pmem m d i)) j AND PTE_V \<noteq> 0"
      using True by (simp only: loc and_PTE_V pload_def fst_conv snd_conv not_not)
    ultimately show ?thesis using m'(1) by auto
  next
    case False
    have "\<not> swapped_pte (pload m (uloc m d ?va))"
      using swap_wf_swapped [OF remap_wf [OF okm] l False] by (auto simp: empty)
    then have "\<not> (pmem m (PPN (pmem m d i)) j AND PTE_V \<noteq> 0 \<or> pmem m (PPN (pmem m d i)) j AND PTE_SWAPPED \<noteq> 0)"
      using False by (simp only: loc and_PTE_V and_PTE_SWAPPED pload_def fst_conv snd_conv not_not de_Morgan_disj) simp
    then show ?thesis using ok by auto
  qed
qed

lemma free_table_total:
  assumes ok: "calm D A (km t)" and fr: "freeing D A d s n t"
    and d: "d \<in> D" "d = env_pgdir (envs s e)" "A d = env_asid (envs s e)" and n: "n < NUPDE"
  shows "\<exists>t'. env_free_pt e n t = Some t' \<and> calm D A (km t') \<and> freeing D A d s (Suc n) t'"
proof -
  obtain m0 where "t = s\<lparr>km := m0\<rparr>" using fr by (auto simp: freeing_def)
  then have env: "env_pgdir (envs t e) = d" "env_asid (envs t e) = A d" using d by simp_all
  have "\<exists>t'. env_free_pt e n t = Some t' \<and> (\<forall>b. bno_tbl (km t') b = []) \<and> (\<forall>q \<in> D \<union> tables D (km t'). 0 < pp_ref (km t') q)"
  proof (cases "valid_pte (pmem (km t) d n)")
  case False
  then have "env_free_pt e n t = Some t" by (simp add: env_free_pt_def env and_PTE_V del: PTE_V_def)
  then show ?thesis using ok by (auto simp: calm_def)
next
  case True
  have okt: "remap_ok D A (km t)" using ok by (simp add: calm_def)
  have slot: "(d, n) \<in> slots D (km t)" using d(1) n True by (simp add: slots_def)
  let ?q = "PPN (pmem (km t) d n)"
  have q: "?q \<in> tables D (km t)" unfolding tables_slots using slot by force
  let ?body = "\<lambda>j s. let pte = pmem (km s) ?q j in
      if pte AND PTE_V \<noteq> 0 \<or> pte AND PTE_SWAPPED \<noteq> 0
      then with_km (page_remove d (A d) (push_bit PDSHIFT (word_of_nat n) OR push_bit PGSHIFT (word_of_nat j))) s
      else Some s"
  let ?I = "\<lambda>j x. calm D A (km x) \<and> (\<exists>m. x = t\<lparr>km := m\<rparr>) \<and> (\<forall>e \<in> D. pmem (km x) e = pmem (km t) e) \<and> npage (km x) = npage (km t)"
  have "\<exists>x. foldM ?body [0..<1024] t = Some x \<and> ?I 1024 x"
  proof (rule foldM_upt_total [where I = ?I])
    show "?I 0 t" using ok by (auto intro: exI [of _ "km t"])
  next
    fix j x assume j: "j < (1024 :: nat)" and I: "?I j x"
    have dir: "pmem (km x) d = pmem (km t) d" using I d(1) by blast
    then have sx: "(d, n) \<in> slots D (km x)" using slot by (simp add: slots_def)
    have cx: "calm D A (km x)" using I by blast
    obtain m' where m': "(if pmem (km x) (PPN (pmem (km x) d n)) j AND PTE_V \<noteq> 0 \<or> pmem (km x) (PPN (pmem (km x) d n)) j AND PTE_SWAPPED \<noteq> 0
        then page_remove d (A d) (push_bit PDSHIFT (word_of_nat n) OR push_bit PGSHIFT (word_of_nat j)) (km x)
        else Some (km x)) = Some m'" "calm D A m'"
      using free_entry_total [OF cx sx j] by blast
    have "remap_ok D A (km x)" using cx by (simp add: calm_def)
    note fe = free_entry(2,3) [OF this sx j m'(1)]
    have "?body j x = Some (x\<lparr>km := m'\<rparr>)"
      using m'(1) by (auto simp: dir with_km_def Let_def simp del: PTE_V_def PTE_SWAPPED_def PGSHIFT_def PDSHIFT_def split: if_splits)
    then show "\<exists>x'. ?body j x = Some x' \<and> ?I (Suc j) x'" using I m'(2) fe by (auto intro!: exI [of _ "x\<lparr>km := m'\<rparr>"])
  qed simp
  then obtain x where x: "foldM ?body [0..<1024] t = Some x" "calm D A (km x)" "\<exists>m. x = t\<lparr>km := m\<rparr>"
    "\<And>e. e \<in> D \<Longrightarrow> pmem (km x) e = pmem (km t) e" "npage (km x) = npage (km t)" by blast
  have okx: "remap_ok D A (km x)" and emptyx: "\<And>b. bno_tbl (km x) b = []"
    and pos: "\<And>q. q \<in> D \<union> tables D (km x) \<Longrightarrow> 0 < pp_ref (km x) q" using x(2) by (auto simp: calm_def)
  have tab: "tables D (km x) = tables D (km t)" using x(4) by (rule dir_frame_tables)
  obtain w where w: "page_decref ?q (mem_write d n 0 (km x)) = Some w"
    using pos [of ?q] q table_apart(3) [OF okx, of ?q]
    by (cases "pp_ref (km x) ?q = 1") (auto simp: tab page_decref_def page_free_def lst_insert_head_def mem_write_def Let_def)
  have lt: "?q < npage (km t)" by (rule swap_wf_tables(1) [OF remap_wf [OF okt] q])
  have nm: "npage (mem_write d n 0 (km x)) = npage (km x)" by (simp add: mem_write_def)
  have run: "env_free_pt e n t = Some (x\<lparr>km := tlb_invalidate (A d) (UVPT + push_bit PGSHIFT (word_of_nat n)) w\<rparr>)"
    using True x(1) w lt x(5) nm
    by (simp add: env_free_pt_def env and_PTE_V pa2page_def with_km_def KADDR_def Let_def
        del: PTE_V_def PTE_SWAPPED_def PGSHIFT_def PDSHIFT_def UVPT_def)
  note dec = page_decref_result [OF w]
  have "bno_tbl w = bno_tbl (km x)" "\<And>q'. q' \<noteq> ?q \<Longrightarrow> pp_ref w q' = pp_ref (km x) q'"
    by (subst dec(1), simp add: mem_write_def)+
  moreover have pw: "pmem w = (pmem (km x))(d := (pmem (km x) d)(n := 0))" by (subst dec(1)) (simp add: mem_write_def)
  have "(d, n) \<in> slots D (km x)" using slot x(4) [OF d(1)] by (simp add: slots_def)
  from dropped_slot(2) [OF okx this pw] have "tables D w = tables D (km x) - {?q}" using x(4) [OF d(1)] by simp
  moreover have "?q \<notin> D" by (rule table_apart(1) [OF okt q])
  ultimately have "bno_tbl w b = []" "q \<in> D \<union> tables D w \<Longrightarrow> q \<noteq> ?q \<and> q \<in> D \<union> tables D (km x)"
    "q \<noteq> ?q \<Longrightarrow> pp_ref w q = pp_ref (km x) q" for b q
    using emptyx by auto
  then have "(\<forall>b. bno_tbl w b = []) \<and> (\<forall>q \<in> D \<union> tables D w. 0 < pp_ref w q)" using pos by simp
  then show ?thesis using run by (auto simp: tlb_invalidate_def tlb_out_def tables_def)
qed
  then obtain t' where t': "env_free_pt e n t = Some t'" "\<forall>b. bno_tbl (km t') b = []" "\<forall>q \<in> D \<union> tables D (km t'). 0 < pp_ref (km t') q"
    by blast
  moreover have fr': "freeing D A d s (Suc n) t'" by (rule free_table [OF fr d n t'(1)])
  then have "remap_ok D A (km t')" by (simp add: freeing_def)
  ultimately show ?thesis using fr' by (auto simp: calm_def)
qed

lemma free_pages_total:
  assumes ok: "calm D A (km s)" and d: "d \<in> D" "d = env_pgdir (envs s e)" "A d = env_asid (envs s e)"
  shows "\<exists>t. foldM (env_free_pt e) [0..<NUPDE] s = Some t \<and> calm D A (km t) \<and> freeing D A d s NUPDE t"
proof (rule foldM_upt_total [where I = "\<lambda>n t. calm D A (km t) \<and> freeing D A d s n t"])
  have "remap_ok D A (km s)" using ok by (simp add: calm_def)
  then show "calm D A (km s) \<and> freeing D A d s 0 s" using ok by (auto simp: freeing_def intro: exI [of _ "km s"])
next
  show "\<exists>u. env_free_pt e i t = Some u \<and> calm D A (km u) \<and> freeing D A d s (Suc i) u"
    if "i < NUPDE" "calm D A (km t) \<and> freeing D A d s i t" for i t
    by (rule free_table_total [where s = s, OF conjunct1 [OF that(2)] conjunct2 [OF that(2)] d that(1)])
qed simp

text \<open>A format is text up to a conversion, the conversion, and the rest.\<close>

lemma vprintfmt_text:
  assumes "takeWhile (\<lambda>c. c \<noteq> chr CHR ''%'') fmt = fmt" "dropWhile (\<lambda>c. c \<noteq> chr CHR ''%'') fmt = []"
  shows "vprintfmt out fmt ap s = Some (out fmt s)"
  by (subst vprintfmt.simps) (unfold assms Let_def list.case, rule refl)

lemma vprintfmt_conversion:
  assumes "takeWhile (\<lambda>c. c \<noteq> chr CHR ''%'') fmt = text" "dropWhile (\<lambda>c. c \<noteq> chr CHR ''%'') fmt = x # spec"
    and "parse_spec spec = (l, p, w, c # rest)"
  shows "vprintfmt out fmt ap s =
    (case conversion out c l p w ap (out text s) of None \<Rightarrow> None | Some (ap, s) \<Rightarrow> vprintfmt out rest ap s)"
proof -
  have "spec \<noteq> []" using assms(3) by (auto simp: parse_spec_def eat_def)
  then show ?thesis by (subst vprintfmt.simps) (unfold assms Let_def list.case prod.case, simp)
qed

lemma conversion_x:
  "\<exists>t. conversion out (chr CHR ''x'') l p w (AInt a # ap) s = Some (ap, t)"
proof -
  obtain ds where "num_digits 16 False (unat a) = Some ds" using num_digits_read [of 16 False "unat a"] by auto
  then show ?thesis by (simp add: conversion_def int_arg_def print_num_def Let_def)
qed

lemma print_free: "\<exists>t. printk ''[%08x] free env %08x\<newline>'' [AInt a, AInt b] s = Some t"
proof -
  let ?rest = "asc ''] free env %08x\<newline>''"
  have one: "takeWhile (\<lambda>c. c \<noteq> chr CHR ''%'') (asc ''[%08x] free env %08x\<newline>'') = asc ''[''"
    "dropWhile (\<lambda>c. c \<noteq> chr CHR ''%'') (asc ''[%08x] free env %08x\<newline>'') = chr CHR ''%'' # asc ''08x] free env %08x\<newline>''"
    "parse_spec (asc ''08x] free env %08x\<newline>'') = (False, chr CHR ''0'', 8, chr CHR ''x'' # ?rest)"
    by code_simp+
  have two: "takeWhile (\<lambda>c. c \<noteq> chr CHR ''%'') ?rest = asc ''] free env ''"
    "dropWhile (\<lambda>c. c \<noteq> chr CHR ''%'') ?rest = chr CHR ''%'' # asc ''08x\<newline>''"
    "parse_spec (asc ''08x\<newline>'') = (False, chr CHR ''0'', 8, chr CHR ''x'' # asc ''\<newline>'')"
    by code_simp+
  have three: "takeWhile (\<lambda>c. c \<noteq> chr CHR ''%'') (asc ''\<newline>'') = asc ''\<newline>''"
    "dropWhile (\<lambda>c. c \<noteq> chr CHR ''%'') (asc ''\<newline>'') = []"
    by code_simp+
  obtain t where t: "conversion outputk (chr CHR ''x'') False (chr CHR ''0'') 8 [AInt a, AInt b] (outputk (asc ''['') s) = Some ([AInt b], t)"
    by (rule exE [OF conversion_x])
  obtain u where u: "conversion outputk (chr CHR ''x'') False (chr CHR ''0'') 8 [AInt b] (outputk (asc ''] free env '') t) = Some ([], u)"
    by (rule exE [OF conversion_x])
  show ?thesis
    unfolding printk_def vprintfmt_conversion [OF one] t option.case prod.case vprintfmt_conversion [OF two] u
      vprintfmt_text [OF three] by blast
qed

lemma env_free_result:
  assumes "kvm_ok A s" "e \<in> live s" "env_free e s = Some t"
  shows "kvm_ok A (t\<lparr>curenv := if curenv s = Some e then None else curenv s\<rparr>) \<and> live t = live s - {e} \<and>
    (\<forall>si \<in> infos (km t). si_pgdir (swapInfos (km t) si) \<noteq> env_pgdir (envs s e)) \<and>
    (\<forall>x \<in> live t. \<forall>va. PDX va < PDX UTOP \<longrightarrow>
       uview (km t) (env_pgdir (envs t x)) va = uview (km s) (env_pgdir (envs s x)) va) \<and>
    dirs t = dirs s - {env_pgdir (envs s e)} \<and> npage (km t) = npage (km s) \<and>
    (\<forall>K. accounted (dirs s) K (km s) \<longrightarrow> accounted (dirs t) K (km t))"
proof -
  let ?d = "env_pgdir (envs s e)" and ?D = "dirs s"
  note ok = kvm_remap [OF assms(1)]
  obtain fmt ap s1 s2 s3 where pr: "printk fmt ap s = Some s1" and pages: "foldM (env_free_pt e) [0..<NUPDE] s1 = Some s2"
    and dec: "with_km (page_decref (env_pgdir (envs s2 e))) s2 = Some s3"
    and t: "km t = tlb_invalidate (env_asid (envs s3 e)) (UVPT + push_bit PGSHIFT (word_of_nat (PDX UVPT))) (km s3)"
      "envs t = (envs s3)(e := (envs s3 e)\<lparr>env_status := ENV_FREE\<rparr>)"
    using env_free_parts [OF assms(3)] by blast
  note p = printk_km [OF pr]
  have d: "?d \<in> ?D" "A ?d = env_asid (envs s e)" using dirs_live [OF assms(2)] kvm_asid [OF assms(1,2)] by auto
  have fr: "freeing ?D A ?d s1 NUPDE s2" by (rule free_pages [of ?D A s1 ?d e s2, unfolded p, OF ok d(1) refl d(2) pages])
  then obtain m where s2: "s2 = s1\<lparr>km := m\<rparr>" unfolding freeing_def by blast
  have okm: "remap_ok ?D A m" and gone: "\<And>i. i < NUPDE \<Longrightarrow> \<not> valid_pte (pmem m ?d i)"
    and view: "\<And>x va. x \<in> ?D \<Longrightarrow> x \<noteq> ?d \<Longrightarrow> PDX va < NUPDE \<Longrightarrow> uview m x va = uview (km s) x va"
    and led: "npage m = npage (km s)" "\<And>p. settled ?D (km s) p \<Longrightarrow> settled ?D m p"
  proof -
    have m: "km (s1\<lparr>km := m\<rparr>) = m" by simp
    show "remap_ok ?D A m" "\<And>i. i < NUPDE \<Longrightarrow> \<not> valid_pte (pmem m ?d i)"
      "\<And>x va. x \<in> ?D \<Longrightarrow> x \<noteq> ?d \<Longrightarrow> PDX va < NUPDE \<Longrightarrow> uview m x va = uview (km s) x va"
      "npage m = npage (km s)" "\<And>p. settled ?D (km s) p \<Longrightarrow> settled ?D m p"
      using fr unfolding freeing_def s2 p m by blast+
  qed
  obtain w where w: "page_decref ?d m = Some w" "s3 = s2\<lparr>km := w\<rparr>" using dec by (auto simp: with_km_def s2 p elim!: bind_SomeE)
  have envs: "envs t = (envs s)(e := (envs s e)\<lparr>env_status := ENV_FREE\<rparr>)" "km t = tlb_invalidate (A ?d)
      (UVPT + push_bit PGSHIFT (word_of_nat (PDX UVPT))) w"
    using t d(2) by (simp_all add: w s2 p)
  have none: "(?d, i) \<notin> slots ?D m" for i using gone by (auto simp: slots_def)
  note dd = drop_dir [OF okm d(1) none w(1)]
  have okw: "remap_ok (?D - {?d}) A (km t)" using idle_remap [OF dd] by (simp add: envs)
  have live: "live t = live s - {e}" by (auto simp: live_def envs split: if_splits)
  have inj: "inj_on (\<lambda>e. env_pgdir (envs s e)) (live s)" using assms(1) by (simp add: kvm_ok_def)
  have pg: "env_pgdir (envs t x) = env_pgdir (envs s x)" "env_asid (envs t x) = env_asid (envs s x)" for x by (simp_all add: envs)
  have dirs: "dirs t = ?D - {?d}"
    using inj_on_image_set_diff [OF inj, of "live s" "{e}"] assms(2) by (simp add: dirs_def live pg)
  have "inj_on (\<lambda>e. env_pgdir (envs t e)) (live t)" unfolding live pg by (rule inj_on_subset [OF inj]) auto
  moreover have "curenv s = Some x \<Longrightarrow> x \<noteq> e \<Longrightarrow> x \<in> live t" for x using kvm_cur [OF assms(1)] by (simp add: live)
  ultimately have "kvm_ok A (t\<lparr>curenv := if curenv s = Some e then None else curenv s\<rparr>)"
    using okw kvm_asid [OF assms(1)] unfolding kvm_ok_def cur_frame dirs pg by (auto simp: live pg)
  moreover have "si_pgdir (swapInfos (km t) si) \<noteq> ?d" if "si \<in> infos (km t)" for si
    using swap_wf_info [OF remap_wf [OF okw] that] by (auto simp: info_ok_def Let_def)
  moreover have "uview (km t) (env_pgdir (envs t x)) va = uview (km s) (env_pgdir (envs s x)) va"
    if "x \<in> live t" "PDX va < PDX UTOP" for x va
  proof -
    let ?x = "env_pgdir (envs s x)"
    have x: "?x \<in> ?D" "?x \<in> ?D - {?d}" using that(1) dirs_live [of x t] dirs by (auto simp: pg)
    have va: "PDX va < NUPDE" using that(2) by (simp add: NUPDE_def)
    have "uview w ?x va = uview m ?x va" by (rule idle_view [OF dd x va])
    then show ?thesis using view [OF x(1) _ va] x(2) by (simp add: pg envs(2))
  qed
  moreover have np: "npage (km t) = npage (km s)" using idle_same(1) [OF dd] led(1) by (simp add: envs(2))
  moreover have "accounted (dirs t) K (km t)" if K: "accounted ?D K (km s)" for K
  proof -
    have "settled (dirs t) (km t) p" if "settled ?D (km s) p" for p
      using drop_dir_settled [OF okm d(1) none w(1) led(2) [OF that]] by (simp add: envs(2) dirs)
    then show ?thesis using K unfolding accounted_def np by metis
  qed
  ultimately show ?thesis using live dirs np by blast
qed

text \<open>The fields of the environment manager: the free list, the address space identifiers and the queue.\<close>

lemma env_free_fields:
  assumes "kvm_ok A s" "e \<in> live s" "env_free e s = Some t"
  shows "env_free_list t = e # env_free_list s \<and>
    (\<forall>i. bm_bit (asid_bitmap t) i \<longleftrightarrow> i \<noteq> unat (env_asid (envs s e)) \<and> bm_bit (asid_bitmap s) i) \<and>
    (tailq_rep (env_sched_list s) (\<lambda>_. q) \<and> e \<in> set q \<longrightarrow> tailq_rep (env_sched_list t) (\<lambda>_. remove1 e q))"
proof -
  let ?d = "env_pgdir (envs s e)" and ?D = "dirs s"
  note ok = kvm_remap [OF assms(1)]
  obtain fmt ap s1 s2 s3 where pr: "printk fmt ap s = Some s1" and pages: "foldM (env_free_pt e) [0..<NUPDE] s1 = Some s2"
    and dec: "with_km (page_decref (env_pgdir (envs s2 e))) s2 = Some s3"
    and t: "env_free_list t = e # env_free_list s3" "asid_bitmap t = asid_bitmap (asid_free (unat (env_asid (envs s3 e))) s3)"
      "TAILQ_REMOVE () e (env_sched_list s3) = Some (env_sched_list t)"
    using env_free_parts [OF assms(3)] by blast
  note p = printk_km [OF pr] printk_queue [OF pr]
  have d: "?d \<in> ?D" "A ?d = env_asid (envs s e)" using dirs_live [OF assms(2)] kvm_asid [OF assms(1,2)] by auto
  have fr: "freeing ?D A ?d s1 NUPDE s2" by (rule free_pages [of ?D A s1 ?d e s2, unfolded p, OF ok d(1) refl d(2) pages])
  then obtain m where "s2 = s1\<lparr>km := m\<rparr>" unfolding freeing_def by blast
  then obtain w where "s3 = s1\<lparr>km := w\<rparr>" using dec by (auto simp: with_km_def elim!: bind_SomeE)
  then have "env_free_list t = e # env_free_list s \<and>
    (\<forall>i. bm_bit (asid_bitmap t) i \<longleftrightarrow> i \<noteq> unat (env_asid (envs s e)) \<and> bm_bit (asid_bitmap s) i) \<and>
    TAILQ_REMOVE () e (env_sched_list s) = Some (env_sched_list t)"
    using t by (simp add: p asid_free_def bm_bit_and_not del: push_bit_of_1)
  then show ?thesis using tailq_rep_remove [of "env_sched_list s" "\<lambda>_. q" e "()"] by (auto simp: fun_upd_def)
qed

lemma env_free_total:
  assumes ok: "kvm_ok A s" "calm (dirs s) A (km s)" and e: "e \<in> live s" "e \<notin> set (env_free_list s)"
    and q: "tailq_rep (env_sched_list s) (\<lambda>_. q)" "e \<in> set q"
  shows "\<exists>t. env_free e s = Some t"
proof -
  let ?d = "env_pgdir (envs s e)" and ?D = "dirs s"
  have d: "?d \<in> ?D" "A ?d = env_asid (envs s e)" using dirs_live [OF e(1)] kvm_asid [OF ok(1) e(1)] by auto
  define args where "args = [AInt (case curenv s of Some c \<Rightarrow> env_id (envs s c) | None \<Rightarrow> 0), AInt (env_id (envs s e))]"
  obtain s1 where s1: "printk ''[%08x] free env %08x\<newline>'' args s = Some s1" unfolding args_def using print_free by blast
  note p = printk_km [OF s1] printk_queue [OF s1]
  obtain s2 where s2: "foldM (env_free_pt e) [0..<NUPDE] s1 = Some s2" "calm ?D A (km s2)" "freeing ?D A ?d s1 NUPDE s2"
    using free_pages_total [of ?D A s1 ?d e, unfolded p, OF ok(2) d(1) refl d(2)] by blast
  obtain m where m: "s2 = s1\<lparr>km := m\<rparr>" using s2(3) by (auto simp: freeing_def)
  have cm: "calm ?D A m" using s2(2) by (simp add: m)
  then have "0 < pp_ref m ?d" "?d \<notin> set (page_free_list m)"
    using d(1) dir_apart(3) [of ?D A m] by (auto simp: calm_def)
  then obtain w where w: "page_decref ?d m = Some w"
    by (cases "pp_ref m ?d = 1") (auto simp: page_decref_def page_free_def lst_insert_head_def Let_def)
  obtain r where r: "TAILQ_REMOVE () e (env_sched_list s) = Some r" using tailq_rep_remove [OF q(1), of e "()"] q(2) by auto
  have dec: "with_km (page_decref (env_pgdir (envs s2 e))) s2 = Some (s2\<lparr>km := w\<rparr>)" using w by (simp add: with_km_def m p)
  have "env_free_list s2 = env_free_list s" "env_sched_list s2 = env_sched_list s" by (simp_all add: m p)
  then show ?thesis
    using s1 s2(1) dec r e(2)
    by (simp add: env_free_def args_def NUPDE_def [symmetric] asid_free_def upd_env_def lst_insert_head_def Let_def
        del: UTOP_def UVPT_def PGSHIFT_def)
qed

text \<open>
  C6. \<^verbatim>\<open>env_free\<close> takes back all an environment held and nothing else. In a consistent kernel, when it
  returns, the kernel is consistent without the environment (\<^verbatim>\<open>env_destroy\<close> then clears \<^verbatim>\<open>curenv\<close>): no record of the
  pager names its directory, in memory or on the swap disk, and all other environments see what they saw. The
  environment is first on the free list, its address space identifier is free and no other changed, and it has left the
  run queue. No page is lost: if every page that is not the kernel's (\<open>K\<close>) was free, a directory or a table
  counted once, or mapped and counted once per mapping, then so it is without the environment's directory, so that its
  directory, its tables and the pages it alone mapped are on the free list.
  It does return for a queued environment when nothing is swapped out and the counts of all directories and tables are positive.
\<close>

theorem env_free_cleans:
  assumes "kvm_ok A s" "e \<in> live s"
  shows "(\<forall>t. env_free e s = Some t \<longrightarrow>
      kvm_ok A (t\<lparr>curenv := if curenv s = Some e then None else curenv s\<rparr>) \<and> live t = live s - {e} \<and>
      (\<forall>si \<in> infos (km t). si_pgdir (swapInfos (km t) si) \<noteq> env_pgdir (envs s e)) \<and>
      (\<forall>x \<in> live t. \<forall>va. PDX va < PDX UTOP \<longrightarrow>
         uview (km t) (env_pgdir (envs t x)) va = uview (km s) (env_pgdir (envs s x)) va) \<and>
      dirs t = dirs s - {env_pgdir (envs s e)} \<and> npage (km t) = npage (km s) \<and>
      (\<forall>K. accounted (dirs s) K (km s) \<longrightarrow> accounted (dirs t) K (km t)) \<and>
      env_free_list t = e # env_free_list s \<and>
      (\<forall>i. bm_bit (asid_bitmap t) i \<longleftrightarrow> i \<noteq> unat (env_asid (envs s e)) \<and> bm_bit (asid_bitmap s) i) \<and>
      (tailq_rep (env_sched_list s) (\<lambda>_. q) \<and> e \<in> set q \<longrightarrow> tailq_rep (env_sched_list t) (\<lambda>_. remove1 e q))) \<and>
    ((\<forall>b. bno_tbl (km s) b = []) \<and> (\<forall>q \<in> dirs s \<union> tables (dirs s) (km s). 0 < pp_ref (km s) q) \<and>
      e \<notin> set (env_free_list s) \<and> tailq_rep (env_sched_list s) (\<lambda>_. q) \<and> e \<in> set q \<longrightarrow>
      (\<exists>t. env_free e s = Some t))"
proof (rule conjI)
  show "(\<forall>b. bno_tbl (km s) b = []) \<and> (\<forall>q \<in> dirs s \<union> tables (dirs s) (km s). 0 < pp_ref (km s) q) \<and>
      e \<notin> set (env_free_list s) \<and> tailq_rep (env_sched_list s) (\<lambda>_. q) \<and> e \<in> set q \<longrightarrow>
      (\<exists>t. env_free e s = Some t)"
    using env_free_total [OF assms(1) _ assms(2)] kvm_remap [OF assms(1)] unfolding calm_def by blast
qed (intro allI impI, frule env_free_result [OF assms], drule env_free_fields [OF assms, where q = q],
    elim conjE, intro conjI; assumption)

lemma ex_ledger: "accounted {0} {} ex_pair"
proof -
  have m: "mappers {0} ex_pair 2 = {(1, 0), (1, 1)}"
    by (auto simp: mappers_def ex_pair_slots ex_pair_load ex_vals less_2_cases_iff split: if_splits)
  have "settled {0} ex_pair p" if "p < 8" for p
  proof -
    from that consider "p = 2" | "p < 2" | "p \<in> {3, 4, 5, 6, 7}" by fastforce
    then show ?thesis
    proof cases
      case 2
      then show ?thesis by (auto simp: settled_def ex_pair_slots less_2_cases_iff)
    qed (auto simp: settled_def m)
  qed
  then show ?thesis by (simp add: accounted_def)
qed

theorem env_free_cleans_witness:
  "\<exists>t. env_free 0 ex_sys = Some t \<and> kvm_ok (\<lambda>_. 0) (t\<lparr>curenv := None\<rparr>) \<and> live t = {} \<and>
    env_free_list t = [0, 2] \<and> \<not> bm_bit (asid_bitmap t) 0 \<and> {0, 1, 2} \<subseteq> set (page_free_list (km t))"
proof -
  have live: "live ex_sys = {0}" by (auto simp: live_def ex_sys_def split: if_splits)
  have q: "tailq_rep (env_sched_list ex_sys) (\<lambda>_. [0, 1])" using ex_queue_rep by (simp add: ex_sys_def ex_kernel_def)
  have rest: "env_free_list ex_sys = [2]" "curenv ex_sys = Some 0" "env_asid (envs ex_sys 0) = 0"
    by (simp_all add: ex_sys_def ex_kernel_def ex_env_def)
  note run = env_free_cleans [OF ex_sys_ok, of 0 "[0, 1]"]
  have "\<exists>t. env_free 0 ex_sys = Some t"
    using run q by (simp add: live ex_dirs ex_pair_slots rest)
  then obtain t where t: "env_free 0 ex_sys = Some t" by blast
  then have c: "kvm_ok (\<lambda>_. 0) (t\<lparr>curenv := None\<rparr>)" "live t = {}" "env_free_list t = [0, 2]" "\<not> bm_bit (asid_bitmap t) 0"
    "dirs t = {}" "npage (km t) = 8"
    using run by (simp_all add: live rest ex_dirs)
  then have "accounted {} {} (km t)" using run t ex_ledger live by (metis ex_dirs ex_sys_sel(1) singletonI)
  then have "p \<in> set (page_free_list (km t))" if "p < 8" for p
    using that unfolding accounted_def c(6) settled_def by (auto simp: tables_def mappers_def ulocs_def)
  then show ?thesis using t c by auto
qed

end
