(* ===== verification/Exofork.thy ===== *)
theory Exofork
  imports Lifecycle
begin

text \<open>
  A new environment: \<^verbatim>\<open>env_alloc\<close> as \<^verbatim>\<open>sys_exofork\<close> uses it, on the invariant of \<open>MemCalls\<close>.
\<close>

lemma setup_vm:
  assumes ok: "remap_ok D A (km s)" and run: "env_setup_vm e s = Some (r, t)"
  shows "\<exists>p m g. r = 0 \<and> page_alloc (km s) = Some (0, p, m) \<and> t = s\<lparr>km := m\<lparr>pp_ref := (pp_ref m)(p := pp_ref m p + 1), pmem := (pmem m)(p := g)\<rparr>,
      envs := (envs s)(e := (envs s e)\<lparr>env_pgdir := p\<rparr>)\<rparr> \<and> (\<forall>i < NUPDE. g i = 0)"
proof -
  obtain r0 p m where al: "page_alloc (km s) = Some (r0, p, m)"
    using run by (auto simp: env_setup_vm_def kpage_alloc_def elim!: bind_SomeE)
  note pa = page_alloc_steps [OF remap_wf [OF ok] al]
  define g where "g = (\<lambda>i. if PDX UTOP \<le> i \<and> i < PDX UVPT then pmem m (base_pgdir s) i else pmem m p i)(PDX UVPT := page2pa p OR PTE_V)"
  have far: "NUPDE \<le> PDX UVPT" unfolding NUPDE_val by code_simp
  have "t = s\<lparr>km := m\<lparr>pp_ref := (pp_ref m)(p := pp_ref m p + 1), pmem := (pmem m)(p := g)\<rparr>,
      envs := (envs s)(e := (envs s e)\<lparr>env_pgdir := p\<rparr>)\<rparr>"
    using run al pa(1)
    by (auto simp: env_setup_vm_def kpage_alloc_def incref_def upd_env_def copy_words_def mem_write_def g_def Let_def
        simp del: UTOP_def UVPT_def PTE_V_def cong: if_cong elim!: bind_SomeE)
  moreover have "\<forall>i < NUPDE. g i = 0" using far pa(5) by (auto simp: g_def NUPDE_def simp del: UTOP_def UVPT_def)
  moreover have "r = 0"
    using run al pa(1)
    by (auto simp: env_setup_vm_def kpage_alloc_def Let_def simp del: UTOP_def UVPT_def PTE_V_def elim!: bind_SomeE)
  ultimately show ?thesis using al pa(1) by blast
qed

text \<open>The identifier leads back to the environment.\<close>

lemma ENVX_mkenvid:
  assumes "e < NENV"
  shows "ENVX (fst (mkenvid e s)) = e"
proof -
  have e: "e < 2 ^ 10" using assms by simp
  have m: "(word_of_nat NENV - 1 :: u32) = mask 10" by (simp add: mask_eq_exp_minus_1)
  have small: "n < 10" if "bit e n" for n
  proof -
    have "take_bit 10 e = e" using e by (simp add: take_bit_nat_eq_self)
    then show ?thesis using that by (metis bit_take_bit_iff)
  qed
  have "fst (mkenvid e s) AND mask 10 = word_of_nat e"
    by (rule bit_word_eqI) (auto simp: mkenvid_def Let_def bit_simps dest: small)
  then show ?thesis using e by (simp only: ENVX_def m) (simp add: unat_of_nat)
qed

lemma asid_alloc_result:
  "(\<forall>i < NASID. bm_bit (asid_bitmap s) i) \<and> asid_alloc s = (- E_NO_FREE_ENV, None, s) \<or>
   (\<exists>i b. i < NASID \<and> \<not> bm_bit (asid_bitmap s) i \<and> asid_alloc s = (0, Some i, s\<lparr>asid_bitmap := b\<rparr>) \<and>
      (\<forall>j. bm_bit b j \<longleftrightarrow> j = i \<or> bm_bit (asid_bitmap s) j))"
proof (cases "scan (\<lambda>i. \<not> bm_bit (asid_bitmap s) i) 0 NASID")
  case None
  then have "\<forall>i < NASID. bm_bit (asid_bitmap s) i" using scan_None [of _ 0 NASID] by simp
  then show ?thesis using None by (simp add: asid_alloc_scan del: NASID_def)
next
  case (Some i)
  then have "i < NASID" "\<not> bm_bit (asid_bitmap s) i" using scan_Some [of _ 0 NASID i] by auto
  moreover have "bm_bit ((asid_bitmap s)(i div 32 := asid_bitmap s (i div 32) OR push_bit (i mod 32) 1)) j \<longleftrightarrow>
      j = i \<or> bm_bit (asid_bitmap s) j" for j
    by (simp add: bm_bit_or del: push_bit_of_1)
  ultimately show ?thesis using Some by (auto simp: asid_alloc_scan)
qed

text \<open>What a successful \<^verbatim>\<open>env_alloc\<close> fills in: a free address space identifier, the parent and an identifier.\<close>

definition named :: "u32 \<Rightarrow> nat \<Rightarrow> kstate \<Rightarrow> kstate \<Rightarrow> bool" where
  "named parent e s t \<longleftrightarrow>
     ENVX (env_id (envs t e)) = e \<and> env_parent_id (envs t e) = parent \<and>
     (\<exists>i < NASID. \<not> bm_bit (asid_bitmap s) i \<and> env_asid (envs t e) = word_of_nat i \<and>
        (\<forall>j. bm_bit (asid_bitmap t) j \<longleftrightarrow> j = i \<or> bm_bit (asid_bitmap s) j))"

text \<open>
  \<^verbatim>\<open>env_alloc\<close> fills in the fields of the environment, or finds that all address space identifiers are taken: then
  the page of the new directory is not given back.
\<close>

lemma env_alloc_result:
  assumes ok: "remap_ok D A (km s)" and e: "\<forall>e \<in> set (env_free_list s). e < NENV" and run: "env_alloc parent s = Some (r, new, t)"
  shows "env_free_list s = [] \<and> r = - E_NO_FREE_ENV \<and> t = s \<or>
    (\<exists>e rest p m g. env_free_list s = e # rest \<and> page_alloc (km s) = Some (0, p, m) \<and> (\<forall>i < NUPDE. g i = 0) \<and>
       km t = m\<lparr>pp_ref := (pp_ref m)(p := pp_ref m p + 1), pmem := (pmem m)(p := g)\<rparr> \<and> curenv t = curenv s \<and>
       kstack_tf t = kstack_tf s \<and>
       env_pgdir (envs t e) = p \<and> env_status (envs t e) = env_status (envs s e) \<and> (\<forall>x. x \<noteq> e \<longrightarrow> envs t x = envs s x) \<and>
       (r = - E_NO_FREE_ENV \<and> (\<forall>i < NASID. bm_bit (asid_bitmap s) i) \<and> env_free_list t = env_free_list s \<or>
        r = 0 \<and> new = Some e \<and> env_free_list t = rest \<and> named parent e s t))"
proof (cases "env_free_list s")
  case Nil
  then show ?thesis using run by (simp add: env_alloc_def)
next
  case (Cons e rest)
  then obtain r0 s1 where vm: "env_setup_vm e s = Some (r0, s1)" using run by (auto simp: env_alloc_def elim!: bind_SomeE)
  obtain p m g where g: "r0 = 0" "page_alloc (km s) = Some (0, p, m)" "\<forall>i < NUPDE. g i = 0"
    and s1: "s1 = s\<lparr>km := m\<lparr>pp_ref := (pp_ref m)(p := pp_ref m p + 1), pmem := (pmem m)(p := g)\<rparr>,
      envs := (envs s)(e := (envs s e)\<lparr>env_pgdir := p\<rparr>)\<rparr>"
    using setup_vm [OF ok vm] by blast
  have id: "ENVX (fst (mkenvid e s1)) = e" using assms(2) Cons by (intro ENVX_mkenvid) simp
  define s2 where "s2 = upd_env e (\<lambda>x. x\<lparr>env_id := fst (mkenvid e s1)\<rparr>) (snd (mkenvid e s1))"
  have s2: "s2 = s1\<lparr>mkenvid_i := mkenvid_i s1 + 1, envs := (envs s1)(e := (envs s1 e)\<lparr>env_id := fst (mkenvid e s1)\<rparr>)\<rparr>"
    by (simp add: s2_def mkenvid_def upd_env_def Let_def)
  have bm: "asid_bitmap s2 = asid_bitmap s" by (simp add: s2 s1)
  have run2: "(case asid_alloc s2 of
               (r, None, s) \<Rightarrow> Some (r, None, s)
             | (r, Some asid, s) \<Rightarrow> do {
                 let s = upd_env e (\<lambda>x. x\<lparr>env_asid := word_of_nat asid\<rparr>) s;
                 let s = upd_env e (\<lambda>x. x\<lparr>env_parent_id := parent\<rparr>) s;
                 let s = upd_env e (\<lambda>x. x\<lparr>env_user_tlb_mod_entry := 0\<rparr>) s;
                 let s = upd_env e (\<lambda>x. x\<lparr>env_runs := 0\<rparr>) s;
                 let s = upd_env e (\<lambda>x. x\<lparr>env_tf := (env_tf x)\<lparr>cp0_status := init_status,
                           tf_regs := (tf_regs (env_tf x))(29 := USTACKTOP - 4 - 4)\<rparr>\<rparr>) s;
                 Some (0, Some e, s\<lparr>env_free_list := rest\<rparr>) }) = Some (r, new, t)"
    using run Cons g(1) by (simp add: env_alloc_def vm s2_def split_beta Let_def)
  from asid_alloc_result [of s2, unfolded bm] show ?thesis
  proof (elim disjE conjE exE)
    assume full: "\<forall>i < NASID. bm_bit (asid_bitmap s) i" and "asid_alloc s2 = (- E_NO_FREE_ENV, None, s2)"
    then have "r = - E_NO_FREE_ENV" "t = s2" using run2 by simp_all
    then show ?thesis using Cons g full by (auto simp: s2 s1)
  next
    fix i b assume i: "i < NASID" "\<not> bm_bit (asid_bitmap s) i" and al: "asid_alloc s2 = (0, Some i, s2\<lparr>asid_bitmap := b\<rparr>)"
      and b: "\<forall>j. bm_bit b j \<longleftrightarrow> j = i \<or> bm_bit (asid_bitmap s) j"
    have f: "r = 0" "new = Some e" "env_free_list t = rest" "asid_bitmap t = b" "km t = km s1" "curenv t = curenv s" "kstack_tf t = kstack_tf s"
      "env_asid (envs t e) = word_of_nat i" "env_parent_id (envs t e) = parent" "env_id (envs t e) = fst (mkenvid e s1)"
      "env_pgdir (envs t e) = p" "env_status (envs t e) = env_status (envs s e)" "\<And>x. x \<noteq> e \<Longrightarrow> envs t x = envs s x"
      using run2 unfolding al by (auto simp: s2 s1 upd_env_def Let_def)
    then have "named parent e s t" using i b id by (auto simp: named_def)
    then show ?thesis using Cons g f by (auto simp: s1)
  qed
qed

lemma env_alloc_total:
  assumes ok: "remap_ok D A (km s)" and free: "page_free_list (km s) \<noteq> []"
  shows "\<exists>r new t. env_alloc parent s = Some (r, new, t) \<and> (r = 0 \<longrightarrow> new \<noteq> None)"
proof (cases "env_free_list s")
  case Nil
  then show ?thesis by (simp add: env_alloc_def)
next
  case (Cons e rest)
  obtain p fr where al: "page_alloc (km s) = Some (0, p, page_take (km s) p fr)"
    using alloc_free [OF remap_wf [OF ok] free] by blast
  have "p < npage (page_take (km s) p fr)" using page_alloc_steps(4) [OF remap_wf [OF ok] al] by (simp add: fresh_page_def)
  moreover have "npage (page_take (km s) p fr) \<le> 2 ^ 20" by (rule swap_wf_npage [OF page_alloc_steps(2) [OF remap_wf [OF ok] al]])
  ultimately have "page2kva (npage (page_take (km s) p fr)) p \<noteq> None" by (simp add: page2kva_def KADDR_def PPN_page2pa)
  then have "\<exists>s1. env_setup_vm e s = Some (0, s1)"
    using al by (auto simp: env_setup_vm_def kpage_alloc_def incref_def upd_env_def Let_def simp del: UTOP_def UVPT_def PTE_V_def)
  then show ?thesis
    using Cons by (auto simp: env_alloc_def mkenvid_def asid_alloc_def upd_env_def Let_def split: option.splits)
qed

section \<open>The system call\<close>

lemma exofork_parts:
  assumes "sys_exofork s = Some (r, t)"
  shows "\<exists>c r0 new u. curenv s = Some c \<and> env_alloc (env_id (envs s c)) s = Some (r0, new, u) \<and>
    (r0 \<noteq> 0 \<and> r = Some r0 \<and> t = u \<or>
     r0 = 0 \<and> (\<exists>e. new = Some e \<and> r = Some (uint (env_id (envs t e))) \<and>
       t = u\<lparr>envs := (envs u)(e := (envs u e)\<lparr>env_tf := set_reg 2 0 (kstack_tf u), env_status := ENV_NOT_RUNNABLE,
         env_pri := env_pri (envs u c)\<rparr>)\<rparr>))"
proof -
  obtain c r0 new u where al: "curenv s = Some c" "env_alloc (env_id (envs s c)) s = Some (r0, new, u)"
    and rest: "(if r0 \<noteq> 0 then ret r0 u
      else do { e \<leftarrow> new;
       let s' = upd_env e (\<lambda>x. x\<lparr>env_tf := kstack_tf u\<rparr>) u;
       let s' = upd_env e (\<lambda>x. x\<lparr>env_tf := set_reg 2 0 (env_tf x)\<rparr>) s';
       let s' = upd_env e (\<lambda>x. x\<lparr>env_status := ENV_NOT_RUNNABLE\<rparr>) s';
       let s' = upd_env e (\<lambda>x. x\<lparr>env_pri := env_pri (envs s' c)\<rparr>) s';
       ret (uint (env_id (envs s' e))) s' }) = Some (r, t)"
    using assms unfolding sys_exofork_def by (auto elim!: bind_SomeE)
  show ?thesis
  proof (cases "r0 = 0")
    case True
    then obtain e where "new = Some e" using rest by (auto elim!: bind_SomeE)
    then have "new = Some e \<and> r = Some (uint (env_id (envs t e))) \<and>
       t = u\<lparr>envs := (envs u)(e := (envs u e)\<lparr>env_tf := set_reg 2 0 (kstack_tf u), env_status := ENV_NOT_RUNNABLE,
         env_pri := env_pri (envs u c)\<rparr>)\<rparr>"
      using rest True by (auto simp: ret_def upd_env_def Let_def)
    then show ?thesis using al True by blast
  next
    case False
    then show ?thesis using rest al by (auto simp: ret_def)
  qed
qed

text \<open>A page that is counted but is neither free, nor a directory or a table, nor mapped.\<close>

definition lost_page :: "nat set \<Rightarrow> kmem \<Rightarrow> nat \<Rightarrow> bool" where
  "lost_page D s p \<longleftrightarrow> p < npage s \<and> pp_ref s p = 1 \<and> \<not> settled D s p"

text \<open>The page of a new directory, in the ledger: it is settled as a directory, and lost otherwise.\<close>

lemma fresh_ledger:
  assumes ok: "remap_ok D A m" and p: "fresh_page D m p" and g: "\<And>i. i < NUPDE \<Longrightarrow> \<not> valid_pte (g i)"
  defines "t \<equiv> m\<lparr>pp_ref := (pp_ref m)(p := pp_ref m p + 1), pmem := (pmem m)(p := g)\<rparr>"
  shows "lost_page D t p" "settled (insert p D) t p" "settled D m q \<Longrightarrow> q \<noteq> p \<Longrightarrow> settled (insert p D) t q"
proof -
  have pf: "p < npage m" "pp_ref m p = 0" "p \<notin> D" "p \<notin> tables D m" "p \<notin> set (page_free_list m)" "mappers D m p = {}"
    using p by (auto simp: fresh_page_def mappers_def)
  have t: "t = m\<lparr>pp_ref := (pp_ref m)(p := 1), pmem := (pmem m)(p := g)\<rparr>" using pf(2) by (simp add: t_def)
  have ch: "idle_change D E A (A(p := a)) m t" if "E = D \<or> E = insert p D" for E a
    unfolding t by (rule add_dir [OF ok p g that])
  have map: "mappers E t q = mappers D m q" if "E = D \<or> E = insert p D" for E q
    by (rule mappers_kept [OF ch [OF that, of 0]])
  have tab: "tables E t = tables D m" if "E = D \<or> E = insert p D" for E
  proof -
    have "slots E t = slots D m" using pf(3) g that by (auto simp: slots_def t split: if_splits)
    then show ?thesis unfolding tables_slots by (intro image_cong) (use pf(3) in \<open>auto simp: slots_def t\<close>)
  qed
  show "lost_page D t p" using pf tab [of D] map [of D p] by (simp add: lost_page_def settled_def t)
  show "settled (insert p D) t p" by (simp add: settled_def t)
  show "settled (insert p D) t q" if "settled D m q" "q \<noteq> p"
    using that tab [of "insert p D"] map [of "insert p D" q] by (auto simp: settled_def t)
qed

text \<open>What the rest of the kernel sees of a call, when it took a page for a directory.\<close>

lemma exofork_taken:
  assumes ok: "kvm_ok A s" and al: "page_alloc (km s) = Some (0, p, m)" and g: "\<forall>i < NUPDE. g i = 0"
    and km: "km u = m\<lparr>pp_ref := (pp_ref m)(p := pp_ref m p + 1), pmem := (pmem m)(p := g)\<rparr>"
  shows "p \<notin> dirs s" "E = dirs s \<or> E = insert p (dirs s) \<Longrightarrow> remap_ok E (A(p := a)) (km u)"
    "d \<in> dirs s \<Longrightarrow> PDX va < NUPDE \<Longrightarrow> uview (km u) d va = uview (km s) d va"
    "PDX va < NUPDE \<Longrightarrow> uview (km u) p va = None" "lost_page (dirs s) (km u) p"
    "accounted (dirs s) K (km s) \<Longrightarrow> accounted (insert p (dirs s)) K (km u)"
proof -
  let ?D = "dirs s"
  note okm = kvm_remap [OF ok]
  note pa = page_alloc_steps [OF remap_wf [OF okm] al] and okp = page_alloc_remap(1) [OF okm al]
  have inv: "\<not> valid_pte (g i)" if "i < NUPDE" for i using g that by simp
  show "p \<notin> ?D" using pa(4) by (simp add: fresh_page_def)
  have m: "pp_ref m p + 1 = 1" using pa(4) by (simp add: fresh_page_def)
  have ch: "idle_change ?D E A (A(p := a)) m (km u)" if "E = ?D \<or> E = insert p ?D" for E a
    unfolding km by (rule add_dir [OF okp pa(4) inv that])
  show "remap_ok E (A(p := a)) (km u)" if "E = ?D \<or> E = insert p ?D" by (rule idle_remap [OF ch [OF that]])
  show "uview (km u) d va = uview (km s) d va" if "d \<in> ?D" "PDX va < NUPDE"
    using idle_view [OF ch [of ?D] that(1,1,2)] keptD(8) [OF pa(3) that] by simp
  show "uview (km u) p va = None" if "PDX va < NUPDE" using g that by (simp add: uview_def km)
  have fl: "lost_page ?D (km u) p" "settled (insert p ?D) (km u) p"
    "\<And>q. settled ?D m q \<Longrightarrow> q \<noteq> p \<Longrightarrow> settled (insert p ?D) (km u) q"
    unfolding km by (rule fresh_ledger(1-3) [OF okp pa(4)]; use inv in blast)+
  show "lost_page ?D (km u) p" by (rule fl(1))
  have np: "npage (km u) = npage (km s)" using keptD(2) [OF pa(3)] by (simp add: km)
  have "settled (insert p ?D) (km u) q" if "settled ?D (km s) q" for q
    using fl(2) fl(3) [OF page_alloc_settled [OF okm al that]] by (cases "q = p") simp_all
  then show "accounted (insert p ?D) K (km u)" if "accounted ?D K (km s)" using that unfolding accounted_def np by blast
qed

text \<open>Without a free environment, or without a free address space identifier.\<close>

lemma exofork_refused:
  assumes ok: "kvm_ok A s" and free: "\<forall>e \<in> set (env_free_list s). e < NENV \<and> env_status (envs s e) = ENV_FREE"
    and none: "env_free_list s = [] \<or> (\<forall>i < NASID. bm_bit (asid_bitmap s) i)"
    and run: "sys_exofork s = Some (r, t)"
  shows "kvm_ok A t" "\<forall>x \<in> live s. envs t x = envs s x"
    "\<forall>x \<in> live s. \<forall>va. PDX va < PDX UTOP \<longrightarrow> uview (km t) (env_pgdir (envs t x)) va = uview (km s) (env_pgdir (envs s x)) va"
    "r = Some (- E_NO_FREE_ENV)" "live t = live s" "env_free_list t = env_free_list s"
    "if env_free_list s = [] then t = s else \<exists>p. lost_page (dirs t) (km t) p"
proof -
  obtain c r0 new u where al: "env_alloc (env_id (envs s c)) s = Some (r0, new, u)" and rest: "r0 \<noteq> 0 \<Longrightarrow> r = Some r0 \<and> t = u"
    using exofork_parts [OF run] by blast
  have lt: "\<forall>e \<in> set (env_free_list s). e < NENV" using free by blast
  have "kvm_ok A t \<and> (\<forall>x \<in> live s. envs t x = envs s x) \<and> r = Some (- E_NO_FREE_ENV) \<and> live t = live s \<and>
    env_free_list t = env_free_list s \<and> (if env_free_list s = [] then t = s else \<exists>p. lost_page (dirs t) (km t) p) \<and>
    (\<forall>x \<in> live s. \<forall>va. PDX va < NUPDE \<longrightarrow> uview (km t) (env_pgdir (envs t x)) va = uview (km s) (env_pgdir (envs s x)) va)"
  proof (cases "env_free_list s")
    case Nil
    then have "r0 = - E_NO_FREE_ENV" "u = s" using env_alloc_result [OF kvm_remap [OF ok] lt al] by auto
    then show ?thesis using rest ok Nil by simp
  next
    case (Cons e fl)
    then have full: "\<forall>i < NASID. bm_bit (asid_bitmap s) i" using none by simp
    then obtain p m g where g: "page_alloc (km s) = Some (0, p, m)" "\<forall>i < NUPDE. g i = 0"
      and km: "km u = m\<lparr>pp_ref := (pp_ref m)(p := pp_ref m p + 1), pmem := (pmem m)(p := g)\<rparr>"
      and u: "curenv u = curenv s" "env_status (envs u e) = env_status (envs s e)" "\<And>x. x \<noteq> e \<Longrightarrow> envs u x = envs s x"
        "r0 = - E_NO_FREE_ENV" "env_free_list u = env_free_list s"
      using env_alloc_result [OF kvm_remap [OF ok] lt al] Cons by (auto simp: named_def)
    note tk = exofork_taken [OF ok g km]
    have t: "t = u" "r = Some (- E_NO_FREE_ENV)" using rest u(4) by simp_all
    have e: "e \<notin> live s" using free Cons by (auto simp: live_def)
    have live: "live u = live s" using u(2,3) by (auto simp: live_def) metis+
    have same: "envs u x = envs s x" if "x \<in> live s" for x using u(3) [of x] e that by blast
    have dirs: "dirs u = dirs s" unfolding dirs_def live by (rule image_cong [OF refl]) (simp add: same)
    have "remap_ok (dirs s) A (km u)" using tk(2) [of "dirs s" "A p"] by simp
    moreover have "inj_on (\<lambda>e. env_pgdir (envs u e)) (live u) = inj_on (\<lambda>e. env_pgdir (envs s e)) (live s)"
      unfolding live by (rule inj_on_cong) (simp add: same)
    ultimately have "kvm_ok A u" using ok same by (auto simp: kvm_ok_def dirs live u(1))
    then show ?thesis using t live same tk(3,5) dirs_live u(5) dirs Cons by auto
  qed
  then show "kvm_ok A t" "\<forall>x \<in> live s. envs t x = envs s x"
    "\<forall>x \<in> live s. \<forall>va. PDX va < PDX UTOP \<longrightarrow> uview (km t) (env_pgdir (envs t x)) va = uview (km s) (env_pgdir (envs s x)) va"
    "r = Some (- E_NO_FREE_ENV)" "live t = live s" "env_free_list t = env_free_list s"
    "if env_free_list s = [] then t = s else \<exists>p. lost_page (dirs t) (km t) p"
    unfolding NUPDE_def by blast+
qed

text \<open>With both, the first free environment is used.\<close>

lemma exofork_made:
  assumes ok: "kvm_ok A s" and free: "\<forall>e \<in> set (env_free_list s). e < NENV \<and> env_status (envs s e) = ENV_FREE"
    and some: "env_free_list s = e # fl" "\<exists>i < NASID. \<not> bm_bit (asid_bitmap s) i"
    and run: "sys_exofork s = Some (r, t)" and c: "curenv s = Some c"
  shows "\<exists>B. kvm_ok B t" "\<forall>x \<in> live s. envs t x = envs s x"
    "\<forall>x \<in> live s. \<forall>va. PDX va < PDX UTOP \<longrightarrow> uview (km t) (env_pgdir (envs t x)) va = uview (km s) (env_pgdir (envs s x)) va"
    "env_free_list t = fl" "live t = insert e (live s)" "r = Some (uint (env_id (envs t e)))" "named (env_id (envs s c)) e s t"
    "env_status (envs t e) = ENV_NOT_RUNNABLE" "env_tf (envs t e) = set_reg 2 0 (kstack_tf s)"
    "env_pri (envs t e) = env_pri (envs s c)"
    "\<forall>va. PDX va < PDX UTOP \<longrightarrow> uview (km t) (env_pgdir (envs t e)) va = None"
    "\<forall>K. accounted (dirs s) K (km s) \<longrightarrow> accounted (dirs t) K (km t)"
proof -
  obtain r0 new u where al: "env_alloc (env_id (envs s c)) s = Some (r0, new, u)"
    and rest: "r0 = 0 \<Longrightarrow> \<exists>e. new = Some e \<and> r = Some (uint (env_id (envs t e))) \<and>
       t = u\<lparr>envs := (envs u)(e := (envs u e)\<lparr>env_tf := set_reg 2 0 (kstack_tf u), env_status := ENV_NOT_RUNNABLE,
         env_pri := env_pri (envs u c)\<rparr>)\<rparr>"
    using exofork_parts [OF run] c by auto
  have lt: "\<forall>e \<in> set (env_free_list s). e < NENV" using free by blast
  obtain p m g where g: "page_alloc (km s) = Some (0, p, m)" "\<forall>i < NUPDE. g i = 0"
      and km: "km u = m\<lparr>pp_ref := (pp_ref m)(p := pp_ref m p + 1), pmem := (pmem m)(p := g)\<rparr>"
      and u: "curenv u = curenv s" "kstack_tf u = kstack_tf s" "env_pgdir (envs u e) = p" "\<And>x. x \<noteq> e \<Longrightarrow> envs u x = envs s x"
        "r0 = 0" "new = Some e" "env_free_list u = fl" "named (env_id (envs s c)) e s u"
    using env_alloc_result [OF kvm_remap [OF ok] lt al] some by auto
  have e: "e < NENV" "e \<notin> live s" using free some(1) by (auto simp: live_def)
  have ce: "c \<in> live s" "c \<noteq> e" using kvm_cur [OF ok c] e(2) by auto
  have r: "r = Some (uint (env_id (envs t e)))" and
    t: "t = u\<lparr>envs := (envs u)(e := (envs u e)\<lparr>env_tf := set_reg 2 0 (kstack_tf u), env_status := ENV_NOT_RUNNABLE,
         env_pri := env_pri (envs u c)\<rparr>)\<rparr>"
    using rest u(5,6) by auto
  note tk = exofork_taken [OF ok g km]
  have f: "km t = km u" "curenv t = curenv s" "env_pgdir (envs t e) = p" "\<And>x. x \<noteq> e \<Longrightarrow> envs t x = envs s x"
    "asid_bitmap t = asid_bitmap u"
    using u by (simp_all add: t)
  show "env_free_list t = fl" "env_status (envs t e) = ENV_NOT_RUNNABLE" "env_tf (envs t e) = set_reg 2 0 (kstack_tf s)"
    "env_pri (envs t e) = env_pri (envs s c)" "r = Some (uint (env_id (envs t e)))"
    using u ce r by (simp_all add: t)
  show "named (env_id (envs s c)) e s t" using u(8) by (simp add: named_def t)
  show same: "\<forall>x \<in> live s. envs t x = envs s x"
  proof
    show "envs t x = envs s x" if "x \<in> live s" for x by (rule f(4)) (use e(2) that in blast)
  qed
  show live: "live t = insert e (live s)"
  proof (intro set_eqI)
    show "x \<in> live t \<longleftrightarrow> x \<in> insert e (live s)" for x
      using f(4) [of x] e(1) by (cases "x = e") (auto simp: live_def t)
  qed
  have im: "(\<lambda>e. env_pgdir (envs t e)) ` live s = dirs s" unfolding dirs_def by (rule image_cong [OF refl]) (simp add: same)
  then have dirs: "dirs t = insert p (dirs s)" by (simp add: dirs_def [of t] live f(3))
  show "\<forall>K. accounted (dirs s) K (km s) \<longrightarrow> accounted (dirs t) K (km t)" using tk(6) by (simp add: dirs f(1))
  show "\<forall>x \<in> live s. \<forall>va. PDX va < PDX UTOP \<longrightarrow> uview (km t) (env_pgdir (envs t x)) va = uview (km s) (env_pgdir (envs s x)) va"
    using tk(3) same dirs_live by (simp add: f(1) NUPDE_def del: UTOP_def)
  show "\<forall>va. PDX va < PDX UTOP \<longrightarrow> uview (km t) (env_pgdir (envs t e)) va = None"
    using tk(4) by (simp add: f(1,3) NUPDE_def del: UTOP_def)
  define a where "a = env_asid (envs t e)"
  have "remap_ok (dirs t) (A(p := a)) (km t)" using tk(2) [of "insert p (dirs s)" a] by (simp add: dirs f(1))
  moreover have "inj_on (\<lambda>e. env_pgdir (envs t e)) (live s) = inj_on (\<lambda>e. env_pgdir (envs s e)) (live s)"
    by (rule inj_on_cong) (simp add: same)
  then have "inj_on (\<lambda>e. env_pgdir (envs t e)) (live t)"
    using ok e(2) tk(1) im by (simp add: live f(3) kvm_ok_def)
  moreover have "(A(p := a)) (env_pgdir (envs t x)) = env_asid (envs t x)" if "x \<in> live t" for x
  proof (cases "x = e")
    case False
    then have x: "x \<in> live s" using that live by simp
    then have "env_pgdir (envs s x) \<noteq> p" using tk(1) dirs_live by auto
    then show ?thesis using kvm_asid [OF ok x] same x by simp
  qed (simp add: f(3) a_def)
  ultimately have "kvm_ok (A(p := a)) t" using kvm_cur [OF ok] by (auto simp: kvm_ok_def live f(2))
  then show "\<exists>B. kvm_ok B t" by blast
qed

lemma exofork_total:
  assumes "kvm_ok A s" "page_free_list (km s) \<noteq> []" "curenv s \<noteq> None"
  shows "\<exists>r t. sys_exofork s = Some (r, t)"
proof -
  obtain c where c: "curenv s = Some c" using assms(3) by blast
  obtain r new t where "env_alloc (env_id (envs s c)) s = Some (r, new, t)" "r = 0 \<longrightarrow> new \<noteq> None"
    using env_alloc_total [OF kvm_remap [OF assms(1)] assms(2)] by blast
  then show ?thesis using c by (auto simp: sys_exofork_def ret_def Let_def)
qed

text \<open>
  C7. \<^verbatim>\<open>sys_exofork\<close> makes an empty process. In a consistent kernel whose free environments are free, when it
  returns, the kernel is consistent and all processes are unchanged and see what they saw. If there is no free environment, or all
  address space identifiers are taken, it returns \<^verbatim>\<open>-E_NO_FREE_ENV\<close> and makes no process; in the second case
  the page it took for the directory is lost: it is counted but neither free, nor a directory or table, nor mapped. Otherwise
  it makes the first free environment a process that sees nothing at any user address, cannot run yet, is a child of the
  caller with its priority and registers, except for a result of 0, and has an address space identifier
  that was free; its identifier is returned and leads back to it, and no page is lost. It returns when a page is free.
\<close>

theorem exofork_fresh:
  assumes "kvm_ok A s" "\<forall>e \<in> set (env_free_list s). e < NENV \<and> env_status (envs s e) = ENV_FREE" "curenv s = Some c"
  shows "(\<forall>r t. sys_exofork s = Some (r, t) \<longrightarrow>
      (\<exists>B. kvm_ok B t) \<and> (\<forall>x \<in> live s. envs t x = envs s x) \<and>
      (\<forall>x \<in> live s. \<forall>va. PDX va < PDX UTOP \<longrightarrow>
         uview (km t) (env_pgdir (envs t x)) va = uview (km s) (env_pgdir (envs s x)) va) \<and>
      (if env_free_list s = [] \<or> (\<forall>i < NASID. bm_bit (asid_bitmap s) i)
       then r = Some (- E_NO_FREE_ENV) \<and> live t = live s \<and> env_free_list t = env_free_list s \<and>
         (if env_free_list s = [] then t = s else \<exists>p. lost_page (dirs t) (km t) p)
       else \<exists>e. env_free_list s = e # env_free_list t \<and> live t = insert e (live s) \<and>
         r = Some (uint (env_id (envs t e))) \<and> named (env_id (envs s c)) e s t \<and>
         env_status (envs t e) = ENV_NOT_RUNNABLE \<and> env_pri (envs t e) = env_pri (envs s c) \<and>
         env_tf (envs t e) = set_reg 2 0 (kstack_tf s) \<and>
         (\<forall>va. PDX va < PDX UTOP \<longrightarrow> uview (km t) (env_pgdir (envs t e)) va = None) \<and>
         (\<forall>K. accounted (dirs s) K (km s) \<longrightarrow> accounted (dirs t) K (km t)))) \<and>
    (page_free_list (km s) \<noteq> [] \<longrightarrow> (\<exists>r t. sys_exofork s = Some (r, t)))"
  (is "(\<forall>r t. sys_exofork s = Some (r, t) \<longrightarrow> ?P r t) \<and> _")
proof (rule conjI)
  show "\<forall>r t. sys_exofork s = Some (r, t) \<longrightarrow> ?P r t"
  proof (intro allI impI)
    fix r t assume run: "sys_exofork s = Some (r, t)"
    show "?P r t"
    proof (cases "env_free_list s = [] \<or> (\<forall>i < NASID. bm_bit (asid_bitmap s) i)")
      case True
      note ref = exofork_refused [OF assms(1,2) True run]
      show ?thesis unfolding if_P [OF True] by (intro conjI exI [of _ A]) (rule ref)+
    next
      case False
      then obtain e fl where e: "env_free_list s = e # fl" by (cases "env_free_list s") auto
      have "\<exists>i < NASID. \<not> bm_bit (asid_bitmap s) i" using False by blast
      note made = exofork_made [OF assms(1,2) e this run assms(3)]
      have "env_free_list s = e # env_free_list t" using e made(4) by simp
      then show ?thesis unfolding if_not_P [OF False] by (intro conjI exI [of _ e]) (rule made | assumption)+
    qed
  qed
qed (use exofork_total [OF assms(1)] assms(3) in auto)

theorem exofork_fresh_witness:
  "\<exists>t. sys_exofork ex_sys = Some (Some (uint (env_id (envs t 2))), t) \<and> live t = {0, 2} \<and> env_free_list t = [] \<and>
    uview (km t) 0 0x400000 = Some (0x700, \<lambda>_. 7) \<and> uview (km t) (env_pgdir (envs t 2)) 0x400000 = None"
proof -
  have f: "env_free_list ex_sys = [2]" "curenv ex_sys = Some 0" "asid_bitmap ex_sys = (\<lambda>i. if i = 0 then 3 else 0)"
    "live ex_sys = {0}"
    by (simp_all add: ex_sys_def ex_kernel_def) (auto simp: live_def split: if_splits)
  have free: "\<forall>e \<in> set (env_free_list ex_sys). e < NENV \<and> env_status (envs ex_sys e) = ENV_FREE"
    by (simp add: f) (simp add: ex_sys_def)
  have "\<not> bm_bit (asid_bitmap ex_sys) 2" unfolding f by code_simp
  then have asid: "\<not> (env_free_list ex_sys = [] \<or> (\<forall>i < NASID. bm_bit (asid_bitmap ex_sys) i))" by (auto simp: f intro: exI [of _ 2])
  note fork = exofork_fresh [OF ex_sys_ok free f(2), unfolded if_not_P [OF asid]]
  obtain r t where run: "sys_exofork ex_sys = Some (r, t)" using fork by auto
  have "PDX 0x400000 < PDX UTOP" by code_simp
  then have "r = Some (uint (env_id (envs t 2)))" "live t = {0, 2}" "env_free_list t = []" "uview (km t) (env_pgdir (envs t 2)) 0x400000 = None"
    "uview (km t) (env_pgdir (envs t 0)) 0x400000 = uview ex_pair 0 0x400000" "env_pgdir (envs t 0) = 0"
    using fork run f by (auto simp: ex_vals)
  then show ?thesis using run ex_pair_view by auto
qed

end
