(* ===== verification/Pio.thy ===== *)
theory Pio
  imports Kstate
begin

text \<open>
  The two drivers that move sectors through the ports of an IDE channel: the kernel's driver of
  the swap disk (end of \<^verbatim>\<open>kern/pmap.c\<close>) and the file server's driver (\<^verbatim>\<open>fs/ide.c\<close>), which reaches
  the same kind of registers through the system calls on devices. They run on a state \<open>'s\<close> whose
  accesses \<open>hw\<close> reach memory and the device; how the device answers is not part of the model.
  The busy-wait loops end only when the device becomes ready, hence \<^theory_text>\<open>partial_function\<close>.
\<close>

section \<open>Registers\<close>

definition PIO_DATA :: u32 where [simp]: "PIO_DATA = 0"
definition PIO_NSECT :: u32 where [simp]: "PIO_NSECT = 2"
definition PIO_LBAL :: u32 where [simp]: "PIO_LBAL = 3"
definition PIO_LBAM :: u32 where [simp]: "PIO_LBAM = 4"
definition PIO_LBAH :: u32 where [simp]: "PIO_LBAH = 5"
definition PIO_DEVICE :: u32 where [simp]: "PIO_DEVICE = 6"
definition PIO_STATUS :: u32 where [simp]: "PIO_STATUS = 7"
definition PIO_LBA :: u32 where [simp]: "PIO_LBA = 0xE0"
definition PIO_BUSY :: u8 where [simp]: "PIO_BUSY = 0x80"
definition PIO_CMD_READ :: u8 where [simp]: "PIO_CMD_READ = 0x20"
definition PIO_CMD_WRITE :: u8 where [simp]: "PIO_CMD_WRITE = 0x30"
definition MALTA_SWAP_BASE :: u32 where [simp]: "MALTA_SWAP_BASE = 0x18000170"
definition MALTA_IDE_BASE :: u32 where [simp]: "MALTA_IDE_BASE = 0x180001f0"

text \<open>What the drivers write to the four registers that select a sector.\<close>

definition lba_low :: "u32 \<Rightarrow> u8" where "lba_low secno = ucast (secno AND 0xff)"
definition lba_mid :: "u32 \<Rightarrow> u8" where "lba_mid secno = ucast (drop_bit 8 secno AND 0xff)"
definition lba_high :: "u32 \<Rightarrow> u8" where "lba_high secno = ucast (drop_bit 16 secno AND 0xff)"

definition lba_device :: "u32 \<Rightarrow> u32 \<Rightarrow> u8" where
  "lba_device diskno secno =
     ucast ((drop_bit 24 secno AND 0x0f) OR PIO_LBA OR push_bit 4 diskno)"

section \<open>The swap disk\<close>

definition sd_check :: "u32 \<Rightarrow> u32 \<Rightarrow> int" where
  "sd_check pa n =
     (if n \<noteq> 1 \<and> n \<noteq> 2 \<and> n \<noteq> 4 then - E_INVAL
      else if 0x18000170 \<le> pa \<and> pa + n \<le> 0x18000170 + 0x8 then 0 else - E_INVAL)"

text \<open>
  \<^verbatim>\<open>panic_on(read_sd(...))\<close> and \<^verbatim>\<open>panic_on(write_sd(...))\<close>: a byte to or from the local variable,
  a word to or from memory at \<open>va\<close>.
\<close>

definition read_sd1 :: "'s mem_ops \<Rightarrow> u32 \<Rightarrow> 's \<Rightarrow> (u8 \<times> 's) option" where
  "read_sd1 hw pa s = do { _ \<leftarrow> panic_on (sd_check pa 1 \<noteq> 0); ld8 hw (KSEG1 + pa) s }"

definition write_sd1 :: "'s mem_ops \<Rightarrow> u32 \<Rightarrow> u8 \<Rightarrow> 's \<Rightarrow> 's option" where
  "write_sd1 hw pa b s = do { _ \<leftarrow> panic_on (sd_check pa 1 \<noteq> 0); st8 hw (KSEG1 + pa) b s }"

definition read_sd4 :: "'s mem_ops \<Rightarrow> u32 \<Rightarrow> u32 \<Rightarrow> 's \<Rightarrow> 's option" where
  "read_sd4 hw va pa s = do {
     _ \<leftarrow> panic_on (sd_check pa 4 \<noteq> 0);
     (_, s) \<leftarrow> memcpy hw va (KSEG1 + pa) 4 s;
     Some s }"

definition write_sd4 :: "'s mem_ops \<Rightarrow> u32 \<Rightarrow> u32 \<Rightarrow> 's \<Rightarrow> 's option" where
  "write_sd4 hw va pa s = do {
     _ \<leftarrow> panic_on (sd_check pa 4 \<noteq> 0);
     (_, s) \<leftarrow> memcpy hw (KSEG1 + pa) va 4 s;
     Some s }"

partial_function (option) wait_sd_ready :: "'s mem_ops \<Rightarrow> 's \<Rightarrow> (u8 \<times> 's) option" where
  "wait_sd_ready hw s = do {
     (flag, s) \<leftarrow> read_sd1 hw (MALTA_SWAP_BASE + PIO_STATUS) s;
     if flag AND PIO_BUSY = 0 then Some (flag, s) else wait_sd_ready hw s }"

text \<open>Steps 1 to 6 of both loops: select the sector and give the command.\<close>

definition sd_command :: "'s mem_ops \<Rightarrow> u32 \<Rightarrow> u32 \<Rightarrow> u8 \<Rightarrow> 's \<Rightarrow> 's option" where
  "sd_command hw diskno secno cmd s = do {
     s \<leftarrow> write_sd1 hw (MALTA_SWAP_BASE + PIO_NSECT) 1 s;
     s \<leftarrow> write_sd1 hw (MALTA_SWAP_BASE + PIO_LBAL) (lba_low secno) s;
     s \<leftarrow> write_sd1 hw (MALTA_SWAP_BASE + PIO_LBAM) (lba_mid secno) s;
     s \<leftarrow> write_sd1 hw (MALTA_SWAP_BASE + PIO_LBAH) (lba_high secno) s;
     s \<leftarrow> write_sd1 hw (MALTA_SWAP_BASE + PIO_DEVICE) (lba_device diskno secno) s;
     write_sd1 hw (MALTA_SWAP_BASE + PIO_STATUS) cmd s }"

partial_function (option) sd_read_loop ::
  "'s mem_ops \<Rightarrow> u32 \<Rightarrow> u32 \<Rightarrow> u32 \<Rightarrow> u32 \<Rightarrow> u32 \<Rightarrow> 's \<Rightarrow> 's option" where
  "sd_read_loop hw diskno secno lim dst off s =
     (if secno < lim then do {
        (_, s) \<leftarrow> wait_sd_ready hw s;
        s \<leftarrow> sd_command hw diskno secno PIO_CMD_READ s;
        (_, s) \<leftarrow> wait_sd_ready hw s;
        s \<leftarrow> foldM (\<lambda>i. read_sd4 hw (dst + off + word_of_nat i * 4) (MALTA_SWAP_BASE + PIO_DATA))
               [0..<128] s;
        (_, s) \<leftarrow> read_sd1 hw (MALTA_SWAP_BASE + PIO_STATUS) s;
        sd_read_loop hw diskno (secno + 1) lim dst (off + 512) s }
      else Some s)"

definition sd_read :: "'s mem_ops \<Rightarrow> u32 \<Rightarrow> u32 \<Rightarrow> u32 \<Rightarrow> u32 \<Rightarrow> 's \<Rightarrow> 's option" where
  "sd_read hw diskno secno dst nsecs s = do {
     _ \<leftarrow> panic_on (diskno \<noteq> 2);
     sd_read_loop hw diskno secno (nsecs + secno) dst 0 s }"

partial_function (option) sd_write_loop ::
  "'s mem_ops \<Rightarrow> u32 \<Rightarrow> u32 \<Rightarrow> u32 \<Rightarrow> u32 \<Rightarrow> u32 \<Rightarrow> 's \<Rightarrow> 's option" where
  "sd_write_loop hw diskno secno lim src off s =
     (if secno < lim then do {
        (_, s) \<leftarrow> wait_sd_ready hw s;
        s \<leftarrow> sd_command hw diskno secno PIO_CMD_WRITE s;
        (_, s) \<leftarrow> wait_sd_ready hw s;
        s \<leftarrow> foldM (\<lambda>i. write_sd4 hw (src + off + word_of_nat i * 4) (MALTA_SWAP_BASE + PIO_DATA))
               [0..<128] s;
        (_, s) \<leftarrow> read_sd1 hw (MALTA_SWAP_BASE + PIO_STATUS) s;
        sd_write_loop hw diskno (secno + 1) lim src (off + 512) s }
      else Some s)"

definition sd_write :: "'s mem_ops \<Rightarrow> u32 \<Rightarrow> u32 \<Rightarrow> u32 \<Rightarrow> u32 \<Rightarrow> 's \<Rightarrow> 's option" where
  "sd_write hw diskno secno src nsecs s = do {
     _ \<leftarrow> panic_on (diskno \<noteq> 2);
     sd_write_loop hw diskno secno (nsecs + secno) src 0 s }"

section \<open>The file server's disk\<close>

text \<open>
  The user driver's accesses are system calls: \<open>rd8\<close> and \<open>wr8\<close> transfer a byte of a local variable,
  \<open>rd32\<close> and \<open>wr32\<close> a word of memory; each returns an error code. \<open>yield\<close> gives up the processor.
\<close>

record 's dev_calls =
  read_dev1 :: "u32 \<Rightarrow> 's \<Rightarrow> (int \<times> u8 \<times> 's) option"
  write_dev1 :: "u32 \<Rightarrow> u8 \<Rightarrow> 's \<Rightarrow> (int \<times> 's) option"
  read_dev4 :: "u32 \<Rightarrow> u32 \<Rightarrow> 's \<Rightarrow> (int \<times> 's) option"
  write_dev4 :: "u32 \<Rightarrow> u32 \<Rightarrow> 's \<Rightarrow> (int \<times> 's) option"
  dev_yield :: "'s \<Rightarrow> 's option"

definition ide_in :: "'s dev_calls \<Rightarrow> u32 \<Rightarrow> 's \<Rightarrow> (u8 \<times> 's) option" where
  "ide_in c r s = do {
     (e, b, s) \<leftarrow> read_dev1 c (MALTA_IDE_BASE + r) s;
     _ \<leftarrow> panic_on (e \<noteq> 0);
     Some (b, s) }"

definition ide_out :: "'s dev_calls \<Rightarrow> u32 \<Rightarrow> u8 \<Rightarrow> 's \<Rightarrow> 's option" where
  "ide_out c r b s = do {
     (e, s) \<leftarrow> write_dev1 c (MALTA_IDE_BASE + r) b s;
     _ \<leftarrow> panic_on (e \<noteq> 0);
     Some s }"

partial_function (option) wait_ide_ready :: "'s dev_calls \<Rightarrow> 's \<Rightarrow> (u8 \<times> 's) option" where
  "wait_ide_ready c s = do {
     (flag, s) \<leftarrow> ide_in c PIO_STATUS s;
     if flag AND PIO_BUSY = 0 then Some (flag, s)
     else do { s \<leftarrow> dev_yield c s; wait_ide_ready c s } }"

definition ide_command :: "'s dev_calls \<Rightarrow> u32 \<Rightarrow> u32 \<Rightarrow> u8 \<Rightarrow> 's \<Rightarrow> 's option" where
  "ide_command c diskno secno cmd s = do {
     s \<leftarrow> ide_out c PIO_NSECT 1 s;
     s \<leftarrow> ide_out c PIO_LBAL (lba_low secno) s;
     s \<leftarrow> ide_out c PIO_LBAM (lba_mid secno) s;
     s \<leftarrow> ide_out c PIO_LBAH (lba_high secno) s;
     s \<leftarrow> ide_out c PIO_DEVICE (lba_device diskno secno) s;
     ide_out c PIO_STATUS cmd s }"

partial_function (option) ide_read_loop ::
  "'s dev_calls \<Rightarrow> u32 \<Rightarrow> u32 \<Rightarrow> u32 \<Rightarrow> u32 \<Rightarrow> u32 \<Rightarrow> 's \<Rightarrow> 's option" where
  "ide_read_loop c diskno secno lim dst off s =
     (if secno < lim then do {
        (_, s) \<leftarrow> wait_ide_ready c s;
        s \<leftarrow> ide_command c diskno secno PIO_CMD_READ s;
        (_, s) \<leftarrow> wait_ide_ready c s;
        s \<leftarrow> foldM (\<lambda>i s. do {
               (e, s) \<leftarrow> read_dev4 c (dst + off + word_of_nat i * 4) (MALTA_IDE_BASE + PIO_DATA) s;
               _ \<leftarrow> panic_on (e \<noteq> 0);
               Some s }) [0..<128] s;
        (_, s) \<leftarrow> ide_in c PIO_STATUS s;
        ide_read_loop c diskno (secno + 1) lim dst (off + 512) s }
      else Some s)"

definition ide_read_drv :: "'s dev_calls \<Rightarrow> u32 \<Rightarrow> u32 \<Rightarrow> u32 \<Rightarrow> u32 \<Rightarrow> 's \<Rightarrow> 's option" where
  "ide_read_drv c diskno secno dst nsecs s = do {
     _ \<leftarrow> panic_on (diskno \<ge> 2);
     ide_read_loop c diskno secno (nsecs + secno) dst 0 s }"

partial_function (option) ide_write_loop ::
  "'s dev_calls \<Rightarrow> u32 \<Rightarrow> u32 \<Rightarrow> u32 \<Rightarrow> u32 \<Rightarrow> u32 \<Rightarrow> 's \<Rightarrow> 's option" where
  "ide_write_loop c diskno secno lim src off s =
     (if secno < lim then do {
        (_, s) \<leftarrow> wait_ide_ready c s;
        s \<leftarrow> ide_command c diskno secno PIO_CMD_WRITE s;
        (_, s) \<leftarrow> wait_ide_ready c s;
        s \<leftarrow> foldM (\<lambda>i s. do {
               (e, s) \<leftarrow> write_dev4 c (src + off + word_of_nat i * 4) (MALTA_IDE_BASE + PIO_DATA) s;
               _ \<leftarrow> panic_on (e \<noteq> 0);
               Some s }) [0..<128] s;
        (_, s) \<leftarrow> ide_in c PIO_STATUS s;
        ide_write_loop c diskno (secno + 1) lim src (off + 512) s }
      else Some s)"

definition ide_write_drv :: "'s dev_calls \<Rightarrow> u32 \<Rightarrow> u32 \<Rightarrow> u32 \<Rightarrow> u32 \<Rightarrow> 's \<Rightarrow> 's option" where
  "ide_write_drv c diskno secno src nsecs s = do {
     _ \<leftarrow> panic_on (diskno \<ge> 2);
     ide_write_loop c diskno secno (nsecs + secno) src 0 s }"

section \<open>The sector the device is given\<close>

definition lba_of_regs :: "u8 \<Rightarrow> u8 \<Rightarrow> u8 \<Rightarrow> u8 \<Rightarrow> u32" where
  "lba_of_regs lo mid hi dev =
     ucast lo OR push_bit 8 (ucast mid) OR push_bit 16 (ucast hi) OR
     push_bit 24 (ucast dev AND 0x0f)"

lemma bit_0xFF [simp]: "bit (0xFF :: u32) n \<longleftrightarrow> n < 8"
proof -
  have "(0xFF :: u32) = mask 8" by (simp add: mask_eq_exp_minus_1)
  then show ?thesis by (simp only: bit_mask_iff) auto
qed

lemma bit_0x0F [simp]: "bit (0x0F :: u32) n \<longleftrightarrow> n < 4"
proof -
  have "(0x0F :: u32) = mask 4" by (simp add: mask_eq_exp_minus_1)
  then show ?thesis by (simp only: bit_mask_iff) auto
qed

lemma bit_0xE0 [simp]: "bit (0xE0 :: u32) n \<longleftrightarrow> n = 5 \<or> n = 6 \<or> n = 7"
proof -
  have "(0xE0 :: u32) = push_bit 5 (mask 3)" by (simp add: mask_eq_exp_minus_1 push_bit_eq_mult)
  then show ?thesis by (auto simp only: bit_push_bit_iff bit_mask_iff) auto
qed

lemma small_bits:
  assumes "secno < 2 ^ 28" "bit (secno :: u32) n"
  shows "n < 28"
proof -
  have "unat secno < 2 ^ 28" using assms(1) by (simp add: word_less_nat_alt)
  then have "unat (take_bit 28 secno) = unat secno" by (simp add: unsigned_take_bit_eq take_bit_nat_eq_self)
  then have "take_bit 28 secno = secno" by (simp add: word_unat_eq_iff)
  then show ?thesis using assms(2) by (metis bit_take_bit_iff)
qed

text \<open>
  Selecting a sector: the four registers the drivers write give the device back the sector
  number, as long as it fits the 28 bits of LBA, and the drive bit is the disk number.
\<close>

theorem sector_registers:
  assumes "secno < 2 ^ 28" "diskno < 2"
  shows "lba_of_regs (lba_low secno) (lba_mid secno) (lba_high secno) (lba_device diskno secno) = secno \<and>
    (bit (lba_device diskno secno) 4 \<longleftrightarrow> diskno = 1) \<and> bit (lba_device diskno secno) 6"
proof (intro conjI)
  have d: "diskno = 0 \<or> diskno = 1"
  proof -
    have "unat diskno = 0 \<or> unat diskno = 1" using assms(2) by (auto simp: word_less_nat_alt)
    then show ?thesis by (simp add: word_unat_eq_iff)
  qed
  have pd: "bit (push_bit 4 diskno) n \<longleftrightarrow> n = 4 \<and> diskno = 1" for n
    using d by (auto simp: bit_push_bit_iff bit_1_iff)
  show "lba_of_regs (lba_low secno) (lba_mid secno) (lba_high secno) (lba_device diskno secno) = secno"
  proof (rule bit_word_eqI)
    fix n assume "n < LENGTH(32)"
    then consider "n < 8" | "8 \<le> n" "n < 16" | "16 \<le> n" "n < 24" | "24 \<le> n" "n < 28" | "28 \<le> n" "n < 32"
      by fastforce
    then show "bit (lba_of_regs (lba_low secno) (lba_mid secno) (lba_high secno) (lba_device diskno secno)) n = bit secno n"
      unfolding lba_of_regs_def lba_low_def lba_mid_def lba_high_def lba_device_def PIO_LBA_def
        bit_or_iff bit_push_bit_iff bit_ucast_iff bit_and_iff bit_drop_bit_eq bit_0xFF bit_0x0F bit_0xE0
      using small_bits [OF assms(1), of n] by cases auto
  qed
  show "bit (lba_device diskno secno) 4 \<longleftrightarrow> diskno = 1" "bit (lba_device diskno secno) 6"
    by (simp_all add: lba_device_def bit_or_iff bit_and_iff bit_ucast_iff bit_drop_bit_eq pd)
qed

lemma sector_registers_witness:
  "lba_of_regs (lba_low 0x0abcdef) (lba_mid 0x0abcdef) (lba_high 0x0abcdef) (lba_device 1 0x0abcdef) = 0x0abcdef"
  using sector_registers [of "0x0abcdef" 1] by simp

end
