(* ===== verification/Fs.thy ===== *)
theory Fs
  imports Mmu CString Bitmap
begin

text \<open>
  \<^verbatim>\<open>fs/fs.c\<close>: the file system of the file server. The disk is cached at \<^verbatim>\<open>DISKMAP\<close> in the
  server's address space, a page per block; every structure of the file system (super block,
  bitmap, \<^verbatim>\<open>struct File\<close>, indirect blocks) is read and written in that cache by address, at its
  offset. \<open>fmem\<close> is the server's memory, \<open>fmapped\<close> and \<open>fdirty\<close> are the bits its page-table entries
  hold for a page, \<open>fdisk\<close> is the disk by sectors, \<open>super_p\<close> and \<open>bitmap_p\<close> are the two global
  pointers.

  An access to a page that is not mapped would get a page of zeros from the kernel; the code is
  not meant to do that, and in the model it gives \<^term>\<open>None\<close>, like a panic. Strings are lists of
  non-zero bytes. Debugging output is left out.
\<close>

section \<open>State\<close>

record fs =
  fmem :: "u32 \<Rightarrow> u8"
  fmapped :: "nat \<Rightarrow> bool"
  fdirty :: "nat \<Rightarrow> bool"
  fdisk :: "nat \<Rightarrow> nat \<Rightarrow> u8"
  super_p :: u32
  bitmap_p :: u32

definition BLOCK_SIZE :: u32 where [simp]: "BLOCK_SIZE = PAGE_SIZE"
definition BLOCK_SIZE_BIT :: u32 where [simp]: "BLOCK_SIZE_BIT = BLOCK_SIZE * 8"
definition MAXNAMELEN :: nat where [simp]: "MAXNAMELEN = 128"
definition MAXPATHLEN :: nat where [simp]: "MAXPATHLEN = 1024"
definition NDIRECT :: u32 where [simp]: "NDIRECT = 10"
definition NINDIRECT :: u32 where [simp]: "NINDIRECT = BLOCK_SIZE div 4"
definition FILE_STRUCT_SIZE :: u32 where [simp]: "FILE_STRUCT_SIZE = 256"
definition FILE2BLK :: nat where [simp]: "FILE2BLK = 16"
definition FTYPE_REG :: u32 where [simp]: "FTYPE_REG = 0"
definition FTYPE_DIR :: u32 where [simp]: "FTYPE_DIR = 1"
definition FS_MAGIC :: u32 where [simp]: "FS_MAGIC = 0x68286097"
definition SECT_SIZE :: nat where [simp]: "SECT_SIZE = 512"
definition SECT2BLK :: u32 where [simp]: "SECT2BLK = 8"
definition DISKMAP :: u32 where [simp]: "DISKMAP = 0x10000000"
definition DISKMAX :: u32 where [simp]: "DISKMAX = 0x40000000"

text \<open>The offsets of the fields of \<^verbatim>\<open>struct Super\<close> and \<^verbatim>\<open>struct File\<close>.\<close>

definition s_magic :: u32 where [simp]: "s_magic = 0"
definition s_nblocks :: u32 where [simp]: "s_nblocks = 4"
definition s_root :: u32 where [simp]: "s_root = 8"
definition f_name :: u32 where [simp]: "f_name = 0"
definition f_size :: u32 where [simp]: "f_size = 128"
definition f_type :: u32 where [simp]: "f_type = 132"
definition f_direct :: u32 where [simp]: "f_direct = 136"
definition f_indirect :: u32 where [simp]: "f_indirect = 176"
definition f_dir :: u32 where [simp]: "f_dir = 180"

section \<open>Accesses\<close>

definition ldb :: "u32 \<Rightarrow> fs \<Rightarrow> u8 option" where
  "ldb a s = (if fmapped s (VPN a) then Some (fmem s a) else None)"

definition ldw :: "u32 \<Rightarrow> fs \<Rightarrow> u32 option" where
  "ldw a s = (if fmapped s (VPN a) then Some (rd32 (fmem s) a) else None)"

definition stw :: "u32 \<Rightarrow> u32 \<Rightarrow> fs \<Rightarrow> fs option" where
  "stw a w s = (if fmapped s (VPN a) then Some (s\<lparr>fmem := wr32 a w (fmem s)\<rparr>) else None)"

definition stb :: "u32 \<Rightarrow> u8 \<Rightarrow> fs \<Rightarrow> fs option" where
  "stb a b s = (if fmapped s (VPN a) then Some (s\<lparr>fmem := (fmem s)(a := b)\<rparr>) else None)"

text \<open>\<^verbatim>\<open>strcmp(p, name) == 0\<close> and \<^verbatim>\<open>strcpy(p, name)\<close> for a list of non-zero bytes.\<close>

fun str_eq_at :: "u32 \<Rightarrow> u8 list \<Rightarrow> fs \<Rightarrow> bool option" where
  "str_eq_at a [] s = do { x \<leftarrow> ldb a s; Some (x = 0) }"
| "str_eq_at a (c # cs) s = do {
     x \<leftarrow> ldb a s;
     if x = c then str_eq_at (a + 1) cs s else Some False }"

fun str_put_at :: "u32 \<Rightarrow> u8 list \<Rightarrow> fs \<Rightarrow> fs option" where
  "str_put_at a [] s = stb a 0 s"
| "str_put_at a (c # cs) s = do { s \<leftarrow> stb a c s; str_put_at (a + 1) cs s }"

text \<open>
  The two system calls on the cache: a fresh page of zeros at \<open>va\<close> (the kernel never reports
  that memory ran out), and the page at \<open>va\<close> remapped with the dirty bit.
\<close>

definition fs_mem_alloc :: "u32 \<Rightarrow> fs \<Rightarrow> int \<times> fs" where
  "fs_mem_alloc va s =
     (if is_illegal_va va then (- E_INVAL, s)
      else (0, s\<lparr>fmem := (\<lambda>a. if VPN a = VPN va then 0 else fmem s a),
                 fmapped := (fmapped s)(VPN va := True), fdirty := (fdirty s)(VPN va := False)\<rparr>))"

definition fs_map_dirty :: "u32 \<Rightarrow> fs \<Rightarrow> int \<times> fs" where
  "fs_map_dirty va s =
     (if is_illegal_va va \<or> \<not> fmapped s (VPN va) then (- E_INVAL, s)
      else (0, s\<lparr>fdirty := (fdirty s)(VPN va := True)\<rparr>))"

definition fs_mem_unmap :: "u32 \<Rightarrow> fs \<Rightarrow> int \<times> fs" where
  "fs_mem_unmap va s =
     (if is_illegal_va va then (- E_INVAL, s)
      else (0, s\<lparr>fmapped := (fmapped s)(VPN va := False), fdirty := (fdirty s)(VPN va := False)\<rparr>))"

text \<open>\<open>ide_read\<close> and \<open>ide_write\<close> of disk 0, by their effect (theory \<open>Pio\<close> has the driver's code): \<open>n\<close> sectors
  from \<open>secno\<close>, to or from memory at \<open>va\<close>.\<close>

definition ide_read :: "u32 \<Rightarrow> u32 \<Rightarrow> u32 \<Rightarrow> fs \<Rightarrow> fs" where
  "ide_read secno va n s =
     s\<lparr>fmem := (\<lambda>a. let k = unat (a - va) in
         if k < unat n * SECT_SIZE then fdisk s (unat secno + k div SECT_SIZE) (k mod SECT_SIZE)
         else fmem s a)\<rparr>"

definition ide_write :: "u32 \<Rightarrow> u32 \<Rightarrow> u32 \<Rightarrow> fs \<Rightarrow> fs" where
  "ide_write secno va n s =
     s\<lparr>fdisk := (\<lambda>q i.
         if unat secno \<le> q \<and> q < unat secno + unat n \<and> i < SECT_SIZE
         then fmem s (va + word_of_nat ((q - unat secno) * SECT_SIZE + i))
         else fdisk s q i)\<rparr>"

section \<open>The block cache\<close>

definition disk_addr :: "u32 \<Rightarrow> u32" where
  "disk_addr blockno = DISKMAP + BLOCK_SIZE * blockno"

definition va_is_mapped :: "u32 \<Rightarrow> fs \<Rightarrow> bool" where
  "va_is_mapped va s = fmapped s (VPN va)"

definition block_is_mapped :: "u32 \<Rightarrow> fs \<Rightarrow> u32" where
  "block_is_mapped blockno s =
     (let va = disk_addr blockno in if va_is_mapped va s then va else 0)"

definition va_is_dirty :: "u32 \<Rightarrow> fs \<Rightarrow> bool" where
  "va_is_dirty va s = fdirty s (VPN va)"

definition block_is_dirty :: "u32 \<Rightarrow> fs \<Rightarrow> bool" where
  "block_is_dirty blockno s =
     (let va = disk_addr blockno in va_is_mapped va s \<and> va_is_dirty va s)"

definition dirty_block :: "u32 \<Rightarrow> fs \<Rightarrow> int \<times> fs" where
  "dirty_block blockno s =
     (let va = disk_addr blockno in
      if \<not> va_is_mapped va s then (- E_NOT_FOUND, s)
      else if va_is_dirty va s then (0, s)
      else fs_map_dirty va s)"

definition write_block :: "u32 \<Rightarrow> fs \<Rightarrow> fs option" where
  "write_block blockno s =
     (if block_is_mapped blockno s = 0 then None
      else Some (ide_write (blockno * SECT2BLK) (disk_addr blockno) SECT2BLK s))"

definition block_is_free :: "u32 \<Rightarrow> fs \<Rightarrow> bool option" where
  "block_is_free blockno s =
     (if super_p s = 0 then Some False
      else do {
        n \<leftarrow> ldw (super_p s + s_nblocks) s;
        if blockno \<ge> n then Some False
        else do {
          w \<leftarrow> ldw (bitmap_p s + 4 * (blockno div 32)) s;
          Some (w AND push_bit (unat (blockno mod 32)) 1 \<noteq> 0) } })"

text \<open>The error code, \<^verbatim>\<open>*blk\<close>, \<^verbatim>\<open>*isnew\<close> and the state.\<close>

definition read_block :: "u32 \<Rightarrow> fs \<Rightarrow> (int \<times> u32 \<times> bool \<times> fs) option" where
  "read_block blockno s = do {
     beyond \<leftarrow> (if super_p s = 0 then Some False
               else do { n \<leftarrow> ldw (super_p s + s_nblocks) s; Some (blockno \<ge> n) });
     _ \<leftarrow> panic_on beyond;
     free \<leftarrow> (if bitmap_p s = 0 then Some False else block_is_free blockno s);
     _ \<leftarrow> panic_on free;
     let va = disk_addr blockno;
     if block_is_mapped blockno s \<noteq> 0 then Some (0, va, False, s)
     else
       let (r, s) = fs_mem_alloc va s in
       if r \<noteq> 0 then Some (r, 0, True, s)
       else Some (0, va, True, ide_read (blockno * SECT2BLK) va SECT2BLK s) }"

definition map_block :: "u32 \<Rightarrow> fs \<Rightarrow> int \<times> fs" where
  "map_block blockno s =
     (if block_is_mapped blockno s \<noteq> 0 then (0, s)
      else let (r, s) = fs_mem_alloc (disk_addr blockno) s in
           if r \<noteq> 0 then (r, s) else (0, s))"

definition unmap_block :: "u32 \<Rightarrow> fs \<Rightarrow> fs option" where
  "unmap_block blockno s =
     (let va = block_is_mapped blockno s in
      if va = 0 then Some s
      else do {
        free \<leftarrow> block_is_free blockno s;
        s \<leftarrow> (if \<not> free \<and> block_is_dirty blockno s then write_block blockno s else Some s);
        let (r, s) = fs_mem_unmap va s;
        if r \<noteq> 0 then Some s
        else do { _ \<leftarrow> kassert (block_is_mapped blockno s = 0); Some s } })"

section \<open>Allocation of blocks\<close>

definition free_block :: "u32 \<Rightarrow> fs \<Rightarrow> fs option" where
  "free_block blockno s =
     (if blockno = 0 \<or> super_p s = 0 then Some s
      else do {
        n \<leftarrow> ldw (super_p s + s_nblocks) s;
        if blockno \<ge> n then Some s
        else do {
          let a = bitmap_p s + 4 * (blockno div 32);
          w \<leftarrow> ldw a s;
          stw a (w OR push_bit (unat (blockno mod 32)) 1) s } })"

text \<open>The first block from \<open>b\<close> on whose bit is set.\<close>

function alloc_scan :: "nat \<Rightarrow> nat \<Rightarrow> fs \<Rightarrow> nat option option" where
  "alloc_scan b n s =
     (if b < n then do {
        w \<leftarrow> ldw (bitmap_p s + 4 * word_of_nat (b div 32)) s;
        if w AND push_bit (b mod 32) 1 \<noteq> 0 then Some (Some b) else alloc_scan (b + 1) n s }
      else Some None)"
  by pat_completeness auto
termination
  by (relation "measure (\<lambda>(b, n, s). n - b)") auto

declare alloc_scan.simps [simp del]

definition alloc_block_num :: "fs \<Rightarrow> (int \<times> fs) option" where
  "alloc_block_num s = do {
     n \<leftarrow> ldw (super_p s + s_nblocks) s;
     b \<leftarrow> alloc_scan 3 (unat n) s;
     (case b of
        None \<Rightarrow> Some (- E_NO_DISK, s)
      | Some b \<Rightarrow> do {
          let a = bitmap_p s + 4 * word_of_nat (b div 32);
          w \<leftarrow> ldw a s;
          s \<leftarrow> stw a (w AND NOT (push_bit (b mod 32) 1)) s;
          s \<leftarrow> write_block (word_of_nat b div BLOCK_SIZE_BIT + 2) s;
          Some (int b, s) }) }"

definition alloc_block :: "fs \<Rightarrow> (int \<times> fs) option" where
  "alloc_block s = do {
     (r, s) \<leftarrow> alloc_block_num s;
     if r < 0 then Some (r, s)
     else do {
       let bno = r;
       let (r, s) = map_block (word_of_int bno) s;
       if r < 0 then do { s \<leftarrow> free_block (word_of_int bno) s; Some (r, s) }
       else Some (bno, s) } }"

section \<open>Mounting\<close>

definition read_super :: "fs \<Rightarrow> fs option" where
  "read_super s = do {
     (r, blk, _, s) \<leftarrow> read_block 1 s;
     _ \<leftarrow> panic_on (r < 0);
     let s = s\<lparr>super_p := blk\<rparr>;
     magic \<leftarrow> ldw (super_p s + s_magic) s;
     _ \<leftarrow> panic_on (magic \<noteq> FS_MAGIC);
     n \<leftarrow> ldw (super_p s + s_nblocks) s;
     _ \<leftarrow> panic_on (n > DISKMAX div BLOCK_SIZE);
     Some s }"

definition assert_used :: "u32 \<Rightarrow> fs \<Rightarrow> fs option" where
  "assert_used blockno s = do {
     free \<leftarrow> block_is_free blockno s;
     _ \<leftarrow> kassert (\<not> free);
     Some s }"

definition read_bitmap :: "fs \<Rightarrow> fs option" where
  "read_bitmap s = do {
     n \<leftarrow> ldw (super_p s + s_nblocks) s;
     let nbitmap = n div BLOCK_SIZE_BIT + 1;
     s \<leftarrow> foldM (\<lambda>i s. do { (_, _, _, s) \<leftarrow> read_block (word_of_nat i + 2) s; Some s })
            [0..<unat nbitmap] s;
     let s = s\<lparr>bitmap_p := disk_addr 2\<rparr>;
     s \<leftarrow> assert_used 0 s;
     s \<leftarrow> assert_used 1 s;
     foldM (\<lambda>i. assert_used (word_of_nat i + 2)) [0..<unat nbitmap] s }"

definition fs_copy_block :: "u32 \<Rightarrow> u32 \<Rightarrow> fs \<Rightarrow> fs option" where
  "fs_copy_block dst src s = do {
     _ \<leftarrow> kassert (fmapped s (VPN dst) \<and> fmapped s (VPN src));
     (_, m) \<leftarrow> memcpy byte_ops dst src BLOCK_SIZE (fmem s);
     Some (s\<lparr>fmem := m\<rparr>) }"

definition OOPS_str :: "u8 list" where
  "OOPS_str = [79, 79, 80, 83, 33, 10]"

definition check_write_block :: "fs \<Rightarrow> fs option" where
  "check_write_block s = do {
     let s = s\<lparr>super_p := 0\<rparr>;
     (r, _, _, s) \<leftarrow> read_block 0 s;
     _ \<leftarrow> panic_on (r \<noteq> 0);
     s \<leftarrow> fs_copy_block (disk_addr 0) (disk_addr 1) s;
     s \<leftarrow> str_put_at (disk_addr 1) OOPS_str s;
     s \<leftarrow> write_block 1 s;
     _ \<leftarrow> kassert (block_is_mapped 1 s \<noteq> 0);
     let (r, s) = fs_mem_unmap (disk_addr 1) s;
     _ \<leftarrow> panic_on (r \<noteq> 0);
     _ \<leftarrow> kassert (block_is_mapped 1 s = 0);
     (r, _, _, s) \<leftarrow> read_block 1 s;
     _ \<leftarrow> panic_on (r \<noteq> 0);
     same \<leftarrow> str_eq_at (disk_addr 1) OOPS_str s;
     _ \<leftarrow> kassert same;
     s \<leftarrow> fs_copy_block (disk_addr 1) (disk_addr 0) s;
     s \<leftarrow> write_block 1 s;
     Some (s\<lparr>super_p := disk_addr 1\<rparr>) }"

definition fs_init :: "fs \<Rightarrow> fs option" where
  "fs_init s = do {
     s \<leftarrow> read_super s;
     s \<leftarrow> check_write_block s;
     read_bitmap s }"

section \<open>The blocks of a file\<close>

text \<open>A \<^verbatim>\<open>struct File *\<close> is the address of the file's entry. The error code, the slot, the state.\<close>

definition file_block_walk :: "u32 \<Rightarrow> u32 \<Rightarrow> bool \<Rightarrow> fs \<Rightarrow> (int \<times> u32 \<times> fs) option" where
  "file_block_walk f filebno alloc s =
     (if filebno < NDIRECT then Some (0, f + f_direct + 4 * filebno, s)
      else if filebno < NINDIRECT then do {
        ind \<leftarrow> ldw (f + f_indirect) s;
        (r, s) \<leftarrow>
          (if ind = 0 then
             (if \<not> alloc then Some (- E_NOT_FOUND, s)
              else do {
                (r, s) \<leftarrow> alloc_block s;
                if r < 0 then Some (r, s)
                else do { s \<leftarrow> stw (f + f_indirect) (word_of_int r) s; Some (0, s) } })
           else Some (0, s));
        if r < 0 then Some (r, 0, s)
        else do {
          ind \<leftarrow> ldw (f + f_indirect) s;
          (r, blk, _, s) \<leftarrow> read_block ind s;
          if r < 0 then Some (r, 0, s) else Some (0, blk + 4 * filebno, s) } }
      else Some (- E_INVAL, 0, s))"

definition file_map_block :: "u32 \<Rightarrow> u32 \<Rightarrow> bool \<Rightarrow> fs \<Rightarrow> (int \<times> u32 \<times> fs) option" where
  "file_map_block f filebno alloc s = do {
     (r, ptr, s) \<leftarrow> file_block_walk f filebno alloc s;
     if r < 0 then Some (r, 0, s)
     else do {
       v \<leftarrow> ldw ptr s;
       (r, s) \<leftarrow>
         (if v = 0 then
            (if \<not> alloc then Some (- E_NOT_FOUND, s)
             else do {
               (r, s) \<leftarrow> alloc_block s;
               if r < 0 then Some (r, s)
               else do { s \<leftarrow> stw ptr (word_of_int r) s; Some (0, s) } })
          else Some (0, s));
       if r < 0 then Some (r, 0, s)
       else do { v \<leftarrow> ldw ptr s; Some (0, v, s) } } }"

definition file_clear_block :: "u32 \<Rightarrow> u32 \<Rightarrow> fs \<Rightarrow> (int \<times> fs) option" where
  "file_clear_block f filebno s = do {
     (r, ptr, s) \<leftarrow> file_block_walk f filebno False s;
     if r < 0 then Some (r, s)
     else do {
       v \<leftarrow> ldw ptr s;
       if v \<noteq> 0 then do {
         s \<leftarrow> free_block v s;
         s \<leftarrow> stw ptr 0 s;
         Some (0, s) }
       else Some (0, s) } }"

definition file_get_block :: "u32 \<Rightarrow> u32 \<Rightarrow> fs \<Rightarrow> (int \<times> u32 \<times> fs) option" where
  "file_get_block f filebno s = do {
     (r, diskbno, s) \<leftarrow> file_map_block f filebno True s;
     if r < 0 then Some (r, 0, s)
     else do {
       (r, blk, _, s) \<leftarrow> read_block diskbno s;
       if r < 0 then Some (r, 0, s) else Some (0, blk, s) } }"

definition file_dirty :: "u32 \<Rightarrow> u32 \<Rightarrow> fs \<Rightarrow> (int \<times> fs) option" where
  "file_dirty f offset s = do {
     (r, diskbno, s) \<leftarrow> file_map_block f (offset div BLOCK_SIZE) False s;
     if r < 0 then Some (r, s) else Some (dirty_block diskbno s) }"

section \<open>Directories\<close>

text \<open>The entry of block \<open>blk\<close> with the given name, the first of those numbered in the list.\<close>

fun find_entry :: "u32 \<Rightarrow> u8 list \<Rightarrow> nat list \<Rightarrow> fs \<Rightarrow> u32 option option" where
  "find_entry blk name [] s = Some None"
| "find_entry blk name (j # js) s = do {
     let f = blk + FILE_STRUCT_SIZE * word_of_nat j;
     same \<leftarrow> str_eq_at (f + f_name) name s;
     if same then Some (Some f) else find_entry blk name js s }"

fun dir_lookup_from :: "u32 \<Rightarrow> u8 list \<Rightarrow> nat list \<Rightarrow> fs \<Rightarrow> (int \<times> u32 \<times> fs) option" where
  "dir_lookup_from dir name [] s = Some (- E_NOT_FOUND, 0, s)"
| "dir_lookup_from dir name (i # is) s = do {
     (r, blk, s) \<leftarrow> file_get_block dir (word_of_nat i) s;
     if r \<noteq> 0 then Some (r, 0, s)
     else do {
       f \<leftarrow> find_entry blk name [0..<FILE2BLK] s;
       (case f of
          Some f \<Rightarrow> do { s \<leftarrow> stw (f + f_dir) dir s; Some (0, f, s) }
        | None \<Rightarrow> dir_lookup_from dir name is s) } }"

definition dir_lookup :: "u32 \<Rightarrow> u8 list \<Rightarrow> fs \<Rightarrow> (int \<times> u32 \<times> fs) option" where
  "dir_lookup dir name s = do {
     sz \<leftarrow> ldw (dir + f_size) s;
     dir_lookup_from dir name [0..<unat (sz div BLOCK_SIZE)] s }"

fun find_free_entry :: "u32 \<Rightarrow> nat list \<Rightarrow> fs \<Rightarrow> u32 option option" where
  "find_free_entry blk [] s = Some None"
| "find_free_entry blk (j # js) s = do {
     let f = blk + FILE_STRUCT_SIZE * word_of_nat j;
     c \<leftarrow> ldb (f + f_name) s;
     if c = 0 then Some (Some f) else find_free_entry blk js s }"

fun dir_alloc_from :: "u32 \<Rightarrow> nat list \<Rightarrow> fs \<Rightarrow> (int \<times> u32 option \<times> fs) option" where
  "dir_alloc_from dir [] s = Some (0, None, s)"
| "dir_alloc_from dir (i # is) s = do {
     (r, blk, s) \<leftarrow> file_get_block dir (word_of_nat i) s;
     if r < 0 then Some (r, None, s)
     else do {
       f \<leftarrow> find_free_entry blk [0..<FILE2BLK] s;
       (case f of
          Some f \<Rightarrow> Some (0, Some f, s)
        | None \<Rightarrow> dir_alloc_from dir is s) } }"

definition dir_alloc_file :: "u32 \<Rightarrow> fs \<Rightarrow> (int \<times> u32 \<times> fs) option" where
  "dir_alloc_file dir s = do {
     sz \<leftarrow> ldw (dir + f_size) s;
     let nblock = sz div BLOCK_SIZE;
     (r, f, s) \<leftarrow> dir_alloc_from dir [0..<unat nblock] s;
     if r < 0 then Some (r, 0, s)
     else
       (case f of
          Some f \<Rightarrow> Some (0, f, s)
        | None \<Rightarrow> do {
            sz \<leftarrow> ldw (dir + f_size) s;
            s \<leftarrow> stw (dir + f_size) (sz + BLOCK_SIZE) s;
            (r, blk, s) \<leftarrow> file_get_block dir nblock s;
            if r < 0 then Some (r, 0, s) else Some (0, blk, s) }) }"

section \<open>Paths\<close>

definition slash :: u8 where [simp]: "slash = 47"

definition skip_slash :: "u8 list \<Rightarrow> u8 list" where
  "skip_slash p = dropWhile (\<lambda>c. c = slash) p"

lemma skip_slash_length: "length (skip_slash p) \<le> length p"
  by (simp add: skip_slash_def length_dropWhile_le)

lemma walk_step_length:
  assumes "path \<noteq> []"
  shows "length (skip_slash (dropWhile (\<lambda>c. c \<noteq> slash) path)) < length path"
proof (cases path)
  case (Cons c cs)
  show ?thesis
  proof (cases "c = slash")
    case True
    then have "skip_slash (dropWhile (\<lambda>c. c \<noteq> slash) path) = skip_slash cs"
      by (simp add: Cons skip_slash_def)
    then show ?thesis using skip_slash_length [of cs] by (simp add: Cons)
  next
    case False
    then have "length (dropWhile (\<lambda>c. c \<noteq> slash) path) \<le> length cs"
      using length_dropWhile_le [of "\<lambda>c. c \<noteq> slash" cs] by (simp add: Cons)
    then show ?thesis
      using skip_slash_length [of "dropWhile (\<lambda>c. c \<noteq> slash) path"] by (simp add: Cons)
  qed
qed (use assms in simp)

text \<open>
  The loop of \<^verbatim>\<open>walk_path\<close>; the results are the error code, \<^verbatim>\<open>*pdir\<close>, \<^verbatim>\<open>*pfile\<close>, what was copied to
  \<^verbatim>\<open>lastelem\<close>, and the state.
\<close>

type_synonym walkres = "int \<times> u32 \<times> u32 \<times> u8 list option \<times> fs"

function walk_from :: "u32 \<Rightarrow> u32 \<Rightarrow> u8 list \<Rightarrow> fs \<Rightarrow> walkres option" where
  "walk_from dir file path s =
     (if path = [] then Some (0, dir, file, None, s)
      else
        let dir = file;
            name = takeWhile (\<lambda>c. c \<noteq> slash) path;
            path' = skip_slash (dropWhile (\<lambda>c. c \<noteq> slash) path) in
        if length name \<ge> MAXNAMELEN then Some (- E_BAD_PATH, 0, 0, None, s)
        else
          (case ldw (dir + f_type) s of
             None \<Rightarrow> None
           | Some t \<Rightarrow>
               if t \<noteq> FTYPE_DIR then Some (- E_NOT_FOUND, 0, 0, None, s)
               else
                 (case dir_lookup dir name s of
                    None \<Rightarrow> None
                  | Some (r, file, s) \<Rightarrow>
                      if r < 0 then
                        (if r = - E_NOT_FOUND \<and> path' = []
                         then Some (r, dir, 0, Some name, s)
                         else Some (r, 0, 0, None, s))
                      else walk_from dir file path' s)))"
  by pat_completeness auto

termination
  by (relation "measure (\<lambda>(dir, file, path, s). length path)")
    (auto simp del: slash_def intro: walk_step_length)

declare walk_from.simps [simp del]

definition walk_path :: "u8 list \<Rightarrow> fs \<Rightarrow> walkres option" where
  "walk_path path s = walk_from 0 (super_p s + s_root) (skip_slash path) s"

section \<open>Files\<close>

definition file_open :: "u8 list \<Rightarrow> fs \<Rightarrow> (int \<times> u32 \<times> fs) option" where
  "file_open path s = do {
     (r, _, file, _, s) \<leftarrow> walk_path path s;
     Some (r, file, s) }"

definition file_create :: "u8 list \<Rightarrow> fs \<Rightarrow> (int \<times> u32 \<times> fs) option" where
  "file_create path s = do {
     (r, dir, f, lastelem, s) \<leftarrow> walk_path path s;
     if r = 0 then Some (- E_FILE_EXISTS, 0, s)
     else if r \<noteq> - E_NOT_FOUND \<or> dir = 0 then Some (r, 0, s)
     else do {
       name \<leftarrow> lastelem;
       (r', f, s) \<leftarrow> dir_alloc_file dir s;
       if r' < 0 then Some (r, 0, s)
       else do { s \<leftarrow> str_put_at (f + f_name) name s; Some (0, f, s) } } }"

definition file_truncate :: "u32 \<Rightarrow> u32 \<Rightarrow> fs \<Rightarrow> fs option" where
  "file_truncate f newsize s = do {
     sz \<leftarrow> ldw (f + f_size) s;
     let old_nblocks = ROUND sz BLOCK_SIZE div BLOCK_SIZE;
     let new_nblocks = (if newsize = 0 then 0 else ROUND newsize BLOCK_SIZE div BLOCK_SIZE);
     s \<leftarrow> foldM (\<lambda>bno s. do {
            (r, s) \<leftarrow> file_clear_block f (word_of_nat bno) s;
            _ \<leftarrow> panic_on (r \<noteq> 0);
            Some s }) [unat new_nblocks..<unat old_nblocks] s;
     s \<leftarrow> (if new_nblocks \<le> NDIRECT then do {
             ind \<leftarrow> ldw (f + f_indirect) s;
             if ind \<noteq> 0 then do {
               s \<leftarrow> free_block ind s;
               stw (f + f_indirect) 0 s }
             else Some s }
           else Some s);
     stw (f + f_size) newsize s }"

definition file_flush :: "u32 \<Rightarrow> fs \<Rightarrow> fs option" where
  "file_flush f s = do {
     sz \<leftarrow> ldw (f + f_size) s;
     foldM (\<lambda>bno s. do {
       (r, diskno, s) \<leftarrow> file_map_block f (word_of_nat bno) False s;
       if r < 0 then Some s
       else if block_is_dirty diskno s then write_block diskno s
       else Some s }) [0..<unat (ROUND sz BLOCK_SIZE div BLOCK_SIZE)] s }"

definition flush_dir :: "u32 \<Rightarrow> fs \<Rightarrow> fs option" where
  "flush_dir f s = do {
     d \<leftarrow> ldw (f + f_dir) s;
     if d \<noteq> 0 then file_flush d s else Some s }"

definition file_set_size :: "u32 \<Rightarrow> u32 \<Rightarrow> fs \<Rightarrow> (int \<times> fs) option" where
  "file_set_size f newsize s = do {
     sz \<leftarrow> ldw (f + f_size) s;
     s \<leftarrow> (if sz > newsize then file_truncate f newsize s else Some s);
     s \<leftarrow> stw (f + f_size) newsize s;
     s \<leftarrow> flush_dir f s;
     Some (0, s) }"

definition fs_sync :: "fs \<Rightarrow> fs option" where
  "fs_sync s = do {
     n \<leftarrow> ldw (super_p s + s_nblocks) s;
     foldM (\<lambda>i s. if block_is_dirty (word_of_nat i) s then write_block (word_of_nat i) s
                   else Some s) [0..<unat n] s }"

definition file_close :: "u32 \<Rightarrow> fs \<Rightarrow> fs option" where
  "file_close f s = do { s \<leftarrow> file_flush f s; flush_dir f s }"

definition file_remove :: "u8 list \<Rightarrow> fs \<Rightarrow> (int \<times> fs) option" where
  "file_remove path s = do {
     (r, _, f, _, s) \<leftarrow> walk_path path s;
     if r < 0 then Some (r, s)
     else do {
       s \<leftarrow> file_truncate f 0 s;
       s \<leftarrow> stb (f + f_name) 0 s;
       s \<leftarrow> file_flush f s;
       s \<leftarrow> flush_dir f s;
       Some (0, s) } }"

end
