(* ===== verification/Filefd.thy ===== *)
theory Filefd
  imports Prelude
begin

text \<open>
  What \<^verbatim>\<open>user/include/fd.h\<close> and \<^verbatim>\<open>user/include/lib.h\<close> fix for the file server and for its
  clients: the offsets of the fields of \<^verbatim>\<open>struct Fd\<close> and the open modes.
\<close>

definition fd_dev_id :: u32 where [simp]: "fd_dev_id = 0"
definition fd_offset :: u32 where [simp]: "fd_offset = 4"
definition fd_omode :: u32 where [simp]: "fd_omode = 8"
definition O_RDONLY :: u32 where [simp]: "O_RDONLY = 0"
definition O_WRONLY :: u32 where [simp]: "O_WRONLY = 1"
definition O_RDWR :: u32 where [simp]: "O_RDWR = 2"
definition O_ACCMODE :: u32 where [simp]: "O_ACCMODE = 3"

end
