(* ===== verification/Serv.thy ===== *)
theory Serv
  imports Fs Filefd
begin

text \<open>
  \<^verbatim>\<open>fs/serv.c\<close>: the file server. It keeps a table of open files, each with a page (a
  \<^verbatim>\<open>struct Filefd\<close> at \<^verbatim>\<open>FILEVA + i * BLOCK_SIZE\<close>) that it shares with the processes that have the
  file open; the number of mappings of that page is how it knows whether the entry is in use.

  \<open>sfs\<close> is the state of the file system, whose memory also holds these pages and the request page
  at \<^verbatim>\<open>REQVA\<close>. \<open>holders p\<close> counts the mappings other processes have of the server's page \<open>p\<close>: it
  grows when the page is sent, and otherwise changes by what the other processes do. \<open>replies\<close>
  lists the messages the server has delivered, the arguments of \<^verbatim>\<open>ipc_send\<close>; a page sent is taken to be
  mapped by the receiver where it did not have that page yet. \<open>tries\<close> is what the coming calls of
  \<^verbatim>\<open>syscall_ipc_try_send\<close> return, which the other processes decide: \<^verbatim>\<open>-E_IPC_NOT_RECV\<close> while the receiver
  is busy, an error when it is gone (theory \<open>Syscall\<close> has the kernel's side). Debugging output is left out.
\<close>

section \<open>State\<close>

record open_file =
  o_file :: u32
  o_fileid :: u32
  o_mode :: u32
  o_ff :: u32

record srv =
  sfs :: fs
  opentab :: "nat \<Rightarrow> open_file"
  holders :: "nat \<Rightarrow> nat"
  replies :: "(u32 \<times> u32 \<times> u32 \<times> u32) list"
  tries :: "int list"

definition MAXOPEN :: nat where [simp]: "MAXOPEN = 1024"
definition FILEVA :: u32 where [simp]: "FILEVA = 0x60000000"
definition REQVA :: u32 where [simp]: "REQVA = 0x0ffff000"

definition O_CREAT :: u32 where [simp]: "O_CREAT = 0x100"
definition O_TRUNC :: u32 where [simp]: "O_TRUNC = 0x200"

definition FSREQ_OPEN :: u32 where [simp]: "FSREQ_OPEN = 0"
definition FSREQ_MAP :: u32 where [simp]: "FSREQ_MAP = 1"
definition FSREQ_SET_SIZE :: u32 where [simp]: "FSREQ_SET_SIZE = 2"
definition FSREQ_CLOSE :: u32 where [simp]: "FSREQ_CLOSE = 3"
definition FSREQ_DIRTY :: u32 where [simp]: "FSREQ_DIRTY = 4"
definition FSREQ_REMOVE :: u32 where [simp]: "FSREQ_REMOVE = 5"
definition FSREQ_SYNC :: u32 where [simp]: "FSREQ_SYNC = 6"
definition MAX_FSREQNO :: u32 where [simp]: "MAX_FSREQNO = 7"

definition devfile_id :: u32 where [simp]: "devfile_id = 102"

text \<open>The offsets of the further fields of \<^verbatim>\<open>struct Filefd\<close> and of the requests.\<close>

definition f_fileid :: u32 where [simp]: "f_fileid = 12"
definition f_file :: u32 where [simp]: "f_file = 16"
definition req_path :: u32 where [simp]: "req_path = 0"
definition req_omode :: u32 where [simp]: "req_omode = 1024"
definition req_fileid :: u32 where [simp]: "req_fileid = 0"
definition req_offset :: u32 where [simp]: "req_offset = 4"
definition req_size :: u32 where [simp]: "req_size = 4"

section \<open>Messages and sharing\<close>

definition with_fs :: "(fs \<Rightarrow> fs option) \<Rightarrow> srv \<Rightarrow> srv option" where
  "with_fs f s = do { m \<leftarrow> f (sfs s); Some (s\<lparr>sfs := m\<rparr>) }"

text \<open>The effect of a message that is taken.\<close>

definition delivered :: "u32 \<Rightarrow> int \<Rightarrow> u32 \<Rightarrow> u32 \<Rightarrow> srv \<Rightarrow> srv" where
  "delivered whom val srcva perm s =
     s\<lparr>replies := replies s @ [(whom, word_of_int val, srcva, perm)],
       holders := (if srcva = 0 then holders s
                   else (holders s)(VPN srcva := holders s (VPN srcva) + 1))\<rparr>"

text \<open>
  \<^verbatim>\<open>ipc_send\<close> of \<^verbatim>\<open>user/lib/ipc.c\<close>: it tries again, yielding, while the receiver does not receive, and its
  assertion fails on any other error. \<^term>\<open>None\<close> when it fails, or when the receiver never receives.
\<close>

fun send_tries :: "int list \<Rightarrow> int list option" where
  "send_tries [] = None"
| "send_tries (r # rs) =
     (if r = - E_IPC_NOT_RECV then send_tries rs
      else do { _ \<leftarrow> kassert (r = 0); Some rs })"

definition ipc_send :: "u32 \<Rightarrow> int \<Rightarrow> u32 \<Rightarrow> u32 \<Rightarrow> srv \<Rightarrow> srv option" where
  "ipc_send whom val srcva perm s = do {
     rs \<leftarrow> send_tries (tries s);
     Some (delivered whom val srcva perm (s\<lparr>tries := rs\<rparr>)) }"

definition pageref :: "u32 \<Rightarrow> srv \<Rightarrow> nat" where
  "pageref v s = (if fmapped (sfs s) (VPN v) then 1 + holders s (VPN v) else 0)"

definition srv_mem_alloc :: "u32 \<Rightarrow> srv \<Rightarrow> int \<times> srv" where
  "srv_mem_alloc va s =
     (let (r, m) = fs_mem_alloc va (sfs s) in
      if r \<noteq> 0 then (r, s)
      else (r, s\<lparr>sfs := m, holders := (holders s)(VPN va := 0)\<rparr>))"

section \<open>The table of open files\<close>

definition serve_init :: "srv \<Rightarrow> srv" where
  "serve_init s =
     s\<lparr>opentab := (\<lambda>i. if i < MAXOPEN
         then (opentab s i)\<lparr>o_fileid := word_of_nat i,
                            o_ff := FILEVA + word_of_nat i * BLOCK_SIZE\<rparr>
         else opentab s i)\<rparr>"

text \<open>\<^verbatim>\<open>memset(opentab[i].o_ff, 0, BLOCK_SIZE)\<close>: the whole page.\<close>

definition clear_page :: "u32 \<Rightarrow> srv \<Rightarrow> srv option" where
  "clear_page va s = do {
     _ \<leftarrow> kassert (fmapped (sfs s) (VPN va));
     (_, m) \<leftarrow> memset byte_ops va 0 BLOCK_SIZE (fmem (sfs s));
     Some (s\<lparr>sfs := (sfs s)\<lparr>fmem := m\<rparr>\<rparr>) }"

text \<open>The result and \<^verbatim>\<open>*o\<close>, the index of the entry.\<close>

fun open_alloc_from :: "nat list \<Rightarrow> srv \<Rightarrow> (int \<times> nat \<times> srv) option" where
  "open_alloc_from [] s = Some (- E_MAX_OPEN, 0, s)"
| "open_alloc_from (i # is) s =
     (let o_f = opentab s i; refs = pageref (o_ff o_f) s in
      if refs = 0 then
        let (r, s) = srv_mem_alloc (o_ff o_f) s in
        if r < 0 then Some (r, 0, s)
        else do { s \<leftarrow> clear_page (o_ff o_f) s; Some (uint (o_fileid o_f), i, s) }
      else if refs = 1 then
        do { s \<leftarrow> clear_page (o_ff o_f) s; Some (uint (o_fileid o_f), i, s) }
      else open_alloc_from is s)"

definition open_alloc :: "srv \<Rightarrow> (int \<times> nat \<times> srv) option" where
  "open_alloc s = open_alloc_from [0..<MAXOPEN] s"

text \<open>The first argument is the envid of the request, which the code does not look at.\<close>

definition open_lookup :: "u32 \<Rightarrow> u32 \<Rightarrow> srv \<Rightarrow> int \<times> nat" where
  "open_lookup envid fileid s =
     (if fileid \<ge> word_of_nat MAXOPEN then (- E_INVAL, 0)
      else if pageref (o_ff (opentab s (unat fileid))) s \<le> 1 then (- E_INVAL, 0)
      else (0, unat fileid))"

section \<open>Requests\<close>

text \<open>The string at \<open>a\<close>, which ends in the page it begins in.\<close>

definition path_at :: "u32 \<Rightarrow> fs \<Rightarrow> u8 list option" where
  "path_at a s = do {
     _ \<leftarrow> kassert (fmapped s (VPN a));
     let bs = map (\<lambda>i. fmem s (a + word_of_nat i)) [0..<unat (BLOCK_SIZE - a mod BLOCK_SIZE)];
     _ \<leftarrow> kassert (0 \<in> set bs);
     Some (takeWhile (\<lambda>c. c \<noteq> 0) bs) }"

text \<open>\<^verbatim>\<open>ff->f_file = *f\<close>.\<close>

definition copy_file :: "u32 \<Rightarrow> u32 \<Rightarrow> fs \<Rightarrow> fs option" where
  "copy_file dst src s = do {
     _ \<leftarrow> kassert (fmapped s (VPN dst) \<and> fmapped s (VPN src));
     Some (s\<lparr>fmem := (\<lambda>a. if a - dst < FILE_STRUCT_SIZE then fmem s (src + (a - dst))
                           else fmem s a)\<rparr>) }"

definition serve_open :: "u32 \<Rightarrow> u32 \<Rightarrow> srv \<Rightarrow> srv option" where
  "serve_open envid rq s = do {
     (r, o_i, s) \<leftarrow> open_alloc s;
     if r < 0 then ipc_send envid r 0 0 s
     else do {
       omode \<leftarrow> ldw (rq + req_omode) (sfs s);
       path \<leftarrow> path_at (rq + req_path) (sfs s);
       (r, m) \<leftarrow> (if omode AND O_CREAT \<noteq> 0
                  then do { (r, _, m) \<leftarrow> file_create path (sfs s); Some (r, m) }
                  else Some (0, sfs s));
       let s = s\<lparr>sfs := m\<rparr>;
       if r < 0 \<and> r \<noteq> - E_FILE_EXISTS then ipc_send envid r 0 0 s
       else do {
         (r, f, m) \<leftarrow> file_open path (sfs s);
         let s = s\<lparr>sfs := m\<rparr>;
         if r < 0 then ipc_send envid r 0 0 s
         else do {
           let s = s\<lparr>opentab := (opentab s)(o_i := (opentab s o_i)\<lparr>o_file := f\<rparr>)\<rparr>;
           s \<leftarrow> (if omode AND O_TRUNC \<noteq> 0
                then do {
                  (r, m) \<leftarrow> file_set_size f 0 (sfs s);
                  let s = s\<lparr>sfs := m\<rparr>;
                  if r < 0 then ipc_send envid r 0 0 s else Some s }
                else Some s);
           let ff = o_ff (opentab s o_i);
           s \<leftarrow> with_fs (copy_file (ff + f_file) f) s;
           s \<leftarrow> with_fs (stw (ff + f_fileid) (o_fileid (opentab s o_i))) s;
           let s = s\<lparr>opentab := (opentab s)(o_i := (opentab s o_i)\<lparr>o_mode := omode\<rparr>)\<rparr>;
           s \<leftarrow> with_fs (stw (ff + fd_omode) (o_mode (opentab s o_i))) s;
           s \<leftarrow> with_fs (stw (ff + fd_dev_id) devfile_id) s;
           ipc_send envid 0 ff (PTE_D OR PTE_LIBRARY) s } } } }"

definition serve_map :: "u32 \<Rightarrow> u32 \<Rightarrow> srv \<Rightarrow> srv option" where
  "serve_map envid rq s = do {
     fileid \<leftarrow> ldw (rq + req_fileid) (sfs s);
     let (r, p) = open_lookup envid fileid s;
     if r < 0 then ipc_send envid r 0 0 s
     else do {
       off \<leftarrow> ldw (rq + req_offset) (sfs s);
       (r, blk, m) \<leftarrow> file_get_block (o_file (opentab s p)) (off div BLOCK_SIZE) (sfs s);
       let s = s\<lparr>sfs := m\<rparr>;
       if r < 0 then ipc_send envid r 0 0 s
       else ipc_send envid 0 blk (PTE_D OR PTE_LIBRARY) s } }"

definition serve_set_size :: "u32 \<Rightarrow> u32 \<Rightarrow> srv \<Rightarrow> srv option" where
  "serve_set_size envid rq s = do {
     fileid \<leftarrow> ldw (rq + req_fileid) (sfs s);
     let (r, p) = open_lookup envid fileid s;
     if r < 0 then ipc_send envid r 0 0 s
     else do {
       sz \<leftarrow> ldw (rq + req_size) (sfs s);
       (r, m) \<leftarrow> file_set_size (o_file (opentab s p)) sz (sfs s);
       let s = s\<lparr>sfs := m\<rparr>;
       if r < 0 then ipc_send envid r 0 0 s else ipc_send envid 0 0 0 s } }"

definition serve_close :: "u32 \<Rightarrow> u32 \<Rightarrow> srv \<Rightarrow> srv option" where
  "serve_close envid rq s = do {
     fileid \<leftarrow> ldw (rq + req_fileid) (sfs s);
     let (r, p) = open_lookup envid fileid s;
     if r < 0 then ipc_send envid r 0 0 s
     else do {
       s \<leftarrow> with_fs (file_close (o_file (opentab s p))) s;
       ipc_send envid 0 0 0 s } }"

definition serve_remove :: "u32 \<Rightarrow> u32 \<Rightarrow> srv \<Rightarrow> srv option" where
  "serve_remove envid rq s = do {
     path \<leftarrow> path_at (rq + req_path) (sfs s);
     (r, m) \<leftarrow> file_remove path (sfs s);
     ipc_send envid r 0 0 (s\<lparr>sfs := m\<rparr>) }"

definition serve_dirty :: "u32 \<Rightarrow> u32 \<Rightarrow> srv \<Rightarrow> srv option" where
  "serve_dirty envid rq s = do {
     fileid \<leftarrow> ldw (rq + req_fileid) (sfs s);
     let (r, p) = open_lookup envid fileid s;
     if r < 0 then ipc_send envid r 0 0 s
     else do {
       off \<leftarrow> ldw (rq + req_offset) (sfs s);
       (r, m) \<leftarrow> file_dirty (o_file (opentab s p)) off (sfs s);
       let s = s\<lparr>sfs := m\<rparr>;
       if r < 0 then ipc_send envid r 0 0 s else ipc_send envid 0 0 0 s } }"

definition serve_sync :: "u32 \<Rightarrow> u32 \<Rightarrow> srv \<Rightarrow> srv option" where
  "serve_sync envid rq s = do { s \<leftarrow> with_fs fs_sync s; ipc_send envid 0 0 0 s }"

definition serve_table :: "u32 \<Rightarrow> u32 \<Rightarrow> u32 \<Rightarrow> srv \<Rightarrow> srv option" where
  "serve_table req =
     (if req = FSREQ_OPEN then serve_open
      else if req = FSREQ_MAP then serve_map
      else if req = FSREQ_SET_SIZE then serve_set_size
      else if req = FSREQ_CLOSE then serve_close
      else if req = FSREQ_DIRTY then serve_dirty
      else if req = FSREQ_REMOVE then serve_remove
      else serve_sync)"

section \<open>The loop\<close>

text \<open>
  What \<^verbatim>\<open>ipc_recv\<close> gives the server: the value, the sender, the permissions, and the contents of
  the page it now has at \<^verbatim>\<open>REQVA\<close>.
\<close>

record request =
  rq_val :: u32
  rq_whom :: u32
  rq_perm :: u32
  rq_page :: "(nat \<Rightarrow> u8) option"

definition recv_page :: "request \<Rightarrow> srv \<Rightarrow> srv" where
  "recv_page rq s =
     (case rq_page rq of
        None \<Rightarrow> s
      | Some pg \<Rightarrow>
          s\<lparr>sfs := (sfs s)\<lparr>
              fmem := (\<lambda>a. if VPN a = VPN REQVA then pg (unat (a - REQVA)) else fmem (sfs s) a),
              fmapped := (fmapped (sfs s))(VPN REQVA := True)\<rparr>\<rparr>)"

definition unmap_request :: "srv \<Rightarrow> srv option" where
  "unmap_request s = do {
     let (r, m) = fs_mem_unmap REQVA (sfs s);
     _ \<leftarrow> panic_on (r \<noteq> 0);
     Some (s\<lparr>sfs := m\<rparr>) }"

text \<open>One round of \<^verbatim>\<open>for (;;)\<close> in \<^verbatim>\<open>serve\<close>.\<close>

definition serve_one :: "request \<Rightarrow> srv \<Rightarrow> srv option" where
  "serve_one rq s =
     (let s = recv_page rq s in
      if rq_perm rq AND (PTE_V OR PTE_SWAPPED) = 0 then Some s
      else if rq_val rq \<ge> MAX_FSREQNO then unmap_request s
      else do {
        s \<leftarrow> serve_table (rq_val rq) (rq_whom rq) REQVA s;
        unmap_request s })"

definition serve :: "request list \<Rightarrow> srv \<Rightarrow> srv option" where
  "serve rqs s = foldM serve_one rqs s"

definition serv_main :: "srv \<Rightarrow> srv option" where
  "serv_main s = with_fs fs_init (serve_init s)"

text \<open>
  The server as the other processes see it: between two requests they map its pages once more
  (duplicating a descriptor, forking) and unmap them (closing it, exiting), and they begin to wait for
  replies or end.
\<close>

inductive srv_step :: "srv \<Rightarrow> srv \<Rightarrow> bool" where
  request: "serve_one rq s = Some t \<Longrightarrow> srv_step s t"
| share: "holders s p > 0 \<Longrightarrow> srv_step s (s\<lparr>holders := (holders s)(p := holders s p + 1)\<rparr>)"
| drop_page: "holders s p > 0 \<Longrightarrow> srv_step s (s\<lparr>holders := (holders s)(p := holders s p - 1)\<rparr>)"
| receivers: "srv_step s (s\<lparr>tries := rs\<rparr>)"

inductive srv_reachable :: "srv \<Rightarrow> bool" where
  start: "serv_main s = Some t \<Longrightarrow> srv_reachable t"
| step: "srv_reachable s \<Longrightarrow> srv_step s t \<Longrightarrow> srv_reachable t"

end
