(* ===== verification/Blocks.thy ===== *)
theory Blocks
  imports Fs
begin

text \<open>
  What \<^verbatim>\<open>fs/fs.c\<close> promises about blocks: the bitmap is an allocator (an instance of the interface
  \<open>slot_allocator\<close>), the cache gives back what was written, and mounting sets both up. A block of
  a disk of at most 1 GB has a page of its own at \<^verbatim>\<open>DISKMAP\<close>, so stores to one block never show in
  another.
\<close>

section \<open>Addresses in the cache\<close>

lemma disk_addr_unat: "b < 0x40000 \<Longrightarrow> unat (disk_addr (word_of_nat b)) = 0x10000000 + 4096 * b"
proof -
  assume b: "b < 0x40000"
  have "disk_addr (word_of_nat b) = word_of_nat (0x10000000 + 4096 * b)"
    by (simp add: disk_addr_def)
  then show ?thesis using b by (simp add: unat_of_nat del: of_nat_add of_nat_mult)
qed

lemma VPN_disk_addr: "b < 0x40000 \<Longrightarrow> VPN (disk_addr (word_of_nat b)) = 0x10000 + b"
  by (simp add: VPN_div disk_addr_unat)

lemma disk_addr_neq0: "b < 0x40000 \<Longrightarrow> disk_addr (word_of_nat b) \<noteq> 0"
  using disk_addr_unat [of b] by (auto simp del: unat_0_iff)

definition block_byte :: "nat \<Rightarrow> nat \<Rightarrow> u32" where
  "block_byte b i = disk_addr (word_of_nat b) + word_of_nat i"

lemma block_byte_unat:
  "b < 0x40000 \<Longrightarrow> i < 4096 \<Longrightarrow> unat (block_byte b i) = 0x10000000 + 4096 * b + i"
proof -
  assume b: "b < 0x40000" "i < 4096"
  have "block_byte b i = word_of_nat (0x10000000 + 4096 * b + i)"
    by (simp add: block_byte_def disk_addr_def)
  then show ?thesis using b by (simp add: unat_of_nat del: of_nat_add of_nat_mult)
qed

lemma VPN_block_byte: "b < 0x40000 \<Longrightarrow> i < 4096 \<Longrightarrow> VPN (block_byte b i) = 0x10000 + b"
  by (simp add: VPN_div block_byte_unat)

section \<open>A mounted file system\<close>

definition nblocks :: "fs \<Rightarrow> nat" where
  "nblocks s = unat (rd32 (fmem s) (super_p s + s_nblocks))"

definition bmap :: "fs \<Rightarrow> nat \<Rightarrow> u32" where
  "bmap s i = rd32 (fmem s) (bitmap_p s + 4 * word_of_nat i)"

text \<open>Taken: outside the disk, or its bit is clear.\<close>

definition taken :: "fs \<Rightarrow> nat \<Rightarrow> bool" where
  "taken s b \<longleftrightarrow> nblocks s \<le> b \<or> \<not> bm_bit (bmap s) b"

definition cached :: "fs \<Rightarrow> nat \<Rightarrow> bool" where
  "cached s b \<longleftrightarrow> fmapped s (0x10000 + b)"

text \<open>Super block and bitmap are in the cache, where the pointers say.\<close>

definition mounted :: "fs \<Rightarrow> bool" where
  "mounted s \<longleftrightarrow> super_p s = disk_addr 1 \<and> bitmap_p s = disk_addr 2 \<and> nblocks s \<le> 0x40000 \<and>
     cached s 1 \<and> (\<forall>i \<le> nblocks s div 32768. cached s (2 + i))"

lemma super_addr: "disk_addr 1 = 0x10001000" "disk_addr 2 = 0x10002000"
  by (simp_all add: disk_addr_def)

lemma bit_word_unat: "i < 8192 \<Longrightarrow> unat (disk_addr 2 + 4 * word_of_nat i) = 0x10002000 + 4 * i"
proof -
  assume "i < 8192"
  moreover have "disk_addr 2 + 4 * word_of_nat i = word_of_nat (0x10002000 + 4 * i)"
    by (simp add: disk_addr_def)
  ultimately show ?thesis by (simp add: unat_of_nat del: of_nat_add of_nat_mult)
qed

lemma mounted_super:
  assumes "mounted s"
  shows "ldw (super_p s + 4) s = Some (word_of_nat (nblocks s))" "super_p s \<noteq> 0" "bitmap_p s \<noteq> 0"
  using assms by (simp_all add: mounted_def ldw_def super_addr VPN_div cached_def nblocks_def)

lemma mounted_bit:
  assumes "mounted s" "b < nblocks s"
  shows "ldw (bitmap_p s + 4 * word_of_nat (b div 32)) s = Some (bmap s (b div 32))"
    "stw (bitmap_p s + 4 * word_of_nat (b div 32)) w s =
       Some (s\<lparr>fmem := wr32 (disk_addr 2 + 4 * word_of_nat (b div 32)) w (fmem s)\<rparr>)"
proof -
  have l: "b div 32 < 8192" and q: "b div 32768 \<le> nblocks s div 32768"
    using assms by (auto simp: mounted_def div_le_mono)
  have "(0x10002000 + 4 * x) div 4096 = 0x10002 + x div 1024" for x :: nat
    using div_mult_self3 [of 1024 65538 x] div_mult_mult1 [of 4 "67110912 + x" 1024] by simp
  then have "VPN (disk_addr 2 + 4 * word_of_nat (b div 32)) = 0x10000 + (2 + b div 32768)"
    unfolding VPN_div bit_word_unat [OF l] by (simp add: div_mult2_eq [symmetric])
  moreover have "cached s (2 + b div 32768)" using assms q by (simp add: mounted_def)
  ultimately have "fmapped s (VPN (disk_addr 2 + 4 * word_of_nat (b div 32)))"
    by (simp add: cached_def)
  then show "ldw (bitmap_p s + 4 * word_of_nat (b div 32)) s = Some (bmap s (b div 32))"
    "stw (bitmap_p s + 4 * word_of_nat (b div 32)) w s =
       Some (s\<lparr>fmem := wr32 (disk_addr 2 + 4 * word_of_nat (b div 32)) w (fmem s)\<rparr>)"
    using assms by (simp_all add: ldw_def stw_def bmap_def mounted_def)
qed

lemma apart_unat:
  assumes "unat a + 4 \<le> unat b" "unat b + 4 \<le> 2 ^ 32"
  shows "4 \<le> b - a" "4 \<le> a - (b :: u32)"
proof -
  have "unat (b - a) = unat b - unat a" "unat (a - b) = unat a + 2 ^ 32 - unat b"
    using assms by (simp_all add: unat_sub_if_size word_size)
  then show "4 \<le> b - a" "4 \<le> a - b" using assms by (simp_all add: word_le_nat_alt)
qed

lemma rd32_wr32_apart:
  assumes "unat a + 4 \<le> unat b \<or> unat b + 4 \<le> unat a" "unat a + 4 \<le> 2 ^ 32" "unat b + 4 \<le> 2 ^ 32"
  shows "rd32 (wr32 a w m) b = rd32 m b"
  using assms apart_unat [of a b] apart_unat [of b a] by (auto intro!: rd32_wr32_other)

text \<open>What a store to the bitmap does.\<close>

lemma bitmap_store:
  assumes "mounted s" "i < 8192"
    "t = s\<lparr>fmem := wr32 (disk_addr 2 + 4 * word_of_nat i) w (fmem s)\<rparr>"
  shows "nblocks t = nblocks s" "\<And>j. j < 8192 \<Longrightarrow> bmap t j = ((bmap s)(i := w)) j" "mounted t"
proof -
  have s: "super_p s = disk_addr 1" "bitmap_p s = disk_addr 2" using assms by (auto simp: mounted_def)
  have u: "unat (disk_addr 1 + 4) = 0x10001004" by (simp add: super_addr)
  show n: "nblocks t = nblocks s"
    using assms(2) bit_word_unat [OF assms(2)] u
    by (simp add: nblocks_def assms(3) s rd32_wr32_apart)
  show "bmap t j = ((bmap s)(i := w)) j" if j: "j < 8192" for j
  proof (cases "j = i")
    case False
    then have "i < j \<or> j < i" by auto
    then show ?thesis
      using bit_word_unat [OF assms(2)] bit_word_unat [OF j] False assms(2) j
      by (auto simp: bmap_def assms(3) s intro!: rd32_wr32_apart)
  qed (simp add: bmap_def assms(3) s)
  show "mounted t" using assms(1) n by (simp add: mounted_def assms(3) cached_def)
qed


section \<open>Allocating and freeing a block\<close>

lemma alloc_scan_scan:
  "mounted s \<Longrightarrow> n \<le> nblocks s \<Longrightarrow> alloc_scan b n s = Some (scan (bm_bit (bmap s)) b n)"
proof (induction b n s rule: alloc_scan.induct)
  case (1 b n s)
  show ?case
  proof (cases "b < n")
    case True
    then have "ldw (bitmap_p s + 4 * word_of_nat (b div 32)) s = Some (bmap s (b div 32))"
      using mounted_bit(1) "1.prems" by auto
    then show ?thesis
      using "1.IH" "1.prems" True bm_test [of "bmap s" b]
      by (simp add: alloc_scan.simps [of b n s] scan.simps [of _ b n] del: push_bit_of_1)
  qed (simp add: alloc_scan.simps [of b n s] scan.simps [of _ b n])
qed

lemma mounted_disk: "mounted (s\<lparr>fdisk := d\<rparr>) = mounted s" "nblocks (s\<lparr>fdisk := d\<rparr>) = nblocks s"
  "bmap (s\<lparr>fdisk := d\<rparr>) = bmap s" "taken (s\<lparr>fdisk := d\<rparr>) = taken s"
proof -
  show b: "bmap (s\<lparr>fdisk := d\<rparr>) = bmap s" by (simp add: fun_eq_iff bmap_def)
  show "mounted (s\<lparr>fdisk := d\<rparr>) = mounted s" "nblocks (s\<lparr>fdisk := d\<rparr>) = nblocks s"
    "taken (s\<lparr>fdisk := d\<rparr>) = taken s"
    by (simp_all add: fun_eq_iff mounted_def nblocks_def cached_def taken_def b)
qed

text \<open>The word of the bitmap that holds bit \<open>b\<close>, changed.\<close>

definition set_bm :: "nat \<Rightarrow> (u32 \<Rightarrow> u32) \<Rightarrow> fs \<Rightarrow> fs" where
  "set_bm b f s = s\<lparr>fmem := wr32 (disk_addr 2 + 4 * word_of_nat (b div 32)) (f (bmap s (b div 32))) (fmem s)\<rparr>"

lemma bm_bit_cong: "b < 0x40000 \<Longrightarrow> (\<And>j. j < 8192 \<Longrightarrow> m j = m' j) \<Longrightarrow> bm_bit m b = bm_bit m' b"
  by (simp add: bm_bit_def)

lemma set_bm_taken:
  assumes "mounted s" "b < nblocks s"
  shows "mounted (set_bm b f s)" "nblocks (set_bm b f s) = nblocks s"
    "taken (set_bm b (\<lambda>w. w AND NOT (push_bit (b mod 32) 1)) s) j \<longleftrightarrow> j = b \<or> taken s j"
    "taken (set_bm b (\<lambda>w. w OR push_bit (b mod 32) 1) s) j \<longleftrightarrow> j \<noteq> b \<and> taken s j"
proof -
  have b: "b < 0x40000" "b div 32 < 8192" using assms by (auto simp: mounted_def)
  note st = bitmap_store [OF assms(1) b(2) set_bm_def]
  show "mounted (set_bm b f s)" and n: "nblocks (set_bm b f s) = nblocks s" for f
    by (rule st)+
  have bit: "bm_bit (bmap (set_bm b f s)) j = bm_bit ((bmap s)(b div 32 := f (bmap s (b div 32)))) j"
    if "j < nblocks s" for f j
  proof (intro bm_bit_cong)
    show "j < 0x40000" using that assms(1) by (simp add: mounted_def)
  qed (rule st(2))
  show "taken (set_bm b (\<lambda>w. w AND NOT (push_bit (b mod 32) 1)) s) j \<longleftrightarrow> j = b \<or> taken s j"
    "taken (set_bm b (\<lambda>w. w OR push_bit (b mod 32) 1) s) j \<longleftrightarrow> j \<noteq> b \<and> taken s j"
    using assms(2) by (auto simp: taken_def n bit bm_bit_or bm_bit_and_not simp del: push_bit_of_1)
qed

definition to_disk :: "nat \<Rightarrow> fs \<Rightarrow> fs" where
  "to_disk b s = s\<lparr>fdisk := (fdisk (ide_write (word_of_nat b * SECT2BLK) (disk_addr (word_of_nat b)) SECT2BLK s))\<rparr>"

lemma write_block_cached:
  assumes "b < 0x40000" "cached s b"
  shows "write_block (word_of_nat b) s = Some (to_disk b s)"
  using assms disk_addr_neq0 [OF assms(1)] VPN_disk_addr [OF assms(1)]
  by (simp add: write_block_def block_is_mapped_def Let_def va_is_mapped_def cached_def to_disk_def ide_write_def)

lemma alloc_block_num_eq:
  assumes "mounted s"
  shows "alloc_block_num s = Some
    (case scan (bm_bit (bmap s)) 3 (nblocks s) of
       None \<Rightarrow> (- E_NO_DISK, s)
     | Some b \<Rightarrow> (int b, to_disk (2 + b div 32768) (set_bm b (\<lambda>w. w AND NOT (push_bit (b mod 32) 1)) s)))"
proof (cases "scan (bm_bit (bmap s)) 3 (nblocks s)")
  case None
  then show ?thesis
    using assms mounted_super [OF assms]
    by (simp add: alloc_block_num_def alloc_scan_scan nblocks_def)
next
  case (Some b)
  then have b: "b < nblocks s" using scan_Some by fastforce
  then have l: "b < 0x40000" using assms by (simp add: mounted_def)
  let ?t = "set_bm b (\<lambda>w. w AND NOT (push_bit (b mod 32) 1)) s"
  have m: "mounted ?t" "nblocks ?t = nblocks s" using set_bm_taken [OF assms b] by blast+
  have e: "(word_of_nat b :: u32) div BLOCK_SIZE_BIT + 2 = word_of_nat (2 + b div 32768)"
    using l by (simp add: word_unat_eq_iff unat_div unat_of_nat unat_word_ariths)
  have "b div 32768 \<le> nblocks ?t div 32768" using b m(2) by (simp add: div_le_mono)
  then have "cached ?t (2 + b div 32768)" using m(1) unfolding mounted_def by blast
  moreover have "2 + b div 32768 < 0x40000" using l by simp
  ultimately have w: "write_block (word_of_nat (2 + b div 32768)) ?t = Some (to_disk (2 + b div 32768) ?t)"
    by (intro write_block_cached)
  have sc: "alloc_scan 3 (unat (word_of_nat (nblocks s) :: u32)) s = Some (Some b)"
    using alloc_scan_scan [OF assms order_refl] Some by (simp add: nblocks_def)
  show ?thesis
    unfolding alloc_block_num_def s_nblocks_def mounted_super [OF assms] bind.bind_lunit sc option.case Let_def
      mounted_bit [OF assms b] e Some
    using w assms by (simp add: set_bm_def mounted_def bmap_def)
qed


section \<open>Disk and cache\<close>

definition disk_byte :: "fs \<Rightarrow> nat \<Rightarrow> nat \<Rightarrow> u8" where
  "disk_byte s b i = fdisk s (8 * b + i div 512) (i mod 512)"

definition cache_byte :: "fs \<Rightarrow> nat \<Rightarrow> nat \<Rightarrow> u8" where
  "cache_byte s b i = fmem s (block_byte b i)"

text \<open>The contents of a block as the file system sees it.\<close>

definition view :: "fs \<Rightarrow> nat \<Rightarrow> nat \<Rightarrow> u8" where
  "view s b i = (if cached s b then cache_byte s b i else disk_byte s b i)"

lemma sector_unat: "b < 0x40000 \<Longrightarrow> unat (word_of_nat b * 8 :: u32) = 8 * b"
proof -
  assume "b < 0x40000"
  moreover have "(word_of_nat b * 8 :: u32) = word_of_nat (8 * b)" by simp
  ultimately show ?thesis by (simp add: unat_of_nat del: of_nat_mult)
qed

lemma disk_byte_to_disk:
  assumes "b < 0x40000" "i < 4096"
  shows "disk_byte (to_disk b s) b' i = (if b' = b then cache_byte s b i else disk_byte s b' i)"
proof -
  have d: "i div 512 < 8" using assms(2) by auto
  have "8 * b \<le> 8 * b' + i div 512 \<and> 8 * b' + i div 512 < 8 * b + 8 \<longleftrightarrow> b' = b"
    using d by auto
  then show ?thesis
    using assms sector_unat [OF assms(1)]
    by (simp add: disk_byte_def to_disk_def ide_write_def cache_byte_def block_byte_def)
qed

lemma block_offset:
  assumes "b < 0x40000" "b' < 0x40000" "i < 4096"
  shows "unat (block_byte b' i - disk_addr (word_of_nat b)) < 4096 \<longleftrightarrow> b' = b"
    "unat (block_byte b i - disk_addr (word_of_nat b)) = i"
proof -
  show off: "unat (block_byte b i - disk_addr (word_of_nat b)) = i"
    using assms by (simp add: block_byte_def unat_of_nat)
  show "unat (block_byte b' i - disk_addr (word_of_nat b)) < 4096 \<longleftrightarrow> b' = b"
  proof
    define k where "k = unat (block_byte b' i - disk_addr (word_of_nat b))"
    assume "unat (block_byte b' i - disk_addr (word_of_nat b)) < 4096"
    then have "k < 4096" by (simp add: k_def)
    moreover have "block_byte b' i = block_byte b k" by (simp add: k_def block_byte_def)
    ultimately have "4096 * b' + i = 4096 * b + k"
      using block_byte_unat [of b k] block_byte_unat [of b' i] assms by simp
    then show "b' = b" using \<open>k < 4096\<close> assms(3) by linarith
  qed (use off assms in simp)
qed

lemma page_of_block:
  "b < 0x40000 \<Longrightarrow> b' < 0x40000 \<Longrightarrow> i < 4096 \<Longrightarrow>
     VPN (block_byte b' i) = VPN (disk_addr (word_of_nat b)) \<longleftrightarrow> b' = b"
  by (simp add: VPN_block_byte VPN_disk_addr)

text \<open>A block brought in from the disk, and one dropped from the cache.\<close>

definition load :: "nat \<Rightarrow> fs \<Rightarrow> fs" where
  "load b s = ide_read (word_of_nat b * SECT2BLK) (disk_addr (word_of_nat b)) SECT2BLK
     (snd (fs_mem_alloc (disk_addr (word_of_nat b)) s))"

definition drop_block :: "nat \<Rightarrow> fs \<Rightarrow> fs" where
  "drop_block b s = snd (fs_mem_unmap (disk_addr (word_of_nat b)) s)"

lemma legal_disk_addr: "b < 0x40000 \<Longrightarrow> \<not> is_illegal_va (disk_addr (word_of_nat b))"
  using disk_addr_unat [of b] by (simp add: is_illegal_va_def word_less_nat_alt word_le_nat_alt)

lemma load_simps:
  assumes "b < 0x40000" "b' < 0x40000" "i < 4096"
  shows "cache_byte (load b s) b' i = (if b' = b then disk_byte s b i else cache_byte s b' i)"
    "cached (load b s) b' \<longleftrightarrow> b' = b \<or> cached s b'"
    "disk_byte (load b s) = disk_byte s" "super_p (load b s) = super_p s" "bitmap_p (load b s) = bitmap_p s"
  using assms block_offset [OF assms] page_of_block [OF assms] sector_unat [OF assms(1)]
    legal_disk_addr [OF assms(1)] VPN_disk_addr [OF assms(1)]
  by (auto simp: load_def ide_read_def fs_mem_alloc_def cache_byte_def cached_def disk_byte_def
    fun_eq_iff Let_def)

lemma drop_block_simps:
  assumes "b < 0x40000"
  shows "cached (drop_block b s) b' \<longleftrightarrow> b' \<noteq> b \<and> cached s b'"
    "cache_byte (drop_block b s) = cache_byte s" "disk_byte (drop_block b s) = disk_byte s"
    "fmem (drop_block b s) = fmem s"
    "super_p (drop_block b s) = super_p s" "bitmap_p (drop_block b s) = bitmap_p s"
  using legal_disk_addr [OF assms] VPN_disk_addr [OF assms]
  by (auto simp: drop_block_def fs_mem_unmap_def cache_byte_def cached_def disk_byte_def fun_eq_iff)

lemma block_is_mapped_cached:
  "b < 0x40000 \<Longrightarrow>
     block_is_mapped (word_of_nat b) s = (if cached s b then disk_addr (word_of_nat b) else 0)"
  by (simp add: block_is_mapped_def Let_def va_is_mapped_def cached_def VPN_disk_addr)


section \<open>The operations on a mounted file system\<close>

lemma nblocks_le: "b < 0x40000 \<Longrightarrow> mounted s \<Longrightarrow>
    (word_of_nat (nblocks s) :: u32) \<le> word_of_nat b \<longleftrightarrow> nblocks s \<le> b"
  by (simp add: mounted_def word_le_nat_alt unat_of_nat)

lemma bit_index:
  "b < 0x40000 \<Longrightarrow> (word_of_nat b :: u32) div 32 = word_of_nat (b div 32)"
  "b < 0x40000 \<Longrightarrow> unat ((word_of_nat b :: u32) mod 32) = b mod 32"
  by (simp_all add: word_unat_eq_iff unat_div unat_mod unat_of_nat)

lemma block_is_free_eq:
  assumes "mounted s" "b < 0x40000"
  shows "block_is_free (word_of_nat b) s = Some (\<not> taken s b)"
proof (cases "b < nblocks s")
  case True
  then show ?thesis
    using mounted_bit(1) [OF assms(1) True] nblocks_le [OF assms(2,1)] bm_test [of "bmap s" b]
    by (simp add: block_is_free_def mounted_super [OF assms(1)] bit_index [OF assms(2)] taken_def
      flip: not_less del: push_bit_of_1)
next
  case False
  then show ?thesis
    using nblocks_le [OF assms(2,1)]
    by (simp add: block_is_free_def mounted_super [OF assms(1)] taken_def not_le)
qed

lemma free_block_eq:
  assumes "mounted s" "b < nblocks s" "b \<noteq> 0"
  shows "free_block (word_of_nat b) s = Some (set_bm b (\<lambda>w. w OR push_bit (b mod 32) 1) s)"
proof -
  have b: "b < 0x40000" using assms by (simp add: mounted_def)
  have "(word_of_nat b :: u32) \<noteq> 0" using b assms(3) by (simp add: word_unat_eq_iff unat_of_nat)
  then show ?thesis
    using assms(2) mounted_bit [OF assms(1,2)] nblocks_le [OF b assms(1)]
    by (simp add: free_block_def mounted_super [OF assms(1)] bit_index [OF b] set_bm_def not_le
      del: push_bit_of_1)
qed

text \<open>The allocator that the two functions make, with errors as \<^term>\<open>None\<close>.\<close>

definition fs_take :: "fs \<Rightarrow> (nat \<times> fs) option" where
  "fs_take s = (case alloc_block_num s of Some (r, t) \<Rightarrow> if r < 0 then None else Some (nat r, t) | None \<Rightarrow> None)"

definition fs_release :: "nat \<Rightarrow> fs \<Rightarrow> fs" where
  "fs_release b s = (case free_block (word_of_nat b) s of Some t \<Rightarrow> t | None \<Rightarrow> s)"

lemma to_disk_mounted: "mounted (to_disk b s) = mounted s" "nblocks (to_disk b s) = nblocks s"
  "bmap (to_disk b s) = bmap s" "taken (to_disk b s) = taken s"
  by (simp_all add: to_disk_def mounted_disk)

lemma fs_take_eq:
  "mounted s \<Longrightarrow> fs_take s = (case scan (bm_bit (bmap s)) 3 (nblocks s) of
     None \<Rightarrow> None
   | Some b \<Rightarrow> Some (b, to_disk (2 + b div 32768) (set_bm b (\<lambda>w. w AND NOT (push_bit (b mod 32) 1)) s)))"
  by (auto simp: fs_take_def alloc_block_num_eq split: option.split)

interpretation blocks: slot_allocator mounted taken 3 nblocks fs_take fs_release
proof
  fix s i t assume s: "mounted s" and "fs_take s = Some (i, t)"
  then have "scan (bm_bit (bmap s)) 3 (nblocks s) = Some i"
    and t: "t = to_disk (2 + i div 32768) (set_bm i (\<lambda>w. w AND NOT (push_bit (i mod 32) 1)) s)"
    by (auto simp: fs_take_eq split: option.splits)
  then have sc: "3 \<le> i" "i < nblocks s" "bm_bit (bmap s) i" "\<forall>j. 3 \<le> j \<and> j < i \<longrightarrow> \<not> bm_bit (bmap s) j"
    using scan_Some [of _ 3 _ i] by blast+
  then show "3 \<le> i \<and> i < nblocks s \<and> \<not> taken s i \<and> (\<forall>j. 3 \<le> j \<and> j < i \<longrightarrow> taken s j) \<and>
      mounted t \<and> nblocks t = nblocks s \<and> (\<forall>j. taken t j = (j = i \<or> taken s j))"
    unfolding t using set_bm_taken [OF s sc(2)] by (auto simp: to_disk_mounted taken_def simp del: push_bit_of_1)
next
  fix s assume s: "mounted s"
  show "(fs_take s = None) = (\<forall>j. 3 \<le> j \<and> j < nblocks s \<longrightarrow> taken s j)"
    using scan_None [of "bm_bit (bmap s)" 3 "nblocks s"]
    by (auto simp: fs_take_eq [OF s] taken_def split: option.splits)
next
  fix s i assume "mounted s" "3 \<le> i" "i < nblocks s"
  then show "mounted (fs_release i s) \<and> nblocks (fs_release i s) = nblocks s \<and>
      (\<forall>j. taken (fs_release i s) j = (j \<noteq> i \<and> taken s j))"
    using set_bm_taken [of s i] by (simp add: fs_release_def free_block_eq)
qed

lemma read_block_eq:
  assumes "mounted s" "b < nblocks s" "taken s b"
  shows "read_block (word_of_nat b) s =
    Some (0, disk_addr (word_of_nat b), \<not> cached s b, if cached s b then s else load b s)"
proof -
  have b: "b < 0x40000" using assms by (simp add: mounted_def)
  have "fs_mem_alloc (disk_addr (word_of_nat b)) s = (0, snd (fs_mem_alloc (disk_addr (word_of_nat b)) s))"
    using legal_disk_addr [OF b] by (simp add: fs_mem_alloc_def)
  then obtain u where u: "fs_mem_alloc (disk_addr (word_of_nat b)) s = (0, u)" by simp
  show ?thesis
    using assms nblocks_le [OF b assms(1)] disk_addr_neq0 [OF b]
    by (simp add: read_block_def mounted_super [OF assms(1)] block_is_free_eq [OF assms(1) b]
      block_is_mapped_cached [OF b] load_def u Let_def)
qed

lemma block_is_dirty_eq:
  "b < 0x40000 \<Longrightarrow> block_is_dirty (word_of_nat b) s \<longleftrightarrow> cached s b \<and> fdirty s (0x10000 + b)"
  by (simp add: block_is_dirty_def Let_def va_is_mapped_def va_is_dirty_def cached_def VPN_disk_addr)

lemma to_disk_cached: "cached (to_disk b s) = cached s" "cache_byte (to_disk b s) = cache_byte s"
  "fmem (to_disk b s) = fmem s" "fdirty (to_disk b s) = fdirty s"
  by (simp_all add: to_disk_def cached_def cache_byte_def fun_eq_iff)

lemma unmap_block_eq:
  assumes "mounted s" "b < 0x40000" "cached s b"
  shows "unmap_block (word_of_nat b) s =
    Some (drop_block b (if taken s b \<and> fdirty s (0x10000 + b) then to_disk b s else s))"
proof -
  let ?s = "if taken s b \<and> fdirty s (0x10000 + b) then to_disk b s else s"
  have d: "fs_mem_unmap (disk_addr (word_of_nat b)) t = (0, drop_block b t)" for t
    using legal_disk_addr [OF assms(2)] by (simp add: drop_block_def fs_mem_unmap_def)
  have "block_is_mapped (word_of_nat b) (drop_block b t) = 0" for t
    by (simp add: block_is_mapped_cached [OF assms(2)] drop_block_simps [OF assms(2)])
  then show ?thesis
    using assms disk_addr_neq0 [OF assms(2)] write_block_cached [OF assms(2,3)]
    by (simp add: unmap_block_def block_is_mapped_cached [OF assms(2)] block_is_free_eq [OF assms(1,2)]
      block_is_dirty_eq [OF assms(2)] d Let_def)
qed


section \<open>Allocating a block with its cache page\<close>

lemma wr32_unat_other:
  assumes "unat b < unat a \<or> unat a + 4 \<le> unat b" "unat a + 4 \<le> 2 ^ 32"
  shows "wr32 a w m b = m (b :: u32)"
proof (rule wr32_other)
  show "4 \<le> b - a"
    using assms by (auto simp: word_le_nat_alt unat_sub_if_size word_size)
qed

text \<open>A store to the bitmap changes no byte outside the bitmap's blocks.\<close>

lemma set_bm_bytes:
  assumes "b < 0x40000" "c < 0x40000" "c \<noteq> 2 + b div 32768" "i < 4096"
  shows "cache_byte (set_bm b f s) c i = cache_byte s c i"
proof -
  have w: "unat (disk_addr 2 + 4 * word_of_nat (b div 32)) = 0x10002000 + 4 * (b div 32)"
    using assms(1) by (intro bit_word_unat) simp
  have "4 * (b div 32) = 4096 * (b div 32768) + 4 * (b div 32 mod 1024)"
    using mult_div_mod_eq [of 1024 "b div 32"] by (simp add: div_mult2_eq [symmetric])
  moreover have "4 * (b div 32 mod 1024) \<le> 4092"
    using mod_less_divisor [of 1024 "b div 32"] by linarith
  moreover have "c < 2 + b div 32768 \<or> 3 + b div 32768 \<le> c" using assms(3) by linarith
  ultimately have "4096 * c + i < 0x2000 + 4 * (b div 32) \<or> 0x2000 + 4 * (b div 32) + 4 \<le> 4096 * c + i"
    using assms(4) by linarith
  then have "unat (block_byte c i) < unat (disk_addr 2 + 4 * word_of_nat (b div 32)) \<or>
      unat (disk_addr 2 + 4 * word_of_nat (b div 32)) + 4 \<le> unat (block_byte c i)"
    unfolding w using block_byte_unat [OF assms(2,4)] by linarith
  then show ?thesis
    using w assms(1) by (simp add: cache_byte_def set_bm_def wr32_unat_other)
qed

lemma set_bm_cached: "cached (set_bm b f s) = cached s" "disk_byte (set_bm b f s) = disk_byte s"
  by (simp_all add: set_bm_def cached_def disk_byte_def fun_eq_iff)

text \<open>A fresh page for block \<open>b\<close>.\<close>

definition new_page :: "nat \<Rightarrow> fs \<Rightarrow> fs" where
  "new_page b s = snd (fs_mem_alloc (disk_addr (word_of_nat b)) s)"

lemma new_page_facts:
  assumes "b < 0x40000"
  shows "fs_mem_alloc (disk_addr (word_of_nat b)) s = (0, new_page b s)"
    "disk_byte (new_page b s) = disk_byte s"
    "super_p (new_page b s) = super_p s" "bitmap_p (new_page b s) = bitmap_p s"
    "c < 0x40000 \<Longrightarrow> cached (new_page b s) c \<longleftrightarrow> c = b \<or> cached s c"
    "c < 0x40000 \<Longrightarrow> i < 4096 \<Longrightarrow> cache_byte (new_page b s) c i = (if c = b then 0 else cache_byte s c i)"
  using legal_disk_addr [OF assms] VPN_disk_addr [OF assms] page_of_block [OF assms, of c i]
  by (auto simp: new_page_def fs_mem_alloc_def cache_byte_def cached_def disk_byte_def fun_eq_iff)

text \<open>The words the file system reads in a block are those of its bytes.\<close>

lemma block_word_cong:
  assumes "c < 0x40000" "o' + 4 \<le> 4096" "\<And>i. i < 4096 \<Longrightarrow> cache_byte t c i = cache_byte s c i"
  shows "rd32 (fmem t) (block_byte c o') = rd32 (fmem s) (block_byte c o')"
proof (rule rd32_cong)
  fix k :: u32 assume "k < 4"
  then have "unat k < 4" by (simp add: word_less_nat_alt)
  moreover have "block_byte c o' + k = block_byte c (o' + unat k)" by (simp add: block_byte_def)
  ultimately show "fmem t (block_byte c o' + k) = fmem s (block_byte c o' + k)"
    using assms(3) [of "o' + unat k"] assms(2) by (simp add: cache_byte_def)
qed

text \<open>A change of blocks outside super block and bitmap.\<close>

lemma mounted_cong:
  assumes "mounted s" "super_p t = super_p s" "bitmap_p t = bitmap_p s"
    "\<And>c. c < 0x40000 \<Longrightarrow> cached s c \<Longrightarrow> cached t c"
    "rd32 (fmem t) (block_byte 1 4) = rd32 (fmem s) (block_byte 1 4)"
    "\<And>c i. 2 \<le> c \<Longrightarrow> c \<le> 2 + nblocks s div 32768 \<Longrightarrow> i < 4096 \<Longrightarrow> cache_byte t c i = cache_byte s c i"
  shows "mounted t" "nblocks t = nblocks s" "taken t = taken s"
proof -
  have s: "super_p s = disk_addr 1" "bitmap_p s = disk_addr 2" "nblocks s \<le> 0x40000"
    using assms(1) by (simp_all add: mounted_def)
  show n: "nblocks t = nblocks s"
    using assms(5) by (simp add: nblocks_def assms(2) s block_byte_def)
  have q: "2 + nblocks s div 32768 < 0x40000" using s(3) by linarith
  show "mounted t"
    using assms(1-4) n q by (auto simp: mounted_def)
  have "bmap t j = bmap s j" if j: "j div 1024 \<le> nblocks s div 32768" for j
  proof -
    have "(4 * j) mod 4096 \<le> 4092" using mod_less_divisor [of 1024 j] mult_mod_right [of 4 j 1024] by simp
    moreover have "disk_addr 2 + 4 * word_of_nat j = block_byte (2 + j div 1024) ((4 * j) mod 4096)"
    proof -
      have e: "4096 * (j div 1024) + (4 * j) mod 4096 = 4 * j"
        using mult_div_mod_eq [of 4096 "4 * j"] by simp
      have "block_byte (2 + j div 1024) ((4 * j) mod 4096) =
          DISKMAP + 4096 * 2 + word_of_nat (4096 * (j div 1024) + (4 * j) mod 4096)"
        by (simp add: block_byte_def disk_addr_def)
      then show ?thesis unfolding e by (simp add: disk_addr_def)
    qed
    moreover have "2 + j div 1024 < 0x40000" using j q by linarith
    ultimately show ?thesis
      using j block_word_cong [of "2 + j div 1024" "(4 * j) mod 4096" t s]
      by (simp add: bmap_def assms(3) s assms(6))
  qed
  then have "bm_bit (bmap t) j = bm_bit (bmap s) j" if "j < nblocks s" for j
    using that by (simp add: bm_bit_def div_mult2_eq [symmetric] div_le_mono)
  then show "taken t = taken s" by (auto simp: fun_eq_iff taken_def n)
qed

lemma alloc_block_eq:
  assumes "mounted s"
  shows "alloc_block s = Some
    (case fs_take s of
       None \<Rightarrow> (- E_NO_DISK, s)
     | Some (b, t) \<Rightarrow> (int b, if cached s b then t else new_page b t))"
proof (cases "fs_take s")
  case None
  then have "alloc_block_num s = Some (- E_NO_DISK, s)"
    by (auto simp: fs_take_eq assms alloc_block_num_eq split: option.splits)
  then show ?thesis using None by (simp add: alloc_block_def)
next
  case (Some bt)
  obtain b t where bt: "fs_take s = Some (b, t)" using Some by (cases bt) auto
  have b: "b < 0x40000"
    using blocks.alloc_Some [OF assms bt] assms by (simp add: mounted_def)
  have "cached t = cached s"
    using bt by (auto simp: fs_take_eq assms to_disk_cached set_bm_cached split: option.splits)
  moreover have "alloc_block_num s = Some (int b, t)"
    using bt by (auto simp: fs_take_def alloc_block_num_eq assms split: option.splits)
  ultimately show ?thesis
    using bt disk_addr_neq0 [OF b]
    by (simp add: alloc_block_def map_block_def block_is_mapped_cached [OF b] new_page_facts [OF b])
qed

lemma alloc_block_effect:
  assumes "mounted s" "fs_take s = Some (b, t')"
    "t = (if cached s b then t' else new_page b t')" "b \<notin> {1..2 + nblocks s div 32768}"
  shows "mounted t" "nblocks t = nblocks s" "\<And>j. taken t j \<longleftrightarrow> j = b \<or> taken s j" "cached t b"
    "\<And>i. i < 4096 \<Longrightarrow> cache_byte t b i = (if cached s b then cache_byte s b i else 0)"
    "\<And>c. c < 0x40000 \<Longrightarrow> cached t c \<longleftrightarrow> c = b \<or> cached s c"
    "\<And>c i. c < 0x40000 \<Longrightarrow> i < 4096 \<Longrightarrow> c \<noteq> b \<Longrightarrow> c \<notin> {2..2 + nblocks s div 32768} \<Longrightarrow>
       cache_byte t c i = cache_byte s c i \<and> disk_byte t c i = disk_byte s c i"
proof -
  note a = blocks.alloc_Some [OF assms(1,2)]
  have b: "b < 0x40000" "b div 32768 \<le> nblocks s div 32768"
    using a assms(1) by (auto simp: mounted_def div_le_mono)
  obtain f where t': "t' = to_disk (2 + b div 32768) (set_bm b f s)"
    using assms(2) by (auto simp: fs_take_eq assms(1) split: option.splits)
  have q: "2 + b div 32768 < 0x40000" using b(1) by linarith
  have ne: "b \<noteq> 2 + b div 32768" using assms(4) b(2) by auto
  have c': "cached t' = cached s" by (simp add: t' to_disk_cached set_bm_cached)
  have by': "cache_byte t' c i = cache_byte s c i"
    if "c < 0x40000" "i < 4096" "c \<noteq> 2 + b div 32768" for c i
    using set_bm_bytes [OF b(1) that(1,3,2)] by (simp add: t' to_disk_cached)
  have dk: "disk_byte t' c i = disk_byte s c i" if "i < 4096" "c \<noteq> 2 + b div 32768" for c i
    using disk_byte_to_disk [OF q that(1)] that(2) by (simp add: t' set_bm_cached)
  have n': "nblocks t' = nblocks s" "mounted t'" using a by auto
  have m: "mounted t \<and> nblocks t = nblocks t' \<and> taken t = taken t'"
  proof (cases "cached s b")
    case False
    then have t: "t = new_page b t'" by (simp add: assms(3))
    have "cache_byte t c i = cache_byte t' c i"
      if "1 \<le> c" "c \<le> 2 + nblocks t' div 32768" "i < 4096" for c i
    proof -
      have "nblocks s \<le> 0x40000" using assms(1) by (simp add: mounted_def)
      then have "c < 0x40000" using that n'(1) by linarith
      moreover have "c \<noteq> b" using that assms(4) n'(1) by auto
      ultimately show ?thesis using that by (simp add: t new_page_facts [OF b(1)])
    qed
    moreover from this have "rd32 (fmem t) (block_byte 1 4) = rd32 (fmem t') (block_byte 1 4)"
      by (intro block_word_cong) simp_all
    ultimately show ?thesis
      using mounted_cong [OF n'(2), of t] new_page_facts [OF b(1)] by (simp add: t)
  qed (use assms(3) n' in simp)
  show "mounted t" "nblocks t = nblocks s" "\<And>j. taken t j \<longleftrightarrow> j = b \<or> taken s j"
    using m n' a by auto
  show "cached t b" "\<And>c. c < 0x40000 \<Longrightarrow> cached t c \<longleftrightarrow> c = b \<or> cached s c"
    using new_page_facts [OF b(1)] b(1) c' by (auto simp: assms(3))
  show "cache_byte t b i = (if cached s b then cache_byte s b i else 0)" if "i < 4096" for i
    using that new_page_facts [OF b(1)] b(1) by' [OF b(1) that ne] by (simp add: assms(3))
  show "cache_byte t c i = cache_byte s c i \<and> disk_byte t c i = disk_byte s c i"
    if "c < 0x40000" "i < 4096" "c \<noteq> b" "c \<notin> {2..2 + nblocks s div 32768}" for c i
  proof -
    have "c \<noteq> 2 + b div 32768" using that(4) b(2) by auto
    then show ?thesis
      using that by' dk new_page_facts [OF b(1)] by (simp add: assms(3))
  qed
qed

section \<open>The slot of a block in a file\<close>

lemma slot_store:
  assumes "mounted s" "c < 0x40000" "c \<notin> {2..2 + nblocks s div 32768}" "k + 4 \<le> 4096" "c = 1 \<longrightarrow> 8 \<le> k" "cached s c"
  obtains t where "stw (block_byte c k) w s = Some t" "mounted t" "nblocks t = nblocks s" "taken t = taken s"
    "cached t = cached s" "ldw (block_byte c k) t = Some w"
proof
  let ?t = "s\<lparr>fmem := wr32 (block_byte c k) w (fmem s)\<rparr>"
  have u: "unat (block_byte c k) = 0x10000000 + 4096 * c + k"
    using assms by (intro block_byte_unat) auto
  have m: "fmapped s (VPN (block_byte c k))"
    using assms by (simp add: VPN_block_byte cached_def)
  then show "stw (block_byte c k) w s = Some ?t" by (simp add: stw_def)
  have "unat (block_byte 1 4) = 0x10001004" by (simp add: block_byte_unat)
  moreover have "unat (block_byte c k) + 4 \<le> 0x10001004 \<or> 0x10001008 \<le> unat (block_byte c k)"
    unfolding u using assms(4,5) by (cases "c = 0") auto
  ultimately have "rd32 (fmem ?t) (block_byte 1 4) = rd32 (fmem s) (block_byte 1 4)"
    using u assms(2,4) by (simp add: rd32_wr32_apart)
  moreover have "cache_byte ?t c' i = cache_byte s c' i" if "c' \<noteq> c" "c' < 0x40000" "i < 4096" for c' i
  proof -
    have "c' < c \<or> c < c'" using that(1) by auto
    then have "unat (block_byte c' i) < unat (block_byte c k) \<or> unat (block_byte c k) + 4 \<le> unat (block_byte c' i)"
      unfolding u using block_byte_unat [OF that(2,3)] assms(4) that(3) by auto
    then show ?thesis using u assms(2,4) by (simp add: cache_byte_def wr32_unat_other)
  qed
  moreover have "nblocks s \<le> 0x40000" using assms(1) by (simp add: mounted_def)
  moreover show "cached ?t = cached s" by (simp add: cached_def fun_eq_iff)
  ultimately show "mounted ?t" "nblocks ?t = nblocks s" "taken ?t = taken s"
    using mounted_cong [OF assms(1), of ?t] assms(3) by (auto simp: cached_def)
  show "ldw (block_byte c k) ?t = Some w" using m by (simp add: ldw_def)
qed

section \<open>Properties\<close>

text \<open>
  A small disk of 1024 blocks: super block and bitmap are in the cache; block 5 is in use, in the
  cache and dirty.
\<close>

definition ex_fs :: fs where
  "ex_fs = \<lparr>fmem = (\<lambda>a. if a = 0x10001005 then 4 else if a = 0x10002000 then 0xd8
               else if 0x10002001 \<le> a \<and> a < 0x10002080 then 0xff
               else if 0x10005000 \<le> a \<and> a < 0x10006000 then 7 else 0),
     fmapped = (\<lambda>p. p = 0x10001 \<or> p = 0x10002 \<or> p = 0x10005), fdirty = (\<lambda>p. p = 0x10005),
     fdisk = (\<lambda>_ _. 0), super_p = 0x10001000, bitmap_p = 0x10002000\<rparr>"

lemma ex_fs_facts: "mounted ex_fs" "nblocks ex_fs = 1024" "taken ex_fs 5" "cached ex_fs 5" "\<not> taken ex_fs 3"
proof -
  show n: "nblocks ex_fs = 1024" by (simp add: nblocks_def ex_fs_def rd32_def)
  show "cached ex_fs 5" by (simp add: cached_def ex_fs_def)
  show "mounted ex_fs" by (simp add: mounted_def n) (simp add: ex_fs_def super_addr cached_def)
  have "bmap ex_fs 0 = 0xffffffd8" by (simp add: bmap_def ex_fs_def rd32_def)
  then show "taken ex_fs 5" "\<not> taken ex_fs 3"
    by (simp_all add: taken_def n bm_bit_def bit_numeral_rec(2) bit_word_iff_drop_bit_and)
qed

text \<open>
  C29. The block bitmap is an allocator: \<^verbatim>\<open>alloc_block_num\<close> takes the first free block from 3 on and
  no other, and writes the bitmap block that records it to the disk; it fails, without a change,
  only when every block is in use; and a block given back by \<^verbatim>\<open>free_block\<close> is free again and the
  next one handed out.
\<close>

theorem fs_blocks:
  assumes "mounted s"
  shows "(\<exists>b t u. alloc_block_num s = Some (int b, t) \<and> 3 \<le> b \<and> b < nblocks s \<and> \<not> taken s b \<and>
      (\<forall>j. 3 \<le> j \<and> j < b \<longrightarrow> taken s j) \<and>
      mounted t \<and> (\<forall>j. taken t j \<longleftrightarrow> j = b \<or> taken s j) \<and>
      (\<forall>i < 4096. disk_byte t (2 + b div 32768) i = cache_byte t (2 + b div 32768) i) \<and>
      free_block (word_of_nat b) t = Some u \<and> mounted u \<and> (\<forall>j. taken u j \<longleftrightarrow> taken s j) \<and>
      (\<exists>v. alloc_block_num u = Some (int b, v))) \<or>
    (\<forall>j. 3 \<le> j \<and> j < nblocks s \<longrightarrow> taken s j) \<and> alloc_block_num s = Some (- E_NO_DISK, s)"
proof (cases "fs_take s")
  case None
  then show ?thesis
    using blocks.alloc_None [OF assms] by (auto simp: fs_take_eq assms alloc_block_num_eq split: option.splits)
next
  case (Some bt)
  obtain b t where bt: "fs_take s = Some (b, t)" using Some by (cases bt) auto
  note a = blocks.alloc_Some [OF assms bt]
  define u where "u = fs_release b t"
  have b: "3 \<le> b" "b < nblocks t" "mounted t" using a by auto
  have u: "mounted u" "\<forall>j. taken u j \<longleftrightarrow> taken s j"
    using blocks.free_used [of t b] a by (auto simp: u_def)
  obtain v where v: "fs_take u = Some (b, v)"
    using blocks.alloc_free_alloc(2) [OF assms bt] by (auto simp: u_def)
  have num: "alloc_block_num w = Some (int b, x)" if "fs_take w = Some (b, x)" "mounted w" for w x
    using that by (auto simp: fs_take_def alloc_block_num_eq split: option.splits)
  have "b < 0x40000" using b by (simp add: mounted_def)
  then have "2 + b div 32768 < 0x40000" by linarith
  moreover obtain w where "t = to_disk (2 + b div 32768) w"
    using bt by (auto simp: fs_take_eq assms split: option.splits)
  ultimately have d: "\<forall>i < 4096. disk_byte t (2 + b div 32768) i = cache_byte t (2 + b div 32768) i"
    by (simp add: disk_byte_to_disk to_disk_cached)
  have "free_block (word_of_nat b) t = Some u"
    using b free_block_eq [of t b] by (simp add: u_def fs_release_def)
  then show ?thesis using a d u num [OF bt assms] num [OF v u(1)] by blast
qed

lemma fs_blocks_witness: "\<exists>b t. alloc_block_num ex_fs = Some (int b, t)"
  using fs_blocks [OF ex_fs_facts(1)] ex_fs_facts(2,5) by auto

text \<open>
  C30. The cache: a block in use that \<^verbatim>\<open>unmap_block\<close> drops from the cache and \<^verbatim>\<open>read_block\<close> brings in
  again has the contents it had if it was marked dirty, else what the disk holds; what
  \<^verbatim>\<open>write_block\<close> wrote is on the disk; and no other block's contents change.
\<close>

theorem cache_round_trip:
  assumes "mounted s" "2 + nblocks s div 32768 < b" "b < nblocks s" "taken s b" "cached s b"
  shows "\<exists>t u v. unmap_block (word_of_nat b) s = Some t \<and> \<not> cached t b \<and>
    read_block (word_of_nat b) t = Some (0, disk_addr (word_of_nat b), True, u) \<and> cached u b \<and>
    (\<forall>i < 4096. view u b i = (if fdirty s (0x10000 + b) then view s b i else disk_byte s b i)) \<and>
    (\<forall>b' < 0x40000. \<forall>i < 4096. b' \<noteq> b \<longrightarrow> view u b' i = view s b' i) \<and>
    write_block (word_of_nat b) s = Some v \<and>
    (\<forall>b' < 0x40000. \<forall>i < 4096. view v b' i = view s b' i \<and>
        (b' = b \<longrightarrow> disk_byte v b' i = view s b' i))"
proof -
  have b: "b < 0x40000" using assms by (simp add: mounted_def)
  define t where "t = (if fdirty s (0x10000 + b) then to_disk b s else s)"
  have t: "cached t = cached s" "cache_byte t = cache_byte s" "mounted t" "nblocks t = nblocks s"
    "taken t = taken s"
    "disk_byte t b' i = (if fdirty s (0x10000 + b) \<and> b' = b then cache_byte s b i else disk_byte s b' i)"
    if "i < 4096" for b' i
    using that b assms(1) by (auto simp: t_def to_disk_cached to_disk_mounted disk_byte_to_disk)
  note t = t [of 0, simplified] t(6)
  let ?d = "drop_block b t"
  have fm: "fmem ?d = fmem t" by (simp add: drop_block_simps [OF b])
  have ptr: "super_p ?d = super_p t" "bitmap_p ?d = bitmap_p t" by (simp_all add: drop_block_simps [OF b])
  have bm: "bmap ?d = bmap t" and n: "nblocks ?d = nblocks t"
    by (simp_all add: fun_eq_iff bmap_def nblocks_def fm ptr)
  have "taken ?d = taken t" by (simp add: fun_eq_iff taken_def bm n)
  then have d: "mounted ?d" "taken ?d = taken s" "\<not> cached ?d b"
    using t(3) assms(2) t(4,5) n
    by (auto simp: mounted_def ptr n drop_block_simps [OF b])
  have un: "unmap_block (word_of_nat b) s = Some ?d"
    using unmap_block_eq [OF assms(1) b assms(5)] assms(4) by (simp add: t_def)
  have rd: "read_block (word_of_nat b) ?d = Some (0, disk_addr (word_of_nat b), True, load b ?d)"
    using read_block_eq [OF d(1), of b] d assms n t by simp
  have v: "\<forall>i < 4096. view (load b ?d) b i = (if fdirty s (0x10000 + b) then view s b i else disk_byte s b i)"
    "\<forall>b' < 0x40000. \<forall>i < 4096. b' \<noteq> b \<longrightarrow> view (load b ?d) b' i = view s b' i"
    using assms(5) t by (auto simp: view_def load_simps [OF b] drop_block_simps [OF b] b)
  have w: "write_block (word_of_nat b) s = Some (to_disk b s)" by (rule write_block_cached [OF b assms(5)])
  moreover have "\<forall>b' < 0x40000. \<forall>i < 4096. view (to_disk b s) b' i = view s b' i \<and>
      (b' = b \<longrightarrow> disk_byte (to_disk b s) b' i = view s b' i)"
    using assms(5) b by (auto simp: view_def to_disk_cached disk_byte_to_disk)
  moreover have "cached (load b ?d) b" using load_simps(2) [OF b b, of 0] by simp
  ultimately show ?thesis using un d(3) rd v by blast
qed

lemma cache_round_trip_witness:
  "\<exists>t u. unmap_block 5 ex_fs = Some t \<and> read_block 5 t = Some (0, 0x10005000, True, u) \<and> view u 5 9 = 7"
proof -
  have "view ex_fs 5 9 = 7" using ex_fs_facts(4) by (simp add: view_def) (simp add: cache_byte_def block_byte_def disk_addr_def ex_fs_def)
  moreover have "fdirty ex_fs (0x10000 + 5)" by (simp add: ex_fs_def)
  ultimately show ?thesis
    using cache_round_trip [OF ex_fs_facts(1) _ _ ex_fs_facts(3,4)] by (auto simp: ex_fs_facts disk_addr_def)
qed


text \<open>
  \<^verbatim>\<open>alloc_block\<close> gives a file a free block and a page for it, keeps the file system mounted and
  changes no other file's block, in the cache or on the disk. The page is cleared only if it is
  new: a block that was freed while in the cache comes back with the contents it had.
\<close>

theorem alloc_block_gives:
  assumes "mounted s" "\<forall>b \<in> {1..2 + nblocks s div 32768}. taken s b"
  shows "(\<exists>b t. alloc_block s = Some (int b, t) \<and> 3 \<le> b \<and> b < nblocks s \<and> \<not> taken s b \<and>
      mounted t \<and> (\<forall>j. taken t j \<longleftrightarrow> j = b \<or> taken s j) \<and> cached t b \<and>
      (\<forall>i < 4096. cache_byte t b i = (if cached s b then cache_byte s b i else 0)) \<and>
      (\<forall>c < 0x40000. \<forall>i < 4096. c \<noteq> b \<and> c \<notin> {2..2 + nblocks s div 32768} \<longrightarrow>
         cache_byte t c i = cache_byte s c i \<and> disk_byte t c i = disk_byte s c i)) \<or>
    (\<forall>j. 3 \<le> j \<and> j < nblocks s \<longrightarrow> taken s j) \<and> alloc_block s = Some (- E_NO_DISK, s)"
proof (cases "fs_take s")
  case None
  then show ?thesis using blocks.alloc_None [OF assms(1)] alloc_block_eq [OF assms(1)] by simp
next
  case (Some bt)
  obtain b t' where bt: "fs_take s = Some (b, t')" using Some by (cases bt) auto
  note a = blocks.alloc_Some [OF assms(1) bt]
  have "b \<notin> {1..2 + nblocks s div 32768}" using a assms(2) by blast
  note e = alloc_block_effect [OF assms(1) bt refl this]
  show ?thesis using alloc_block_eq [OF assms(1)] bt a e
    by (intro disjI1 exI [of _ b] exI [of _ "if cached s b then t' else new_page b t'"]) simp
qed

text \<open>Block 3, free but still in the cache.\<close>

definition ex_stale :: fs where
  "ex_stale = ex_fs\<lparr>fmapped := \<lambda>p. p \<in> {0x10001, 0x10002, 0x10003},
     fmem := \<lambda>a. if 0x10003000 \<le> a \<and> a < 0x10004000 then 9 else fmem ex_fs a\<rparr>"

lemma alloc_block_gives_witness:
  "\<exists>b t. alloc_block ex_stale = Some (int b, t) \<and> taken t b"
proof -
  have n: "nblocks ex_stale = 1024" by (simp add: nblocks_def ex_stale_def ex_fs_def rd32_def)
  have m: "mounted ex_stale"
    by (simp add: mounted_def n) (simp add: ex_stale_def ex_fs_def super_addr cached_def)
  have "bmap ex_stale 0 = 0xffffffd8" by (simp add: bmap_def ex_stale_def ex_fs_def rd32_def)
  then have "\<not> taken ex_stale 3" "taken ex_stale 1" "taken ex_stale 2"
    by (simp_all add: taken_def n bm_bit_def bit_numeral_rec(2) bit_word_iff_drop_bit_and)
  moreover have "{1..2 + nblocks ex_stale div 32768} = {1, 2}" by (auto simp: n)
  ultimately show ?thesis
    using alloc_block_gives [OF m] by (auto simp: n)
qed


text \<open>
  The direct blocks of a file: a slot that is set is what \<^verbatim>\<open>file_map_block\<close> returns, without a
  change; an empty one is an error without \<open>alloc\<close>, and with it gets a block that was free, which
  is what every later look-up of the same block of the file returns.
\<close>

theorem file_map_block_slot:
  assumes "mounted s" "\<forall>b \<in> {1..2 + nblocks s div 32768}. taken s b"
    "f + f_direct + 4 * n = block_byte c k" "n < NDIRECT" "k + 4 \<le> 4096" "c = 1 \<longrightarrow> 8 \<le> k"
    "c < nblocks s" "taken s c" "cached s c" "c \<notin> {2..2 + nblocks s div 32768}"
    "ldw (f + f_direct + 4 * n) s = Some v"
  shows "(v \<noteq> 0 \<longrightarrow> file_map_block f n a s = Some (0, v, s)) \<and>
    (v = 0 \<longrightarrow> file_map_block f n False s = Some (- E_NOT_FOUND, 0, s)) \<and>
    (v = 0 \<longrightarrow>
      (\<exists>b t. file_map_block f n True s = Some (0, word_of_nat b, t) \<and> \<not> taken s b \<and> 3 \<le> b \<and> b < nblocks s \<and>
         mounted t \<and> (\<forall>j. taken t j \<longleftrightarrow> j = b \<or> taken s j) \<and>
         file_map_block f n a t = Some (0, word_of_nat b, t)) \<or>
      (\<forall>j. 3 \<le> j \<and> j < nblocks s \<longrightarrow> taken s j) \<and>
        file_map_block f n True s = Some (- E_NO_DISK, 0, s))"
proof (intro conjI impI)
  have w: "file_block_walk f n a u = Some (0, block_byte c k, u)" for a u
    using assms(3,4) by (simp add: file_block_walk_def)
  have set: "file_map_block f n a u = Some (0, x, u)" if "ldw (block_byte c k) u = Some x" "x \<noteq> 0" for a u x
    using that by (simp add: file_map_block_def w)
  have v: "ldw (block_byte c k) s = Some v" using assms(3,11) by simp
  show "file_map_block f n a s = Some (0, v, s)" if "v \<noteq> 0" using set [OF v that] .
  show "file_map_block f n False s = Some (- E_NOT_FOUND, 0, s)" if "v = 0"
    using v that by (simp add: file_map_block_def w)
  assume v0: "v = 0"
  have c: "c < 0x40000" using assms(1,7) by (simp add: mounted_def)
  show "(\<exists>b t. file_map_block f n True s = Some (0, word_of_nat b, t) \<and> \<not> taken s b \<and> 3 \<le> b \<and> b < nblocks s \<and>
         mounted t \<and> (\<forall>j. taken t j \<longleftrightarrow> j = b \<or> taken s j) \<and>
         file_map_block f n a t = Some (0, word_of_nat b, t)) \<or>
      (\<forall>j. 3 \<le> j \<and> j < nblocks s \<longrightarrow> taken s j) \<and>
        file_map_block f n True s = Some (- E_NO_DISK, 0, s)"
  proof (cases "fs_take s")
    case None
    then show ?thesis
      using blocks.alloc_None [OF assms(1)] alloc_block_eq [OF assms(1)] v v0
      by (simp add: file_map_block_def w)
  next
    case (Some bt)
    obtain b t' where bt: "fs_take s = Some (b, t')" using Some by (cases bt) auto
    note al = blocks.alloc_Some [OF assms(1) bt]
    define u where "u = (if cached s b then t' else new_page b t')"
    have "b \<notin> {1..2 + nblocks s div 32768}" using al assms(2) by blast
    note e = alloc_block_effect [OF assms(1) bt u_def this]
    have au: "alloc_block s = Some (int b, u)" using alloc_block_eq [OF assms(1)] bt by (simp add: u_def)
    have b: "b < 0x40000" "b \<noteq> 0" using al assms(1) by (auto simp: mounted_def)
    then have wb: "(word_of_nat b :: u32) \<noteq> 0" by (simp add: word_unat_eq_iff unat_of_nat)
    have "cached u c" using e(6) [OF c] assms(9) by simp
    then obtain t where t: "stw (block_byte c k) (word_of_nat b) u = Some t" "mounted t" "taken t = taken u"
      "ldw (block_byte c k) t = Some (word_of_nat b)"
      using slot_store [OF e(1) c _ assms(5,6)] assms(10) e(2) by metis
    have "file_map_block f n True s = Some (0, word_of_nat b, t)"
      using v v0 au t by (simp add: file_map_block_def w)
    moreover have "\<forall>j. taken t j \<longleftrightarrow> j = b \<or> taken s j" using e(3) t(3) by simp
    moreover have "\<not> taken s b" "3 \<le> b" "b < nblocks s" using al by blast+
    ultimately show ?thesis
      using t(2) set [OF t(4) wb] by (intro disjI1 exI [of _ b] exI [of _ t] conjI)
  qed
qed

text \<open>A file whose slot 0 is the first word of block 5.\<close>

lemma file_map_block_slot_witness:
  "file_map_block (0x10005000 - 136) 0 True ex_fs = Some (0, 0x07070707, ex_fs)"
proof -
  have "bmap ex_fs 0 = 0xffffffd8" by (simp add: bmap_def ex_fs_def rd32_def)
  then have "taken ex_fs 1" "taken ex_fs 2"
    by (simp_all add: taken_def ex_fs_facts bm_bit_def bit_numeral_rec(2) bit_word_iff_drop_bit_and)
  moreover have "{1..2 + nblocks ex_fs div 32768} = {1, 2}" by (auto simp: ex_fs_facts)
  ultimately have "\<forall>b \<in> {1..2 + nblocks ex_fs div 32768}. taken ex_fs b" by simp
  moreover have "block_byte 5 0 = 0x10005000" by (simp add: block_byte_def disk_addr_def)
  moreover have "ldw 0x10005000 ex_fs = Some 0x07070707"
    by (simp add: ldw_def ex_fs_def VPN_div rd32_def)
  ultimately show ?thesis
    using file_map_block_slot [OF ex_fs_facts(1), of "0x10005000 - 136" 0 5 0] ex_fs_facts by simp
qed

end
