(* ===== verification/Mount.thy ===== *)
theory Mount
  imports Blocks
begin

text \<open>
  \<^verbatim>\<open>fs_init\<close> of \<^verbatim>\<open>fs/fs.c\<close>: what mounting a disk does. Its self-test copies the super block to the cache
  page of block 0, overwrites it on the disk, reads it back and restores it.
\<close>

declare One_nat_def [simp del]

section \<open>The steps, by their effect on blocks\<close>

lemma load_facts:
  assumes "b < 0x40000"
  shows "disk_byte (load b s) = disk_byte s" "super_p (load b s) = super_p s" "bitmap_p (load b s) = bitmap_p s"
    "b' < 0x40000 \<Longrightarrow> cached (load b s) b' \<longleftrightarrow> b' = b \<or> cached s b'"
    "b' < 0x40000 \<Longrightarrow> i < 4096 \<Longrightarrow>
       cache_byte (load b s) b' i = (if b' = b then disk_byte s b i else cache_byte s b' i)"
  using load_simps [OF assms assms, of 0 s] load_simps [OF assms, of b' 0 s] load_simps [OF assms, of b' i s]
  by auto

lemma cache_cong: "fmem t = fmem s \<Longrightarrow> cache_byte t = cache_byte s"
  by (simp add: cache_byte_def fun_eq_iff)

lemma with_ptrs [simp]:
  "cache_byte (s\<lparr>super_p := p\<rparr>) = cache_byte s" "disk_byte (s\<lparr>super_p := p\<rparr>) = disk_byte s"
  "cached (s\<lparr>super_p := p\<rparr>) = cached s"
  "cache_byte (s\<lparr>bitmap_p := p\<rparr>) = cache_byte s" "disk_byte (s\<lparr>bitmap_p := p\<rparr>) = disk_byte s"
  "cached (s\<lparr>bitmap_p := p\<rparr>) = cached s"
  by (auto simp: cache_byte_def disk_byte_def cached_def fun_eq_iff)

lemma with_mem [simp]:
  "disk_byte (s\<lparr>fmem := m\<rparr>) = disk_byte s" "cached (s\<lparr>fmem := m\<rparr>) = cached s"
  by (auto simp: disk_byte_def cached_def fun_eq_iff)

lemma block_byte_add: "block_byte b j + word_of_nat k = block_byte b (j + k)"
  by (simp add: block_byte_def)

lemma blocks_disjoint:
  assumes "b < 0x40000" "c < 0x40000" "b \<noteq> c"
  shows "ranges_disjoint (disk_addr (word_of_nat b)) (disk_addr (word_of_nat c)) 4096"
  unfolding ranges_disjoint_def
proof (intro allI impI)
  fix i j :: nat assume "i < 4096" "j < 4096"
  then show "disk_addr (word_of_nat b) + word_of_nat i \<noteq> disk_addr (word_of_nat c) + word_of_nat j"
    using VPN_block_byte [OF assms(1), of i] VPN_block_byte [OF assms(2), of j] assms(3)
    by (auto simp: block_byte_def)
qed

lemma copy_block:
  assumes "b < 0x40000" "c < 0x40000" "b \<noteq> c" "cached s b" "cached s c"
  obtains t where "fs_copy_block (disk_addr (word_of_nat b)) (disk_addr (word_of_nat c)) s = Some t"
    "\<And>b' i. b' < 0x40000 \<Longrightarrow> i < 4096 \<Longrightarrow> cache_byte t b' i = cache_byte s (if b' = b then c else b') i"
    "disk_byte t = disk_byte s" "cached t = cached s" "super_p t = super_p s" "bitmap_p t = bitmap_p s"
proof
  let ?t = "s\<lparr>fmem := mcopy (fmem s) (disk_addr (word_of_nat b)) (disk_addr (word_of_nat c)) 4096\<rparr>"
  have "unat (disk_addr (word_of_nat b)) + unat BLOCK_SIZE + 4 < 2 ^ 32"
    using disk_addr_unat [OF assms(1)] assms(1) by simp
  then show "fs_copy_block (disk_addr (word_of_nat b)) (disk_addr (word_of_nat c)) s = Some ?t"
    using assms(4,5) memcpy_eq [of "disk_addr (word_of_nat b)" BLOCK_SIZE "disk_addr (word_of_nat c)"]
      blocks_disjoint [OF assms(1,2,3)]
    by (simp add: fs_copy_block_def VPN_disk_addr assms cached_def)
  show "cache_byte ?t b' i = cache_byte s (if b' = b then c else b') i" if "b' < 0x40000" "i < 4096" for b' i
    using block_offset [OF assms(1) that] that
    by (auto simp: cache_byte_def mcopy_def) (simp add: block_byte_def)
qed simp_all

lemma read_block_unmounted:
  assumes "super_p s = 0" "bitmap_p s = 0" "b < 0x40000"
  shows "read_block (word_of_nat b) s =
    Some (0, disk_addr (word_of_nat b), \<not> cached s b, if cached s b then s else load b s)"
proof -
  have "fs_mem_alloc (disk_addr (word_of_nat b)) s = (0, snd (fs_mem_alloc (disk_addr (word_of_nat b)) s))"
    using legal_disk_addr [OF assms(3)] by (simp add: fs_mem_alloc_def)
  then obtain u where u: "fs_mem_alloc (disk_addr (word_of_nat b)) s = (0, u)" by simp
  show ?thesis
    using disk_addr_neq0 [OF assms(3)]
    by (simp add: read_block_def assms block_is_mapped_cached [OF assms(3)] load_def u Let_def)
qed


section \<open>Bytes, words and strings in a cached block\<close>

lemma block_byte_eq:
  assumes "b < 0x40000" "c < 0x40000" "i < 4096" "j < 4096"
  shows "block_byte b i = block_byte c j \<longleftrightarrow> b = c \<and> i = j"
proof
  assume "block_byte b i = block_byte c j"
  then have "4096 * b + i = 4096 * c + j"
    using block_byte_unat [of b i] block_byte_unat [of c j] assms by simp
  moreover from this have "b = c" using assms(3,4) by linarith
  ultimately show "b = c \<and> i = j" by simp
qed simp

definition word_at :: "(nat \<Rightarrow> u8) \<Rightarrow> nat \<Rightarrow> u32" where
  "word_at f j = rd32 (\<lambda>a. f (unat a)) (word_of_nat j)"

lemma rd32_block: "j + 4 \<le> 4096 \<Longrightarrow> rd32 m (block_byte b j) = word_at (\<lambda>i. m (block_byte b i)) j"
  by (simp add: rd32_def word_at_def block_byte_def unat_of_nat unat_word_ariths add.assoc)

lemma word_at_cong: "(\<And>i. j \<le> i \<Longrightarrow> i < j + 4 \<Longrightarrow> f i = g i) \<Longrightarrow> j + 4 \<le> 4096 \<Longrightarrow> word_at f j = word_at g j"
  by (simp add: word_at_def rd32_def unat_of_nat unat_word_ariths)

lemma ldw_block:
  "b < 0x40000 \<Longrightarrow> cached s b \<Longrightarrow> j + 4 \<le> 4096 \<Longrightarrow> ldw (block_byte b j) s = Some (word_at (cache_byte s b) j)"
  by (simp add: ldw_def VPN_block_byte cached_def rd32_block cache_byte_def [abs_def])

lemma str_eq_block:
  "b < 0x40000 \<Longrightarrow> cached s b \<Longrightarrow> j + length cs < 4096 \<Longrightarrow>
     str_eq_at (block_byte b j) cs s =
       Some ((\<forall>k < length cs. cache_byte s b (j + k) = cs ! k) \<and> cache_byte s b (j + length cs) = 0)"
proof (induction cs arbitrary: j)
  case Nil
  then show ?case by (simp add: ldb_def VPN_block_byte cached_def cache_byte_def)
next
  case (Cons c cs)
  have "block_byte b j + 1 = block_byte b (Suc j)" using block_byte_add [of b j 1] by (simp add: One_nat_def)
  then show ?case
    using Cons by (auto simp: ldb_def VPN_block_byte cached_def cache_byte_def All_less_Suc2)
qed

lemma str_put_block:
  "b < 0x40000 \<Longrightarrow> cached s b \<Longrightarrow> j + length cs < 4096 \<Longrightarrow>
     \<exists>t. str_put_at (block_byte b j) cs s = Some t \<and> (\<exists>m. t = s\<lparr>fmem := m\<rparr>) \<and>
       (\<forall>b' < 0x40000. \<forall>i < 4096. cache_byte t b' i =
          (if b' = b \<and> j \<le> i \<and> i \<le> j + length cs then (cs @ [0]) ! (i - j) else cache_byte s b' i))"
proof (induction cs arbitrary: j s)
  case Nil
  let ?t = "s\<lparr>fmem := (fmem s)(block_byte b j := 0)\<rparr>"
  have "cache_byte ?t b' i = (if b' = b \<and> i = j then 0 else cache_byte s b' i)"
    if "b' < 0x40000" "i < 4096" for b' i
    using that Nil block_byte_eq [of b' b i j] by (auto simp: cache_byte_def)
  then show ?case
    using Nil by (intro exI [of _ ?t]) (auto simp: stb_def VPN_block_byte cached_def)
next
  case (Cons c cs)
  let ?u = "s\<lparr>fmem := (fmem s)(block_byte b j := c)\<rparr>"
  have u: "stb (block_byte b j) c s = Some ?u" "cached ?u b"
    using Cons.prems by (simp_all add: stb_def VPN_block_byte cached_def)
  have b1: "block_byte b j + 1 = block_byte b (Suc j)" using block_byte_add [of b j 1] by (simp add: One_nat_def)
  obtain t m where t: "str_put_at (block_byte b (Suc j)) cs ?u = Some t" "t = ?u\<lparr>fmem := m\<rparr>"
      "\<forall>b' < 0x40000. \<forall>i < 4096. cache_byte t b' i =
          (if b' = b \<and> Suc j \<le> i \<and> i \<le> Suc j + length cs then (cs @ [0]) ! (i - Suc j) else cache_byte ?u b' i)"
    using Cons.IH [of ?u "Suc j"] Cons.prems u by auto
  have "cache_byte t b' i =
      (if b' = b \<and> j \<le> i \<and> i \<le> j + length (c # cs) then ((c # cs) @ [0]) ! (i - j) else cache_byte s b' i)"
    if "b' < 0x40000" "i < 4096" for b' i
  proof (cases "b' = b \<and> i = j")
    case True
    then show ?thesis using t(3) that Cons.prems by (simp add: cache_byte_def)
  next
    case False
    then have "block_byte b' i \<noteq> block_byte b j" using block_byte_eq that Cons.prems by simp
    then have e: "cache_byte ?u b' i = cache_byte s b' i" by (simp add: cache_byte_def)
    show ?thesis
    proof (cases "b' = b \<and> j < i \<and> i \<le> Suc j + length cs")
      case True
      then have "i - j = Suc (i - Suc j)" using Suc_diff_Suc [of j i] by simp
      then show ?thesis using t(3) that True by simp
    next
      case f: False
      then show ?thesis using t(3) that False e by auto
    qed
  qed
  moreover have "t = s\<lparr>fmem := m\<rparr>" using t(2) by simp
  ultimately show ?case using u(1) t(1) by (intro exI [of _ t]) (auto simp: b1 intro: exI [of _ m])
qed


section \<open>Mounting\<close>

text \<open>The super block in the cache, from the disk.\<close>

lemma read_super_ok:
  assumes "super_p s = 0" "bitmap_p s = 0" "\<not> cached s 1"
    "word_at (disk_byte s 1) 0 = FS_MAGIC" "word_at (disk_byte s 1) 4 = word_of_nat n" "n \<le> 0x40000"
  shows "read_super s = Some ((load 1 s)\<lparr>super_p := disk_addr 1\<rparr>)"
proof -
  let ?t = "(load 1 s)\<lparr>super_p := disk_addr 1\<rparr>"
  have l: "cache_byte (load 1 s) 1 i = disk_byte s 1 i" if "i < 4096" for i
    using that by (simp add: load_facts)
  have c: "cached ?t 1" by (simp add: load_facts)
  have w: "word_at (cache_byte ?t 1) j = word_at (disk_byte s 1) j" if "j + 4 \<le> 4096" for j
    using that by (intro word_at_cong) (auto simp: l)
  have "ldw (block_byte 1 0) ?t = Some FS_MAGIC" "ldw (block_byte 1 4) ?t = Some (word_of_nat n)"
    using ldw_block [OF _ c] w assms(4,5) by auto
  moreover have "\<not> DISKMAX div BLOCK_SIZE < word_of_nat n"
    using assms(6) by (simp add: word_less_nat_alt unat_of_nat)
  moreover have "read_block 1 s = Some (0, disk_addr 1, True, load 1 s)"
    using read_block_unmounted [OF assms(1,2), of 1] assms(3) by simp
  ultimately show ?thesis
    by (simp add: read_super_def block_byte_def)
qed

text \<open>The self-test of \<^verbatim>\<open>write_block\<close>: the disk and the cached super block are restored.\<close>

lemma check_write_block_ok:
  assumes "bitmap_p s = 0" "\<forall>b < 0x40000. cached s b \<longleftrightarrow> b = 1"
  shows "\<exists>t. check_write_block s = Some t \<and> super_p t = disk_addr 1 \<and> bitmap_p t = 0 \<and>
    (\<forall>b < 0x40000. cached t b \<longleftrightarrow> b \<le> 1) \<and>
    (\<forall>i < 4096. cache_byte t 1 i = cache_byte s 1 i) \<and>
    (\<forall>b < 0x40000. \<forall>i < 4096. disk_byte t b i = (if b = 1 then cache_byte s 1 i else disk_byte s b i))"
proof -
  define s1 where "s1 = s\<lparr>super_p := 0\<rparr>"
  define s2 where "s2 = load 0 s1"
  have rd0: "read_block 0 s1 = Some (0, disk_addr 0, True, s2)"
    using read_block_unmounted [of s1 0] assms by (simp add: s1_def s2_def)
  have s2: "super_p s2 = 0" "bitmap_p s2 = 0" "\<forall>b < 0x40000. cached s2 b \<longleftrightarrow> b \<le> 1" "disk_byte s2 = disk_byte s"
    "\<forall>i < 4096. cache_byte s2 1 i = cache_byte s 1 i"
    using assms by (auto simp: s2_def load_facts) (auto simp: s1_def)
  obtain s3 where s3: "fs_copy_block (disk_addr 0) (disk_addr 1) s2 = Some s3"
    "\<And>b i. b < 0x40000 \<Longrightarrow> i < 4096 \<Longrightarrow> cache_byte s3 b i = cache_byte s2 (if b = 0 then 1 else b) i"
    "disk_byte s3 = disk_byte s2" "cached s3 = cached s2" "super_p s3 = 0" "bitmap_p s3 = 0"
    using copy_block [of 0 1 s2] s2 by auto
  obtain s4 m where s4: "str_put_at (disk_addr 1) OOPS_str s3 = Some s4" "s4 = s3\<lparr>fmem := m\<rparr>"
    "\<And>b i. b < 0x40000 \<Longrightarrow> i < 4096 \<Longrightarrow> cache_byte s4 b i =
       (if b = 1 \<and> i \<le> 6 then (OOPS_str @ [0]) ! i else cache_byte s3 b i)"
    using str_put_block [of 1 s3 0 OOPS_str] s3(4) s2(3) by (auto simp: OOPS_str_def block_byte_def)
  have c4: "cached s4 = cached s2" "disk_byte s4 = disk_byte s" by (simp_all add: s4(2) s3 s2)
  have wr: "write_block 1 s4 = Some (to_disk 1 s4)"
    using write_block_cached [of 1 s4] c4 s2(3) by simp
  define s5 where "s5 = to_disk 1 s4"
  have s5: "super_p s5 = 0" "bitmap_p s5 = 0" "cached s5 = cached s2" "cache_byte s5 = cache_byte s4"
    "\<And>b i. i < 4096 \<Longrightarrow> disk_byte s5 b i = (if b = 1 then cache_byte s4 1 i else disk_byte s b i)"
    using disk_byte_to_disk [of 1 _ s4] c4 s3(5,6)
    by (auto simp: s5_def to_disk_cached) (auto simp: to_disk_def s4(2))
  define s6 where "s6 = drop_block 1 s5"
  have un: "fs_mem_unmap (disk_addr 1) s5 = (0, s6)"
    using legal_disk_addr [of 1] by (simp add: s6_def drop_block_def fs_mem_unmap_def)
  note d = drop_block_simps [of 1 s5, simplified, folded s6_def]
  define s7 where "s7 = load 1 s6"
  have rd1: "read_block 1 s6 = Some (0, disk_addr 1, True, s7)"
    using read_block_unmounted [of s6 1] s5 d by (simp add: s7_def)
  have s7: "super_p s7 = 0" "bitmap_p s7 = 0" "\<forall>b < 0x40000. cached s7 b \<longleftrightarrow> b \<le> 1"
    "disk_byte s7 = disk_byte s5"
    "\<forall>i < 4096. cache_byte s7 1 i = cache_byte s4 1 i" "\<forall>i < 4096. cache_byte s7 0 i = cache_byte s 1 i"
    using s5 d s2 s3 s4(3) by (auto simp: s7_def load_facts)
  have same: "str_eq_at (disk_addr 1) OOPS_str s7 = Some True"
  proof -
    have len: "length OOPS_str = 6" by (simp add: OOPS_str_def)
    have "cache_byte s7 1 k = (OOPS_str @ [0]) ! k" if "k \<le> 6" for k using that s7(5) s4(3) [of 1 k] by simp
    then have "(\<forall>k < length OOPS_str. cache_byte s7 1 (0 + k) = OOPS_str ! k) \<and> cache_byte s7 1 (0 + length OOPS_str) = 0"
      by (simp add: nth_append len)
    then show ?thesis using str_eq_block [of 1 s7 0 OOPS_str] s7(3) len by (simp add: block_byte_def)
  qed
  obtain s8 where s8: "fs_copy_block (disk_addr 1) (disk_addr 0) s7 = Some s8"
    "\<And>b i. b < 0x40000 \<Longrightarrow> i < 4096 \<Longrightarrow> cache_byte s8 b i = cache_byte s7 (if b = 1 then 0 else b) i"
    "disk_byte s8 = disk_byte s7" "cached s8 = cached s7" "super_p s8 = 0" "bitmap_p s8 = 0"
    using copy_block [of 1 0 s7] s7 by auto
  have wr8: "write_block 1 s8 = Some (to_disk 1 s8)"
    using write_block_cached [of 1 s8] s7(3) s8(4) by simp
  have chk: "check_write_block s = Some ((to_disk 1 s8)\<lparr>super_p := disk_addr 1\<rparr>)"
    using rd0 s3(1) s4(1) wr un rd1 same s8(1) wr8 block_is_mapped_cached [of 1 s5]
      block_is_mapped_cached [of 1 s6] s5(3) s2(3) d disk_addr_neq0 [of 1]
    by (simp add: check_write_block_def flip: s1_def s5_def)
  show ?thesis
    using chk s8 s7 s5(5) disk_byte_to_disk [of 1 _ s8]
    by (intro exI [of _ "(to_disk 1 s8)\<lparr>super_p := disk_addr 1\<rparr>"])
      (auto simp: to_disk_cached, simp_all add: to_disk_def)
qed


text \<open>The bitmap blocks, one after the other.\<close>

lemma read_bitmap_blocks:
  assumes "super_p s \<noteq> 0" "bitmap_p s = 0" "ldw (super_p s + 4) s = Some (word_of_nat n)" "n \<le> 0x40000"
    "super_p s = disk_addr 1"
    "\<forall>b < 0x40000. cached s b \<longleftrightarrow> b < k + 2" "k + l < n - 1" "0 < n"
  shows "\<exists>t. foldM (\<lambda>i s. do { (_, _, _, s) \<leftarrow> read_block (word_of_nat i + 2) s; Some s }) [k..<k + l] s = Some t \<and>
    super_p t = super_p s \<and> bitmap_p t = 0 \<and> (\<forall>b < 0x40000. cached t b \<longleftrightarrow> b < k + l + 2) \<and>
    disk_byte t = disk_byte s \<and>
    (\<forall>b < 0x40000. \<forall>i < 4096. cache_byte t b i =
       (if k + 2 \<le> b \<and> b < k + l + 2 then disk_byte s b i else cache_byte s b i))"
  using assms
proof (induction l arbitrary: k s)
  case 0
  then show ?case by auto
next
  case (Suc l)
  have k: "2 + k < 0x40000" using Suc.prems by simp
  let ?u = "load (2 + k) s"
  have rd: "read_block (word_of_nat b) s = Some (0, disk_addr (word_of_nat b), True, load b s)"
    if "b < 0x40000" "b < n" "\<not> cached s b" for b
  proof -
    have "fs_mem_alloc (disk_addr (word_of_nat b)) s = (0, snd (fs_mem_alloc (disk_addr (word_of_nat b)) s))"
      using legal_disk_addr [OF that(1)] by (simp add: fs_mem_alloc_def)
    then obtain x where "fs_mem_alloc (disk_addr (word_of_nat b)) s = (0, x)" by simp
    moreover have "\<not> (word_of_nat n :: u32) \<le> word_of_nat b"
      using that Suc.prems(4) by (simp add: word_le_nat_alt unat_of_nat)
    ultimately show ?thesis
      using Suc.prems that by (simp add: read_block_def load_def block_is_mapped_cached [OF that(1)] Let_def)
  qed
  have rd: "read_block (word_of_nat k + 2) s = Some (0, disk_addr (word_of_nat (2 + k)), True, ?u)"
    using rd [of "2 + k"] Suc.prems k by (simp add: add.commute)
  have one: "cached s 1" using Suc.prems by simp
  have "ldw (block_byte 1 4) ?u = ldw (block_byte 1 4) s"
  proof -
    have "word_at (cache_byte ?u 1) 4 = word_at (cache_byte s 1) 4"
      using k by (intro word_at_cong) (auto simp: load_facts)
    then show ?thesis using ldw_block [of 1 ?u 4] ldw_block [of 1 s 4] one k by (simp add: load_facts)
  qed
  then have nb: "ldw (super_p ?u + 4) ?u = Some (word_of_nat n)"
    using Suc.prems k by (simp add: load_facts block_byte_def)
  have pre: "super_p ?u \<noteq> 0" "bitmap_p ?u = 0" "super_p ?u = disk_addr 1"
    "\<forall>b < 0x40000. cached ?u b \<longleftrightarrow> b < Suc k + 2" "Suc k + l < n - 1"
    using Suc.prems k by (auto simp: load_facts)
  obtain t where t: "foldM (\<lambda>i s. do { (_, _, _, s) \<leftarrow> read_block (word_of_nat i + 2) s; Some s }) [Suc k..<Suc k + l] ?u = Some t"
    "super_p t = super_p ?u" "bitmap_p t = 0" "\<forall>b < 0x40000. cached t b \<longleftrightarrow> b < Suc k + l + 2"
    "disk_byte t = disk_byte ?u"
    "\<forall>b < 0x40000. \<forall>i < 4096. cache_byte t b i =
       (if Suc k + 2 \<le> b \<and> b < Suc k + l + 2 then disk_byte ?u b i else cache_byte ?u b i)"
    using Suc.IH [OF pre(1,2) nb Suc.prems(4) pre(3-5) Suc.prems(8)] by blast
  have "[k..<k + Suc l] = k # [Suc k..<Suc k + l]" by (simp add: upt_conv_Cons)
  then have "foldM (\<lambda>i s. do { (_, _, _, s) \<leftarrow> read_block (word_of_nat i + 2) s; Some s }) [k..<k + Suc l] s = Some t"
    using t(1) rd by simp
  moreover have "cache_byte t b i = (if k + 2 \<le> b \<and> b < k + Suc l + 2 then disk_byte s b i else cache_byte s b i)"
    if "b < 0x40000" "i < 4096" for b i
    using t(6) that k by (auto simp: load_facts)
  ultimately show ?case using t k by (intro exI [of _ t]) (simp add: load_facts)
qed


text \<open>
  A valid disk: the super block has the magic number and a size of at most 1 GB that has room for
  the bitmap, and the bitmap has the boot, super and bitmap blocks in use.
\<close>

definition valid_disk :: "fs \<Rightarrow> nat \<Rightarrow> bool" where
  "valid_disk s n \<longleftrightarrow> word_at (disk_byte s 1) 0 = FS_MAGIC \<and> word_at (disk_byte s 1) 4 = word_of_nat n \<and>
     n \<le> 0x40000 \<and> 2 + n div 32768 < n \<and> (\<forall>b \<le> 2 + n div 32768. \<not> bit (word_at (disk_byte s 2) 0) b)"

lemma foldM_assert:
  "(\<And>x. x \<in> set xs \<Longrightarrow> f x s = Some s) \<Longrightarrow> foldM f xs s = Some s"
  by (induction xs) auto

lemma fs_init_ok:
  assumes "super_p s = 0" "bitmap_p s = 0" "\<forall>b < 0x40000. \<not> cached s b" "valid_disk s n"
  shows "\<exists>t. fs_init s = Some t \<and> mounted t \<and> nblocks t = n \<and>
    (\<forall>b < 0x40000. \<forall>i < 4096. disk_byte t b i = disk_byte s b i) \<and>
    (\<forall>b < 0x40000. cached t b \<longleftrightarrow> b \<le> 2 + n div 32768) \<and>
    (\<forall>b. 1 \<le> b \<and> b \<le> 2 + n div 32768 \<longrightarrow> (\<forall>i < 4096. cache_byte t b i = disk_byte s b i)) \<and>
    (\<forall>b \<le> 2 + n div 32768. taken t b)"
proof -
  note v = assms(4) [unfolded valid_disk_def]
  have n: "n \<le> 0x40000" "2 + n div 32768 < n" using v by blast+
  define s1 where "s1 = (load 1 s)\<lparr>super_p := disk_addr 1\<rparr>"
  have rs: "read_super s = Some s1"
    using read_super_ok [OF assms(1,2), of n] assms(3) v by (simp add: s1_def)
  have s1: "bitmap_p s1 = 0" "\<forall>b < 0x40000. cached s1 b \<longleftrightarrow> b = 1" "disk_byte s1 = disk_byte s"
    "\<forall>i < 4096. cache_byte s1 1 i = disk_byte s 1 i"
    using assms by (auto simp: s1_def load_facts)
  obtain s2 where s2: "check_write_block s1 = Some s2" "super_p s2 = disk_addr 1" "bitmap_p s2 = 0"
    "\<forall>b < 0x40000. cached s2 b \<longleftrightarrow> b \<le> 1" "\<forall>i < 4096. cache_byte s2 1 i = disk_byte s 1 i"
    "\<forall>b < 0x40000. \<forall>i < 4096. disk_byte s2 b i = disk_byte s b i"
    using check_write_block_ok [OF s1(1,2)] s1(3,4) by auto
  have nb: "ldw (super_p u + 4) u = Some (word_of_nat n)"
    if "super_p u = disk_addr 1" "cached u 1" "\<forall>i < 4096. cache_byte u 1 i = disk_byte s 1 i" for u
  proof -
    have "word_at (cache_byte u 1) 4 = word_at (disk_byte s 1) 4" by (rule word_at_cong) (auto simp: that)
    then show ?thesis using ldw_block [of 1 u 4] that v by (simp add: block_byte_def)
  qed
  have nb2: "ldw (super_p s2 + 4) s2 = Some (word_of_nat n)" using nb s2 by simp
  have pre: "super_p s2 \<noteq> 0" "\<forall>b < 0x40000. cached s2 b \<longleftrightarrow> b < 0 + 2" "0 + (n div 32768 + 1) < n - 1" "0 < n"
    using s2(2,4) n(2) disk_addr_neq0 [of 1] by auto
  obtain s3 where s3: "foldM (\<lambda>i s. do { (_, _, _, s) \<leftarrow> read_block (word_of_nat i + 2) s; Some s })
      [0..<0 + (n div 32768 + 1)] s2 = Some s3"
    "super_p s3 = super_p s2" "bitmap_p s3 = 0" "\<forall>b < 0x40000. cached s3 b \<longleftrightarrow> b < 0 + (n div 32768 + 1) + 2"
    "disk_byte s3 = disk_byte s2"
    "\<forall>b < 0x40000. \<forall>i < 4096. cache_byte s3 b i =
       (if 0 + 2 \<le> b \<and> b < 0 + (n div 32768 + 1) + 2 then disk_byte s2 b i else cache_byte s2 b i)"
    using read_bitmap_blocks [OF pre(1) s2(3) nb2 n(1) s2(2) pre(2-4)] by blast
  define t where "t = s3\<lparr>bitmap_p := disk_addr 2\<rparr>"
  have q: "n div 32768 + 2 < 0x40000" using n by simp
  have byte: "\<forall>b. 1 \<le> b \<and> b \<le> 2 + n div 32768 \<longrightarrow> (\<forall>i < 4096. cache_byte t b i = disk_byte s b i)"
    using s3(6) s2(5,6) q by (auto simp: t_def Suc_le_eq le_eq_less_or_eq [of 1])
  have c: "\<forall>b < 0x40000. cached t b \<longleftrightarrow> b \<le> 2 + n div 32768" using s3(4) by (auto simp: t_def)
  have c1: "cached t 1" and p: "super_p t = disk_addr 1" "bitmap_p t = disk_addr 2" using c s3(2) s2(2) by (auto simp: t_def)
  have nbt: "ldw (super_p t + 4) t = Some (word_of_nat n)" using nb [OF p(1) c1] byte by simp
  then have nn: "nblocks t = n"
    using n(1) by (auto simp: nblocks_def ldw_def unat_of_nat split: if_splits)
  have m: "mounted t"
    using nn n(1) c c1 p q by (auto simp: mounted_def)
  have "bmap t 0 = word_at (cache_byte t 2) 0"
    using rd32_block [of 0 "fmem t" 2] by (simp add: bmap_def p block_byte_def cache_byte_def [abs_def])
  also have "\<dots> = word_at (disk_byte s 2) 0" using byte by (intro word_at_cong) auto
  finally have tk: "taken t b" if "b \<le> 2 + n div 32768" for b
    using v that n(1) by (auto simp: taken_def nn bm_bit_def)
  have as: "assert_used (word_of_nat b) t = Some t" if "b \<le> 2 + n div 32768" for b
    using block_is_free_eq [OF m, of b] tk [OF that] that q by (simp add: assert_used_def)
  have lim: "unat ((word_of_nat n :: u32) div BLOCK_SIZE_BIT + 1) = n div 32768 + 1"
    using n(1) by (simp add: unat_div unat_of_nat unat_word_ariths)
  have "foldM (\<lambda>i. assert_used (word_of_nat i + 2)) [0..<n div 32768 + 1] t = Some t"
  proof (rule foldM_assert)
    fix i assume "i \<in> set [0..<n div 32768 + 1]"
    then show "assert_used (word_of_nat i + 2) t = Some t" using as [of "2 + i"] by (simp add: add.commute)
  qed
  then have "read_bitmap s2 = Some t"
    using nb2 s3(1) as [of 0] as [of 1] lim by (simp add: read_bitmap_def Let_def flip: t_def)
  then have "fs_init s = Some t" using rs s2(1) by (simp add: fs_init_def)
  moreover have "\<forall>b < 0x40000. \<forall>i < 4096. disk_byte t b i = disk_byte s b i"
    using s3(5) s2(6) by (simp add: t_def)
  ultimately show ?thesis using m nn c byte tk by blast
qed


text \<open>
  C31. Mounting: on a valid disk \<^verbatim>\<open>fs_init\<close> succeeds, its self-test leaves every block of the disk as it
  was, and afterwards the super block and the whole bitmap are in the cache with the contents of
  the disk, their blocks are in use, and the block functions work on them.
\<close>

theorem fs_mounts:
  assumes "super_p s = 0" "bitmap_p s = 0" "\<forall>b < 0x40000. \<not> cached s b" "valid_disk s n"
  shows "\<exists>t. fs_init s = Some t \<and> mounted t \<and> nblocks t = n \<and>
    (\<forall>b < 0x40000. \<forall>i < 4096. disk_byte t b i = disk_byte s b i) \<and>
    (\<forall>b < 0x40000. cached t b \<longleftrightarrow> b \<le> 2 + n div 32768) \<and>
    (\<forall>b. 1 \<le> b \<and> b \<le> 2 + n div 32768 \<longrightarrow> (\<forall>i < 4096. cache_byte t b i = disk_byte s b i)) \<and>
    (\<forall>b \<le> 2 + n div 32768. taken t b)"
  by (rule fs_init_ok [OF assms])

definition ex_disk :: fs where
  "ex_disk = \<lparr>fmem = (\<lambda>_. 0), fmapped = (\<lambda>_. False), fdirty = (\<lambda>_. False),
     fdisk = (\<lambda>q i. if q = 8 then (if i < 8 then [0x97, 0x60, 0x28, 0x68, 0, 4, 0, 0] ! i else 0)
                   else if q = 16 then (if i = 0 then 0xf8 else 0xff) else 0),
     super_p = 0, bitmap_p = 0\<rparr>"

lemma ex_disk_valid: "valid_disk ex_disk 1024"
proof -
  have "word_at (disk_byte ex_disk 1) 0 = 0x68286097" "word_at (disk_byte ex_disk 1) 4 = 1024"
    "word_at (disk_byte ex_disk 2) 0 = 0xfffffff8"
    by (simp_all add: word_at_def rd32_def disk_byte_def ex_disk_def One_nat_def)
  moreover have "\<not> bit (0xfffffff8 :: u32) b" if "b \<le> 2" for b
  proof -
    have m: "(0xfffffff8 :: u32) = NOT (mask 3)" by (simp add: mask_eq_exp_minus_1 One_nat_def)
    show ?thesis unfolding m using that by (simp add: bit_not_iff bit_mask_iff One_nat_def)
  qed
  ultimately show ?thesis by (simp add: valid_disk_def)
qed

lemma fs_mounts_witness: "\<exists>t. fs_init ex_disk = Some t \<and> mounted t \<and> nblocks t = 1024"
  using fs_mounts [OF _ _ _ ex_disk_valid] by (auto simp: ex_disk_def cached_def)

end
