(* ===== verification/Files.thy ===== *)
theory Files
  imports Blocks
begin

text \<open>
  Paths and durability in \<^verbatim>\<open>fs/fs.c\<close>: \<^verbatim>\<open>walk_path\<close>, which parses a path with pointers while it walks,
  is a walk along the list of the path's components; and only \<^verbatim>\<open>file_dirty\<close> marks blocks, so what
  the other operations change in directories stays in the cache.
\<close>

section \<open>Paths\<close>

text \<open>The components of a path: the non-empty runs of bytes between slashes.\<close>

function pieces :: "u8 list \<Rightarrow> u8 list list" where
  "pieces p =
     (if p = [] then []
      else if hd p = slash then pieces (tl p)
      else takeWhile (\<lambda>c. c \<noteq> slash) p # pieces (dropWhile (\<lambda>c. c \<noteq> slash) p))"
  by pat_completeness auto
termination
proof (relation "measure length")
  fix p :: "u8 list" assume "p \<noteq> []" "hd p \<noteq> slash"
  then have "dropWhile (\<lambda>c. c \<noteq> slash) p = dropWhile (\<lambda>c. c \<noteq> slash) (tl p)"
    by (cases p) auto
  then show "(dropWhile (\<lambda>c. c \<noteq> slash) p, p) \<in> measure length"
    using \<open>p \<noteq> []\<close> length_dropWhile_le [of "\<lambda>c. c \<noteq> slash" "tl p"] by (cases p) auto
qed auto

declare pieces.simps [simp del]

text \<open>The walk along a list of names.\<close>

fun walk_names :: "u32 \<Rightarrow> u32 \<Rightarrow> u8 list list \<Rightarrow> fs \<Rightarrow> walkres option" where
  "walk_names dir file [] s = Some (0, dir, file, None, s)"
| "walk_names dir file (name # names) s =
     (if length name \<ge> MAXNAMELEN then Some (- E_BAD_PATH, 0, 0, None, s)
      else do {
        t \<leftarrow> ldw (file + f_type) s;
        if t \<noteq> FTYPE_DIR then Some (- E_NOT_FOUND, 0, 0, None, s)
        else do {
          (r, f, s) \<leftarrow> dir_lookup file name s;
          if r = - E_NOT_FOUND \<and> names = [] then Some (r, file, 0, Some name, s)
          else if r < 0 then Some (r, 0, 0, None, s)
          else walk_names file f names s } })"

lemma pieces_skip: "pieces (skip_slash p) = pieces p"
proof (induction p)
  case (Cons c p)
  then have "pieces (c # p) = pieces (dropWhile (\<lambda>c. c = slash) p)" if "c = slash"
    using that by (subst pieces.simps) (simp add: skip_slash_def)
  then show ?case by (auto simp: skip_slash_def)
qed (simp add: skip_slash_def)

lemma skip_slash_hd: "skip_slash p = [] \<or> hd (skip_slash p) \<noteq> slash"
  using hd_dropWhile [of "\<lambda>c. c = slash" p] by (auto simp: skip_slash_def)

lemma walk_from_names:
  "p = [] \<or> hd p \<noteq> slash \<Longrightarrow> walk_from dir file p s = walk_names dir file (pieces p) s"
proof (induction dir "file" p s rule: walk_from.induct)
  case (1 dir "file" p s)
  show ?case
  proof (cases "p = []")
    case True
    then show ?thesis by (simp add: walk_from.simps pieces.simps)
  next
    case False
    let ?name = "takeWhile (\<lambda>c. c \<noteq> slash) p" and ?rest = "skip_slash (dropWhile (\<lambda>c. c \<noteq> slash) p)"
    have "hd p \<noteq> slash" using "1.prems" False by simp
    then have p: "pieces p = ?name # pieces ?rest"
      using False by (subst pieces.simps) (simp only: pieces_skip if_False)
    have nil: "pieces ?rest = [] \<longleftrightarrow> ?rest = []"
      using skip_slash_hd [of "dropWhile (\<lambda>c. c \<noteq> slash) p"] by (subst pieces.simps) auto
    have IH: "walk_from file f ?rest t = walk_names file f (pieces ?rest) t"
      if "\<not> MAXNAMELEN \<le> length ?name" "ldw (file + f_type) s = Some FTYPE_DIR"
        "dir_lookup file ?name s = Some (r, f, t)" "\<not> r < 0" for r f t
      using "1.IH" [OF False refl refl refl that(1,2) _ that(3)] that skip_slash_hd by auto
    show ?thesis
      unfolding walk_from.simps [of dir "file" p s] p walk_names.simps Let_def nil
      using False IH
      by (auto simp del: slash_def MAXNAMELEN_def FTYPE_DIR_def f_type_def split: option.splits)
  qed
qed

text \<open>
  C32. \<^verbatim>\<open>walk_path\<close> follows the components of the path, from the root: leading, doubled and trailing
  slashes do not count, each component but the last must be a directory that has the next, and the
  directory and the missing name are reported exactly when only the last one is missing. So two
  paths with the same components mean the same.
\<close>

theorem walk_path_names:
  "walk_path p s = walk_names 0 (super_p s + s_root) (pieces p) s \<and>
   (pieces p = pieces q \<longrightarrow> walk_path p s = walk_path q s)"
  using skip_slash_hd walk_from_names by (auto simp: walk_path_def pieces_skip)

lemma walk_path_names_witness:
  "\<forall>s. walk_path [47, 97, 47, 47, 98, 47] s = walk_path [97, 47, 98] s"
proof
  fix s
  have "pieces [47, 97, 47, 47, 98, 47] = pieces [97, 47, 98]"
    by (simp add: pieces.simps)
  then show "walk_path [47, 97, 47, 47, 98, 47] s = walk_path [97, 47, 98] s"
    using walk_path_names [of "[47, 97, 47, 47, 98, 47]" s "[97, 47, 98]"] by blast
qed


section \<open>Which operations mark blocks dirty\<close>

text \<open>\<open>dle s t\<close>: what is dirty in \<open>t\<close> was dirty in \<open>s\<close>.\<close>

definition dle :: "fs \<Rightarrow> fs \<Rightarrow> bool" where
  "dle s t \<longleftrightarrow> (\<forall>p. fdirty t p \<longrightarrow> fdirty s p)"

named_theorems dle_step

lemma dle_refl [simp]: "dle s s"
  by (simp add: dle_def)

lemma dle_trans: "dle s t \<Longrightarrow> dle t u \<Longrightarrow> dle s u"
  by (simp add: dle_def)

lemma dle_basic [dle_step]:
  "stw a w s = Some t \<Longrightarrow> dle s t" "stb a b s = Some t \<Longrightarrow> dle s t"
  "fs_mem_alloc va s = (r, t) \<Longrightarrow> dle s t" "fs_mem_unmap va s = (r, t) \<Longrightarrow> dle s t"
  "write_block n s = Some t \<Longrightarrow> dle s t"
  by (auto simp: dle_def stw_def stb_def fs_mem_alloc_def fs_mem_unmap_def write_block_def ide_write_def
    split: if_splits)

lemma dle_ide_read [simp]: "dle s (ide_read q va n t) = dle s t"
  by (simp add: dle_def ide_read_def)

lemma dle_str_put [dle_step]: "str_put_at a cs s = Some t \<Longrightarrow> dle s t"
  by (induction a cs s rule: str_put_at.induct)
    (auto elim!: bind_SomeE dest: dle_step intro: dle_trans)

lemma dle_read_block [dle_step]: "read_block n s = Some (r, blk, new, t) \<Longrightarrow> dle s t"
  by (auto simp: read_block_def Let_def elim!: bind_SomeE dest: dle_step split: if_splits prod.splits)

lemma dle_map_block [dle_step]: "map_block n s = (r, t) \<Longrightarrow> dle s t"
  by (auto simp: map_block_def Let_def dest: dle_step split: if_splits prod.splits)

lemma dle_free_block [dle_step]: "free_block n s = Some t \<Longrightarrow> dle s t"
  by (auto simp: free_block_def Let_def elim!: bind_SomeE dest: dle_step split: if_splits)

lemma dle_alloc_block_num [dle_step]: "alloc_block_num s = Some (r, t) \<Longrightarrow> dle s t"
  by (auto simp: alloc_block_num_def Let_def elim!: bind_SomeE dest!: dle_step intro: dle_trans
    split: option.splits)

lemma dle_alloc_block [dle_step]: "alloc_block s = Some (r, t) \<Longrightarrow> dle s t"
  by (auto simp: alloc_block_def Let_def elim!: bind_SomeE dest!: dle_step
    split: if_splits prod.splits) (blast intro: dle_trans)+

lemma dle_walk [dle_step]: "file_block_walk f n a s = Some (r, p, t) \<Longrightarrow> dle s t"
  by (auto simp: file_block_walk_def Let_def elim!: bind_SomeE dest!: dle_step
    split: if_splits prod.splits) (blast intro: dle_trans)+

lemma dle_map [dle_step]: "file_map_block f n a s = Some (r, b, t) \<Longrightarrow> dle s t"
  by (auto simp: file_map_block_def Let_def elim!: bind_SomeE dest!: dle_step
    split: if_splits prod.splits) (blast intro: dle_trans)+

lemma dle_get [dle_step]: "file_get_block f n s = Some (r, b, t) \<Longrightarrow> dle s t"
  by (auto simp: file_get_block_def Let_def elim!: bind_SomeE dest!: dle_step
    split: if_splits prod.splits) (blast intro: dle_trans)+

lemma dle_lookup_from [dle_step]: "dir_lookup_from d nm is s = Some (r, f, t) \<Longrightarrow> dle s t"
proof (induction "is" arbitrary: s)
  case (Cons i "is")
  then obtain q blk u where g: "file_get_block d (word_of_nat i) s = Some (q, blk, u)"
    by (auto elim: bind_SomeE)
  then have "dle u t" using Cons
    by (auto elim!: bind_SomeE dest: dle_step split: if_splits option.splits)
  then show ?case using dle_get [OF g] by (rule dle_trans [rotated])
qed simp

lemma dle_lookup [dle_step]: "dir_lookup d nm s = Some (r, f, t) \<Longrightarrow> dle s t"
  by (auto simp: dir_lookup_def elim!: bind_SomeE dest!: dle_step)

lemma dle_alloc_from [dle_step]: "dir_alloc_from d is s = Some (r, f, t) \<Longrightarrow> dle s t"
proof (induction "is" arbitrary: s)
  case (Cons i "is")
  then obtain q blk u where g: "file_get_block d (word_of_nat i) s = Some (q, blk, u)"
    by (auto elim: bind_SomeE)
  then have "dle u t" using Cons
    by (auto elim!: bind_SomeE dest: dle_step split: if_splits option.splits)
  then show ?case using dle_get [OF g] by (rule dle_trans [rotated])
qed simp

lemma dle_alloc_file [dle_step]: "dir_alloc_file d s = Some (r, f, t) \<Longrightarrow> dle s t"
  by (auto simp: dir_alloc_file_def Let_def elim!: bind_SomeE dest!: dle_step
    split: if_splits prod.splits option.splits) (blast intro: dle_trans)+


lemma dle_walk_names [dle_step]: "walk_names d f ns s = Some (r, d', f', e, t) \<Longrightarrow> dle s t"
proof (induction ns arbitrary: d f s)
  case (Cons n ns)
  show ?case
  proof (cases "dle s t")
    case False
    then obtain q g u where g: "dir_lookup f n s = Some (q, g, u)"
      using Cons.prems by (auto elim!: bind_SomeE split: if_splits)
    then have "dle u t"
      using Cons False by (auto elim!: bind_SomeE split: if_splits)
    then show ?thesis using dle_lookup [OF g] by (rule dle_trans [rotated])
  qed
qed simp

lemma dle_walk_path [dle_step]: "walk_path p s = Some (r, d, f, e, t) \<Longrightarrow> dle s t"
  using skip_slash_hd [of p] by (auto simp: walk_path_def walk_from_names dest: dle_step)

lemma dle_open [dle_step]: "file_open p s = Some (r, f, t) \<Longrightarrow> dle s t"
  by (auto simp: file_open_def elim!: bind_SomeE dest!: dle_step)

lemma dle_create [dle_step]: "file_create p s = Some (r, f, t) \<Longrightarrow> dle s t"
  by (auto simp: file_create_def elim!: bind_SomeE dest!: dle_step split: if_splits prod.splits)
    (blast intro: dle_trans)+

lemma dle_foldM:
  assumes "foldM g xs s = Some t" "\<And>x u v. g x u = Some v \<Longrightarrow> dle u v"
  shows "dle s t"
  using assms(1) by (rule foldM_inv [where I = "dle s"]) (auto dest!: assms(2) intro: dle_trans)

lemma dle_clear [dle_step]: "file_clear_block f n s = Some (r, t) \<Longrightarrow> dle s t"
  by (auto simp: file_clear_block_def elim!: bind_SomeE dest!: dle_step split: if_splits prod.splits)
    (blast intro: dle_trans)+

lemma dle_flush [dle_step]:
  assumes "file_flush f s = Some t"
  shows "dle s t"
proof -
  obtain n :: u32 where "foldM (\<lambda>bno s. do {
       (r, diskno, s) \<leftarrow> file_map_block f (word_of_nat bno) False s;
       if r < 0 then Some s
       else if block_is_dirty diskno s then write_block diskno s
       else Some s }) [0..<unat n] s = Some t"
    using assms by (auto simp: file_flush_def elim!: bind_SomeE)
  then show ?thesis
    by (rule dle_foldM) (auto elim!: bind_SomeE dest!: dle_step split: if_splits intro: dle_trans)
qed

lemma dle_flush_dir [dle_step]: "flush_dir f s = Some t \<Longrightarrow> dle s t"
  by (auto simp: flush_dir_def elim!: bind_SomeE dest!: dle_step split: if_splits)

lemma dle_clear_loop [dle_step]:
  assumes "foldM (\<lambda>bno s. do {
      (r, s) \<leftarrow> file_clear_block f (word_of_nat bno) s; _ \<leftarrow> panic_on (r \<noteq> 0); Some s }) xs s = Some t"
  shows "dle s t"
  by (rule dle_foldM [OF assms]) (auto elim!: bind_SomeE dest: dle_step)

lemma dle_truncate [dle_step]: "file_truncate f n s = Some t \<Longrightarrow> dle s t"
  by (auto simp: file_truncate_def Let_def elim!: bind_SomeE dest!: dle_step split: if_splits)
    (blast intro: dle_trans)+

lemma dle_set_size [dle_step]: "file_set_size f n s = Some (r, t) \<Longrightarrow> dle s t"
  by (auto simp: file_set_size_def Let_def elim!: bind_SomeE dest!: dle_step split: if_splits)
    (blast intro: dle_trans)+

lemma dle_close [dle_step]: "file_close f s = Some t \<Longrightarrow> dle s t"
  by (auto simp: file_close_def elim!: bind_SomeE dest!: dle_step) (blast intro: dle_trans)

lemma dle_remove [dle_step]: "file_remove p s = Some (r, t) \<Longrightarrow> dle s t"
  by (auto simp: file_remove_def elim!: bind_SomeE dest!: dle_step split: if_splits)
    (blast intro: dle_trans)+

lemma not_dirty_block: "\<forall>p. \<not> fdirty s p \<Longrightarrow> \<not> block_is_dirty n s"
  by (simp add: block_is_dirty_def Let_def va_is_dirty_def)

lemma sync_clean: "\<forall>p. \<not> fdirty s p \<Longrightarrow> fs_sync s = Some t \<Longrightarrow> t = s"
proof -
  assume c: "\<forall>p. \<not> fdirty s p" and "fs_sync s = Some t"
  then obtain n :: u32 where "foldM (\<lambda>i s. if block_is_dirty (word_of_nat i) s then write_block (word_of_nat i) s
      else Some s) [0..<unat n] s = Some t"
    by (auto simp: fs_sync_def elim!: bind_SomeE)
  then show "t = s"
    by (rule foldM_inv [where I = "\<lambda>u. u = s"]) (auto simp: not_dirty_block [OF c])
qed


text \<open>
  Creating, resizing or removing a file is not durable: none of them marks a block of the
  directory dirty, so if nothing was dirty before, \<^verbatim>\<open>fs_sync\<close> writes nothing at all and the change of
  the directory (a name, a size, a removal) is only in the cache.
\<close>

theorem metadata_not_synced:
  assumes "\<forall>p. \<not> fdirty s p"
    "file_create path s = Some (r, f, t) \<or> file_set_size f n s = Some (r, t) \<or> file_remove path s = Some (r, t)"
    "fs_sync t = Some u"
  shows "u = t"
proof -
  have "dle s t" using assms(2) by (auto dest: dle_step)
  then show ?thesis using assms(1,3) by (intro sync_clean) (auto simp: dle_def)
qed

text \<open>A root directory with one block, number 5, empty.\<close>

definition ex_dir :: fs where
  "ex_dir = \<lparr>fmem = (\<lambda>a. if a = 0x10001005 then 4 else if a = 0x10001089 then 16
               else if a = 0x1000108c then 1 else if a = 0x10001090 then 5
               else if 0x10002001 \<le> a \<and> a < 0x10002080 then 0xff else 0),
     fmapped = (\<lambda>p. p = 0x10001 \<or> p = 0x10002 \<or> p = 0x10005), fdirty = (\<lambda>_. False),
     fdisk = (\<lambda>_ _. 0), super_p = 0x10001000, bitmap_p = 0x10002000\<rparr>"

lemma ex_create: "\<exists>m. file_create [97] ex_dir = Some (0, 0x10005000, ex_dir\<lparr>fmem := m\<rparr>) \<and> m 0x10005000 = 97"
proof -
  let ?d = "0x10001008"
  have w: "ldw 0x1000108c ex_dir = Some 1" "ldw 0x10001088 ex_dir = Some 0x1000" "ldw 0x10001090 ex_dir = Some 5"
    "ldw 0x10001004 ex_dir = Some 0x400"
    by (simp_all add: ldw_def ex_dir_def VPN_div rd32_def)
  have fr: "block_is_free 5 ex_dir = Some False"
    by (simp add: block_is_free_def w) (simp add: ex_dir_def ldw_def VPN_div rd32_def)
  have m: "block_is_mapped 5 ex_dir = 0x10005000"
    by (simp add: block_is_mapped_def Let_def disk_addr_def va_is_mapped_def VPN_div ex_dir_def)
  have p: "super_p ex_dir = 0x10001000" "bitmap_p ex_dir = 0x10002000" by (simp_all add: ex_dir_def)
  have "read_block 5 ex_dir = Some (0, 0x10005000, False, ex_dir)"
    by (simp add: read_block_def p w fr m Let_def disk_addr_def)
  then have g: "file_get_block ?d 0 ex_dir = Some (0, 0x10005000, ex_dir)"
    by (simp add: file_get_block_def file_map_block_def file_block_walk_def w)
  have b: "ldb (0x10005000 + 256 * word_of_nat j) ex_dir = Some 0" if "j < 16" for j
  proof -
    have "unat (0x10005000 + 256 * word_of_nat j :: u32) = 0x10005000 + 256 * j"
      using that by (simp add: unat_word_ariths unat_of_nat)
    then show ?thesis using that by (auto simp: ldb_def VPN_div ex_dir_def word_less_nat_alt word_le_nat_alt word_unat_eq_iff)
  qed
  have "find_entry 0x10005000 [97] js ex_dir = Some None" if "set js \<subseteq> {..<16}" for js
    using that b by (induction js) auto
  then have fe: "find_entry 0x10005000 [97] [0..<FILE2BLK] ex_dir = Some None"
    by (simp add: subset_eq)
  have "ldb 0x10005000 ex_dir = Some 0" using b [of 0] by simp
  then have al: "dir_alloc_file ?d ex_dir = Some (0, 0x10005000, ex_dir)"
    using g by (simp add: dir_alloc_file_def w upt_conv_Cons)
  have "dir_lookup_from ?d [97] [0] ex_dir = Some (- 10, 0, ex_dir)"
    using g fe by (simp del: find_entry.simps FILE2BLK_def)
  then have lk: "dir_lookup ?d [97] ex_dir = Some (- 10, 0, ex_dir)"
    by (simp add: dir_lookup_def w upt_conv_Cons del: dir_lookup_from.simps)
  have "pieces [97] = [[97]]" by (simp add: pieces.simps)
  then have "walk_path [97] ex_dir = Some (- 10, ?d, 0, Some [97], ex_dir)"
    using walk_from_names [of "[97]" 0 ?d ex_dir] lk
    by (simp add: walk_path_def skip_slash_def p w)
  then show ?thesis
    using al by (simp add: file_create_def stb_def VPN_div) (simp add: ex_dir_def)
qed

lemma sync_clean_total:
  assumes "\<forall>p. \<not> fdirty s p" "fmapped s (VPN (super_p s + 4))"
  shows "fs_sync s = Some s"
proof -
  have "foldM (\<lambda>i s. if block_is_dirty (word_of_nat i) s then write_block (word_of_nat i) s else Some s) xs s = Some s" for xs
    by (induction xs) (simp_all add: not_dirty_block [OF assms(1)])
  then show ?thesis using assms(2) by (simp add: fs_sync_def ldw_def)
qed

lemma metadata_not_synced_witness:
  "\<exists>f t u. file_create [97] ex_dir = Some (0, f, t) \<and> fmem t f = 97 \<and> fs_sync t = Some u \<and> u = t"
proof -
  obtain m where m: "file_create [97] ex_dir = Some (0, 0x10005000, ex_dir\<lparr>fmem := m\<rparr>)" "m 0x10005000 = 97"
    using ex_create by blast
  obtain u where u: "fs_sync (ex_dir\<lparr>fmem := m\<rparr>) = Some u"
    using sync_clean_total [of "ex_dir\<lparr>fmem := m\<rparr>"] by (auto simp: ex_dir_def VPN_div)
  have "u = ex_dir\<lparr>fmem := m\<rparr>"
    by (rule metadata_not_synced [OF _ disjI1 [OF m(1)] u]) (simp add: ex_dir_def)
  then show ?thesis using m u by (intro exI conjI) auto
qed

end
