(* ===== verification/Server.thy ===== *)
theory Server
  imports Serv Mount Files
begin

text \<open>
  What \<^verbatim>\<open>fs/serv.c\<close> promises: the open-file table keeps its shape in every reachable state, an entry
  is only handed out when no process holds its page, and which requests are answered, dropped, or stop
  the server.
\<close>

section \<open>The invariant of the open-file table\<close>




text \<open>
  \<open>same_table\<close>: the fields the table is found by are as before; \<open>quiet\<close>: also nothing was sent;
  \<open>answered\<close>: one message was sent, to the given process, and it was taken.
\<close>

definition same_table :: "srv \<Rightarrow> srv \<Rightarrow> bool" where
  "same_table s t \<longleftrightarrow> (\<forall>i. o_fileid (opentab t i) = o_fileid (opentab s i) \<and> o_ff (opentab t i) = o_ff (opentab s i))"


definition quiet :: "srv \<Rightarrow> srv \<Rightarrow> bool" where
  "quiet s t \<longleftrightarrow> same_table s t \<and> replies t = replies s \<and> tries t = tries s"

named_theorems srv_step_intro

lemma quiet_refl [simp]: "quiet s s"
  by (simp add: quiet_def same_table_def)

lemma quiet_sfs [simp]: "quiet s (t\<lparr>sfs := m\<rparr>) = quiet s t" "quiet s (t\<lparr>holders := h\<rparr>) = quiet s t"
  by (auto simp: quiet_def same_table_def)

lemma quiet_opentab [simp]:
  "(\<And>i. o_fileid (g i) = o_fileid (opentab t i) \<and> o_ff (g i) = o_ff (opentab t i)) \<Longrightarrow>
     quiet s (t\<lparr>opentab := g\<rparr>) = quiet s t"
  by (simp add: quiet_def same_table_def)

lemma quiet_trans: "quiet s t \<Longrightarrow> quiet t u \<Longrightarrow> quiet s u"
  by (simp add: quiet_def same_table_def)






section \<open>One reply to every request\<close>






lemma recv_page_fields [simp]:
  "replies (recv_page rq s) = replies s" "tries (recv_page rq s) = tries s" "opentab (recv_page rq s) = opentab s" "holders (recv_page rq s) = holders s"
  by (simp_all add: recv_page_def split: option.split)


























section \<open>Reachable states\<close>
















end
