(* ===== verification/Fork.thy ===== *)
theory Fork
  imports Mmu
begin

text \<open>
  \<^verbatim>\<open>user/lib/fork.c\<close>: copy-on-write fork. The state is what the user programs of all environments
  see of memory: \<open>spt e p\<close> is the frame and the permission bits of page \<open>p\<close> of environment \<open>e\<close>,
  \<open>sdir e d\<close> tells whether entry \<open>d\<close> of its directory is valid, \<open>sframe\<close> has the contents of the
  frames, the kernel hands out the frames from \<open>snext\<close> on, and \<open>cow_handler e\<close> tells whether
  \<^verbatim>\<open>cow_entry\<close> is the handler of the environment's write faults. The frames in \<open>sswapped\<close> are on the
  swap disk. That shows neither in what a program loads and stores nor in the other permission bits, as theory \<open>Vm\<close>
  proves, but it does show in the page table a program reads at \<^verbatim>\<open>UVPT\<close>: an entry of such a
  frame has \<^verbatim>\<open>PTE_SWAPPED\<close> for \<^verbatim>\<open>PTE_V\<close> (\<open>vpt_perm\<close>).

  The three system calls are those of \<^verbatim>\<open>kern/syscall_all.c\<close> as a user sees them when memory
  does not run out; environment numbers stand for envids. Theory \<open>ForkKernel\<close> relates them to the kernel's.
  A failure that the code turns into a panic is \<^term>\<open>None\<close>.
\<close>

section \<open>Memory\<close>

record spaces =
  spt :: "nat \<Rightarrow> nat \<Rightarrow> (nat \<times> u32) option"
  sdir :: "nat \<Rightarrow> nat \<Rightarrow> bool"
  sframe :: "nat \<Rightarrow> nat \<Rightarrow> u8"
  snext :: nat
  sswapped :: "nat \<Rightarrow> bool"
  cow_handler :: "nat \<Rightarrow> bool"
  runnable :: "nat \<Rightarrow> bool"

text \<open>
  The flags of an entry as \<^verbatim>\<open>vpt\<close> shows them; an eviction of a frame by the kernel, for whatever environment it needs
  a page; and an access, which brings the frame in (\<^verbatim>\<open>page_lookup\<close>, called on a TLB miss, by \<^verbatim>\<open>do_tlb_mod\<close> and by the
  system calls).
\<close>

definition vpt_perm :: "spaces \<Rightarrow> nat \<times> u32 \<Rightarrow> u32" where
  "vpt_perm s x = (if sswapped s (fst x) then (snd x AND NOT PTE_V) OR PTE_SWAPPED else snd x)"

definition evict :: "nat \<Rightarrow> spaces \<Rightarrow> spaces" where
  "evict fr s = s\<lparr>sswapped := (sswapped s)(fr := True)\<rparr>"

definition touch :: "nat \<Rightarrow> spaces \<Rightarrow> spaces" where
  "touch fr s = s\<lparr>sswapped := (sswapped s)(fr := False)\<rparr>"

definition stored_perm :: "u32 \<Rightarrow> u32" where
  "stored_perm perm = (perm AND NOT PTE_SWAPPED) OR PTE_C_CACHEABLE OR PTE_V"

definition set_page :: "nat \<Rightarrow> u32 \<Rightarrow> nat \<Rightarrow> u32 \<Rightarrow> spaces \<Rightarrow> spaces" where
  "set_page e va fr perm s =
     s\<lparr>spt := (spt s)(e := (spt s e)(VPN va \<mapsto> (fr, stored_perm perm))),
       sdir := (sdir s)(e := (sdir s e)(PDX va := True))\<rparr>"

definition s_mem_alloc :: "nat \<Rightarrow> u32 \<Rightarrow> u32 \<Rightarrow> spaces \<Rightarrow> int \<times> spaces" where
  "s_mem_alloc e va perm s =
     (if is_illegal_va va then (- E_INVAL, s)
      else (0, set_page e va (snext s) perm
                 ((touch (snext s) s)\<lparr>sframe := (sframe s)(snext s := (\<lambda>_. 0)), snext := snext s + 1\<rparr>)))"

definition s_mem_map :: "nat \<Rightarrow> u32 \<Rightarrow> nat \<Rightarrow> u32 \<Rightarrow> u32 \<Rightarrow> spaces \<Rightarrow> int \<times> spaces" where
  "s_mem_map src srcva dst dstva perm s =
     (if is_illegal_va srcva \<or> is_illegal_va dstva then (- E_INVAL, s)
      else
        (case spt s src (VPN srcva) of
           None \<Rightarrow> (- E_INVAL, s)
         | Some (fr, _) \<Rightarrow> (0, set_page dst dstva fr perm (touch fr s))))"

definition s_mem_unmap :: "nat \<Rightarrow> u32 \<Rightarrow> spaces \<Rightarrow> int \<times> spaces" where
  "s_mem_unmap e va s =
     (if is_illegal_va va then (- E_INVAL, s)
      else (0, s\<lparr>spt := (spt s)(e := (spt s e)(VPN va := None))\<rparr>))"

text \<open>\<^verbatim>\<open>try(...)\<close> in \<^verbatim>\<open>cow_entry\<close>, which has nowhere to return to.\<close>

definition must :: "int \<times> spaces \<Rightarrow> spaces option" where
  "must x = (if fst x \<noteq> 0 then None else Some (snd x))"

section \<open>Copy on write\<close>

text \<open>\<^verbatim>\<open>memcpy(UCOW, PTE_ADDR(va), PAGE_SIZE)\<close>: a page onto another, which must be writable.\<close>

definition copy_page :: "nat \<Rightarrow> u32 \<Rightarrow> u32 \<Rightarrow> spaces \<Rightarrow> spaces option" where
  "copy_page e dst src s = do {
     (fr, perm) \<leftarrow> spt s e (VPN dst);
     (fr', _) \<leftarrow> spt s e (VPN src);
     _ \<leftarrow> kassert (perm AND PTE_D \<noteq> 0);
     let s = touch fr (touch fr' s);
     Some (s\<lparr>sframe := (sframe s)(fr := (\<lambda>i. if i < unat PAGE_SIZE then sframe s fr' i
                                              else sframe s fr i))\<rparr>) }"

definition cow_entry :: "nat \<Rightarrow> u32 \<Rightarrow> spaces \<Rightarrow> spaces option" where
  "cow_entry e va s = do {
     pte \<leftarrow> spt s e (VPN va);
     let perm = vpt_perm s pte;
     _ \<leftarrow> kassert (perm AND PTE_V \<noteq> 0 \<and> perm AND PTE_SWAPPED = 0);
     _ \<leftarrow> kassert (perm AND PTE_COW \<noteq> 0);
     let perm = (perm AND NOT PTE_COW) OR PTE_D;
     s \<leftarrow> must (s_mem_alloc e UCOW perm s);
     s \<leftarrow> copy_page e UCOW (PTE_ADDR va) s;
     s \<leftarrow> must (s_mem_map e UCOW e va perm s);
     must (s_mem_unmap e UCOW s) }"

definition duppage :: "nat \<Rightarrow> nat \<Rightarrow> nat \<Rightarrow> spaces \<Rightarrow> spaces" where
  "duppage e envid vpn s =
     (let va = word_of_nat vpn * PAGE_SIZE in
      case spt s e vpn of
        None \<Rightarrow> s
      | Some pte \<Rightarrow>
          let perm = vpt_perm s pte in
          if perm AND PTE_V = 0 \<and> perm AND PTE_SWAPPED = 0 then s
          else if perm AND PTE_D \<noteq> 0 \<and> perm AND PTE_LIBRARY = 0 \<and> perm AND PTE_COW = 0 then
            let perm = (perm AND NOT PTE_D) OR PTE_COW;
                (r, s) = s_mem_map e va envid va perm s in
            if r \<noteq> 0 then s else snd (s_mem_map e va e va perm s)
          else snd (s_mem_map e va envid va perm s))"

text \<open>
  The parent's side of \<^verbatim>\<open>fork\<close>, once \<^verbatim>\<open>syscall_exofork\<close> has given it \<open>child\<close>, an environment with
  no pages; the last two calls do not fail on it.
\<close>

definition fork_pages :: "nat \<Rightarrow> nat \<Rightarrow> spaces \<Rightarrow> spaces" where
  "fork_pages e child s =
     fold (\<lambda>vpn s. if sdir s e (vpn div 1024) then duppage e child vpn s else s)
       [VPN UTEMP..<VPN USTACKTOP] s"

definition fork :: "nat \<Rightarrow> nat \<Rightarrow> spaces \<Rightarrow> spaces" where
  "fork e child s =
     (let s = (if cow_handler s e then s else s\<lparr>cow_handler := (cow_handler s)(e := True)\<rparr>);
          s = fork_pages e child s;
          s = s\<lparr>cow_handler := (cow_handler s)(child := True)\<rparr>
      in s\<lparr>runnable := (runnable s)(child := True)\<rparr>)"

section \<open>Accesses\<close>

text \<open>
  A store: the page is brought in; to a writable page it is done; otherwise the processor raises TLB Mod, which without a
  handler stops the kernel (\<^verbatim>\<open>do_tlb_mod\<close>), and with \<^verbatim>\<open>cow_entry\<close> is done again afterwards.
  The handler is user code: before it reads the page table, other processes may have run and pages may have been
  evicted; \<open>ev\<close> are their frames.
\<close>

definition s_load :: "nat \<Rightarrow> u32 \<Rightarrow> spaces \<Rightarrow> u8 option" where
  "s_load e va s = do { (fr, _) \<leftarrow> spt s e (VPN va); Some (sframe s fr (unat (va mod PAGE_SIZE))) }"

definition s_poke :: "nat \<Rightarrow> u32 \<Rightarrow> u8 \<Rightarrow> spaces \<Rightarrow> spaces option" where
  "s_poke e va b s = do {
     (fr, perm) \<leftarrow> spt s e (VPN va);
     _ \<leftarrow> kassert (perm AND PTE_D \<noteq> 0);
     Some ((touch fr s)\<lparr>sframe := (sframe s)(fr := (sframe s fr)(unat (va mod PAGE_SIZE) := b))\<rparr>) }"

definition s_store :: "nat list \<Rightarrow> nat \<Rightarrow> u32 \<Rightarrow> u8 \<Rightarrow> spaces \<Rightarrow> spaces option" where
  "s_store ev e va b s = do {
     (fr, perm) \<leftarrow> spt s e (VPN va);
     let s = touch fr s;
     if perm AND PTE_D \<noteq> 0 then s_poke e va b s
     else do {
       _ \<leftarrow> kassert (cow_handler s e);
       s \<leftarrow> cow_entry e va (fold evict ev (touch fr s));
       s_poke e va b s } }"

section \<open>What a fork leaves\<close>

text \<open>The permissions of the two copies of a page, and the page tables after \<^verbatim>\<open>fork\<close>.\<close>

definition private_page :: "u32 \<Rightarrow> bool" where
  "private_page perm \<longleftrightarrow> perm AND PTE_D \<noteq> 0 \<and> perm AND PTE_LIBRARY = 0 \<and> perm AND PTE_COW = 0"

definition cow_perm :: "u32 \<Rightarrow> u32" where
  "cow_perm perm = (if private_page perm then (perm AND NOT PTE_D) OR PTE_COW else perm)"

definition dup_child :: "(nat \<times> u32) option \<Rightarrow> (nat \<times> u32) option" where
  "dup_child x = map_option (\<lambda>(fr, perm). (fr, stored_perm (cow_perm perm))) x"

definition dup_parent :: "(nat \<times> u32) option \<Rightarrow> (nat \<times> u32) option" where
  "dup_parent x = map_option (\<lambda>(fr, perm).
     (fr, if private_page perm then stored_perm (cow_perm perm) else perm)) x"

definition user_vpn :: "nat \<Rightarrow> bool" where
  "user_vpn p \<longleftrightarrow> VPN UTEMP \<le> p \<and> p < VPN USTACKTOP"

lemma PDX_VPN: "PDX va = VPN va div 1024"
proof -
  have "(0x3FF :: u32) = mask 10" by (simp add: mask_eq_exp_minus_1)
  moreover have "(drop_bit 22 va AND mask 10) = drop_bit 22 va"
    by (rule bit_word_eqI) (auto simp: bit_simps dest: bit_imp_le_length)
  ultimately have "PDX va = unat (drop_bit 22 va)" by (simp only: PDX_def PDSHIFT_def)
  then have "PDX va = unat va div 4194304"
    by (simp only: unat_drop_bit_eq) (simp add: drop_bit_eq_div)
  then show ?thesis by (simp add: VPN_div div_mult2_eq [symmetric])
qed

lemma vpn_bounds: "VPN UTEMP = 1022" "VPN USTACKTOP = 521214" "VPN UTOP = 521216"
  by (simp_all add: VPN_div)

lemma user_vpn_iff: "user_vpn p \<longleftrightarrow> 1022 \<le> p \<and> p < 521214"
  unfolding user_vpn_def vpn_bounds ..

lemma unat_page: "p < 2 ^ 20 \<Longrightarrow> unat (word_of_nat p * PAGE_SIZE) = p * 4096"
  by (simp add: unat_word_ariths unat_of_nat)

lemma VPN_va: "p < 2 ^ 20 \<Longrightarrow> VPN (word_of_nat p * PAGE_SIZE) = p"
  unfolding VPN_div by (subst unat_page) simp_all

lemma user_vpn_legal: "user_vpn p \<Longrightarrow> \<not> is_illegal_va (word_of_nat p * PAGE_SIZE)"
  using unat_page [of p]
  by (simp add: user_vpn_iff is_illegal_va_def word_less_nat_alt word_le_nat_alt)

section \<open>Permission bits\<close>

lemma and_bit: "((w :: u32) AND push_bit n 1 = 0) \<longleftrightarrow> \<not> bit w n"
  by (simp add: bit_iff_and_push_bit_not_eq_0 del: push_bit_of_1)

lemma perm_bits:
  "(perm AND PTE_COW = 0) = (\<not> bit perm 0)" "(perm AND PTE_LIBRARY = 0) = (\<not> bit perm 1)"
  "(perm AND PTE_SWAPPED = 0) = (\<not> bit perm 3)" "(perm AND PTE_V = 0) = (\<not> bit perm 7)"
  "(perm AND PTE_D = 0) = (\<not> bit perm 8)"
  using and_bit [of perm 0] and_bit [of perm 1] and_bit [of perm 3] and_bit [of perm 7]
    and_bit [of perm 8]
  by simp_all

lemma flag_pow:
  "PTE_COW = push_bit 0 1" "PTE_LIBRARY = push_bit 1 1" "PTE_SWAPPED = push_bit 3 1"
  "PTE_V = push_bit 7 1" "PTE_D = push_bit 8 1"
  "PTE_C_CACHEABLE = push_bit 9 1 OR push_bit 10 1"
  by simp_all

lemma bit_pow: "bit (push_bit k (1 :: u32)) n = (n = k \<and> k < 32)"
  by (auto simp: bit_simps)

lemma flag_bits:
  "bit PTE_COW n = (n = 0)" "bit PTE_LIBRARY n = (n = 1)" "bit PTE_SWAPPED n = (n = 3)"
  "bit PTE_V n = (n = 7)" "bit PTE_D n = (n = 8)" "bit PTE_C_CACHEABLE n = (n = 9 \<or> n = 10)"
  unfolding flag_pow bit_or_iff bit_pow by simp_all

lemma stored_bits [simp]:
  "bit (stored_perm perm) 0 = bit perm 0" "bit (stored_perm perm) 1 = bit perm 1"
  "\<not> bit (stored_perm perm) 3" "bit (stored_perm perm) 7" "bit (stored_perm perm) 8 = bit perm 8"
  unfolding stored_perm_def bit_or_iff bit_and_iff bit_not_iff_eq flag_bits by simp_all

lemmas stored_bit1 [simp] = stored_bits(2) [unfolded One_nat_def]

lemma private_bits: "private_page perm \<longleftrightarrow> bit perm 8 \<and> \<not> bit perm 1 \<and> \<not> bit perm 0"
  unfolding private_page_def by (simp only: perm_bits not_not)

lemma cow_bits:
  "bit (cow_perm perm) 0 = (bit perm 0 \<or> private_page perm)"
  "bit (cow_perm perm) 1 = bit perm 1"
  "bit (cow_perm perm) 8 = (bit perm 8 \<and> \<not> private_page perm)"
  unfolding cow_perm_def
  by (auto simp: bit_or_iff bit_and_iff bit_not_iff_eq flag_bits private_bits
      simp del: PTE_D_def PTE_COW_def)

lemmas cow_bit1 = cow_bits(2) [unfolded One_nat_def]

text \<open>What \<^verbatim>\<open>vpt\<close> shows differs in \<^verbatim>\<open>PTE_V\<close> and \<^verbatim>\<open>PTE_SWAPPED\<close> only, which a system call ignores in a permission.\<close>

lemma vpt_bits: "bit (vpt_perm s x) n = (if sswapped s (fst x) then bit (snd x) n \<and> n \<noteq> 7 \<or> n = 3 else bit (snd x) n)"
  by (auto simp: vpt_perm_def bit_or_iff bit_and_iff bit_not_iff_eq flag_bits dest: bit_imp_le_length
      simp del: PTE_V_def PTE_SWAPPED_def)

lemma vpt_private: "private_page (vpt_perm s x) = private_page (snd x)"
  by (auto simp: private_bits vpt_bits)

lemma bit_stored: "bit (stored_perm perm) n = (bit perm n \<and> n \<noteq> 3 \<or> n = 7 \<or> n = 9 \<or> n = 10)"
  by (auto simp: stored_perm_def bit_or_iff bit_and_iff bit_not_iff_eq flag_bits dest: bit_imp_le_length
      simp del: PTE_V_def PTE_SWAPPED_def PTE_C_CACHEABLE_def)

lemma vpt_stored:
  "stored_perm (vpt_perm s x) = stored_perm (snd x)"
  "stored_perm ((vpt_perm s x AND NOT PTE_D) OR PTE_COW) = stored_perm ((snd x AND NOT PTE_D) OR PTE_COW)"
  by (rule bit_word_eqI, auto simp: bit_stored vpt_bits bit_or_iff bit_and_iff bit_not_iff_eq flag_bits
      simp del: PTE_D_def PTE_COW_def)+

lemma touch_frame [simp]:
  "spt (touch fr s) = spt s" "sdir (touch fr s) = sdir s" "sframe (touch fr s) = sframe s" "snext (touch fr s) = snext s"
  "cow_handler (touch fr s) = cow_handler s" "runnable (touch fr s) = runnable s"
  "sswapped (touch fr s) = (sswapped s)(fr := False)"
  by (simp_all add: touch_def)

lemma evicts_frame [simp]:
  "spt (fold evict ev s) = spt s" "sdir (fold evict ev s) = sdir s" "sframe (fold evict ev s) = sframe s"
  "snext (fold evict ev s) = snext s" "cow_handler (fold evict ev s) = cow_handler s" "runnable (fold evict ev s) = runnable s"
  "sswapped (fold evict ev s) fr \<longleftrightarrow> fr \<in> set ev \<or> sswapped s fr"
  by (induction ev arbitrary: s) (auto simp: evict_def)

section \<open>Duplicating the pages\<close>

definition dup_into :: "nat \<Rightarrow> nat \<Rightarrow> nat set \<Rightarrow> spaces \<Rightarrow> spaces \<Rightarrow> bool" where
  "dup_into e c P s t \<longleftrightarrow>
     spt t = (spt s)(e := (\<lambda>p. if p \<in> P then dup_parent (spt s e p) else spt s e p),
                     c := (\<lambda>p. if p \<in> P then dup_child (spt s e p) else spt s c p)) \<and>
     (\<forall>e' d. e' \<noteq> c \<longrightarrow> sdir t e' d = sdir s e' d) \<and>
     (\<forall>d. sdir t c d = (sdir s c d \<or> (\<exists>p \<in> P. p div 1024 = d \<and> spt s e p \<noteq> None))) \<and>
     sframe t = sframe s \<and> snext t = snext s \<and> cow_handler t = cow_handler s \<and>
     runnable t = runnable s"

lemma duppage_step:
  assumes "e \<noteq> c" "user_vpn p" "spt s c p = None" "spt s e p \<noteq> None \<Longrightarrow> sdir s e (p div 1024)"
    and "\<And>fr perm. spt s e p = Some (fr, perm) \<Longrightarrow> bit perm 7"
  shows "dup_into e c {p} s (duppage e c p s)"
proof -
  have p: "p < 2 ^ 20" using assms(2) by (simp add: user_vpn_iff)
  note va = VPN_va [OF p] user_vpn_legal [OF assms(2)]
  have pdx: "PDX (word_of_nat p * PAGE_SIZE) = p div 1024" using va(1) by (simp only: PDX_VPN)
  show ?thesis
  proof (cases "spt s e p")
    case None
    then show ?thesis using assms
      by (auto simp: duppage_def dup_into_def dup_parent_def dup_child_def fun_eq_iff)
  next
    case (Some x)
    obtain fr perm where x: "x = (fr, perm)" by (cases x)
    have d: "sdir s e (p div 1024)" using assms(4) Some by simp
    let ?va = "word_of_nat p * PAGE_SIZE" and ?v = "vpt_perm s (fr, perm)"
    have there: "(?v AND PTE_V = 0 \<and> ?v AND PTE_SWAPPED = 0) = False"
      unfolding perm_bits vpt_bits using assms(5) Some x by auto
    have priv: "(?v AND PTE_D \<noteq> 0 \<and> ?v AND PTE_LIBRARY = 0 \<and> ?v AND PTE_COW = 0) = private_page perm"
      using vpt_private [of s "(fr, perm)"] by (simp only: private_page_def snd_conv)
    note st = vpt_stored [of s "(fr, perm)", simplified snd_conv]
    let ?w = "(?v AND NOT PTE_D) OR PTE_COW"
    have dup: "duppage e c p s = (if private_page perm
        then let (r, s) = s_mem_map e ?va c ?va ?w s in if r \<noteq> 0 then s else snd (s_mem_map e ?va e ?va ?w s)
        else snd (s_mem_map e ?va c ?va ?v s))"
      unfolding duppage_def Let_def Some x option.case there if_False priv ..
    show ?thesis
    proof (cases "private_page perm")
      case True
      have "duppage e c p s = set_page e ?va fr ?w (touch fr (set_page c ?va fr ?w (touch fr s)))"
        using Some x va assms(1) True
        by (simp add: dup s_mem_map_def set_page_def Let_def del: PAGE_SIZE_def PTE_D_def PTE_COW_def)
      then show ?thesis using Some x va pdx assms(1) d True
        by (auto simp: dup_into_def set_page_def dup_parent_def dup_child_def cow_perm_def st fun_eq_iff
            simp del: PAGE_SIZE_def PTE_D_def PTE_COW_def)
    next
      case False
      have "duppage e c p s = set_page c ?va fr ?v (touch fr s)"
        using Some x va assms(1) False by (simp add: dup s_mem_map_def del: PAGE_SIZE_def)
      then show ?thesis using Some x va pdx assms(1) d False
        by (auto simp: dup_into_def set_page_def dup_parent_def dup_child_def cow_perm_def st fun_eq_iff
            simp del: PAGE_SIZE_def)
    qed
  qed
qed

lemma dup_into_trans:
  assumes "dup_into e c {p} s t" "dup_into e c P t u" "e \<noteq> c" "p \<notin> P"
  shows "dup_into e c (insert p P) s u"
  using assms unfolding dup_into_def by (auto simp: fun_eq_iff)

lemma fold_duppage:
  assumes "e \<noteq> c" "distinct ps" "\<forall>p \<in> set ps. user_vpn p \<and> spt s c p = None"
    and "\<forall>p. spt s e p \<noteq> None \<longrightarrow> sdir s e (p div 1024)"
    and "\<forall>p fr perm. spt s e p = Some (fr, perm) \<longrightarrow> bit perm 7"
  shows "dup_into e c (set ps) s
    (fold (\<lambda>vpn s. if sdir s e (vpn div 1024) then duppage e c vpn s else s) ps s)"
  using assms(2-)
proof (induction ps arbitrary: s)
  case Nil
  show ?case by (simp add: dup_into_def)
next
  case (Cons p ps)
  define t where "t = (if sdir s e (p div 1024) then duppage e c p s else s)"
  have t: "dup_into e c {p} s t"
  proof (cases "sdir s e (p div 1024)")
    case True
    then show ?thesis using Cons.prems assms(1) duppage_step [of e c p s] by (simp add: t_def)
  next
    case False
    then have "spt s e p = None" "spt s c p = None" using Cons.prems by (blast, simp)
    then show ?thesis using False
      by (auto simp: t_def dup_into_def dup_parent_def dup_child_def fun_eq_iff)
  qed
  have "\<forall>q \<in> set ps. user_vpn q \<and> spt t c q = None" "\<forall>q. spt t e q \<noteq> None \<longrightarrow> sdir t e (q div 1024)"
    "\<forall>q fr perm. spt t e q = Some (fr, perm) \<longrightarrow> bit perm 7"
    using t Cons.prems assms(1) by (auto simp: dup_into_def dup_parent_def split: if_splits)
  then have "dup_into e c (set ps) t
      (fold (\<lambda>vpn s. if sdir s e (vpn div 1024) then duppage e c vpn s else s) ps t)"
    using Cons by simp
  then show ?case using dup_into_trans [OF t] assms(1) Cons.prems(1) by (simp add: t_def)
qed

section \<open>The invariant of copy-on-write\<close>

text \<open>
  A page that is writable and not marked \<^verbatim>\<open>PTE_LIBRARY\<close> is not marked \<^verbatim>\<open>PTE_COW\<close>, and its frame is
  mapped nowhere else; the page at \<^verbatim>\<open>UCOW\<close> is in use only inside \<^verbatim>\<open>cow_entry\<close>.
\<close>

definition entry_ok :: "spaces \<Rightarrow> nat \<Rightarrow> nat \<Rightarrow> nat \<Rightarrow> u32 \<Rightarrow> bool" where
  "entry_ok s e p fr perm \<longleftrightarrow>
     fr < snext s \<and> sdir s e (p div 1024) \<and> bit perm 7 \<and> \<not> bit perm 3 \<and>
     (bit perm 8 \<and> \<not> bit perm 1 \<longrightarrow>
        \<not> bit perm 0 \<and> (\<forall>e' p' perm'. spt s e' p' = Some (fr, perm') \<longrightarrow> e' = e \<and> p' = p))"

definition cow_wf :: "spaces \<Rightarrow> bool" where
  "cow_wf s \<longleftrightarrow>
     (\<forall>e p fr perm. spt s e p = Some (fr, perm) \<longrightarrow> entry_ok s e p fr perm) \<and>
     (\<forall>e. spt s e (VPN UCOW) = None)"

lemma cow_wfD: "cow_wf s \<Longrightarrow> spt s e p = Some (fr, perm) \<Longrightarrow> entry_ok s e p fr perm"
  by (auto simp: cow_wf_def)

lemma dup_origin:
  assumes "dup_into e c P s t" "e \<noteq> c" "\<forall>p. spt s c p = None" "spt t e' p = Some (fr, perm)"
  obtains perm0 where "spt s (if e' = c then e else e') p = Some (fr, perm0)"
    "perm = (if e' = c then stored_perm (cow_perm perm0)
             else if e' = e \<and> p \<in> P \<and> private_page perm0 then stored_perm (cow_perm perm0)
             else perm0)"
    "e' = c \<longrightarrow> p \<in> P"
proof -
  have t: "spt t e' p =
      (if e' = c then (if p \<in> P then dup_child (spt s e p) else None)
       else if e' = e \<and> p \<in> P then dup_parent (spt s e p) else spt s e' p)"
    using assms(1-3) by (auto simp: dup_into_def)
  consider "e' = c" | "e' = e" "p \<in> P" "e' \<noteq> c" | "e' \<noteq> c" "\<not> (e' = e \<and> p \<in> P)" by blast
  then show ?thesis
  proof cases
    case 1
    then show ?thesis using t assms(4) that by (auto simp: dup_child_def split: if_splits)
  next
    case 2
    then obtain perm0 where "spt s e p = Some (fr, perm0)"
      "perm = (if private_page perm0 then stored_perm (cow_perm perm0) else perm0)"
      using t assms(4) by (auto simp: dup_parent_def)
    with 2 show ?thesis by (intro that [of perm0]) auto
  next
    case 3
    then show ?thesis using t assms(4) that [of perm] by auto
  qed
qed

lemma dup_wf:
  assumes "dup_into e c P s t" "e \<noteq> c" "\<forall>p. spt s c p = None" "cow_wf s"
  shows "cow_wf t"
  unfolding cow_wf_def
proof (intro conjI allI impI)
  fix e1 show "spt t e1 (VPN UCOW) = None"
    using assms by (auto simp: cow_wf_def dup_into_def dup_parent_def dup_child_def)
next
  fix e1 p fr perm assume m: "spt t e1 p = Some (fr, perm)"
  obtain perm0 where o: "spt s (if e1 = c then e else e1) p = Some (fr, perm0)"
    "perm = (if e1 = c then stored_perm (cow_perm perm0)
             else if e1 = e \<and> p \<in> P \<and> private_page perm0 then stored_perm (cow_perm perm0)
             else perm0)" "e1 = c \<longrightarrow> p \<in> P"
    by (rule dup_origin [OF assms(1-3) m])
  have ok: "entry_ok s (if e1 = c then e else e1) p fr perm0" by (rule cow_wfD [OF assms(4) o(1)])
  have "fr < snext t" using ok assms(1) by (simp add: entry_ok_def dup_into_def)
  moreover have "sdir t e1 (p div 1024)"
    using ok o(1,3) assms(1) by (cases "e1 = c") (auto simp: entry_ok_def dup_into_def)
  moreover have "bit perm 7" "\<not> bit perm 3"
    using ok o(2) by (auto simp: entry_ok_def split: if_splits)
  moreover have "\<not> bit perm 0 \<and> (\<forall>e' p' perm'. spt t e' p' = Some (fr, perm') \<longrightarrow> e' = e1 \<and> p' = p)"
    if w: "bit perm 8 \<and> \<not> bit perm 1"
  proof -
    have w0: "bit perm0 8" "\<not> bit perm0 1" using w o(2) by (auto simp: cow_bits cow_bit1 split: if_splits)
    then have x: "e' = (if e1 = c then e else e1) \<and> p' = p"
      if "spt s e' p' = Some (fr, perm')" for e' p' perm'
      using ok that unfolding entry_ok_def by blast
    have "private_page perm0" using w0 ok by (auto simp: entry_ok_def private_bits)
    then have d: "perm = perm0" "e1 \<noteq> c" "\<not> (e1 = e \<and> p \<in> P)"
      using w o(2) by (auto simp: cow_bits cow_bit1 split: if_splits)
    have "e' = e1 \<and> p' = p" if m': "spt t e' p' = Some (fr, perm')" for e' p' perm'
    proof -
      obtain perm1 where "spt s (if e' = c then e else e') p' = Some (fr, perm1)" "e' = c \<longrightarrow> p' \<in> P"
        by (rule dup_origin [OF assms(1-3) m'])
      then show ?thesis using x [of "if e' = c then e else e'" p' perm1] d by (auto split: if_splits)
    qed
    then show ?thesis using d(1) ok w by (auto simp: entry_ok_def)
  qed
  ultimately show "entry_ok t e1 p fr perm" by (simp add: entry_ok_def)
qed

lemma fork_into:
  assumes "e \<noteq> c" "\<forall>p. spt s c p = None" "cow_wf s"
  shows "dup_into e c {p. user_vpn p} (s\<lparr>cow_handler := (cow_handler s)(e := True, c := True),
      runnable := (runnable s)(c := True)\<rparr>) (fork e c s)"
proof -
  define u where "u = s\<lparr>cow_handler := (cow_handler s)(e := True)\<rparr>"
  have u: "(if cow_handler s e then s else s\<lparr>cow_handler := (cow_handler s)(e := True)\<rparr>) = u"
    by (auto simp: u_def fun_upd_idem)
  have "dup_into e c (set [VPN UTEMP..<VPN USTACKTOP]) u (fork_pages e c u)"
    unfolding fork_pages_def
    by (rule fold_duppage)
      (use assms in \<open>auto simp: u_def user_vpn_def entry_ok_def dest: cow_wfD
        simp del: UTEMP_def USTACKTOP_def\<close>)
  moreover have "set [VPN UTEMP..<VPN USTACKTOP] = {p. user_vpn p}"
    by (auto simp: user_vpn_def simp del: UTEMP_def USTACKTOP_def)
  ultimately have "dup_into e c {p. user_vpn p} u (fork_pages e c u)" by (simp only:)
  then show ?thesis by (simp add: fork_def u Let_def dup_into_def) (simp add: u_def cong: if_cong)
qed

section \<open>Stores\<close>

lemma VPN_PTE_ADDR: "VPN (PTE_ADDR va) = VPN va"
proof -
  have "drop_bit 12 (va AND NOT 0xFFF) = drop_bit 12 va"
  proof (rule bit_word_eqI)
    fix n
    have "(0xFFF :: u32) = mask 12" by (simp add: mask_eq_exp_minus_1)
    then have "\<not> bit (0xFFF :: u32) (12 + n)" by (simp only: bit_mask_iff) simp
    then show "bit (drop_bit 12 (va AND NOT 0xFFF)) n = bit (drop_bit 12 va) n"
      unfolding bit_drop_bit_eq bit_and_iff bit_not_iff_eq by (auto dest: bit_imp_le_length)
  qed
  then show ?thesis by (simp only: VPN_def PTE_ADDR_def PGSHIFT_def)
qed

lemma page_offset:
  assumes "VPN va = VPN va'" "unat (va mod PAGE_SIZE) = unat (va' mod PAGE_SIZE)"
  shows "va = va'"
proof -
  have "unat va div 4096 = unat va' div 4096" using assms(1) by (simp only: VPN_div)
  moreover have "unat va mod 4096 = unat va' mod 4096" using assms(2) by (simp add: unat_mod)
  ultimately have "unat va = unat va'" by (metis div_mult_mod_eq)
  then show ?thesis by (rule unsigned_word_eqI)
qed

lemma offset_less: "unat (va mod PAGE_SIZE) < 4096"
  by (simp add: unat_mod)

lemma ucow_legal: "\<not> is_illegal_va UCOW" "VPN UCOW = 1023"
  by (simp_all add: is_illegal_va_def VPN_div)

text \<open>The permissions \<^verbatim>\<open>cow_entry\<close> gives the copy, and what it leaves.\<close>

definition own_perm :: "u32 \<Rightarrow> u32" where
  "own_perm perm = (perm AND NOT PTE_COW) OR PTE_D"

lemma own_bits:
  "\<not> bit (own_perm perm) 0" "bit (own_perm perm) 1 = bit perm 1" "bit (own_perm perm) 8"
  unfolding own_perm_def by (auto simp: bit_or_iff bit_and_iff bit_not_iff_eq flag_bits
      simp del: PTE_D_def PTE_COW_def)

definition owned :: "nat \<Rightarrow> u32 \<Rightarrow> nat \<Rightarrow> u32 \<Rightarrow> spaces \<Rightarrow> spaces \<Rightarrow> bool" where
  "owned e va fr perm s t \<longleftrightarrow>
     spt t = (spt s)(e := (spt s e)(VPN va \<mapsto> (snext s, stored_perm (own_perm perm)))) \<and>
     sframe t = (sframe s)(snext s := (\<lambda>i. if i < 4096 then sframe s fr i else 0)) \<and>
     snext t = snext s + 1 \<and> (\<forall>e' d. sdir s e' d \<longrightarrow> sdir t e' d)"

lemma cow_entry_run:
  assumes "cow_wf s" "spt s e (VPN va) = Some (fr, perm)" "bit perm 0" "\<not> is_illegal_va va" "\<not> sswapped s fr"
  shows "\<exists>t. cow_entry e va s = Some t \<and> owned e va fr perm s t"
proof -
  have ok: "entry_ok s e (VPN va) fr perm" by (rule cow_wfD [OF assms(1,2)])
  have nu: "VPN va \<noteq> VPN UCOW" using assms(1,2) by (auto simp: cow_wf_def simp del: UCOW_def)
  have un: "spt s e (VPN UCOW) = None" using assms(1) by (simp add: cow_wf_def del: UCOW_def)
  have d: "own_perm perm AND PTE_D \<noteq> 0" "stored_perm (own_perm perm) AND PTE_D \<noteq> 0"
    using own_bits [of perm] by (simp_all only: perm_bits stored_bits not_not)
  have chk: "perm AND PTE_V \<noteq> 0" "perm AND PTE_SWAPPED = 0" "perm AND PTE_COW \<noteq> 0"
    using ok assms(3) unfolding perm_bits entry_ok_def by auto
  have "cow_entry e va s = do {
      s \<leftarrow> must (s_mem_alloc e UCOW (own_perm perm) s);
      s \<leftarrow> copy_page e UCOW (PTE_ADDR va) s;
      s \<leftarrow> must (s_mem_map e UCOW e va (own_perm perm) s);
      must (s_mem_unmap e UCOW s) }"
    using assms(2,5) chk
    by (simp add: cow_entry_def own_perm_def vpt_perm_def Let_def
        del: PTE_D_def PTE_COW_def PTE_V_def PTE_SWAPPED_def UCOW_def)
  then show ?thesis
    using nu un d ok assms(2,4) ucow_legal(1)
    by (auto simp: must_def Let_def s_mem_alloc_def copy_page_def s_mem_map_def s_mem_unmap_def set_page_def
        VPN_PTE_ADDR owned_def fun_eq_iff entry_ok_def
        simp del: PTE_D_def UCOW_def)
qed

text \<open>The entry of an evicted frame does not pass the first test.\<close>

lemma cow_entry_swapped:
  assumes "spt s e (VPN va) = Some (fr, perm)" "sswapped s fr"
  shows "cow_entry e va s = None"
proof -
  have "bit (vpt_perm s (fr, perm)) 3" using assms(2) by (simp add: vpt_bits)
  then have "kassert (vpt_perm s (fr, perm) AND PTE_V \<noteq> 0 \<and> vpt_perm s (fr, perm) AND PTE_SWAPPED = 0) = None"
    unfolding perm_bits kassert_def by simp
  then show ?thesis unfolding cow_entry_def assms(1) Let_def by (simp only: Option.bind.simps)
qed

text \<open>What a byte \<open>b\<close> stored at \<open>va\<close> by \<open>e\<close> changes: nothing but that byte, for that environment.\<close>

definition only_byte :: "nat \<Rightarrow> u32 \<Rightarrow> u8 \<Rightarrow> spaces \<Rightarrow> spaces \<Rightarrow> bool" where
  "only_byte e va b s t \<longleftrightarrow>
     (\<forall>e' va'. s_load e' va' t = (if e' = e \<and> va' = va then Some b else s_load e' va' s))"

lemma poke_private:
  assumes "spt s e (VPN va) = Some (fr, perm)" "bit perm 8"
    and "\<And>e' p' perm'. spt s e' p' = Some (fr, perm') \<Longrightarrow> e' = e \<and> p' = VPN va"
  shows "\<exists>t. s_poke e va b s = Some t \<and> only_byte e va b s t \<and> spt t = spt s \<and> snext t = snext s \<and>
    sdir t = sdir s"
proof -
  have "perm AND PTE_D \<noteq> 0" using assms(2) unfolding perm_bits by simp
  then obtain t where t: "s_poke e va b s = Some t" and teq: "t = (touch fr s)\<lparr>sframe := (sframe s)
      (fr := (sframe s fr)(unat (va mod PAGE_SIZE) := b))\<rparr>"
    using assms(1) by (auto simp: s_poke_def simp del: PTE_D_def)
  have "s_load e' va' t = (if e' = e \<and> va' = va then Some b else s_load e' va' s)" for e' va'
  proof (cases "spt s e' (VPN va')")
    case None
    then show ?thesis using assms(1) by (auto simp: s_load_def teq)
  next
    case (Some x)
    obtain fr' perm' where x: "x = (fr', perm')" by (cases x)
    show ?thesis
    proof (cases "fr' = fr")
      case True
      then have "e' = e" "VPN va' = VPN va" using assms(3) Some x by auto
      moreover have "(unat (va' mod PAGE_SIZE) = unat (va mod PAGE_SIZE)) = (va' = va)"
        using page_offset [of va' va] \<open>VPN va' = VPN va\<close> by auto
      ultimately show ?thesis using assms(1)
        by (auto simp: s_load_def teq simp del: PAGE_SIZE_def)
    next
      case False
      then have "\<not> (e' = e \<and> va' = va)" using assms(1) Some x by auto
      then show ?thesis using False Some x by (auto simp: s_load_def teq)
    qed
  qed
  then show ?thesis using t teq by (simp add: only_byte_def)
qed

lemma owned_same_view:
  assumes "owned e va fr perm s t" "cow_wf s" "spt s e (VPN va) = Some (fr, perm)"
  shows "s_load e' va' t = s_load e' va' s"
proof (cases "e' = e \<and> VPN va' = VPN va")
  case True
  then show ?thesis using assms offset_less [of va'] by (simp add: s_load_def owned_def del: PAGE_SIZE_def)
next
  case False
  then have same: "spt t e' (VPN va') = spt s e' (VPN va')" using assms(1) by (auto simp: owned_def)
  show ?thesis
  proof (cases "spt s e' (VPN va')")
    case (Some x)
    then have "fst x < snext s" using cow_wfD [OF assms(2), of e' "VPN va'" "fst x" "snd x"]
      by (simp add: entry_ok_def)
    then show ?thesis using same Some assms(1) by (cases x) (auto simp: s_load_def owned_def)
  qed (simp add: s_load_def same)
qed

lemma owned_entry:
  assumes "owned e va fr perm s t" "spt t e' p' = Some (fr', perm')"
  shows "(if e' = e \<and> p' = VPN va then fr' = snext s \<and> perm' = stored_perm (own_perm perm)
          else spt s e' p' = Some (fr', perm'))"
  using assms by (simp add: owned_def split: if_splits)

lemma owned_wf:
  assumes "owned e va fr perm s t" "cow_wf s" "spt s e (VPN va) = Some (fr, perm)" "\<not> bit perm 1"
  shows "cow_wf t"
  unfolding cow_wf_def
proof (intro conjI allI impI)
  have "VPN va \<noteq> VPN UCOW" using assms(2,3) by (auto simp: cow_wf_def simp del: UCOW_def)
  then show "spt t e' (VPN UCOW) = None" for e'
    using assms(1,2) by (simp add: cow_wf_def owned_def del: UCOW_def)
next
  fix e' p' fr' perm' assume m: "spt t e' p' = Some (fr', perm')"
  have old: "entry_ok s e1 p1 fr1 perm1" if "spt s e1 p1 = Some (fr1, perm1)" for e1 p1 fr1 perm1
    by (rule cow_wfD [OF assms(2) that])
  have lt: "fr1 < snext s" if "spt s e1 p1 = Some (fr1, perm1)" for e1 p1 fr1 perm1
    using old [OF that] by (simp add: entry_ok_def)
  have t: "snext t = snext s + 1" "\<And>e1 d. sdir s e1 d \<Longrightarrow> sdir t e1 d"
    using assms(1) by (simp_all add: owned_def)
  note ent = owned_entry [OF assms(1)]
  show "entry_ok t e' p' fr' perm'"
  proof (cases "e' = e \<and> p' = VPN va")
    case True
    then have f: "fr' = snext s" "perm' = stored_perm (own_perm perm)" using ent [OF m] by simp_all
    have "e1 = e \<and> p1 = VPN va" if "spt t e1 p1 = Some (snext s, perm1)" for e1 p1 perm1
      using ent [OF that] lt [of e1 p1 "snext s" perm1] by (auto split: if_splits)
    moreover have "sdir t e (VPN va div 1024)" using old [OF assms(3)] t(2) by (simp add: entry_ok_def)
    ultimately show ?thesis using True f t(1) own_bits by (simp add: entry_ok_def)
  next
    case False
    then have m0: "spt s e' p' = Some (fr', perm')" using ent [OF m] by (simp split: if_splits)
    have "spt s e1 p1 = Some (fr', perm1)" if "spt t e1 p1 = Some (fr', perm1)" for e1 p1 perm1
      using ent [OF that] lt [OF m0] by (simp split: if_splits)
    then show ?thesis using old [OF m0] t unfolding entry_ok_def by (metis less_Suc_eq Suc_eq_plus1)
  qed
qed

lemma same_pages_wf: "spt t = spt s \<Longrightarrow> snext t = snext s \<Longrightarrow> sdir t = sdir s \<Longrightarrow> cow_wf t = cow_wf s"
  by (simp add: cow_wf_def entry_ok_def)

lemma store_private:
  assumes "cow_wf s" "spt s e (VPN va) = Some (fr, perm)" "bit perm 8" "\<not> bit perm 1"
  shows "\<exists>t. s_poke e va b s = Some t \<and> cow_wf t \<and> only_byte e va b s t"
proof -
  have "e' = e \<and> p' = VPN va" if "spt s e' p' = Some (fr, perm')" for e' p' perm'
    using cow_wfD [OF assms(1,2)] assms(3,4) that unfolding entry_ok_def by blast
  then obtain t where "s_poke e va b s = Some t" "only_byte e va b s t" "spt t = spt s"
    "snext t = snext s" "sdir t = sdir s"
    using poke_private [OF assms(2,3)] by blast
  then show ?thesis using same_pages_wf [of t s] assms(1) by auto
qed

lemma store_cow:
  assumes "cow_wf s" "spt s e (VPN va) = Some (fr, perm)" "bit perm 0" "\<not> bit perm 1"
    "\<not> is_illegal_va va" "\<not> sswapped s fr"
  shows "\<exists>t u. cow_entry e va s = Some t \<and> s_poke e va b t = Some u \<and> cow_wf u \<and>
    only_byte e va b s u"
proof -
  obtain t where t: "cow_entry e va s = Some t" "owned e va fr perm s t"
    using cow_entry_run [OF assms(1-3,5,6)] by blast
  have wf: "cow_wf t" by (rule owned_wf [OF t(2) assms(1,2,4)])
  have "spt t e (VPN va) = Some (snext s, stored_perm (own_perm perm))"
    using t(2) by (simp add: owned_def)
  then obtain u where u: "s_poke e va b t = Some u" "cow_wf u" "only_byte e va b t u"
    using store_private [OF wf] own_bits [of perm] assms(4) by (metis stored_bits(2,5))
  have "only_byte e va b s u"
    using u(3) owned_same_view [OF t(2) assms(1,2)] by (simp add: only_byte_def)
  then show ?thesis using t u by blast
qed

lemma fork_load:
  assumes "dup_into e c {p. user_vpn p} s t" "e \<noteq> c" "\<forall>p. spt s c p = None"
  shows "s_load c va t = (if user_vpn (VPN va) then s_load e va s else None)"
    "e' \<noteq> c \<Longrightarrow> s_load e' va t = s_load e' va s"
proof -
  have d: "dup_child x = map_option (\<lambda>y. (fst y, stored_perm (cow_perm (snd y)))) x" for x
    by (cases x) (auto simp: dup_child_def)
  show "s_load c va t = (if user_vpn (VPN va) then s_load e va s else None)"
    using assms
    by (cases "spt s e (VPN va)") (auto simp: s_load_def dup_into_def dup_child_def)
  show "s_load e' va t = s_load e' va s" if "e' \<noteq> c"
    using assms that
    by (cases "spt s e' (VPN va)") (auto simp: s_load_def dup_into_def dup_parent_def)
qed

section \<open>Properties\<close>

text \<open>
  C13. \<^verbatim>\<open>fork\<close> gives the child the memory of the parent between \<^verbatim>\<open>UTEMP\<close> and \<^verbatim>\<open>USTACKTOP\<close>, byte for
  byte, and changes no other environment's memory; a page the parent could write alone is
  afterwards copy-on-write in both, a \<^verbatim>\<open>PTE_LIBRARY\<close> page is shared with its permissions, and the
  copy-on-write invariant holds.
\<close>

theorem fork_copies:
  assumes "cow_wf s" "e \<noteq> c" "\<forall>p. spt s c p = None"
  shows "cow_wf (fork e c s) \<and>
    (\<forall>va. s_load c va (fork e c s) = (if user_vpn (VPN va) then s_load e va s else None)) \<and>
    (\<forall>e' va. e' \<noteq> c \<longrightarrow> s_load e' va (fork e c s) = s_load e' va s) \<and>
    (\<forall>p fr perm. user_vpn p \<and> spt s e p = Some (fr, perm) \<longrightarrow>
       (if private_page perm
        then spt (fork e c s) e p = Some (fr, stored_perm (perm AND NOT PTE_D OR PTE_COW)) \<and>
             spt (fork e c s) c p = Some (fr, stored_perm (perm AND NOT PTE_D OR PTE_COW))
        else spt (fork e c s) e p = Some (fr, perm) \<and>
             spt (fork e c s) c p = Some (fr, stored_perm perm)))"
proof -
  let ?s = "s\<lparr>cow_handler := (cow_handler s)(e := True, c := True),
      runnable := (runnable s)(c := True)\<rparr>"
  have d: "dup_into e c {p. user_vpn p} ?s (fork e c s)" by (rule fork_into [OF assms(2,3,1)])
  have n: "\<forall>p. spt ?s c p = None" using assms(3) by simp
  have w: "cow_wf ?s" using assms(1) same_pages_wf [of ?s s] by simp
  have l: "s_load e' va ?s = s_load e' va s" for e' va by (simp add: s_load_def)
  have p: "if private_page perm
      then spt (fork e c s) e p = Some (fr, stored_perm (perm AND NOT PTE_D OR PTE_COW)) \<and>
           spt (fork e c s) c p = Some (fr, stored_perm (perm AND NOT PTE_D OR PTE_COW))
      else spt (fork e c s) e p = Some (fr, perm) \<and> spt (fork e c s) c p = Some (fr, stored_perm perm)"
    if "user_vpn p" "spt s e p = Some (fr, perm)" for p fr perm
    using d assms(2) that by (simp add: dup_into_def dup_parent_def dup_child_def cow_perm_def)
  show ?thesis
    using dup_wf [OF d assms(2) n w] fork_load [OF d assms(2) n] p unfolding l by blast
qed

text \<open>
  C14. A store to a page that is not \<^verbatim>\<open>PTE_LIBRARY\<close> and is writable, or copy-on-write with the handler
  set, succeeds, whether the page was resident or not, and changes that byte for that environment only: no parent, child or other
  environment that shared the page sees it. The invariant is kept. There is one exception: when the page is
  copy-on-write and is evicted after the kernel has brought it in and before the handler has read its entry, the
  handler panics, although the page is still the environment's.
\<close>

theorem cow_store:
  assumes "cow_wf s" "spt s e (VPN va) = Some (fr, perm)" "perm AND PTE_LIBRARY = 0"
    and "perm AND PTE_D \<noteq> 0 \<or> perm AND PTE_COW \<noteq> 0 \<and> cow_handler s e" "\<not> is_illegal_va va"
  shows "if perm AND PTE_D = 0 \<and> fr \<in> set ev then s_store ev e va b s = None
    else \<exists>t. s_store ev e va b s = Some t \<and> cow_wf t \<and>
      (\<forall>e' va'. s_load e' va' t = (if e' = e \<and> va' = va then Some b else s_load e' va' s))"
proof (cases "perm AND PTE_D = 0")
  case True
  let ?s = "fold evict ev (touch fr (touch fr s))"
  have st: "s_store ev e va b s = do { s \<leftarrow> cow_entry e va ?s; s_poke e va b s }"
    using assms(2,4) True by (simp add: s_store_def Let_def del: PTE_D_def)
  have same: "cow_wf ?s" "\<And>e' va'. s_load e' va' ?s = s_load e' va' s" "spt ?s e (VPN va) = Some (fr, perm)"
    using assms(1,2) same_pages_wf [of ?s s] by (simp_all add: s_load_def)
  have bits: "bit perm 0" "\<not> bit perm 1" using assms(3,4) True unfolding perm_bits by auto
  show ?thesis
  proof (cases "fr \<in> set ev")
    case True
    then have "cow_entry e va ?s = None" by (intro cow_entry_swapped [OF same(3)]) simp
    then show ?thesis using True \<open>perm AND PTE_D = 0\<close> by (simp add: st del: PTE_D_def)
  next
    case False
    then have "\<not> sswapped ?s fr" by simp
    from store_cow [OF same(1,3) bits assms(5) this]
    obtain t u where "cow_entry e va ?s = Some t" "s_poke e va b t = Some u" "cow_wf u" "only_byte e va b ?s u" by blast
    then have "s_store ev e va b s = Some u" "cow_wf u" "only_byte e va b s u" by (simp_all add: st only_byte_def same(2))
    then show ?thesis using False by (simp add: only_byte_def)
  qed
next
  case False
  have "bit perm 8" "\<not> bit perm 1" using assms(3) False unfolding perm_bits by auto
  moreover have "cow_wf (touch fr s)" "spt (touch fr s) e (VPN va) = Some (fr, perm)"
    "\<And>e' va'. s_load e' va' (touch fr s) = s_load e' va' s"
    using assms(1,2) same_pages_wf [of "touch fr s" s] by (simp_all add: s_load_def)
  ultimately obtain t where "s_poke e va b (touch fr s) = Some t" "cow_wf t" "only_byte e va b s t"
    using store_private [of "touch fr s" e va fr perm b] by (auto simp: only_byte_def)
  then show ?thesis using assms(2) False
    by (auto simp: s_store_def only_byte_def Let_def simp del: PTE_D_def)
qed

text \<open>One environment, with one page of sevens at \<^verbatim>\<open>UTEXT\<close>.\<close>

definition ex_spaces :: spaces where
  "ex_spaces = \<lparr>spt = (\<lambda>e p. if e = 0 \<and> p = 1024 then Some (0, 0x780) else None),
     sdir = (\<lambda>e d. e = 0 \<and> d = 1), sframe = (\<lambda>_ _. 7), snext = 1, sswapped = (\<lambda>_. False),
     cow_handler = (\<lambda>_. False), runnable = (\<lambda>e. e = 0)\<rparr>"

lemma ex_spaces_wf: "cow_wf ex_spaces"
proof -
  have "bit (0x780 :: u32) 7" "\<not> bit (0x780 :: u32) 3" "bit (0x780 :: u32) 8" "\<not> bit (0x780 :: u32) 0"
    by code_simp+
  then show ?thesis using ucow_legal(2)
    by (auto simp: cow_wf_def entry_ok_def ex_spaces_def simp del: UCOW_def split: if_splits)
qed

lemma utext_vpn: "VPN 0x400003 = 1024" "user_vpn 1024" "private_page 0x780"
  "\<not> is_illegal_va 0x400003"
  by (simp_all add: VPN_div user_vpn_iff private_page_def is_illegal_va_def)

lemma ex_spaces_view:
  "s_load 0 0x400003 ex_spaces = Some 7" "spt ex_spaces 0 (VPN 0x400003) = Some (0, 0x780)"
  "\<forall>p. spt ex_spaces 1 p = None"
  by (simp_all add: s_load_def utext_vpn) (simp_all add: ex_spaces_def)

theorem fork_copies_witness: "s_load 1 0x400003 (fork 0 1 ex_spaces) = Some 7"
  using fork_copies [OF ex_spaces_wf _ ex_spaces_view(3), of 0] utext_vpn ex_spaces_view(1) by simp

text \<open>The same, the page being copy-on-write.\<close>

definition ex_cow :: spaces where
  "ex_cow = ex_spaces\<lparr>spt := (\<lambda>e p. if e = 0 \<and> p = 1024 then Some (0, 0x681) else None), cow_handler := (\<lambda>_. True)\<rparr>"

lemma ex_cow_wf: "cow_wf ex_cow"
proof -
  have "bit (0x681 :: u32) 7" "\<not> bit (0x681 :: u32) 3" "\<not> bit (0x681 :: u32) 8" by code_simp+
  then show ?thesis using ucow_legal(2)
    by (auto simp: cow_wf_def entry_ok_def ex_cow_def ex_spaces_def simp del: UCOW_def split: if_splits)
qed

theorem cow_store_witness:
  "\<exists>t. s_store [] 0 0x400003 9 ex_cow = Some t \<and> s_load 0 0x400003 t = Some 9 \<and> s_store [0] 0 0x400003 9 ex_cow = None"
proof -
  have pg: "spt ex_cow 0 (VPN 0x400003) = Some (0, 0x681)" by (simp add: ex_cow_def utext_vpn)
  have h: "cow_handler ex_cow 0" by (simp add: ex_cow_def)
  note st = cow_store [OF ex_cow_wf pg _ _ utext_vpn(4), of _ 9]
  have "s_store [0] 0 0x400003 9 ex_cow = None" using st [of "[0]"] h by simp
  moreover have "\<exists>t. s_store [] 0 0x400003 9 ex_cow = Some t \<and> s_load 0 0x400003 t = Some 9" using st [of "[]"] h by auto
  ultimately show ?thesis by blast
qed

end
