(* ===== verification/ForkKernel.thy ===== *)
theory ForkKernel
  imports Fork MemCalls
begin

text \<open>
  The system calls of theory \<open>Fork\<close> are what a user sees of those of the kernel. When the memory of \<open>Fork\<close> agrees with
  what the processes see in the kernel, a call the kernel completes leaves them in agreement. The conditions are those of
  \<open>MemCalls\<close>: for \<^verbatim>\<open>sys_mem_map\<close>, four free pages and a destination where nothing is mapped, as in the calls that give
  a child its pages.
\<close>

definition page_bytes :: "(nat \<Rightarrow> u32) \<Rightarrow> nat \<Rightarrow> u8" where
  "page_bytes f j = ucast (drop_bit (8 * (j mod 4)) (f (j div 4)))"

text \<open>A page of \<open>Fork\<close> and what the kernel shows at an address.\<close>

definition page_agrees :: "spaces \<Rightarrow> (nat \<times> u32) option \<Rightarrow> (u32 \<times> (nat \<Rightarrow> u32)) option \<Rightarrow> bool" where
  "page_agrees s x v \<longleftrightarrow>
     (case x of None \<Rightarrow> v = None
      | Some (fr, perm) \<Rightarrow> (\<exists>f. v = Some (perms perm, f) \<and> (\<forall>j < 4096. sframe s fr j = page_bytes f j)))"

definition agrees :: "kstate \<Rightarrow> spaces \<Rightarrow> bool" where
  "agrees k s \<longleftrightarrow>
     (\<forall>e \<in> live k. \<forall>va. PDX va < NUPDE \<longrightarrow> page_agrees s (spt s e (VPN va)) (uview (km k) (env_pgdir (envs k e)) va)) \<and>
     (\<forall>e p fr perm. spt s e p = Some (fr, perm) \<longrightarrow> fr < snext s)"

lemma perms_stored: "perms (stored_perm perm) = perms perm OR PTE_C_CACHEABLE"
  by (rule bit_word_eqI) (auto simp: bit_perms bit_stored bit_or_iff flag_bits simp del: PTE_C_CACHEABLE_def)

lemma VPN_page: "VPN va' = VPN va \<longleftrightarrow> PTE_ADDR va' = PTE_ADDR va"
proof
  assume "PTE_ADDR va' = PTE_ADDR va"
  then show "VPN va' = VPN va" using VPN_PTE_ADDR by metis
next
  assume v: "VPN va' = VPN va"
  have "PTX x = VPN x mod 1024" for x
  proof -
    have "(0x3FF :: u32) = mask 10" by (simp add: mask_eq_exp_minus_1)
    then have "PTX x = unat (take_bit 10 (drop_bit 12 x))" by (simp only: PTX_def PGSHIFT_def) (simp add: take_bit_eq_mask)
    then show ?thesis by (simp add: VPN_def unsigned_take_bit_eq take_bit_eq_mod unat_mod)
  qed
  then show "PTE_ADDR va' = PTE_ADDR va" using v by (simp add: PTE_ADDR_indices PDX_VPN)
qed

lemma calls_km:
  "\<not> is_illegal_va va \<Longrightarrow> envid2env envid True s = Some (0, Some e) \<Longrightarrow> sys_mem_alloc envid va perm s = Some (r, t) \<Longrightarrow>
    t = s\<lparr>km := km t\<rparr>"
  "\<not> is_illegal_va va \<Longrightarrow> envid2env envid True s = Some (0, Some e) \<Longrightarrow> sys_mem_unmap envid va s = Some (r, t) \<Longrightarrow>
    t = s\<lparr>km := km t\<rparr>"
  by (auto simp: sys_mem_alloc_def sys_mem_unmap_def try_env_def kpage_alloc_def with_km_def with_km'_def ret_def Let_def
      elim!: bind_SomeE split: if_splits)

lemma map_km:
  assumes "\<not> is_illegal_va srcva" "\<not> is_illegal_va dstva" "envid2env srcid True s = Some (0, Some se)"
    and "envid2env dstid True s = Some (0, Some de)" "sys_mem_map srcid srcva dstid dstva perm s = Some (r, t)"
  shows "t = s\<lparr>km := km t\<rparr>"
  using assms
  by (auto simp: sys_mem_map_def try_env_def klookup_def with_km_def with_km'_def ret_def Let_def
      elim!: bind_SomeE split: if_splits option.splits)

text \<open>One page of one environment changes, on both sides.\<close>

lemma agrees_set:
  assumes ok: "kvm_ok A k" "e \<in> live k" and ag: "agrees k s"
    and t: "t = k\<lparr>km := m\<rparr>" "\<forall>d' \<in> dirs k. \<forall>va'. PDX va' < NUPDE \<longrightarrow>
      uview m d' va' = (if d' = env_pgdir (envs k e) \<and> PTE_ADDR va' = PTE_ADDR va then v else uview (km k) d' va')"
    and u: "spt u = (spt s)(e := (spt s e)(VPN va := x))" "snext s \<le> snext u" "page_agrees u x v"
      "\<And>fr. fr < snext s \<Longrightarrow> sframe u fr = sframe s fr" "\<And>fr perm. x = Some (fr, perm) \<Longrightarrow> fr < snext u"
  shows "agrees t u"
  unfolding agrees_def
proof (intro conjI ballI allI impI)
  fix e' va' assume e': "e' \<in> live t" and va': "PDX va' < NUPDE"
  have live: "e' \<in> live k" and pg: "env_pgdir (envs t e') = env_pgdir (envs k e')" "km t = m" using e' by (simp_all add: t)
  have inj: "env_pgdir (envs k e') = env_pgdir (envs k e) \<longleftrightarrow> e' = e"
    using ok live inj_onD [of "\<lambda>e. env_pgdir (envs k e)" "live k" e' e] by (auto simp: kvm_ok_def)
  have view: "uview m (env_pgdir (envs k e')) va' = (if e' = e \<and> VPN va' = VPN va then v else uview (km k) (env_pgdir (envs k e')) va')"
    using t(2) dirs_live [OF live] va' by (simp add: inj VPN_page)
  show "page_agrees u (spt u e' (VPN va')) (uview (km t) (env_pgdir (envs t e')) va')"
  proof (cases "e' = e \<and> VPN va' = VPN va")
    case True
    then show ?thesis using u(3) unfolding pg view by (simp add: u(1))
  next
    case False
    then have same: "spt u e' (VPN va') = spt s e' (VPN va')" by (auto simp: u(1))
    have "page_agrees s (spt s e' (VPN va')) (uview (km k) (env_pgdir (envs k e')) va')"
      using ag live va' by (simp add: agrees_def)
    moreover have "sframe u fr = sframe s fr" if "spt s e' (VPN va') = Some (fr, perm)" for fr perm
      by (rule u(4)) (use ag that in \<open>unfold agrees_def, blast\<close>)
    ultimately show ?thesis using False unfolding pg view same by (auto simp: page_agrees_def split: option.splits)
  qed
next
  fix e' p fr perm assume "spt u e' p = Some (fr, perm)"
  then consider "x = Some (fr, perm)" | "spt s e' p = Some (fr, perm)" by (auto simp: u(1) split: if_splits)
  then show "fr < snext u"
  proof cases
    case 2
    then have "fr < snext s" using ag unfolding agrees_def by blast
    then show ?thesis using u(2) by simp
  qed (rule u(5))
qed

lemma mem_alloc_agrees:
  assumes "kvm_ok A k" "\<not> is_illegal_va va" "envid2env envid True k = Some (0, Some e)" "PTE_FLAGS perm = perm"
    and "sys_mem_alloc envid va perm k = Some (r, t)" "agrees k s"
  shows "r = Some (fst (s_mem_alloc e va perm s))" "kvm_ok A t" "agrees t (snd (s_mem_alloc e va perm s))"
proof -
  note res = mem_alloc_result [OF assms(1-5)]
  obtain m where t: "t = k\<lparr>km := m\<rparr>" using calls_km(1) [OF assms(2,3,5)] by blast
  show "r = Some (fst (s_mem_alloc e va perm s))" "kvm_ok A t" using res assms(2) by (simp_all add: s_mem_alloc_def)
  have "page_agrees (snd (s_mem_alloc e va perm s)) (Some (snext s, stored_perm perm)) (Some (perms perm OR PTE_C_CACHEABLE, \<lambda>_. 0))"
    using assms(2) by (simp add: page_agrees_def perms_stored s_mem_alloc_def set_page_def page_bytes_def del: PTE_C_CACHEABLE_def)
  from agrees_set [OF assms(1) envid2env_live [OF assms(1,3)] assms(6) t _ _ _ this, of va]
  show "agrees t (snd (s_mem_alloc e va perm s))"
    using res assms(2) by (simp add: shows_at_def t s_mem_alloc_def set_page_def del: PTE_C_CACHEABLE_def)
qed

lemma mem_unmap_agrees:
  assumes "kvm_ok A k" "\<not> is_illegal_va va" "envid2env envid True k = Some (0, Some e)"
    and "sys_mem_unmap envid va k = Some (r, t)" "agrees k s"
  shows "r = Some (fst (s_mem_unmap e va s))" "kvm_ok A t" "agrees t (snd (s_mem_unmap e va s))"
proof -
  note res = mem_unmap_result [OF assms(1-4)]
  obtain m where t: "t = k\<lparr>km := m\<rparr>" using calls_km(2) [OF assms(2-4)] by blast
  show "r = Some (fst (s_mem_unmap e va s))" "kvm_ok A t" using res assms(2) by (simp_all add: s_mem_unmap_def)
  have "page_agrees (snd (s_mem_unmap e va s)) None None" by (simp add: page_agrees_def)
  from agrees_set [OF assms(1) envid2env_live [OF assms(1,3)] assms(5) t _ _ _ this, of va]
  show "agrees t (snd (s_mem_unmap e va s))" using res assms(2) by (simp add: blanked_def t s_mem_unmap_def)
qed

lemma mem_map_agrees:
  assumes "kvm_ok A k" "\<not> is_illegal_va srcva" "\<not> is_illegal_va dstva" "srcva \<noteq> UCOW" "PTE_FLAGS perm = perm"
    and "envid2env srcid True k = Some (0, Some se)" "envid2env dstid True k = Some (0, Some de)"
    and "4 \<le> length (page_free_list (km k))" "swapInfo_free_list (km k) \<noteq> []" "refs_fit (km k)"
    and ag: "agrees k s" and src: "spt s se (VPN srcva) \<noteq> None" and dst: "spt s de (VPN dstva) = None"
  shows "\<exists>t. sys_mem_map srcid srcva dstid dstva perm k = Some (Some (fst (s_mem_map se srcva de dstva perm s)), t) \<and>
    kvm_ok A t \<and> agrees t (snd (s_mem_map se srcva de dstva perm s))"
proof -
  have lives: "se \<in> live k" "de \<in> live k" using envid2env_live [OF assms(1)] assms(6,7) by blast+
  have pdx: "PDX srcva < NUPDE" "PDX dstva < NUPDE" using legal_PDX assms(2,3) by auto
  obtain fr pm where sp: "spt s se (VPN srcva) = Some (fr, pm)" using src by auto
  have lt: "fr < snext s" using ag sp unfolding agrees_def by blast
  have "page_agrees s (spt s se (VPN srcva)) (uview (km k) (env_pgdir (envs k se)) srcva)"
    "page_agrees s (spt s de (VPN dstva)) (uview (km k) (env_pgdir (envs k de)) dstva)"
    using ag lives pdx by (simp_all add: agrees_def)
  then obtain f where f: "uview (km k) (env_pgdir (envs k se)) srcva = Some (perms pm, f)" "\<forall>j < 4096. sframe s fr j = page_bytes f j"
    and none: "uview (km k) (env_pgdir (envs k de)) dstva = None"
    by (auto simp: page_agrees_def sp dst)
  obtain t where run: "sys_mem_map srcid srcva dstid dstva perm k = Some (Some 0, t)" and ok: "kvm_ok A t"
    and sh: "shows_at (dirs k) (env_pgdir (envs k de)) dstva (perms perm OR PTE_C_CACHEABLE, f) (km k) (km t)"
    using mem_map_result [OF assms(1-10) f(1) none] by blast
  obtain m where t: "t = k\<lparr>km := m\<rparr>" using map_km [OF assms(2,3,6,7) run] by blast
  have u: "s_mem_map se srcva de dstva perm s = (0, set_page de dstva fr perm (touch fr s))"
    using assms(2,3) sp by (simp add: s_mem_map_def)
  have "page_agrees (set_page de dstva fr perm (touch fr s)) (Some (fr, stored_perm perm)) (Some (perms perm OR PTE_C_CACHEABLE, f))"
    using f(2) by (simp add: page_agrees_def perms_stored set_page_def del: PTE_C_CACHEABLE_def)
  from agrees_set [OF assms(1) lives(2) ag t _ _ _ this, of dstva]
  have "agrees t (set_page de dstva fr perm (touch fr s))"
    using sh lt by (simp add: shows_at_def t set_page_def del: PTE_C_CACHEABLE_def)
  then show ?thesis using run ok by (simp add: u)
qed

end
