(* ===== verification/Fsformat.thy ===== *)
theory Fsformat
  imports Mount
begin

text \<open>
  \<^verbatim>\<open>tools/fsformat.c\<close>: the host program that builds the disk image. \<open>fdata\<close> and \<open>ftype\<close> are the members
  of the array \<^verbatim>\<open>disk\<close>, \<open>fsuper\<close> the bytes of the global \<^verbatim>\<open>super\<close>. A \<^verbatim>\<open>struct File *\<close> points to the root
  in \<^verbatim>\<open>super\<close> or into a block. An access outside \<^verbatim>\<open>disk\<close> or past the end of a block or of \<^verbatim>\<open>super\<close>, a
  failed assertion and \<^verbatim>\<open>exit\<close> are \<^term>\<open>None\<close>.

  The host's files are an argument: a file with its contents, a directory with its entries in the
  order \<^verbatim>\<open>readdir\<close> gives them, a directory that cannot be opened, or anything else, which cannot be
  opened either. A read of a regular file returns as many bytes as there are, up to a block.
\<close>

section \<open>State\<close>

record ffs =
  fdata :: "nat \<Rightarrow> nat \<Rightarrow> u8"
  ftype :: "nat \<Rightarrow> nat"
  fsuper :: "nat \<Rightarrow> u8"
  nbitblock :: nat
  nextbno :: nat

definition NBLOCK :: nat where [simp]: "NBLOCK = 1024"
definition BLOCK_FREE :: nat where [simp]: "BLOCK_FREE = 0"
definition BLOCK_BOOT :: nat where [simp]: "BLOCK_BOOT = 1"
definition BLOCK_BMAP :: nat where [simp]: "BLOCK_BMAP = 2"
definition BLOCK_SUPER :: nat where [simp]: "BLOCK_SUPER = 3"
definition BLOCK_DATA :: nat where [simp]: "BLOCK_DATA = 4"
definition BLOCK_FILE :: nat where [simp]: "BLOCK_FILE = 5"
definition BLOCK_INDEX :: nat where [simp]: "BLOCK_INDEX = 6"

definition sizeof_super :: nat where [simp]: "sizeof_super = 264"

datatype fptr = Root | Slot nat nat

datatype hnode = HFile "u8 list" | HDir "(u8 list \<times> hnode) list" | HNoDir | HOther

section \<open>Accesses\<close>

definition wbytes :: "u32 \<Rightarrow> nat \<Rightarrow> u8" where
  "wbytes w k = ucast (drop_bit (8 * k) w)"

text \<open>A word at offset \<open>k\<close> of an array of bytes, little endian.\<close>

definition put_word :: "nat \<Rightarrow> u32 \<Rightarrow> (nat \<Rightarrow> u8) \<Rightarrow> nat \<Rightarrow> u8" where
  "put_word k w m = (\<lambda>i. if k \<le> i \<and> i < k + 4 then wbytes w (i - k) else m i)"

definition put_bytes :: "nat \<Rightarrow> u8 list \<Rightarrow> (nat \<Rightarrow> u8) \<Rightarrow> nat \<Rightarrow> u8" where
  "put_bytes k bs m = (\<lambda>i. if k \<le> i \<and> i < k + length bs then bs ! (i - k) else m i)"

text \<open>The bytes of what a pointer points to, and a change of \<open>n\<close> of them from offset \<open>k\<close> on.\<close>

definition f_bytes :: "fptr \<Rightarrow> ffs \<Rightarrow> nat \<Rightarrow> u8" where
  "f_bytes p s i = (case p of Root \<Rightarrow> fsuper s (8 + i) | Slot b j \<Rightarrow> fdata s b (j + i))"

definition f_valid :: "fptr \<Rightarrow> nat \<Rightarrow> bool" where
  "f_valid p n \<longleftrightarrow> (case p of Root \<Rightarrow> 8 + n \<le> sizeof_super | Slot b j \<Rightarrow> b < NBLOCK \<and> j + n \<le> 4096)"

definition f_upd :: "fptr \<Rightarrow> ((nat \<Rightarrow> u8) \<Rightarrow> nat \<Rightarrow> u8) \<Rightarrow> ffs \<Rightarrow> ffs" where
  "f_upd p g s =
     (case p of
        Root \<Rightarrow> s\<lparr>fsuper := (\<lambda>i. if 8 \<le> i then g (\<lambda>k. fsuper s (8 + k)) (i - 8) else fsuper s i)\<rparr>
      | Slot b j \<Rightarrow> s\<lparr>fdata := (fdata s)(b := (\<lambda>i. if j \<le> i then g (\<lambda>k. fdata s b (j + k)) (i - j)
                                               else fdata s b i))\<rparr>)"

definition fget :: "fptr \<Rightarrow> nat \<Rightarrow> ffs \<Rightarrow> u32 option" where
  "fget p k s = (if f_valid p (k + 4) then Some (word_at (f_bytes p s) k) else None)"

definition fput :: "fptr \<Rightarrow> nat \<Rightarrow> u32 \<Rightarrow> ffs \<Rightarrow> ffs option" where
  "fput p k w s = (if f_valid p (k + 4) then Some (f_upd p (put_word k w) s) else None)"

definition fput_bytes :: "fptr \<Rightarrow> nat \<Rightarrow> u8 list \<Rightarrow> ffs \<Rightarrow> ffs option" where
  "fput_bytes p k bs s = (if f_valid p (k + length bs) then Some (f_upd p (put_bytes k bs) s) else None)"

section \<open>Byte order\<close>

definition reverse :: "u32 \<Rightarrow> u32" where
  "reverse y =
     ucast (ucast (drop_bit 24 y) :: u8) OR push_bit 8 (ucast (ucast (drop_bit 16 y) :: u8)) OR
     push_bit 16 (ucast (ucast (drop_bit 8 y) :: u8)) OR push_bit 24 (ucast (ucast y :: u8))"

definition reverse_at :: "nat \<Rightarrow> (nat \<Rightarrow> u8) \<Rightarrow> nat \<Rightarrow> u8" where
  "reverse_at k m = put_word k (reverse (word_at m k)) m"

text \<open>The words of the \<^verbatim>\<open>struct File\<close> at offset \<open>j\<close>: size, type, the direct slots, the indirect one.\<close>

definition reverse_file :: "nat \<Rightarrow> (nat \<Rightarrow> u8) \<Rightarrow> nat \<Rightarrow> u8" where
  "reverse_file j m =
     fold reverse_at ([j + 128, j + 132] @ map (\<lambda>i. j + 136 + 4 * i) [0..<10] @ [j + 176]) m"

fun reverse_files :: "nat list \<Rightarrow> (nat \<Rightarrow> u8) \<Rightarrow> nat \<Rightarrow> u8" where
  "reverse_files [] m = m"
| "reverse_files (i # is) m = (if m (256 * i) = 0 then m else reverse_files is (reverse_file (256 * i) m))"

definition reverse_block :: "nat \<Rightarrow> (nat \<Rightarrow> u8) \<Rightarrow> nat \<Rightarrow> u8" where
  "reverse_block ty m =
     (if ty = BLOCK_SUPER then reverse_file 8 (reverse_at 4 (reverse_at 0 m))
      else if ty = BLOCK_FILE then reverse_files [0..<FILE2BLK] m
      else if ty = BLOCK_INDEX \<or> ty = BLOCK_BMAP then fold reverse_at (map (\<lambda>i. 4 * i) [0..<1024]) m
      else m)"

section \<open>The disk\<close>

definition init_disk :: "ffs \<Rightarrow> ffs" where
  "init_disk s =
     (let s = s\<lparr>ftype := (ftype s)(0 := BLOCK_BOOT)\<rparr>;
          nb = (NBLOCK + 32768 - 1) div 32768;
          s = s\<lparr>nbitblock := nb, nextbno := 2 + nb\<rparr>;
          s = s\<lparr>ftype := (\<lambda>b. if 2 \<le> b \<and> b < 2 + nb then BLOCK_BMAP else ftype s b)\<rparr>;
          s = s\<lparr>fdata := (\<lambda>b i. if 2 \<le> b \<and> b < 2 + nb \<and> i < 4096 then 0xff else fdata s b i)\<rparr>;
          diff = NBLOCK mod 32768 div 8;
          s = (if NBLOCK \<noteq> nb * 32768
               then s\<lparr>fdata := (\<lambda>b i. if b = 2 + (nb - 1) \<and> diff \<le> i \<and> i < 4096 then 0 else fdata s b i)\<rparr>
               else s);
          s = s\<lparr>ftype := (ftype s)(1 := BLOCK_SUPER)\<rparr>
      in s\<lparr>fsuper := put_bytes 8 [47, 0] (put_word 140 FTYPE_DIR
             (put_word 4 (word_of_nat NBLOCK) (put_word 0 FS_MAGIC (fsuper s))))\<rparr>)"

definition next_block :: "nat \<Rightarrow> ffs \<Rightarrow> (nat \<times> ffs) option" where
  "next_block ty s =
     (if nextbno s < NBLOCK
      then Some (nextbno s, s\<lparr>ftype := (ftype s)(nextbno s := ty), nextbno := nextbno s + 1\<rparr>)
      else None)"

definition flush_one :: "nat \<Rightarrow> ffs \<Rightarrow> ffs" where
  "flush_one i s =
     (let b = 2 + i div 32768; k = 4 * (i mod 32768 div 32) in
      s\<lparr>fdata := (fdata s)(b := put_word k (word_at (fdata s b) k AND NOT (push_bit (i mod 32) 1)) (fdata s b))\<rparr>)"

definition flush_bitmap :: "ffs \<Rightarrow> ffs" where
  "flush_bitmap s = fold flush_one [0..<nextbno s] s"

text \<open>The image: what is written to the file, block by block. \<open>eb\<close> is \<^verbatim>\<open>CONFIG_REVERSE_ENDIAN\<close>.\<close>

definition finish_fs :: "bool \<Rightarrow> ffs \<Rightarrow> nat \<Rightarrow> nat \<Rightarrow> u8" where
  "finish_fs eb s =
     (let d = (fdata s)(1 := (\<lambda>i. if i < sizeof_super then fsuper s i else fdata s 1 i)) in
      (\<lambda>b. if eb then reverse_block (ftype s b) (d b) else d b))"

definition save_block_link :: "fptr \<Rightarrow> nat \<Rightarrow> nat \<Rightarrow> ffs \<Rightarrow> ffs option" where
  "save_block_link f nblk bno s = do {
     _ \<leftarrow> kassert (nblk < 1024);
     if nblk < 10 then fput f (136 + 4 * nblk) (word_of_nat bno) s
     else do {
       ind \<leftarrow> fget f 176 s;
       s \<leftarrow> (if ind = 0 then do {
               (b, s) \<leftarrow> next_block BLOCK_INDEX s;
               fput f 176 (word_of_nat b) s }
             else Some s);
       ind \<leftarrow> fget f 176 s;
       fput (Slot (unat ind) 0) (4 * nblk) (word_of_nat bno) s } }"

definition make_link_block :: "fptr \<Rightarrow> nat \<Rightarrow> ffs \<Rightarrow> (nat \<times> ffs) option" where
  "make_link_block dirf nblk s = do {
     (bno, s) \<leftarrow> next_block BLOCK_FILE s;
     s \<leftarrow> save_block_link dirf nblk bno s;
     sz \<leftarrow> fget dirf 128 s;
     s \<leftarrow> fput dirf 128 (sz + BLOCK_SIZE) s;
     Some (bno, s) }"

text \<open>
  The block number of block \<open>i\<close> of a directory. In the indirect case the code casts the byte
  \<^verbatim>\<open>data[i]\<close>, not the array, to a pointer to words, so it gets the \<open>i\<close>-th byte.
\<close>

definition dir_bno :: "fptr \<Rightarrow> nat \<Rightarrow> ffs \<Rightarrow> nat option" where
  "dir_bno dirf i s =
     (if i < 10 then do { w \<leftarrow> fget dirf (136 + 4 * i) s; Some (unat w) }
      else do {
        ind \<leftarrow> fget dirf 176 s;
        _ \<leftarrow> kassert (unat ind < NBLOCK \<and> i < 4096);
        Some (unat (fdata s (unat ind) i)) })"

fun create_file_from :: "fptr \<Rightarrow> nat list \<Rightarrow> ffs \<Rightarrow> fptr option option" where
  "create_file_from dirf [] s = Some None"
| "create_file_from dirf (i # is) s = do {
     bno \<leftarrow> dir_bno dirf i s;
     _ \<leftarrow> kassert (bno < NBLOCK);
     (case find (\<lambda>j. fdata s bno (256 * j) = 0) [0..<FILE2BLK] of
        Some j \<Rightarrow> Some (Some (Slot bno (256 * j)))
      | None \<Rightarrow> create_file_from dirf is s) }"

definition create_file :: "fptr \<Rightarrow> ffs \<Rightarrow> (fptr \<times> ffs) option" where
  "create_file dirf s = do {
     sz \<leftarrow> fget dirf 128 s;
     let nblk = unat sz div 4096;
     f \<leftarrow> create_file_from dirf [0..<nblk] s;
     (case f of
        Some f \<Rightarrow> Some (f, s)
      | None \<Rightarrow> do {
          (b, s) \<leftarrow> make_link_block dirf nblk s;
          Some (Slot b 0, s) }) }"

section \<open>Files and directories\<close>

definition after_slash :: "u8 list \<Rightarrow> u8 list" where
  "after_slash p = rev (takeWhile (\<lambda>c. c \<noteq> 47) (rev p))"

definition basename :: "u8 list \<Rightarrow> u8 list" where
  "basename p =
     (let q = rev (dropWhile (\<lambda>c. c = 47) (rev p)) in
      if p = [] then [46] else if q = [] then [47] else after_slash q)"

function write_chunks :: "fptr \<Rightarrow> nat \<Rightarrow> u8 list \<Rightarrow> ffs \<Rightarrow> ffs option" where
  "write_chunks f iblk bs s =
     (if bs = [] then Some s
      else if nextbno s < NBLOCK then
        (let s = s\<lparr>fdata := (fdata s)(nextbno s := put_bytes 0 (take 4096 bs) (fdata s (nextbno s)))\<rparr> in
         case next_block BLOCK_DATA s of
           None \<Rightarrow> None
         | Some (bno, s) \<Rightarrow>
             (case save_block_link f iblk bno s of
                None \<Rightarrow> None
              | Some s \<Rightarrow> write_chunks f (iblk + 1) (drop 4096 bs) s))
      else None)"
  by pat_completeness auto

termination
  by (relation "measure (\<lambda>(f, iblk, bs, s). length bs)") (auto simp: length_greater_0_conv)

declare write_chunks.simps [simp del]

text \<open>The contents are \<^term>\<open>None\<close> when the file cannot be opened: \<^verbatim>\<open>lseek\<close> and \<^verbatim>\<open>read\<close> then return -1.\<close>

definition write_file :: "fptr \<Rightarrow> u8 list \<Rightarrow> u8 list option \<Rightarrow> ffs \<Rightarrow> ffs option" where
  "write_file dirf path contents s = do {
     (target, s) \<leftarrow> create_file dirf s;
     s \<leftarrow> fput_bytes target 0 (after_slash path @ [0]) s;
     s \<leftarrow> fput target 128 (case contents of None \<Rightarrow> - 1 | Some bs \<Rightarrow> word_of_nat (length bs)) s;
     s \<leftarrow> fput target 132 FTYPE_REG s;
     (case contents of None \<Rightarrow> Some s | Some bs \<Rightarrow> write_chunks target 0 bs s) }"

text \<open>\<^verbatim>\<open>strncpy\<close> of at most 127 bytes: the rest is filled with zeros.\<close>

definition strncpy127 :: "u8 list \<Rightarrow> u8 list" where
  "strncpy127 n = take 127 (n @ replicate 127 0)"

fun write_node :: "fptr \<Rightarrow> u8 list \<Rightarrow> hnode \<Rightarrow> ffs \<Rightarrow> ffs option"
  and write_entries :: "fptr \<Rightarrow> u8 list \<Rightarrow> (u8 list \<times> hnode) list \<Rightarrow> ffs \<Rightarrow> ffs option" where
  "write_node dirf path (HFile bs) s = write_file dirf path (Some bs) s"
| "write_node dirf path HOther s = write_file dirf path None s"
| "write_node dirf path HNoDir s = Some s"
| "write_node dirf path (HDir es) s = do {
     (pdir, s) \<leftarrow> create_file dirf s;
     s \<leftarrow> fput_bytes pdir 0 (strncpy127 (basename path)) s;
     _ \<leftarrow> kassert (f_bytes pdir s 127 = 0);
     s \<leftarrow> fput pdir 132 FTYPE_DIR s;
     write_entries pdir path es s }"
| "write_entries pdir path [] s = Some s"
| "write_entries pdir path ((n, e) # es) s = do {
     s \<leftarrow> (if n = [46] \<or> n = [46, 46] then Some s else write_node pdir (path @ [47] @ n) e s);
     write_entries pdir path es s }"

definition zero_ffs :: ffs where
  "zero_ffs = \<lparr>fdata = (\<lambda>_ _. 0), ftype = (\<lambda>_. 0), fsuper = (\<lambda>_. 0), nbitblock = 0, nextbno = 0\<rparr>"

definition main_fsformat :: "bool \<Rightarrow> (u8 list \<times> hnode) list \<Rightarrow> (nat \<Rightarrow> nat \<Rightarrow> u8) option" where
  "main_fsformat eb args = do {
     let s = init_disk zero_ffs;
     _ \<leftarrow> kassert (args \<noteq> []);
     s \<leftarrow> foldM (\<lambda>(name, node) s. do {
            _ \<leftarrow> kassert (node \<noteq> HOther);
            write_node Root name node s }) args s;
     Some (finish_fs eb (flush_bitmap s)) }"

section \<open>What every step keeps\<close>

text \<open>
  The first two words of the super block, and the first four bytes of the bitmap until it is
  flushed. A pointer is harmless if it does not point to the start of the bitmap block.
\<close>

definition img_ok :: "ffs \<Rightarrow> bool" where
  "img_ok s \<longleftrightarrow> (\<forall>i < 8. fsuper s i = put_word 4 1024 (put_word 0 FS_MAGIC (\<lambda>_. 0)) i) \<and>
     (\<forall>i < 4. fdata s 2 i = 0xff) \<and> 3 \<le> nextbno s \<and> nextbno s \<le> NBLOCK"

definition harmless :: "fptr \<Rightarrow> bool" where
  "harmless p \<longleftrightarrow> (case p of Root \<Rightarrow> True | Slot b j \<Rightarrow> b \<noteq> 2 \<or> 4 \<le> j)"

lemma f_upd_ok:
  "img_ok s \<Longrightarrow> harmless p \<or> (\<forall>m i. i < 4 \<longrightarrow> g m i = m i) \<Longrightarrow> img_ok (f_upd p g s)"
  by (cases p) (auto simp: img_ok_def f_upd_def harmless_def)

lemma fput_ok: "fput p k w s = Some t \<Longrightarrow> img_ok s \<Longrightarrow> harmless p \<or> 4 \<le> k \<Longrightarrow> img_ok t"
  by (auto simp: fput_def put_word_def split: if_splits intro!: f_upd_ok)

lemma fput_bytes_ok: "fput_bytes p k bs s = Some t \<Longrightarrow> img_ok s \<Longrightarrow> harmless p \<Longrightarrow> img_ok t"
  by (auto simp: fput_bytes_def split: if_splits intro!: f_upd_ok)

lemma next_block_ok: "next_block ty s = Some (b, t) \<Longrightarrow> img_ok s \<Longrightarrow> img_ok t \<and> 3 \<le> b"
  by (auto simp: next_block_def img_ok_def split: if_splits)

lemma fput_far: "fput p k w s = Some t \<Longrightarrow> img_ok s \<Longrightarrow> 4 \<le> k \<Longrightarrow> img_ok t"
  and fput_near: "fput p k w s = Some t \<Longrightarrow> img_ok s \<Longrightarrow> harmless p \<Longrightarrow> img_ok t"
  using fput_ok by blast+

lemma save_block_link_ok:
  assumes "save_block_link f n b s = Some t" "img_ok s" "harmless f"
  shows "img_ok t"
proof (cases "n < 10")
  case True
  then show ?thesis using assms by (auto simp: save_block_link_def elim!: bind_SomeE intro: fput_near)
next
  case False
  then have far: "4 \<le> 4 * n" by simp
  have "\<exists>u ind. img_ok u \<and> fput (Slot ind 0) (4 * n) (word_of_nat b) u = Some t"
    using assms False
    by (auto simp: save_block_link_def elim!: bind_SomeE dest!: next_block_ok split: if_splits)
      (metis fput_near)+
  then show ?thesis using fput_far far by blast
qed

lemma make_link_block_ok:
  "make_link_block f n s = Some (b, t) \<Longrightarrow> img_ok s \<Longrightarrow> harmless f \<Longrightarrow> img_ok t \<and> 3 \<le> b"
  by (auto simp: make_link_block_def elim!: bind_SomeE dest!: next_block_ok intro: save_block_link_ok fput_ok)

lemma create_file_from_ok:
  "create_file_from d is s = Some (Some p) \<Longrightarrow> img_ok s \<Longrightarrow> harmless p"
proof (induction d "is" s rule: create_file_from.induct)
  case (2 d i "is" s)
  then obtain bno where b: "dir_bno d i s = Some bno" "bno < NBLOCK"
    by (auto elim!: bind_SomeE)
  show ?case
  proof (cases "find (\<lambda>j. fdata s bno (256 * j) = 0) [0..<FILE2BLK]")
    case None
    then show ?thesis using 2 b by simp
  next
    case (Some j)
    then have "fdata s bno (256 * j) = 0" by (auto simp: find_Some_iff)
    then have "bno \<noteq> 2 \<or> 4 \<le> 256 * j" using 2(3) by (cases "j = 0") (auto simp: img_ok_def)
    moreover have "p = Slot bno (256 * j)" using 2 b Some by simp
    ultimately show ?thesis by (simp add: harmless_def)
  qed
qed simp

lemma create_file_ok:
  assumes "create_file d s = Some (p, t)" "img_ok s" "harmless d"
  shows "img_ok t \<and> harmless p"
proof -
  obtain sz f where f: "fget d 128 s = Some sz" "create_file_from d [0..<unat sz div 4096] s = Some f"
    using assms(1) by (auto simp: create_file_def Let_def elim!: bind_SomeE)
  show ?thesis
  proof (cases f)
    case None
    then obtain b where "make_link_block d (unat sz div 4096) s = Some (b, t)" "p = Slot b 0"
      using assms(1) f by (auto simp: create_file_def Let_def elim!: bind_SomeE)
    then show ?thesis using make_link_block_ok assms(2,3) by (fastforce simp: harmless_def)
  next
    case (Some q)
    then show ?thesis using assms f create_file_from_ok by (auto simp: create_file_def Let_def)
  qed
qed

lemma write_chunks_ok: "write_chunks f k bs s = Some t \<Longrightarrow> img_ok s \<Longrightarrow> harmless f \<Longrightarrow> img_ok t"
proof (induction f k bs s rule: write_chunks.induct)
  case (1 f k bs s)
  show ?case
  proof (cases "bs = []")
    case True
    then show ?thesis using 1 by (simp add: write_chunks.simps)
  next
    case False
    let ?s = "s\<lparr>fdata := (fdata s)(nextbno s := put_bytes 0 (take 4096 bs) (fdata s (nextbno s)))\<rparr>"
    obtain b u v where n: "nextbno s < NBLOCK" "next_block BLOCK_DATA ?s = Some (b, u)"
      "save_block_link f k b u = Some v" "write_chunks f (k + 1) (drop 4096 bs) v = Some t"
      using "1.prems"(1) False
      by (subst (asm) write_chunks.simps) (auto simp: Let_def split: if_splits option.splits prod.splits)
    have "img_ok ?s" using "1.prems"(2) by (auto simp: img_ok_def)
    then have "img_ok v" using n(2,3) next_block_ok save_block_link_ok "1.prems"(3) by blast
    then show ?thesis using "1.IH" [OF False n(1) refl n(2) refl n(3,4)] "1.prems"(3) by simp
  qed
qed

lemma write_file_ok: "write_file d p c s = Some t \<Longrightarrow> img_ok s \<Longrightarrow> harmless d \<Longrightarrow> img_ok t"
  by (auto simp: write_file_def elim!: bind_SomeE dest!: create_file_ok split: option.splits)
    (blast intro: fput_near fput_bytes_ok write_chunks_ok)+

lemma write_node_ok:
  "write_node d p n s = Some t \<Longrightarrow> img_ok s \<Longrightarrow> harmless d \<Longrightarrow> img_ok t"
  "write_entries d p es s = Some t \<Longrightarrow> img_ok s \<Longrightarrow> harmless d \<Longrightarrow> img_ok t"
proof (induction d p n s and d p es s arbitrary: t and t rule: write_node_write_entries.induct)
  case (4 d p es s)
  then obtain q u v w where q: "create_file d s = Some (q, u)" "fput_bytes q 0 (strncpy127 (basename p)) u = Some v"
    "f_bytes q v 127 = 0" "fput q 132 FTYPE_DIR v = Some w" "write_entries q p es w = Some t"
    by (auto elim!: bind_SomeE)
  have "harmless q" "img_ok u" using create_file_ok [OF q(1)] 4 by auto
  then have "img_ok w" using fput_bytes_ok [OF q(2)] fput_ok [OF q(4)] by blast
  then show ?case using 4(1) q \<open>harmless q\<close> by (metis kassert_simps(3))
next
  case (6 d p n e es s)
  then show ?case by (auto elim!: bind_SomeE split: if_splits)
qed (auto intro: write_file_ok)

section \<open>The image\<close>

lemma word_at_bytes:
  "j + 4 \<le> 4096 \<Longrightarrow> word_at f j = ucast (f j) OR push_bit 8 (ucast (f (j + 1))) OR
     push_bit 16 (ucast (f (j + 2))) OR push_bit 24 (ucast (f (j + 3)))"
proof -
  assume j: "j + 4 \<le> 4096"
  have u: "unat (word_of_nat j + word_of_nat k :: u32) = j + k" if "k < 4" for k
    using unat_of_nat32 [of "j + k"] j that by simp
  have u0: "unat (word_of_nat j :: u32) = j" using unat_of_nat32 [of j] j by simp
  show ?thesis using u [of 1] u [of 2] u [of 3] by (simp add: word_at_def rd32_def u0)
qed

lemma word_bytes: "ucast (wbytes w 0) OR push_bit 8 (ucast (wbytes w 1)) OR
     push_bit 16 (ucast (wbytes w 2)) OR push_bit 24 (ucast (wbytes w 3)) = w"
proof (rule bit_word_eqI)
  fix n :: nat assume "n < LENGTH(32)"
  then consider "n < 8" | "8 \<le> n" "n < 16" | "16 \<le> n" "n < 24" | "24 \<le> n" "n < 32"
    by fastforce
  then show "bit (ucast (wbytes w 0) OR push_bit 8 (ucast (wbytes w 1)) OR
     push_bit 16 (ucast (wbytes w 2)) OR push_bit 24 (ucast (wbytes w 3)) :: u32) n = bit w n"
    by cases (auto simp: wbytes_def bit_simps)
qed

lemma word_at_put:
  assumes "j + 4 \<le> 4096" "k = j \<or> k + 4 \<le> j \<or> j + 4 \<le> k"
  shows "word_at (put_word k w m) j = (if k = j then w else word_at m j)"
proof (cases "k = j")
  case True
  then show ?thesis using assms(1) word_bytes [of w] by (simp add: word_at_bytes put_word_def)
next
  case False
  then show ?thesis using assms by (auto simp: word_at_bytes put_word_def)
qed

lemma flush_word:
  assumes "set is \<subseteq> {..<32768}" "b < 32" "bit (word_at (fdata (fold flush_one is s) 2) 0) b"
  shows "bit (word_at (fdata s 2) 0) b \<and> b \<notin> set is"
  using assms
proof (induction "is" arbitrary: s)
  case (Cons i "is")
  have "word_at (fdata (flush_one i s) 2) 0 =
      (if i div 32 = 0 then word_at (fdata s 2) 0 AND NOT (push_bit (i mod 32) 1) else word_at (fdata s 2) 0)"
    using Cons.prems(1) word_at_put [of 0 "4 * (i div 32)"] by (auto simp: flush_one_def Let_def)
  moreover have "bit (word_at (fdata (flush_one i s) 2) 0) b \<and> b \<notin> set is"
    using Cons.IH [of "flush_one i s"] Cons.prems by simp
  ultimately show ?case using Cons.prems(2) by (auto simp: bit_simps split: if_splits)
qed simp

lemma flush_super: "fsuper (fold flush_one is s) = fsuper s"
  by (induction "is" arbitrary: s) (simp_all add: flush_one_def Let_def)

lemma init_disk_ok: "img_ok (init_disk zero_ffs)"
  by (auto simp: img_ok_def init_disk_def Let_def zero_ffs_def put_word_def put_bytes_def)

text \<open>The machine as the file server finds it, with the image as its disk.\<close>

definition boot_fs :: "(nat \<Rightarrow> nat \<Rightarrow> u8) \<Rightarrow> fs" where
  "boot_fs img = \<lparr>fmem = (\<lambda>_. 0), fmapped = (\<lambda>_. False), fdirty = (\<lambda>_. False),
     fdisk = (\<lambda>q i. img (q div 8) (512 * (q mod 8) + i)), super_p = 0, bitmap_p = 0\<rparr>"

lemma boot_fs_bytes: "i < 4096 \<Longrightarrow> disk_byte (boot_fs img) b i = img b i"
proof -
  assume "i < 4096"
  then have "i div 512 < 8" by auto
  then have "(8 * b + i div 512) div 8 = b" "(8 * b + i div 512) mod 8 = i div 512" by simp_all
  then show ?thesis by (simp add: disk_byte_def boot_fs_def)
qed

lemma fsformat_valid:
  assumes "main_fsformat False args = Some img"
  shows "valid_disk (boot_fs img) 1024"
proof -
  obtain s where s: "foldM (\<lambda>(name, node) s. do {
            _ \<leftarrow> kassert (node \<noteq> HOther);
            write_node Root name node s }) args (init_disk zero_ffs) = Some s"
    and img: "img = finish_fs False (flush_bitmap s)"
    using assms by (auto simp: main_fsformat_def Let_def elim!: bind_SomeE)
  have ok: "img_ok s"
    using s init_disk_ok
    by (rule foldM_inv [where I = img_ok])
      (auto elim!: bind_SomeE intro: write_node_ok(1) simp: harmless_def)
  have sup: "\<forall>i < 8. img 1 i = put_word 4 1024 (put_word 0 FS_MAGIC (\<lambda>_. 0)) i"
    using ok by (simp add: img finish_fs_def Let_def flush_bitmap_def flush_super img_ok_def)
  have w: "word_at (disk_byte (boot_fs img) 1) j = word_at (put_word 4 1024 (put_word 0 FS_MAGIC (\<lambda>_. 0))) j"
    if "j = 0 \<or> j = 4" for j
    using that sup by (intro word_at_cong) (auto simp: boot_fs_bytes)
  have bm: "word_at (disk_byte (boot_fs img) 2) 0 = word_at (fdata (flush_bitmap s) 2) 0"
    by (rule word_at_cong) (auto simp: boot_fs_bytes img finish_fs_def Let_def)
  have "\<not> bit (word_at (disk_byte (boot_fs img) 2) 0) b" if "b \<le> 2" for b
  proof
    assume "bit (word_at (disk_byte (boot_fs img) 2) 0) b"
    then have "b \<notin> set [0..<nextbno s]"
      unfolding bm flush_bitmap_def using ok that
      by (intro flush_word [THEN conjunct2]) (auto simp: img_ok_def)
    then show False using ok that by (auto simp: img_ok_def)
  qed
  then show ?thesis
    using w by (auto simp: valid_disk_def word_at_put)
qed

text \<open>
  C22. The file server mounts what \<^verbatim>\<open>fsformat\<close> builds: whatever files and directories it is given, if it
  finishes, \<^verbatim>\<open>fs_init\<close> succeeds on its image, with all 1024 blocks, and leaves the image unchanged.
\<close>

theorem fsformat_mounts:
  assumes "main_fsformat False args = Some img"
  shows "\<exists>t. fs_init (boot_fs img) = Some t \<and> mounted t \<and> nblocks t = 1024 \<and>
    (\<forall>b < 1024. \<forall>i < 4096. disk_byte t b i = img b i)"
proof -
  have "\<forall>b < 0x40000. \<not> cached (boot_fs img) b" "super_p (boot_fs img) = 0" "bitmap_p (boot_fs img) = 0"
    by (simp_all add: boot_fs_def cached_def)
  then show ?thesis
    using fs_init_ok [OF _ _ _ fsformat_valid [OF assms]] boot_fs_bytes [of _ img] by auto
qed

lemma fsformat_mounts_witness:
  "\<exists>img t. main_fsformat False [([97], HFile [])] = Some img \<and> fs_init (boot_fs img) = Some t \<and> nblocks t = 1024"
proof -
  let ?s = "init_disk zero_ffs"
  have "word_at (f_bytes Root ?s) 128 = word_at (\<lambda>_. 0) 128"
    by (rule word_at_cong)
      (auto simp: f_bytes_def init_disk_def Let_def zero_ffs_def put_word_def put_bytes_def)
  then have size: "word_at (f_bytes Root ?s) 128 = 0" and next_free: "nextbno ?s = 3"
    by (simp_all add: word_at_bytes init_disk_def Let_def zero_ffs_def)
  have "\<exists>img. main_fsformat False [([97], HFile [])] = Some img"
    by (simp add: main_fsformat_def Let_def size next_free write_file_def create_file_def make_link_block_def
        next_block_def save_block_link_def fget_def fput_def fput_bytes_def f_valid_def after_slash_def
        f_upd_def write_chunks.simps kassert_def)
  then show ?thesis using fsformat_mounts by blast
qed

end
