(* ===== verification/UserIpc.thy ===== *)
theory UserIpc
  imports Syscall
begin

text \<open>
  \<^verbatim>\<open>user/lib/ipc.c\<close> and \<^verbatim>\<open>user/lib/wait.c\<close>: the loops of a process around the system calls of theory
  \<open>Syscall\<close>. \<open>yield\<close> is \<^verbatim>\<open>syscall_yield\<close> as the process sees it: what the kernel and the other processes do
  until it runs again; \<^term>\<open>None\<close> when it does not run again. A failed \<^verbatim>\<open>user_assert\<close> is \<^term>\<open>None\<close>.
\<close>

partial_function (option) ipc_send_loop ::
  "(kstate \<Rightarrow> kstate option) \<Rightarrow> u32 \<Rightarrow> u32 \<Rightarrow> u32 \<Rightarrow> u32 \<Rightarrow> kstate \<Rightarrow> kstate option" where
  "ipc_send_loop yield whom val srcva perm s = do {
     (r, s) \<leftarrow> sys_ipc_try_send whom val srcva perm s;
     if r = Some (- E_IPC_NOT_RECV) then do {
       s \<leftarrow> yield s;
       ipc_send_loop yield whom val srcva perm s }
     else do {
       _ \<leftarrow> kassert (r = Some 0);
       Some s } }"

text \<open>
  \<^verbatim>\<open>syscall_ipc_recv\<close> returns when a message has come, with what the kernel has stored in the environment
  by then; \<open>block\<close> is what happens until the process runs again. The value, the sender and the
  permission.
\<close>

definition ipc_recv :: "(kstate \<Rightarrow> kstate option) \<Rightarrow> u32 \<Rightarrow> kstate \<Rightarrow> (u32 \<times> u32 \<times> u32 \<times> kstate) option" where
  "ipc_recv block dstva s = do {
     e \<leftarrow> curenv s;
     (r, s) \<leftarrow> sys_ipc_recv dstva s;
     (case r of
        Some r \<Rightarrow> None
      | None \<Rightarrow> do {
          s \<leftarrow> block s;
          Some (env_ipc_value (envs s e), env_ipc_from (envs s e), env_ipc_perm (envs s e), s) }) }"

partial_function (option) wait :: "(kstate \<Rightarrow> kstate option) \<Rightarrow> u32 \<Rightarrow> kstate \<Rightarrow> kstate option" where
  "wait yield envid s =
     (if env_id (envs s (ENVX envid)) = envid \<and> env_status (envs s (ENVX envid)) \<noteq> ENV_FREE then do {
        s \<leftarrow> yield s;
        wait yield envid s }
      else Some s)"

section \<open>Properties\<close>

text \<open>A send the receiver is not ready for, and one with a value only that it is ready for.\<close>

lemma try_send_early:
  "names_env s envid e \<Longrightarrow> env_ipc_recving (envs s e) = 0 \<Longrightarrow>
     sys_ipc_try_send envid v 0 perm s = Some (Some (- E_IPC_NOT_RECV), s)"
  using try_env_named [of s envid e False] by (simp add: sys_ipc_try_send_def ret_def)

text \<open>
  \<^verbatim>\<open>ipc_send\<close> waits for its receiver. When the receiver is in a receive after \<open>n\<close> yields and not before,
  whatever else happens in between, \<^verbatim>\<open>ipc_send\<close> returns; the receiver then has the value and the sender's
  identifier, is runnable and no longer in a receive.
\<close>

theorem ipc_send_waits:
  assumes "\<And>i. i < n \<Longrightarrow> names_env (st i) whom e \<and> env_ipc_recving (envs (st i) e) = 0 \<and> yield (st i) = Some (st (Suc i))"
    and "names_env (st n) whom e" "env_ipc_recving (envs (st n) e) \<noteq> 0" "curenv (st n) = Some c"
  shows "\<exists>t. ipc_send_loop yield whom v 0 perm (st 0) = Some t \<and> env_ipc_value (envs t e) = v \<and>
    env_ipc_from (envs t e) = env_id (envs (st n) c) \<and> env_ipc_recving (envs t e) = 0 \<and>
    env_status (envs t e) = ENV_RUNNABLE"
proof -
  let ?t = "(upd_env e (sent_env v (env_id (envs (st n) c)) perm) (st n))
    \<lparr>env_sched_list := TAILQ_INSERT_TAIL () e (env_sched_list (st n))\<rparr>"
  have "ipc_send_loop yield whom v 0 perm (st (n - k)) = Some ?t" if "k \<le> n" for k
    using that
  proof (induction k)
    case 0
    show ?case using try_send_value [OF assms(2-4), of v perm] by (subst ipc_send_loop.simps) simp
  next
    case (Suc k)
    then have "Suc (n - Suc k) = n - k" by simp
    then have "yield (st (n - Suc k)) = Some (st (n - k))"
      "sys_ipc_try_send whom v 0 perm (st (n - Suc k)) = Some (Some (- E_IPC_NOT_RECV), st (n - Suc k))"
      using assms(1) [of "n - Suc k"] Suc.prems try_send_early by auto
    then show ?case using Suc by (subst ipc_send_loop.simps) simp
  qed
  from this [of n] have "ipc_send_loop yield whom v 0 perm (st 0) = Some ?t" by simp
  then show ?thesis by (simp add: upd_env_def sent_env_def)
qed

text \<open>An environment of the example kernel that waits for a message.\<close>

definition ex_receiving :: kstate where
  "ex_receiving = upd_env 1 (\<lambda>x. x\<lparr>env_ipc_recving := 1, env_status := ENV_NOT_RUNNABLE\<rparr>) ex_kernel"

theorem ipc_send_waits_witness:
  "\<exists>t. ipc_send_loop (\<lambda>_. Some ex_receiving) 0x1001 42 0 0 ex_kernel = Some t \<and> env_ipc_value (envs t 1) = 42"
proof -
  let ?st = "\<lambda>i :: nat. if i = 0 then ex_kernel else ex_receiving"
  have names: "names_env (?st i) 0x1001 1" for i
    using ex_env_facts by (simp add: names_env_def ex_receiving_def upd_env_def ex_kernel_def ex_env_def)
  have early: "env_ipc_recving (envs (?st 0) 1) = 0" and late: "env_ipc_recving (envs (?st 1) 1) \<noteq> 0"
    and cur: "curenv (?st 1) = Some 0"
    by (simp_all add: ex_receiving_def upd_env_def ex_kernel_def ex_env_def)
  have "\<exists>t. ipc_send_loop (\<lambda>_. Some ex_receiving) 0x1001 42 0 0 (?st 0) = Some t \<and> env_ipc_value (envs t 1) = 42 \<and>
      env_ipc_from (envs t 1) = env_id (envs (?st 1) 0) \<and> env_ipc_recving (envs t 1) = 0 \<and> env_status (envs t 1) = ENV_RUNNABLE"
    by (rule ipc_send_waits [where st = ?st and n = 1 and e = 1 and c = 0]) (use names [of 0] names [of 1] early late cur in auto)
  then show ?thesis by auto
qed

text \<open>
  C37. A send of a page that is not mapped fails too late. The sender gets \<^verbatim>\<open>-E_INVAL\<close>, and \<^verbatim>\<open>ipc_send\<close> dies of it,
  but the receiver has been given the value, is runnable again and is told that a page came with it.
\<close>

theorem send_unmapped_page:
  assumes "names_env s whom e" "env_ipc_recving (envs s e) \<noteq> 0" "curenv s = Some c"
    and "srcva \<noteq> 0" "\<not> is_illegal_va srcva"
    and "page_lookup (env_pgdir (envs s c)) srcva (km s) = Some (None, pte, m)"
  shows "\<exists>t. sys_ipc_try_send whom v srcva perm s = Some (Some (- E_INVAL), t) \<and>
    ipc_send_loop yield whom v srcva perm s = None \<and>
    env_ipc_value (envs t e) = v \<and> env_ipc_recving (envs t e) = 0 \<and> env_status (envs t e) = ENV_RUNNABLE \<and>
    env_ipc_perm (envs t e) = PTE_V OR (perm AND NOT PTE_SWAPPED)"
proof -
  let ?t = "(upd_env e (sent_env v (env_id (envs s c)) perm) s)
    \<lparr>env_sched_list := TAILQ_INSERT_TAIL () e (env_sched_list s), km := m\<rparr>"
  have send: "sys_ipc_try_send whom v srcva perm s = Some (Some (- E_INVAL), ?t)"
    using assms try_env_named [OF assms(1), of False]
    by (auto simp: sys_ipc_try_send_def upd_env_def sent_env_def ret_def Let_def klookup_def)
  moreover have "ipc_send_loop yield whom v srcva perm s = None"
    by (subst ipc_send_loop.simps) (simp add: send kassert_def)
  ultimately show ?thesis by (simp add: upd_env_def sent_env_def)
qed

theorem send_unmapped_page_witness:
  "\<exists>t. sys_ipc_try_send 0x1001 42 UTEXT 0 ex_receiving = Some (Some (- E_INVAL), t) \<and> env_ipc_value (envs t 1) = 42"
proof -
  have "names_env ex_receiving 0x1001 1" "env_ipc_recving (envs ex_receiving 1) \<noteq> 0" "curenv ex_receiving = Some 0"
    using ex_env_facts by (simp_all add: names_env_def ex_receiving_def upd_env_def ex_kernel_def ex_env_def)
  moreover have "page_lookup (env_pgdir (envs ex_receiving 0)) UTEXT (km ex_receiving) = Some (None, None, ex_mem)"
    by (simp add: ex_receiving_def upd_env_def ex_kernel_def ex_env_def page_lookup_def pgdir_walk_def swap_in_if_needed_def ex_mem_def)
  ultimately show ?thesis
    using send_unmapped_page [of ex_receiving "0x1001" 1 0 UTEXT None ex_mem 42 0 "\<lambda>_. None"]
    by (auto simp: is_illegal_va_def)
qed

end
