(* ===== verification/Fd.thy ===== *)
theory Fd
  imports Mmu CString Filefd
begin

text \<open>
  \<^verbatim>\<open>user/lib/fd.c\<close>: file descriptors, in the address space of the process that runs them. A
  descriptor is a page of the table at \<^verbatim>\<open>FDTABLE\<close>; descriptor \<open>i\<close> is open when page \<open>i\<close> of the table
  is mapped, and its data is the 4 MB from \<^verbatim>\<open>FILEBASE + i * PDMAP\<close> on.

  The process is seen as the kernel shows it to its users: \<open>upt p\<close> is the frame and the permission
  bits of virtual page \<open>p\<close> (whether it is resident or on the swap disk, what \<^verbatim>\<open>vpt\<close> shows under the
  mask \<^verbatim>\<open>PTE_V | PTE_SWAPPED\<close>), \<open>upd d\<close> tells whether the table of directory entry \<open>d\<close> exists, and
  \<open>frames\<close> has the contents of the frames, which several pages may share, and the kernel hands out
  the frames from \<open>nframe\<close> on. A device's functions are
  the members of its \<^verbatim>\<open>struct Dev\<close>; the table of devices is an argument, as each device extends the
  state with its own. An access to a page that is not mapped, or a store to one without \<^verbatim>\<open>PTE_D\<close>, is
  \<^term>\<open>None\<close>, like a panic. Debugging output is left out.
\<close>

section \<open>State\<close>

record uproc =
  upt :: "nat \<Rightarrow> (nat \<times> u32) option"
  upd :: "nat \<Rightarrow> bool"
  frames :: "nat \<Rightarrow> nat \<Rightarrow> u8"
  nframe :: nat

record 's dev =
  dev_id :: u32
  dev_addr :: u32
  dev_read :: "u32 \<Rightarrow> u32 \<Rightarrow> u32 \<Rightarrow> u32 \<Rightarrow> 's \<Rightarrow> (int \<times> 's) option"
  dev_write :: "u32 \<Rightarrow> u32 \<Rightarrow> u32 \<Rightarrow> u32 \<Rightarrow> 's \<Rightarrow> (int \<times> 's) option"
  dev_close :: "u32 \<Rightarrow> 's \<Rightarrow> (int \<times> 's) option"
  dev_stat :: "u32 \<Rightarrow> u32 \<Rightarrow> 's \<Rightarrow> (int \<times> 's) option"

definition MAXFD :: nat where [simp]: "MAXFD = 32"
definition FILEBASE :: u32 where [simp]: "FILEBASE = 0x60000000"
definition FDTABLE :: u32 where [simp]: "FDTABLE = FILEBASE - PDMAP"

definition INDEX2FD :: "int \<Rightarrow> u32" where
  "INDEX2FD i = FDTABLE + word_of_int i * PTMAP"

definition INDEX2DATA :: "int \<Rightarrow> u32" where
  "INDEX2DATA i = FILEBASE + word_of_int i * PDMAP"

text \<open>Offsets in \<^verbatim>\<open>struct Stat\<close>.\<close>

definition st_name :: u32 where [simp]: "st_name = 0"
definition st_size :: u32 where [simp]: "st_size = 128"
definition st_isdir :: u32 where [simp]: "st_isdir = 132"
definition st_dev :: u32 where [simp]: "st_dev = 136"

section \<open>Memory and system calls\<close>

definition pgoff :: "u32 \<Rightarrow> nat" where
  "pgoff va = unat (va mod PAGE_SIZE)"

definition uld8 :: "u32 \<Rightarrow> 'x uproc_scheme \<Rightarrow> u8 option" where
  "uld8 va s = do { (fr, _) \<leftarrow> upt s (VPN va); Some (frames s fr (pgoff va)) }"

definition ust8 :: "u32 \<Rightarrow> u8 \<Rightarrow> 'x uproc_scheme \<Rightarrow> 'x uproc_scheme option" where
  "ust8 va b s = do {
     (fr, perm) \<leftarrow> upt s (VPN va);
     _ \<leftarrow> kassert (perm AND PTE_D \<noteq> 0);
     Some (s\<lparr>frames := (frames s)(fr := (frames s fr)(pgoff va := b))\<rparr>) }"

definition uld32 :: "u32 \<Rightarrow> 'x uproc_scheme \<Rightarrow> u32 option" where
  "uld32 va s = do {
     (fr, _) \<leftarrow> upt s (VPN va);
     Some (rd32 (\<lambda>a. frames s fr (pgoff a)) va) }"

definition ust32 :: "u32 \<Rightarrow> u32 \<Rightarrow> 'x uproc_scheme \<Rightarrow> 'x uproc_scheme option" where
  "ust32 va w s = do {
     s \<leftarrow> ust8 va (ucast w) s;
     s \<leftarrow> ust8 (va + 1) (ucast (drop_bit 8 w)) s;
     s \<leftarrow> ust8 (va + 2) (ucast (drop_bit 16 w)) s;
     ust8 (va + 3) (ucast (drop_bit 24 w)) s }"

definition u_mem_map :: "u32 \<Rightarrow> u32 \<Rightarrow> u32 \<Rightarrow> 'x uproc_scheme \<Rightarrow> int \<times> 'x uproc_scheme" where
  "u_mem_map srcva dstva perm s =
     (if is_illegal_va srcva \<or> is_illegal_va dstva then (- E_INVAL, s)
      else
        (case upt s (VPN srcva) of
           None \<Rightarrow> (- E_INVAL, s)
         | Some (fr, _) \<Rightarrow>
             (0, s\<lparr>upt := (upt s)(VPN dstva \<mapsto> (fr, perm)),
                   upd := (upd s)(PDX dstva := True)\<rparr>)))"

definition u_mem_alloc :: "u32 \<Rightarrow> u32 \<Rightarrow> 'x uproc_scheme \<Rightarrow> int \<times> 'x uproc_scheme" where
  "u_mem_alloc va perm s =
     (if is_illegal_va va then (- E_INVAL, s)
      else (0, s\<lparr>upt := (upt s)(VPN va \<mapsto> (nframe s, perm)), upd := (upd s)(PDX va := True),
                 frames := (frames s)(nframe s := (\<lambda>_. 0)), nframe := nframe s + 1\<rparr>))"

definition u_mem_unmap :: "u32 \<Rightarrow> 'x uproc_scheme \<Rightarrow> int \<times> 'x uproc_scheme" where
  "u_mem_unmap va s =
     (if is_illegal_va va then (- E_INVAL, s)
      else (0, s\<lparr>upt := (upt s)(VPN va := None)\<rparr>))"

section \<open>Descriptors\<close>

definition fd_used :: "u32 \<Rightarrow> 'x uproc_scheme \<Rightarrow> bool" where
  "fd_used va s \<longleftrightarrow> upd s (PDX va) \<and> upt s (VPN va) \<noteq> None"

fun dev_lookup :: "'s dev list \<Rightarrow> u32 \<Rightarrow> 's dev option" where
  "dev_lookup [] i = None"
| "dev_lookup (d # ds) i = (if dev_id d = i then Some d else dev_lookup ds i)"

text \<open>The result code and \<^verbatim>\<open>*fd\<close>.\<close>

fun fd_alloc_from :: "nat list \<Rightarrow> 'x uproc_scheme \<Rightarrow> int \<times> u32" where
  "fd_alloc_from [] s = (- E_MAX_OPEN, 0)"
| "fd_alloc_from (i # is) s =
     (let va = INDEX2FD (int i) in
      if \<not> upd s (PDX va) then (0, va)
      else if upt s (VPN va) = None then (0, va)
      else fd_alloc_from is s)"

definition fd_alloc :: "'x uproc_scheme \<Rightarrow> int \<times> u32" where
  "fd_alloc s = fd_alloc_from [0..<MAXFD - 1] s"

definition fd_lookup :: "int \<Rightarrow> 'x uproc_scheme \<Rightarrow> int \<times> u32" where
  "fd_lookup fdnum s =
     (if fdnum \<ge> int MAXFD then (- E_INVAL, 0)
      else
        let va = INDEX2FD fdnum in
        if fd_used va s then (0, va) else (- E_INVAL, 0))"

definition fd2num :: "u32 \<Rightarrow> u32" where
  "fd2num fd = (fd - FDTABLE) div PTMAP"

definition num2fd :: "int \<Rightarrow> u32" where
  "num2fd fd = word_of_int fd * PTMAP + FDTABLE"

definition fd2data :: "u32 \<Rightarrow> u32" where
  "fd2data fd = INDEX2DATA (uint (fd2num fd))"

definition fd_close :: "u32 \<Rightarrow> 'x uproc_scheme \<Rightarrow> 'x uproc_scheme option" where
  "fd_close fd s = do {
     let (r, s) = u_mem_unmap fd s;
     _ \<leftarrow> panic_on (r \<noteq> 0);
     Some s }"

text \<open>
  The start of \<^verbatim>\<open>close\<close>, \<^verbatim>\<open>read\<close>, \<^verbatim>\<open>write\<close> and \<^verbatim>\<open>fstat\<close>: the descriptor and its device, or the error.
\<close>

definition fd_dev :: "('x uproc_scheme) dev list \<Rightarrow> int \<Rightarrow> 'x uproc_scheme \<Rightarrow>
    (int + u32 \<times> ('x uproc_scheme) dev) option" where
  "fd_dev devtab fdnum s =
     (let (r, fd) = fd_lookup fdnum s in
      if r < 0 then Some (Inl r)
      else do {
        i \<leftarrow> uld32 (fd + fd_dev_id) s;
        Some (case dev_lookup devtab i of
                None \<Rightarrow> Inl (- E_INVAL)
              | Some dev \<Rightarrow> Inr (fd, dev)) })"

definition close :: "('x uproc_scheme) dev list \<Rightarrow> int \<Rightarrow> 'x uproc_scheme \<Rightarrow>
    (int \<times> 'x uproc_scheme) option" where
  "close devtab fdnum s = do {
     x \<leftarrow> fd_dev devtab fdnum s;
     (case x of
        Inl r \<Rightarrow> Some (r, s)
      | Inr (fd, dev) \<Rightarrow> do {
          (r, s) \<leftarrow> dev_close dev fd s;
          s \<leftarrow> fd_close fd s;
          Some (r, s) }) }"

definition close_all :: "('x uproc_scheme) dev list \<Rightarrow> 'x uproc_scheme \<Rightarrow> 'x uproc_scheme option"
  where
  "close_all devtab s =
     foldM (\<lambda>i s. do { (_, s) \<leftarrow> close devtab (int i) s; Some s }) [0..<MAXFD] s"

section \<open>Duplicating a descriptor\<close>

text \<open>The pages \<open>i * PTMAP\<close> of the data, until a mapping fails.\<close>

fun dup_pages :: "u32 \<Rightarrow> u32 \<Rightarrow> nat list \<Rightarrow> 'x uproc_scheme \<Rightarrow> int \<times> 'x uproc_scheme" where
  "dup_pages ova nva [] s = (0, s)"
| "dup_pages ova nva (i # is) s =
     (let off = word_of_nat i * PTMAP in
      case upt s (VPN (ova + off)) of
        None \<Rightarrow> dup_pages ova nva is s
      | Some (fr, perm) \<Rightarrow>
          let (r, s) = u_mem_map (ova + off) (nva + off) (perm AND (PTE_D OR PTE_LIBRARY)) s in
          if r < 0 then (r, s) else dup_pages ova nva is s)"

definition unmap_or_panic :: "u32 \<Rightarrow> 'x uproc_scheme \<Rightarrow> 'x uproc_scheme option" where
  "unmap_or_panic va s = do {
     let (r, s) = u_mem_unmap va s;
     _ \<leftarrow> panic_on (r \<noteq> 0);
     Some s }"

definition dup_undo :: "u32 \<Rightarrow> u32 \<Rightarrow> 'x uproc_scheme \<Rightarrow> 'x uproc_scheme option" where
  "dup_undo newfd nva s = do {
     s \<leftarrow> unmap_or_panic newfd s;
     foldM (\<lambda>i. unmap_or_panic (nva + word_of_nat i * PTMAP)) [0..<1024] s }"

definition dup :: "('x uproc_scheme) dev list \<Rightarrow> int \<Rightarrow> int \<Rightarrow> 'x uproc_scheme \<Rightarrow>
    (int \<times> 'x uproc_scheme) option" where
  "dup devtab oldfdnum newfdnum s =
     (let (r, oldfd) = fd_lookup oldfdnum s in
      if r < 0 then Some (r, s)
      else do {
        (_, s) \<leftarrow> close devtab newfdnum s;
        let newfd = INDEX2FD newfdnum;
        let ova = fd2data oldfd;
        let nva = fd2data newfd;
        let (r, s) = (if upd s (PDX ova) then dup_pages ova nva [0..<1024] s else (0, s));
        let (r, s) =
          (if r < 0 then (r, s)
           else u_mem_map oldfd newfd
                  ((case upt s (VPN oldfd) of None \<Rightarrow> 0 | Some (_, perm) \<Rightarrow> perm)
                     AND (PTE_D OR PTE_LIBRARY)) s);
        if r < 0 then do { s \<leftarrow> dup_undo newfd nva s; Some (r, s) }
        else Some (newfdnum, s) })"

section \<open>Reading and writing\<close>

definition fd_read :: "('x uproc_scheme) dev list \<Rightarrow> int \<Rightarrow> u32 \<Rightarrow> u32 \<Rightarrow> 'x uproc_scheme \<Rightarrow>
    (int \<times> 'x uproc_scheme) option" where
  "fd_read devtab fdnum buf n s = do {
     x \<leftarrow> fd_dev devtab fdnum s;
     (case x of
        Inl r \<Rightarrow> Some (r, s)
      | Inr (fd, dev) \<Rightarrow> do {
          omode \<leftarrow> uld32 (fd + fd_omode) s;
          if omode AND O_ACCMODE = O_WRONLY then Some (- E_INVAL, s)
          else do {
            off \<leftarrow> uld32 (fd + fd_offset) s;
            (r, s) \<leftarrow> dev_read dev fd buf n off s;
            if r > 0 then do {
              off \<leftarrow> uld32 (fd + fd_offset) s;
              s \<leftarrow> ust32 (fd + fd_offset) (off + word_of_int r) s;
              Some (r, s) }
            else Some (r, s) } }) }"

text \<open>
  The loop of \<^verbatim>\<open>readn\<close>: with a device that returns more than it was asked for, \<open>tot\<close> might step over
  \<open>n\<close> for ever.
\<close>

partial_function (option) readn_loop ::
  "('x uproc_scheme) dev list \<Rightarrow> int \<Rightarrow> u32 \<Rightarrow> u32 \<Rightarrow> u32 \<Rightarrow> 'x uproc_scheme \<Rightarrow>
    (int \<times> 'x uproc_scheme) option" where
  "readn_loop devtab fdnum buf n tot s =
     (if tot < n then do {
        (m, s) \<leftarrow> fd_read devtab fdnum (buf + tot) (n - tot) s;
        if m < 0 then Some (m, s)
        else if m = 0 then Some (sint tot, s)
        else readn_loop devtab fdnum buf n (tot + word_of_int m) s }
      else Some (sint tot, s))"

definition readn :: "('x uproc_scheme) dev list \<Rightarrow> int \<Rightarrow> u32 \<Rightarrow> u32 \<Rightarrow> 'x uproc_scheme \<Rightarrow>
    (int \<times> 'x uproc_scheme) option" where
  "readn devtab fdnum buf n s = readn_loop devtab fdnum buf n 0 s"

definition fd_write :: "('x uproc_scheme) dev list \<Rightarrow> int \<Rightarrow> u32 \<Rightarrow> u32 \<Rightarrow> 'x uproc_scheme \<Rightarrow>
    (int \<times> 'x uproc_scheme) option" where
  "fd_write devtab fdnum buf n s = do {
     x \<leftarrow> fd_dev devtab fdnum s;
     (case x of
        Inl r \<Rightarrow> Some (r, s)
      | Inr (fd, dev) \<Rightarrow> do {
          omode \<leftarrow> uld32 (fd + fd_omode) s;
          if omode AND O_ACCMODE = O_RDONLY then Some (- E_INVAL, s)
          else do {
            off \<leftarrow> uld32 (fd + fd_offset) s;
            (r, s) \<leftarrow> dev_write dev fd buf n off s;
            if r > 0 then do {
              off \<leftarrow> uld32 (fd + fd_offset) s;
              s \<leftarrow> ust32 (fd + fd_offset) (off + word_of_int r) s;
              Some (r, s) }
            else Some (r, s) } }) }"

definition seek :: "int \<Rightarrow> u32 \<Rightarrow> 'x uproc_scheme \<Rightarrow> (int \<times> 'x uproc_scheme) option" where
  "seek fdnum offset s =
     (let (r, fd) = fd_lookup fdnum s in
      if r < 0 then Some (r, s)
      else do { s \<leftarrow> ust32 (fd + fd_offset) offset s; Some (0, s) })"

definition fstat :: "('x uproc_scheme) dev list \<Rightarrow> int \<Rightarrow> u32 \<Rightarrow> 'x uproc_scheme \<Rightarrow>
    (int \<times> 'x uproc_scheme) option" where
  "fstat devtab fdnum stat s = do {
     x \<leftarrow> fd_dev devtab fdnum s;
     (case x of
        Inl r \<Rightarrow> Some (r, s)
      | Inr (fd, dev) \<Rightarrow> do {
          s \<leftarrow> ust8 (stat + st_name) 0 s;
          s \<leftarrow> ust32 (stat + st_size) 0 s;
          s \<leftarrow> ust32 (stat + st_isdir) 0 s;
          s \<leftarrow> ust32 (stat + st_dev) (dev_addr dev) s;
          dev_stat dev fd stat s }) }"


section \<open>Properties\<close>

lemma INDEX2FD_unat: "i < 32 \<Longrightarrow> unat (INDEX2FD (int i)) = 0x5fc00000 + 4096 * i"
proof -
  assume "i < 32"
  moreover have "INDEX2FD (int i) = word_of_nat (0x5fc00000 + 4096 * i)"
    by (simp add: INDEX2FD_def PTMAP_def)
  ultimately show ?thesis by (simp add: unat_of_nat del: of_nat_add of_nat_mult)
qed

lemma fd_index:
  assumes i: "i < 32"
  shows "fd2num (INDEX2FD (int i)) = word_of_nat i" "fd2data (INDEX2FD (int i)) = INDEX2DATA (int i)"
proof -
  have "unat (INDEX2FD (int i) - FDTABLE) = 4096 * i"
    using INDEX2FD_unat [of i] i by (simp add: unat_sub_if_size PDMAP_def)
  then show n: "fd2num (INDEX2FD (int i)) = word_of_nat i"
    using i by (simp add: fd2num_def word_unat_eq_iff unat_div unat_of_nat PTMAP_def)
  have "uint (word_of_nat i :: u32) = int i" using i by (simp add: uint_nat unat_of_nat)
  then show "fd2data (INDEX2FD (int i)) = INDEX2DATA (int i)" by (simp add: fd2data_def n)
qed

lemma find_upt:
  "find P [0..<n] = None \<and> (\<forall>j < n. \<not> P j) \<or> (\<exists>i < n. find P [0..<n] = Some i \<and> P i \<and> (\<forall>j < i. \<not> P j))"
proof (cases "find P [0..<n]")
  case (Some i)
  then obtain k where "k < n" "P k" "i = k" "\<forall>j < k. \<not> P j" by (auto simp: find_Some_iff)
  then show ?thesis using Some by blast
qed (simp add: find_None_iff)

lemma fd_alloc_from_find:
  "fd_alloc_from is s =
     (case find (\<lambda>i. \<not> fd_used (INDEX2FD (int i)) s) is of
        None \<Rightarrow> (- E_MAX_OPEN, 0) | Some i \<Rightarrow> (0, INDEX2FD (int i)))"
  by (induction "is") (auto simp: fd_used_def Let_def)

text \<open>
  Descriptors: \<^verbatim>\<open>fd_alloc\<close> finds the least number below 31 whose page is not mapped, so 31 is never
  handed out, though \<^verbatim>\<open>MAXFD\<close> is 32; numbers and addresses convert both ways; \<^verbatim>\<open>fd_lookup\<close> accepts
  exactly the numbers below 32 whose page is mapped, and that includes the negative ones, which
  lie below the table.
\<close>

theorem fd_numbers:
  "((\<exists>i < 31. fd_alloc s = (0, INDEX2FD (int i)) \<and> \<not> fd_used (INDEX2FD (int i)) s \<and>
        (\<forall>j < i. fd_used (INDEX2FD (int j)) s)) \<or>
    fd_alloc s = (- E_MAX_OPEN, 0) \<and> (\<forall>j < 31. fd_used (INDEX2FD (int j)) s)) \<and>
   (\<forall>i < MAXFD. num2fd (int i) = INDEX2FD (int i) \<and> fd2num (INDEX2FD (int i)) = word_of_nat i \<and>
      fd2data (INDEX2FD (int i)) = INDEX2DATA (int i)) \<and>
   (\<forall>z. fd_lookup z s =
      (if z < int MAXFD \<and> fd_used (INDEX2FD z) s then (0, INDEX2FD z) else (- E_INVAL, 0)))"
proof (intro conjI allI impI)
  show "(\<exists>i < 31. fd_alloc s = (0, INDEX2FD (int i)) \<and> \<not> fd_used (INDEX2FD (int i)) s \<and>
        (\<forall>j < i. fd_used (INDEX2FD (int j)) s)) \<or>
    fd_alloc s = (- E_MAX_OPEN, 0) \<and> (\<forall>j < 31. fd_used (INDEX2FD (int j)) s)"
    using find_upt [of "\<lambda>i. \<not> fd_used (INDEX2FD (int i)) s" 31]
    unfolding fd_alloc_def fd_alloc_from_find by (auto simp del: upt_rec_numeral)
  fix i assume i: "i < MAXFD"
  show "num2fd (int i) = INDEX2FD (int i)" by (simp add: num2fd_def INDEX2FD_def)
  show "fd2num (INDEX2FD (int i)) = word_of_nat i" "fd2data (INDEX2FD (int i)) = INDEX2DATA (int i)"
    using fd_index i by simp_all
next
  fix z show "fd_lookup z s =
      (if z < int MAXFD \<and> fd_used (INDEX2FD z) s then (0, INDEX2FD z) else (- E_INVAL, 0))"
    by (simp add: fd_lookup_def Let_def)
qed

lemma sint_small: "unat (w :: u32) < 2 ^ 31 \<Longrightarrow> sint w = uint w"
proof -
  assume "unat w < 2 ^ 31"
  then have "unat w < 2147483648" by simp
  then have "uint w < 2147483648" using uint_nat [of w] by linarith
  then have "uint w < 2 ^ 31" by simp
  moreover have "- (2 ^ 31) \<le> uint w" by (rule order_trans [of _ 0]) simp_all
  ultimately have "signed_take_bit 31 (uint w) = uint w" by (simp only: signed_take_bit_int_eq_self)
  then show ?thesis by (simp only: sint_uint) simp
qed

text \<open>The loop of \<^verbatim>\<open>readn\<close> ends when every read is answered with at most what it asked for.\<close>

lemma readn_loop_returns:
  fixes n tot :: u32
  assumes "\<And>k buf s. I s \<Longrightarrow> \<exists>m t. fd_read devtab fdnum buf k s = Some (m, t) \<and> m \<le> uint k \<and> I t"
    and "I s" "tot \<le> n" "unat n < 2 ^ 31"
  shows "\<exists>r t. readn_loop devtab fdnum buf n tot s = Some (r, t) \<and> r \<le> uint n \<and> I t"
  using assms(2,3)
proof (induction "unat n - unat tot" arbitrary: tot s rule: less_induct)
  case less
  have small: "sint x = uint x" if "x \<le> n" for x
    using that assms(4) by (intro sint_small) (simp add: word_le_nat_alt)
  show ?case
  proof (cases "tot < n")
    case False
    then have "readn_loop devtab fdnum buf n tot s = Some (sint tot, s)" by (subst readn_loop.simps) simp
    then show ?thesis using less.prems small [of tot] by (simp add: word_le_def)
  next
    case True
    obtain m t where m: "fd_read devtab fdnum (buf + tot) (n - tot) s = Some (m, t)" "m \<le> uint (n - tot)" "I t"
      using assms(1) [OF less.prems(1)] by blast
    show ?thesis
    proof (cases "m \<le> 0")
      case neg: True
      then have "readn_loop devtab fdnum buf n tot s = Some (if m < 0 then m else sint tot, s) \<or>
          readn_loop devtab fdnum buf n tot s = Some (if m < 0 then m else sint tot, t)"
        using m(1) True by (subst (1 2) readn_loop.simps) simp
      moreover have "(if m < 0 then m else sint tot) \<le> uint n"
        using small [of tot] less.prems(2) by (auto simp: word_le_def intro: order_trans [of _ 0])
      ultimately show ?thesis using less.prems(1) m(3) by blast
    next
      case pos: False
      define t' where "t' = tot + word_of_int m"
      have "uint (n - tot) < 2 ^ 32" using unsigned_less [of "n - tot"] by simp
      then have um: "uint (word_of_int m :: u32) = m"
        using m(2) pos by (simp add: uint_word_of_int_eq take_bit_int_eq_self)
      have sub: "uint (n - tot) = uint n - uint tot"
        using True by (intro uint_sub_lem [THEN iffD1]) (simp add: word_less_def)
      have "uint n < 2 ^ 32" using unsigned_less [of n] by simp
      then have t': "uint t' = uint tot + m"
        using m(2) sub um unfolding t'_def by (subst uint_add_lem [THEN iffD1]) simp_all
      have b: "uint tot < uint n" using True by (simp add: word_less_def)
      have "uint t' \<le> uint n" "uint tot < uint t'" using t' m(2) sub pos by linarith+
      then have "int (unat t') \<le> int (unat n)" "int (unat tot) < int (unat t')" "int (unat tot) < int (unat n)"
        using b by (simp_all only: uint_nat)
      then have le: "t' \<le> n" and lt: "unat n - unat t' < unat n - unat tot"
        unfolding word_le_nat_alt by linarith+
      have "readn_loop devtab fdnum buf n tot s = readn_loop devtab fdnum buf n t' t"
        unfolding t'_def readn_loop.simps [of devtab fdnum buf n tot s] m(1) using pos True by simp
      then show ?thesis using less.hyps [OF lt m(3) le] by simp
    qed
  qed
qed

text \<open>
  C35. \<^verbatim>\<open>readn\<close> returns: when every read is answered, with an error or with at most the bytes asked
  for, its loop ends, whatever the sizes of the pieces, and the count it returns is at most what
  was asked for.
\<close>

theorem readn_returns:
  assumes "\<And>k buf s. I s \<Longrightarrow> \<exists>m t. fd_read devtab fdnum buf k s = Some (m, t) \<and> m \<le> uint k \<and> I t"
    and "I s" "unat n < 2 ^ 31"
  shows "\<exists>r t. readn devtab fdnum buf n s = Some (r, t) \<and> r \<le> uint n \<and> I t"
  unfolding readn_def by (rule readn_loop_returns [OF assms(1,2) _ assms(3)]) simp_all

text \<open>A device that has nothing to read.\<close>

definition ex_uproc :: uproc where
  "ex_uproc = \<lparr>upt = (\<lambda>_. Some (0, PTE_D)), upd = (\<lambda>_. True), frames = (\<lambda>_ _. 0), nframe = 1\<rparr>"

definition ex_dev :: "uproc dev" where
  "ex_dev = \<lparr>dev_id = 0, dev_addr = 0, dev_read = (\<lambda>_ _ _ _ s. Some (0, s)),
     dev_write = (\<lambda>_ _ n _ s. Some (uint n, s)), dev_close = (\<lambda>_ s. Some (0, s)), dev_stat = (\<lambda>_ _ s. Some (0, s))\<rparr>"

lemma ex_fd_read: "fd_read [ex_dev] 0 buf k ex_uproc = Some (0, ex_uproc)"
proof -
  have l: "uld32 a ex_uproc = Some 0" for a
    by (simp add: uld32_def rd32_def ex_uproc_def)
  have u: "fd_used a ex_uproc" for a by (simp add: fd_used_def ex_uproc_def)
  have d: "dev_id ex_dev = 0" "dev_read ex_dev fd b n off s = Some (0, s)" for fd b n off s
    by (simp_all add: ex_dev_def)
  show ?thesis by (simp add: fd_read_def fd_dev_def fd_lookup_def Let_def u l d)
qed

lemma readn_returns_witness: "\<exists>r. readn [ex_dev] 0 0x400000 100 ex_uproc = Some (r, ex_uproc) \<and> r \<le> 100"
  using readn_returns [of "\<lambda>s. s = ex_uproc" "[ex_dev]" 0 ex_uproc 100] ex_fd_read by auto

text \<open>With every page mapped, all 31 numbers are in use and \<open>- 1\<close> is a descriptor.\<close>

lemma fd_numbers_witness:
  "fd_alloc ex_uproc = (- 9, 0) \<and> fd_lookup (- 1) ex_uproc = (0, 0x5fbff000)"
proof -
  have u: "fd_used a ex_uproc" for a by (simp add: fd_used_def ex_uproc_def)
  have "INDEX2FD (- 1) = 0x5fbff000" by (simp add: INDEX2FD_def PTMAP_def PDMAP_def)
  then show ?thesis using fd_numbers [of ex_uproc] by (simp add: u)
qed

end
