(* ===== verification/MemView.thy ===== *)
theory MemView
  imports CString
begin

text \<open>
  The functions of \<^verbatim>\<open>lib/string.c\<close> on memory that is not a plain array. \<open>byte_view\<close> is what they need of
  it: a \<open>view\<close> of the state as an array of bytes, and sets of addresses that can be read and written,
  where the four accesses do to the view what they do to an array. Within these addresses the
  functions do to the view what they do to an array, whatever else the state holds (the pages of a
  process, for instance). Plain memory is the first instance.
\<close>

text \<open>Alignment is kept by steps of four, and equal for two addresses that agree in their low bits.\<close>

lemma and3_unat: "unat (a AND 3 :: u32) = unat a mod 4"
proof -
  have "a AND 3 = take_bit 2 a" by (simp add: take_bit_eq_mask mask_eq_exp_minus_1)
  then show ?thesis by (simp add: take_bit_eq_mod unat_mod)
qed

lemma aligned_same: "(a :: u32) AND 3 = b AND 3 \<Longrightarrow> (a + k) AND 3 = (b + k) AND 3"
proof -
  assume "a AND 3 = b AND 3"
  then have "unat a mod 4 = unat b mod 4" by (metis and3_unat)
  moreover have "unat (x + k) mod 4 = (unat x mod 4 + unat k) mod 4" for x :: u32
    by (simp add: unat_word_ariths mod_mod_cancel mod_add_left_eq)
  ultimately have "unat ((a + k) AND 3) = unat ((b + k) AND 3)" by (simp only: and3_unat)
  then show ?thesis by (simp only: word_unat_eq_iff)
qed

lemma aligned_add4: "(a + 4 :: u32) AND 3 = a AND 3"
proof -
  have "unat (a + 4) mod 4 = unat a mod 4"
    by (simp add: unat_word_ariths mod_mod_cancel)
  then show ?thesis by (simp only: word_unat_eq_iff and3_unat)
qed

lemma cstr_nth:
  "cstr m p bs \<longleftrightarrow> (\<forall>i < length bs. m (p + word_of_nat i) = bs ! i \<and> bs ! i \<noteq> 0) \<and> m (p + word_of_nat (length bs)) = 0"
  by (induction bs arbitrary: p) (auto simp: All_less_Suc2 add.assoc)

locale byte_view =
  fixes ops :: "'s mem_ops" and ok :: "'s \<Rightarrow> bool" and view :: "'s \<Rightarrow> u32 \<Rightarrow> u8"
    and rd :: "u32 \<Rightarrow> bool" and wr :: "u32 \<Rightarrow> bool"
  assumes ld8_view: "ok s \<Longrightarrow> rd a \<Longrightarrow> ld8 ops a s = Some (view s a, s)"
    and st8_view: "ok s \<Longrightarrow> wr a \<Longrightarrow> \<exists>t. st8 ops a b s = Some t \<and> ok t \<and> view t = (view s)(a := b)"
    and ld32_view: "ok s \<Longrightarrow> a AND 3 = 0 \<Longrightarrow> (\<And>k. k < 4 \<Longrightarrow> rd (a + word_of_nat k)) \<Longrightarrow>
      ld32 ops a s = Some (rd32 (view s) a, s)"
    and st32_view: "ok s \<Longrightarrow> a AND 3 = 0 \<Longrightarrow> (\<And>k. k < 4 \<Longrightarrow> wr (a + word_of_nat k)) \<Longrightarrow>
      \<exists>t. st32 ops a w s = Some t \<and> ok t \<and> view t = wr32 a w (view s)"
begin

text \<open>The next \<open>n\<close> bytes can be copied from \<open>src\<close> to \<open>dst\<close>.\<close>

definition room :: "u32 \<Rightarrow> u32 \<Rightarrow> nat \<Rightarrow> bool" where
  "room dst src n \<longleftrightarrow> unat dst + n + 4 < 2 ^ 32 \<and>
     (\<forall>i < n. wr (dst + word_of_nat i) \<and> rd (src + word_of_nat i))"

lemma room_step: "room dst src n \<Longrightarrow> k \<le> n \<Longrightarrow> room (dst + word_of_nat k) (src + word_of_nat k) (n - k)"
proof -
  assume a: "room dst src n" "k \<le> n"
  have "unat (dst + word_of_nat k) = unat dst + k"
    using a unat_of_nat32 [of k] by (simp add: room_def unat_word_ariths)
  moreover have "wr (dst + word_of_nat k + word_of_nat i) \<and> rd (src + word_of_nat k + word_of_nat i)"
    if "i < n - k" for i
    using a that by (simp add: room_def add.assoc flip: of_nat_add)
  ultimately show ?thesis using a by (auto simp: room_def)
qed

lemma room_first: "room dst src (Suc n) \<Longrightarrow> wr dst \<and> rd src"
  by (force simp: room_def)

lemma room_limit:
  assumes "room dst src n"
  shows "dst < dst + word_of_nat n \<longleftrightarrow> 0 < n" "dst + 4 \<le> dst + word_of_nat n \<longleftrightarrow> 4 \<le> n"
proof -
  have "unat (dst + word_of_nat n) = unat dst + n" "unat (dst + 4) = unat dst + 4"
    using assms unat_of_nat32 [of n] by (simp_all add: room_def unat_word_ariths)
  then show "dst < dst + word_of_nat n \<longleftrightarrow> 0 < n" "dst + 4 \<le> dst + word_of_nat n \<longleftrightarrow> 4 \<le> n"
    by (simp_all add: word_less_nat_alt word_le_nat_alt)
qed

text \<open>
  What a copying loop does to an array it does to the view; it stops after \<open>k\<close> bytes, with \<open>Q k\<close>.
\<close>

definition copies_as :: "(nat \<Rightarrow> bool) \<Rightarrow> u32 \<Rightarrow> u32 \<Rightarrow> (u32 \<times> u32 \<times> 's) option \<Rightarrow>
    (u32 \<times> u32 \<times> (u32 \<Rightarrow> u8)) option \<Rightarrow> bool" where
  "copies_as Q dst src x y \<longleftrightarrow>
     (\<exists>k t. Q k \<and> ok t \<and> x = Some (dst + word_of_nat k, src + word_of_nat k, t) \<and>
        y = Some (dst + word_of_nat k, src + word_of_nat k, view t))"

lemma copies_as_now: "Q 0 \<Longrightarrow> ok s \<Longrightarrow> copies_as Q dst src (Some (dst, src, s)) (Some (dst, src, view s))"
  unfolding copies_as_def by (intro exI [of _ 0] exI [of _ s]) simp

lemma copies_as_later:
  assumes "copies_as Q (dst + word_of_nat j) (src + word_of_nat j) x y" "\<And>k. Q k \<Longrightarrow> R (j + k)"
  shows "copies_as R dst src x y"
  using assms unfolding copies_as_def
  by (elim exE conjE) (rule_tac x = "j + k" in exI, auto simp: add.assoc)

lemma copy_step8:
  assumes "ok s" "room dst src (Suc n)"
  obtains t where "st8 ops dst (view s src) s = Some t" "ok t" "view t = (view s)(dst := view s src)"
    "ld8 ops src s = Some (view s src, s)" "room (dst + 1) (src + 1) n"
  using st8_view [OF assms(1)] ld8_view [OF assms(1)] room_first [OF assms(2)] room_step [OF assms(2), of 1]
  by fastforce

lemma copy_loop8_view:
  assumes "ok s" "room dst src n"
  shows "copies_as (\<lambda>k. k \<le> n) dst src (copy_loop8 ops dst src (dst + word_of_nat n) s)
           (copy_loop8 byte_ops dst src (dst + word_of_nat n) (view s))"
  using assms
proof (induction n arbitrary: dst src s)
  case 0
  then show ?case by (subst (1 2) copy_loop8.simps) (simp add: copies_as_now)
next
  case (Suc n)
  obtain t where t: "st8 ops dst (view s src) s = Some t" "ok t" "view t = (view s)(dst := view s src)"
    "ld8 ops src s = Some (view s src, s)" "room (dst + 1) (src + 1) n"
    using copy_step8 [OF Suc.prems] .
  then show ?case
    using copies_as_later [of _ dst 1 src _ _ "\<lambda>k. k \<le> Suc n"] Suc.IH [OF t(2,5)] room_limit(1) [OF Suc.prems(2)]
    by (subst (1 2) copy_loop8.simps) (simp add: add.assoc fun_upd_def)
qed

lemma copy_align_view:
  assumes "ok s" "room dst src n"
  shows "copies_as (\<lambda>k. k = n \<or> k \<le> n \<and> (dst + word_of_nat k) AND 3 = 0) dst src
           (copy_align ops dst src (dst + word_of_nat n) s)
           (copy_align byte_ops dst src (dst + word_of_nat n) (view s))"
  using assms
proof (induction n arbitrary: dst src s)
  case 0
  then show ?case by (subst (1 2) copy_align.simps) (simp add: copies_as_now)
next
  case (Suc n)
  obtain t where t: "st8 ops dst (view s src) s = Some t" "ok t" "view t = (view s)(dst := view s src)"
    "ld8 ops src s = Some (view s src, s)" "room (dst + 1) (src + 1) n"
    using copy_step8 [OF Suc.prems] .
  show ?case
  proof (cases "dst AND 3 = 0")
    case True
    then show ?thesis using Suc.prems(1) by (subst (1 2) copy_align.simps) (simp add: copies_as_now)
  next
    case False
    have "copies_as (\<lambda>k. k = Suc n \<or> k \<le> Suc n \<and> (dst + word_of_nat k) AND 3 = 0) dst src
        (copy_align ops (dst + 1) (src + 1) (dst + 1 + word_of_nat n) t)
        (copy_align byte_ops (dst + 1) (src + 1) (dst + 1 + word_of_nat n) (view t))"
      by (rule copies_as_later [where j = 1]) (use Suc.IH [OF t(2,5)] in \<open>auto simp: add.assoc\<close>)
    then show ?thesis
      using t False room_limit(1) [OF Suc.prems(2)]
      by (subst (1 2) copy_align.simps) (simp add: add.assoc fun_upd_def)
  qed
qed

lemma copy_loop32_view:
  assumes "ok s" "room dst src n" "4 \<le> n \<Longrightarrow> dst AND 3 = 0 \<and> src AND 3 = 0"
  shows "copies_as (\<lambda>k. k \<le> n) dst src (copy_loop32 ops dst src (dst + word_of_nat n) s)
           (copy_loop32 byte_ops dst src (dst + word_of_nat n) (view s))"
  using assms
proof (induction n arbitrary: dst src s rule: less_induct)
  case (less n)
  show ?case
  proof (cases "4 \<le> n")
    case False
    then show ?thesis
      using less.prems room_limit(2) [OF less.prems(2)]
      by (subst (1 2) copy_loop32.simps) (simp add: copies_as_now)
  next
    case True
    have all: "wr (dst + word_of_nat k)" "rd (src + word_of_nat k)" if "k < 4" for k
      using less.prems(2) True that by (auto simp: room_def)
    obtain t where t: "st32 ops dst (rd32 (view s) src) s = Some t" "ok t" "view t = wr32 dst (rd32 (view s) src) (view s)"
      using st32_view [OF less.prems(1)] all(1) less.prems(3) True by blast
    have l: "ld32 ops src s = Some (rd32 (view s) src, s)"
      using ld32_view [OF less.prems(1)] all(2) less.prems(3) True by blast
    have "copies_as (\<lambda>k. k \<le> n - 4) (dst + 4) (src + 4)
        (copy_loop32 ops (dst + 4) (src + 4) (dst + 4 + word_of_nat (n - 4)) t)
        (copy_loop32 byte_ops (dst + 4) (src + 4) (dst + 4 + word_of_nat (n - 4)) (view t))"
      using True less.prems(3) room_step [OF less.prems(2) True]
      by (intro less.IH t(2)) (simp_all add: aligned_add4)
    then have "copies_as (\<lambda>k. k \<le> n) dst src
        (copy_loop32 ops (dst + 4) (src + 4) (dst + word_of_nat n) t)
        (copy_loop32 byte_ops (dst + 4) (src + 4) (dst + word_of_nat n) (view t))"
      using copies_as_later [of "\<lambda>k. k \<le> n - 4" dst 4 src _ _ "\<lambda>k. k \<le> n"] True
      by (simp add: add.assoc of_nat_diff)
    then show ?thesis
      using l t room_limit(2) [OF less.prems(2)] True by (subst (1 2) copy_loop32.simps) simp
  qed
qed

text \<open>\<^verbatim>\<open>memcpy\<close> copies in the view.\<close>

lemma memcpy_view:
  assumes "ok s" "room dst src (unat n)" "ranges_disjoint dst src (unat n)"
  shows "\<exists>t. memcpy ops dst src n s = Some (dst, t) \<and> ok t \<and> view t = mcopy (view s) dst src (unat n)"
proof -
  let ?n = "unat n"
  have whole: "memcpy byte_ops dst src n (view s) = Some (dst, mcopy (view s) dst src ?n)"
    using assms(2,3) by (intro memcpy_eq) (simp_all add: room_def)
  have "\<exists>t. memcpy ops dst src n s = Some (dst, t) \<and> ok t \<and> memcpy byte_ops dst src n (view s) = Some (dst, view t)"
  proof (cases "src AND 3 = dst AND 3")
    case False
    then show ?thesis
      using copy_loop8_view [OF assms(1,2)] by (auto simp: memcpy_def copies_as_def)
  next
    case True
    obtain k t where k: "k = ?n \<or> k \<le> ?n \<and> (dst + word_of_nat k) AND 3 = 0" "ok t"
      "copy_align ops dst src (dst + n) s = Some (dst + word_of_nat k, src + word_of_nat k, t)"
      "copy_align byte_ops dst src (dst + n) (view s) = Some (dst + word_of_nat k, src + word_of_nat k, view t)"
      using copy_align_view [OF assms(1,2)] by (auto simp: copies_as_def)
    have r: "room (dst + word_of_nat k) (src + word_of_nat k) (?n - k)"
      and lim: "dst + word_of_nat k + word_of_nat (?n - k) = dst + n"
      using room_step [OF assms(2), of k] k(1) by (auto simp: of_nat_diff)
    have al: "(dst + word_of_nat k) AND 3 = 0 \<and> (src + word_of_nat k) AND 3 = 0" if "4 \<le> ?n - k"
      using k(1) that True aligned_same [of src dst "word_of_nat k"] by auto
    obtain j u where j: "j \<le> ?n - k" "ok u"
      "copy_loop32 ops (dst + word_of_nat k) (src + word_of_nat k) (dst + n) t =
         Some (dst + word_of_nat k + word_of_nat j, src + word_of_nat k + word_of_nat j, u)"
      "copy_loop32 byte_ops (dst + word_of_nat k) (src + word_of_nat k) (dst + n) (view t) =
         Some (dst + word_of_nat k + word_of_nat j, src + word_of_nat k + word_of_nat j, view u)"
      using copy_loop32_view [OF k(2) r al] unfolding lim by (auto simp: copies_as_def)
    have "dst + word_of_nat k + word_of_nat j + word_of_nat (?n - k - j) = dst + n"
      using k(1) j(1) by (auto simp: add.assoc simp flip: of_nat_add)
    then show ?thesis
      using copy_loop8_view [OF j(2) room_step [OF r j(1)]] True k j by (auto simp: memcpy_def copies_as_def)
  qed
  then show ?thesis using whole by auto
qed

text \<open>\<^verbatim>\<open>strlen\<close> only reads.\<close>

lemma strlen_from_view:
  "ok s \<Longrightarrow> cstr (view s) p bs \<Longrightarrow> (\<And>i. i \<le> length bs \<Longrightarrow> rd (p + word_of_nat i)) \<Longrightarrow>
     strlen_from ops p n s = Some (n + word_of_nat (length bs), s)"
proof (induction bs arbitrary: p n)
  case Nil
  then show ?case using Nil.prems(3) [of 0] by (subst strlen_from.simps) (simp add: ld8_view)
next
  case (Cons b bs)
  have "rd (p + 1 + word_of_nat i)" if "i \<le> length bs" for i
    using Cons.prems(3) [of "Suc i"] that by (simp add: add.assoc)
  then show ?case
    using Cons.prems(1,2) Cons.prems(3) [of 0] Cons.IH [of "p + 1" "n + 1"]
    by (subst strlen_from.simps) (simp add: ld8_view add.assoc)
qed

lemma strlen_view:
  "ok s \<Longrightarrow> cstr (view s) p bs \<Longrightarrow> (\<And>i. i \<le> length bs \<Longrightarrow> rd (p + word_of_nat i)) \<Longrightarrow>
     strlen ops p s = Some (word_of_nat (length bs), s)"
  by (simp add: strlen_def strlen_from_view)

end

interpretation plain: byte_view byte_ops "\<lambda>_. True" "\<lambda>m. m" "\<lambda>_. True" "\<lambda>_. True"
  by unfold_locales simp_all

end
