(* ===== verification/FileClient.thy ===== *)
theory FileClient
  imports Fd Serv MemView
begin

text \<open>
  \<^verbatim>\<open>user/lib/file.c\<close>, \<^verbatim>\<open>user/lib/fsipc.c\<close> and \<^verbatim>\<open>stat\<close> of \<^verbatim>\<open>user/lib/fd.c\<close>: files as a process sees them. A
  file is mapped page by page at \<^verbatim>\<open>fd2data(fd)\<close>; reading and writing are copies in memory, and the
  file server is asked to open, map, resize, mark dirty and close.

  The file server runs in its own address space (theory \<open>Serv\<close>), which the frames shared with the
  process connect to this one; here it is an argument, a function from the request number, the
  request page, the frames and its own state to its answer: the value, the frame it sends (if any), the
  permission, and the frames and state it leaves. \<^term>\<open>None\<close> stands for no answer. \<open>fsipcbuf\<close> is the
  request page. Paths are the bytes of the C string. Debugging output is left out.
\<close>

section \<open>State\<close>

record 'w client = uproc +
  fsipcbuf :: "nat \<Rightarrow> u8"
  csrv :: 'w

type_synonym 'w fserver =
  "u32 \<Rightarrow> (nat \<Rightarrow> u8) \<Rightarrow> (nat \<Rightarrow> nat \<Rightarrow> u8) \<times> nat \<times> 'w \<Rightarrow>
    (u32 \<times> nat option \<times> u32 \<times> (nat \<Rightarrow> nat \<Rightarrow> u8) \<times> nat \<times> 'w) option"

definition MAXFILESIZE :: u32 where [simp]: "MAXFILESIZE = NINDIRECT * BLOCK_SIZE"

definition req_word :: "u32 \<Rightarrow> u32 \<Rightarrow> 'w client \<Rightarrow> 'w client" where
  "req_word k w s = s\<lparr>fsipcbuf := (\<lambda>i. wr32 k w (\<lambda>a. fsipcbuf s (unat a)) (word_of_nat i))\<rparr>"

definition req_string :: "u8 list \<Rightarrow> 'w client \<Rightarrow> 'w client" where
  "req_string p s = s\<lparr>fsipcbuf := (\<lambda>i. if i \<le> length p then (p @ [0]) ! i else fsipcbuf s i)\<rparr>"

section \<open>Requests\<close>

text \<open>
  \<^verbatim>\<open>ipc_send\<close> and \<^verbatim>\<open>ipc_recv\<close>: the value received, the permission the kernel reports, and the page sent
  mapped at \<open>dstva\<close>.
\<close>

definition fsipc :: "'w fserver \<Rightarrow> u32 \<Rightarrow> u32 \<Rightarrow> 'w client \<Rightarrow> (int \<times> u32 \<times> 'w client) option" where
  "fsipc fsv type dstva s = do {
     (v, pg, perm, fr, nf, w) \<leftarrow> fsv type (fsipcbuf s) (frames s, nframe s, csrv s);
     _ \<leftarrow> panic_on (dstva \<noteq> 0 \<and> is_illegal_va dstva);
     let s = s\<lparr>frames := fr, nframe := nf, csrv := w\<rparr>;
     let s = (case pg of
                None \<Rightarrow> s
              | Some f \<Rightarrow> s\<lparr>upt := (upt s)(VPN dstva \<mapsto> (f, perm)), upd := (upd s)(PDX dstva := True)\<rparr>);
     Some (sint v, PTE_V OR (perm AND NOT PTE_SWAPPED), s) }"

definition fsipc_open :: "'w fserver \<Rightarrow> u8 list \<Rightarrow> u32 \<Rightarrow> u32 \<Rightarrow> 'w client \<Rightarrow> (int \<times> 'w client) option" where
  "fsipc_open fsv path omode fd s =
     (if length path \<ge> MAXPATHLEN then Some (- E_BAD_PATH, s)
      else do {
        let s = req_string path s;
        let s = req_word req_omode omode s;
        (r, _, s) \<leftarrow> fsipc fsv FSREQ_OPEN fd s;
        Some (r, s) })"

definition fsipc_map :: "'w fserver \<Rightarrow> u32 \<Rightarrow> u32 \<Rightarrow> u32 \<Rightarrow> 'w client \<Rightarrow> (int \<times> 'w client) option" where
  "fsipc_map fsv fileid offset dstva s = do {
     let s = req_word req_fileid fileid s;
     let s = req_word req_offset offset s;
     (r, perm, s) \<leftarrow> fsipc fsv FSREQ_MAP dstva s;
     if r < 0 then Some (r, s)
     else do {
       _ \<leftarrow> panic_on (perm AND NOT (PTE_D OR PTE_LIBRARY) \<noteq> PTE_V);
       Some (0, s) } }"

definition fsipc_set_size :: "'w fserver \<Rightarrow> u32 \<Rightarrow> u32 \<Rightarrow> 'w client \<Rightarrow> (int \<times> 'w client) option" where
  "fsipc_set_size fsv fileid sz s = do {
     let s = req_word req_fileid fileid s;
     let s = req_word req_size sz s;
     (r, _, s) \<leftarrow> fsipc fsv FSREQ_SET_SIZE 0 s;
     Some (r, s) }"

definition fsipc_close :: "'w fserver \<Rightarrow> u32 \<Rightarrow> 'w client \<Rightarrow> (int \<times> 'w client) option" where
  "fsipc_close fsv fileid s = do {
     let s = req_word req_fileid fileid s;
     (r, _, s) \<leftarrow> fsipc fsv FSREQ_CLOSE 0 s;
     Some (r, s) }"

definition fsipc_dirty :: "'w fserver \<Rightarrow> u32 \<Rightarrow> u32 \<Rightarrow> 'w client \<Rightarrow> (int \<times> 'w client) option" where
  "fsipc_dirty fsv fileid offset s = do {
     let s = req_word req_fileid fileid s;
     let s = req_word req_offset offset s;
     (r, _, s) \<leftarrow> fsipc fsv FSREQ_DIRTY 0 s;
     Some (r, s) }"

text \<open>A path of exactly \<^verbatim>\<open>MAXPATHLEN\<close> bytes passes; its terminator goes past \<^verbatim>\<open>req_path\<close>.\<close>

definition fsipc_remove :: "'w fserver \<Rightarrow> u8 list \<Rightarrow> 'w client \<Rightarrow> (int \<times> 'w client) option" where
  "fsipc_remove fsv path s =
     (if path = [] \<or> length path > MAXPATHLEN then Some (- E_BAD_PATH, s)
      else do {
        let s = req_string path s;
        (r, _, s) \<leftarrow> fsipc fsv FSREQ_REMOVE 0 s;
        Some (r, s) })"

definition fsipc_sync :: "'w fserver \<Rightarrow> 'w client \<Rightarrow> (int \<times> 'w client) option" where
  "fsipc_sync fsv s = do { (r, _, s) \<leftarrow> fsipc fsv FSREQ_SYNC 0 s; Some (r, s) }"

section \<open>Memory and loops\<close>

text \<open>The accesses of the process, for the functions of \<^verbatim>\<open>lib/string.c\<close>.\<close>

definition uops :: "'x uproc_scheme mem_ops" where
  "uops = \<lparr>ld8 = (\<lambda>a s. do { b \<leftarrow> uld8 a s; Some (b, s) }), st8 = ust8,
           ld32 = (\<lambda>a s. do { w \<leftarrow> uld32 a s; Some (w, s) }), st32 = ust32\<rparr>"

text \<open>A C string in the memory of the process.\<close>

partial_function (option) ustring :: "u32 \<Rightarrow> 'x uproc_scheme \<Rightarrow> u8 list option" where
  "ustring p s = do {
     b \<leftarrow> uld8 p s;
     if b = 0 then Some [] else do { bs \<leftarrow> ustring (p + 1) s; Some (b # bs) } }"

text \<open>The \<open>n\<close> bytes at \<open>a\<close>.\<close>

fun ubytes :: "nat \<Rightarrow> u32 \<Rightarrow> 'x uproc_scheme \<Rightarrow> u8 list option" where
  "ubytes 0 a s = Some []"
| "ubytes (Suc n) a s = do { b \<leftarrow> uld8 a s; bs \<leftarrow> ubytes n (a + 1) s; Some (b # bs) }"

text \<open>
  \<^verbatim>\<open>for (; i < n; i += PTMAP)\<close> until the body fails. The offset is a 32-bit integer, so the loop may
  not end when \<open>n\<close> is close to \<open>2 ^ 32\<close>.
\<close>

partial_function (option) page_loop ::
  "(u32 \<Rightarrow> 's \<Rightarrow> (int \<times> 's) option) \<Rightarrow> u32 \<Rightarrow> u32 \<Rightarrow> 's \<Rightarrow> (int \<times> 's) option" where
  "page_loop body i n s =
     (if i < n then do {
        (r, s) \<leftarrow> body i s;
        if r < 0 then Some (r, s) else page_loop body (i + PTMAP) n s }
      else Some (0, s))"

section \<open>Files\<close>

definition uopen :: "'w fserver \<Rightarrow> u8 list \<Rightarrow> u32 \<Rightarrow> 'w client \<Rightarrow> (int \<times> 'w client) option" where
  "uopen fsv path mode s =
     (let (r, fd) = fd_alloc s in
      if r \<noteq> 0 then Some (r, s)
      else do {
        (r, s) \<leftarrow> fsipc_open fsv path mode fd s;
        if r \<noteq> 0 then Some (r, s)
        else do {
          let va = fd2data fd;
          sz \<leftarrow> uld32 (fd + f_file + f_size) s;
          fileid \<leftarrow> uld32 (fd + f_fileid) s;
          (r, s) \<leftarrow> page_loop (\<lambda>i. fsipc_map fsv fileid i (va + i)) 0 sz s;
          if r \<noteq> 0 then Some (r, s) else Some (sint (fd2num fd), s) } })"

definition ufile_close :: "'w fserver \<Rightarrow> u32 \<Rightarrow> 'w client \<Rightarrow> (int \<times> 'w client) option" where
  "ufile_close fsv fd s = do {
     fileid \<leftarrow> uld32 (fd + f_fileid) s;
     sz \<leftarrow> uld32 (fd + f_file + f_size) s;
     let va = fd2data fd;
     (r, s) \<leftarrow> page_loop (fsipc_dirty fsv fileid) 0 sz s;
     if r < 0 then Some (r, s)
     else do {
       (r, s) \<leftarrow> fsipc_close fsv fileid s;
       if r < 0 then Some (r, s)
       else if sz = 0 then Some (0, s)
       else page_loop (\<lambda>i s. Some (u_mem_unmap (va + i) s)) 0 sz s } }"

definition ufile_read :: "u32 \<Rightarrow> u32 \<Rightarrow> u32 \<Rightarrow> u32 \<Rightarrow> 'x uproc_scheme \<Rightarrow> (int \<times> 'x uproc_scheme) option" where
  "ufile_read fd buf n offset s = do {
     sz \<leftarrow> uld32 (fd + f_file + f_size) s;
     if offset > sz then Some (0, s)
     else do {
       let n = (if offset + n > sz then sz - offset else n);
       (_, s) \<leftarrow> memcpy uops buf (fd2data fd + offset) n s;
       Some (sint n, s) } }"

text \<open>The result and \<^verbatim>\<open>*blk\<close>.\<close>

definition read_map :: "int \<Rightarrow> u32 \<Rightarrow> 'x uproc_scheme \<Rightarrow> (int \<times> u32) option" where
  "read_map fdnum offset s =
     (let (r, fd) = fd_lookup fdnum s in
      if r < 0 then Some (r, 0)
      else do {
        i \<leftarrow> uld32 (fd + fd_dev_id) s;
        if i \<noteq> devfile_id then Some (- E_INVAL, 0)
        else
          let va = fd2data fd + offset in
          if offset \<ge> MAXFILESIZE then Some (- E_NO_DISK, 0)
          else if \<not> upd s (PDX va) \<or> upt s (VPN va) = None then Some (- E_NO_DISK, 0)
          else Some (0, va) })"

text \<open>The new size is stored in the descriptor before the server is asked, and stays there if it refuses.\<close>

definition ftruncate :: "'w fserver \<Rightarrow> int \<Rightarrow> u32 \<Rightarrow> 'w client \<Rightarrow> (int \<times> 'w client) option" where
  "ftruncate fsv fdnum sz s =
     (if sz > MAXFILESIZE then Some (- E_NO_DISK, s)
      else
        let (r, fd) = fd_lookup fdnum s in
        if r < 0 then Some (r, s)
        else do {
          i \<leftarrow> uld32 (fd + fd_dev_id) s;
          if i \<noteq> devfile_id then Some (- E_INVAL, s)
          else do {
            fileid \<leftarrow> uld32 (fd + f_fileid) s;
            oldsize \<leftarrow> uld32 (fd + f_file + f_size) s;
            s \<leftarrow> ust32 (fd + f_file + f_size) sz s;
            (r, s) \<leftarrow> fsipc_set_size fsv fileid sz s;
            if r < 0 then Some (r, s)
            else do {
              let va = fd2data fd;
              (r, s) \<leftarrow> page_loop (\<lambda>i. fsipc_map fsv fileid i (va + i))
                         (ROUND oldsize PTMAP) (ROUND sz PTMAP) s;
              if r < 0 then do {
                (r', s) \<leftarrow> fsipc_set_size fsv fileid oldsize s;
                if r' < 0 then Some (r', s) else Some (r, s) }
              else do {
                (r, s) \<leftarrow> page_loop (\<lambda>i s. Some (u_mem_unmap (va + i) s))
                           (ROUND sz PTMAP) (ROUND oldsize PTMAP) s;
                _ \<leftarrow> panic_on (r < 0);
                Some (0, s) } } } })"

definition ufile_write :: "'w fserver \<Rightarrow> u32 \<Rightarrow> u32 \<Rightarrow> u32 \<Rightarrow> u32 \<Rightarrow> 'w client \<Rightarrow> (int \<times> 'w client) option" where
  "ufile_write fsv fd buf n offset s =
     (let tot = offset + n in
      if tot > MAXFILESIZE then Some (- E_NO_DISK, s)
      else do {
        sz \<leftarrow> uld32 (fd + f_file + f_size) s;
        (r, s) \<leftarrow> (if tot > sz then ftruncate fsv (sint (fd2num fd)) tot s else Some (0, s));
        if r < 0 then Some (r, s)
        else do {
          (_, s) \<leftarrow> memcpy uops (fd2data fd + offset) buf n s;
          Some (sint n, s) } })"

definition ufile_stat :: "u32 \<Rightarrow> u32 \<Rightarrow> 'x uproc_scheme \<Rightarrow> (int \<times> 'x uproc_scheme) option" where
  "ufile_stat fd st s = do {
     (_, s) \<leftarrow> strcpy uops (st + st_name) (fd + f_file + f_name) s;
     sz \<leftarrow> uld32 (fd + f_file + f_size) s;
     s \<leftarrow> ust32 (st + st_size) sz s;
     ty \<leftarrow> uld32 (fd + f_file + f_type) s;
     s \<leftarrow> ust32 (st + st_isdir) (if ty = FTYPE_DIR then 1 else 0) s;
     Some (0, s) }"

text \<open>The device, at the address the linker gave it.\<close>

definition devfile :: "'w fserver \<Rightarrow> u32 \<Rightarrow> 'w client dev" where
  "devfile fsv addr =
     \<lparr>dev_id = devfile_id, dev_addr = addr, dev_read = ufile_read, dev_write = ufile_write fsv,
      dev_close = ufile_close fsv, dev_stat = ufile_stat\<rparr>"

definition remove_path :: "'w fserver \<Rightarrow> u8 list \<Rightarrow> 'w client \<Rightarrow> (int \<times> 'w client) option" where
  "remove_path fsv path s = fsipc_remove fsv path s"

definition sync_files :: "'w fserver \<Rightarrow> 'w client \<Rightarrow> (int \<times> 'w client) option" where
  "sync_files fsv s = fsipc_sync fsv s"

definition stat_path :: "'w fserver \<Rightarrow> ('w client) dev list \<Rightarrow> u8 list \<Rightarrow> u32 \<Rightarrow> 'w client \<Rightarrow>
    (int \<times> 'w client) option" where
  "stat_path fsv devtab path st s = do {
     (fd, s) \<leftarrow> uopen fsv path O_RDONLY s;
     if fd < 0 then Some (fd, s)
     else do {
       (r, s) \<leftarrow> fstat devtab fd st s;
       (_, s) \<leftarrow> close devtab fd s;
       Some (r, s) } }"

section \<open>What a process sees of its memory\<close>

text \<open>The byte of memory behind an address: the frame and the offset in it; and what it holds.\<close>

definition uloc :: "'x uproc_scheme \<Rightarrow> u32 \<Rightarrow> (nat \<times> nat) option" where
  "uloc s a = map_option (\<lambda>(fr, _). (fr, pgoff a)) (upt s (VPN a))"

definition ubyte :: "'x uproc_scheme \<Rightarrow> u32 \<Rightarrow> u8" where
  "ubyte s a = (case upt s (VPN a) of None \<Rightarrow> 0 | Some (fr, _) \<Rightarrow> frames s fr (pgoff a))"

definition writable :: "'x uproc_scheme \<Rightarrow> u32 \<Rightarrow> bool" where
  "writable s a \<longleftrightarrow> (\<exists>fr perm. upt s (VPN a) = Some (fr, perm) \<and> perm AND PTE_D \<noteq> 0)"

text \<open>
  The addresses \<open>A\<close> are mapped, those of \<open>W\<close> can be written, and no two addresses of \<open>A\<close> are the same byte of
  memory; \<open>s\<close> differs from \<open>s0\<close> only in the contents of \<open>W\<close>.
\<close>

definition distinct_bytes :: "u32 set \<Rightarrow> u32 set \<Rightarrow> 'x uproc_scheme \<Rightarrow> bool" where
  "distinct_bytes A W s \<longleftrightarrow> W \<subseteq> A \<and> inj_on (uloc s) A \<and> (\<forall>a \<in> A. upt s (VPN a) \<noteq> None) \<and> (\<forall>a \<in> W. writable s a)"

definition uok :: "u32 set \<Rightarrow> u32 set \<Rightarrow> 'x uproc_scheme \<Rightarrow> 'x uproc_scheme \<Rightarrow> bool" where
  "uok A W s0 s \<longleftrightarrow> distinct_bytes A W s0 \<and> s = s0\<lparr>frames := frames s\<rparr> \<and>
     (\<forall>fr i. Some (fr, i) \<notin> uloc s0 ` W \<longrightarrow> frames s fr i = frames s0 fr i)"

definition uview :: "u32 set \<Rightarrow> 'x uproc_scheme \<Rightarrow> u32 \<Rightarrow> u8" where
  "uview A s a = (if a \<in> A then ubyte s a else 0)"

lemma uok_upt: "uok A W s0 s \<Longrightarrow> upt s = upt s0 \<and> upd s = upd s0"
proof -
  assume "uok A W s0 s"
  then have "s = s0\<lparr>frames := frames s\<rparr>" by (simp only: uok_def)
  then have "upt s = upt (s0\<lparr>frames := frames s\<rparr>)" "upd s = upd (s0\<lparr>frames := frames s\<rparr>)" by (rule arg_cong)+
  then show ?thesis by simp
qed

lemma uok_refl: "distinct_bytes A W s \<Longrightarrow> uok A W s s"
  by (simp add: uok_def)

lemma uld8_view: "uok A W s0 s \<Longrightarrow> a \<in> A \<Longrightarrow> uld8 a s = Some (uview A s a)"
  using uok_upt [of A W s0 s] by (auto simp: uok_def distinct_bytes_def uld8_def uview_def ubyte_def)

lemma ust8_view:
  assumes "uok A W s0 s" "a \<in> W"
  shows "\<exists>t. ust8 a b s = Some t \<and> uok A W s0 t \<and> uview A t = (uview A s)(a := b)"
proof -
  have A: "a \<in> A" and "writable s0 a" using assms unfolding uok_def distinct_bytes_def by blast+
  then obtain fr perm where p: "upt s (VPN a) = Some (fr, perm)" "perm AND PTE_D \<noteq> 0"
    using uok_upt [OF assms(1)] unfolding writable_def by auto
  have inj: "inj_on (uloc s0) A" using assms(1) unfolding uok_def distinct_bytes_def by blast
  have same: "uloc s = uloc s0" using uok_upt [OF assms(1)] by (simp add: uloc_def fun_eq_iff)
  define t where "t = s\<lparr>frames := (frames s)(fr := (frames s fr)(pgoff a := b))\<rparr>"
  have st: "ust8 a b s = Some t" using p by (simp add: ust8_def t_def)
  obtain g where "s = s0\<lparr>frames := g\<rparr>" using assms(1) unfolding uok_def by blast
  then have "t = s0\<lparr>frames := frames t\<rparr>" by (simp add: t_def)
  moreover have "Some (fr, pgoff a) \<in> uloc s0 ` W"
    using p assms uok_upt [OF assms(1)] by (force simp: uloc_def)
  ultimately have "uok A W s0 t" using assms(1) unfolding uok_def by (simp add: t_def)
  moreover have "uview A t c = ((uview A s)(a := b)) c" for c
  proof (cases "c \<in> A \<and> c \<noteq> a")
    case True
    then have "uloc s c \<noteq> uloc s a"
      using inj_onD [OF inj] A unfolding same by blast
    then show ?thesis using True p by (auto simp: uview_def ubyte_def t_def uloc_def split: option.splits)
  next
    case False
    then have "c = a \<or> c \<notin> A" by blast
    then show ?thesis
    proof
      assume "c = a"
      then show ?thesis using A p by (simp add: uview_def ubyte_def t_def)
    next
      assume "c \<notin> A"
      moreover from this have "c \<noteq> a" using A by blast
      ultimately show ?thesis by (simp add: uview_def)
    qed
  qed
  ultimately show ?thesis using st by blast
qed

lemma same_page: "(a :: u32) AND 3 = 0 \<Longrightarrow> k < 4 \<Longrightarrow> VPN (a + word_of_nat k) = VPN a \<and> pgoff (a + word_of_nat k) = pgoff a + k"
proof -
  assume a: "a AND 3 = 0" "k < 4"
  obtain q where q: "unat a = 4 * q" using a(1) and3_unat [of a] by auto
  have "unat a < 2 ^ LENGTH(32)" by (rule unsigned_less)
  then have "4 * q < 2 ^ 32" using q by simp
  then have "4 * q + k < 2 ^ 32" using a(2) by simp
  then have u: "unat (a + word_of_nat k) = 4 * q + k"
    using a(2) q by (simp add: unat_word_ariths unat_of_nat)
  have d: "(4 * q + i) div 4096 = q div 1024" if "i < 4" for i
    using that div_mult2_eq [of "4 * q + i" 4 1024] by simp
  have "(4 * q + k) div 4096 = unat a div 4096" "(4 * q + k) mod 4096 = unat a mod 4096 + k"
    using d [OF a(2)] d [of 0] q div_mult_mod_eq [of "4 * q + k" 4096] div_mult_mod_eq [of "4 * q" 4096]
    by simp_all
  then show ?thesis using u by (simp add: VPN_div pgoff_def unat_mod)
qed

lemma uld32_view:
  assumes "uok A W s0 s" "a AND 3 = 0" "\<And>k. k < 4 \<Longrightarrow> a + word_of_nat k \<in> A"
  shows "uld32 a s = Some (rd32 (uview A s) a)"
proof -
  obtain fr perm where p: "upt s (VPN a) = Some (fr, perm)"
    using assms(1) assms(3) [of 0] uok_upt [OF assms(1)] by (auto simp: uok_def distinct_bytes_def)
  have "frames s fr (pgoff (a + word_of_nat k)) = uview A s (a + word_of_nat k)" if "k < 4" for k
    using same_page [OF assms(2) that] assms(3) [OF that] p by (simp add: uview_def ubyte_def)
  from this [of 0] this [of 1] this [of 2] this [of 3] show ?thesis
    using p by (simp add: uld32_def rd32_def)
qed

lemma ust32_view:
  assumes "uok A W s0 s" "\<And>k. k < 4 \<Longrightarrow> a + word_of_nat k \<in> W"
  shows "\<exists>t. ust32 a w s = Some t \<and> uok A W s0 t \<and> uview A t = wr32 a w (uview A s)"
proof -
  note w = assms(2) [of 0] assms(2) [of 1] assms(2) [of 2] assms(2) [of 3]
  obtain s1 where s1: "ust8 a (ucast w) s = Some s1" "uok A W s0 s1" "uview A s1 = (uview A s)(a := ucast w)"
    using ust8_view [OF assms(1), of a "ucast w"] w by auto
  obtain s2 where s2: "ust8 (a + 1) (ucast (drop_bit 8 w)) s1 = Some s2" "uok A W s0 s2"
    "uview A s2 = (uview A s1)(a + 1 := ucast (drop_bit 8 w))"
    using ust8_view [OF s1(2), of "a + 1" "ucast (drop_bit 8 w)"] w by auto
  obtain s3 where s3: "ust8 (a + 2) (ucast (drop_bit 16 w)) s2 = Some s3" "uok A W s0 s3"
    "uview A s3 = (uview A s2)(a + 2 := ucast (drop_bit 16 w))"
    using ust8_view [OF s2(2), of "a + 2" "ucast (drop_bit 16 w)"] w by auto
  obtain s4 where s4: "ust8 (a + 3) (ucast (drop_bit 24 w)) s3 = Some s4" "uok A W s0 s4"
    "uview A s4 = (uview A s3)(a + 3 := ucast (drop_bit 24 w))"
    using ust8_view [OF s3(2), of "a + 3" "ucast (drop_bit 24 w)"] w by auto
  show ?thesis using s1 s2 s3 s4 by (simp add: ust32_def wr32_def)
qed

interpretation umem: byte_view uops "uok A W s0" "uview A" "\<lambda>a. a \<in> A" "\<lambda>a. a \<in> W" for A W s0
proof unfold_locales
  fix s and a :: u32 and b w
  assume ok: "uok A W s0 s"
  show "a \<in> A \<Longrightarrow> ld8 uops a s = Some (uview A s a, s)"
    using uld8_view [OF ok] by (simp add: uops_def)
  show "a \<in> W \<Longrightarrow> \<exists>t. st8 uops a b s = Some t \<and> uok A W s0 t \<and> uview A t = (uview A s)(a := b)"
    using ust8_view [OF ok] by (simp add: uops_def)
  show "ld32 uops a s = Some (rd32 (uview A s) a, s)" if "a AND 3 = 0" "\<And>k. k < 4 \<Longrightarrow> a + word_of_nat k \<in> A"
    using uld32_view [OF ok that] by (simp add: uops_def)
  show "\<exists>t. st32 uops a w s = Some t \<and> uok A W s0 t \<and> uview A t = wr32 a w (uview A s)"
    if "\<And>k. k < 4 \<Longrightarrow> a + word_of_nat k \<in> W"
    using ust32_view [OF ok that] by (simp add: uops_def)
qed

section \<open>Reading and writing through a descriptor\<close>

definition addrs :: "u32 \<Rightarrow> nat \<Rightarrow> u32 set" where
  "addrs a n = (\<lambda>i. a + word_of_nat i) ` {..<n}"

text \<open>A descriptor in the view \<open>m\<close>: its device, access mode and offset, and for a file its size.\<close>

definition fd_holds :: "(u32 \<Rightarrow> u8) \<Rightarrow> u32 \<Rightarrow> u32 \<Rightarrow> u32 \<Rightarrow> u32 \<Rightarrow> u32 \<Rightarrow> bool" where
  "fd_holds m fd dev mode off sz \<longleftrightarrow> rd32 m (fd + fd_dev_id) = dev \<and> rd32 m (fd + fd_omode) AND O_ACCMODE = mode \<and>
     rd32 m (fd + fd_offset) = off \<and> rd32 m (fd + f_file + f_size) = sz"

lemma addrs_word: "j + 4 \<le> n \<Longrightarrow> k < 4 \<Longrightarrow> a + word_of_nat j + word_of_nat k \<in> addrs a n"
  unfolding addrs_def by (intro image_eqI [of _ _ "j + k"]) (simp_all add: add.assoc)

lemma mcopy_out: "a \<notin> addrs dst n \<Longrightarrow> mcopy m dst src n a = m a"
proof -
  assume "a \<notin> addrs dst n"
  moreover have "a = dst + word_of_nat (unat (a - dst))" by simp
  ultimately have "\<not> unat (a - dst) < n" unfolding addrs_def by blast
  then show ?thesis by (simp add: mcopy_def)
qed

lemma mcopy_in: "i < n \<Longrightarrow> n < 2 ^ 32 \<Longrightarrow> mcopy m dst src n (dst + word_of_nat i) = m (src + word_of_nat i)"
  by (simp add: mcopy_def unat_of_nat)

lemma fd_holds_cong:
  assumes "\<And>a. a \<in> addrs fd 272 \<Longrightarrow> m a = m' a"
  shows "fd_holds m fd dev mode off sz = fd_holds m' fd dev mode off sz"
proof -
  have "rd32 m (fd + word_of_nat j) = rd32 m' (fd + word_of_nat j)" if j: "j + 4 \<le> 272" for j
  proof (rule rd32_cong)
    fix k :: u32 assume "k < 4"
    then have "unat k < 4" by (simp add: word_less_nat_alt)
    then show "m (fd + word_of_nat j + k) = m' (fd + word_of_nat j + k)"
      using assms addrs_word [OF j, of "unat k" fd] by simp
  qed
  from this [of 0] this [of 4] this [of 8] this [of 144] show ?thesis
    by (simp add: fd_holds_def add.commute [of fd 144])
qed

text \<open>
  The area \<open>A\<close> contains the descriptor's page header, which can be written; the descriptor is number \<open>k\<close>.
\<close>

definition fd_area :: "u32 set \<Rightarrow> u32 set \<Rightarrow> nat \<Rightarrow> 'x uproc_scheme \<Rightarrow> bool" where
  "fd_area A W k s \<longleftrightarrow> distinct_bytes A W s \<and> k < 32 \<and> upd s (PDX (INDEX2FD (int k))) \<and>
     addrs (INDEX2FD (int k)) 272 \<subseteq> W"

lemma fd_field:
  assumes "fd_area A W k s0" "uok A W s0 s" "4 dvd j" "j + 4 \<le> 272"
  shows "uld32 (INDEX2FD (int k) + word_of_nat j) s = Some (rd32 (uview A s) (INDEX2FD (int k) + word_of_nat j))"
proof (rule uld32_view [OF assms(2)])
  let ?a = "INDEX2FD (int k) + word_of_nat j :: u32"
  have "unat ?a = 0x5fc00000 + 4096 * k + j"
    using assms INDEX2FD_unat [of k] by (simp add: fd_area_def unat_word_ariths unat_of_nat)
  moreover obtain i where "j = 4 * i" using assms(3) by blast
  ultimately have "unat ?a = 4 * (0x17f00000 + 1024 * k + i)" by simp
  then have "unat ?a mod 4 = 0" by (simp only: mod_mult_self1_is_0)
  then show "?a AND 3 = 0" by (simp only: word_unat_eq_iff and3_unat) simp
  show "?a + word_of_nat i \<in> A" if "i < 4" for i
    using addrs_word [OF assms(4) that, of "INDEX2FD (int k)"] assms(1)
    unfolding fd_area_def distinct_bytes_def by blast
qed

lemma fd_fields:
  assumes "fd_area A W k s0" "uok A W s0 s" "fd_holds (uview A s) (INDEX2FD (int k)) dev mode off sz"
  shows "uld32 (INDEX2FD (int k)) s = Some dev" "uld32 (INDEX2FD (int k) + 4) s = Some off"
    "\<exists>m. uld32 (INDEX2FD (int k) + 8) s = Some m \<and> m AND 3 = mode"
    "uld32 (INDEX2FD (int k) + 144) s = Some sz"
  using fd_field [OF assms(1,2), of 0] fd_field [OF assms(1,2), of 4] fd_field [OF assms(1,2), of 8]
    fd_field [OF assms(1,2), of 144] assms(3)
  by (simp_all add: fd_holds_def add.commute [of _ 144])

lemma fd_found:
  assumes "fd_area A W k s0" "uok A W s0 s"
  shows "fd_lookup (int k) s = (0, INDEX2FD (int k))"
proof -
  have "INDEX2FD (int k) + word_of_nat 0 \<in> addrs (INDEX2FD (int k)) 272"
    unfolding addrs_def by (rule image_eqI [of _ _ 0]) simp_all
  then have "INDEX2FD (int k) \<in> A" using assms(1) by (auto simp: fd_area_def distinct_bytes_def)
  then show ?thesis
    using assms uok_upt [OF assms(2)]
    by (auto simp: fd_lookup_def fd_used_def fd_area_def distinct_bytes_def Let_def)
qed

lemma fd_dev_file:
  assumes "fd_area A W k s0" "uok A W s0 s" "fd_holds (uview A s) (INDEX2FD (int k)) dev mode off sz"
    and "dev_lookup devtab dev = Some d"
  shows "fd_dev devtab (int k) s = Some (Inr (INDEX2FD (int k), d))"
  using fd_found [OF assms(1,2)] fd_fields(1) [OF assms(1-3)] assms(4) by (simp add: fd_dev_def)

text \<open>Moving the offset: only the four bytes of \<^verbatim>\<open>fd_offset\<close> change.\<close>

lemma fd_set_offset:
  assumes "fd_area A W k s0" "uok A W s0 s" "fd_holds (uview A s) (INDEX2FD (int k)) dev mode off sz"
  shows "\<exists>t. ust32 (INDEX2FD (int k) + 4) off' s = Some t \<and> uok A W s0 t \<and>
    fd_holds (uview A t) (INDEX2FD (int k)) dev mode off' sz \<and>
    (\<forall>a. a \<notin> addrs (INDEX2FD (int k)) 272 \<longrightarrow> uview A t a = uview A s a)"
proof -
  let ?fd = "INDEX2FD (int k)"
  have field: "?fd + 4 + word_of_nat i \<in> addrs ?fd 272" if "i < 4" for i
    using addrs_word [of 4 272 i ?fd] that by simp
  then have "?fd + 4 + word_of_nat i \<in> W" if "i < 4" for i
    using assms(1) that unfolding fd_area_def by blast
  then obtain t where t: "ust32 (?fd + 4) off' s = Some t" "uok A W s0 t"
    "uview A t = wr32 (?fd + 4) off' (uview A s)"
    using ust32_view [OF assms(2)] by blast
  have "fd_holds (uview A t) ?fd dev mode off' sz"
    using assms(3) by (simp add: fd_holds_def t(3) rd32_wr32_other)
  moreover have "uview A t a = uview A s a" if "a \<notin> addrs ?fd 272" for a
    using that field [of 0] field [of 1] field [of 2] field [of 3] by (auto simp: t(3) wr32_def)
  ultimately show ?thesis using t by blast
qed

text \<open>The tail of \<^verbatim>\<open>read\<close> and \<^verbatim>\<open>write\<close>: the offset moves past what was transferred.\<close>

lemma fd_advance:
  assumes "fd_area A W k s0" "uok A W s0 s" "fd_holds (uview A s) (INDEX2FD (int k)) dev mode off sz"
    and "unat (n :: u32) < 2 ^ 31"
  shows "\<exists>t. (if uint n > 0 then do {
        off \<leftarrow> uld32 (INDEX2FD (int k) + 4) s;
        s \<leftarrow> ust32 (INDEX2FD (int k) + 4) (off + word_of_int (uint n)) s;
        Some (uint n, s) } else Some (uint n, s)) = Some (uint n, t) \<and> uok A W s0 t \<and>
    fd_holds (uview A t) (INDEX2FD (int k)) dev mode (off + n) sz \<and>
    (\<forall>a. a \<notin> addrs (INDEX2FD (int k)) 272 \<longrightarrow> uview A t a = uview A s a)"
proof (cases "n = 0")
  case True
  then show ?thesis using assms by (intro exI [of _ s]) simp
next
  case False
  then have "uint n \<noteq> 0" by (simp only: unsigned_eq_0_iff) simp
  moreover have "0 \<le> uint n" by simp
  ultimately have "uint n > 0" by linarith
  then show ?thesis
    using fd_set_offset [OF assms(1-3), of "off + n"] fd_fields(2) [OF assms(1-3)] by auto
qed

lemma req_word_frame [simp]:
  "frames (req_word k w s) = frames s" "upt (req_word k w s) = upt s" "csrv (req_word k w s) = csrv s"
  by (simp_all add: req_word_def)

lemma sint_error: "0 < e \<Longrightarrow> e < 14 \<Longrightarrow> sint (- word_of_int e :: u32) = - e"
proof -
  assume "0 < e" "e < 14"
  then have "e \<in> {1, 2, 3, 4, 5, 6, 7, 8, 9, 10, 11, 12, 13}" by simp presburger
  then show ?thesis by (elim insertE emptyE) simp_all
qed

lemma umemcpy:
  fixes n :: u32
  assumes "uok A W s0 s" "addrs dst (unat n) \<subseteq> W" "addrs src (unat n) \<subseteq> A"
    and "addrs dst (unat n) \<inter> addrs src (unat n) = {}" "unat dst + unat n + 4 < 2 ^ 32"
  shows "\<exists>t. memcpy uops dst src n s = Some (dst, t) \<and> uok A W s0 t \<and>
    uview A t = mcopy (uview A s) dst src (unat n)"
proof -
  have "dst + word_of_nat i \<in> W \<and> src + word_of_nat i \<in> A" if "i < unat n" for i
    using assms(2,3) that unfolding addrs_def by blast
  then have "umem.room A W dst src (unat n)" using assms(5) by (simp add: umem.room_def)
  moreover have "ranges_disjoint dst src (unat n)"
    using assms(4) unfolding ranges_disjoint_def addrs_def by blast
  ultimately show ?thesis using umem.memcpy_view [OF assms(1)] by blast
qed

text \<open>The file's bytes from \<open>off\<close> on and a buffer, apart from each other and from the descriptor's header.\<close>

definition io_area :: "u32 set \<Rightarrow> u32 set \<Rightarrow> nat \<Rightarrow> u32 \<Rightarrow> u32 \<Rightarrow> u32 \<Rightarrow> u32 \<Rightarrow> bool" where
  "io_area A W k off n buf sz \<longleftrightarrow>
     (let fd = INDEX2FD (int k); D = addrs (fd2data fd + off) (unat n); B = addrs buf (unat n) in
      unat off + unat n \<le> unat sz \<and> unat sz \<le> 0x400000 \<and> unat buf + unat n \<le> 2 ^ 31 \<and>
      D \<subseteq> W \<and> B \<subseteq> A \<and> D \<inter> B = {} \<and> D \<inter> addrs fd 272 = {} \<and> B \<inter> addrs fd 272 = {})"

lemma fd2data_unat: "k < 32 \<Longrightarrow> unat (fd2data (INDEX2FD (int k))) = 0x60000000 + 0x400000 * k"
proof -
  assume k: "k < 32"
  then have "fd2data (INDEX2FD (int k)) = INDEX2DATA (int k)"
    using fd_index [of k] by simp
  also have "\<dots> = word_of_nat (0x60000000 + 0x400000 * k)" by (simp add: INDEX2DATA_def PDMAP_def)
  finally show ?thesis using k by (simp add: unat_of_nat del: of_nat_add of_nat_mult)
qed

lemma io_sizes:
  assumes "fd_area A W k s0" "io_area A W k off n buf sz"
  shows "unat (fd2data (INDEX2FD (int k)) + off) + unat n + 4 < 2 ^ 32" "unat n < 2 ^ 31"
    "unat (off + n) = unat off + unat n"
  using assms fd2data_unat [of k] by (simp_all add: fd_area_def io_area_def Let_def unat_word_ariths)

lemma io_parts:
  assumes "io_area A W k off n buf sz"
  shows "addrs (fd2data (INDEX2FD (int k)) + off) (unat n) \<subseteq> W" "addrs buf (unat n) \<subseteq> A"
    "addrs (fd2data (INDEX2FD (int k)) + off) (unat n) \<inter> addrs buf (unat n) = {}"
    "addrs (fd2data (INDEX2FD (int k)) + off) (unat n) \<inter> addrs (INDEX2FD (int k)) 272 = {}"
    "addrs buf (unat n) \<inter> addrs (INDEX2FD (int k)) 272 = {}"
  using assms unfolding io_area_def Let_def by - (elim conjE, assumption)+

lemma file_write_step:
  assumes "fd_area A W k s0" "uok A W s0 s" "fd_holds (uview A s) (INDEX2FD (int k)) devfile_id mode off sz"
    and "io_area A W k off n buf sz" "dev_lookup devtab devfile_id = Some (devfile fsv addr)" "mode \<noteq> O_RDONLY"
  shows "\<exists>t. fd_write devtab (int k) buf n s = Some (uint n, t) \<and> uok A W s0 t \<and>
    fd_holds (uview A t) (INDEX2FD (int k)) devfile_id mode (off + n) sz \<and>
    (\<forall>a. a \<notin> addrs (INDEX2FD (int k)) 272 \<longrightarrow>
       uview A t a = mcopy (uview A s) (fd2data (INDEX2FD (int k)) + off) buf (unat n) a)"
proof -
  let ?fd = "INDEX2FD (int k)"
  note io = assms(4) [unfolded io_area_def Let_def]
  note sizes = io_sizes [OF assms(1,4)]
  obtain t where t: "memcpy uops (fd2data ?fd + off) buf n s = Some (fd2data ?fd + off, t)" "uok A W s0 t"
    "uview A t = mcopy (uview A s) (fd2data ?fd + off) buf (unat n)"
    using umemcpy [OF assms(2) io_parts(1-3) [OF assms(4)] sizes(1)] by blast
  have "off + n \<le> sz" unfolding word_le_nat_alt sizes(3) using io by blast
  moreover have "unat (off + n) \<le> unat MAXFILESIZE" using io unfolding sizes(3) by simp
  then have "\<not> off + n > MAXFILESIZE" by (simp only: word_le_nat_alt not_less)
  ultimately have "ufile_write fsv ?fd buf n off s = Some (uint n, t)"
    using t(1) fd_fields(4) [OF assms(1-3)] sint_small [OF sizes(2)]
    by (simp add: ufile_write_def Let_def add.commute [of _ 144] leD)
  moreover have held: "fd_holds (uview A t) ?fd devfile_id mode off sz"
    using assms(3) io unfolding t(3) by (subst fd_holds_cong [OF mcopy_out]) auto
  ultimately show ?thesis
    using fd_advance [OF assms(1) t(2) held sizes(2)] assms(6) fd_dev_file [OF assms(1-3,5)] fd_fields(2,3) [OF assms(1-3)] t(3)
    by (auto simp: fd_write_def devfile_def)
qed

lemma file_read_step:
  assumes "fd_area A W k s0" "uok A W s0 s" "fd_holds (uview A s) (INDEX2FD (int k)) devfile_id mode off sz"
    and "io_area A W k off n buf sz" "dev_lookup devtab devfile_id = Some (devfile fsv addr)"
    and "addrs buf (unat n) \<subseteq> W" "mode \<noteq> O_WRONLY"
  shows "\<exists>t. fd_read devtab (int k) buf n s = Some (uint n, t) \<and> uok A W s0 t \<and>
    fd_holds (uview A t) (INDEX2FD (int k)) devfile_id mode (off + n) sz \<and>
    (\<forall>a. a \<notin> addrs (INDEX2FD (int k)) 272 \<longrightarrow>
       uview A t a = mcopy (uview A s) buf (fd2data (INDEX2FD (int k)) + off) (unat n) a)"
proof -
  let ?fd = "INDEX2FD (int k)"
  note io = assms(4) [unfolded io_area_def Let_def]
  note sizes = io_sizes [OF assms(1,4)]
  have "W \<subseteq> A" using assms(1) unfolding fd_area_def distinct_bytes_def by blast
  then have D: "addrs (fd2data ?fd + off) (unat n) \<subseteq> A" using io_parts(1) [OF assms(4)] by (rule subset_trans [rotated])
  have apart: "addrs buf (unat n) \<inter> addrs (fd2data ?fd + off) (unat n) = {}"
    using io_parts(3) [OF assms(4)] by (subst Int_commute)
  have "unat buf + unat n + 4 < 2 ^ 32" using io by simp
  then obtain t where t: "memcpy uops buf (fd2data ?fd + off) n s = Some (buf, t)" "uok A W s0 t"
    "uview A t = mcopy (uview A s) buf (fd2data ?fd + off) (unat n)"
    using umemcpy [OF assms(2,6) D apart] by blast
  have "off + n \<le> sz" unfolding word_le_nat_alt sizes(3) using io by blast
  moreover have "off \<le> sz" using io by (simp add: word_le_nat_alt)
  ultimately have "ufile_read ?fd buf n off s = Some (uint n, t)"
    using t(1) fd_fields(4) [OF assms(1-3)] sint_small [OF sizes(2)]
    by (simp add: ufile_read_def Let_def add.commute [of _ 144] leD)
  moreover have held: "fd_holds (uview A t) ?fd devfile_id mode off sz"
    using assms(3) io unfolding t(3) by (subst fd_holds_cong [OF mcopy_out]) auto
  ultimately show ?thesis
    using fd_advance [OF assms(1) t(2) held sizes(2)] assms(7) fd_dev_file [OF assms(1-3,5)] fd_fields(2,3) [OF assms(1-3)] t(3)
    by (auto simp: fd_read_def devfile_def)
qed

lemma file_seek_step:
  assumes "fd_area A W k s0" "uok A W s0 s" "fd_holds (uview A s) (INDEX2FD (int k)) dev mode off sz"
  shows "\<exists>t. seek (int k) off' s = Some (0, t) \<and> uok A W s0 t \<and>
    fd_holds (uview A t) (INDEX2FD (int k)) dev mode off' sz \<and>
    (\<forall>a. a \<notin> addrs (INDEX2FD (int k)) 272 \<longrightarrow> uview A t a = uview A s a)"
  using fd_set_offset [OF assms, of off'] fd_found [OF assms(1,2)] by (auto simp: seek_def)

text \<open>
  C21. What is written to a file can be read back: for a file open for reading and writing, with
  its pages mapped, \<^verbatim>\<open>write\<close> of \<open>n\<close> bytes inside the file, \<^verbatim>\<open>seek\<close> back and \<^verbatim>\<open>read\<close> succeed, all \<open>n\<close> bytes
  arrive in the second buffer as they were in the first, and the offset is past them. The buffers may
  have any alignment; \<open>distinct_bytes\<close> says that no two of the addresses used share memory.
\<close>

theorem file_round_trip:
  assumes "fd_area A W k s" "fd_holds (uview A s) (INDEX2FD (int k)) devfile_id O_RDWR off sz"
    and "dev_lookup devtab devfile_id = Some (devfile fsv addr)"
    and "io_area A W k off n buf sz" "io_area A W k off n dst sz" "addrs dst (unat n) \<subseteq> W"
  shows "\<exists>t u v. fd_write devtab (int k) buf n s = Some (uint n, t) \<and>
    seek (int k) off t = Some (0, u) \<and> fd_read devtab (int k) dst n u = Some (uint n, v) \<and>
    (\<forall>i < unat n. ubyte v (dst + word_of_nat i) = ubyte s (buf + word_of_nat i)) \<and>
    fd_holds (uview A v) (INDEX2FD (int k)) devfile_id O_RDWR (off + n) sz"
proof -
  let ?fd = "INDEX2FD (int k)" and ?n = "unat n"
  let ?D = "fd2data ?fd + off"
  have ok: "uok A W s s" using assms(1) by (simp add: fd_area_def uok_refl)
  obtain t where t: "fd_write devtab (int k) buf n s = Some (uint n, t)" "uok A W s t"
    "fd_holds (uview A t) ?fd devfile_id O_RDWR (off + n) sz" "\<And>a. a \<notin> addrs ?fd 272 \<Longrightarrow> uview A t a = mcopy (uview A s) ?D buf ?n a"
    using file_write_step [OF assms(1) ok assms(2,4,3)] by auto
  obtain u where u: "seek (int k) off t = Some (0, u)" "uok A W s u"
    "fd_holds (uview A u) ?fd devfile_id O_RDWR off sz" "\<And>a. a \<notin> addrs ?fd 272 \<Longrightarrow> uview A u a = uview A t a"
    using file_seek_step [OF assms(1) t(2,3)] by blast
  obtain v where v: "fd_read devtab (int k) dst n u = Some (uint n, v)" "uok A W s v"
    "fd_holds (uview A v) ?fd devfile_id O_RDWR (off + n) sz" "\<And>a. a \<notin> addrs ?fd 272 \<Longrightarrow> uview A v a = mcopy (uview A u) dst ?D ?n a"
    using file_read_step [OF assms(1) u(2,3) assms(5,3,6)] by auto
  have "ubyte v (dst + word_of_nat i) = ubyte s (buf + word_of_nat i)" if i: "i < ?n" for i
  proof -
    have n: "?n < 2 ^ 32" using unsigned_less [of n, where 'a = nat] by simp
    have mem: "dst + word_of_nat i \<in> addrs dst ?n" "buf + word_of_nat i \<in> addrs buf ?n" "?D + word_of_nat i \<in> addrs ?D ?n"
      using i unfolding addrs_def by blast+
    have out: "dst + word_of_nat i \<notin> addrs ?fd 272" "?D + word_of_nat i \<notin> addrs ?fd 272"
      using mem(1,3) io_parts(4,5) [OF assms(5)] by blast+
    have A: "dst + word_of_nat i \<in> A" "buf + word_of_nat i \<in> A"
      using mem(1,2) io_parts(2) [OF assms(5)] io_parts(2) [OF assms(4)] by blast+
    have "uview A v (dst + word_of_nat i) = uview A u (?D + word_of_nat i)"
      using v(4) [OF out(1)] mcopy_in [OF i n] by simp
    also have "\<dots> = uview A s (buf + word_of_nat i)"
      using u(4) [OF out(2)] t(4) [OF out(2)] mcopy_in [OF i n] by simp
    finally show ?thesis using A by (simp add: uview_def)
  qed
  then show ?thesis using t(1) u(1) v(1,3) by blast
qed

text \<open>
  When the file server refuses a new size, \<^verbatim>\<open>ftruncate\<close> returns its error, but the size in the
  descriptor, which it has stored before asking and shares with the other holders of the file, stays
  the new one.
\<close>

theorem ftruncate_refused:
  fixes s :: "'w client"
  assumes "fd_area A W k s" "fd_holds (uview A s) (INDEX2FD (int k)) devfile_id mode off oldsize" "sz \<le> MAXFILESIZE"
    and "\<And>req st. fsv FSREQ_SET_SIZE req st = Some (word_of_int (- e), None, 0, st)" "0 < e" "e < 14"
  shows "\<exists>t. ftruncate fsv (int k) sz s = Some (- e, t) \<and> fd_holds (uview A t) (INDEX2FD (int k)) devfile_id mode off sz \<and>
    csrv t = csrv s"
proof -
  let ?fd = "INDEX2FD (int k)"
  have ok: "uok A W s s" using assms(1) by (simp add: fd_area_def uok_refl)
  have field: "?fd + 144 + word_of_nat i \<in> addrs ?fd 272" if "i < 4" for i
    using addrs_word [of 144 272 i ?fd] that by simp
  then have "?fd + 144 + word_of_nat i \<in> W" if "i < 4" for i
    using assms(1) that unfolding fd_area_def by blast
  then obtain t where t: "ust32 (?fd + 144) sz s = Some t" "uok A W s t"
    "uview A t = wr32 (?fd + 144) sz (uview A s)"
    using ust32_view [OF ok] by blast
  have "uld32 (?fd + word_of_nat 12) s = Some (rd32 (uview A s) (?fd + word_of_nat 12))"
    using fd_field [OF assms(1) ok, of 12] by simp
  moreover have "fsipc_set_size fsv fid sz t = Some (- e, req_word req_size sz (req_word req_fileid fid t))" for fid
    using assms(4-6) by (simp add: fsipc_set_size_def fsipc_def req_word_def sint_error)
  ultimately have "ftruncate fsv (int k) sz s =
      Some (- e, req_word req_size sz (req_word req_fileid (rd32 (uview A s) (?fd + word_of_nat 12)) t))"
    using assms(3,5) t(1) fd_found [OF assms(1) ok] fd_fields [OF assms(1) ok assms(2)]
    by (simp add: ftruncate_def Let_def add.commute [of _ 144] leD)
  moreover have "fd_holds (uview A t) ?fd devfile_id mode off sz"
    using assms(2) by (simp add: fd_holds_def t(3) rd32_wr32_other add.commute [of _ 144])
  moreover have "uview A (req_word a b u) = uview A u" "csrv (req_word a b u) = csrv u" for a b and u :: "'w client"
    by (simp_all add: uview_def ubyte_def fun_eq_iff split: option.split)
  moreover obtain g where "t = s\<lparr>frames := g\<rparr>" using t(2) unfolding uok_def by blast
  ultimately show ?thesis by simp
qed

text \<open>A process with a file of 100 bytes open as descriptor 0, every page mapped to a frame of its own.\<close>

definition ex_client :: "unit client" where
  "ex_client = \<lparr>upt = (\<lambda>p. Some (p, PTE_D)), upd = (\<lambda>_. True),
     frames = (\<lambda>f i. if f = 0x5fc00 then (if i = 0 then 102 else if i = 8 then 2 else if i = 144 then 100 else 0)
       else word_of_nat i),
     nframe = 0x100000, fsipcbuf = (\<lambda>_. 0), csrv = ()\<rparr>"

lemma identity_area:
  assumes "upt s = (\<lambda>p. Some (p, PTE_D))" "upd s = (\<lambda>_. True)" "k < 32"
  shows "fd_area UNIV UNIV k s"
proof -
  have "a = b" if "VPN a = VPN b" "pgoff a = pgoff b" for a b :: u32
  proof -
    have "unat a div 4096 = unat b div 4096" "unat a mod 4096 = unat b mod 4096"
      using that by (simp_all add: VPN_div pgoff_def unat_mod)
    then have "unat a = unat b" by (metis div_mult_mod_eq)
    then show ?thesis by (simp only: word_unat_eq_iff)
  qed
  then have "inj (uloc s)" by (intro injI) (simp add: uloc_def assms(1))
  then show ?thesis using assms by (simp add: fd_area_def distinct_bytes_def writable_def)
qed

lemma ex_client_area: "fd_area UNIV UNIV 0 ex_client"
  by (rule identity_area) (simp_all add: ex_client_def)

lemma ex_client_holds: "fd_holds (uview UNIV ex_client) (INDEX2FD (int 0)) devfile_id O_RDWR 0 100"
  by (simp add: fd_holds_def rd32_def uview_def ubyte_def ex_client_def INDEX2FD_def PDMAP_def VPN_div pgoff_def)

lemma addrs_unat:
  assumes "x \<in> addrs a n" "unat a + n \<le> 2 ^ 32"
  shows "unat a \<le> unat x \<and> unat x < unat a + n"
proof -
  obtain i where "i < n" "x = a + word_of_nat i" using assms(1) unfolding addrs_def by blast
  then show ?thesis using assms(2) by (simp add: unat_word_ariths unat_of_nat)
qed

lemma addrs_sub: "i + k \<le> n \<Longrightarrow> addrs (p + word_of_nat i) k \<subseteq> addrs p n"
proof
  fix x assume n: "i + k \<le> n" and "x \<in> addrs (p + word_of_nat i) k"
  then obtain j where "j < k" "x = p + word_of_nat i + word_of_nat j" unfolding addrs_def by blast
  then show "x \<in> addrs p n"
    using n unfolding addrs_def by (intro image_eqI [of _ _ "i + j"]) (simp_all add: add.assoc)
qed

lemma addrs_apart:
  assumes "unat a + n \<le> unat b" "unat b + m \<le> 2 ^ 32"
  shows "addrs a n \<inter> addrs b m = {}" "addrs b m \<inter> addrs a n = {}"
proof -
  have "x \<notin> addrs b m" if "x \<in> addrs a n" for x
    using addrs_unat [OF that] addrs_unat [of x b m] assms by linarith
  then show "addrs a n \<inter> addrs b m = {}" "addrs b m \<inter> addrs a n = {}" by blast+
qed

lemma ex_client_io: "io_area UNIV UNIV 0 0 3 0x400001 100" "io_area UNIV UNIV 0 0 3 0x500000 100"
  using fd2data_unat [of 0] INDEX2FD_unat [of 0]
  by (simp_all add: io_area_def Let_def addrs_apart)

lemma file_round_trip_witness:
  "\<exists>t u v. fd_write [devfile (\<lambda>_ _ _. None) 0] 0 0x400001 3 ex_client = Some (3, t) \<and>
    seek 0 0 t = Some (0, u) \<and> fd_read [devfile (\<lambda>_ _ _. None) 0] 0 0x500000 3 u = Some (3, v) \<and>
    ubyte v 0x500001 = 2"
proof -
  obtain t u v where r: "fd_write [devfile (\<lambda>_ _ _. None) 0] (int 0) 0x400001 3 ex_client = Some (uint (3 :: u32), t)"
    "seek (int 0) 0 t = Some (0, u)"
    "fd_read [devfile (\<lambda>_ _ _. None) 0] (int 0) 0x500000 3 u = Some (uint (3 :: u32), v)"
    "\<forall>i < unat (3 :: u32). ubyte v (0x500000 + word_of_nat i) = ubyte ex_client (0x400001 + word_of_nat i)"
    using file_round_trip [OF ex_client_area ex_client_holds _ ex_client_io, of "[devfile (\<lambda>_ _ _. None) 0]" "\<lambda>_ _ _. None" 0]
    by (auto simp: devfile_def)
  have "ubyte v (0x500000 + word_of_nat 1) = ubyte ex_client (0x400001 + word_of_nat 1)"
    using r(4) [rule_format, of 1] by simp
  moreover have "ubyte ex_client 0x400002 = 2" by (simp add: ubyte_def ex_client_def VPN_div pgoff_def)
  ultimately have "ubyte v 0x500001 = 2" by simp
  then show ?thesis using r(1-3) by auto
qed

lemma ftruncate_refused_witness:
  "\<exists>t. ftruncate (\<lambda>_ _ st. Some (word_of_int (- 3), None, 0, st)) 0 7 ex_client = Some (- 3, t) \<and>
    fd_holds (uview UNIV t) (INDEX2FD 0) devfile_id O_RDWR 0 7"
  using ftruncate_refused [OF ex_client_area ex_client_holds, of 7 "\<lambda>_ _ st. Some (word_of_int (- 3), None, 0, st)" 3]
  by auto

end
