(* ===== verification/Spawn.thy ===== *)
theory Spawn
  imports FileClient ElfLoader
begin

text \<open>
  \<^verbatim>\<open>user/lib/spawn.c\<close>: running a program from a file in a new environment. The state is the process
  (theory \<open>FileClient\<close>) together with the child: its pages, which are frames of the same memory, and
  what it starts with. The child is \<^term>\<open>None\<close> when there is no such environment. What
  \<^verbatim>\<open>syscall_exofork\<close> returns is an argument, and so is the address of the local array \<^verbatim>\<open>elfbuf\<close>;
  \<^verbatim>\<open>argv\<close> is the list of its pointers up to the null pointer. The system calls on the child are what the
  process sees of those of \<^verbatim>\<open>kern/syscall_all.c\<close> (theory \<open>Syscall\<close>) when memory does not run out.
\<close>

section \<open>State and system calls\<close>

record kid =
  kpt :: "nat \<Rightarrow> (nat \<times> u32) option"
  kid_epc :: u32
  kid_sp :: u32
  kid_runnable :: bool

type_synonym 'w spawner = "'w client \<times> kid option"

definition new_kid :: kid where
  "new_kid = \<lparr>kpt = (\<lambda>_. None), kid_epc = 0, kid_sp = 0, kid_runnable = False\<rparr>"

definition on_kid :: "(kid \<Rightarrow> kid) \<Rightarrow> 'w spawner \<Rightarrow> int \<times> 'w spawner" where
  "on_kid f x = (case snd x of None \<Rightarrow> (- E_BAD_ENV, x) | Some k \<Rightarrow> (0, (fst x, Some (f k))))"

definition k_mem_alloc :: "u32 \<Rightarrow> u32 \<Rightarrow> 'w spawner \<Rightarrow> int \<times> 'w spawner" where
  "k_mem_alloc va perm x =
     (if is_illegal_va va then (- E_INVAL, x)
      else (case x of
              (s, None) \<Rightarrow> (- E_BAD_ENV, x)
            | (s, Some k) \<Rightarrow>
                (0, (s\<lparr>frames := (frames s)(nframe s := (\<lambda>_. 0)), nframe := nframe s + 1\<rparr>,
                     Some (k\<lparr>kpt := (kpt k)(VPN va \<mapsto> (nframe s, perm))\<rparr>)))))"

text \<open>\<^verbatim>\<open>syscall_mem_map(0, srcva, child, dstva, perm)\<close> and \<^verbatim>\<open>syscall_mem_map(child, srcva, 0, dstva, perm)\<close>.\<close>

definition k_map_to :: "u32 \<Rightarrow> u32 \<Rightarrow> u32 \<Rightarrow> 'w spawner \<Rightarrow> int \<times> 'w spawner" where
  "k_map_to srcva dstva perm x =
     (if is_illegal_va srcva \<or> is_illegal_va dstva then (- E_INVAL, x)
      else (case x of
              (s, None) \<Rightarrow> (- E_BAD_ENV, x)
            | (s, Some k) \<Rightarrow>
                (case upt s (VPN srcva) of
                   None \<Rightarrow> (- E_INVAL, x)
                 | Some (fr, _) \<Rightarrow> (0, (s, Some (k\<lparr>kpt := (kpt k)(VPN dstva \<mapsto> (fr, perm))\<rparr>))))))"

definition k_map_from :: "u32 \<Rightarrow> u32 \<Rightarrow> u32 \<Rightarrow> 'w spawner \<Rightarrow> int \<times> 'w spawner" where
  "k_map_from srcva dstva perm x =
     (if is_illegal_va srcva \<or> is_illegal_va dstva then (- E_INVAL, x)
      else (case x of
              (s, None) \<Rightarrow> (- E_BAD_ENV, x)
            | (s, Some k) \<Rightarrow>
                (case kpt k (VPN srcva) of
                   None \<Rightarrow> (- E_INVAL, x)
                 | Some (fr, _) \<Rightarrow>
                     (0, (s\<lparr>upt := (upt s)(VPN dstva \<mapsto> (fr, perm)), upd := (upd s)(PDX dstva := True)\<rparr>, Some k)))))"

definition k_unmap :: "u32 \<Rightarrow> 'w spawner \<Rightarrow> int \<times> 'w spawner" where
  "k_unmap va x =
     (if is_illegal_va va then (- E_INVAL, x) else on_kid (\<lambda>k. k\<lparr>kpt := (kpt k)(VPN va := None)\<rparr>) x)"

text \<open>A call that concerns the process alone.\<close>

definition on_self :: "('w client \<Rightarrow> ('a \<times> 'w client) option) \<Rightarrow> 'w spawner \<Rightarrow> ('a \<times> 'w spawner) option" where
  "on_self f x = do { (r, s) \<leftarrow> f (fst x); Some (r, (s, snd x)) }"

section \<open>The child's stack\<close>

fun args_size :: "u32 list \<Rightarrow> u32 \<Rightarrow> 'x uproc_scheme \<Rightarrow> u32 option" where
  "args_size [] tot s = Some tot"
| "args_size (p # ps) tot s = do {
     (n, s) \<leftarrow> strlen uops p s;
     args_size ps (tot + (n + 1)) s }"

text \<open>
  One string, byte by byte: \<open>p\<close> is \<^verbatim>\<open>argv[i]\<close>, whose length is computed for every byte, \<open>c\<close> is \<^verbatim>\<open>ctemp\<close>.
\<close>

partial_function (option) copy_arg :: "u32 \<Rightarrow> u32 \<Rightarrow> u32 \<Rightarrow> 'x uproc_scheme \<Rightarrow> (u32 \<times> 'x uproc_scheme) option" where
  "copy_arg p j c s = do {
     (n, s) \<leftarrow> strlen uops p s;
     if j < n then do {
       b \<leftarrow> uld8 (p + j) s;
       s \<leftarrow> ust8 c b s;
       copy_arg p (j + 1) (c + 1) s }
     else do {
       s \<leftarrow> ust8 c 0 s;
       Some (c + 1, s) } }"

fun copy_args :: "u32 list \<Rightarrow> u32 \<Rightarrow> 'x uproc_scheme \<Rightarrow> (u32 \<times> 'x uproc_scheme) option" where
  "copy_args [] c s = Some (c, s)"
| "copy_args (p # ps) c s = do { (c, s) \<leftarrow> copy_arg p 0 c s; copy_args ps c s }"

fun store_ptrs :: "u32 list \<Rightarrow> u32 \<Rightarrow> u32 \<Rightarrow> 'x uproc_scheme \<Rightarrow> (u32 \<times> 'x uproc_scheme) option" where
  "store_ptrs [] a c s = Some (c, s)"
| "store_ptrs (p # ps) a c s = do {
     s \<leftarrow> ust32 a c s;
     (n, s) \<leftarrow> strlen uops p s;
     store_ptrs ps (a + 4) (c + (n + 1)) s }"

text \<open>What is written into the page at \<^verbatim>\<open>UTEMP\<close>, and the child's stack pointer.\<close>

definition fill_stack :: "u32 list \<Rightarrow> u32 \<Rightarrow> 'x uproc_scheme \<Rightarrow> (u32 \<times> 'x uproc_scheme) option" where
  "fill_stack argv tot s = do {
     let argc = word_of_nat (length argv);
     let strings = UTEMP + PAGE_SIZE - tot;
     let args = UTEMP + PAGE_SIZE - ROUND tot 4 - 4 * (argc + 1);
     (_, s) \<leftarrow> copy_args argv strings s;
     (c, s) \<leftarrow> store_ptrs argv args (USTACKTOP - UTEMP - PAGE_SIZE + strings) s;
     s \<leftarrow> ust32 (args + 4 * argc) (c - 1) s;
     s \<leftarrow> ust32 (args - 4) (USTACKTOP - UTEMP - PAGE_SIZE + args) s;
     s \<leftarrow> ust32 (args - 8) argc s;
     Some (USTACKTOP - UTEMP - PAGE_SIZE + (args - 8), s) }"

text \<open>The result, \<^verbatim>\<open>*init_sp\<close> and the state.\<close>

definition init_stack :: "u32 list \<Rightarrow> 'w spawner \<Rightarrow> (int \<times> u32 \<times> 'w spawner) option" where
  "init_stack argv x = do {
     tot \<leftarrow> args_size argv 0 (fst x);
     if ROUND tot 4 + 4 * (word_of_nat (length argv) + 3) > PAGE_SIZE then Some (- E_NO_MEM, 0, x)
     else do {
       let (r, s) = u_mem_alloc UTEMP PTE_D (fst x);
       if r < 0 then Some (r, 0, (s, snd x))
       else do {
         (sp, s) \<leftarrow> fill_stack argv tot s;
         let (r, x) = k_map_to UTEMP (USTACKTOP - PAGE_SIZE) PTE_D (s, snd x);
         if r < 0 then Some (r, sp, (snd (u_mem_unmap UTEMP (fst x)), snd x))
         else do {
           let (r, s) = u_mem_unmap UTEMP (fst x);
           if r < 0 then Some (r, sp, (snd (u_mem_unmap UTEMP s), snd x)) else Some (0, sp, (s, snd x)) } } } }"

section \<open>The program\<close>

text \<open>The callback of \<^verbatim>\<open>elf_load_seg\<close>; the bytes of the segment are at \<open>bin\<close>.\<close>

definition spawn_mapper :: "u32 \<Rightarrow> ('w spawner) mapper" where
  "spawn_mapper bin va offset perm src len x =
     (let (r, x) = k_mem_alloc va perm x in
      if r \<noteq> 0 then Some (r, x)
      else
        (case src of
           None \<Rightarrow> Some (0, x)
         | Some i \<Rightarrow>
             (let (r, x) = k_map_from va UTEMP (perm OR PTE_D) x in
              if r \<noteq> 0 then Some (r, snd (k_unmap va x))
              else do {
                (_, x) \<leftarrow> on_self (memcpy uops (UTEMP + offset) (bin + i) len) x;
                let (r, s) = u_mem_unmap UTEMP (fst x);
                Some (r, (s, snd x)) })))"

text \<open>
  The loop over the program headers, which are read over the start of the file header. It yields
  \<^term>\<open>Some r\<close> where the code jumps to \<^verbatim>\<open>err1\<close> with \<open>r\<close>: the comparisons leave 0 or 1 in it.
\<close>

partial_function (option) load_segments ::
  "('w client) dev list \<Rightarrow> u32 \<Rightarrow> int \<Rightarrow> nat \<Rightarrow> u32 \<Rightarrow> 'w spawner \<Rightarrow> (int option \<times> 'w spawner) option" where
  "load_segments devtab elfbuf fd idx ph_off x = do {
     h \<leftarrow> ubytes sizeof_Ehdr elfbuf (fst x);
     if idx < unat (e_phnum (ehdr_at h)) then do {
       (r, x) \<leftarrow> on_self (seek fd ph_off) x;
       if r < 0 then Some (Some 0, x)
       else do {
         (m, x) \<leftarrow> on_self (readn devtab fd elfbuf (ucast (e_phentsize (ehdr_at h)))) x;
         if m < 0 then Some (Some 1, x)
         else do {
           p \<leftarrow> ubytes sizeof_Phdr elfbuf (fst x);
           let ph = phdr_at p 0;
           (r, x) \<leftarrow> (if p_type ph = PT_LOAD then do {
                        (r, bin) \<leftarrow> read_map fd (p_offset ph) (fst x);
                        if r < 0 then Some (r, x) else elf_load_seg ph (spawn_mapper bin) x }
                      else Some (0, x));
           if r < 0 then Some (Some 0, x)
           else do {
             h \<leftarrow> ubytes sizeof_Ehdr elfbuf (fst x);
             load_segments devtab elfbuf fd (idx + 1) (ph_off + ucast (e_phentsize (ehdr_at h))) x } } } }
     else Some (None, x) }"

text \<open>The pages with \<^verbatim>\<open>PTE_LIBRARY\<close>, shared with the child, until a mapping fails.\<close>

fun share_pages :: "nat list \<Rightarrow> 'w spawner \<Rightarrow> int \<times> 'w spawner" where
  "share_pages [] x = (0, x)"
| "share_pages (pn # pns) x =
     (if \<not> upd (fst x) (pn div 1024) then share_pages pns x
      else
        (case upt (fst x) pn of
           None \<Rightarrow> share_pages pns x
         | Some (_, perm) \<Rightarrow>
             if perm AND PTE_LIBRARY \<noteq> 0 then
               (let va = push_bit 12 (word_of_nat pn);
                    (r, x) = k_map_to va va (perm AND 0xfff) x in
                if r < 0 then (r, x) else share_pages pns x)
             else share_pages pns x))"

definition spawn :: "'w fserver \<Rightarrow> ('w client) dev list \<Rightarrow> u32 \<Rightarrow> u32 \<Rightarrow> u32 \<Rightarrow> u32 list \<Rightarrow> 'w client \<Rightarrow>
    (int \<times> 'w spawner) option" where
  "spawn fsv devtab elfbuf exo prog argv s = do {
     path \<leftarrow> ustring prog s;
     (fd, s) \<leftarrow> uopen fsv path O_RDONLY s;
     if fd < 0 then Some (fd, (s, None))
     else do {
       (m, s) \<leftarrow> readn devtab fd elfbuf (word_of_nat sizeof_Ehdr) s;
       if m < 0 then do { (_, s) \<leftarrow> close devtab fd s; Some (1, (s, None)) }
       else do {
         h \<leftarrow> ubytes sizeof_Ehdr elfbuf s;
         (case elf_from h (word_of_nat sizeof_Ehdr) of
            None \<Rightarrow> do { (_, s) \<leftarrow> close devtab fd s; Some (- E_NOT_EXEC, (s, None)) }
          | Some ehdr \<Rightarrow> do {
              let child = exo;
              let x = (s, if sint exo < 0 then None else Some new_kid);
              let fail = (\<lambda>r x. do { (_, s) \<leftarrow> close devtab fd (fst x); Some (r, (s, None)) });
              (r, sp, x) \<leftarrow> init_stack argv x;
              if r < 0 then fail 0 x
              else do {
                (err, x) \<leftarrow> load_segments devtab elfbuf fd 0 (e_phoff ehdr) x;
                (case err of
                   Some r \<Rightarrow> fail r x
                 | None \<Rightarrow> do {
                     (_, x) \<leftarrow> on_self (close devtab fd) x;
                     let (r, x) = on_kid (\<lambda>k. k\<lparr>kid_epc := e_entry ehdr, kid_sp := sp\<rparr>) x;
                     if r \<noteq> 0 then Some (r, (fst x, None))
                     else do {
                       let (r, x) = share_pages [0..<1024 * (PDX USTACKTOP + 1)] x;
                       if r < 0 then Some (r, (fst x, None))
                       else do {
                         let (r, x) = on_kid (\<lambda>k. k\<lparr>kid_runnable := True\<rparr>) x;
                         if r < 0 then Some (r, (fst x, None)) else Some (sint child, x) } } }) } }) } } }"

section \<open>The arguments reach the child\<close>

text \<open>Bytes, and words, stored one after the other.\<close>

fun pokes :: "u32 \<Rightarrow> u8 list \<Rightarrow> (u32 \<Rightarrow> u8) \<Rightarrow> u32 \<Rightarrow> u8" where
  "pokes c [] m = m"
| "pokes c (b # bs) m = pokes (c + 1) bs (m(c := b))"

fun pokew :: "u32 \<Rightarrow> u32 list \<Rightarrow> (u32 \<Rightarrow> u8) \<Rightarrow> u32 \<Rightarrow> u8" where
  "pokew a [] m = m"
| "pokew a (w # ws) m = pokew (a + 4) ws (wr32 a w m)"

lemma addrs_mem: "i < n \<Longrightarrow> a + word_of_nat i \<in> addrs a n"
  unfolding addrs_def by blast

lemma addrs_Suc: "addrs c (Suc n) = insert c (addrs (c + 1) n)"
proof -
  have "{..<Suc n} = insert 0 (Suc ` {..<n})" using lessThan_Suc_eq_insert_0 by blast
  then show ?thesis by (simp add: addrs_def image_image add.assoc)
qed

lemma pokes_append: "pokes c (xs @ ys) m = pokes (c + word_of_nat (length xs)) ys (pokes c xs m)"
  by (induction xs arbitrary: c m) (simp_all add: add.assoc)

lemma pokes_out: "a \<notin> addrs c (length bs) \<Longrightarrow> pokes c bs m a = m a"
  by (induction bs arbitrary: c m) (auto simp: addrs_Suc)

lemma pokes_nth: "i < length bs \<Longrightarrow> length bs \<le> 2 ^ 32 \<Longrightarrow> pokes c bs m (c + word_of_nat i) = bs ! i"
proof (induction bs arbitrary: c m i)
  case (Cons b bs)
  show ?case
  proof (cases i)
    case 0
    have "c \<noteq> c + 1 + word_of_nat j" if "j < length bs" for j
    proof -
      have "unat (word_of_nat (Suc j) :: u32) = Suc j" using that Cons.prems(2) by (intro unat_of_nat32) simp
      then have "(word_of_nat (Suc j) :: u32) \<noteq> 0" by (metis unat_0 nat.distinct(1))
      then show ?thesis by (simp add: add.assoc)
    qed
    then have "c \<notin> addrs (c + 1) (length bs)" unfolding addrs_def by blast
    then show ?thesis using 0 by (simp add: pokes_out)
  next
    case (Suc j)
    then show ?thesis using Cons.IH [of j "c + 1"] Cons.prems by (simp add: add.assoc)
  qed
qed simp

lemma addrs_words: "k < 4 \<Longrightarrow> i < n \<Longrightarrow> a + 4 * word_of_nat i + word_of_nat k \<in> addrs a (4 * n)"
  unfolding addrs_def by (intro image_eqI [of _ _ "4 * i + k"]) simp_all

lemma pokew_out: "b \<notin> addrs a (4 * length ws) \<Longrightarrow> pokew a ws m b = m b"
proof (induction ws arbitrary: a m)
  case (Cons w ws)
  have "addrs (a + word_of_nat 4) (4 * length ws) \<subseteq> addrs a (4 * length (w # ws))"
    by (rule addrs_sub) simp
  then have "b \<notin> addrs (a + 4) (4 * length ws)" using Cons.prems by auto
  moreover have "b \<noteq> a + word_of_nat k" if "k < 4" for k
    using Cons.prems addrs_words [OF that, of 0 "length (w # ws)" a] by auto
  from this [of 0] this [of 1] this [of 2] this [of 3] have "wr32 a w m b = m b" by (simp add: wr32_def)
  ultimately show ?case using Cons.IH [of "a + 4"] by simp
qed simp

lemma addrs_not_first: "c \<notin> addrs (c + word_of_nat (Suc j)) n" if "Suc j + n \<le> 2 ^ 32"
proof
  assume "c \<in> addrs (c + word_of_nat (Suc j)) n"
  then obtain i where "i < n" "c = c + word_of_nat (Suc j) + word_of_nat i" unfolding addrs_def by blast
  then have "word_of_nat (Suc j + i) = (0 :: u32)" "Suc j + i < 2 ^ 32" using that by (auto simp: add.assoc)
  then show False using unat_of_nat32 [of "Suc j + i"] by simp
qed

lemma pokew_nth:
  "i < length ws \<Longrightarrow> 4 * length ws \<le> 2 ^ 32 \<Longrightarrow> rd32 (pokew a ws m) (a + 4 * word_of_nat i) = ws ! i"
proof (induction ws arbitrary: a m i)
  case (Cons w ws)
  show ?case
  proof (cases i)
    case 0
    have "a + word_of_nat k \<notin> addrs (a + 4) (4 * length ws)" if "k < 4" for k
      using addrs_not_first [of "3 - k" "4 * length ws" "a + word_of_nat k"] that Cons.prems(2)
      by (simp add: of_nat_diff add.assoc)
    from pokew_out [OF this [of 0]] pokew_out [OF this [of 1]] pokew_out [OF this [of 2]] pokew_out [OF this [of 3]]
    have "rd32 (pokew (a + 4) ws (wr32 a w m)) a = rd32 (wr32 a w m) a" by (simp add: rd32_def)
    then show ?thesis using 0 by simp
  next
    case (Suc j)
    then show ?thesis using Cons.IH [of j "a + 4"] Cons.prems by (simp add: algebra_simps)
  qed
qed simp

text \<open>A string at \<open>p\<close>, outside the page being filled.\<close>

definition arg_at :: "u32 set \<Rightarrow> u32 set \<Rightarrow> (u32 \<Rightarrow> u8) \<Rightarrow> u32 \<Rightarrow> u8 list \<Rightarrow> bool" where
  "arg_at A W m p bs \<longleftrightarrow> cstr m p bs \<and> addrs p (Suc (length bs)) \<subseteq> A - W \<and> length bs < 2 ^ 31"

lemma arg_at_cong:
  assumes "\<And>a. a \<in> A - W \<Longrightarrow> m a = m' a"
  shows "arg_at A W m p bs = arg_at A W m' p bs"
proof -
  have "p + word_of_nat i \<in> addrs p (Suc (length bs))" if "i \<le> length bs" for i
    using that unfolding addrs_def by (intro image_eqI [of _ _ i]) auto
  then have "addrs p (Suc (length bs)) \<subseteq> A - W \<Longrightarrow> i \<le> length bs \<Longrightarrow> m (p + word_of_nat i) = m' (p + word_of_nat i)" for i
    using assms by blast
  then show ?thesis by (auto simp: arg_at_def cstr_nth)
qed

lemma arg_at_upd: "c \<in> W \<Longrightarrow> arg_at A W (m(c := b)) p bs = arg_at A W m p bs"
  by (rule arg_at_cong) auto

lemma arg_strlen:
  assumes "uok A W s0 s" "arg_at A W (uview A s) p bs"
  shows "strlen uops p s = Some (word_of_nat (length bs), s)"
proof (rule umem.strlen_view [OF assms(1)])
  show "cstr (uview A s) p bs" using assms(2) by (simp add: arg_at_def)
  show "p + word_of_nat i \<in> A" if "i \<le> length bs" for i
    using assms(2) addrs_mem [of i "Suc (length bs)" p] that unfolding arg_at_def by auto
qed

lemma copy_arg_view:
  assumes "uok A W s0 s" "arg_at A W (uview A s) p (xs @ ys)" "addrs c (Suc (length ys)) \<subseteq> W"
  shows "\<exists>t. copy_arg p (word_of_nat (length xs)) c s = Some (c + word_of_nat (Suc (length ys)), t) \<and>
    uok A W s0 t \<and> uview A t = pokes c (ys @ [0]) (uview A s)"
  using assms
proof (induction ys arbitrary: xs c s)
  case Nil
  have "c \<in> W" using Nil.prems(3) by (simp add: addrs_Suc)
  then obtain t where "ust8 c 0 s = Some t" "uok A W s0 t" "uview A t = (uview A s)(c := 0)"
    using ust8_view [OF Nil.prems(1)] by blast
  then show ?case
    using arg_strlen [OF Nil.prems(1,2)] by (subst copy_arg.simps) simp
next
  case (Cons y ys)
  have c: "c \<in> W" "addrs (c + 1) (Suc (length ys)) \<subseteq> W" using Cons.prems(3) by (simp_all add: addrs_Suc)
  have len: "length (xs @ y # ys) < 2 ^ 31" using Cons.prems(2) by (simp add: arg_at_def)
  have p: "p + word_of_nat (length xs) \<in> A" "uview A s (p + word_of_nat (length xs)) = y"
    using Cons.prems(2) addrs_mem [of "length xs" "Suc (length (xs @ y # ys))" p]
    unfolding arg_at_def cstr_nth by auto
  obtain t where t: "ust8 c y s = Some t" "uok A W s0 t" "uview A t = (uview A s)(c := y)"
    using ust8_view [OF Cons.prems(1) c(1)] by blast
  have "arg_at A W (uview A t) p ((xs @ [y]) @ ys)"
    using Cons.prems(2) c(1) by (simp add: t(3) arg_at_upd)
  then obtain u where u: "copy_arg p (word_of_nat (length (xs @ [y]))) (c + 1) t = Some (c + 1 + word_of_nat (Suc (length ys)), u)"
    "uok A W s0 u" "uview A u = pokes (c + 1) (ys @ [0]) (uview A t)"
    using Cons.IH [OF t(2) _ c(2), of "xs @ [y]"] by blast
  have "word_of_nat (length xs) < (word_of_nat (length (xs @ y # ys)) :: u32)"
    using len unat_of_nat32 [of "length xs"] unat_of_nat32 [of "length (xs @ y # ys)"]
    unfolding word_less_nat_alt by simp
  then have "copy_arg p (word_of_nat (length xs)) c s = Some (c + word_of_nat (Suc (length (y # ys))), u)"
    using arg_strlen [OF Cons.prems(1,2)] uld8_view [OF Cons.prems(1) p(1)] p(2) t(1) u(1)
    by (subst copy_arg.simps) (simp add: add.assoc add.commute)
  then show ?case using u(2,3) by (simp add: t(3))
qed

text \<open>The strings, one after the other, and where each of them starts.\<close>

definition blob :: "u8 list list \<Rightarrow> u8 list" where
  "blob strs = concat (map (\<lambda>w. w @ [0]) strs)"

fun starts :: "u32 \<Rightarrow> u8 list list \<Rightarrow> u32 list" where
  "starts c [] = []"
| "starts c (w # ws) = c # starts (c + word_of_nat (Suc (length w))) ws"

lemma blob_simps [simp]: "blob [] = []" "blob (w # ws) = w @ 0 # blob ws"
  by (simp_all add: blob_def)

lemma length_starts [simp]: "length (starts c strs) = length strs"
  by (induction strs arbitrary: c) simp_all

text \<open>The strings of \<open>argv\<close>, all outside the page being filled.\<close>

abbreviation args_at :: "u32 set \<Rightarrow> u32 set \<Rightarrow> (u32 \<Rightarrow> u8) \<Rightarrow> u32 list \<Rightarrow> u8 list list \<Rightarrow> bool" where
  "args_at A W m \<equiv> list_all2 (arg_at A W m)"

lemma args_at_cong:
  "(\<And>a. a \<in> A - W \<Longrightarrow> m a = m' a) \<Longrightarrow> args_at A W m argv strs = args_at A W m' argv strs"
  using arg_at_cong [of A W m m'] by (simp add: fun_eq_iff cong: list.rel_cong)

lemma args_size_view:
  "uok A W s0 s \<Longrightarrow> args_at A W (uview A s) argv strs \<Longrightarrow>
     args_size argv tot s = Some (tot + word_of_nat (length (blob strs)))"
  by (induction argv strs arbitrary: tot rule: list_induct2') (auto simp: arg_strlen add.assoc add.left_commute)

lemma copy_args_view:
  assumes "uok A W s0 s" "args_at A W (uview A s) argv strs" "addrs c (length (blob strs)) \<subseteq> W"
  shows "\<exists>t. copy_args argv c s = Some (c + word_of_nat (length (blob strs)), t) \<and> uok A W s0 t \<and>
    uview A t = pokes c (blob strs) (uview A s)"
  using assms
proof (induction strs arbitrary: argv c s)
  case (Cons w ws)
  then obtain p ps where a: "argv = p # ps" "arg_at A W (uview A s) p w" "args_at A W (uview A s) ps ws"
    by (auto simp: list_all2_Cons2)
  let ?c = "c + word_of_nat (Suc (length w))"
  have w: "addrs c (Suc (length w)) \<subseteq> W" and ws: "addrs ?c (length (blob ws)) \<subseteq> W"
    using Cons.prems(3) addrs_sub [of 0 "Suc (length w)" "length (blob (w # ws))" c]
      addrs_sub [of "Suc (length w)" "length (blob ws)" "length (blob (w # ws))" c] by auto
  obtain t where t: "copy_arg p 0 c s = Some (?c, t)" "uok A W s0 t" "uview A t = pokes c (w @ [0]) (uview A s)"
    using copy_arg_view [OF Cons.prems(1), of p "[]" w c] a(2) w by auto
  have "args_at A W (uview A t) ps ws"
    using a(3) w by (subst args_at_cong [of A W _ "uview A s"]) (auto simp: t(3) intro!: pokes_out)
  then obtain u where u: "copy_args ps ?c t = Some (?c + word_of_nat (length (blob ws)), u)" "uok A W s0 u"
    "uview A u = pokes ?c (blob ws) (uview A t)"
    using Cons.IH [OF t(2) _ ws] by blast
  have "pokes c (blob (w # ws)) (uview A s) = pokes ?c (blob ws) (uview A t)"
    using pokes_append [of c "w @ [0]" "blob ws"] by (simp add: t(3))
  then show ?case using a(1) t(1) u by (simp add: add.assoc)
qed auto

lemma store_ptrs_view:
  assumes "uok A W s0 s" "args_at A W (uview A s) argv strs" "addrs a (4 * length strs) \<subseteq> W"
  shows "\<exists>t. store_ptrs argv a c s = Some (c + word_of_nat (length (blob strs)), t) \<and> uok A W s0 t \<and>
    uview A t = pokew a (starts c strs) (uview A s)"
  using assms
proof (induction strs arbitrary: argv a c s)
  case (Cons w ws)
  then obtain p ps where r: "argv = p # ps" "arg_at A W (uview A s) p w" "args_at A W (uview A s) ps ws"
    by (auto simp: list_all2_Cons2)
  have here: "a + word_of_nat k \<in> W" if "k < 4" for k
    using addrs_words [OF that, of 0 "length (w # ws)" a] Cons.prems(3) by auto
  have rest: "addrs (a + 4) (4 * length ws) \<subseteq> W"
    using addrs_sub [of 4 "4 * length ws" "4 * length (w # ws)" a] Cons.prems(3) by auto
  obtain t where t: "ust32 a c s = Some t" "uok A W s0 t" "uview A t = wr32 a c (uview A s)"
    using ust32_view [OF Cons.prems(1) here] by blast
  have same: "uview A t b = uview A s b" if "b \<in> A - W" for b
    using that here [of 0] here [of 1] here [of 2] here [of 3] by (auto simp: t(3) wr32_def)
  have args: "arg_at A W (uview A t) p w" "args_at A W (uview A t) ps ws"
    using r(2,3) iffD2 [OF arg_at_cong [of A W "uview A t" "uview A s", OF same]]
      iffD2 [OF args_at_cong [of A W "uview A t" "uview A s", OF same]] by blast+
  obtain u where u: "store_ptrs ps (a + 4) (c + word_of_nat (Suc (length w))) t =
      Some (c + word_of_nat (Suc (length w)) + word_of_nat (length (blob ws)), u)" "uok A W s0 u"
    "uview A u = pokew (a + 4) (starts (c + word_of_nat (Suc (length w))) ws) (uview A t)"
    using Cons.IH [OF t(2) args(2) rest] by blast
  then show ?case
    using r(1) t(1,3) arg_strlen [OF t(2) args(1)] by (simp add: add.assoc add.commute)
qed auto

lemma blob_cstr:
  assumes "\<And>j. j < length (blob strs) \<Longrightarrow> m (c + word_of_nat j) = blob strs ! j"
    and "\<And>w. w \<in> set strs \<Longrightarrow> 0 \<notin> set w" "i < length strs"
  shows "cstr m (starts c strs ! i) (strs ! i)"
  using assms
proof (induction strs arbitrary: c i)
  case (Cons w ws)
  show ?case
  proof (cases i)
    case 0
    have "m (c + word_of_nat j) = (w @ [0]) ! j" if "j \<le> length w" for j
      using Cons.prems(1) [of j] that by (auto simp: nth_append)
    from this [of "length w"] this show ?thesis
      using 0 Cons.prems(2) [of w] by (auto simp: cstr_nth nth_append) (metis nth_mem)
  next
    case (Suc j)
    have "m (c + word_of_nat (Suc (length w)) + word_of_nat l) = blob ws ! l" if "l < length (blob ws)" for l
      using Cons.prems(1) [of "Suc (length w) + l"] that by (simp add: nth_append add.assoc)
    then show ?thesis
      using Cons.IH [of "c + word_of_nat (Suc (length w))" j] Cons.prems(2,3) Suc by simp
  qed
qed simp

text \<open>Offsets in the page at \<^verbatim>\<open>UTEMP\<close>.\<close>

abbreviation uaddr :: "nat \<Rightarrow> u32" where
  "uaddr i \<equiv> UTEMP + word_of_nat i"

lemma uaddr_in: "q < 2 ^ 32 \<Longrightarrow> i + k \<le> 2 ^ 32 \<Longrightarrow> uaddr q \<in> addrs (uaddr i) k \<longleftrightarrow> i \<le> q \<and> q < i + k"
proof
  assume q: "q < 2 ^ 32" "i + k \<le> 2 ^ 32" and "uaddr q \<in> addrs (uaddr i) k"
  then obtain j where "j < k" "uaddr q = uaddr i + word_of_nat j" unfolding addrs_def by blast
  then have "(word_of_nat q :: u32) = word_of_nat (i + j)" by (simp only: add.assoc add_left_cancel of_nat_add)
  then have "q = i + j" using q \<open>j < k\<close> unat_of_nat32 [of q] unat_of_nat32 [of "i + j"] by simp
  then show "i \<le> q \<and> q < i + k" using \<open>j < k\<close> by simp
next
  assume "i \<le> q \<and> q < i + k"
  then show "uaddr q \<in> addrs (uaddr i) k"
    unfolding addrs_def by (intro image_eqI [of _ _ "q - i"]) (auto simp: of_nat_diff)
qed

lemma wr32_in: "wr32 a w m b = m b" if "b \<notin> addrs a 4"
proof -
  have "b \<noteq> a + word_of_nat k" if "k < 4" for k using addrs_mem [OF that, of a] \<open>b \<notin> addrs a 4\<close> by auto
  from this [of 0] this [of 1] this [of 2] this [of 3] show ?thesis by (simp add: wr32_def)
qed

lemma rd32_uaddr:
  assumes "\<And>k. k < 4 \<Longrightarrow> m (uaddr (i + k)) = m' (uaddr (i + k))"
  shows "rd32 m (uaddr i) = rd32 m' (uaddr i)"
  using assms [of 0] assms [of 1] assms [of 2] assms [of 3] by (simp add: rd32_def add.assoc)

lemma round4: "unat (ROUND (word_of_nat tot) 4) = (tot + 3) div 4 * 4" if "tot < 2 ^ 31"
proof -
  let ?x = "word_of_nat (tot + 3) :: u32"
  have x: "unat ?x = tot + 3" using that by (intro unat_of_nat32) simp
  have "?x AND 3 \<le> ?x" by (simp only: word_le_nat_alt and3_unat mod_less_eq_dividend)
  then have "unat (?x - (?x AND 3)) = tot + 3 - (tot + 3) mod 4" using x by (simp only: unat_sub and3_unat)
  moreover have "?x - (?x AND 3) = ?x AND NOT (?x AND 3)"
    by (rule disjunctive_diff_eq_and_not) (rule bit_word_eqI, auto simp: bit_simps)
  moreover have "?x AND NOT (?x AND 3) = ?x AND NOT 3"
    by (rule bit_word_eqI) (auto simp: bit_simps)
  moreover have "ROUND (word_of_nat tot) 4 = ?x AND NOT 3"
    by (simp add: ROUND_def algebra_simps)
  ultimately show ?thesis using minus_mod_eq_div_mult [of "tot + 3" 4] by simp
qed

text \<open>The layout of the stack page, by offsets: \<open>ao\<close> is that of \<^verbatim>\<open>args\<close>, \<open>so\<close> that of \<^verbatim>\<open>strings\<close>.\<close>

definition stack_page :: "(u32 \<Rightarrow> u8) \<Rightarrow> nat \<Rightarrow> nat \<Rightarrow> u8 list list \<Rightarrow> bool" where
  "stack_page m ao so strs \<longleftrightarrow>
     (let d = USTACKTOP - UTEMP - PAGE_SIZE in
      rd32 m (uaddr (ao - 8)) = word_of_nat (length strs) \<and> rd32 m (uaddr (ao - 4)) = d + uaddr ao \<and>
      rd32 m (uaddr (ao + 4 * length strs)) = USTACKTOP - 1 \<and>
      (\<forall>i < length strs. rd32 m (uaddr (ao + 4 * i)) = starts (d + uaddr so) strs ! i) \<and>
      (\<forall>j < length (blob strs). m (uaddr (so + j)) = blob strs ! j))"

lemma stack_page_written:
  assumes "8 \<le> ao" "ao + 4 * length strs + 4 \<le> so" "so + length (blob strs) \<le> 4096"
    and "d = USTACKTOP - UTEMP - PAGE_SIZE" "e = USTACKTOP - 1"
  shows "stack_page (wr32 (uaddr (ao - 8)) (word_of_nat (length strs)) (wr32 (uaddr (ao - 4)) (d + uaddr ao)
     (wr32 (uaddr (ao + 4 * length strs)) e (pokew (uaddr ao) (starts (d + uaddr so) strs)
        (pokes (uaddr so) (blob strs) m0))))) ao so strs"
    (is "stack_page (wr32 _ ?n (wr32 _ _ (wr32 _ _ ?m2))) _ _ _")
proof -
  let ?m3 = "wr32 (uaddr (ao + 4 * length strs)) e ?m2"
  let ?m4 = "wr32 (uaddr (ao - 4)) (d + uaddr ao) ?m3"
  let ?m5 = "wr32 (uaddr (ao - 8)) ?n ?m4"
  have m5: "?m5 (uaddr q) = ?m4 (uaddr q)" if "ao - 4 \<le> q" "q < 4096" for q
    using that assms by (intro wr32_in) (subst uaddr_in, auto)
  have m4: "?m4 (uaddr q) = ?m3 (uaddr q)" if "ao \<le> q" "q < 4096" for q
    using that assms by (intro wr32_in) (subst uaddr_in, auto)
  have m3: "?m3 (uaddr q) = ?m2 (uaddr q)" if "q < ao + 4 * length strs \<or> so \<le> q" "q < 4096" for q
    using that assms by (intro wr32_in) (subst uaddr_in, auto)
  have below: "?m5 (uaddr q) = ?m2 (uaddr q)" if "ao \<le> q" "q < ao + 4 * length strs \<or> so \<le> q" "q < 4096" for q
    by (rule trans [OF m5 trans [OF m4 m3]]) (use that in auto)
  have "rd32 ?m5 (uaddr (ao - 4)) = rd32 ?m4 (uaddr (ao - 4))"
    using assms by (intro rd32_uaddr m5) auto
  moreover have "rd32 ?m5 (uaddr (ao + 4 * length strs)) = rd32 ?m3 (uaddr (ao + 4 * length strs))"
    using assms by (intro rd32_uaddr trans [OF m5 m4]) auto
  moreover have "rd32 ?m5 (uaddr (ao + 4 * i)) = starts (d + uaddr so) strs ! i" if i: "i < length strs" for i
  proof -
    have "rd32 ?m5 (uaddr (ao + 4 * i)) = rd32 ?m2 (uaddr (ao + 4 * i))"
      using i assms by (intro rd32_uaddr below) auto
    also have "\<dots> = starts (d + uaddr so) strs ! i"
      using pokew_nth [of i "starts (d + uaddr so) strs" "uaddr ao" "pokes (uaddr so) (blob strs) m0"] i assms
      by (simp add: add.assoc)
    finally show ?thesis .
  qed
  moreover have "?m5 (uaddr (so + j)) = blob strs ! j" if j: "j < length (blob strs)" for j
  proof -
    have "?m5 (uaddr (so + j)) = ?m2 (uaddr (so + j))"
      using j assms by (intro below) auto
    also have "\<dots> = pokes (uaddr so) (blob strs) m0 (uaddr (so + j))"
      using j assms by (intro pokew_out) (subst uaddr_in, auto)
    also have "\<dots> = blob strs ! j"
      using pokes_nth [of j "blob strs" "uaddr so" m0] j assms by (simp add: add.assoc)
    finally show ?thesis .
  qed
  ultimately show ?thesis by (simp add: stack_page_def Let_def assms(4,5))
qed

lemma uaddr_room: "i + k \<le> 4096 \<Longrightarrow> addrs (uaddr i) k \<subseteq> addrs UTEMP 4096"
  using addrs_sub [of i k 4096 UTEMP] by simp

lemma fill_stack_view:
  fixes strs :: "u8 list list"
  defines "tot \<equiv> length (blob strs)" and "n \<equiv> length strs"
  assumes ok: "uok A W s0 s" and W: "W = addrs UTEMP 4096" and args: "args_at A W (uview A s) argv strs"
    and fits: "(tot + 3) div 4 * 4 + 4 * (n + 3) \<le> 4096"
  defines "so \<equiv> 4096 - tot" and "ao \<equiv> 4096 - (tot + 3) div 4 * 4 - 4 * (n + 1)"
  shows "\<exists>t. fill_stack argv (word_of_nat tot) s = Some (USTACKTOP - UTEMP - PAGE_SIZE + uaddr (ao - 8), t) \<and>
    uok A W s0 t \<and> stack_page (uview A t) ao so strs"
proof -
  let ?d = "USTACKTOP - UTEMP - PAGE_SIZE"
  have b: "8 \<le> ao" "ao + 4 * n + 4 \<le> so" "so + tot = 4096" "tot < 2 ^ 31" "n < 2 ^ 31"
    using fits by (auto simp: ao_def so_def)
  have len: "length argv = n" using args list_all2_lengthD by (auto simp: n_def)
  have strings: "UTEMP + PAGE_SIZE - word_of_nat tot = uaddr so"
    using b(3) by (auto simp: so_def of_nat_diff)
  have "ROUND (word_of_nat tot) 4 = (word_of_nat ((tot + 3) div 4 * 4) :: u32)"
    using round4 [OF b(4)] unat_of_nat32 [of "(tot + 3) div 4 * 4"] fits by (simp only: word_unat_eq_iff) simp
  moreover have "(word_of_nat ao :: u32) = 4096 - word_of_nat ((tot + 3) div 4 * 4) - 4 * (word_of_nat n + 1)"
    using fits unfolding ao_def by (simp only: of_nat_diff diff_diff_left) (subst of_nat_diff, simp_all add: algebra_simps)
  ultimately have argsp: "UTEMP + PAGE_SIZE - ROUND (word_of_nat tot) 4 - 4 * (word_of_nat n + 1) = uaddr ao"
    by (simp add: algebra_simps)
  have "addrs (uaddr so) (length (blob strs)) \<subseteq> W"
    unfolding W using b(3) by (intro uaddr_room) (simp add: tot_def)
  then obtain s1 where s1: "copy_args argv (uaddr so) s = Some (uaddr so + word_of_nat tot, s1)" "uok A W s0 s1"
    "uview A s1 = pokes (uaddr so) (blob strs) (uview A s)"
    using copy_args_view [OF ok args] unfolding tot_def by blast
  have "args_at A W (uview A s1) argv strs"
  proof (rule iffD2 [OF args_at_cong [of A W "uview A s1" "uview A s"] args])
    show "uview A s1 a = uview A s a" if "a \<in> A - W" for a
      using that \<open>addrs (uaddr so) (length (blob strs)) \<subseteq> W\<close> unfolding s1(3) by (intro pokes_out) auto
  qed
  moreover have "addrs (uaddr ao) (4 * length strs) \<subseteq> W"
    unfolding W using b by (intro uaddr_room) (simp add: n_def)
  ultimately obtain s2 where s2: "store_ptrs argv (uaddr ao) (?d + uaddr so) s1 = Some (?d + uaddr so + word_of_nat tot, s2)"
    "uok A W s0 s2" "uview A s2 = pokew (uaddr ao) (starts (?d + uaddr so) strs) (uview A s1)"
    using store_ptrs_view [OF s1(2)] unfolding tot_def by blast
  have store: "\<exists>t. ust32 (uaddr i) w s' = Some t \<and> uok A W s0 t \<and> uview A t = wr32 (uaddr i) w (uview A s')"
    if "uok A W s0 s'" "i + 4 \<le> 4096" for i w s'
    by (rule ust32_view [OF that(1)]) (use uaddr_room [OF that(2)] addrs_mem W in blast)
  have i: "ao + 4 * n + 4 \<le> 4096" "ao - 4 + 4 \<le> 4096" "ao - 8 + 4 \<le> 4096" using b by auto
  obtain s3 where s3: "ust32 (uaddr (ao + 4 * n)) (?d + uaddr so + word_of_nat tot - 1) s2 = Some s3" "uok A W s0 s3"
    "uview A s3 = wr32 (uaddr (ao + 4 * n)) (?d + uaddr so + word_of_nat tot - 1) (uview A s2)"
    using store [OF s2(2) i(1)] by blast
  obtain s4 where s4: "ust32 (uaddr (ao - 4)) (?d + uaddr ao) s3 = Some s4" "uok A W s0 s4"
    "uview A s4 = wr32 (uaddr (ao - 4)) (?d + uaddr ao) (uview A s3)"
    using store [OF s3(2) i(2)] by blast
  obtain s5 where s5: "ust32 (uaddr (ao - 8)) (word_of_nat n) s4 = Some s5" "uok A W s0 s5"
    "uview A s5 = wr32 (uaddr (ao - 8)) (word_of_nat n) (uview A s4)"
    using store [OF s4(2) i(3)] by blast
  have offs: "uaddr ao - 4 = uaddr (ao - 4)" "uaddr ao - 8 = uaddr (ao - 8)" "uaddr ao + 4 * word_of_nat n = uaddr (ao + 4 * n)"
    using b(1) by (simp_all add: of_nat_diff algebra_simps)
  have "fill_stack argv (word_of_nat tot) s = Some (?d + uaddr (ao - 8), s5)"
    unfolding fill_stack_def Let_def len strings argsp offs
    by (simp only: s1(1) s2(1) s3(1) s4(1) s5(1) bind.bind_lunit split_conv)
  moreover have "stack_page (uview A s5) ao so strs"
    unfolding s5(3) s4(3) s3(3) s2(3) s1(3) n_def
    using b by (intro stack_page_written) (simp_all add: n_def tot_def so_def of_nat_diff)
  ultimately show ?thesis using s5(2) by blast
qed

lemma within_page:
  assumes "unat b + 4096 < 2 ^ 32" "unat b mod 4096 = 0" "q < 4096"
  shows "VPN (b + word_of_nat q) = VPN b" "pgoff (b + word_of_nat q) = q"
proof -
  have "unat (b + word_of_nat q) = unat b + q"
    using assms(1,3) unat_of_nat32 [of q] by (simp add: unat_word_ariths)
  moreover obtain c where "unat b = 4096 * c" using assms(2) by (auto simp: mod_0_imp_dvd elim!: dvdE dest!: mod_0_imp_dvd)
  ultimately show "VPN (b + word_of_nat q) = VPN b" "pgoff (b + word_of_nat q) = q"
    using assms(3) by (simp_all add: VPN_div pgoff_def unat_mod)
qed

lemmas utemp_offset = within_page [of UTEMP, simplified]

lemma utemp_page: "VPN a = VPN UTEMP \<Longrightarrow> a \<in> addrs UTEMP 4096"
proof -
  assume "VPN a = VPN UTEMP"
  then have a: "unat a div 4096 = 1022" by (simp add: VPN_div)
  have "a = UTEMP + word_of_nat (unat a - 0x3fe000)"
    using a by (simp add: word_unat_eq_iff unat_word_ariths)
  moreover have "unat a - 0x3fe000 < 4096" using a by linarith
  ultimately show ?thesis unfolding addrs_def by blast
qed

text \<open>The new page at \<^verbatim>\<open>UTEMP\<close>, beside what the process can read.\<close>

lemma fresh_page:
  assumes "distinct_bytes S {} s" "S \<inter> addrs UTEMP 4096 = {}"
    and "\<And>p fr perm. upt s p = Some (fr, perm) \<Longrightarrow> fr < nframe s"
    and upt: "upt t = (upt s)(VPN UTEMP \<mapsto> (nframe s, perm))" and "perm AND PTE_D \<noteq> 0"
  defines "W \<equiv> addrs UTEMP 4096"
  shows "distinct_bytes (S \<union> W) W t"
proof -
  have W: "uloc t a = Some (nframe s, pgoff a)" "writable t a" "upt t (VPN a) \<noteq> None" if "a \<in> W" for a
    using that utemp_offset(1) assms(5) unfolding W_def addrs_def uloc_def writable_def upt by auto
  have S: "uloc t a = uloc s a" "upt t (VPN a) = upt s (VPN a)" if "a \<in> S" for a
    using that utemp_page [of a] assms(2) unfolding uloc_def upt by auto
  have "inj_on (uloc t) (S \<union> W)"
  proof (rule inj_onI)
    fix a b assume ab: "a \<in> S \<union> W" "b \<in> S \<union> W" "uloc t a = uloc t b"
    have mixed: "uloc t a \<noteq> uloc t b" if "a \<in> S" "b \<in> W" for a b
      using assms(1,3) S(1) [OF that(1)] W(1) [OF that(2)] that(1)
      by (fastforce simp: distinct_bytes_def uloc_def)
    have "a = b" if "a \<in> W" "b \<in> W"
      using that ab(3) W(1) utemp_offset(2) unfolding W_def addrs_def by auto
    moreover have "a = b" if "a \<in> S" "b \<in> S"
      using that ab(3) S(1) assms(1) by (auto simp: distinct_bytes_def inj_on_def)
    ultimately show "a = b" using ab mixed by (metis Un_iff)
  qed
  then show ?thesis
    using assms(1) S(2) W(2,3) unfolding distinct_bytes_def by (simp add: ball_Un)
qed

text \<open>The child's memory.\<close>

definition kid_byte :: "'w spawner \<Rightarrow> u32 \<Rightarrow> u8" where
  "kid_byte x a =
     (case snd x of
        None \<Rightarrow> 0
      | Some k \<Rightarrow> (case kpt k (VPN a) of None \<Rightarrow> 0 | Some (fr, _) \<Rightarrow> frames (fst x) fr (pgoff a)))"

text \<open>
  What a program finds at its stack pointer: the number of arguments and the array of pointers to them,
  which ends with the address of the last byte of the stack instead of a null pointer.
\<close>

definition args_found :: "(u32 \<Rightarrow> u8) \<Rightarrow> u32 \<Rightarrow> u8 list list \<Rightarrow> bool" where
  "args_found m sp strs \<longleftrightarrow>
     rd32 m sp = word_of_nat (length strs) \<and>
     rd32 m (rd32 m (sp + 4) + 4 * word_of_nat (length strs)) = USTACKTOP - 1 \<and>
     (\<forall>i < length strs. cstr m (rd32 m (rd32 m (sp + 4) + 4 * word_of_nat i)) (strs ! i))"

lemma stack_page_found:
  assumes "stack_page m ao so strs" "8 \<le> ao" "ao + 4 * length strs + 4 \<le> 4096" "so + length (blob strs) \<le> 4096"
    and "\<And>w. w \<in> set strs \<Longrightarrow> 0 \<notin> set w" and d: "d = USTACKTOP - UTEMP - PAGE_SIZE"
    and same: "\<And>q. q < 4096 \<Longrightarrow> m' (d + uaddr q) = m (uaddr q)"
  shows "args_found m' (d + uaddr (ao - 8)) strs"
proof -
  have word: "rd32 m' (d + uaddr q) = rd32 m (uaddr q)" if "q + 4 \<le> 4096" for q
    using that same [of q] same [of "q + 1"] same [of "q + 2"] same [of "q + 3"]
    by (simp add: rd32_def add.assoc)
  have av: "d + uaddr (ao - 8) + 4 = d + uaddr (ao - 4)"
    using assms(2) by (simp add: of_nat_diff)
  have at: "d + uaddr ao + 4 * word_of_nat i = d + uaddr (ao + 4 * i)" for i by simp
  have "cstr m' (starts (d + uaddr so) strs ! i) (strs ! i)" if "i < length strs" for i
  proof (rule blob_cstr [OF _ assms(5) that])
    show "m' (d + uaddr so + word_of_nat j) = blob strs ! j" if "j < length (blob strs)" for j
      using that assms(1,4) same [of "so + j"] unfolding stack_page_def by (simp add: add.assoc)
  qed
  moreover have "rd32 m' (d + uaddr (ao + 4 * i)) = starts (d + uaddr so) strs ! i" if "i < length strs" for i
    using that assms(1,3) word [of "ao + 4 * i"] unfolding stack_page_def d by simp
  moreover have "rd32 m' (d + uaddr (ao - 4)) = d + uaddr ao" "rd32 m' (d + uaddr (ao - 8)) = word_of_nat (length strs)"
    using assms(1,2,3) word [of "ao - 4"] word [of "ao - 8"] unfolding stack_page_def d by simp_all
  moreover have "rd32 m' (d + uaddr (ao + 4 * length strs)) = USTACKTOP - 1"
    using assms(1,2,3) word [of "ao + 4 * length strs"] unfolding stack_page_def d by simp
  ultimately show ?thesis unfolding args_found_def av by (auto simp only: at)
qed

lemma cstr_no_nul: "cstr m p w \<Longrightarrow> 0 \<notin> set w"
  by (induction w arbitrary: p) auto

lemma args_no_nul: "args_at A W m argv strs \<Longrightarrow> w \<in> set strs \<Longrightarrow> 0 \<notin> set w"
  by (induction argv strs rule: list_all2_induct) (auto simp: arg_at_def dest: cstr_no_nul)

lemma arg_at_mono:
  assumes "arg_at S {} m p w" "S \<subseteq> A - W" "\<And>a. a \<in> S \<Longrightarrow> m' a = m a"
  shows "arg_at A W m' p w"
proof -
  have "p + word_of_nat i \<in> S" if "i \<le> length w" for i
    using assms(1) addrs_mem [of i "Suc (length w)" p] that unfolding arg_at_def by auto
  then have "m' (p + word_of_nat i) = m (p + word_of_nat i)" if "i \<le> length w" for i
    using assms(3) that by blast
  then show ?thesis using assms(1,2) by (auto simp: arg_at_def cstr_nth)
qed

lemma args_fit:
  assumes "(tot + 3) div 4 * 4 + 4 * (n + 3) \<le> 4096"
  shows "\<not> ROUND (word_of_nat tot) 4 + 4 * (word_of_nat n + 3) > PAGE_SIZE"
proof -
  have "ROUND (word_of_nat tot) 4 = (word_of_nat ((tot + 3) div 4 * 4) :: u32)"
    using round4 [of tot] unat_of_nat32 [of "(tot + 3) div 4 * 4"] assms by (simp only: word_unat_eq_iff) simp
  then have "ROUND (word_of_nat tot) 4 + 4 * (word_of_nat n + 3) = (word_of_nat ((tot + 3) div 4 * 4 + 4 * (n + 3)) :: u32)"
    by (simp add: algebra_simps)
  then show ?thesis
    using assms unat_of_nat32 [of "(tot + 3) div 4 * 4 + 4 * (n + 3)"] by (simp add: word_less_nat_alt)
qed

text \<open>
  C26. The arguments reach the new program. When the strings of \<^verbatim>\<open>argv\<close>, their pointers and the three
  words below them fit in a page, \<^verbatim>\<open>init_stack\<close> succeeds and the child finds, at the stack pointer it is
  given, the number of arguments, and through the word after it each of the strings, in its own memory;
  what follows the last pointer is not a null pointer but the address of the last byte of the stack.
  The process keeps its mappings but for the page at \<^verbatim>\<open>UTEMP\<close>, which it no longer has.
\<close>

theorem spawn_arguments:
  assumes "distinct_bytes S {} s" "S \<inter> addrs UTEMP 4096 = {}" "args_at S {} (uview S s) argv strs"
    and "\<And>p fr perm. upt s p = Some (fr, perm) \<Longrightarrow> fr < nframe s"
    and "(length (blob strs) + 3) div 4 * 4 + 4 * (length strs + 3) \<le> 4096"
  shows "\<exists>sp x. init_stack argv (s, Some k) = Some (0, sp, x) \<and> args_found (kid_byte x) sp strs \<and>
    upt (fst x) = (upt s)(VPN UTEMP := None)"
proof -
  let ?W = "addrs UTEMP 4096" and ?d = "USTACKTOP - UTEMP - PAGE_SIZE" and ?tot = "length (blob strs)"
  let ?A = "S \<union> ?W"
  define t where "t = snd (u_mem_alloc UTEMP PTE_D s)"
  let ?so = "4096 - ?tot" and ?ao = "4096 - (?tot + 3) div 4 * 4 - 4 * (length strs + 1)"
  have legal: "\<not> is_illegal_va UTEMP" "\<not> is_illegal_va (USTACKTOP - PAGE_SIZE)" by (simp_all add: is_illegal_va_def)
  have alloc: "u_mem_alloc UTEMP PTE_D s = (0, t)" and upt: "upt t = (upt s)(VPN UTEMP \<mapsto> (nframe s, PTE_D))"
    and fresh: "frames t = (frames s)(nframe s := (\<lambda>_. 0))"
    unfolding t_def u_mem_alloc_def using legal(1) by simp_all
  have ok: "uok ?A ?W t t"
    using fresh_page [OF assms(1,2,4) upt] by (intro uok_refl) simp
  have seen: "uview ?A t a = uview S s a" if "a \<in> S" for a
  proof -
    have "VPN a \<noteq> VPN UTEMP" using that assms(2) utemp_page by blast
    moreover have "upt s (VPN a) \<noteq> None" using assms(1) that unfolding distinct_bytes_def by (elim conjE bspec)
    then obtain fr perm where fr: "upt s (VPN a) = Some (fr, perm)" by auto
    moreover have "fr < nframe s" using assms(4) [OF fr] .
    ultimately show ?thesis using that unfolding uview_def ubyte_def upt fresh by simp
  qed
  have args: "args_at ?A ?W (uview ?A t) argv strs"
  proof (rule list_all2_mono [OF assms(3)])
    have "S \<subseteq> ?A - ?W" using assms(2) by blast
    then show "arg_at ?A ?W (uview ?A t) p w" if "arg_at S {} (uview S s) p w" for p w
      by (rule arg_at_mono [OF that _ seen])
  qed
  have size: "args_size argv 0 s = Some (word_of_nat ?tot)"
    using args_size_view [OF uok_refl [OF assms(1)] assms(3)] by simp
  obtain s5 where s5: "fill_stack argv (word_of_nat ?tot) t = Some (?d + uaddr (?ao - 8), s5)"
    "uok ?A ?W t s5" "stack_page (uview ?A s5) ?ao ?so strs"
    using fill_stack_view [OF ok refl args] assms(5) by auto
  have upt5: "upt s5 = upt t" using uok_upt [OF s5(2)] by simp
  let ?k = "k\<lparr>kpt := (kpt k)(VPN (USTACKTOP - PAGE_SIZE) \<mapsto> (nframe s, PTE_D))\<rparr>"
  let ?x = "(s5\<lparr>upt := (upt s5)(VPN UTEMP := None)\<rparr>, Some ?k)"
  have len: "length argv = length strs" using assms(3) by (rule list_all2_lengthD)
  have "upt s5 (VPN UTEMP) = Some (nframe s, PTE_D)" by (simp only: upt5 upt) simp
  then have mapped: "k_map_to UTEMP (USTACKTOP - PAGE_SIZE) PTE_D (s5, Some k) = (0, s5, Some ?k)"
    unfolding k_map_to_def using legal by simp
  have unmap: "u_mem_unmap UTEMP s5 = (0, s5\<lparr>upt := (upt s5)(VPN UTEMP := None)\<rparr>)"
    unfolding u_mem_unmap_def using legal(1) by simp
  have "init_stack argv (s, Some k) = Some (0, ?d + uaddr (?ao - 8), ?x)"
    unfolding init_stack_def fst_conv snd_conv size bind.bind_lunit len if_not_P [OF args_fit [OF assms(5)]] alloc
      Let_def split_conv s5(1) mapped unmap by simp
  moreover have "args_found (kid_byte ?x) (?d + uaddr (?ao - 8)) strs"
  proof (rule stack_page_found [OF s5(3) _ _ _ _ refl])
    show "0 \<notin> set w" if "w \<in> set strs" for w
      using args_no_nul [OF assms(3) that] .
    show "kid_byte ?x (?d + uaddr q) = uview ?A s5 (uaddr q)" if "q < 4096" for q
    proof -
      have "VPN (?d + uaddr q) = VPN (USTACKTOP - PAGE_SIZE)" "pgoff (?d + uaddr q) = q"
        using within_page [of "USTACKTOP - PAGE_SIZE" q] that by simp_all
      moreover have "VPN (uaddr q) = VPN UTEMP" "pgoff (uaddr q) = q" "uaddr q \<in> ?W"
        using utemp_offset [of q] addrs_mem [of q 4096 UTEMP] that by simp_all
      ultimately show ?thesis
        by (simp only: kid_byte_def uview_def ubyte_def upt5 upt) simp
    qed
  qed (use assms(5) in auto)
  moreover have "upt (fst ?x) = (upt s)(VPN UTEMP := None)"
    by (simp only: upt5 upt) simp
  ultimately show ?thesis by blast
qed

text \<open>A process with one page, which holds the string \<^verbatim>\<open>ls\<close>.\<close>

definition one_arg :: "unit client" where
  "one_arg = \<lparr>upt = [VPN UTEXT \<mapsto> (0, PTE_D)], upd = (\<lambda>_. True), frames = (\<lambda>_ i. if i = 0 then 0x6c else if i = 1 then 0x73 else 0),
     nframe = 1, fsipcbuf = (\<lambda>_. 0), csrv = ()\<rparr>"

lemma one_arg_memory: "distinct_bytes (addrs UTEXT 3) {} one_arg" "addrs UTEXT 3 \<inter> addrs UTEMP 4096 = {}"
  "VPN UTEXT = 1024" "VPN (UTEXT + 1) = 1024" "VPN (UTEXT + 2) = 1024"
  "pgoff UTEXT = 0" "pgoff (UTEXT + 1) = 1" "pgoff (UTEXT + 2) = 2"
proof -
  have S: "addrs UTEXT 3 = {UTEXT, UTEXT + 1, UTEXT + 2}" by (simp add: addrs_Suc numeral_3_eq_3) (simp add: addrs_def)
  show pages: "VPN UTEXT = 1024" "VPN (UTEXT + 1) = 1024" "VPN (UTEXT + 2) = 1024"
    "pgoff UTEXT = 0" "pgoff (UTEXT + 1) = 1" "pgoff (UTEXT + 2) = 2"
    by (simp_all add: VPN_def pgoff_def)
  show "distinct_bytes (addrs UTEXT 3) {} one_arg"
    using pages unfolding distinct_bytes_def S by (auto simp: one_arg_def uloc_def)
  have "VPN a = 1022" if "a \<in> addrs UTEMP 4096" for a
    using that utemp_offset(1) unfolding addrs_def by (auto simp: VPN_def)
  moreover have "VPN a = 1024" if "a \<in> addrs UTEXT 3" for a
    using that pages unfolding S by auto
  ultimately show "addrs UTEXT 3 \<inter> addrs UTEMP 4096 = {}" by fastforce
qed

theorem spawn_arguments_witness:
  "\<exists>sp x. init_stack [UTEXT] (one_arg, Some new_kid) = Some (0, sp, x) \<and> args_found (kid_byte x) sp [[0x6c, 0x73]] \<and>
    upt (fst x) = (upt one_arg)(VPN UTEMP := None)"
proof (rule spawn_arguments [of "addrs UTEXT 3"])
  show "distinct_bytes (addrs UTEXT 3) {} one_arg" "addrs UTEXT 3 \<inter> addrs UTEMP 4096 = {}"
    by (rule one_arg_memory)+
  show "args_at (addrs UTEXT 3) {} (uview (addrs UTEXT 3) one_arg) [UTEXT] [[0x6c, 0x73]]"
    using one_arg_memory(3-8) by (simp add: arg_at_def uview_def ubyte_def one_arg_def numeral_3_eq_3 addrs_Suc)
  show "fr < nframe one_arg" if "upt one_arg p = Some (fr, perm)" for p fr perm
    using that by (auto simp: one_arg_def split: if_splits)
  show "(length (blob [[0x6c, 0x73]]) + 3) div 4 * 4 + 4 * (length [[0x6c, 0x73 :: u8]] + 3) \<le> 4096" by simp
qed

end
