(* ===== verification/Pipe.thy ===== *)
theory Pipe
  imports Fd "HOL-Library.Sublist"
begin

text \<open>
  \<^verbatim>\<open>user/lib/pipe.c\<close>. Creating and closing a pipe are functions on the address space of the process
  (theory \<open>Fd\<close>). Reading and writing are run by two processes at once, which the timer may switch
  between any two instructions: they are programs with a program counter, one step for every
  access to the shared \<^verbatim>\<open>struct Pipe\<close>, and \<open>pipe_step\<close> interleaves their steps. The two page
  counts of \<^verbatim>\<open>_pipe_is_closed\<close> are read in one step, which its loop on \<^verbatim>\<open>env_runs\<close> provides.
\<close>

section \<open>Creating and closing\<close>

definition devpipe_id :: u32 where [simp]: "devpipe_id = 112"

text \<open>The result and \<^verbatim>\<open>pfd\<close>. The calls that undo after an error ignore their results.\<close>

definition pipe :: "'x uproc_scheme \<Rightarrow> (int \<times> (u32 \<times> u32) \<times> 'x uproc_scheme) option" where
  "pipe s =
     (let (r, fd0) = fd_alloc s in
      if r < 0 then Some (r, (0, 0), s)
      else
        let (r, s) = u_mem_alloc fd0 (PTE_D OR PTE_LIBRARY) s in
        if r < 0 then Some (r, (0, 0), s)
        else
          let (r, fd1) = fd_alloc s;
              (r, s) = (if r < 0 then (r, s) else u_mem_alloc fd1 (PTE_D OR PTE_LIBRARY) s) in
          if r < 0 then Some (r, (0, 0), snd (u_mem_unmap fd0 s))
          else
            let va = fd2data fd0;
                (r, s) = u_mem_alloc va (PTE_D OR PTE_LIBRARY) s in
            if r < 0 then Some (r, (0, 0), snd (u_mem_unmap fd0 (snd (u_mem_unmap fd1 s))))
            else
              let (r, s) = u_mem_map va (fd2data fd1) (PTE_D OR PTE_LIBRARY) s in
              if r < 0
              then Some (r, (0, 0),
                snd (u_mem_unmap fd0 (snd (u_mem_unmap fd1 (snd (u_mem_unmap va s))))))
              else do {
                s \<leftarrow> ust32 (fd0 + fd_dev_id) devpipe_id s;
                s \<leftarrow> ust32 (fd0 + fd_omode) O_RDONLY s;
                s \<leftarrow> ust32 (fd1 + fd_dev_id) devpipe_id s;
                s \<leftarrow> ust32 (fd1 + fd_omode) O_WRONLY s;
                Some (0, (fd2num fd0, fd2num fd1), s) })"

definition pipe_close :: "u32 \<Rightarrow> 'x uproc_scheme \<Rightarrow> (int \<times> 'x uproc_scheme) option" where
  "pipe_close fd s =
     (let s = snd (u_mem_unmap fd s);
          s = snd (u_mem_unmap (fd2data fd) s)
      in Some (0, s))"

definition pipe_stat :: "u32 \<Rightarrow> u32 \<Rightarrow> 'x uproc_scheme \<Rightarrow> (int \<times> 'x uproc_scheme) option" where
  "pipe_stat fd stat s = Some (0, s)"

section \<open>The shared buffer\<close>

definition PIPE_SIZE :: u32 where [simp]: "PIPE_SIZE = 32"

record pipe_buf =
  p_rpos :: u32
  p_wpos :: u32
  p_buf :: "nat \<Rightarrow> u8"

text \<open>
  Where a process is in \<^verbatim>\<open>pipe_read\<close> or \<^verbatim>\<open>pipe_write\<close>: at the head of the \<^verbatim>\<open>for\<close> loop, at the test of
  the \<^verbatim>\<open>while\<close> loop, at the call of \<^verbatim>\<open>_pipe_is_closed\<close>, about to move the byte, about to advance the
  position; or outside, having returned \<open>Done r\<close>.
\<close>

datatype pc = For | Full_test | Closed_test | Move | Advance | Done int

text \<open>
  The local variables of the two calls, the numbers of mappings of the pages of the two
  descriptors, and two histories: all bytes the writer put in, all bytes the reader took out.
\<close>

record pipes =
  ring :: pipe_buf
  r_pc :: pc
  r_n :: u32
  r_i :: u32
  r_vbuf :: "u8 list"
  w_pc :: pc
  w_n :: u32
  w_i :: u32
  w_vbuf :: "u8 list"
  rd_refs :: nat
  wr_refs :: nat
  sent :: "u8 list"
  got :: "u8 list"

text \<open>The page of the pipe is mapped once with each mapping of either descriptor.\<close>

definition pipe_closed :: "nat \<Rightarrow> nat \<Rightarrow> bool" where
  "pipe_closed fd_ref pipe_ref \<longleftrightarrow> fd_ref = pipe_ref"

text \<open>
  \<^verbatim>\<open>pageref\<close> and \<^verbatim>\<open>pipe_is_closed\<close> in one process; \<open>ref fr\<close> is the \<^verbatim>\<open>pp_ref\<close> of the page in frame \<open>fr\<close>. The call that
  brings a swapped page back leaves what the process sees unchanged (theory \<open>Transparency\<close>).
\<close>

definition upageref :: "(nat \<Rightarrow> nat) \<Rightarrow> u32 \<Rightarrow> 'x uproc_scheme \<Rightarrow> nat" where
  "upageref ref v s =
     (if \<not> upd s (PDX v) then 0
      else (case upt s (VPN v) of None \<Rightarrow> 0 | Some (fr, _) \<Rightarrow> ref fr))"

definition pipe_is_closed :: "(nat \<Rightarrow> nat) \<Rightarrow> int \<Rightarrow> 'x uproc_scheme \<Rightarrow> int" where
  "pipe_is_closed ref fdnum s =
     (let (r, fd) = fd_lookup fdnum s in
      if r < 0 then r
      else if pipe_closed (upageref ref fd s) (upageref ref (fd2data fd) s) then 1 else 0)"

definition pipe_read_step :: "pipes \<Rightarrow> pipes" where
  "pipe_read_step s =
     (case r_pc s of
        For \<Rightarrow> if r_i s < r_n s then s\<lparr>r_pc := Full_test\<rparr>
               else s\<lparr>r_pc := Done (sint (r_i s))\<rparr>
      | Full_test \<Rightarrow> if p_rpos (ring s) \<ge> p_wpos (ring s) then s\<lparr>r_pc := Closed_test\<rparr>
                     else s\<lparr>r_pc := Move\<rparr>
      | Closed_test \<Rightarrow>
          if pipe_closed (rd_refs s) (rd_refs s + wr_refs s)
          then s\<lparr>r_pc := Done (sint (r_i s))\<rparr>
          else s\<lparr>r_pc := Full_test\<rparr>
      | Move \<Rightarrow>
          s\<lparr>r_vbuf := r_vbuf s @ [p_buf (ring s) (unat (p_rpos (ring s) mod PIPE_SIZE))],
            r_pc := Advance\<rparr>
      | Advance \<Rightarrow>
          s\<lparr>ring := (ring s)\<lparr>p_rpos := p_rpos (ring s) + 1\<rparr>, r_i := r_i s + 1, r_pc := For,
            got := got s @ [last (r_vbuf s)]\<rparr>
      | Done r \<Rightarrow> s)"

definition pipe_write_step :: "pipes \<Rightarrow> pipes" where
  "pipe_write_step s =
     (case w_pc s of
        For \<Rightarrow> if w_i s < w_n s then s\<lparr>w_pc := Full_test\<rparr> else s\<lparr>w_pc := Done (sint (w_n s))\<rparr>
      | Full_test \<Rightarrow>
          if p_wpos (ring s) - p_rpos (ring s) \<ge> PIPE_SIZE then s\<lparr>w_pc := Closed_test\<rparr>
          else s\<lparr>w_pc := Move\<rparr>
      | Closed_test \<Rightarrow>
          if pipe_closed (wr_refs s) (rd_refs s + wr_refs s)
          then s\<lparr>w_pc := Done (sint (w_i s))\<rparr>
          else s\<lparr>w_pc := Full_test\<rparr>
      | Move \<Rightarrow>
          s\<lparr>ring := (ring s)\<lparr>p_buf := (p_buf (ring s))
              (unat (p_wpos (ring s) mod PIPE_SIZE) := w_vbuf s ! unat (w_i s))\<rparr>,
            w_pc := Advance\<rparr>
      | Advance \<Rightarrow>
          s\<lparr>ring := (ring s)\<lparr>p_wpos := p_wpos (ring s) + 1\<rparr>, w_i := w_i s + 1, w_pc := For,
            sent := sent s @ [w_vbuf s ! unat (w_i s)]\<rparr>
      | Done r \<Rightarrow> s)"

definition pipe_read_call :: "u32 \<Rightarrow> pipes \<Rightarrow> pipes" where
  "pipe_read_call n s = s\<lparr>r_pc := For, r_n := n, r_i := 0, r_vbuf := []\<rparr>"

definition pipe_write_call :: "u8 list \<Rightarrow> pipes \<Rightarrow> pipes" where
  "pipe_write_call bs s =
     s\<lparr>w_pc := For, w_n := word_of_nat (length bs), w_i := 0, w_vbuf := bs\<rparr>"

definition is_done :: "pc \<Rightarrow> bool" where
  "is_done p \<longleftrightarrow> (case p of Done _ \<Rightarrow> True | _ \<Rightarrow> False)"

text \<open>The state \<^verbatim>\<open>pipe\<close> leaves, with one process keeping each end.\<close>

definition pipe_init :: pipes where
  "pipe_init = \<lparr>ring = \<lparr>p_rpos = 0, p_wpos = 0, p_buf = (\<lambda>_. 0)\<rparr>,
     r_pc = Done 0, r_n = 0, r_i = 0, r_vbuf = [], w_pc = Done 0, w_n = 0, w_i = 0, w_vbuf = [],
     rd_refs = 1, wr_refs = 1, sent = [], got = []\<rparr>"

text \<open>
  One step: of either call, the start of a call, or a process outside a call closing its end.
\<close>

inductive pipe_step :: "pipes \<Rightarrow> pipes \<Rightarrow> bool" where
  reader: "pipe_step s (pipe_read_step s)"
| writer: "pipe_step s (pipe_write_step s)"
| read_call: "is_done (r_pc s) \<Longrightarrow> rd_refs s > 0 \<Longrightarrow> pipe_step s (pipe_read_call n s)"
| write_call: "is_done (w_pc s) \<Longrightarrow> wr_refs s > 0 \<Longrightarrow> length bs < 2 ^ 31 \<Longrightarrow>
    pipe_step s (pipe_write_call bs s)"
| close_read: "is_done (r_pc s) \<Longrightarrow> pipe_step s (s\<lparr>rd_refs := 0\<rparr>)"
| close_write: "is_done (w_pc s) \<Longrightarrow> pipe_step s (s\<lparr>wr_refs := 0\<rparr>)"

inductive pipe_reach :: "pipes \<Rightarrow> bool" where
  init: "pipe_reach pipe_init"
| step: "pipe_reach s \<Longrightarrow> pipe_step s t \<Longrightarrow> pipe_reach t"

inductive_cases pipe_stepE: "pipe_step s t"

section \<open>The invariant\<close>

definition pipe_core :: "pipes \<Rightarrow> bool" where
  "pipe_core s \<longleftrightarrow>
     p_wpos (ring s) = word_of_nat (length (sent s)) \<and>
     p_rpos (ring s) = word_of_nat (length (got s)) \<and>
     length (got s) \<le> length (sent s) \<and> length (sent s) \<le> length (got s) + 32 \<and>
     prefix (got s) (sent s) \<and>
     (\<forall>k. length (got s) \<le> k \<and> k < length (sent s) \<longrightarrow> p_buf (ring s) (k mod 32) = sent s ! k) \<and>
     (r_pc s \<in> {Move, Advance} \<longrightarrow> length (got s) < length (sent s)) \<and>
     (r_pc s = Advance \<longrightarrow>
        r_vbuf s \<noteq> [] \<and> last (r_vbuf s) = sent s ! length (got s) \<and>
        suffix (butlast (r_vbuf s)) (got s)) \<and>
     (r_pc s \<noteq> Advance \<longrightarrow> suffix (r_vbuf s) (got s)) \<and>
     (w_pc s \<in> {Move, Advance} \<longrightarrow> length (sent s) < length (got s) + 32) \<and>
     (w_pc s = Advance \<longrightarrow>
        p_buf (ring s) (length (sent s) mod 32) = w_vbuf s ! unat (w_i s))"

lemma pos_mod: "n < 2 ^ 32 \<Longrightarrow> unat ((word_of_nat n :: u32) mod 32) = n mod 32"
  by (simp add: unat_mod unat_of_nat)

lemma pos_le: "m < 2 ^ 32 \<Longrightarrow> n < 2 ^ 32 \<Longrightarrow> (word_of_nat m \<le> (word_of_nat n :: u32)) = (m \<le> n)"
  by (simp add: word_le_nat_alt unat_of_nat)

lemma pos_diff:
  assumes "n \<le> m" "m < 2 ^ 32"
  shows "((word_of_nat m :: u32) - word_of_nat n \<ge> 32) = (m - n \<ge> 32)"
proof -
  have "(word_of_nat m :: u32) - word_of_nat n = word_of_nat (m - n)" using assms by simp
  then show ?thesis using assms pos_le [of 32 "m - n"] by simp
qed

lemma mod_32_neq:
  fixes k m :: nat
  assumes "k < m" "m < k + 32"
  shows "k mod 32 \<noteq> m mod 32"
proof
  assume "k mod 32 = m mod 32"
  then have "(m - k) mod 32 = 0" using assms mod_eq_dvd_iff_nat [of k m 32] by auto
  then show False using assms by (auto simp: mod_eq_0_iff_dvd dest: dvd_imp_le)
qed

lemma prefix_snoc_nth: "prefix xs ys \<Longrightarrow> length xs < length ys \<Longrightarrow> prefix (xs @ [ys ! length xs]) ys"
  by (auto simp: prefix_def nth_append) (metis neq_Nil_conv nth_Cons_0)

lemma reader_core:
  assumes "pipe_core s" "length (sent s) < 2 ^ 32"
  shows "pipe_core (pipe_read_step s)"
proof (cases "r_pc s")
  case Full_test
  have "(p_rpos (ring s) \<ge> p_wpos (ring s)) = (length (got s) \<ge> length (sent s))"
    using assms by (simp add: pipe_core_def pos_le)
  then show ?thesis using assms Full_test by (auto simp: pipe_core_def pipe_read_step_def)
next
  case Move
  have "unat (p_rpos (ring s) mod 32) = length (got s) mod 32"
    using assms by (simp add: pipe_core_def pos_mod)
  then show ?thesis using assms Move by (simp add: pipe_core_def pipe_read_step_def)
next
  case Advance
  have "prefix (got s @ [last (r_vbuf s)]) (sent s)" "suffix (r_vbuf s) (got s @ [last (r_vbuf s)])"
  proof -
    show "prefix (got s @ [last (r_vbuf s)]) (sent s)"
      using assms Advance prefix_snoc_nth [of "got s" "sent s"] by (simp add: pipe_core_def)
    obtain pre where "got s = pre @ butlast (r_vbuf s)" "r_vbuf s \<noteq> []"
      using assms Advance by (auto simp: pipe_core_def suffix_def)
    then have "got s @ [last (r_vbuf s)] = pre @ r_vbuf s" by simp
    then show "suffix (r_vbuf s) (got s @ [last (r_vbuf s)])" by (auto simp: suffix_def)
  qed
  then show ?thesis using assms Advance
    by (simp add: pipe_core_def pipe_read_step_def add.commute)
qed (use assms in \<open>simp_all add: pipe_core_def pipe_read_step_def\<close>)

lemma writer_core:
  assumes "pipe_core s" "length (sent s) < 2 ^ 32"
  shows "pipe_core (pipe_write_step s)"
proof (cases "w_pc s")
  case Full_test
  have "(p_wpos (ring s) - p_rpos (ring s) \<ge> 32) = (length (sent s) - length (got s) \<ge> 32)"
    using assms by (simp add: pipe_core_def pos_diff)
  then show ?thesis using assms Full_test by (auto simp: pipe_core_def pipe_write_step_def)
next
  case Move
  have "unat (p_wpos (ring s) mod 32) = length (sent s) mod 32"
    using assms by (simp add: pipe_core_def pos_mod)
  moreover have "k mod 32 \<noteq> length (sent s) mod 32"
    if "length (got s) \<le> k" "k < length (sent s)" for k
    using that assms Move by (intro mod_32_neq) (auto simp: pipe_core_def)
  ultimately show ?thesis using assms Move by (simp add: pipe_core_def pipe_write_step_def)
next
  case Advance
  have "prefix (got s) (sent s @ [x])" for x using assms by (auto simp: pipe_core_def prefix_def)
  then show ?thesis using assms Advance
    by (auto simp: pipe_core_def pipe_write_step_def nth_append add.commute less_Suc_eq)
qed (use assms in \<open>simp_all add: pipe_core_def pipe_write_step_def\<close>)

lemma call_core:
  assumes "pipe_core s"
  shows "is_done (r_pc s) \<Longrightarrow> pipe_core (pipe_read_call n s)"
    "is_done (w_pc s) \<Longrightarrow> pipe_core (pipe_write_call bs s)"
    "pipe_core (s\<lparr>rd_refs := x\<rparr>)" "pipe_core (s\<lparr>wr_refs := x\<rparr>)"
  using assms by (auto simp: pipe_core_def pipe_read_call_def pipe_write_call_def)

lemma sent_mono: "pipe_step s t \<Longrightarrow> length (sent s) \<le> length (sent t)"
  by (erule pipe_stepE)
    (auto simp: pipe_read_step_def pipe_write_step_def pipe_read_call_def pipe_write_call_def
      split: pc.splits if_splits)

lemma step_core:
  assumes "pipe_step s t" "pipe_core s" "length (sent s) < 2 ^ 32"
  shows "pipe_core t"
  using assms by (cases rule: pipe_step.cases) (auto intro: reader_core writer_core call_core)

lemma reach_core: "pipe_reach s \<Longrightarrow> length (sent s) < 2 ^ 32 \<Longrightarrow> pipe_core s"
proof (induction rule: pipe_reach.induct)
  case init
  show ?case by (simp add: pipe_core_def pipe_init_def)
next
  case (step s t)
  then show ?case using sent_mono [of s t] step_core [of s t] by simp
qed

section \<open>A reader whose writer is gone\<close>

lemma read_steps_For:
  assumes "r_pc s = For" "\<not> r_i s < r_n s"
  shows "(pipe_read_step ^^ 1) s = s\<lparr>r_pc := Done (sint (r_i s))\<rparr>"
  using assms by (simp add: pipe_read_step_def)

lemma read_steps_empty:
  assumes "r_pc s = For" "r_i s < r_n s" "p_rpos (ring s) \<ge> p_wpos (ring s)" "wr_refs s = 0"
  shows "(pipe_read_step ^^ 3) s = s\<lparr>r_pc := Done (sint (r_i s))\<rparr>"
  using assms by (simp add: pipe_read_step_def eval_nat_numeral pipe_closed_def)

lemma read_steps_byte:
  assumes "r_pc s = For" "r_i s < r_n s" "p_rpos (ring s) < p_wpos (ring s)"
  shows "(pipe_read_step ^^ 4) s =
    (let b = p_buf (ring s) (unat (p_rpos (ring s) mod PIPE_SIZE)) in
     s\<lparr>ring := (ring s)\<lparr>p_rpos := p_rpos (ring s) + 1\<rparr>, r_i := r_i s + 1,
       r_vbuf := r_vbuf s @ [b], got := got s @ [b]\<rparr>)"
  using assms by (simp add: pipe_read_step_def eval_nat_numeral Let_def not_le [symmetric])

lemma funpow_after: "(f ^^ m) ((f ^^ k) s) = (f ^^ (m + k)) s"
  by (simp add: funpow_add)

lemma core_order:
  "pipe_core s \<Longrightarrow> length (sent s) < 2 ^ 32 \<Longrightarrow>
    (p_rpos (ring s) < p_wpos (ring s)) = (length (got s) < length (sent s))"
  using pos_le [of "length (sent s)" "length (got s)"]
  by (auto simp: pipe_core_def not_le [symmetric])

definition avail :: "pipes \<Rightarrow> nat" where
  "avail s = min (unat (r_n s - r_i s)) (length (sent s) - length (got s))"

definition reads_to :: "nat \<Rightarrow> pipes \<Rightarrow> pipes \<Rightarrow> bool" where
  "reads_to m s t \<longleftrightarrow> pipe_core t \<and> r_pc t = Done (sint (r_i s + word_of_nat m)) \<and>
     sent t = sent s \<and> length (got t) = length (got s) + m \<and>
     length (r_vbuf t) = length (r_vbuf s) + m"

lemma done_reads_to:
  "pipe_core s \<Longrightarrow> r_pc s = For \<Longrightarrow> reads_to 0 s (s\<lparr>r_pc := Done (sint (r_i s))\<rparr>)"
  by (auto simp: reads_to_def pipe_core_def)

lemma read_core_steps:
  assumes "pipe_core s" "length (sent s) < 2 ^ 32"
  shows "pipe_core ((pipe_read_step ^^ j) s) \<and> sent ((pipe_read_step ^^ j) s) = sent s"
proof (induction j)
  case (Suc j)
  have "sent (pipe_read_step x) = sent x" for x
    by (simp add: pipe_read_step_def split: pc.split)
  then show ?case using Suc reader_core assms by simp
qed (use assms in simp)

lemma read_all:
  assumes "pipe_core s" "length (sent s) < 2 ^ 32" "r_pc s = For" "wr_refs s = 0" "r_i s \<le> r_n s"
  shows "\<exists>k. reads_to (avail s) s ((pipe_read_step ^^ k) s)"
  using assms
proof (induction "unat (r_n s - r_i s)" arbitrary: s)
  case 0
  then have "r_n s = r_i s" by (simp add: unat_eq_zero)
  then have "(pipe_read_step ^^ 1) s = s\<lparr>r_pc := Done (sint (r_i s))\<rparr>"
    by (intro read_steps_For) (use 0 in simp_all)
  moreover have "avail s = 0" using \<open>r_n s = r_i s\<close> by (simp add: avail_def)
  ultimately show ?case using 0 done_reads_to [of s] by (intro exI [of _ 1]) simp
next
  case (Suc m)
  then have lt: "r_i s < r_n s" by (metis le_neq_trans diff_self unat_0 nat.distinct(1))
  note ord = core_order [OF Suc.prems(1,2)]
  show ?case
  proof (cases "length (got s) < length (sent s)")
    case False
    then have "(pipe_read_step ^^ 3) s = s\<lparr>r_pc := Done (sint (r_i s))\<rparr>" "avail s = 0"
      using Suc.prems lt ord by (auto simp: read_steps_empty not_less avail_def)
    then show ?thesis using Suc.prems done_reads_to [of s] by (intro exI [of _ 3]) simp
  next
    case True
    define u where "u = (pipe_read_step ^^ 4) s"
    have u: "r_pc u = For" "wr_refs u = 0" "r_n u = r_n s" "r_i u = r_i s + 1" "sent u = sent s"
      "length (got u) = Suc (length (got s))" "length (r_vbuf u) = Suc (length (r_vbuf s))"
      using True Suc.prems lt ord by (simp_all add: u_def read_steps_byte Let_def)
    have m: "unat (r_n s - (r_i s + 1)) = m"
      using \<open>Suc m = unat (r_n s - r_i s)\<close>
      by (metis diff_Suc_1 diff_diff_add unat_minus_one unat_eq_zero nat.distinct(1))
    have "\<exists>k. reads_to (avail u) u ((pipe_read_step ^^ k) u)"
      by (rule Suc.hyps(1))
        (use m u read_core_steps [OF Suc.prems(1,2), of 4] Suc.prems inc_le [OF lt] in
          \<open>simp_all add: u_def\<close>)
    then obtain k where "reads_to (avail u) u ((pipe_read_step ^^ k) u)" by blast
    moreover have "avail s = Suc (avail u)"
      using m True by (simp add: u avail_def flip: \<open>Suc m = _\<close>)
    ultimately have "reads_to (avail s) s ((pipe_read_step ^^ k) u)"
      using u by (simp add: reads_to_def add.assoc)
    then show ?thesis by (intro exI [of _ "k + 4"]) (simp add: u_def funpow_after)
  qed
qed

lemma sint_of_nat:
  assumes "m < 2 ^ 31"
  shows "sint (word_of_nat m :: u32) = int m"
proof -
  have "sint (word_of_nat m :: u32) = signed_take_bit 31 (int m)" by transfer simp
  then show ?thesis using assms by (simp add: signed_take_bit_int_eq_self)
qed

lemma suffix_prefix_slice:
  assumes "suffix v g" "prefix g xs" "length g = k + length v"
  shows "v = take (length v) (drop k xs)"
  using assms by (auto simp: suffix_def prefix_def)

section \<open>Runs\<close>

lemma reach_reader: "pipe_reach s \<Longrightarrow> pipe_reach ((pipe_read_step ^^ k) s)"
  by (induction k) (auto intro: pipe_reach.step pipe_step.reader)

lemma reach_writer: "pipe_reach s \<Longrightarrow> pipe_reach ((pipe_write_step ^^ k) s)"
  by (induction k) (auto intro: pipe_reach.step pipe_step.writer)

lemma reach_read_call:
  "pipe_reach s \<Longrightarrow> is_done (r_pc s) \<Longrightarrow> rd_refs s > 0 \<Longrightarrow> pipe_reach (pipe_read_call n s)"
  by (auto intro: pipe_reach.step pipe_step.read_call)

lemma reach_write_call:
  "pipe_reach s \<Longrightarrow> is_done (w_pc s) \<Longrightarrow> wr_refs s > 0 \<Longrightarrow> length bs < 2 ^ 31 \<Longrightarrow>
    pipe_reach (pipe_write_call bs s)"
  by (rule pipe_reach.step, assumption, rule pipe_step.write_call)

text \<open>A call that writes one byte into a pipe with room, and one that reads a byte.\<close>

lemma write_one:
  assumes "p_wpos (ring s) - p_rpos (ring s) < PIPE_SIZE"
  shows "(pipe_write_step ^^ 5) (pipe_write_call [b] s) =
    s\<lparr>ring := (ring s)\<lparr>p_buf := (p_buf (ring s))(unat (p_wpos (ring s) mod PIPE_SIZE) := b),
        p_wpos := p_wpos (ring s) + 1\<rparr>,
      w_pc := Done 1, w_n := 1, w_i := 1, w_vbuf := [b], sent := sent s @ [b]\<rparr>"
  using assms
  by (simp add: eval_nat_numeral pipe_write_step_def pipe_write_call_def not_le [symmetric])

lemma read_one:
  assumes "p_rpos (ring s) < p_wpos (ring s)"
  shows "(pipe_read_step ^^ 5) (pipe_read_call 1 s) =
    (let b = p_buf (ring s) (unat (p_rpos (ring s) mod PIPE_SIZE)) in
     s\<lparr>ring := (ring s)\<lparr>p_rpos := p_rpos (ring s) + 1\<rparr>,
       r_pc := Done 1, r_n := 1, r_i := 1, r_vbuf := [b], got := got s @ [b]\<rparr>)"
  using assms
  by (simp add: eval_nat_numeral pipe_read_step_def pipe_read_call_def Let_def not_le [symmetric])

definition quiet :: "nat \<Rightarrow> pipes \<Rightarrow> bool" where
  "quiet k s \<longleftrightarrow> pipe_reach s \<and> is_done (r_pc s) \<and> is_done (w_pc s) \<and> rd_refs s = 1 \<and>
     wr_refs s = 1 \<and> p_rpos (ring s) = word_of_nat k \<and> p_wpos (ring s) = word_of_nat k \<and>
     length (sent s) = k \<and> length (got s) = k"

lemma quiet_Suc:
  assumes "quiet k s" "Suc k < 2 ^ 32"
  shows "\<exists>t. quiet (Suc k) t"
proof -
  define u where "u = (pipe_write_step ^^ 5) (pipe_write_call [0] s)"
  define t where "t = (pipe_read_step ^^ 5) (pipe_read_call 1 u)"
  have u: "pipe_reach u"
    unfolding u_def using assms(1)
    by (intro reach_writer reach_write_call) (simp_all add: quiet_def)
  have ueq: "u = s\<lparr>ring := (ring s)
      \<lparr>p_buf := (p_buf (ring s))(unat (p_wpos (ring s) mod PIPE_SIZE) := 0),
        p_wpos := p_wpos (ring s) + 1\<rparr>,
      w_pc := Done 1, w_n := 1, w_i := 1, w_vbuf := [0], sent := sent s @ [0]\<rparr>"
    unfolding u_def by (rule write_one) (use assms(1) in \<open>simp add: quiet_def\<close>)
  have "(word_of_nat k :: u32) < word_of_nat k + 1"
    using assms(2) pos_le [of "Suc k" k] by (simp add: not_le [symmetric] add.commute)
  then have lt: "p_rpos (ring u) < p_wpos (ring u)" using assms(1) by (simp add: ueq quiet_def)
  have "pipe_reach t"
    unfolding t_def using u assms(1)
    by (intro reach_reader reach_read_call) (simp_all add: ueq quiet_def)
  then have "quiet (Suc k) t"
    using read_one [OF lt] assms(1)
    by (simp add: t_def quiet_def ueq Let_def is_done_def add.commute)
  then show ?thesis by blast
qed

lemma quiet_exists: "k < 2 ^ 32 \<Longrightarrow> \<exists>s. quiet k s"
proof (induction k)
  case 0
  have "quiet 0 pipe_init"
    unfolding quiet_def by (rule conjI [OF pipe_reach.init]) (simp add: pipe_init_def is_done_def)
  then show ?case by blast
next
  case (Suc k)
  then obtain s where "quiet k s" by auto
  then show ?case using quiet_Suc Suc.prems by blast
qed

lemma read_blocked:
  assumes "r_pc s \<in> {Full_test, Closed_test}" "p_rpos (ring s) \<ge> p_wpos (ring s)" "wr_refs s > 0"
  shows "r_pc ((pipe_read_step ^^ k) s) \<in> {Full_test, Closed_test} \<and>
    ring ((pipe_read_step ^^ k) s) = ring s \<and> wr_refs ((pipe_read_step ^^ k) s) = wr_refs s"
  using assms by (induction k) (auto simp: pipe_read_step_def pipe_closed_def)

section \<open>Properties\<close>

text \<open>
  C15. A pipe is a FIFO of at most \<^verbatim>\<open>PIPE_SIZE\<close> bytes under every interleaving of a reader and a
  writer: what was read is a prefix of what was written, at most 32 bytes lie between, and what a
  finished \<^verbatim>\<open>pipe_read\<close> left in its buffer are the last bytes read. It holds as long as fewer than
  \<open>2 ^ 32\<close> bytes went through, which is when the positions wrap.
\<close>

theorem pipe_fifo:
  assumes "pipe_reach s" "length (sent s) < 2 ^ 32"
  shows "prefix (got s) (sent s) \<and> length (sent s) \<le> length (got s) + unat PIPE_SIZE \<and>
    (is_done (r_pc s) \<longrightarrow> suffix (r_vbuf s) (got s))"
  using reach_core [OF assms] by (auto simp: pipe_core_def is_done_def)

text \<open>
  C16. When all writers have closed, a call of \<^verbatim>\<open>pipe_read\<close> returns: it has the next bytes of what was
  written, \<open>n\<close> of them or all that are left, and returns their number.
\<close>

theorem pipe_read_eof:
  assumes "pipe_reach s" "length (sent s) < 2 ^ 32" "wr_refs s = 0" "is_done (r_pc s)" "n < 2 ^ 31"
  shows "\<exists>k. let t = (pipe_read_step ^^ k) (pipe_read_call n s);
                 m = min (unat n) (length (sent s) - length (got s))
             in r_pc t = Done (int m) \<and> r_vbuf t = take m (drop (length (got s)) (sent s))"
proof -
  define u where "u = pipe_read_call n s"
  have u: "pipe_core u" "length (sent u) < 2 ^ 32" "r_pc u = For" "wr_refs u = 0" "r_i u \<le> r_n u"
    and f: "sent u = sent s" "got u = got s" "r_vbuf u = []" "r_i u = 0" "r_n u = n"
    using call_core(1) [OF reach_core] assms by (auto simp: u_def pipe_read_call_def)
  obtain k where k: "reads_to (avail u) u ((pipe_read_step ^^ k) u)" using read_all [OF u] by blast
  define t where "t = (pipe_read_step ^^ k) u"
  define m where "m = min (unat n) (length (sent s) - length (got s))"
  have m: "avail u = m" "m < 2 ^ 31"
    using assms(5) by (simp_all add: avail_def f m_def word_less_nat_alt min_less_iff_disj)
  have "sint (word_of_nat m :: u32) = int m"
    using m sint_of_nat [of m] by simp
  then have t: "r_pc t = Done (int m)" "length (r_vbuf t) = m" "length (got t) = length (got s) + m"
    "suffix (r_vbuf t) (got t)" "prefix (got t) (sent s)"
    using k m by (auto simp: reads_to_def t_def f pipe_core_def)
  then have "r_vbuf t = take m (drop (length (got s)) (sent s))"
    using suffix_prefix_slice [of "r_vbuf t" "got t" "sent s" "length (got s)"] by simp
  then show ?thesis using t(1) by (intro exI [of _ k]) (simp add: t_def u_def m_def Let_def)
qed

definition ex_pipe :: pipes where
  "ex_pipe = (pipe_write_step ^^ 5) (pipe_write_call [65] pipe_init)"

lemma ex_pipe:
  "pipe_reach ex_pipe" "sent ex_pipe = [65]" "got ex_pipe = []" "is_done (r_pc ex_pipe)"
  "is_done (w_pc ex_pipe)"
proof -
  have "pipe_reach (pipe_write_call [65] pipe_init)"
    by (rule reach_write_call) (simp_all add: pipe_reach.init, simp_all add: pipe_init_def is_done_def)
  then show "pipe_reach ex_pipe" by (simp add: ex_pipe_def reach_writer)
qed (simp_all add: ex_pipe_def write_one pipe_init_def is_done_def)

lemma ex_pipe_closed: "pipe_reach (ex_pipe\<lparr>wr_refs := 0\<rparr>)"
  by (rule pipe_reach.step [OF ex_pipe(1)]) (rule pipe_step.close_write [OF ex_pipe(5)])

theorem pipe_fifo_witness: "prefix [] [65 :: u8] \<and> length (sent ex_pipe) \<le> length (got ex_pipe) + 32"
  using pipe_fifo [OF ex_pipe(1)] by (simp add: ex_pipe)

theorem pipe_read_eof_witness:
  "\<exists>k. r_pc ((pipe_read_step ^^ k) (pipe_read_call 3 (ex_pipe\<lparr>wr_refs := 0\<rparr>))) = Done 1"
  using pipe_read_eof [OF ex_pipe_closed, of 3] by (auto simp: ex_pipe Let_def)

text \<open>
  C17. The test for an empty buffer and the test for a closed pipe are not one step: a reader that saw
  the buffer empty, lost the processor to a writer that writes a byte and closes, and then sees the
  pipe closed, returns 0, the end of the file, although a byte is left.
\<close>

theorem pipe_read_race:
  "\<exists>s. pipe_reach s \<and> r_n s = 1 \<and> r_pc s = Done 0 \<and> wr_refs s = 0 \<and> sent s = [65] \<and> got s = []"
proof -
  define a where "a = (pipe_read_step ^^ 2) (pipe_read_call 1 pipe_init)"
  define b where "b = (pipe_write_step ^^ 5) (pipe_write_call [65] a)"
  define c where "c = (pipe_read_step ^^ 1) (b\<lparr>wr_refs := 0\<rparr>)"
  have a: "a = pipe_init\<lparr>r_pc := Closed_test, r_n := 1\<rparr>"
    by (simp add: a_def eval_nat_numeral pipe_read_step_def pipe_read_call_def pipe_init_def)
  have b: "r_pc b = Closed_test" "is_done (w_pc b)" "r_n b = 1" "r_i b = 0" "sent b = [65]" "got b = []"
    by (simp_all add: b_def write_one a pipe_init_def is_done_def)
  have "pipe_reach (pipe_read_call 1 pipe_init)"
    by (rule reach_read_call) (simp_all add: pipe_reach.init, simp_all add: pipe_init_def is_done_def)
  then have "pipe_reach a" by (simp add: a_def reach_reader)
  then have "pipe_reach b"
    unfolding b_def
    by (intro reach_writer reach_write_call) (simp_all add: a pipe_init_def is_done_def)
  then have "pipe_reach (b\<lparr>wr_refs := 0\<rparr>)"
    by (rule pipe_reach.step) (rule pipe_step.close_write [OF b(2)])
  then have "pipe_reach c" by (simp only: c_def reach_reader)
  moreover have "r_n c = 1" "r_pc c = Done 0" "wr_refs c = 0" "sent c = [65]" "got c = []"
    by (simp_all add: c_def b pipe_read_step_def pipe_closed_def)
  ultimately show ?thesis by blast
qed

text \<open>
  C18. The positions are compared after they wrap: when the \<open>2 ^ 32\<close>-th byte has been written and is
  still unread, a read waits for ever although the byte is in the buffer.
\<close>

theorem pipe_wrap_blocks:
  "\<exists>s. pipe_reach s \<and> length (sent s) = 2 ^ 32 \<and> length (got s) < length (sent s) \<and>
     (\<forall>k. \<not> is_done (r_pc ((pipe_read_step ^^ k) s)))"
proof -
  obtain s where s: "quiet (2 ^ 32 - 1) s" using quiet_exists [of "2 ^ 32 - 1"] by auto
  define u where "u = (pipe_write_step ^^ 5) (pipe_write_call [0] s)"
  define v where "v = (pipe_read_step ^^ 1) (pipe_read_call 1 u)"
  have "p_wpos (ring s) - p_rpos (ring s) < PIPE_SIZE" using s by (simp add: quiet_def)
  note ueq = write_one [OF this, of 0, folded u_def]
  have "pipe_reach u"
    unfolding u_def using s by (intro reach_writer reach_write_call) (simp_all add: quiet_def)
  then have "pipe_reach v"
    unfolding v_def using s by (intro reach_reader reach_read_call) (simp_all add: ueq quiet_def)
  moreover have "length (sent v) = 2 ^ 32" "length (got v) < length (sent v)"
    using s by (simp_all add: v_def pipe_read_step_def pipe_read_call_def ueq quiet_def)
  moreover have "\<not> is_done (r_pc ((pipe_read_step ^^ k) v))" for k
    using read_blocked [of v k] s
    by (auto simp: v_def pipe_read_step_def pipe_read_call_def ueq quiet_def is_done_def)
  ultimately show ?thesis by blast
qed

end
