(* ===== verification/Shell.thy ===== *)
theory Shell
  imports Spawn Pipe
begin

text \<open>
  \<^verbatim>\<open>user/sh.c\<close>: the shell's line editor, tokenizer and command parser. The tokenizer and the editor run
  on any byte memory (\<^typ>\<open>'s mem_ops\<close>, theory \<open>CString\<close>); the parser runs on the memory and the
  descriptors of the process (theories \<open>Fd\<close>, \<open>FileClient\<close>, \<open>Pipe\<close>).

  A call of \<^verbatim>\<open>exit\<close> is the outcome \<open>Exited\<close>. What \<^verbatim>\<open>fork\<close> returns in the process that is followed is an
  argument, one value for each call: 0 to follow the child; what \<^verbatim>\<open>syscall_exofork\<close> returns in \<^verbatim>\<open>spawn\<close> is the argument \<open>exo\<close>. \<^verbatim>\<open>argv\<close> is the
  list of the pointers stored in it; a store past its end is \<^term>\<open>None\<close>. Debugging output is left out.
\<close>

section \<open>Tokens\<close>

definition WHITESPACE :: "u8 list" where "WHITESPACE = [32, 9, 13, 10]"
definition SYMBOLS :: "u8 list" where "SYMBOLS = [60, 124, 62, 38, 59, 40, 41]"
definition MAXARGS :: nat where [simp]: "MAXARGS = 128"

text \<open>
  \<^verbatim>\<open>strchr(lit, c)\<close> on a string literal: unlike the standard function, that of \<^verbatim>\<open>lib/string.c\<close> does not
  find the terminator, so the loop over white space stops at the end of the line.
\<close>

definition in_literal :: "u8 list \<Rightarrow> u8 \<Rightarrow> bool" where
  "in_literal lit c \<longleftrightarrow> c \<in> set lit"

partial_function (option) skip_white :: "'s mem_ops \<Rightarrow> u32 \<Rightarrow> 's \<Rightarrow> (u32 \<times> 's) option" where
  "skip_white ops p s = do {
     (c, s) \<leftarrow> ld8 ops p s;
     if in_literal WHITESPACE c then do {
       s \<leftarrow> st8 ops p 0 s;
       skip_white ops (p + 1) s }
     else Some (p, s) }"

partial_function (option) word_end :: "'s mem_ops \<Rightarrow> u32 \<Rightarrow> 's \<Rightarrow> (u32 \<times> 's) option" where
  "word_end ops p s = do {
     (c, s) \<leftarrow> ld8 ops p s;
     if c \<noteq> 0 \<and> \<not> in_literal (WHITESPACE @ SYMBOLS) c then word_end ops (p + 1) s else Some (p, s) }"

text \<open>The token, \<^verbatim>\<open>*p1\<close> and \<^verbatim>\<open>*p2\<close>.\<close>

definition gettoken1 :: "'s mem_ops \<Rightarrow> u32 \<Rightarrow> 's \<Rightarrow> (u8 \<times> u32 \<times> u32 \<times> 's) option" where
  "gettoken1 ops p s =
     (if p = 0 then Some (0, 0, 0, s)
      else do {
        (p, s) \<leftarrow> skip_white ops p s;
        (c, s) \<leftarrow> ld8 ops p s;
        if c = 0 then Some (0, 0, 0, s)
        else if in_literal SYMBOLS c then do {
          s \<leftarrow> st8 ops p 0 s;
          Some (c, p, p + 1, s) }
        else do {
          (q, s) \<leftarrow> word_end ops p s;
          Some (119, p, q, s) } })"

text \<open>The static variables of \<^verbatim>\<open>gettoken\<close>: the token it has read ahead.\<close>

record lexer =
  nc :: u8
  np1 :: u32
  np2 :: u32

definition gettoken_start :: "'s mem_ops \<Rightarrow> u32 \<Rightarrow> 's \<Rightarrow> (lexer \<times> 's) option" where
  "gettoken_start ops p s = do {
     (c, p1, p2, s) \<leftarrow> gettoken1 ops p s;
     Some (\<lparr>nc = c, np1 = p1, np2 = p2\<rparr>, s) }"

definition gettoken_next :: "'s mem_ops \<Rightarrow> lexer \<Rightarrow> 's \<Rightarrow> (u8 \<times> u32 \<times> lexer \<times> 's) option" where
  "gettoken_next ops l s = do {
     let c = nc l;
     let p1 = np1 l;
     (c', q1, q2, s) \<leftarrow> gettoken1 ops (np2 l) s;
     Some (c, p1, \<lparr>nc = c', np1 = q1, np2 = q2\<rparr>, s) }"

section \<open>Commands\<close>

datatype 'a outcome = Returned 'a | Exited

text \<open>\<^verbatim>\<open><\<close> and \<^verbatim>\<open>>\<close>: open the file, put it in place of descriptor \<open>std\<close> and close it; \<^term>\<open>False\<close> is \<^verbatim>\<open>exit\<close>.\<close>

definition redirect :: "'w fserver \<Rightarrow> ('w client) dev list \<Rightarrow> u32 \<Rightarrow> u32 \<Rightarrow> int \<Rightarrow> 'w client \<Rightarrow>
    (bool \<times> 'w client) option" where
  "redirect fsv devtab t mode std s = do {
     path \<leftarrow> ustring t s;
     (fd, s) \<leftarrow> uopen fsv path mode s;
     if fd < 0 then Some (False, s)
     else do {
       (r, s) \<leftarrow> dup devtab fd std s;
       if r < 0 then Some (False, s)
       else do {
         (r, s) \<leftarrow> close devtab fd s;
         Some (0 \<le> r, s) } } }"

text \<open>One end of a new pipe in place of descriptor \<open>std\<close>, then both ends closed.\<close>

definition join_pipe :: "('w client) dev list \<Rightarrow> u32 \<Rightarrow> int \<Rightarrow> u32 \<times> u32 \<Rightarrow> 'w client \<Rightarrow>
    (bool \<times> 'w client) option" where
  "join_pipe devtab e std p s = do {
     (r, s) \<leftarrow> dup devtab (sint e) std s;
     if r < 0 then Some (False, s)
     else do {
       (r, s) \<leftarrow> close devtab (sint (fst p)) s;
       if r < 0 then Some (False, s)
       else do {
         (r, s) \<leftarrow> close devtab (sint (snd p)) s;
         Some (0 \<le> r, s) } } }"

text \<open>\<^verbatim>\<open>argv\<close> and \<^verbatim>\<open>*rightpipe\<close>.\<close>

partial_function (option) parsecmd :: "'w fserver \<Rightarrow> ('w client) dev list \<Rightarrow> int list \<Rightarrow> u32 list \<Rightarrow> int \<Rightarrow>
    lexer \<Rightarrow> 'w client \<Rightarrow> ((u32 list \<times> int) outcome \<times> lexer \<times> 'w client) option" where
  "parsecmd fsv devtab forks argv rightpipe l s = do {
     (c, t, l, s) \<leftarrow> gettoken_next uops l s;
     if c = 0 then Some (Returned (argv, rightpipe), l, s)
     else if c = 119 then
       (if length argv \<ge> MAXARGS then Some (Exited, l, s)
        else parsecmd fsv devtab forks (argv @ [t]) rightpipe l s)
     else if c = 60 \<or> c = 62 then do {
       (c', t, l, s) \<leftarrow> gettoken_next uops l s;
       if c' \<noteq> 119 then Some (Exited, l, s)
       else do {
         (ok, s) \<leftarrow> (if c = 60 then redirect fsv devtab t O_RDONLY 0 s
                    else redirect fsv devtab t O_WRONLY 1 s);
         if ok then parsecmd fsv devtab forks argv rightpipe l s else Some (Exited, l, s) } }
     else if c = 124 then do {
       (r, p, s) \<leftarrow> pipe s;
       if r < 0 then Some (Exited, l, s)
       else
         (case forks of
            [] \<Rightarrow> None
          | f # forks \<Rightarrow>
              if f = 0 then do {
                (ok, s) \<leftarrow> join_pipe devtab (fst p) 0 p s;
                if ok then parsecmd fsv devtab forks [] 0 l s else Some (Exited, l, s) }
              else do {
                (ok, s) \<leftarrow> join_pipe devtab (snd p) 1 p s;
                Some (if ok then Returned (argv, f) else Exited, l, s) }) }
     else parsecmd fsv devtab forks argv rightpipe l s }"

text \<open>
  What a command line leads to: nothing to run, or a program spawned with its arguments, and the
  environments waited for before the process exits.
\<close>

definition runcmd :: "'w fserver \<Rightarrow> ('w client) dev list \<Rightarrow> u32 \<Rightarrow> u32 \<Rightarrow> int list \<Rightarrow> u32 \<Rightarrow>
    'w client \<Rightarrow> (int list outcome \<times> 'w client) option" where
  "runcmd fsv devtab elfbuf exo forks line s = do {
     (l, s) \<leftarrow> gettoken_start uops line s;
     (x, l, s) \<leftarrow> parsecmd fsv devtab forks [] 0 l s;
     (case x of
        Exited \<Rightarrow> do { s \<leftarrow> close_all devtab s; Some (Exited, s) }
      | Returned (argv, rightpipe) \<Rightarrow>
          if argv = [] then Some (Returned [], s)
          else do {
            _ \<leftarrow> kassert (length argv < MAXARGS);
            (child, x) \<leftarrow> spawn fsv devtab elfbuf exo (hd argv) argv s;
            let s = fst x;
            s \<leftarrow> close_all devtab s;
            Some (Returned ((if child \<ge> 0 then [child] else []) @ (if rightpipe \<noteq> 0 then [rightpipe] else [])), s) }) }"

section \<open>The line editor\<close>

text \<open>
  \<open>rd1 p\<close> is the call \<^verbatim>\<open>read(0, p, 1)\<close> and \<open>pr bs\<close> the call of \<^verbatim>\<open>printf\<close> with the plain text \<open>bs\<close>.
  \<^term>\<open>False\<close> is \<^verbatim>\<open>exit\<close>. Within the body \<^verbatim>\<open>i\<close> may be \<open>- 1\<close>, and the code then looks at the byte
  before the buffer. The two messages of \<^verbatim>\<open>debugf\<close> are left out.
\<close>

partial_function (option) drop_line :: "'s mem_ops \<Rightarrow> (u32 \<Rightarrow> 's \<Rightarrow> (int \<times> 's) option) \<Rightarrow> u32 \<Rightarrow> 's \<Rightarrow> 's option" where
  "drop_line ops rd1 buf s = do {
     (r, s) \<leftarrow> rd1 buf s;
     if r \<noteq> 1 then Some s
     else do {
       (c, s) \<leftarrow> ld8 ops buf s;
       if c = 13 \<or> c = 10 then Some s else drop_line ops rd1 buf s } }"

partial_function (option) readline_from :: "'s mem_ops \<Rightarrow> (u32 \<Rightarrow> 's \<Rightarrow> (int \<times> 's) option) \<Rightarrow> (u8 list \<Rightarrow> 's \<Rightarrow> 's option) \<Rightarrow>
    u32 \<Rightarrow> u32 \<Rightarrow> int \<Rightarrow> 's \<Rightarrow> (bool \<times> 's) option" where
  "readline_from ops rd1 pr buf n i s =
     (if i < uint n then do {
        (r, s) \<leftarrow> rd1 (buf + word_of_int i) s;
        if r \<noteq> 1 then Some (False, s)
        else do {
          (c, s) \<leftarrow> ld8 ops (buf + word_of_int i) s;
          (i, s) \<leftarrow>
            (if c = 8 \<or> c = 0x7f then do {
               let i = (if i > 0 then i - 2 else - 1);
               (d, s) \<leftarrow> ld8 ops (buf + word_of_int i) s;
               s \<leftarrow> (if d \<noteq> 8 then pr [8] s else Some s);
               Some (i, s) }
             else Some (i, s));
          (c, s) \<leftarrow> ld8 ops (buf + word_of_int i) s;
          if c = 13 \<or> c = 10 then do {
            s \<leftarrow> st8 ops (buf + word_of_int i) 0 s;
            Some (True, s) }
          else readline_from ops rd1 pr buf n (i + 1) s } }
      else do {
        s \<leftarrow> drop_line ops rd1 buf s;
        s \<leftarrow> st8 ops buf 0 s;
        Some (True, s) })"

definition readline :: "'s mem_ops \<Rightarrow> (u32 \<Rightarrow> 's \<Rightarrow> (int \<times> 's) option) \<Rightarrow> (u8 list \<Rightarrow> 's \<Rightarrow> 's option) \<Rightarrow>
    u32 \<Rightarrow> u32 \<Rightarrow> 's \<Rightarrow> (bool \<times> 's) option" where
  "readline ops rd1 pr buf n s = readline_from ops rd1 pr buf n 0 s"

section \<open>What the tokenizer computes\<close>

definition is_word :: "u8 \<Rightarrow> bool" where
  "is_word c \<longleftrightarrow> c \<notin> set (WHITESPACE @ SYMBOLS)"

lemma zero_no_separator [simp]: "0 \<notin> set WHITESPACE" "0 \<notin> set SYMBOLS"
  by (simp_all add: WHITESPACE_def SYMBOLS_def)

lemma in_literal_word: "in_literal (WHITESPACE @ SYMBOLS) c \<longleftrightarrow> \<not> is_word c"
  by (simp add: in_literal_def is_word_def)

datatype token = Symbol u8 | Word "u8 list"

text \<open>The tokens of a line, from its text alone.\<close>

function tokens :: "u8 list \<Rightarrow> token list" where
  "tokens [] = []"
| "tokens (c # cs) =
     (if c \<in> set WHITESPACE then tokens cs
      else if c \<in> set SYMBOLS then Symbol c # tokens cs
      else Word (takeWhile is_word (c # cs)) # tokens (dropWhile is_word cs))"
  by pat_completeness auto

termination
  by (relation "measure length") (auto simp: length_dropWhile_le le_imp_less_Suc)

text \<open>The calls of \<^verbatim>\<open>gettoken(0, &t)\<close> until the end of the line, as \<^verbatim>\<open>parsecmd\<close> makes them.\<close>

partial_function (option) lex_all :: "'s mem_ops \<Rightarrow> lexer \<Rightarrow> 's \<Rightarrow> ((u8 \<times> u32) list \<times> 's) option" where
  "lex_all ops l s = do {
     (c, t, l, s) \<leftarrow> gettoken_next ops l s;
     if c = 0 then Some ([], s)
     else do {
       (ts, s) \<leftarrow> lex_all ops l s;
       Some ((c, t) # ts, s) } }"

definition lex_line :: "'s mem_ops \<Rightarrow> u32 \<Rightarrow> 's \<Rightarrow> ((u8 \<times> u32) list \<times> 's) option" where
  "lex_line ops p s = do { (l, s) \<leftarrow> gettoken_start ops p s; lex_all ops l s }"

text \<open>What a returned token stands for, with the memory the calls leave.\<close>

fun means :: "(u32 \<Rightarrow> u8) \<Rightarrow> u8 \<times> u32 \<Rightarrow> token \<Rightarrow> bool" where
  "means m (c, t) (Symbol x) \<longleftrightarrow> c = x"
| "means m (c, t) (Word w) \<longleftrightarrow> c = 119 \<and> cstr m t w"

lemma cstr_drop: "cstr m p (as @ bs) \<Longrightarrow> cstr m (p + word_of_nat (length as)) bs"
  by (induction as arbitrary: p) (auto simp flip: add.assoc)

lemma word_end_cstr:
  "cstr m p bs \<Longrightarrow> word_end byte_ops p m = Some (p + word_of_nat (length (takeWhile is_word bs)), m)"
proof (induction bs arbitrary: p)
  case Nil
  then show ?case by (subst word_end.simps) simp
next
  case (Cons b bs)
  then show ?case by (subst word_end.simps) (auto simp: in_literal_word add.assoc)
qed

text \<open>Only zeros were stored, and only among the \<open>n\<close> bytes from \<open>p\<close> on.\<close>

definition zeroed :: "u32 \<Rightarrow> nat \<Rightarrow> (u32 \<Rightarrow> u8) \<Rightarrow> (u32 \<Rightarrow> u8) \<Rightarrow> bool" where
  "zeroed p n m m' \<longleftrightarrow> (\<forall>x. m' x = m x \<or> m' x = 0 \<and> x \<in> addrs p n)"

lemma zeroed_refl: "zeroed p n m m"
  by (simp add: zeroed_def)

lemma zeroed_upd: "0 < n \<Longrightarrow> zeroed p n m (m(p := 0))"
  unfolding zeroed_def addrs_def by (auto intro!: image_eqI [of _ _ 0])

lemma zeroed_trans:
  "zeroed p n m m1 \<Longrightarrow> zeroed (p + word_of_nat i) k m1 m2 \<Longrightarrow> i + k \<le> n \<Longrightarrow> zeroed p n m m2"
  using addrs_sub [of i k n p] unfolding zeroed_def by (metis subsetD)

lemma cstr_upd_before:
  assumes "cstr m (p + 1) bs" "unat p + length bs + 1 < 2 ^ 32"
  shows "cstr (m(p := 0)) (p + 1) bs"
proof -
  have "p + 1 + word_of_nat i \<noteq> p" if "i \<le> length bs" for i
    using assms(2) that by (simp add: word_unat_eq_iff unat_word_ariths unat_of_nat)
  then show ?thesis using assms(1) by (auto simp: cstr_nth [of _ "p + 1"])
qed

lemma skip_white_cstr:
  assumes "cstr m p bs" "unat p + length bs < 2 ^ 32"
  shows "\<exists>k m'. skip_white byte_ops p m = Some (p + word_of_nat k, m') \<and> k \<le> length bs \<and>
    cstr m' (p + word_of_nat k) (drop k bs) \<and> zeroed p k m m' \<and> tokens (drop k bs) = tokens bs \<and>
    (drop k bs = [] \<or> hd (drop k bs) \<notin> set WHITESPACE) \<and> (0 < k \<longrightarrow> m' p = 0)"
  using assms
proof (induction bs arbitrary: p m)
  case Nil
  then show ?case
    by (intro exI [of _ 0] exI [of _ m], subst skip_white.simps) (simp add: zeroed_refl in_literal_def)
next
  case (Cons b bs)
  show ?case
  proof (cases "b \<in> set WHITESPACE")
    case False
    then show ?thesis
      using Cons.prems by (intro exI [of _ 0] exI [of _ m], subst skip_white.simps) (simp add: zeroed_refl in_literal_def)
  next
    case True
    let ?m = "m(p := 0)"
    have u: "unat (p + 1) = unat p + 1" using Cons.prems(2) by (simp add: unat_word_ariths)
    have c: "cstr ?m (p + 1) bs"
      using Cons.prems by (intro cstr_upd_before) simp_all
    have "unat (p + 1) + length bs < 2 ^ 32" using Cons.prems(2) u by simp
    then obtain k m' where k: "skip_white byte_ops (p + 1) ?m = Some (p + 1 + word_of_nat k, m')" "k \<le> length bs"
      "cstr m' (p + 1 + word_of_nat k) (drop k bs)" "zeroed (p + 1) k ?m m'" "tokens (drop k bs) = tokens bs"
      "drop k bs = [] \<or> hd (drop k bs) \<notin> set WHITESPACE"
      using Cons.IH [OF c] by blast
    have z: "zeroed p (Suc k) m m'"
      using zeroed_trans [OF zeroed_upd [of "Suc k" p m], of 1 k m'] k(4) by simp
    have "m' p = ?m p \<or> m' p = 0" using k(4) unfolding zeroed_def by blast
    then have "m' p = 0" by auto
    moreover have "skip_white byte_ops p m = Some (p + word_of_nat (Suc k), m')"
      using True Cons.prems(1) k(1) by (subst skip_white.simps) (simp add: in_literal_def add.assoc)
    ultimately show ?thesis
      using k z True by (intro exI [of _ "Suc k"] exI [of _ m']) (simp add: add.assoc)
  qed
qed

text \<open>
  The state between two calls: the token \<open>tok\<close> read ahead, not yet handed out, and the \<open>rest\<close> of the line
  behind it at \<open>np2\<close>. A word may still lack its terminator, which the next call stores.
\<close>

definition word_at_mem :: "(u32 \<Rightarrow> u8) \<Rightarrow> u32 \<Rightarrow> u8 list \<Rightarrow> u32 \<Rightarrow> bool" where
  "word_at_mem m p w q \<longleftrightarrow> q = p + word_of_nat (length w) \<and> unat q = unat p + length w \<and>
     (\<forall>i < length w. m (p + word_of_nat i) = w ! i \<and> w ! i \<noteq> 0)"

fun read_ahead :: "(u32 \<Rightarrow> u8) \<Rightarrow> lexer \<Rightarrow> u8 list \<Rightarrow> token \<Rightarrow> bool" where
  "read_ahead m l rest (Symbol c) \<longleftrightarrow> nc l = c \<and> c \<noteq> 0"
| "read_ahead m l rest (Word w) \<longleftrightarrow> nc l = 119 \<and> word_at_mem m (np1 l) w (np2 l) \<and> (rest = [] \<or> \<not> is_word (hd rest))"

definition ahead :: "(u32 \<Rightarrow> u8) \<Rightarrow> lexer \<Rightarrow> u8 list \<Rightarrow> token list \<Rightarrow> bool" where
  "ahead m l rest toks \<longleftrightarrow>
     toks = [] \<and> nc l = 0 \<and> np2 l = 0 \<and> rest = [] \<or>
     (\<exists>tok. toks = tok # tokens rest \<and> np2 l \<noteq> 0 \<and> cstr m (np2 l) rest \<and> unat (np2 l) + length rest < 2 ^ 32 \<and>
        read_ahead m l rest tok)"

text \<open>One call of \<^verbatim>\<open>_gettoken\<close>.\<close>

lemma gettoken1_cstr:
  assumes "cstr m p bs" "unat p + length bs < 2 ^ 32" "p \<noteq> 0"
  shows "\<exists>c p1 p2 m' rest. gettoken1 byte_ops p m = Some (c, p1, p2, m') \<and>
    ahead m' \<lparr>nc = c, np1 = p1, np2 = p2\<rparr> rest (tokens bs) \<and> zeroed p (length bs) m m' \<and>
    addrs p2 (length rest) \<subseteq> addrs p (length bs) \<and>
    (bs = [] \<or> \<not> is_word (hd bs) \<longrightarrow> m' p = 0)"
proof -
  obtain k m1 where k: "skip_white byte_ops p m = Some (p + word_of_nat k, m1)" "k \<le> length bs"
    "cstr m1 (p + word_of_nat k) (drop k bs)" "zeroed p k m m1" "tokens (drop k bs) = tokens bs"
    "drop k bs = [] \<or> hd (drop k bs) \<notin> set WHITESPACE" "0 < k \<longrightarrow> m1 p = 0"
    using skip_white_cstr [OF assms(1,2)] by blast
  define q where "q = p + word_of_nat k"
  have uq: "unat q = unat p + k" using assms(2) k(2) by (simp add: q_def unat_word_ariths unat_of_nat)
  have q0: "q \<noteq> 0" using uq assms(3) by (auto simp: word_unat_eq_iff)
  have z: "zeroed p (length bs) m m1"
    using zeroed_trans [OF zeroed_refl, of p 0 k m m1 "length bs"] k(2,4) by simp
  show ?thesis
  proof (cases "drop k bs")
    case Nil
    have "m1 p = 0" if "bs = [] \<or> \<not> is_word (hd bs)"
    proof (cases "k = 0")
      case True
      then show ?thesis using Nil k(3) by simp
    qed (use k(7) in simp)
    then show ?thesis
      using Nil k(1,3,5) z assms(3)
      by (intro exI [of _ 0] exI [of _ m1] exI [of _ "[]"]) (simp add: gettoken1_def ahead_def addrs_def)
  next
    case (Cons b cs)
    have b: "m1 q = b" "b \<noteq> 0" "cstr m1 (q + 1) cs" using k(3) Cons by (simp_all add: q_def)
    have nw: "b \<notin> set WHITESPACE" using k(6) Cons by simp
    have len: "length bs = k + Suc (length cs)" using Cons by (metis k(2) le_add_diff_inverse length_Cons length_drop)
    show ?thesis
    proof (cases "b \<in> set SYMBOLS")
      case True
      let ?m = "m1(q := 0)"
      have "cstr ?m (q + 1) cs" using b(3) assms(2) len uq by (intro cstr_upd_before) simp_all
      moreover have uq1: "unat (q + 1) = unat q + 1" using assms(2) len uq by (simp add: unat_word_ariths)
      moreover from this have "q + 1 \<noteq> 0" by (auto simp: word_unat_eq_iff)
      moreover have "tokens (drop k bs) = Symbol b # tokens cs" using Cons True nw by simp
      ultimately have "ahead ?m \<lparr>nc = b, np1 = q, np2 = q + 1\<rparr> cs (tokens bs)"
        using b(2) assms(2) len uq k(5) by (simp add: ahead_def)
      moreover have "zeroed p (length bs) m ?m"
        using zeroed_trans [OF z zeroed_upd [of 1 q m1, unfolded q_def], of] len by (simp add: q_def)
      moreover have "addrs (q + 1) (length cs) \<subseteq> addrs p (length bs)"
      proof -
        have "q + 1 = p + word_of_nat (Suc k)" by (simp add: q_def)
        then show ?thesis using addrs_sub [of "Suc k" "length cs" "length bs" p] len by (simp only:)
      qed
      moreover have "?m p = 0" using k(7) by (cases "k = 0") (simp_all add: q_def)
      moreover have "gettoken1 byte_ops p m = Some (b, q, q + 1, ?m)"
        using assms(3) k(1) b True by (simp add: gettoken1_def in_literal_def flip: q_def)
      ultimately show ?thesis by blast
    next
      case False
      define w where "w = takeWhile is_word (b # cs)"
      define rest where "rest = dropWhile is_word cs"
      have isw: "is_word b" using nw False by (simp add: is_word_def)
      have split: "b # cs = w @ rest" and n: "length cs + 1 = length w + length rest"
        using isw takeWhile_dropWhile_id [of is_word "b # cs"] by (simp_all add: w_def rest_def flip: length_append)
      have c: "cstr m1 q (w @ rest)" using k(3) Cons split by (simp add: q_def)
      have e: "unat (q + word_of_nat (length w)) = unat q + length w"
        using assms(2) len uq n by (simp add: unat_word_ariths unat_of_nat)
      have "word_at_mem m1 q w (q + word_of_nat (length w))"
      proof -
        have "m1 (q + word_of_nat i) = w ! i \<and> w ! i \<noteq> 0" if "i < length w" for i
          using c that by (simp add: cstr_nth nth_append) (metis trans_less_add1)
        then show ?thesis using e by (simp add: word_at_mem_def)
      qed
      moreover have "rest = [] \<or> \<not> is_word (hd rest)"
        using hd_dropWhile [of is_word cs] by (auto simp: rest_def)
      moreover have "q + word_of_nat (length w) \<noteq> 0" using e q0 by (auto simp: word_unat_eq_iff)
      moreover have "tokens (drop k bs) = Word w # tokens rest"
        using Cons False nw by (simp add: w_def rest_def)
      ultimately have "ahead m1 \<lparr>nc = 119, np1 = q, np2 = q + word_of_nat (length w)\<rparr> rest (tokens bs)"
        using cstr_drop [OF c] e k(5) assms(2) len uq n by (simp add: ahead_def)
      moreover have "addrs (q + word_of_nat (length w)) (length rest) \<subseteq> addrs p (length bs)"
        using addrs_sub [of "k + length w" "length rest" "length bs" p] len n by (simp add: q_def add.assoc)
      moreover have "m1 p = 0" if "bs = [] \<or> \<not> is_word (hd bs)"
        using that k(7) Cons isw by (cases "k = 0") auto
      moreover have "gettoken1 byte_ops p m = Some (119, q, q + word_of_nat (length w), m1)"
      proof -
        have "takeWhile is_word (w @ rest) = w" unfolding split [symmetric] by (simp only: w_def)
        then have "word_end byte_ops q m1 = Some (q + word_of_nat (length w), m1)"
          using word_end_cstr [OF c] by simp
        then show ?thesis
          using assms(3) k(1) b False by (simp add: gettoken1_def in_literal_def flip: q_def)
      qed
      ultimately show ?thesis using z by blast
    qed
  qed
qed

lemma lex_all_ahead:
  "ahead m l rest toks \<Longrightarrow> \<exists>ts m'. lex_all byte_ops l m = Some (ts, m') \<and> list_all2 (means m') ts toks \<and>
     (\<forall>x. m' x = m x \<or> m' x = 0 \<and> x \<in> addrs (np2 l) (length rest))"
proof (induction toks arbitrary: m l rest)
  case Nil
  then have "nc l = 0" "np2 l = 0" by (auto simp: ahead_def)
  then show ?case
    by (intro exI [of _ "[]"] exI [of _ m], subst lex_all.simps) (simp add: gettoken_next_def gettoken1_def)
next
  case (Cons tok toks)
  then have r: "toks = tokens rest" "np2 l \<noteq> 0" "cstr m (np2 l) rest" "unat (np2 l) + length rest < 2 ^ 32"
    "read_ahead m l rest tok" by (auto simp: ahead_def)
  obtain c p1 p2 m1 rest' where g: "gettoken1 byte_ops (np2 l) m = Some (c, p1, p2, m1)"
    "ahead m1 \<lparr>nc = c, np1 = p1, np2 = p2\<rparr> rest' toks" "zeroed (np2 l) (length rest) m m1"
    "addrs p2 (length rest') \<subseteq> addrs (np2 l) (length rest)" "rest = [] \<or> \<not> is_word (hd rest) \<longrightarrow> m1 (np2 l) = 0"
    using gettoken1_cstr [OF r(3,4,2)] unfolding r(1) by blast
  obtain ts m' where t: "lex_all byte_ops \<lparr>nc = c, np1 = p1, np2 = p2\<rparr> m1 = Some (ts, m')"
    "list_all2 (means m') ts toks" "\<forall>x. m' x = m1 x \<or> m' x = 0 \<and> x \<in> addrs p2 (length rest')"
    using Cons.IH [OF g(2)] by auto
  have all: "m' x = m x \<or> m' x = 0 \<and> x \<in> addrs (np2 l) (length rest)" for x
    using g(3,4) t(3) unfolding zeroed_def by (metis subsetD)
  have "nc l \<noteq> 0" using r(5) by (cases tok) auto
  then have "lex_all byte_ops l m = Some ((nc l, np1 l) # ts, m')"
    using g(1) t(1) by (subst lex_all.simps) (simp add: gettoken_next_def)
  moreover have "means m' (nc l, np1 l) tok"
  proof (cases tok)
    case (Word w)
    then have w: "nc l = 119" "word_at_mem m (np1 l) w (np2 l)" "rest = [] \<or> \<not> is_word (hd rest)" using r(5) by auto
    have "m1 (np2 l) = 0" using g(5) w(3) by blast
    then have "m' (np2 l) = 0" using t(3) by metis
    moreover have "m' (np1 l + word_of_nat i) = m (np1 l + word_of_nat i)" if i: "i < length w" for i
    proof -
      have uq: "unat (np2 l) = unat (np1 l) + length w" using w(2) unfolding word_at_mem_def by blast
      then have "unat (np1 l + word_of_nat i) = unat (np1 l) + i"
        using i r(4) by (simp add: unat_word_ariths unat_of_nat)
      then have "unat (np1 l + word_of_nat i) < unat (np2 l)" using i uq by simp
      then have "np1 l + word_of_nat i \<notin> addrs (np2 l) (length rest)"
        using addrs_unat [of "np1 l + word_of_nat i" "np2 l" "length rest"] r(4) by auto
      then show ?thesis using all by blast
    qed
    ultimately show ?thesis using Word w by (auto simp: cstr_nth word_at_mem_def)
  qed (use r(5) in simp)
  ultimately show ?case using t(2) all by auto
qed

text \<open>
  C23. The tokenizer: on a line of text, the calls of \<^verbatim>\<open>gettoken\<close> end and return exactly the tokens of the
  line, in order: words with maximal munch, the seven symbols each by itself, white space ignored. When
  they are done every word stands in the buffer as a C string, though the terminators are stored in
  place of the separators one call late; nothing outside the line changes, and zeros only are stored.
\<close>

theorem tokens_lexed:
  assumes "cstr m p bs" "unat p + length bs < 2 ^ 32" "p \<noteq> 0"
  shows "\<exists>ts m'. lex_line byte_ops p m = Some (ts, m') \<and> list_all2 (means m') ts (tokens bs) \<and> zeroed p (length bs) m m'"
proof -
  obtain c p1 p2 m1 rest where g: "gettoken1 byte_ops p m = Some (c, p1, p2, m1)"
    "ahead m1 \<lparr>nc = c, np1 = p1, np2 = p2\<rparr> rest (tokens bs)" "zeroed p (length bs) m m1"
    "addrs p2 (length rest) \<subseteq> addrs p (length bs)"
    using gettoken1_cstr [OF assms] by blast
  obtain ts m' where t: "lex_all byte_ops \<lparr>nc = c, np1 = p1, np2 = p2\<rparr> m1 = Some (ts, m')"
    "list_all2 (means m') ts (tokens bs)" "\<forall>x. m' x = m1 x \<or> m' x = 0 \<and> x \<in> addrs p2 (length rest)"
    using lex_all_ahead [OF g(2)] by auto
  have "zeroed p (length bs) m m'" using g(3,4) t(3) unfolding zeroed_def by (metis subsetD)
  then show ?thesis using g(1) t(1,2) by (auto simp: lex_line_def gettoken_start_def)
qed

text \<open>The line \<^verbatim>\<open>ls>f\<close>.\<close>

lemma tokens_lexed_witness:
  "\<exists>t1 t2 t3 m'. lex_line byte_ops 8 ((\<lambda>_. 0)(8 := 108, 9 := 115, 10 := 62, 11 := 102)) =
       Some ([(119, t1), (62, t2), (119, t3)], m') \<and> cstr m' t1 [108, 115] \<and> cstr m' t3 [102]"
proof -
  let ?m = "(\<lambda>_. 0 :: u8)(8 := 108, 9 := 115, 10 := 62, 11 := 102)"
  have c: "cstr ?m 8 [108, 115, 62, 102]" by simp
  have toks: "tokens [108, 115, 62, 102] = [Word [108, 115], Symbol 62, Word [102]]"
    by (simp add: WHITESPACE_def SYMBOLS_def is_word_def)
  obtain ts m' where l: "lex_line byte_ops 8 ?m = Some (ts, m')"
    "list_all2 (means m') ts [Word [108, 115], Symbol 62, Word [102]]"
    using tokens_lexed [OF c] unfolding toks by auto
  from l(2) obtain t1 t2 t3 where "ts = [(119, t1), (62, t2), (119, t3)]" "cstr m' t1 [108, 115]" "cstr m' t3 [102]"
    by (auto simp: list_all2_Cons2 simp del: cstr.simps)
  then show ?thesis using l(1) by blast
qed

section \<open>What the line editor computes\<close>

text \<open>Plain memory, the bytes standard input still has, and what has been printed.\<close>

type_synonym stream = "(u32 \<Rightarrow> u8) \<times> u8 list \<times> u8 list"

definition stream_ops :: "stream mem_ops" where
  "stream_ops = \<lparr>ld8 = (\<lambda>a s. Some (fst s a, s)), st8 = (\<lambda>a b (m, io). Some (m(a := b), io)),
     ld32 = (\<lambda>a s. Some (rd32 (fst s) a, s)), st32 = (\<lambda>a w (m, io). Some (wr32 a w m, io))\<rparr>"

fun stream_read :: "u32 \<Rightarrow> stream \<Rightarrow> (int \<times> stream) option" where
  "stream_read p (m, [], out) = Some (0, (m, [], out))"
| "stream_read p (m, c # cs, out) = Some (1, (m(p := c), cs, out))"

fun stream_print :: "u8 list \<Rightarrow> stream \<Rightarrow> stream option" where
  "stream_print bs (m, inp, out) = Some (m, inp, out @ bs)"

text \<open>
  A line typed with backspaces: the line and the rest of the input, or \<^term>\<open>None\<close> if the input ends or
  \<open>n\<close> bytes are held at some time.
\<close>

fun edit :: "nat \<Rightarrow> u8 list \<Rightarrow> u8 list \<Rightarrow> (u8 list \<times> u8 list) option" where
  "edit n line [] = None"
| "edit n line (c # cs) =
     (if n \<le> length line then None
      else if c = 8 \<or> c = 0x7f then edit n (butlast line) cs
      else if c = 13 \<or> c = 10 then Some (line, cs)
      else edit n (line @ [c]) cs)"

text \<open>The backspaces among the bytes that have been read.\<close>

definition erasures :: "u8 list \<Rightarrow> u8 list \<Rightarrow> nat" where
  "erasures inp rest = length (filter (\<lambda>c. c = 8 \<or> c = 0x7f) (take (length inp - length rest) inp))"

lemma edit_rest: "edit n line inp = Some (out, rest) \<Longrightarrow> length rest < length inp"
  by (induction n line inp rule: edit.induct) (force split: if_splits)+

lemma erasures_Cons:
  "length rest \<le> length cs \<Longrightarrow> erasures (c # cs) rest = (if c = 8 \<or> c = 0x7f then 1 else 0) + erasures cs rest"
  by (simp add: erasures_def Suc_diff_le)

definition holds_line :: "(u32 \<Rightarrow> u8) \<Rightarrow> u32 \<Rightarrow> u8 list \<Rightarrow> bool" where
  "holds_line m buf line \<longleftrightarrow> (\<forall>i < length line. m (buf + word_of_nat i) = line ! i)"

definition newline :: "u8 \<Rightarrow> bool" where
  "newline c \<longleftrightarrow> c = 13 \<or> c = 10"

lemma holds_line_upd:
  assumes "holds_line m buf line" "unat buf + length line < 2 ^ 32"
  shows "holds_line (m(buf + word_of_nat (length line) := c)) buf (line @ [c])"
proof -
  have "buf + word_of_nat i \<noteq> buf + word_of_nat (length line)" if "i < length line" for i
    using assms(2) that by (simp add: word_unat_eq_iff unat_word_ariths unat_of_nat)
  then show ?thesis using assms(1) by (auto simp: holds_line_def nth_append less_Suc_eq)
qed

lemma holds_line_butlast: "holds_line m buf (line @ [c]) \<Longrightarrow> holds_line m buf line"
  by (auto simp: holds_line_def nth_append)

lemma holds_line_shorter: "holds_line m buf line \<Longrightarrow> holds_line m buf (butlast line)"
  by (simp add: holds_line_def nth_butlast)

text \<open>After a backspace the code looks at the byte before the one it drops: in the line, or before the buffer.\<close>

lemma backspace_byte:
  assumes "holds_line m buf line" "\<not> newline (m (buf - 1))" "\<And>c. c \<in> set line \<Longrightarrow> \<not> newline c"
  shows "\<not> newline (m (buf + word_of_int (if 0 < length line then int (length line) - 2 else - 1)))"
proof -
  consider "length line \<le> 1" | k where "length line = Suc (Suc k)"
    by (cases line; cases "tl line") auto
  then show ?thesis
  proof cases
    case 1
    then have "word_of_int (if 0 < length line then int (length line) - 2 else - 1) = (- 1 :: u32)"
      by (cases line) auto
    then show ?thesis using assms(2) by simp
  next
    case 2
    then have "m (buf + word_of_nat k) = line ! k" "line ! k \<in> set line"
      using assms(1) by (simp_all add: holds_line_def)
    then show ?thesis using assms(3) 2 by simp
  qed
qed

lemma backspace_prints:
  assumes "holds_line m buf line" "m (buf - 1) \<noteq> 8" "8 \<notin> set line"
  shows "m (buf + word_of_int (if 0 < length line then int (length line) - 2 else - 1)) \<noteq> 8"
proof -
  consider "length line \<le> 1" | k where "length line = Suc (Suc k)"
    by (cases line; cases "tl line") auto
  then show ?thesis
  proof cases
    case 1
    then have "word_of_int (if 0 < length line then int (length line) - 2 else - 1) = (- 1 :: u32)"
      by (cases line) auto
    then show ?thesis using assms(2) by simp
  next
    case 2
    then have "m (buf + word_of_nat k) = line ! k" "line ! k \<in> set line"
      using assms(1) by (simp_all add: holds_line_def)
    moreover from this assms(3) have "line ! k \<noteq> 8" by metis
    ultimately show ?thesis using 2 by simp
  qed
qed

lemma readline_from_edit:
  assumes "edit (unat n) line inp = Some (res, rest)" "holds_line m buf line" "\<not> newline (m (buf - 1))"
    and "\<And>c. c \<in> set line \<Longrightarrow> \<not> newline c \<and> c \<noteq> 8" "unat buf + unat n < 2 ^ 32" "0 < unat buf"
  shows "\<exists>m' bs. readline_from stream_ops stream_read stream_print buf n (int (length line)) (m, inp, out) = Some (True, (m', rest, out @ bs)) \<and>
    holds_line m' buf res \<and> m' (buf + word_of_nat (length res)) = 0 \<and>
    (m (buf - 1) \<noteq> 8 \<longrightarrow> bs = replicate (erasures inp rest) 8)"
  using assms(1-4)
proof (induction "unat n" line inp arbitrary: m out rule: edit.induct)
  case (2 line c cs)
  let ?i = "int (length line)" and ?p = "buf + word_of_nat (length line)"
  let ?m = "m(?p := c)"
  have len: "length line < unat n" using "2.prems"(1) by (auto split: if_splits)
  have "?i < int (unat n)" using len by (simp only: of_nat_less_iff)
  then have lt: "?i < uint n" by (simp only: uint_nat)
  have up: "unat ?p = unat buf + length line"
    using len assms(5) by (simp add: unat_word_ariths unat_of_nat)
  have "unat (buf - 1) = unat buf - 1" using assms(6) by (simp add: unat_sub_if_size word_size word_le_nat_alt)
  then have before: "?m (buf - 1) = m (buf - 1)" using up assms(6) by (auto simp: word_unat_eq_iff)
  then have keep: "\<not> newline (?m (buf - 1))" using "2.prems"(3) by simp
  have held: "holds_line ?m buf (line @ [c])"
    using "2.prems"(2) len assms(5) by (intro holds_line_upd) simp_all
  then have line: "holds_line ?m buf line" by (rule holds_line_butlast)
  have nonl: "\<And>c. c \<in> set line \<Longrightarrow> \<not> newline c" and no8: "8 \<notin> set line" using "2.prems"(4) by blast+
  let ?j = "if ?i > 0 then ?i - 2 else - 1"
  let ?echo = "if ?m (buf + word_of_int ?j) \<noteq> 8 then [8 :: u8] else []"
  have step: "readline_from stream_ops stream_read stream_print buf n ?i (m, c # cs, out) =
      (let i = (if c = 8 \<or> c = 0x7f then ?j else ?i); out' = out @ (if c = 8 \<or> c = 0x7f then ?echo else []) in
       if newline (?m (buf + word_of_int i)) then Some (True, (?m(buf + word_of_int i := 0), cs, out'))
       else readline_from stream_ops stream_read stream_print buf n (i + 1) (?m, cs, out'))"
    using lt by (subst readline_from.simps) (simp add: stream_ops_def newline_def Let_def)
  consider (erase) "c = 8 \<or> c = 0x7f" | (nl) "newline c" "c \<noteq> 8" "c \<noteq> 0x7f" | (char) "c \<noteq> 8" "c \<noteq> 0x7f" "\<not> newline c"
    by auto
  then show ?case
  proof cases
    case erase
    have nn: "\<not> newline (?m (buf + word_of_int (if 0 < length line then ?i - 2 else - 1)))"
      using line keep nonl by (rule backspace_byte)
    have b: "holds_line ?m buf (butlast line)" using line by (rule holds_line_shorter)
    have nl: "\<not> newline d \<and> d \<noteq> 8" if "d \<in> set (butlast line)" for d using "2.prems"(4) in_set_butlastD [OF that] .
    have e: "edit (unat n) (butlast line) cs = Some (res, rest)" using "2.prems"(1) erase len by (simp only: edit.simps) simp
    have i: "(if 0 < length line then ?i - 2 else - 1) + 1 = int (length (butlast line))"
      by (cases line rule: rev_cases) simp_all
    have pos: "0 < ?i \<longleftrightarrow> 0 < length line" by simp
    then have "readline_from stream_ops stream_read stream_print buf n ?i (m, c # cs, out) =
        readline_from stream_ops stream_read stream_print buf n (int (length (butlast line))) (?m, cs, out @ ?echo)"
      unfolding step using nn erase by (simp only: Let_def if_True if_False i)
    moreover obtain m' bs where r: "readline_from stream_ops stream_read stream_print buf n (int (length (butlast line))) (?m, cs, out @ ?echo) =
        Some (True, (m', rest, (out @ ?echo) @ bs))" "holds_line m' buf res" "m' (buf + word_of_nat (length res)) = 0"
      "m (buf - 1) \<noteq> 8 \<Longrightarrow> bs = replicate (erasures cs rest) 8"
      using "2.hyps"(1) [OF _ erase e b keep nl, of "out @ ?echo"] len unfolding before by (auto simp only: not_le fun_upd_def)
    moreover have "?echo @ bs = replicate (erasures (c # cs) rest) 8" if m8: "m (buf - 1) \<noteq> 8"
    proof -
      have "?m (buf + word_of_int ?j) \<noteq> 8"
        unfolding pos using m8 before by (intro backspace_prints [OF line _ no8]) simp
      then show ?thesis using r(4) [OF m8] erase edit_rest [OF e] by (simp add: erasures_Cons)
    qed
    ultimately show ?thesis by (metis append_assoc)
  next
    case nl
    then have "res = line" "rest = cs" using "2.prems"(1) len by (auto simp: newline_def)
    moreover have "holds_line (?m(?p := 0)) buf line"
      using holds_line_butlast [OF holds_line_upd [OF "2.prems"(2), of 0]] len assms(5) by simp
    moreover have "erasures (c # cs) cs = 0" using nl by (simp add: erasures_def)
    ultimately show ?thesis using nl unfolding step by (simp add: Let_def)
  next
    case char
    have nl: "\<not> newline d \<and> d \<noteq> 8" if "d \<in> set (line @ [c])" for d using "2.prems"(4) char that by auto
    have e: "edit (unat n) (line @ [c]) cs = Some (res, rest)"
      using "2.prems"(1) char len by (simp add: newline_def)
    have "readline_from stream_ops stream_read stream_print buf n ?i (m, c # cs, out) =
        readline_from stream_ops stream_read stream_print buf n (int (length (line @ [c]))) (?m, cs, out)"
      unfolding step using char by (simp add: Let_def add.commute)
    then show ?thesis
      using "2.hyps"(2) [OF _ _ _ e held keep nl, of out] len char before edit_rest [OF e]
      by (simp add: newline_def fun_upd_def erasures_Cons)
  qed
qed simp

text \<open>
  C24. The line editor: with input that, read with backspaces, makes up the line \<open>line\<close> and never holds \<open>n\<close>
  bytes, \<^verbatim>\<open>readline\<close> returns at the end of the line with \<open>line\<close> and a zero in the buffer and the rest of the
  input unread, provided the byte before the buffer, which it looks at after a backspace at the first
  two positions, is not a newline; unless that byte is a backspace, it has printed one backspace for each one read.
  If it is a newline, a backspace at the start ends the line and a zero is stored before the buffer.
\<close>

theorem readline_edits:
  assumes "unat buf + unat n < 2 ^ 32" "0 < unat buf" "0 < unat n"
  shows "(\<not> newline (m (buf - 1)) \<and> edit (unat n) [] inp = Some (line, rest) \<longrightarrow>
      (\<exists>m' bs. readline stream_ops stream_read stream_print buf n (m, inp, out) = Some (True, (m', rest, out @ bs)) \<and>
        holds_line m' buf line \<and> m' (buf + word_of_nat (length line)) = 0 \<and>
        (m (buf - 1) \<noteq> 8 \<longrightarrow> bs = replicate (erasures inp rest) 8))) \<and>
    (newline (m (buf - 1)) \<longrightarrow>
      readline stream_ops stream_read stream_print buf n (m, 8 # rest, out) =
        Some (True, (m(buf := 8, buf - 1 := 0), rest, out @ [8])))"
proof (intro conjI impI)
  assume a: "\<not> newline (m (buf - 1)) \<and> edit (unat n) [] inp = Some (line, rest)"
  then have e: "edit (unat n) [] inp = Some (line, rest)" and nl: "\<not> newline (m (buf - 1))" by blast+
  show "\<exists>m' bs. readline stream_ops stream_read stream_print buf n (m, inp, out) = Some (True, (m', rest, out @ bs)) \<and>
        holds_line m' buf line \<and> m' (buf + word_of_nat (length line)) = 0 \<and>
        (m (buf - 1) \<noteq> 8 \<longrightarrow> bs = replicate (erasures inp rest) 8)"
    using readline_from_edit [OF e, of m buf out] nl assms(1,2) by (simp add: readline_def holds_line_def)
next
  assume nl: "newline (m (buf - 1))"
  have "n \<noteq> 0" using assms(3) by auto
  then have "uint n \<noteq> 0" by (simp only: unsigned_eq_0_iff) simp
  moreover have "0 \<le> uint n" by simp
  ultimately have "0 < uint n" by linarith
  then show "readline stream_ops stream_read stream_print buf n (m, 8 # rest, out) =
      Some (True, (m(buf := 8, buf - 1 := 0), rest, out @ [8]))"
    using nl unfolding readline_def
    by (subst readline_from.simps) (auto simp: stream_ops_def newline_def Let_def)
qed

text \<open>Typing \<^verbatim>\<open>lx\<close>, a backspace and \<^verbatim>\<open>s\<close>.\<close>

lemma readline_edits_witness:
  "(\<exists>m'. readline stream_ops stream_read stream_print 16 4 (\<lambda>_. 0, [108, 120, 8, 115, 13], []) = Some (True, (m', [], [8])) \<and>
     holds_line m' 16 [108, 115] \<and> m' 18 = 0) \<and>
   readline stream_ops stream_read stream_print 16 4 (\<lambda>_. 10, [8], []) = Some (True, ((\<lambda>_. 10)(16 := 8, 15 := 0), [], [8]))"
  using readline_edits [of 16 4 "\<lambda>_. 0" "[108, 120, 8, 115, 13]" "[108, 115]" "[]" "[]"]
    readline_edits [of 16 4 "\<lambda>_. 10" "[]" "[]" "[]" "[]"]
  by (auto simp: newline_def erasures_def)

end
