(* ===== verification/Console.thy ===== *)
theory Console
  imports FileClient Syscall
begin

text \<open>
  Terminal input and output of programs: \<^verbatim>\<open>user/lib/debugf.c\<close>, \<^verbatim>\<open>user/lib/console.c\<close> and
  \<^verbatim>\<open>user/lib/fprintf.c\<close>. What is outside the process (\<open>csrv\<close>) contains the serial port: \<open>keyed\<close> is what its
  reads give, 0 for nothing there, and \<open>shown\<close> what has been sent to it.
\<close>

section \<open>State and system calls\<close>

record con =
  keyed :: "u8 list"
  shown :: "u8 list"

type_synonym 'v tproc = "('v con_scheme) client"

text \<open>
  What the kernel's \<^verbatim>\<open>printcharc\<close> sends for a byte, and for the bytes of a \<^verbatim>\<open>sys_print_cons\<close>: a newline is
  preceded by a carriage return.
\<close>

definition serial_byte :: "u8 \<Rightarrow> u8 list" where
  "serial_byte b = (if b = chr CHR ''\<newline>'' then [13, b] else [b])"

definition serial_bytes :: "u8 list \<Rightarrow> u8 list" where
  "serial_bytes bs = concat (map serial_byte bs)"

lemma serial_simps [simp]: "serial_bytes [] = []" "serial_bytes (b # bs) = serial_byte b @ serial_bytes bs" "serial_bytes (xs @ ys) = serial_bytes xs @ serial_bytes ys"
  by (simp_all add: serial_bytes_def)

lemma outputk_serial: "console (outputk bs s) = console s @ serial_bytes bs"
  by (induction bs arbitrary: s) (simp_all add: outputk_def printcharc_def serial_byte_def Let_def)

definition show_bytes :: "u8 list \<Rightarrow> 'v tproc \<Rightarrow> 'v tproc" where
  "show_bytes bs s = s\<lparr>csrv := (csrv s)\<lparr>shown := shown (csrv s) @ serial_bytes bs\<rparr>\<rparr>"

definition u_cgetc :: "'v tproc \<Rightarrow> (int \<times> 'v tproc) option" where
  "u_cgetc s = do {
     (c, cs) \<leftarrow> poll_serial (keyed (csrv s));
     Some (uint c, s\<lparr>csrv := (csrv s)\<lparr>keyed := cs\<rparr>\<rparr>) }"

definition u_print_cons :: "u32 \<Rightarrow> u32 \<Rightarrow> 'v tproc \<Rightarrow> (int \<times> 'v tproc) option" where
  "u_print_cons p n s =
     (if p + n > UTOP \<or> p \<ge> UTOP \<or> p > p + n then Some (- E_INVAL, s)
      else do { bs \<leftarrow> ubytes (unat n) p s; Some (0, show_bytes bs s) })"

section \<open>Debugging output\<close>

definition BUF_LEN :: nat where [simp]: "BUF_LEN = 1024"

text \<open>
  \<^verbatim>\<open>struct debug_ctx\<close> is the list of the bytes \<^verbatim>\<open>buf[0..pos)\<close>. It lies on the stack, where
  \<^verbatim>\<open>syscall_print_cons\<close> accepts it.
\<close>

fun debug_flush :: "u8 list \<times> 'v tproc \<Rightarrow> u8 list \<times> 'v tproc" where
  "debug_flush (buf, s) = (if buf = [] then (buf, s) else ([], show_bytes buf s))"

function debug_output :: "u8 list \<Rightarrow> u8 list \<times> 'v tproc \<Rightarrow> u8 list \<times> 'v tproc" where
  "debug_output bs (buf, s) =
     (if length buf + length bs > BUF_LEN then
        let n = BUF_LEN - length buf
        in debug_output (drop n bs) (debug_flush (buf @ take n bs, s))
      else (buf @ bs, s))"
  by pat_completeness auto
termination
  by (relation "measures [\<lambda>(bs, buf, s). length bs, \<lambda>(bs, buf, s). length buf]") auto

declare debug_output.simps [simp del]

definition vdebugf :: "u8 list \<Rightarrow> arg list \<Rightarrow> 'v tproc \<Rightarrow> 'v tproc option" where
  "vdebugf fmt ap s = do {
     ctx \<leftarrow> vprintfmt debug_output fmt ap ([], s);
     Some (snd (debug_flush ctx)) }"

section \<open>The console device\<close>

definition devcons_id :: u32 where [simp]: "devcons_id = 99"

text \<open>The loop over \<^verbatim>\<open>syscall_cgetc\<close>, which itself waits for a key.\<close>

partial_function (option) cons_getc :: "'v tproc \<Rightarrow> (int \<times> 'v tproc) option" where
  "cons_getc s = do {
     (c, s) \<leftarrow> u_cgetc s;
     if c = 0 then cons_getc s else Some (c, s) }"

definition cons_read :: "u32 \<Rightarrow> u32 \<Rightarrow> u32 \<Rightarrow> u32 \<Rightarrow> 'v tproc \<Rightarrow> (int \<times> 'v tproc) option" where
  "cons_read fd vbuf n offset s =
     (if n = 0 then Some (0, s)
      else do {
        (c, s) \<leftarrow> cons_getc s;
        s \<leftarrow> (if c \<noteq> 13 then vdebugf (asc ''%c'') [AInt (word_of_int c)] s else vdebugf (asc ''\<newline>'') [] s);
        if c < 0 then Some (c, s)
        else if c = 4 then Some (0, s)
        else do {
          s \<leftarrow> ust8 vbuf (word_of_int c) s;
          Some (1, s) } })"

definition cons_write :: "u32 \<Rightarrow> u32 \<Rightarrow> u32 \<Rightarrow> u32 \<Rightarrow> 'v tproc \<Rightarrow> (int \<times> 'v tproc) option" where
  "cons_write fd buf n offset s = do {
     (r, s) \<leftarrow> u_print_cons buf n s;
     Some (if r < 0 then r else sint n, s) }"

definition cons_close :: "u32 \<Rightarrow> 'v tproc \<Rightarrow> (int \<times> 'v tproc) option" where
  "cons_close fd s = Some (0, s)"

text \<open>\<^verbatim>\<open>strcpy\<close> from a string literal.\<close>

definition put_literal :: "u32 \<Rightarrow> u8 list \<Rightarrow> 'x uproc_scheme \<Rightarrow> 'x uproc_scheme option" where
  "put_literal p lit s = foldM (\<lambda>i. ust8 (p + word_of_nat i) ((lit @ [0]) ! i)) [0..<Suc (length lit)] s"

definition cons_stat :: "u32 \<Rightarrow> u32 \<Rightarrow> 'v tproc \<Rightarrow> (int \<times> 'v tproc) option" where
  "cons_stat fd st s = do {
     s \<leftarrow> put_literal (st + st_name) (asc ''<cons>'') s;
     Some (0, s) }"

definition devcons :: "u32 \<Rightarrow> ('v tproc) dev" where
  "devcons addr =
     \<lparr>dev_id = devcons_id, dev_addr = addr, dev_read = cons_read, dev_write = cons_write,
      dev_close = cons_close, dev_stat = cons_stat\<rparr>"

definition iscons :: "int \<Rightarrow> 'x uproc_scheme \<Rightarrow> int option" where
  "iscons fdnum s =
     (let (r, fd) = fd_lookup fdnum s in
      if r < 0 then Some r
      else do {
        i \<leftarrow> uld32 (fd + fd_dev_id) s;
        Some (if i = devcons_id then 1 else 0) })"

definition opencons :: "'x uproc_scheme \<Rightarrow> (int \<times> 'x uproc_scheme) option" where
  "opencons s =
     (let (r, fd) = fd_alloc s in
      if r < 0 then Some (r, s)
      else
        let (r, s) = u_mem_alloc fd (PTE_D OR PTE_LIBRARY) s in
        if r < 0 then Some (r, s)
        else do {
          s \<leftarrow> ust32 (fd + fd_dev_id) devcons_id s;
          s \<leftarrow> ust32 (fd + fd_omode) O_RDWR s;
          Some (sint (fd2num fd), s) })"

section \<open>Formatted output to a descriptor\<close>

text \<open>
  \<open>wr bs\<close> is the call of \<^verbatim>\<open>write\<close> with the bytes \<open>bs\<close> of one chunk, which lie in the format, in an argument or
  on the stack. \<^verbatim>\<open>struct print_ctx\<close> is what has been returned so far; \<^term>\<open>None\<close> when a call did not return.
\<close>

definition print_output :: "(u8 list \<Rightarrow> 's \<Rightarrow> (int \<times> 's) option) \<Rightarrow> u8 list \<Rightarrow> (int \<times> 's) option \<Rightarrow> (int \<times> 's) option" where
  "print_output wr bs x = do {
     (ret, s) \<leftarrow> x;
     if ret < 0 then Some (ret, s)
     else do {
       (r, s) \<leftarrow> wr bs s;
       Some (if r < 0 then r else ret + r, s) } }"

definition vfprintf :: "(u8 list \<Rightarrow> 's \<Rightarrow> (int \<times> 's) option) \<Rightarrow> u8 list \<Rightarrow> arg list \<Rightarrow> 's \<Rightarrow> (int \<times> 's) option" where
  "vfprintf wr fmt ap s = do {
     x \<leftarrow> vprintfmt (print_output wr) fmt ap (Some (0, s));
     x }"

section \<open>The text that is printed\<close>

text \<open>The text of a format with its arguments.\<close>

definition printed :: "u8 list \<Rightarrow> arg list \<Rightarrow> u8 list option" where
  "printed fmt ap = vprintfmt (\<lambda>bs acc. acc @ bs) fmt ap []"

lemma show_bytes_simps [simp]: "show_bytes [] s = s" "show_bytes ys (show_bytes xs s) = show_bytes (xs @ ys) s"
  by (simp_all add: show_bytes_def)

text \<open>The buffer never holds more than \<^verbatim>\<open>BUF_LEN\<close> bytes, and what is in it comes after what has been shown.\<close>

lemma debug_output_bytes:
  "length buf \<le> BUF_LEN \<Longrightarrow> debug_output bs (buf, s) = (buf', s') \<Longrightarrow>
     length buf' \<le> BUF_LEN \<and> show_bytes buf' s' = show_bytes (buf @ bs) s"
proof (induction bs "(buf, s)" arbitrary: buf s rule: debug_output.induct)
  case (1 bs buf s)
  show ?case
  proof (cases "length buf + length bs > BUF_LEN")
    case False
    then show ?thesis using 1(3) by (auto simp: debug_output.simps)
  next
    case True
    let ?n = "BUF_LEN - length buf"
    have full: "buf @ take ?n bs \<noteq> []" using True by auto
    have flush: "debug_flush (buf @ take ?n bs, s) = ([], show_bytes (buf @ take ?n bs) s)"
      unfolding debug_flush.simps by (simp only: full if_False)
    have "debug_output (drop ?n bs) ([], show_bytes (buf @ take ?n bs) s) = (buf', s')"
      using 1(3) True by (subst (asm) debug_output.simps) (simp only: Let_def if_True flush)
    then have "length buf' \<le> BUF_LEN \<and> show_bytes buf' s' = show_bytes (drop ?n bs) (show_bytes (buf @ take ?n bs) s)"
      using 1(1) [OF True refl _ _] unfolding flush by auto
    then show ?thesis by simp
  qed
qed

text \<open>
  The buffer of \<^verbatim>\<open>debugf\<close> is invisible: whatever the format and its arguments, what appears on the
  console is the formatted text, whole and in order, and nothing else changes.
\<close>

theorem debugf_shows: "vdebugf fmt ap s = map_option (\<lambda>text. show_bytes text s) (printed fmt ap)"
proof -
  let ?R = "\<lambda>(buf, s') text. length buf \<le> BUF_LEN \<and> show_bytes buf s' = show_bytes text s"
  have "?R (debug_output bs c) (w @ bs)" if "?R c w" for bs c w
  proof -
    obtain buf s1 buf' s' where c: "c = (buf, s1)" "debug_output bs (buf, s1) = (buf', s')" by (metis surj_pair)
    have "show_bytes bs (show_bytes buf s1) = show_bytes bs (show_bytes w s)" using that c(1) by simp
    then show ?thesis using debug_output_bytes [OF _ c(2)] that c by simp
  qed
  then have "rel_option ?R (vprintfmt debug_output fmt ap ([], s)) (printed fmt ap)"
    unfolding printed_def by (intro vprintfmt_rel) simp_all
  moreover have "snd (debug_flush c) = show_bytes w s" if "?R c w" for c w
    using that by (cases c) auto
  ultimately show ?thesis
    unfolding vdebugf_def by (cases "vprintfmt debug_output fmt ap ([], s)"; cases "printed fmt ap") auto
qed

text \<open>
  \<^verbatim>\<open>printf\<close> returns the length of the text, and writes it, when each call of \<^verbatim>\<open>write\<close> takes all it is given.
\<close>

lemma fprintf_all:
  assumes "\<And>bs t. wr bs t = Some (int (length bs), app bs t)" "\<And>t. app [] t = t" "\<And>xs ys t. app ys (app xs t) = app (xs @ ys) t"
  shows "vfprintf wr fmt ap s = map_option (\<lambda>text. (int (length text), app text s)) (printed fmt ap)"
proof -
  have "rel_option (\<lambda>x text. x = Some (int (length text), app text s))
      (vprintfmt (print_output wr) fmt ap (Some (0, s))) (printed fmt ap)"
    unfolding printed_def using assms by (intro vprintfmt_rel) (simp_all add: print_output_def)
  then show ?thesis
    unfolding vfprintf_def
    by (cases "vprintfmt (print_output wr) fmt ap (Some (0, s))"; cases "printed fmt ap") auto
qed

end
