(* ===== verification/Programs.thy ===== *)
theory Programs
  imports Shell Console
begin

text \<open>
  The programs \<^verbatim>\<open>cat\<close>, \<^verbatim>\<open>num\<close>, \<^verbatim>\<open>echo\<close> and \<^verbatim>\<open>ls\<close>, the main loop of the shell (\<^verbatim>\<open>user/cat.c\<close> and so on), and the
  options of \<^verbatim>\<open>include/args.h\<close>. Arguments and paths are the bytes of the strings; the addresses of
  static buffers and local variables are arguments. \<open>wr\<close> is how a chunk of formatted output is
  written to descriptor 1 (theory \<open>Console\<close>). \<^verbatim>\<open>exit\<close> and \<^verbatim>\<open>user_panic\<close> are the outcome \<open>Exited\<close>; their
  message, and the closing of the descriptors, are left out.
\<close>

section \<open>Options\<close>

text \<open>The option letters, and the arguments that follow the options. The program's name is gone.\<close>

fun parse_args :: "u8 list list \<Rightarrow> u8 list \<times> u8 list list" where
  "parse_args [] = ([], [])"
| "parse_args (a # argv) =
     (if a \<noteq> [] \<and> hd a = chr CHR ''-'' \<and> tl a \<noteq> [] then
        if tl a = [chr CHR ''-''] then ([], argv)
        else let (flags, rest) = parse_args argv in (tl a @ flags, rest)
      else ([], a # argv))"

text \<open>A call of \<^verbatim>\<open>printf\<close> whose result is not looked at.\<close>

definition outf :: "(u8 list \<Rightarrow> 's \<Rightarrow> (int \<times> 's) option) \<Rightarrow> u8 list \<Rightarrow> arg list \<Rightarrow> 's \<Rightarrow> 's option" where
  "outf wr fmt ap s = do { (_, s) \<leftarrow> vfprintf wr fmt ap s; Some s }"

section \<open>cat and num\<close>

partial_function (option) cat :: "('x uproc_scheme) dev list \<Rightarrow> u32 \<Rightarrow> int \<Rightarrow> 'x uproc_scheme \<Rightarrow>
    (unit outcome \<times> 'x uproc_scheme) option" where
  "cat devtab buf f s = do {
     (n, s) \<leftarrow> fd_read devtab f buf 8192 s;
     if n > 0 then do {
       (r, s) \<leftarrow> fd_write devtab 1 buf (word_of_int n) s;
       if r \<noteq> n then Some (Exited, s) else cat devtab buf f s }
     else Some (if n < 0 then Exited else Returned (), s) }"

text \<open>The loop over the file names that \<^verbatim>\<open>cat\<close> and \<^verbatim>\<open>num\<close> share; \<open>body\<close> is what is done with an open file.\<close>

fun each_file :: "'w fserver \<Rightarrow> ('w client) dev list \<Rightarrow> (int \<Rightarrow> 'y \<times> 'w client \<Rightarrow> (unit outcome \<times> 'y \<times> 'w client) option) \<Rightarrow>
    u8 list list \<Rightarrow> 'y \<times> 'w client \<Rightarrow> (unit outcome \<times> 'y \<times> 'w client) option" where
  "each_file fsv devtab body [] x = Some (Returned (), x)"
| "each_file fsv devtab body (p # ps) x = do {
     (f, s) \<leftarrow> uopen fsv p O_RDONLY (snd x);
     if f < 0 then Some (Exited, fst x, s)
     else do {
       (o1, x) \<leftarrow> body f (fst x, s);
       (case o1 of
          Exited \<Rightarrow> Some (Exited, x)
        | Returned _ \<Rightarrow> do {
            (_, s) \<leftarrow> close devtab f (snd x);
            each_file fsv devtab body ps (fst x, s) }) } }"

definition cat_main :: "'w fserver \<Rightarrow> ('w client) dev list \<Rightarrow> u32 \<Rightarrow> u8 list list \<Rightarrow> 'w client \<Rightarrow>
    (unit outcome \<times> 'w client) option" where
  "cat_main fsv devtab buf argv s =
     (if length argv = 1 then cat devtab buf 0 s
      else do {
        (r, _, s) \<leftarrow> each_file fsv devtab
          (\<lambda>f (y, s). do { (r, s) \<leftarrow> cat devtab buf f s; Some (r, y, s) }) (tl argv) ((), s);
        Some (r, s) })"

text \<open>\<open>c\<close> is the address of the local \<^verbatim>\<open>c\<close>; \<open>bol\<close> and \<open>line\<close> are the static variables.\<close>

partial_function (option) num_lines :: "('x uproc_scheme) dev list \<Rightarrow> (u8 list \<Rightarrow> 'x uproc_scheme \<Rightarrow> (int \<times> 'x uproc_scheme) option) \<Rightarrow>
    u32 \<Rightarrow> int \<Rightarrow> (bool \<times> u32) \<times> 'x uproc_scheme \<Rightarrow> (unit outcome \<times> (bool \<times> u32) \<times> 'x uproc_scheme) option" where
  "num_lines devtab wr c f x = (case x of ((bol, line), s) \<Rightarrow> do {
     (n, s) \<leftarrow> fd_read devtab f c 1 s;
     if n > 0 then do {
       ((bol, line), s) \<leftarrow>
         (if bol then do {
            s \<leftarrow> outf wr (asc ''%5d '') [AInt (line + 1)] s;
            Some ((False, line + 1), s) }
          else Some ((bol, line), s));
       ch \<leftarrow> uld8 c s;
       (r, s) \<leftarrow> vfprintf wr (asc ''%c'') [AInt (scast ch)] s;
       if r \<noteq> 1 then Some (Exited, (bol, line), s)
       else do {
         ch \<leftarrow> uld8 c s;
         num_lines devtab wr c f ((if ch = 10 then True else bol, line), s) } }
     else Some (if n < 0 then Exited else Returned (), (bol, line), s) })"

definition num_main :: "'w fserver \<Rightarrow> ('w client) dev list \<Rightarrow> (u8 list \<Rightarrow> 'w client \<Rightarrow> (int \<times> 'w client) option) \<Rightarrow>
    u32 \<Rightarrow> u8 list list \<Rightarrow> 'w client \<Rightarrow> (unit outcome \<times> 'w client) option" where
  "num_main fsv devtab wr c argv s = do {
     (r, _, s) \<leftarrow>
       (if length argv = 1 then num_lines devtab wr c 0 ((True, 0), s)
        else each_file fsv devtab (num_lines devtab wr c) (tl argv) ((True, 0), s));
     Some (r, s) }"

section \<open>echo\<close>

fun echo_words :: "(u8 list \<Rightarrow> 's \<Rightarrow> (int \<times> 's) option) \<Rightarrow> bool \<Rightarrow> u8 list list \<Rightarrow> 's \<Rightarrow> 's option" where
  "echo_words wr sep [] s = Some s"
| "echo_words wr sep (w # ws) s = do {
     s \<leftarrow> (if sep then outf wr (asc '' '') [] s else Some s);
     s \<leftarrow> outf wr (asc ''%s'') [AStr w] s;
     echo_words wr True ws s }"

definition echo_main :: "(u8 list \<Rightarrow> 's \<Rightarrow> (int \<times> 's) option) \<Rightarrow> u8 list list \<Rightarrow> 's \<Rightarrow> 's option" where
  "echo_main wr argv s = do {
     let nflag = (length argv > 1 \<and> argv ! 1 = asc ''-n'');
     let argv = (if nflag then tl argv else argv);
     s \<leftarrow> echo_words wr False (tl argv) s;
     if nflag then Some s
     else outf wr (asc ''\<newline>'') [] s }"

section \<open>ls\<close>

definition ls1 :: "(u8 list \<Rightarrow> 's \<Rightarrow> (int \<times> 's) option) \<Rightarrow> u8 list \<Rightarrow> u8 list option \<Rightarrow> bool \<Rightarrow> u32 \<Rightarrow> u8 list \<Rightarrow>
    's \<Rightarrow> 's option" where
  "ls1 wr flags pre isdir sz name s = do {
     s \<leftarrow> (if chr CHR ''l'' \<in> set flags
          then outf wr (asc ''%11d %c '') [AInt sz, AInt (of_char (if isdir then CHR ''d'' else CHR ''-''))] s
          else Some s);
     s \<leftarrow> (case pre of
            None \<Rightarrow> Some s
          | Some p \<Rightarrow> outf wr (asc ''%s%s'')
              [AStr p, AStr (if p \<noteq> [] \<and> last p \<noteq> chr CHR ''/'' then asc ''/'' else [])] s);
     s \<leftarrow> outf wr (asc ''%s'') [AStr name] s;
     s \<leftarrow> (if chr CHR ''F'' \<in> set flags \<and> isdir then outf wr (asc ''/'') [] s else Some s);
     outf wr (asc '' '') [] s }"

text \<open>\<open>f\<close> is the address of the local \<^verbatim>\<open>struct File\<close>.\<close>

partial_function (option) lsdir_loop :: "('w client) dev list \<Rightarrow> (u8 list \<Rightarrow> 'w client \<Rightarrow> (int \<times> 'w client) option) \<Rightarrow>
    u8 list \<Rightarrow> u32 \<Rightarrow> int \<Rightarrow> u8 list option \<Rightarrow> 'w client \<Rightarrow> (unit outcome \<times> 'w client) option" where
  "lsdir_loop devtab wr flags f fd pre s = do {
     (n, s) \<leftarrow> readn devtab fd f 256 s;
     if n = 256 then do {
       name \<leftarrow> ustring (f + f_name) s;
       ty \<leftarrow> uld32 (f + f_type) s;
       sz \<leftarrow> uld32 (f + f_size) s;
       s \<leftarrow> (if name \<noteq> [] then ls1 wr flags pre (ty = FTYPE_DIR) sz name s else Some s);
       lsdir_loop devtab wr flags f fd pre s }
     else Some (if n = 0 then Returned () else Exited, s) }"

definition lsdir :: "'w fserver \<Rightarrow> ('w client) dev list \<Rightarrow> (u8 list \<Rightarrow> 'w client \<Rightarrow> (int \<times> 'w client) option) \<Rightarrow>
    u8 list \<Rightarrow> u32 \<Rightarrow> u8 list \<Rightarrow> u8 list option \<Rightarrow> 'w client \<Rightarrow> (unit outcome \<times> 'w client) option" where
  "lsdir fsv devtab wr flags f path pre s = do {
     (fd, s) \<leftarrow> uopen fsv path O_RDONLY s;
     if fd < 0 then Some (Exited, s) else lsdir_loop devtab wr flags f fd pre s }"

definition ls :: "'w fserver \<Rightarrow> ('w client) dev list \<Rightarrow> (u8 list \<Rightarrow> 'w client \<Rightarrow> (int \<times> 'w client) option) \<Rightarrow>
    u8 list \<Rightarrow> u32 \<Rightarrow> u32 \<Rightarrow> u8 list \<Rightarrow> u8 list \<Rightarrow> 'w client \<Rightarrow> (unit outcome \<times> 'w client) option" where
  "ls fsv devtab wr flags st f path pre s = do {
     (r, s) \<leftarrow> stat_path fsv devtab path st s;
     if r < 0 then Some (Exited, s)
     else do {
       isdir \<leftarrow> uld32 (st + st_isdir) s;
       if isdir \<noteq> 0 \<and> chr CHR ''d'' \<notin> set flags then lsdir fsv devtab wr flags f path (Some pre) s
       else do {
         sz \<leftarrow> uld32 (st + st_size) s;
         s \<leftarrow> ls1 wr flags None (isdir \<noteq> 0) sz path s;
         Some (Returned (), s) } } }"

fun ls_each :: "(u8 list \<Rightarrow> 's \<Rightarrow> (unit outcome \<times> 's) option) \<Rightarrow> u8 list list \<Rightarrow> 's \<Rightarrow> (unit outcome \<times> 's) option" where
  "ls_each f [] s = Some (Returned (), s)"
| "ls_each f (p # ps) s = do {
     (r, s) \<leftarrow> f p s;
     (case r of Exited \<Rightarrow> Some (Exited, s) | Returned _ \<Rightarrow> ls_each f ps s) }"

definition ls_main :: "'w fserver \<Rightarrow> ('w client) dev list \<Rightarrow> (u8 list \<Rightarrow> 'w client \<Rightarrow> (int \<times> 'w client) option) \<Rightarrow>
    u32 \<Rightarrow> u32 \<Rightarrow> u8 list list \<Rightarrow> 'w client \<Rightarrow> (unit outcome \<times> 'w client) option" where
  "ls_main fsv devtab wr st f argv s =
     (let (flags, argv) = parse_args (tl argv) in
      if \<not> set flags \<subseteq> set (asc ''dFl'') then Some (Exited, s)
      else do {
        (r, s) \<leftarrow> (if argv = [] then ls fsv devtab wr flags st f (asc ''/'') [] s
                  else ls_each (\<lambda>p. ls fsv devtab wr flags st f p p) argv s);
        (case r of
           Exited \<Rightarrow> Some (Exited, s)
         | Returned _ \<Rightarrow> do { s \<leftarrow> outf wr (asc ''\<newline>'') [] s; Some (Returned (), s) }) })"

section \<open>The shell\<close>

text \<open>The values \<^verbatim>\<open>fork\<close> returns are given, as in \<open>Shell\<close>; in the child the command is run.\<close>

partial_function (option) sh_loop :: "'w fserver \<Rightarrow> ('w client) dev list \<Rightarrow> (u8 list \<Rightarrow> 'w client \<Rightarrow> (int \<times> 'w client) option) \<Rightarrow>
    u32 \<Rightarrow> u32 \<Rightarrow> u32 \<Rightarrow> bool \<Rightarrow> bool \<Rightarrow> int list \<Rightarrow> 'w client \<Rightarrow> (unit outcome \<times> 'w client) option" where
  "sh_loop fsv devtab wr elfbuf exo buf interactive echocmds forks s = do {
     s \<leftarrow> (if interactive then outf wr (asc ''\<newline>$ '') [] s else Some s);
     (ok, s) \<leftarrow> readline uops (\<lambda>p. fd_read devtab 0 p 1) (\<lambda>bs. outf wr bs []) buf 1024 s;
     if \<not> ok then Some (Exited, s)
     else do {
       b \<leftarrow> uld8 buf s;
       if b = chr CHR ''#'' then sh_loop fsv devtab wr elfbuf exo buf interactive echocmds forks s
       else do {
         s \<leftarrow> (if echocmds then do { line \<leftarrow> ustring buf s; outf wr (asc ''# %s\<newline>'') [AStr line] s } else Some s);
         (case forks of
            [] \<Rightarrow> None
          | f # forks \<Rightarrow>
              if f < 0 then Some (Exited, s)
              else if f = 0 then do {
                (_, s) \<leftarrow> runcmd fsv devtab elfbuf exo forks buf s;
                Some (Exited, s) }
              else sh_loop fsv devtab wr elfbuf exo buf interactive echocmds forks s) } } }"

definition sh_banner :: "string list" where
  "sh_banner =
     [''\<newline>:::::::::::::::::::::::::::::::::::::::::::::::::::::::::::::\<newline>'',
      ''::                                                         ::\<newline>'',
      ''::                     MOS Shell 2024                      ::\<newline>'',
      ''::                                                         ::\<newline>'',
      '':::::::::::::::::::::::::::::::::::::::::::::::::::::::::::::\<newline>'']"

definition sh_main :: "'w fserver \<Rightarrow> ('w client) dev list \<Rightarrow> (u8 list \<Rightarrow> 'w client \<Rightarrow> (int \<times> 'w client) option) \<Rightarrow>
    u32 \<Rightarrow> u32 \<Rightarrow> u32 \<Rightarrow> int list \<Rightarrow> u8 list list \<Rightarrow> 'w client \<Rightarrow> (unit outcome \<times> 'w client) option" where
  "sh_main fsv devtab wr elfbuf exo buf forks argv s = do {
     con \<leftarrow> iscons 0 s;
     s \<leftarrow> foldM (\<lambda>l. outf wr (asc l) []) sh_banner s;
     let (flags, argv) = parse_args (tl argv);
     let interactive = (con \<noteq> 0 \<or> chr CHR ''i'' \<in> set flags);
     let echocmds = (chr CHR ''x'' \<in> set flags);
     if \<not> set flags \<subseteq> set (asc ''ix'') \<or> length argv > 1 then Some (Exited, s)
     else if length argv = 1 then do {
       (_, s) \<leftarrow> close devtab 0 s;
       (r, s) \<leftarrow> uopen fsv (hd argv) O_RDONLY s;
       if r \<noteq> 0 then Some (Exited, s)
       else sh_loop fsv devtab wr elfbuf exo buf interactive echocmds forks s }
     else sh_loop fsv devtab wr elfbuf exo buf interactive echocmds forks s }"

section \<open>What cat prints\<close>

lemma ubytes_view:
  "uok A W s0 s \<Longrightarrow> addrs p n \<subseteq> A \<Longrightarrow> ubytes n p s = Some (map (\<lambda>i. uview A s (p + word_of_nat i)) [0..<n])"
proof (induction n arbitrary: p)
  case (Suc n)
  have p: "p \<in> A" "addrs (p + 1) n \<subseteq> A" using Suc.prems(2) by (simp_all add: addrs_Suc)
  have "[0..<Suc n] = 0 # map Suc [0..<n]" by (simp only: upt_conv_Cons map_Suc_upt zero_less_Suc)
  then show ?case using Suc.IH [OF Suc.prems(1) p(2)] uld8_view [OF Suc.prems(1) p(1)] by (simp add: add.assoc comp_def)
qed simp

text \<open>A read that would go past the end of the file is cut to what is left.\<close>

lemma file_read_clip:
  assumes "fd_area A W k s" "fd_holds (uview A s) (INDEX2FD (int k)) devfile_id mode off sz"
    and "dev_lookup devtab devfile_id = Some (devfile fsv addr)" "off \<le> sz"
  shows "fd_read devtab (int k) buf n s = fd_read devtab (int k) buf (if off + n > sz then sz - off else n) s"
proof -
  have ok: "uok A W s s" using assms(1) by (simp add: fd_area_def uok_refl)
  have "ufile_read (INDEX2FD (int k)) buf n off s =
      ufile_read (INDEX2FD (int k)) buf (if off + n > sz then sz - off else n) off s"
    using fd_fields(4) [OF assms(1) ok assms(2)] by (simp add: ufile_read_def add.commute [of _ 144])
  then show ?thesis
    using fd_dev_file [OF assms(1) ok assms(2,3)] fd_fields(2) [OF assms(1) ok assms(2)]
    by (simp add: fd_read_def devfile_def cong: if_cong)
qed

lemma fd_area_uok: "uok A W s t \<Longrightarrow> fd_area A W k s \<Longrightarrow> fd_area A W k t"
  using uok_upt [of A W s t] by (simp add: fd_area_def distinct_bytes_def uloc_def writable_def cong: image_cong inj_on_cong)

lemma fd_area_show: "fd_area A W k (show_bytes bs s) = fd_area A W k s"
  by (simp add: fd_area_def distinct_bytes_def uloc_def writable_def show_bytes_def cong: image_cong inj_on_cong)

lemma uview_show: "uview A (show_bytes bs s) = uview A s"
  by (simp add: uview_def ubyte_def show_bytes_def fun_eq_iff split: option.split)

text \<open>Writing to the console through descriptor \<open>j\<close>.\<close>

lemma cons_write_step:
  assumes "fd_area A W j s" "fd_holds (uview A s) (INDEX2FD (int j)) devcons_id mode off sz"
    and "dev_lookup devtab devcons_id = Some (devcons addr)" "mode \<noteq> O_RDONLY"
    and "addrs buf (unat n) \<subseteq> A" "unat buf + unat n < unat UTOP"
  shows "\<exists>t. fd_write devtab (int j) buf n s = Some (uint n, t) \<and> fd_area A W j t \<and>
    uok A W (show_bytes (map (\<lambda>i. uview A s (buf + word_of_nat i)) [0..<unat n]) s) t \<and>
    fd_holds (uview A t) (INDEX2FD (int j)) devcons_id mode (off + n) sz \<and>
    (\<forall>a. a \<notin> addrs (INDEX2FD (int j)) 272 \<longrightarrow> uview A t a = uview A s a)"
proof -
  let ?fd = "INDEX2FD (int j)" and ?u = "show_bytes (map (\<lambda>i. uview A s (buf + word_of_nat i)) [0..<unat n]) s"
  have ok: "uok A W s s" using assms(1) by (simp add: fd_area_def uok_refl)
  have n: "unat n < 2 ^ 31" using assms(6) by simp
  have area: "fd_area A W j ?u" using assms(1) by (simp only: fd_area_show)
  then have oku: "uok A W ?u ?u" by (simp add: fd_area_def uok_refl)
  have held: "fd_holds (uview A ?u) ?fd devcons_id mode off sz" using assms(2) by (simp only: uview_show)
  have sum: "unat (buf + n) = unat buf + unat n" using assms(6) by (simp add: unat_word_ariths)
  have "\<not> (buf + n > UTOP \<or> buf \<ge> UTOP \<or> buf > buf + n)"
    using assms(6) unfolding word_less_nat_alt word_le_nat_alt sum by simp
  then have "u_print_cons buf n s = Some (0, ?u)"
    unfolding u_print_cons_def using ubytes_view [OF ok assms(5)] by simp
  then have "cons_write ?fd buf n off s = Some (uint n, ?u)"
    using sint_small [OF n] by (simp add: cons_write_def)
  then show ?thesis
    using fd_advance [OF area oku held n] fd_dev_file [OF assms(1) ok assms(2,3)] fd_fields(2,3) [OF assms(1) ok assms(2)]
      assms(4) fd_area_uok [OF _ area] by (auto simp: fd_write_def devcons_def uview_show)
qed

text \<open>
  What \<^verbatim>\<open>cat\<close> uses: the pages of the file of \<open>sz\<close> bytes open as descriptor \<open>k\<close>, the buffer, and the headers of the
  two descriptors, all apart.
\<close>

definition cat_area :: "u32 set \<Rightarrow> u32 set \<Rightarrow> nat \<Rightarrow> u32 \<Rightarrow> u32 \<Rightarrow> bool" where
  "cat_area A W k buf sz \<longleftrightarrow>
     (let D = addrs (fd2data (INDEX2FD (int k))) (unat sz); B = addrs buf 8192;
          H = addrs (INDEX2FD (int k)) 272 \<union> addrs (INDEX2FD 1) 272 in
      k \<noteq> 1 \<and> unat sz \<le> 0x400000 \<and> unat buf + 8192 < unat UTOP \<and>
      D \<subseteq> W \<and> B \<subseteq> W \<and> D \<inter> B = {} \<and> D \<inter> H = {} \<and> B \<inter> H = {})"

lemma cat_areaD:
  assumes "cat_area A W k buf sz"
  shows "addrs (fd2data (INDEX2FD (int k))) (unat sz) \<subseteq> W" "addrs buf 8192 \<subseteq> W"
    "addrs (fd2data (INDEX2FD (int k))) (unat sz) \<inter> addrs buf 8192 = {}"
    "addrs (fd2data (INDEX2FD (int k))) (unat sz) \<inter> addrs (INDEX2FD (int k)) 272 = {}"
    "addrs (fd2data (INDEX2FD (int k))) (unat sz) \<inter> addrs (INDEX2FD 1) 272 = {}"
    "addrs buf 8192 \<inter> addrs (INDEX2FD (int k)) 272 = {}" "addrs buf 8192 \<inter> addrs (INDEX2FD 1) 272 = {}"
  using assms unfolding cat_area_def Let_def by blast+

lemma headers_apart: "j < 32 \<Longrightarrow> k < 32 \<Longrightarrow> j \<noteq> k \<Longrightarrow> addrs (INDEX2FD (int j)) 272 \<inter> addrs (INDEX2FD (int k)) 272 = {}"
  using addrs_apart [of "INDEX2FD (int j)" 272 "INDEX2FD (int k)" 272] addrs_apart [of "INDEX2FD (int k)" 272 "INDEX2FD (int j)" 272]
    INDEX2FD_unat [of j] INDEX2FD_unat [of k] by (cases "j < k") auto

lemma cat_io:
  assumes "cat_area A W k buf sz" "W \<subseteq> A" "unat off + unat n \<le> unat sz" "unat n \<le> 8192"
  shows "io_area A W k off n buf sz" "addrs buf (unat n) \<subseteq> W"
proof -
  let ?F = "fd2data (INDEX2FD (int k))"
  have D: "addrs (?F + off) (unat n) \<subseteq> addrs ?F (unat sz)"
    using addrs_sub [of "unat off" "unat n" "unat sz" ?F] assms(3) by simp
  have B: "addrs buf (unat n) \<subseteq> addrs buf 8192"
    using addrs_sub [of 0 "unat n" 8192 buf] assms(4) by simp
  show "addrs buf (unat n) \<subseteq> W" using B cat_areaD(2) [OF assms(1)] by (rule subset_trans)
  moreover have "addrs (?F + off) (unat n) \<subseteq> W" using D cat_areaD(1) [OF assms(1)] by (rule subset_trans)
  moreover have "addrs (?F + off) (unat n) \<inter> addrs buf (unat n) = {}"
    using D B cat_areaD(3) [OF assms(1)] by blast
  moreover have "addrs (?F + off) (unat n) \<inter> addrs (INDEX2FD (int k)) 272 = {}"
    using D cat_areaD(4) [OF assms(1)] by blast
  moreover have "addrs buf (unat n) \<inter> addrs (INDEX2FD (int k)) 272 = {}"
    using B cat_areaD(6) [OF assms(1)] by blast
  moreover have "unat sz \<le> 0x400000" "unat buf + 8192 < unat UTOP" using assms(1) by (simp_all add: cat_area_def Let_def)
  ultimately show "io_area A W k off n buf sz"
    using assms(2-4) unfolding io_area_def Let_def by (intro conjI) (auto simp: UTOP_def)
qed

text \<open>The state in the loop: the file is at offset \<open>off\<close>, and its first \<open>pr\<close> bytes have been printed.\<close>

definition cat_at :: "u32 set \<Rightarrow> u32 set \<Rightarrow> nat \<Rightarrow> u32 \<Rightarrow> u32 \<Rightarrow> u32 \<Rightarrow> 'v tproc \<Rightarrow> u32 \<Rightarrow> u32 \<Rightarrow>
    'v tproc \<Rightarrow> bool" where
  "cat_at A W k mode sz cmode s0 off pr s \<longleftrightarrow>
     fd_area A W k s \<and> fd_area A W 1 s \<and> fd_holds (uview A s) (INDEX2FD (int k)) devfile_id mode off sz \<and>
     (\<exists>c z. fd_holds (uview A s) (INDEX2FD 1) devcons_id cmode c z) \<and>
     (\<forall>a \<in> addrs (fd2data (INDEX2FD (int k))) (unat sz). uview A s a = uview A s0 a) \<and>
     shown (csrv s) = shown (csrv s0) @
       serial_bytes (map (\<lambda>i. uview A s0 (fd2data (INDEX2FD (int k)) + word_of_nat i)) [0..<unat pr])"

lemma uok_csrv: "uok A W s t \<Longrightarrow> csrv t = csrv s"
proof -
  assume "uok A W s t"
  then have "t = s\<lparr>frames := frames t\<rparr>" by (simp only: uok_def)
  then have "csrv t = csrv (s\<lparr>frames := frames t\<rparr>)" by (rule arg_cong)
  then show ?thesis by simp
qed

lemma cat_round:
  assumes area: "cat_area A W k buf sz" and at: "cat_at A W k mode sz cmode s0 off off s"
    and devs: "dev_lookup devtab devfile_id = Some (devfile fsv fa)" "dev_lookup devtab devcons_id = Some (devcons ca)"
    and modes: "mode \<noteq> O_WRONLY" "cmode \<noteq> O_RDONLY"
    and n: "unat off + unat n \<le> unat sz" "unat n \<le> 8192"
  shows "\<exists>t u. fd_read devtab (int k) buf n s = Some (uint n, t) \<and> fd_write devtab 1 buf n t = Some (uint n, u) \<and>
    cat_at A W k mode sz cmode s0 (off + n) off t \<and> cat_at A W k mode sz cmode s0 (off + n) (off + n) u"
proof -
  let ?fd = "INDEX2FD (int k)" and ?F = "fd2data (INDEX2FD (int k))"
  let ?D = "addrs ?F (unat sz)"
  have fds: "fd_area A W k s" "fd_area A W 1 s" and held: "fd_holds (uview A s) ?fd devfile_id mode off sz"
    and D: "\<And>a. a \<in> ?D \<Longrightarrow> uview A s a = uview A s0 a"
    and out: "shown (csrv s) = shown (csrv s0) @ serial_bytes (map (\<lambda>i. uview A s0 (?F + word_of_nat i)) [0..<unat off])"
    using at by (simp_all add: cat_at_def)
  obtain c z where con: "fd_holds (uview A s) (INDEX2FD 1) devcons_id cmode c z" using at by (auto simp: cat_at_def)
  have ok: "uok A W s s" and WA: "W \<subseteq> A" using fds(1) by (simp_all add: fd_area_def uok_refl distinct_bytes_def)
  have k: "k \<noteq> 1" "k < 32" using area fds(1) by (simp_all add: cat_area_def fd_area_def Let_def)
  have hdr: "addrs (INDEX2FD 1) 272 \<inter> addrs ?fd 272 = {}" using headers_apart [of 1 k] k by simp
  note io = cat_io [OF area WA n]
  have B: "addrs buf (unat n) \<subseteq> addrs buf 8192" using addrs_sub [of 0 "unat n" 8192 buf] n(2) by simp
  obtain t where t: "fd_read devtab (int k) buf n s = Some (uint n, t)" "uok A W s t"
    "fd_holds (uview A t) ?fd devfile_id mode (off + n) sz"
    "\<And>a. a \<notin> addrs ?fd 272 \<Longrightarrow> uview A t a = mcopy (uview A s) buf (?F + off) (unat n) a"
    using file_read_step [OF fds(1) ok held io(1) devs(1) io(2) modes(1)] by blast
  have kept: "uview A t a = uview A s a" if "a \<notin> addrs ?fd 272" "a \<notin> addrs buf 8192" for a
  proof -
    have "a \<notin> addrs buf (unat n)" using B that(2) by (rule contra_subsetD)
    from mcopy_out [OF this] show ?thesis by (simp only: t(4) [OF that(1)])
  qed
  have fdt: "fd_area A W k t" "fd_area A W 1 t" using fd_area_uok [OF t(2)] fds by blast+
  have "uview A t a = uview A s a" if "a \<in> addrs (INDEX2FD 1) 272" for a
    using that cat_areaD(7) [OF area] hdr by (intro kept) blast+
  then have cont: "fd_holds (uview A t) (INDEX2FD 1) devcons_id cmode c z"
    using con fd_holds_cong by blast
  have Dt: "uview A t a = uview A s0 a" if "a \<in> ?D" for a
    using that cat_areaD(3,4) [OF area] D [OF that] kept [of a] by auto
  have read: "cat_at A W k mode sz cmode s0 (off + n) off t"
    using fdt t(3) cont Dt out uok_csrv [OF t(2)] unfolding cat_at_def by auto
  note cont
  moreover have "addrs buf (unat n) \<subseteq> A" using io(2) WA by (rule subset_trans)
  moreover have "unat buf + unat n < unat UTOP" using area n(2) by (simp add: cat_area_def Let_def)
  ultimately obtain u where u: "fd_write devtab 1 buf n t = Some (uint n, u)" "fd_area A W 1 u"
    "uok A W (show_bytes (map (\<lambda>i. uview A t (buf + word_of_nat i)) [0..<unat n]) t) u"
    "fd_holds (uview A u) (INDEX2FD 1) devcons_id cmode (c + n) z"
    "\<And>a. a \<notin> addrs (INDEX2FD 1) 272 \<Longrightarrow> uview A u a = uview A t a"
    using cons_write_step [of A W 1 t cmode c z devtab ca buf n] fdt(2) devs(2) modes(2) by auto
  have "fd_area A W k u" using fd_area_uok [OF u(3)] fdt(1) by (simp only: fd_area_show)
  moreover have "uview A u a = uview A t a" if "a \<in> addrs ?fd 272" for a
    using that hdr by (intro u(5)) blast
  then have "fd_holds (uview A u) ?fd devfile_id mode (off + n) sz"
    using t(3) fd_holds_cong by blast
  moreover have "uview A u a = uview A s0 a" if "a \<in> ?D" for a
  proof -
    have "a \<notin> addrs (INDEX2FD 1) 272" using that cat_areaD(5) [OF area] by blast
    then show ?thesis using u(5) Dt [OF that] by simp
  qed
  moreover have "uview A t (buf + word_of_nat i) = uview A s0 (?F + word_of_nat (unat off + i))" if i: "i < unat n" for i
  proof -
    have "buf + word_of_nat i \<in> addrs buf 8192" using i n(2) by (intro addrs_mem) simp
    then have "buf + word_of_nat i \<notin> addrs ?fd 272" using cat_areaD(6) [OF area] by blast
    then have "uview A t (buf + word_of_nat i) = uview A s (?F + off + word_of_nat i)"
      using t(4) mcopy_in [OF i] n(2) by simp
    moreover have "?F + word_of_nat (unat off + i) \<in> ?D" using i n(1) by (intro addrs_mem) simp
    ultimately show ?thesis using D by (simp add: add.assoc)
  qed
  then have new: "map (\<lambda>i. uview A t (buf + word_of_nat i)) [0..<unat n] =
      map (\<lambda>i. uview A s0 (?F + word_of_nat i)) [unat off..<unat off + unat n]"
    by (intro nth_equalityI) auto
  have "unat (off + n) = unat off + unat n" using io_sizes(3) [OF fds(1) io(1)] .
  then have "shown (csrv u) = shown (csrv s0) @ serial_bytes (map (\<lambda>i. uview A s0 (?F + word_of_nat i)) [0..<unat (off + n)])"
    using uok_csrv [OF u(3)] uok_csrv [OF t(2)] out
    by (simp add: show_bytes_def new upt_add_eq_append [of 0 "unat off" "unat n", simplified])
  ultimately have "cat_at A W k mode sz cmode s0 (off + n) (off + n) u" using u(2,4) unfolding cat_at_def by blast
  then show ?thesis using t(1) u(1) read by blast
qed

lemma cat_from:
  assumes area: "cat_area A W k buf sz"
    and devs: "dev_lookup devtab devfile_id = Some (devfile fsv fa)" "dev_lookup devtab devcons_id = Some (devcons ca)"
    and modes: "mode \<noteq> O_WRONLY" "cmode \<noteq> O_RDONLY"
  shows "cat_at A W k mode sz cmode s0 off off s \<Longrightarrow> off \<le> sz \<Longrightarrow>
    \<exists>t. cat devtab buf (int k) s = Some (Returned (), t) \<and> cat_at A W k mode sz cmode s0 sz sz t"
proof (induction "unat sz - unat off" arbitrary: off s rule: less_induct)
  case less
  define n where "n = (if off + 8192 > sz then sz - off else 8192)"
  have sz: "unat sz \<le> 0x400000" using area by (simp add: cat_area_def Let_def)
  have off: "unat off \<le> unat sz" using less.prems(2) by (simp only: word_le_nat_alt)
  then have sum: "unat (off + 8192) = unat off + 8192" using sz by (simp add: unat_word_ariths)
  have n: "unat off + unat n \<le> unat sz" "unat n \<le> 8192" "n = 0 \<longleftrightarrow> off = sz"
    using off sum less.prems(2) by (auto simp: n_def unat_sub word_less_nat_alt word_unat_eq_iff)
  have fds: "fd_area A W k s" "fd_holds (uview A s) (INDEX2FD (int k)) devfile_id mode off sz"
    using less.prems(1) by (simp_all add: cat_at_def)
  have clip: "fd_read devtab (int k) buf 8192 s = fd_read devtab (int k) buf n s"
    unfolding n_def by (rule file_read_clip [OF fds devs(1) less.prems(2)])
  obtain t u where r: "fd_read devtab (int k) buf n s = Some (uint n, t)" "fd_write devtab 1 buf n t = Some (uint n, u)"
    "cat_at A W k mode sz cmode s0 (off + n) off t" "cat_at A W k mode sz cmode s0 (off + n) (off + n) u"
    using cat_round [OF area less.prems(1) devs modes n(1,2)] by blast
  show ?case
  proof (cases "n = 0")
    case True
    then have "fd_read devtab (int k) buf 8192 s = Some (0, t)" "cat_at A W k mode sz cmode s0 sz sz t"
      using clip r(1,3) n(3) by simp_all
    then show ?thesis by (subst cat.simps) simp
  next
    case False
    then have pos: "unat n \<noteq> 0" by (simp only: unat_eq_0 not_False_eq_True)
    have further: "unat (off + n) = unat off + unat n" using n(1) sz by (simp add: unat_word_ariths)
    have smaller: "unat sz - unat (off + n) < unat sz - unat off" using further pos n(1) by linarith
    have "off + n \<le> sz" using further n(1) by (simp only: word_le_nat_alt)
    then obtain v where v: "cat devtab buf (int k) u = Some (Returned (), v)" "cat_at A W k mode sz cmode s0 sz sz v"
      using less.hyps [OF smaller r(4)] by blast
    have "uint n > 0" using pos by (simp only: uint_nat of_nat_0_less_iff)
    then have "cat devtab buf (int k) s = Some (Returned (), v)"
      using clip r(1,2) v(1) by (subst cat.simps) simp
    then show ?thesis using v(2) by blast
  qed
qed

text \<open>
  C25. \<^verbatim>\<open>cat\<close> prints the file. With a file open for reading as one descriptor and the console as descriptor 1,
  \<^verbatim>\<open>cat\<close> returns and what has been sent to the serial port is what \<^verbatim>\<open>printcharc\<close> sends for the bytes of the file,
  all of them and in order, whatever its size: each byte, and a carriage return before each newline.
  The buffer, the file's pages and the two descriptors must not overlap.
\<close>

theorem cat_prints:
  assumes "cat_area A W k buf sz" "fd_area A W k s" "fd_area A W 1 s"
    and "fd_holds (uview A s) (INDEX2FD (int k)) devfile_id mode 0 sz" "mode \<noteq> O_WRONLY"
    and "fd_holds (uview A s) (INDEX2FD 1) devcons_id cmode c z" "cmode \<noteq> O_RDONLY"
    and "dev_lookup devtab devfile_id = Some (devfile fsv fa)" "dev_lookup devtab devcons_id = Some (devcons ca)"
  shows "\<exists>t. cat devtab buf (int k) s = Some (Returned (), t) \<and>
    shown (csrv t) = shown (csrv s) @
      concat (map (\<lambda>i. let b = ubyte s (fd2data (INDEX2FD (int k)) + word_of_nat i) in if b = 10 then [13, 10] else [b])
        [0..<unat sz])"
proof -
  let ?F = "fd2data (INDEX2FD (int k))"
  have "cat_at A W k mode sz cmode s 0 0 s" using assms by (auto simp: cat_at_def)
  from cat_from [OF assms(1,8,9,5,7) this] obtain t
    where t: "cat devtab buf (int k) s = Some (Returned (), t)" "cat_at A W k mode sz cmode s sz sz t" by auto
  have "W \<subseteq> A" using assms(2) by (simp add: fd_area_def distinct_bytes_def)
  then have "?F + word_of_nat i \<in> A" if "i < unat sz" for i
    using cat_areaD(1) [OF assms(1)] addrs_mem [OF that, of ?F] by blast
  then have same: "map (\<lambda>i. uview A s (?F + word_of_nat i)) [0..<unat sz] = map (\<lambda>i. ubyte s (?F + word_of_nat i)) [0..<unat sz]"
    by (auto simp: uview_def)
  have "serial_bytes (map f is) = concat (map (\<lambda>i. let b = f i in if b = 10 then [13, 10] else [b]) is)" for f :: "nat \<Rightarrow> u8" and "is"
    unfolding serial_bytes_def map_map by (intro arg_cong [of _ _ concat] map_cong refl) (simp add: serial_byte_def Let_def)
  moreover have "shown (csrv t) = shown (csrv s) @ serial_bytes (map (\<lambda>i. uview A s (?F + word_of_nat i)) [0..<unat sz])"
    using t(2) by (simp add: cat_at_def)
  ultimately show ?thesis using t(1) unfolding same by simp
qed

text \<open>A file of two bytes open as descriptor 0, and the console as descriptor 1.\<close>

definition ex_cat :: "con client" where
  "ex_cat = \<lparr>upt = (\<lambda>p. Some (p, PTE_D)), upd = (\<lambda>_. True),
     frames = (\<lambda>f i. if f = 0x5fc00 then (if i = 0 then 102 else if i = 144 then 2 else 0)
       else if f = 0x5fc01 then (if i = 0 then 99 else if i = 8 then 1 else 0)
       else if f = 0x60000 then (if i = 0 then 104 else if i = 1 then 10 else 0) else 0),
     nframe = 0x100000, fsipcbuf = (\<lambda>_. 0), csrv = \<lparr>keyed = [], shown = []\<rparr>\<rparr>"

theorem cat_prints_witness:
  "\<exists>t. cat [devfile (\<lambda>_ _ _. None) 0, devcons 0] 0x500000 0 ex_cat = Some (Returned (), t) \<and> shown (csrv t) = [104, 13, 10]"
proof -
  let ?D = "[devfile (\<lambda>_ _ _. None) 0, devcons 0] :: con client dev list"
  have area: "cat_area UNIV UNIV 0 0x500000 2"
    using fd2data_unat [of 0] INDEX2FD_unat [of 0] INDEX2FD_unat [of 1]
    by (simp add: cat_area_def Let_def addrs_apart Int_Un_distrib)
  have fds: "fd_area UNIV UNIV k ex_cat" if "k < 32" for k
    using that by (intro identity_area) (simp_all add: ex_cat_def)
  have held: "fd_holds (uview UNIV ex_cat) (INDEX2FD (int 0)) devfile_id O_RDONLY 0 2"
    "fd_holds (uview UNIV ex_cat) (INDEX2FD 1) devcons_id 1 0 0"
    by (simp_all add: fd_holds_def rd32_def uview_def ubyte_def ex_cat_def INDEX2FD_def PDMAP_def VPN_div pgoff_def)
  have data: "ubyte ex_cat (fd2data (INDEX2FD (int 0))) = 104" "ubyte ex_cat (fd2data (INDEX2FD (int 0)) + 1) = 10"
    by (simp_all add: ubyte_def ex_cat_def fd2data_def fd2num_def INDEX2FD_def INDEX2DATA_def PDMAP_def VPN_div pgoff_def)
  have devs: "dev_lookup ?D devfile_id = Some (devfile (\<lambda>_ _ _. None) 0)" "dev_lookup ?D devcons_id = Some (devcons 0)"
    by (simp_all add: devfile_def devcons_def)
  obtain t where "cat ?D 0x500000 (int 0) ex_cat = Some (Returned (), t)"
    "shown (csrv t) = shown (csrv ex_cat) @
      concat (map (\<lambda>i. let b = ubyte ex_cat (fd2data (INDEX2FD (int 0)) + word_of_nat i) in if b = 10 then [13, 10] else [b])
        [0..<unat (2 :: u32)])"
    using cat_prints [OF area fds fds held(1) _ held(2) _ devs] by auto
  moreover have "shown (csrv ex_cat) = []" by (simp add: ex_cat_def)
  moreover have "[0..<unat (2 :: u32)] = [0, 1]" by (simp add: upt_rec)
  ultimately show ?thesis using data by (simp add: Let_def)
qed

section \<open>What echo prints\<close>

lemma printed_simps:
  "printed (asc ''%s'') [AStr w] = Some w" "printed (asc '' '') [] = Some (asc '' '')"
  "printed (asc ''\<newline>'') [] = Some (asc ''\<newline>'')"
  by (simp_all add: printed_def asc_def vprintfmt.simps parse_spec_def eat_def is_digit_def conversion_def str_arg_def print_str_def)

text \<open>The words with a blank between each two.\<close>

fun spaced :: "u8 list list \<Rightarrow> u8 list" where
  "spaced [] = []"
| "spaced [w] = w"
| "spaced (w # ws) = w @ chr CHR '' '' # spaced ws"

lemma outf_all:
  assumes "\<And>bs t. wr bs t = Some (int (length bs), app bs t)" "\<And>t. app [] t = t" "\<And>xs ys t. app ys (app xs t) = app (xs @ ys) t"
    and "printed fmt ap = Some w"
  shows "outf wr fmt ap s = Some (app w s)"
  using fprintf_all [of wr app fmt ap s, OF assms(1-3)] assms(4) by (simp add: outf_def)

lemma echo_words_all:
  assumes "\<And>bs t. wr bs t = Some (int (length bs), app bs t)" "\<And>t. app [] t = t" "\<And>xs ys t. app ys (app xs t) = app (xs @ ys) t"
  shows "echo_words wr sep ws s = Some (app ((if sep \<and> ws \<noteq> [] then asc '' '' else []) @ spaced ws) s)"
proof (induction ws arbitrary: sep s)
  case (Cons w ws)
  have o: "outf wr (asc '' '') [] t = Some (app (asc '' '') t)" "outf wr (asc ''%s'') [AStr w] t = Some (app w t)" for t
    using outf_all [of wr app, OF assms] by (simp_all only: printed_simps)
  show ?case
    using o unfolding echo_words.simps(2) Cons.IH by (cases ws) (simp_all add: assms(2,3) asc_def)
qed (simp add: assms(2))

text \<open>
  \<^verbatim>\<open>echo\<close> prints its arguments with one blank between each two, and a newline unless the first of them
  is \<^verbatim>\<open>-n\<close>, which is left out; \<open>app\<close> is what a descriptor that takes every byte does with them.
\<close>

theorem echo_prints:
  assumes "\<And>bs t. wr bs t = Some (int (length bs), app bs t)" "\<And>t. app [] t = t" "\<And>xs ys t. app ys (app xs t) = app (xs @ ys) t"
  shows "echo_main wr (name # ws) s =
    Some (app (if ws \<noteq> [] \<and> hd ws = asc ''-n'' then spaced (tl ws) else spaced ws @ asc ''\<newline>'') s)"
proof -
  have "outf wr (asc ''\<newline>'') [] t = Some (app (asc ''\<newline>'') t)" for t
    by (rule outf_all [of wr app, OF assms]) (rule printed_simps)
  then show ?thesis
    by (cases ws) (simp_all add: echo_main_def Let_def echo_words_all [of wr app, OF assms] assms(3) del: echo_words.simps)
qed

theorem echo_prints_witness:
  "echo_main (\<lambda>bs t. Some (int (length bs), t @ bs)) [asc ''echo'', asc ''a'', asc ''b''] [] = Some (asc ''a b\<newline>'')"
  using echo_prints [of "\<lambda>bs t. Some (int (length bs), t @ bs)" "\<lambda>bs t. t @ bs" "asc ''echo''" "[asc ''a'', asc ''b'']" "[]"]
  by (simp add: asc_def)

end
