(* ===== verification/Segments.thy ===== *)
theory Segments
  imports ElfLoader CString
begin

text \<open>
  What \<^verbatim>\<open>elf_load_seg\<close> makes of a segment. \<open>seg_mapper\<close> is what it needs of the callback: every call maps a
  new page at its address, with the bytes of the segment it names and zeros around them. The pages
  of the program are the \<open>page\<close> of the state, a map from page numbers to contents and permission;
  \<open>bytes\<close> are the bytes of the segment, of which \<open>avail\<close> can be read; \<open>legal\<close> are the addresses that can
  be mapped. The callback of \<^verbatim>\<open>spawn\<close> is an instance (theory \<open>SpawnLoad\<close>).
\<close>

text \<open>The page a call maps.\<close>

definition new_page :: "(nat \<Rightarrow> u8) \<Rightarrow> u32 \<Rightarrow> u32 option \<Rightarrow> u32 \<Rightarrow> nat \<Rightarrow> u8" where
  "new_page bytes offset src len j =
     (case src of
        None \<Rightarrow> 0
      | Some i \<Rightarrow> if unat offset \<le> j \<and> j < unat offset + unat len then bytes (unat i + (j - unat offset)) else 0)"

text \<open>The page with number \<open>p\<close> of a segment at \<open>va\<close> with \<open>n\<close> bytes from the file.\<close>

definition seg_page :: "(nat \<Rightarrow> u8) \<Rightarrow> nat \<Rightarrow> nat \<Rightarrow> nat \<Rightarrow> nat \<Rightarrow> u8" where
  "seg_page bytes va n p j =
     (if va \<le> 4096 * p + j \<and> 4096 * p + j < va + n \<and> j < 4096 then bytes (4096 * p + j - va) else 0)"

text \<open>The pages \<open>m\<close> of a program, with the first \<open>k\<close> bytes of the segment loaded.\<close>

definition loaded :: "(nat \<Rightarrow> u8) \<Rightarrow> nat \<Rightarrow> nat \<Rightarrow> u32 \<Rightarrow> nat \<Rightarrow> (nat \<Rightarrow> ((nat \<Rightarrow> u8) \<times> u32) option) \<Rightarrow>
    nat \<Rightarrow> ((nat \<Rightarrow> u8) \<times> u32) option" where
  "loaded bytes va n perm k m p =
     (if 4096 * p < va + k \<and> va < 4096 * (p + 1) then Some (seg_page bytes va n p, perm) else m p)"

lemma loaded_next:
  assumes "4096 dvd va + k" "P = (va + k) div 4096" "va \<le> 4096 * P"
  shows "loaded bytes va n perm (k + 4096) m = (loaded bytes va n perm k m)(P \<mapsto> (seg_page bytes va n P, perm))"
proof
  fix p
  have P: "va + k = 4096 * P" using assms(1,2) by simp
  then have "4096 * p < va + (k + 4096) \<longleftrightarrow> p \<le> P" "4096 * p < va + k \<longleftrightarrow> p < P" by linarith+
  then show "loaded bytes va n perm (k + 4096) m p = ((loaded bytes va n perm k m)(P \<mapsto> (seg_page bytes va n P, perm))) p"
    using assms(3) by (auto simp: loaded_def)
qed

lemma loaded_end:
  assumes "n \<le> k" "k < n + 4096" "4096 dvd va + k"
  shows "loaded bytes va f perm k m = loaded bytes va f perm n m"
proof
  fix p
  obtain q where q: "va + k = 4096 * q" using assms(3) by (rule dvdE)
  have "4096 * p < va + k \<longleftrightarrow> 4096 * p < va + n"
  proof (cases "p < q")
    case True
    then have "4096 * (p + 1) \<le> 4096 * q" by (intro mult_le_mono2) simp
    then show ?thesis using q assms(1,2) by simp
  qed (use q assms(1) in simp)
  then show "loaded bytes va f perm k m p = loaded bytes va f perm n m p" by (simp add: loaded_def)
qed

lemma page_offset_unat: "unat (va - ROUNDDOWN va 4096) = unat va mod 4096"
proof -
  have "va - ROUNDDOWN va 4096 = va AND mask 12"
  proof -
    have "ROUNDDOWN va 4096 = va AND NOT (mask 12)" by (simp add: ROUNDDOWN_def mask_eq_exp_minus_1)
    moreover have "va - (va AND NOT (mask 12)) = va AND NOT (va AND NOT (mask 12))"
      by (rule disjunctive_diff_eq_and_not) (rule bit_word_eqI, auto simp: bit_simps)
    moreover have "va AND NOT (va AND NOT (mask 12)) = va AND mask 12"
      by (rule bit_word_eqI) (auto simp: bit_simps)
    ultimately show ?thesis by simp
  qed
  then show ?thesis by (simp add: take_bit_eq_mask [symmetric] take_bit_eq_mod unat_mod)
qed

text \<open>The permission of a segment's pages.\<close>

definition seg_perm :: "Elf32_Phdr \<Rightarrow> u32" where
  "seg_perm ph = (if p_flags ph AND PF_W \<noteq> 0 then PTE_V OR PTE_D else PTE_V)"

locale seg_mapper =
  fixes map_page :: "'s mapper" and ok :: "'s \<Rightarrow> bool" and page :: "'s \<Rightarrow> nat \<Rightarrow> ((nat \<Rightarrow> u8) \<times> u32) option"
    and bytes :: "nat \<Rightarrow> u8" and avail :: nat and legal :: "u32 \<Rightarrow> bool"
  assumes map_law: "ok s \<Longrightarrow> legal va \<Longrightarrow> unat offset + unat len \<le> 4096 \<Longrightarrow>
      (\<And>i. src = Some i \<Longrightarrow> unat i + unat len \<le> avail) \<Longrightarrow>
      \<exists>t. map_page va offset perm src len s = Some (0, t) \<and> ok t \<and>
        page t = (page s)(VPN va \<mapsto> (new_page bytes offset src len, perm))"
begin

text \<open>One call at a page boundary of the program, with bytes of the file or past them.\<close>

lemma map_next:
  assumes "ok s" "page s = loaded bytes (unat va) n perm k m" "4096 dvd unat va + k"
    and "unat va + k + 4096 \<le> 2 ^ 32" "legal (va + word_of_nat k)"
    and src: "src = Some (word_of_nat k) \<and> unat len = min (n - k) 4096 \<and> k < n \<and> n \<le> avail \<or>
      src = None \<and> n \<le> k \<and> unat len \<le> 4096"
  shows "\<exists>t. map_page (va + word_of_nat k) 0 perm src len s = Some (0, t) \<and> ok t \<and>
    page t = loaded bytes (unat va) n perm (k + 4096) m"
proof -
  let ?P = "(unat va + k) div 4096"
  have k: "unat (word_of_nat k :: u32) = k" using assms(4) by (intro unat_of_nat32) simp
  have at: "unat (va + word_of_nat k) = unat va + k" using assms(4) by (simp add: unat_word_ariths k)
  have P: "4096 * ?P = unat va + k" using assms(3) by simp
  have new: "new_page bytes 0 src len = seg_page bytes (unat va) n ?P"
  proof
    fix j
    show "new_page bytes 0 src len j = seg_page bytes (unat va) n ?P j"
      using src unfolding seg_page_def P by (auto simp: new_page_def k)
  qed
  have "\<exists>t. map_page (va + word_of_nat k) 0 perm src len s = Some (0, t) \<and> ok t \<and>
      page t = (page s)(VPN (va + word_of_nat k) \<mapsto> (new_page bytes 0 src len, perm))"
    using src by (intro map_law assms(1,5)) (auto simp: k)
  then obtain t where t: "map_page (va + word_of_nat k) 0 perm src len s = Some (0, t)" "ok t"
    and page: "page t = (page s)(VPN (va + word_of_nat k) \<mapsto> (new_page bytes 0 src len, perm))"
    by blast
  have "unat va \<le> 4096 * ?P" using P by simp
  from loaded_next [OF assms(3) refl this]
  have "page t = loaded bytes (unat va) n perm (k + 4096) m"
    unfolding page new assms(2) VPN_div at by (rule sym)
  then show ?thesis using t by blast
qed

text \<open>The two loops.\<close>

lemma load_file_loaded:
  assumes "ok s" "page s = loaded bytes (unat va) (unat n) perm k m" "4096 dvd unat va + k"
    and "unat va + unat n + 4096 \<le> 2 ^ 32" "unat n \<le> avail" "\<And>i. i < unat n \<Longrightarrow> legal (va + word_of_nat i)"
    and "k < unat n + 4096"
  shows "\<exists>k' t. load_file map_page va perm n (word_of_nat k) s = Some (0, word_of_nat k', t) \<and> ok t \<and>
    page t = loaded bytes (unat va) (unat n) perm k' m \<and> 4096 dvd unat va + k' \<and> unat n \<le> k' \<and> k' < unat n + 4096"
  using assms
proof (induction "unat n - k" arbitrary: k s rule: less_induct)
  case less
  have k: "unat (word_of_nat k :: u32) = k" using less.prems(4,7) by (intro unat_of_nat32) simp
  show ?case
  proof (cases "k < unat n")
    case False
    then have "load_file map_page va perm n (word_of_nat k) s = Some (0, word_of_nat k, s)"
      by (subst load_file.simps) (simp add: word_less_nat_alt k)
    then show ?thesis using less.prems False by auto
  next
    case True
    let ?len = "cmin (n - word_of_nat k) 4096"
    have "unat (n - word_of_nat k) = unat n - k" using True by (simp add: unat_sub word_le_nat_alt k)
    then have len: "unat ?len = min (unat n - k) 4096" by (simp add: cmin_def word_le_nat_alt)
    have "unat va + k + 4096 \<le> 2 ^ 32" using less.prems(4) True by linarith
    then obtain t where t: "map_page (va + word_of_nat k) 0 perm (Some (word_of_nat k)) ?len s = Some (0, t)" "ok t"
      and page_t: "page t = loaded bytes (unat va) (unat n) perm (k + 4096) m"
      using map_next [OF less.prems(1-3) _ less.prems(6) [OF True], of "Some (word_of_nat k)" ?len] len True less.prems(5)
      by blast
    have "4096 dvd unat va + (k + 4096)" using dvd_add [OF less.prems(3) dvd_refl] by (simp only: add.assoc)
    moreover have "k + 4096 < unat n + 4096" "unat n - (k + 4096) < unat n - k" using True by simp_all
    ultimately obtain k' u where "load_file map_page va perm n (word_of_nat (k + 4096)) t = Some (0, word_of_nat k', u)"
      "ok u" "page u = loaded bytes (unat va) (unat n) perm k' m" "4096 dvd unat va + k'" "unat n \<le> k'" "k' < unat n + 4096"
      using less.hyps [OF _ t(2) page_t _ less.prems(4-6)] by blast
    moreover have "load_file map_page va perm n (word_of_nat k) s = load_file map_page va perm n (word_of_nat (k + 4096)) t"
      using t(1) True by (subst load_file.simps) (simp add: word_less_nat_alt k)
    ultimately show ?thesis by auto
  qed
qed

lemma load_bss_loaded:
  assumes "ok s" "page s = loaded bytes (unat va) n perm k m" "4096 dvd unat va + k" "n \<le> k"
    and "unat va + unat sz + 4096 \<le> 2 ^ 32" "\<And>i. i < unat sz \<Longrightarrow> legal (va + word_of_nat i)"
    and "k < unat sz + 4096"
  shows "\<exists>k' t. load_bss map_page va perm sz (word_of_nat k) s = Some (0, t) \<and> ok t \<and>
    page t = loaded bytes (unat va) n perm k' m \<and> 4096 dvd unat va + k' \<and> unat sz \<le> k' \<and> k' < unat sz + 4096"
  using assms
proof (induction "unat sz - k" arbitrary: k s rule: less_induct)
  case less
  have k: "unat (word_of_nat k :: u32) = k" using less.prems(5,7) by (intro unat_of_nat32) simp
  show ?case
  proof (cases "k < unat sz")
    case False
    then have "load_bss map_page va perm sz (word_of_nat k) s = Some (0, s)"
      by (subst load_bss.simps) (simp add: word_less_nat_alt k)
    then show ?thesis using less.prems False by auto
  next
    case True
    let ?len = "cmin (sz - word_of_nat k) 4096"
    have len: "unat ?len \<le> 4096" by (simp add: cmin_def word_le_nat_alt)
    have "unat va + k + 4096 \<le> 2 ^ 32" using less.prems(5) True by linarith
    then obtain t where t: "map_page (va + word_of_nat k) 0 perm None ?len s = Some (0, t)" "ok t"
      and page_t: "page t = loaded bytes (unat va) n perm (k + 4096) m"
      using map_next [OF less.prems(1-3) _ less.prems(6) [OF True], of None ?len] len less.prems(4) by blast
    have "4096 dvd unat va + (k + 4096)" using dvd_add [OF less.prems(3) dvd_refl] by (simp only: add.assoc)
    moreover have "k + 4096 < unat sz + 4096" "unat sz - (k + 4096) < unat sz - k" "n \<le> k + 4096"
      using True less.prems(4) by simp_all
    ultimately obtain k' u where "load_bss map_page va perm sz (word_of_nat (k + 4096)) t = Some (0, u)"
      "ok u" "page u = loaded bytes (unat va) n perm k' m" "4096 dvd unat va + k'" "unat sz \<le> k'" "k' < unat sz + 4096"
      using less.hyps [OF _ t(2) page_t _ _ less.prems(5,6)] by blast
    moreover have "load_bss map_page va perm sz (word_of_nat k) s = load_bss map_page va perm sz (word_of_nat (k + 4096)) t"
      using t(1) True by (subst load_bss.simps) (simp add: word_less_nat_alt k)
    ultimately show ?thesis by auto
  qed
qed

text \<open>The call for the page that holds the segment's address, when that is not the start of the page.\<close>

lemma first_page:
  assumes "ok s" "legal va" "unat va mod 4096 \<noteq> 0" "unat n \<le> avail"
  shows "\<exists>t. map_page va (va - ROUNDDOWN va 4096) perm (Some 0) (cmin n (4096 - (va - ROUNDDOWN va 4096))) s =
      Some (0, t) \<and> ok t \<and>
    page t = loaded bytes (unat va) (unat n) perm (min (unat n) (4096 - unat va mod 4096)) (page s)"
proof -
  let ?o = "va - ROUNDDOWN va 4096" and ?P = "unat va div 4096"
  let ?len = "cmin n (4096 - ?o)" and ?k = "min (unat n) (4096 - unat va mod 4096)"
  have off: "unat ?o = unat va mod 4096" by (rule page_offset_unat)
  then have "unat (4096 - ?o) = 4096 - unat va mod 4096" by (simp add: unat_sub word_le_nat_alt)
  then have len: "unat ?len = ?k" by (auto simp: cmin_def word_le_nat_alt)
  have "\<exists>t. map_page va ?o perm (Some 0) ?len s = Some (0, t) \<and> ok t \<and>
      page t = (page s)(VPN va \<mapsto> (new_page bytes ?o (Some 0) ?len, perm))"
    using assms by (intro map_law) (auto simp: off len)
  moreover have "(page s)(VPN va \<mapsto> (new_page bytes ?o (Some 0) ?len, perm)) =
      loaded bytes (unat va) (unat n) perm ?k (page s)"
  proof
    fix p
    define r q where "r = unat va mod 4096" and "q = unat va div 4096"
    then have va: "unat va = 4096 * q + r" "0 < r" "r < 4096" using assms(3) by simp_all
    note parts = r_def [symmetric] q_def [symmetric]
    have new: "new_page bytes ?o (Some 0) ?len = seg_page bytes (unat va) (unat n) ?P"
    proof
      fix j
      show "new_page bytes ?o (Some 0) ?len j = seg_page bytes (unat va) (unat n) ?P j"
        unfolding new_page_def seg_page_def off len option.case parts
        unfolding va(1) using va(2,3) by (auto simp: add.commute)
    qed
    have "4096 * p < unat va + ?k \<and> unat va < 4096 * (p + 1) \<longleftrightarrow> p = ?P"
      unfolding parts unfolding va(1) using va(2,3) by auto
    then show "((page s)(VPN va \<mapsto> (new_page bytes ?o (Some 0) ?len, perm))) p =
        loaded bytes (unat va) (unat n) perm ?k (page s) p"
      unfolding new VPN_div by (auto simp: loaded_def)
  qed
  ultimately show ?thesis by simp
qed

text \<open>
  A segment that fits: its address is that of a page, or the bytes of the file go at least to the end of
  its first page, or there is nothing after them.
\<close>

lemma load_seg_loaded:
  assumes "ok s" "unat (p_vaddr ph) + unat (p_memsz ph) + 4096 \<le> 2 ^ 32" "unat (p_filesz ph) \<le> unat (p_memsz ph)"
    and "p_memsz ph \<noteq> 0" "unat (p_filesz ph) \<le> avail" "\<And>i. i < unat (p_memsz ph) \<Longrightarrow> legal (p_vaddr ph + word_of_nat i)"
    and fits: "unat (p_vaddr ph) mod 4096 = 0 \<or> 4096 - unat (p_vaddr ph) mod 4096 \<le> unat (p_filesz ph) \<or> p_filesz ph = p_memsz ph"
  shows "\<exists>t. elf_load_seg ph map_page s = Some (0, t) \<and> ok t \<and>
    page t = loaded bytes (unat (p_vaddr ph)) (unat (p_filesz ph)) (seg_perm ph) (unat (p_memsz ph)) (page s)"
proof -
  let ?va = "p_vaddr ph" and ?n = "p_filesz ph" and ?sz = "p_memsz ph" and ?perm = "seg_perm ph"
  let ?o = "?va - ROUNDDOWN ?va 4096"
  let ?L = "\<lambda>k. loaded bytes (unat ?va) (unat ?n) ?perm k (page s)"
  define k where "k = (if unat ?va mod 4096 = 0 then 0 else min (unat ?n) (4096 - unat ?va mod 4096))"
  have o0: "?o = 0 \<longleftrightarrow> unat ?va mod 4096 = 0" by (metis page_offset_unat unat_eq_zero)
  have "unat (4096 - ?o) = 4096 - unat ?va mod 4096"
    by (simp add: unat_sub word_le_nat_alt page_offset_unat)
  then have "unat (cmin ?n (4096 - ?o)) = min (unat ?n) (4096 - unat ?va mod 4096)"
    by (auto simp: cmin_def word_le_nat_alt)
  moreover have "w = word_of_nat m" if "unat w = m" for w :: u32 and m using that by auto
  ultimately have "cmin ?n (4096 - ?o) = word_of_nat (min (unat ?n) (4096 - unat ?va mod 4096))" by blast
  then have start: "(if ?o \<noteq> 0 then cmin ?n (4096 - ?o) else 0) = word_of_nat k"
    unfolding k_def o0 by simp
  have legal: "legal ?va" using assms(6) [of 0] assms(4) by (simp add: unat_gt_0)
  obtain t where t: "(if ?o \<noteq> 0 then map_page ?va ?o ?perm (Some 0) (cmin ?n (4096 - ?o)) s else Some (0, s)) = Some (0, t)"
    "ok t" "page t = ?L k"
  proof (cases "unat ?va mod 4096 = 0")
    case True
    have "?L 0 = page s"
    proof
      fix p
      obtain q where "unat ?va = 4096 * q" using True by (metis mult_div_mod_eq add_0_right)
      then have "\<not> (4096 * p < unat ?va \<and> unat ?va < 4096 * (p + 1))" by simp
      then show "?L 0 p = page s p" by (auto simp: loaded_def)
    qed
    then show ?thesis using that [of s] True assms(1) o0 by (simp add: k_def)
  next
    case False
    then show ?thesis using that first_page [OF assms(1) legal False assms(5)] o0 by (auto simp: k_def)
  qed
  have run: "elf_load_seg ph map_page s =
      do { (r, i, s) \<leftarrow> load_file map_page ?va ?perm ?n (word_of_nat k) t;
        if r \<noteq> 0 then Some (r, s) else load_bss map_page ?va ?perm ?sz i s }"
    unfolding elf_load_seg_def Let_def seg_perm_def [symmetric] PAGE_SIZE_def t(1) start
    by simp
  have legals: "legal (?va + word_of_nat i)" if "i < unat ?n" for i using that assms(3,6) by simp
  have room: "unat ?va + unat ?n + 4096 \<le> 2 ^ 32" using assms(2,3) by linarith
  show ?thesis
  proof (cases "4096 dvd unat ?va + k")
    case True
    have "k < unat ?n + 4096" by (auto simp: k_def)
    then obtain i u where u: "load_file map_page ?va ?perm ?n (word_of_nat k) t = Some (0, word_of_nat i, u)" "ok u"
      "page u = ?L i" "4096 dvd unat ?va + i" "unat ?n \<le> i" "i < unat ?n + 4096"
      using load_file_loaded [OF t(2,3) True room assms(5) legals] by blast
    then obtain j v where v: "load_bss map_page ?va ?perm ?sz (word_of_nat i) u = Some (0, v)" "ok v" "page v = ?L j"
      "4096 dvd unat ?va + j" "unat ?sz \<le> j" "j < unat ?sz + 4096"
      using load_bss_loaded [OF u(2,3,4,5) assms(2,6)] assms(3) by fastforce
    have "page v = ?L (unat ?sz)" using v(3) loaded_end [OF v(5,6,4)] by simp
    then show ?thesis using run u(1) v(1,2) by simp
  next
    case False
    define r q where "r = unat ?va mod 4096" and "q = unat ?va div 4096"
    then have va: "unat ?va = 4096 * q + r" "r < 4096" by simp_all
    have off: "r \<noteq> 0"
    proof
      assume "r = 0"
      then have "unat ?va + k = 4096 * q" using va(1) unfolding k_def r_def by simp
      then show False using False by simp
    qed
    have "k \<noteq> 4096 - r"
    proof
      assume "k = 4096 - r"
      then have "unat ?va + k = 4096 * (q + 1)" using va by simp
      then show False using False by (metis dvd_triv_left)
    qed
    moreover have "k = min (unat ?n) (4096 - r)" using off unfolding k_def r_def by simp
    moreover have "4096 - r \<le> unat ?n \<or> ?n = ?sz" using fits off unfolding r_def by blast
    ultimately have k: "k = unat ?n" "?n = ?sz" by linarith+
    then have "load_file map_page ?va ?perm ?n (word_of_nat k) t = Some (0, ?n, t)" "load_bss map_page ?va ?perm ?sz ?n t = Some (0, t)"
      by (simp_all add: load_file.simps load_bss.simps)
    then show ?thesis using run t(2,3) k by simp
  qed
qed

text \<open>
  A segment that does not fit: the rest of its first page is mapped again, and with it a page of zeros
  takes the place of the one with the bytes of the file.
\<close>

lemma load_seg_lost:
  assumes "ok s" "unat (p_vaddr ph) + unat (p_memsz ph) \<le> 2 ^ 31" "unat (p_filesz ph) < unat (p_memsz ph)"
    and "unat (p_filesz ph) \<le> avail" "legal (p_vaddr ph)" "legal (p_vaddr ph + p_filesz ph)"
    and "unat (p_vaddr ph) mod 4096 \<noteq> 0" "unat (p_vaddr ph) mod 4096 + unat (p_memsz ph) \<le> 4096"
  shows "\<exists>t. elf_load_seg ph map_page s = Some (0, t) \<and> ok t \<and>
    page t = (page s)(VPN (p_vaddr ph) \<mapsto> (\<lambda>_. 0, seg_perm ph))"
proof -
  let ?va = "p_vaddr ph" and ?n = "p_filesz ph" and ?sz = "p_memsz ph" and ?perm = "seg_perm ph"
  let ?o = "?va - ROUNDDOWN ?va 4096"
  have o: "?o \<noteq> 0" using assms(7) by (metis page_offset_unat unat_0)
  have "unat (4096 - ?o) = 4096 - unat ?va mod 4096"
    by (simp add: unat_sub word_le_nat_alt page_offset_unat)
  moreover have "unat ?n \<le> 4096 - unat ?va mod 4096" using assms(3,8) by linarith
  ultimately have n: "cmin ?n (4096 - ?o) = ?n" by (simp add: cmin_def word_le_nat_alt)
  obtain t where t: "map_page ?va ?o ?perm (Some 0) ?n s = Some (0, t)" "ok t"
    "page t = loaded bytes (unat ?va) (unat ?n) ?perm (min (unat ?n) (4096 - unat ?va mod 4096)) (page s)"
    using first_page [OF assms(1,5,7,4)] unfolding n by blast
  have run: "elf_load_seg ph map_page s =
      do { (r, i, s) \<leftarrow> load_file map_page ?va ?perm ?n ?n t;
        if r \<noteq> 0 then Some (r, s) else load_bss map_page ?va ?perm ?sz i s }"
    unfolding elf_load_seg_def Let_def seg_perm_def [symmetric] PAGE_SIZE_def n using o t(1) by simp
  let ?len = "cmin (?sz - ?n) 4096"
  have "unat ?len \<le> 4096" by (simp add: cmin_def word_le_nat_alt)
  then obtain u where u: "map_page (?va + ?n) 0 ?perm None ?len t = Some (0, u)" "ok u"
    "page u = (page t)(VPN (?va + ?n) \<mapsto> (new_page bytes 0 None ?len, ?perm))"
    using map_law [OF t(2) assms(6), of 0 ?len None ?perm] by auto
  have stop: "\<not> ?n + 4096 < ?sz"
    using assms(2,3,8) by (simp add: word_less_nat_alt unat_word_ariths)
  have "load_file map_page ?va ?perm ?n ?n t = Some (0, ?n, t)" by (simp add: load_file.simps)
  moreover have "load_bss map_page ?va ?perm ?sz ?n t = Some (0, u)"
    using assms(3) u(1) stop by (subst load_bss.simps) (simp add: word_less_nat_alt load_bss.simps [of _ _ _ _ "?n + 4096"])
  ultimately have "elf_load_seg ph map_page s = Some (0, u)" unfolding run by simp
  moreover have "page u = (page s)(VPN ?va \<mapsto> (\<lambda>_. 0, ?perm))"
  proof
    fix p
    define r q where "r = unat ?va mod 4096" and "q = unat ?va div 4096"
    then have va: "unat ?va = 4096 * q + r" "r < 4096" by simp_all
    have in_page: "r + unat ?n < 4096" using assms(3,8) unfolding r_def by linarith
    have "unat (?va + ?n) = unat ?va + unat ?n" using assms(2,3) by (simp add: unat_word_ariths)
    then have "VPN (?va + ?n) = q" "VPN ?va = q" using va in_page by (simp_all add: VPN_div)
    moreover have "page t p = page s p" if "p \<noteq> q"
    proof -
      have "\<not> (4096 * p < unat ?va + unat ?n \<and> unat ?va < 4096 * (p + 1))"
        using va in_page that by auto
      then show ?thesis unfolding t(3) loaded_def by auto
    qed
    moreover have "new_page bytes 0 None ?len = (\<lambda>_. 0)" by (simp add: new_page_def fun_eq_iff)
    ultimately show "page u p = ((page s)(VPN ?va \<mapsto> (\<lambda>_. 0, ?perm))) p" by (simp add: u(3))
  qed
  ultimately show ?thesis using u(2) by blast
qed

end

end
