(* ===== verification/SpawnLoad.thy ===== *)
theory SpawnLoad
  imports Spawn Segments
begin

text \<open>
  What \<^verbatim>\<open>spawn\<close> makes of a segment of the program: its callback is an instance of the interface
  \<open>seg_mapper\<close>, so the segment is in the child's memory when \<^verbatim>\<open>elf_load_seg\<close> returns, unless it ends in
  its first page, has bytes after those of the file, and does not start at the start of a page.
\<close>

text \<open>The child's pages: their contents and permission.\<close>

definition kid_pages :: "'w spawner \<Rightarrow> nat \<Rightarrow> ((nat \<Rightarrow> u8) \<times> u32) option" where
  "kid_pages x p =
     (case snd x of
        None \<Rightarrow> None
      | Some k \<Rightarrow> map_option (\<lambda>(fr, perm). (frames (fst x) fr, perm)) (kpt k p))"

definition kid_bytes :: "'w spawner \<Rightarrow> u32 \<Rightarrow> nat \<Rightarrow> u8 list" where
  "kid_bytes x va n = map (\<lambda>i. kid_byte x (va + word_of_nat i)) [0..<n]"

text \<open>The frames of a process and its child are in use: the next new frame is none of them.\<close>

definition frames_used :: "'w client \<Rightarrow> kid \<Rightarrow> bool" where
  "frames_used s k \<longleftrightarrow>
     (\<forall>p fr perm. upt s p = Some (fr, perm) \<longrightarrow> fr < nframe s) \<and>
     (\<forall>p fr perm. kpt k p = Some (fr, perm) \<longrightarrow> fr < nframe s)"

text \<open>
  While the segment is loaded: its bytes, of which \<open>avail\<close> are at \<open>bin\<close>, stay readable, and the
  process keeps its mappings \<open>u\<close> but for the one at \<^verbatim>\<open>UTEMP\<close>.
\<close>

definition seg_ok :: "u32 \<Rightarrow> nat \<Rightarrow> (nat \<Rightarrow> u8) \<Rightarrow> (nat \<Rightarrow> (nat \<times> u32) option) \<Rightarrow> 'w spawner \<Rightarrow> bool" where
  "seg_ok bin avail bytes u x \<longleftrightarrow>
     (\<exists>s k. x = (s, Some k) \<and> frames_used s k \<and> distinct_bytes (addrs bin avail) {} s \<and>
       addrs bin avail \<inter> addrs UTEMP 4096 = {} \<and> (\<forall>i < avail. ubyte s (bin + word_of_nat i) = bytes i) \<and>
       (\<forall>p. p \<noteq> VPN UTEMP \<longrightarrow> upt s p = u p))"

lemma distinct_cong:
  assumes "distinct_bytes S {} s" "\<And>a. a \<in> S \<Longrightarrow> upt t (VPN a) = upt s (VPN a)"
  shows "distinct_bytes S {} t"
proof -
  have "inj_on (uloc t) S = inj_on (uloc s) S" by (rule inj_on_cong) (simp add: uloc_def assms(2))
  then show ?thesis using assms by (simp add: distinct_bytes_def)
qed

text \<open>A new page in the child.\<close>

lemma alloc_page:
  assumes "frames_used s k" "\<not> is_illegal_va va"
  shows "\<exists>t l. k_mem_alloc va perm (s, Some k) = (0, t, Some l) \<and> frames_used t l \<and> upt t = upt s \<and>
    nframe t = Suc (nframe s) \<and> kpt l = (kpt k)(VPN va \<mapsto> (nframe s, perm)) \<and> frames t (nframe s) = (\<lambda>_. 0) \<and>
    (\<forall>fr < nframe s. frames t fr = frames s fr)"
proof -
  let ?t = "s\<lparr>frames := (frames s)(nframe s := (\<lambda>_. 0)), nframe := nframe s + 1\<rparr>"
  let ?l = "k\<lparr>kpt := (kpt k)(VPN va \<mapsto> (nframe s, perm))\<rparr>"
  have "frames_used ?t ?l" using assms(1) by (fastforce simp: frames_used_def)
  then show ?thesis
    using assms(2) by (intro exI [of _ ?t] exI [of _ ?l]) (auto simp: k_mem_alloc_def)
qed

text \<open>The child's pages when only the frame of one of them is written.\<close>

lemma kid_pages_upd:
  assumes "frames_used s k" "kpt l = (kpt k)(P \<mapsto> (nframe s, perm))" "\<And>fr. fr < nframe s \<Longrightarrow> frames t fr = frames s fr"
  shows "kid_pages (t, Some l) = (kid_pages (s, Some k))(P \<mapsto> (frames t (nframe s), perm))"
proof
  fix p
  show "kid_pages (t, Some l) p = ((kid_pages (s, Some k))(P \<mapsto> (frames t (nframe s), perm))) p"
  proof (cases "p = P")
    case False
    have "frames t fr = frames s fr" if "kpt k p = Some (fr, pm)" for fr pm
      using assms(1,3) that unfolding frames_used_def by blast
    then show ?thesis using False by (cases "kpt k p") (auto simp: kid_pages_def assms(2))
  qed (simp add: kid_pages_def assms(2))
qed

text \<open>The segment's bytes stay what they are when frames of the process are not written.\<close>

lemma same_bytes:
  assumes "frames_used s k" "upt t (VPN a) = upt s (VPN a)" "\<And>fr. fr < nframe s \<Longrightarrow> frames t fr = frames s fr"
  shows "ubyte t a = ubyte s a"
proof (cases "upt s (VPN a)")
  case (Some q)
  obtain fr perm where q: "q = (fr, perm)" by (cases q)
  then have "frames t fr = frames s fr" using assms(1,3) Some unfolding frames_used_def by blast
  then show ?thesis using Some q assms(2) by (simp add: ubyte_def)
qed (simp add: ubyte_def assms(2))

lemma seg_ok_next:
  assumes "seg_ok bin avail bytes u (s, Some k)" "frames_used t l" "\<And>p. p \<noteq> VPN UTEMP \<Longrightarrow> upt t p = upt s p"
    and "\<And>fr. fr < nframe s \<Longrightarrow> frames t fr = frames s fr"
  shows "seg_ok bin avail bytes u (t, Some l)"
proof -
  let ?S = "addrs bin avail"
  have s: "frames_used s k" "distinct_bytes ?S {} s" "?S \<inter> addrs UTEMP 4096 = {}"
    "\<And>i. i < avail \<Longrightarrow> ubyte s (bin + word_of_nat i) = bytes i" "\<And>p. p \<noteq> VPN UTEMP \<Longrightarrow> upt s p = u p"
    using assms(1) unfolding seg_ok_def by auto
  have S: "upt t (VPN a) = upt s (VPN a)" if "a \<in> ?S" for a
    using assms(3) s(3) that utemp_page [of a] by blast
  have "ubyte t (bin + word_of_nat i) = bytes i" if "i < avail" for i
    using same_bytes [OF s(1) S assms(4)] addrs_mem [OF that] s(4) [OF that] by simp
  moreover have "distinct_bytes ?S {} t" using distinct_cong [OF s(2) S] .
  ultimately show ?thesis using assms(2,3) s(3,5) unfolding seg_ok_def by simp
qed

lemma addrs_from:
  fixes i :: u32
  assumes "unat i + n \<le> m"
  shows "addrs (p + i) n \<subseteq> addrs p m"
proof -
  have "p + i = p + word_of_nat (unat i)" by simp
  then show ?thesis using addrs_sub [OF assms, of p] by argo
qed

text \<open>The bytes of the segment in the new page, which is at \<^verbatim>\<open>UTEMP\<close> meanwhile.\<close>

lemma copied_page:
  fixes s t :: "'w client"
  assumes ok: "seg_ok bin avail bytes u (s, Some k)"
    and upt: "upt t = (upt s)(VPN UTEMP \<mapsto> (nframe s, pm))" and pm: "pm AND PTE_D \<noteq> 0"
    and zero: "frames t (nframe s) = (\<lambda>_. 0)" and old: "\<And>fr. fr < nframe s \<Longrightarrow> frames t fr = frames s fr"
    and fit: "unat offset + unat len \<le> 4096" "unat i + unat len \<le> avail"
  shows "\<exists>v. memcpy uops (UTEMP + offset) (bin + i) len t = Some (UTEMP + offset, v) \<and> v = t\<lparr>frames := frames v\<rparr> \<and>
    frames v (nframe s) = new_page bytes offset (Some i) len \<and> (\<forall>fr. fr \<noteq> nframe s \<longrightarrow> frames v fr = frames t fr)"
proof -
  let ?S = "addrs bin avail" and ?W = "addrs UTEMP 4096" and ?n = "unat len" and ?dst = "UTEMP + offset" and ?src = "bin + i"
  let ?A = "?S \<union> ?W"
  have s: "frames_used s k" "distinct_bytes ?S {} s" "?S \<inter> ?W = {}" "\<And>i. i < avail \<Longrightarrow> ubyte s (bin + word_of_nat i) = bytes i"
    using ok unfolding seg_ok_def by auto
  have bound: "fr < nframe s" if "upt s p = Some (fr, perm)" for p fr perm
    using s(1) that unfolding frames_used_def by blast
  have uok: "uok ?A ?W t t" using fresh_page [OF s(2,3) bound upt pm] by (rule uok_refl)
  have dst: "addrs ?dst ?n \<subseteq> ?W" using fit(1) by (rule addrs_from)
  have src: "addrs ?src ?n \<subseteq> ?S" using fit(2) by (rule addrs_from)
  have "unat ?dst + ?n + 4 < 2 ^ 32" using fit(1) by (simp add: unat_word_ariths)
  then obtain v where v: "memcpy uops ?dst ?src len t = Some (?dst, v)" "uok ?A ?W t v"
    "uview ?A v = mcopy (uview ?A t) ?dst ?src ?n"
    using umemcpy [OF uok dst, of ?src] src dst s(3) by blast
  have W: "uloc t a = Some (nframe s, pgoff a)" if "a \<in> ?W" for a
    using that utemp_offset(1) unfolding addrs_def uloc_def upt by auto
  have keep: "frames v fr j = frames t fr j" if "fr \<noteq> nframe s \<or> 4096 \<le> j" for fr j
  proof -
    have "pgoff a < 4096" for a by (simp add: pgoff_def unat_mod)
    then have "Some (fr, j) \<notin> uloc t ` ?W" using W that by (auto simp: not_less [symmetric])
    then show ?thesis using v(2) unfolding uok_def by blast
  qed
  have seen: "uview ?A t (bin + word_of_nat j) = bytes j" if "j < avail" for j
  proof -
    have S: "bin + word_of_nat j \<in> ?S" using that by (rule addrs_mem)
    then have "upt t (VPN (bin + word_of_nat j)) = upt s (VPN (bin + word_of_nat j))"
      using s(3) utemp_page [of "bin + word_of_nat j"] unfolding upt by auto
    from same_bytes [OF s(1) this old] show ?thesis using S s(4) [OF that] by (simp add: uview_def)
  qed
  have "frames v (nframe s) j = new_page bytes offset (Some i) len j" for j
  proof (cases "j < 4096")
    case False
    then have "frames v (nframe s) j = 0" using keep [of "nframe s" j] zero by simp
    moreover have "new_page bytes offset (Some i) len j = 0" using False fit(1) by (simp add: new_page_def)
    ultimately show ?thesis by simp
  next
    case True
    let ?a = "UTEMP + word_of_nat j"
    have a: "?a \<in> ?W" "VPN ?a = VPN UTEMP" "pgoff ?a = j"
      using True utemp_offset [of j] addrs_mem [of j 4096 UTEMP] by simp_all
    have upt_v: "upt v = upt t" using uok_upt [OF v(2)] by simp
    have byte: "uview ?A x ?a = frames x (nframe s) j" if "upt x = upt t" for x :: "'w client"
      using a by (simp add: uview_def ubyte_def that upt)
    have "frames v (nframe s) j = mcopy (uview ?A t) ?dst ?src ?n ?a" using byte [OF upt_v] v(3) by simp
    also have "\<dots> = new_page bytes offset (Some i) len j"
    proof (cases "unat offset \<le> j \<and> j < unat offset + ?n")
      case True
      then have at: "?a = ?dst + word_of_nat (j - unat offset)" by (simp add: of_nat_diff)
      have "j - unat offset < ?n" using True by linarith
      moreover have "?n < 2 ^ 32" using fit(1) by simp
      ultimately have "mcopy (uview ?A t) ?dst ?src ?n ?a = uview ?A t (?src + word_of_nat (j - unat offset))"
        unfolding at by (rule mcopy_in)
      also have "?src + word_of_nat (j - unat offset) = bin + word_of_nat (unat i + (j - unat offset))" by simp
      also have "uview ?A t (bin + word_of_nat (unat i + (j - unat offset))) = bytes (unat i + (j - unat offset))"
        using True fit(2) by (intro seen) linarith
      finally show ?thesis using True by (simp add: new_page_def)
    next
      case False
      have "?a \<notin> addrs ?dst ?n"
      proof
        assume "?a \<in> addrs ?dst ?n"
        then obtain d where d: "d < ?n" "?a = UTEMP + word_of_nat (unat offset + d)" unfolding addrs_def by (auto simp: add.assoc)
        then have "pgoff (UTEMP + word_of_nat (unat offset + d)) = j" using a(3) by simp
        then have "unat offset + d = j" using utemp_offset(2) [of "unat offset + d"] d(1) fit(1) by simp
        then show False using False d(1) by simp
      qed
      then have "mcopy (uview ?A t) ?dst ?src ?n ?a = uview ?A t ?a" by (rule mcopy_out)
      also have "\<dots> = 0" using byte [OF refl] zero by simp
      finally show ?thesis using False unfolding new_page_def by auto
    qed
    finally show ?thesis .
  qed
  then have "frames v (nframe s) = new_page bytes offset (Some i) len" by blast
  moreover have "frames v fr = frames t fr" if "fr \<noteq> nframe s" for fr using keep that by blast
  moreover have "v = t\<lparr>frames := frames v\<rparr>" using v(2) unfolding uok_def by blast
  ultimately show ?thesis using v(1) by blast
qed

text \<open>A call of the callback.\<close>

lemma mapper_step:
  assumes "seg_ok bin avail bytes u x" "\<not> is_illegal_va va" "unat offset + unat len \<le> 4096"
    and "\<And>i. src = Some i \<Longrightarrow> unat i + unat len \<le> avail"
  shows "\<exists>y. spawn_mapper bin va offset perm src len x = Some (0, y) \<and> seg_ok bin avail bytes u y \<and>
    kid_pages y = (kid_pages x)(VPN va \<mapsto> (new_page bytes offset src len, perm))"
proof -
  obtain s k where x: "x = (s, Some k)" using assms(1) unfolding seg_ok_def by blast
  note ok = assms(1) [unfolded x]
  have used: "frames_used s k" using ok unfolding seg_ok_def by blast
  obtain t l where t: "k_mem_alloc va perm (s, Some k) = (0, t, Some l)" "frames_used t l" "upt t = upt s" "nframe t = Suc (nframe s)"
    "kpt l = (kpt k)(VPN va \<mapsto> (nframe s, perm))" "frames t (nframe s) = (\<lambda>_. 0)" "\<forall>fr < nframe s. frames t fr = frames s fr"
    using alloc_page [OF used assms(2)] by blast
  show ?thesis
  proof (cases src)
    case None
    have "seg_ok bin avail bytes u (t, Some l)" using seg_ok_next [OF ok t(2)] t(3,7) by simp
    moreover have "new_page bytes offset None len = (\<lambda>_. 0)" by (simp add: new_page_def fun_eq_iff)
    moreover have "kid_pages (t, Some l) = (kid_pages (s, Some k))(VPN va \<mapsto> (frames t (nframe s), perm))"
      using kid_pages_upd [OF used t(5)] t(7) by blast
    ultimately show ?thesis using t(1,6) unfolding x None by (simp add: spawn_mapper_def)
  next
    case (Some i)
    define t1 where "t1 = t\<lparr>upt := (upt t)(VPN UTEMP \<mapsto> (nframe s, perm OR PTE_D)), upd := (upd t)(PDX UTEMP := True)\<rparr>"
    have legal: "\<not> is_illegal_va UTEMP" by (simp add: is_illegal_va_def)
    have map: "k_map_from va UTEMP (perm OR PTE_D) (t, Some l) = (0, t1, Some l)"
      using assms(2) legal t(5) unfolding k_map_from_def t1_def by simp
    have t1: "upt t1 = (upt s)(VPN UTEMP \<mapsto> (nframe s, perm OR PTE_D))" "frames t1 = frames t" "nframe t1 = nframe t"
      by (simp_all add: t1_def t(3))
    have "(perm OR PTE_D) AND PTE_D \<noteq> 0"
      by (simp add: bit.conj_disj_distrib2)
    then obtain v where v: "memcpy uops (UTEMP + offset) (bin + i) len t1 = Some (UTEMP + offset, v)" "v = t1\<lparr>frames := frames v\<rparr>"
      "frames v (nframe s) = new_page bytes offset (Some i) len" "\<forall>fr. fr \<noteq> nframe s \<longrightarrow> frames v fr = frames t fr"
      using copied_page [OF ok t1(1) _ _ _ assms(3) assms(4) [OF Some]] t(6,7) unfolding t1(2) by blast
    obtain g where g: "v = t1\<lparr>frames := g\<rparr>" using v(2) by blast
    define y where "y = v\<lparr>upt := (upt v)(VPN UTEMP := None)\<rparr>"
    have y: "upt y = (upt s)(VPN UTEMP := None)" "nframe y = Suc (nframe s)" "frames y = frames v"
      by (simp_all add: y_def g t1 t(4))
    have old: "frames y fr = frames s fr" if "fr < nframe s" for fr using v(4) t(7) that unfolding y(3) by simp
    have "frames_used y l" using t(2,4) unfolding frames_used_def y(1,2) t(3) by fastforce
    then have "seg_ok bin avail bytes u (y, Some l)" using seg_ok_next [OF ok _ _ old] y(1) by simp
    moreover have "kid_pages (y, Some l) = (kid_pages (s, Some k))(VPN va \<mapsto> (new_page bytes offset (Some i) len, perm))"
      using kid_pages_upd [OF used t(5) old] unfolding y(3) v(3) .
    moreover have "spawn_mapper bin va offset perm src len x = Some (0, (y, Some l))"
      using t(1) map v(1) legal unfolding x Some spawn_mapper_def on_self_def y_def by (simp add: u_mem_unmap_def)
    ultimately show ?thesis unfolding x Some by blast
  qed
qed

interpretation kid: seg_mapper "spawn_mapper bin" "seg_ok bin avail bytes u" kid_pages bytes avail "\<lambda>va. \<not> is_illegal_va va"
  for bin avail bytes u
  by unfold_locales (rule mapper_step)

section \<open>Segments that are loaded, and one that is not\<close>

text \<open>
  The child has the segment: its bytes, then zeros, on pages with the segment's permission; its other
  pages are those of \<open>k\<close>.
\<close>

definition seg_in_child :: "Elf32_Phdr \<Rightarrow> u8 list \<Rightarrow> 'w spawner \<Rightarrow> 'w spawner \<Rightarrow> bool" where
  "seg_in_child ph bs x y \<longleftrightarrow>
     (let va = unat (p_vaddr ph); n = unat (p_memsz ph) in
      kid_bytes y (p_vaddr ph) n = bs @ replicate (n - length bs) 0 \<and>
      (\<forall>p. if 4096 * p < va + n \<and> va < 4096 * (p + 1) then map_option snd (kid_pages y p) = Some (seg_perm ph)
           else kid_pages y p = kid_pages x p))"

lemma kid_byte_pages: "kid_byte x a = (case kid_pages x (VPN a) of None \<Rightarrow> 0 | Some (c, _) \<Rightarrow> c (pgoff a))"
  by (simp add: kid_byte_def kid_pages_def split: option.splits)

lemma page_split: "unat a = 4096 * VPN a + pgoff a" "pgoff a < 4096"
  by (simp_all add: VPN_div pgoff_def unat_mod)

lemma segment_legal:
  assumes "UTEMP \<le> va" "unat va + n \<le> unat UTOP" "i < n"
  shows "\<not> is_illegal_va (va + word_of_nat i)"
proof -
  have "unat (va + word_of_nat i) = unat va + i"
    using assms(2,3) unat_of_nat32 [of i] by (simp add: unat_word_ariths)
  then show ?thesis using assms by (simp add: is_illegal_va_def word_le_nat_alt word_less_nat_alt)
qed

lemma loaded_bytes:
  assumes "kid_pages y = loaded bytes (unat va) n perm m g" "unat va + m \<le> 2 ^ 31" "n \<le> m"
  shows "kid_bytes y va m = map bytes [0..<n] @ replicate (m - n) 0"
proof (rule nth_equalityI)
  show "length (kid_bytes y va m) = length (map bytes [0..<n] @ replicate (m - n) 0)"
    using assms(3) by (simp add: kid_bytes_def)
  fix i assume "i < length (kid_bytes y va m)"
  then have i: "i < m" by (simp add: kid_bytes_def)
  let ?a = "va + word_of_nat i"
  have "unat ?a = unat va + i" using assms(2) i unat_of_nat32 [of i] by (simp add: unat_word_ariths)
  then have at: "4096 * VPN ?a + pgoff ?a = unat va + i" "pgoff ?a < 4096"
    using page_split [of ?a] by simp_all
  then have "kid_byte y ?a = (if i < n then bytes i else 0)"
    using i unfolding kid_byte_pages assms(1) loaded_def seg_page_def by simp
  then show "kid_bytes y va m ! i = (map bytes [0..<n] @ replicate (m - n) 0) ! i"
    using i by (simp add: kid_bytes_def nth_append)
qed

text \<open>
  C27. A segment reaches the child. When the bytes of the segment can be read at \<open>bin\<close>, the segment lies
  between \<^verbatim>\<open>UTEMP\<close> and \<^verbatim>\<open>UTOP\<close>, and it starts at a page, or its bytes reach the end of its first page,
  or nothing follows them, then \<^verbatim>\<open>elf_load_seg\<close> with the callback of \<^verbatim>\<open>spawn\<close> succeeds. The
  child then has the bytes of the segment at its address and zeros after them, with the
  permission of the program header, its other pages are unchanged, and the process keeps its mappings
  but for the page at \<^verbatim>\<open>UTEMP\<close>.
\<close>

theorem spawn_segment:
  assumes "frames_used s k" "distinct_bytes (addrs bin (unat (p_filesz ph))) {} s"
    and "addrs bin (unat (p_filesz ph)) \<inter> addrs UTEMP 4096 = {}"
    and "UTEMP \<le> p_vaddr ph" "unat (p_vaddr ph) + unat (p_memsz ph) \<le> unat UTOP"
    and "p_memsz ph \<noteq> 0" "p_filesz ph \<le> p_memsz ph"
    and "unat (p_vaddr ph) mod 4096 = 0 \<or> 4096 \<le> unat (p_vaddr ph) mod 4096 + unat (p_filesz ph) \<or> p_filesz ph = p_memsz ph"
  shows "\<exists>y. elf_load_seg ph (spawn_mapper bin) (s, Some k) = Some (0, y) \<and>
    seg_in_child ph (map (\<lambda>i. ubyte s (bin + word_of_nat i)) [0..<unat (p_filesz ph)]) (s, Some k) y \<and>
    (upt (fst y))(VPN UTEMP := None) = (upt s)(VPN UTEMP := None)"
proof -
  let ?va = "p_vaddr ph" and ?n = "unat (p_filesz ph)" and ?m = "unat (p_memsz ph)"
  let ?bytes = "\<lambda>i. ubyte s (bin + word_of_nat i)"
  have ok: "seg_ok bin ?n ?bytes (upt s) (s, Some k)" using assms(1-3) by (simp add: seg_ok_def)
  have sizes: "unat ?va + ?m + 4096 \<le> 2 ^ 32" "?n \<le> ?m" using assms(5,7) by (simp_all add: word_le_nat_alt)
  have legal: "\<not> is_illegal_va (?va + word_of_nat i)" if "i < ?m" for i
    using assms(4,5) that by (rule segment_legal)
  have fits: "unat ?va mod 4096 = 0 \<or> 4096 - unat ?va mod 4096 \<le> ?n \<or> p_filesz ph = p_memsz ph"
    using assms(8) by linarith
  obtain y where y: "elf_load_seg ph (spawn_mapper bin) (s, Some k) = Some (0, y)" "seg_ok bin ?n ?bytes (upt s) y"
    "kid_pages y = loaded ?bytes (unat ?va) ?n (seg_perm ph) ?m (kid_pages (s, Some k))"
    using kid.load_seg_loaded [OF ok sizes assms(6) order.refl legal fits] by blast
  have "kid_bytes y ?va ?m = map ?bytes [0..<?n] @ replicate (?m - ?n) 0"
    using loaded_bytes [OF y(3) _ sizes(2)] assms(5) by simp
  then have "seg_in_child ph (map ?bytes [0..<?n]) (s, Some k) y"
    by (simp add: seg_in_child_def y(3) loaded_def)
  moreover have "(upt (fst y))(VPN UTEMP := None) = (upt s)(VPN UTEMP := None)"
    using y(2) by (auto simp: seg_ok_def fun_eq_iff)
  ultimately show ?thesis using y(1) by blast
qed

text \<open>A program header, and three bytes of a process.\<close>

definition ex_seg :: "u32 \<Rightarrow> u32 \<Rightarrow> Elf32_Phdr" where
  "ex_seg va n = \<lparr>p_type = PT_LOAD, p_offset = 0, p_vaddr = va, p_paddr = va, p_filesz = 3, p_memsz = n, p_flags = PF_W, p_align = 4096\<rparr>"

lemma one_arg_used: "frames_used one_arg new_kid"
  by (auto simp: frames_used_def one_arg_def new_kid_def split: if_splits)

theorem spawn_segment_witness:
  "\<exists>y. elf_load_seg (ex_seg 0x400ffe 0x1800) (spawn_mapper UTEXT) (one_arg, Some new_kid) = Some (0, y) \<and>
    seg_in_child (ex_seg 0x400ffe 0x1800) (map (\<lambda>i. ubyte one_arg (UTEXT + word_of_nat i)) [0..<unat (p_filesz (ex_seg 0x400ffe 0x1800))])
      (one_arg, Some new_kid) y \<and>
    (upt (fst y))(VPN UTEMP := None) = (upt one_arg)(VPN UTEMP := None)"
proof (rule spawn_segment [OF one_arg_used])
  have n: "unat (p_filesz (ex_seg 0x400ffe 0x1800)) = 3" by (simp add: ex_seg_def)
  show "distinct_bytes (addrs UTEXT (unat (p_filesz (ex_seg 0x400ffe 0x1800)))) {} one_arg"
    "addrs UTEXT (unat (p_filesz (ex_seg 0x400ffe 0x1800))) \<inter> addrs UTEMP 4096 = {}"
    unfolding n by (rule one_arg_memory)+
qed (simp_all add: ex_seg_def)

text \<open>
  C28. Bytes of a segment are lost. When a segment ends in its first page, does not start at a page
  and has zeros after its bytes, the page for the zeros is mapped over the one with the bytes:
  \<^verbatim>\<open>elf_load_seg\<close> succeeds with the callback of \<^verbatim>\<open>spawn\<close>, but the child finds only zeros.
\<close>

theorem segment_lost:
  assumes "frames_used s k" "distinct_bytes (addrs bin (unat (p_filesz ph))) {} s"
    and "addrs bin (unat (p_filesz ph)) \<inter> addrs UTEMP 4096 = {}"
    and "UTEMP \<le> p_vaddr ph" "unat (p_vaddr ph) + unat (p_memsz ph) \<le> unat UTOP" "p_filesz ph < p_memsz ph"
    and "unat (p_vaddr ph) mod 4096 \<noteq> 0" "unat (p_vaddr ph) mod 4096 + unat (p_memsz ph) \<le> 4096"
  shows "\<exists>y. elf_load_seg ph (spawn_mapper bin) (s, Some k) = Some (0, y) \<and>
    kid_bytes y (p_vaddr ph) (unat (p_memsz ph)) = replicate (unat (p_memsz ph)) 0"
proof -
  let ?va = "p_vaddr ph" and ?n = "unat (p_filesz ph)" and ?m = "unat (p_memsz ph)"
  let ?bytes = "\<lambda>i. ubyte s (bin + word_of_nat i)"
  have ok: "seg_ok bin ?n ?bytes (upt s) (s, Some k)" using assms(1-3) by (simp add: seg_ok_def)
  have n: "?n < ?m" using assms(6) by (simp add: word_less_nat_alt)
  have high: "unat ?va + ?m \<le> 2 ^ 31" using assms(5) by simp
  have "\<not> is_illegal_va ?va" "\<not> is_illegal_va (?va + p_filesz ph)"
    using segment_legal [OF assms(4,5), of 0] segment_legal [OF assms(4,5) n] n by simp_all
  then obtain y where y: "elf_load_seg ph (spawn_mapper bin) (s, Some k) = Some (0, y)"
    "kid_pages y = (kid_pages (s, Some k))(VPN ?va \<mapsto> (\<lambda>_. 0, seg_perm ph))"
    using kid.load_seg_lost [OF ok high n order.refl _ _ assms(7,8)] by blast
  have "kid_byte y (?va + word_of_nat i) = 0" if "i < ?m" for i
  proof -
    have "unat (?va + word_of_nat i) = unat ?va + i"
      using high that unat_of_nat32 [of i] by (simp add: unat_word_ariths)
    then have "4096 * VPN (?va + word_of_nat i) + pgoff (?va + word_of_nat i) = unat ?va + i"
      using page_split(1) [of "?va + word_of_nat i"] by simp
    moreover have "unat ?va = 4096 * VPN ?va + unat ?va mod 4096" by (simp add: VPN_div)
    ultimately have "VPN (?va + word_of_nat i) = VPN ?va"
      using that assms(8) page_split(2) [of "?va + word_of_nat i"] by linarith
    then show ?thesis by (simp add: kid_byte_pages y(2))
  qed
  then have "kid_bytes y ?va ?m = replicate ?m 0" unfolding kid_bytes_def by (intro replicate_eqI) auto
  then show ?thesis using y(1) by blast
qed

theorem segment_lost_witness:
  "\<exists>y. elf_load_seg (ex_seg 0x401010 8) (spawn_mapper UTEXT) (one_arg, Some new_kid) = Some (0, y) \<and>
    kid_bytes y 0x401010 8 = replicate 8 0"
proof -
  have n: "unat (p_filesz (ex_seg 0x401010 8)) = 3" by (simp add: ex_seg_def)
  have "\<exists>y. elf_load_seg (ex_seg 0x401010 8) (spawn_mapper UTEXT) (one_arg, Some new_kid) = Some (0, y) \<and>
    kid_bytes y (p_vaddr (ex_seg 0x401010 8)) (unat (p_memsz (ex_seg 0x401010 8))) = replicate (unat (p_memsz (ex_seg 0x401010 8))) 0"
  proof (rule segment_lost [OF one_arg_used])
    show "distinct_bytes (addrs UTEXT (unat (p_filesz (ex_seg 0x401010 8)))) {} one_arg"
      "addrs UTEXT (unat (p_filesz (ex_seg 0x401010 8))) \<inter> addrs UTEMP 4096 = {}"
      unfolding n by (rule one_arg_memory)+
  qed (simp_all add: ex_seg_def)
  then show ?thesis by (simp add: ex_seg_def)
qed

end
