(* ===== verification/Spec2Isabelle.thy ===== *)
theory Spec2Isabelle
  imports Transparency Refill Boot Exofork Pio Server ForkKernel Fsformat UserIpc Programs SpawnLoad
begin

text \<open>
  BUAA MOS with swap: a model of the MOS teaching kernel, its user-level libraries and its file
  server, with the theorems that make them correct.

  \<^bold>\<open>The program.\<close> MOS is a small operating system for a MIPS32 machine. The kernel (\<^verbatim>\<open>kern/\<close>,
  \<^verbatim>\<open>include/\<close>, \<^verbatim>\<open>lib/\<close>) manages physical pages and two-level page tables, evicts pages to a
  second disk when memory runs out (the swap code in \<^verbatim>\<open>kern/pmap.c\<close>), runs environments (processes)
  round robin, refills the TLB and serves system calls. User programs (\<^verbatim>\<open>user/lib/\<close>) implement
  copy-on-write \<^verbatim>\<open>fork\<close>, file descriptors and pipes on shared pages; the file system (\<^verbatim>\<open>fs/\<close>) is a
  user-level server reached by IPC.

  \<^bold>\<open>The theories\<close>, in the order of their imports:

  \<^item> \<^verbatim>\<open>Prelude\<close>: fixed-width types, the rounding macros, error codes, the option monad of code that
    can panic, shared lemmas on words and lists.
  \<^item> \<^verbatim>\<open>Mmu\<close>: \<^verbatim>\<open>include/mmu.h\<close> and the inline functions of \<^verbatim>\<open>include/pmap.h\<close>; the address checks.
  \<^item> \<^verbatim>\<open>Queue\<close>: the intrusive \<^verbatim>\<open>LIST_\<close> and \<^verbatim>\<open>TAILQ_\<close> macros on a store of link fields, with the
    representation relation to lists; locale interpretations give every operation its list meaning.
  \<^item> \<^verbatim>\<open>Bitmap\<close>: the bitmap scan and the allocator interface \<^verbatim>\<open>slot_allocator\<close>, interpreted on the
    swap blocks (\<^verbatim>\<open>Pmap\<close>) and the address space identifiers (\<^verbatim>\<open>EnvMgr\<close>).
  \<^item> \<^verbatim>\<open>Pmap\<close>: \<^verbatim>\<open>kern/pmap.c\<close>: \<^verbatim>\<open>struct Page\<close>, page tables as a store of 1024-entry tables keyed by
    frame, page allocation, insertion, lookup, removal, the lists of mappings kept for each swappable
    page and each swapped-out block, the clock, eviction and swap-in.
  \<^item> \<^verbatim>\<open>Vm\<close> and \<^verbatim>\<open>Transparency\<close>: what a process sees at an address, the invariant between page tables,
    swap lists, disk bitmap and free list, and its preservation; the properties of the pager.
  \<^item> \<^verbatim>\<open>CString\<close>, \<^verbatim>\<open>Print\<close>: \<^verbatim>\<open>lib/string.c\<close> over an abstract byte store, \<^verbatim>\<open>lib/print.c\<close>.
  \<^item> \<^verbatim>\<open>MemView\<close>: the locale \<open>byte_view\<close> of what the string functions need of memory, interpreted on plain
    memory here and on the pages of a process in \<^verbatim>\<open>FileClient\<close>.
  \<^item> \<^verbatim>\<open>Kstate\<close>, \<^verbatim>\<open>EnvMgr\<close>, \<^verbatim>\<open>Sched\<close>, \<^verbatim>\<open>Tlbex\<close>, \<^verbatim>\<open>Syscall\<close>, \<^verbatim>\<open>ElfLoader\<close>: the kernel's state and the files
    \<^verbatim>\<open>kern/env.c\<close>, \<^verbatim>\<open>kern/sched.c\<close>, \<^verbatim>\<open>kern/tlbex.c\<close>, \<^verbatim>\<open>kern/syscall_all.c\<close>, \<^verbatim>\<open>lib/elfloader.c\<close>.
  \<^item> \<^verbatim>\<open>Refill\<close>: what a TLB refill shows the process, and the trap frame in memory.
  \<^item> \<^verbatim>\<open>Remap\<close>, \<^verbatim>\<open>MapPage\<close>, \<^verbatim>\<open>MapTotal\<close>: the invariant \<open>remap_ok\<close> of the directories in use, kept by
    \<^verbatim>\<open>page_lookup\<close>, \<^verbatim>\<open>page_remove\<close>, \<^verbatim>\<open>page_insert\<close> and the registration of pages; what these calls
    do to the view of every process; that they return when pages are free.
  \<^item> \<^verbatim>\<open>Boot\<close>: the boot-time allocator and the loops of \<^verbatim>\<open>page_init\<close> establish that invariant.
  \<^item> \<^verbatim>\<open>MemCalls\<close>, \<^verbatim>\<open>MapFaults\<close>: the system calls on memory in a consistent kernel (\<open>kvm_ok\<close>), and where they
    go wrong.
  \<^item> \<^verbatim>\<open>Ledger\<close>: the account of every page: free, or a directory or table, or mapped and counted once per mapping;
    \<^verbatim>\<open>page_decref\<close>, \<^verbatim>\<open>page_remove\<close> and the loops of \<^verbatim>\<open>env_free\<close> keep it.
  \<^item> \<^verbatim>\<open>Lifecycle\<close>, \<^verbatim>\<open>Exofork\<close>: address spaces appear and disappear: \<^verbatim>\<open>env_free\<close> and \<^verbatim>\<open>sys_exofork\<close> in a consistent
    kernel.
  \<^item> \<^verbatim>\<open>Pio\<close>: the swap disk's driver and \<^verbatim>\<open>fs/ide.c\<close> over the device registers, which are parameters.
  \<^item> \<^verbatim>\<open>Fs\<close>, \<^verbatim>\<open>Blocks\<close>, \<^verbatim>\<open>Mount\<close>, \<^verbatim>\<open>Files\<close>: \<^verbatim>\<open>fs/fs.c\<close>: the block cache at \<^verbatim>\<open>DISKMAP\<close>, the bitmap, files and
    directories; then the properties of blocks, of mounting and of paths and metadata.
  \<^item> \<^verbatim>\<open>Serv\<close>, \<^verbatim>\<open>Server\<close>: \<^verbatim>\<open>fs/serv.c\<close>: the open-file table and the requests, and their properties.
    What the tries of \<^verbatim>\<open>ipc_send\<close> meet, a receiver that is busy or gone, is an input kept in the state.
  \<^item> \<^verbatim>\<open>Fsformat\<close>: \<^verbatim>\<open>tools/fsformat.c\<close>, the host program that builds the disk image.
  \<^item> \<^verbatim>\<open>Filefd\<close>, \<^verbatim>\<open>Fd\<close>, \<^verbatim>\<open>Pipe\<close>, \<^verbatim>\<open>Fork\<close>: \<^verbatim>\<open>user/lib/fd.c\<close>, \<^verbatim>\<open>user/lib/pipe.c\<close>, \<^verbatim>\<open>user/lib/fork.c\<close>.
    \<^verbatim>\<open>Fork\<close> keeps which frames are swapped out, which a program sees in its page table.
  \<^item> \<^verbatim>\<open>ForkKernel\<close>: the system calls of \<^verbatim>\<open>Fork\<close> are what a user sees of those of \<^verbatim>\<open>Syscall\<close>.
  \<^item> \<^verbatim>\<open>FileClient\<close>: \<^verbatim>\<open>user/lib/file.c\<close> and \<^verbatim>\<open>user/lib/fsipc.c\<close>; the server's answers are an argument.
  \<^item> \<^verbatim>\<open>Spawn\<close>: \<^verbatim>\<open>user/lib/spawn.c\<close> on the pages of the process and of its child.
  \<^item> \<^verbatim>\<open>Segments\<close>, \<^verbatim>\<open>SpawnLoad\<close>: the loader over the interface \<open>seg_mapper\<close> of its callback, which the callback of
    \<^verbatim>\<open>spawn\<close> satisfies.
  \<^item> \<^verbatim>\<open>Shell\<close>: the tokenizer, parser and line editor of \<^verbatim>\<open>user/sh.c\<close>.
  \<^item> \<^verbatim>\<open>Console\<close>: \<^verbatim>\<open>user/lib/console.c\<close>, \<^verbatim>\<open>debugf.c\<close>, \<^verbatim>\<open>fprintf.c\<close>: the terminal of a process and formatted output;
    the serial port gets a carriage return before each newline, as the kernel's \<^verbatim>\<open>printcharc\<close> sends it.
  \<^item> \<^verbatim>\<open>Programs\<close>: \<^verbatim>\<open>user/cat.c\<close>, \<^verbatim>\<open>num.c\<close>, \<^verbatim>\<open>echo.c\<close>, \<^verbatim>\<open>ls.c\<close> and the main loop of \<^verbatim>\<open>user/sh.c\<close>.
  \<^item> \<^verbatim>\<open>UserIpc\<close>: \<^verbatim>\<open>user/lib/ipc.c\<close> and \<^verbatim>\<open>wait.c\<close>, the loops around the system calls for messages.

  \<^bold>\<open>What the lemmas show.\<close>

  \<^item> Paging: the invariant \<open>swap_wf\<close> ties page tables, reference counts, the lists of mappings and the disk
    bitmap together; eviction, swap-in, look-up and allocation keep it and what every process sees.
    Allocation succeeds as long as a page is free or the swap disk has room.
  \<^item> Mapping: the invariant holds after \<^verbatim>\<open>page_init\<close>, and survives \<^verbatim>\<open>sys_mem_alloc\<close>, \<^verbatim>\<open>sys_mem_map\<close> and \<^verbatim>\<open>sys_mem_unmap\<close> with
    legal addresses, each of which changes exactly one address of one process, and
    \<^verbatim>\<open>sys_exofork\<close> and \<^verbatim>\<open>env_free\<close>, which change one process only and lose no page, except that \<^verbatim>\<open>env_alloc\<close>
    keeps the page of a directory when the address space identifiers are used up. The hypotheses exclude what the code gets wrong, and
    a property shows each: a permission with address bits, a mapping that exists already, a page evicted while
    it is mapped. The invariant is not followed through \<^verbatim>\<open>env_init\<close>, the loading of the first programs and the
    messages that carry a page.
  \<^item> Processes: round robin, message exchange, identifiers, what a store to a shared page and \<^verbatim>\<open>fork\<close> do
    to the memory of the processes involved.
  \<^item> Libraries: \<^verbatim>\<open>memcpy\<close>, \<^verbatim>\<open>memset\<close>, \<^verbatim>\<open>strcmp\<close> and number printing against plain definitions; the queue
    macros against lists; pipes as bounded FIFOs under every interleaving of reader and writer.
  \<^item> Files: the allocator of blocks, the cache, mounting, path walks, the server's table and replies, the
    descriptors, and reading back through a descriptor what was written; the image builder's output
    mounts; \<^verbatim>\<open>spawn\<close> hands the arguments and the segments of the
    program to the child; the shell's tokens and its edited lines against reference definitions;
    \<^verbatim>\<open>cat\<close> shows a file on the console, through the file's pages, the two descriptors and the console device.
  \<^item> Where the code does something else than its comments or its purpose, the property states what it
    does: a reader that misses the end of a pipe, positions that wrap, metadata that is not written, a
    message delivered although its sender is told that it was not, a copy-on-write page evicted before its
    handler looks at it, a request that stops the file server.

  \<^bold>\<open>Loops and fuel.\<close> Loops over counters recurse on lists or words with a measure. A loop that may not end is
  a \<^theory_text>\<open>partial_function\<close> in the option monad, and the theorems about it state that it returns. The clock of
  the swap code runs at most 100 rounds in the code itself, and so in the model.

  \<^bold>\<open>Conventions.\<close> A C \<^verbatim>\<open>panic\<close>, failed \<^verbatim>\<open>assert\<close> or null dereference is \<^term>\<open>None\<close>; error codes are the
  negative words the code returns. Machine integers are words of their width and wrap as in C.

  \<^bold>\<open>Not modelled.\<close> The boot and exception assembly, of which the kernel theories use the documented effect;
  the files \<^verbatim>\<open>kern/swap.c\<close> and \<^verbatim>\<open>kern/sdisk.c\<close>, which are not built; the tests and demonstration programs;
  the one-line wrappers of the system calls. The network of calls between two processes is cut at
  the messages: the server's side is \<^verbatim>\<open>Serv\<close>, the client's is \<^verbatim>\<open>FileClient\<close>. The system calls of \<^verbatim>\<open>FileClient\<close> and \<^verbatim>\<open>Spawn\<close>
  and the disk of \<^verbatim>\<open>Fs\<close> are what their callers see of them when memory does not run out; the kernel's side is
  \<^verbatim>\<open>Syscall\<close>, the driver's \<^verbatim>\<open>Pio\<close>.
\<close>

end
